(* ===== verification/Prelude.thy ===== *)
theory Prelude imports Main "HOL-Library.Word" "HOL-Library.Sublist" "HOL-Library.Multiset" "HOL-Library.Signed_Division" begin

text \<open>
  Shared vocabulary of the development: the C integer types at their widths, the arithmetic of
  \<open>size_t\<close>, readers over byte strings and the two interfaces most components talk through
  (a reader that only consumes a prefix of its input, and an encoder with its decoder).
\<close>

unbundle bit_operations_syntax

section \<open>C integer types\<close>

type_synonym u8 = "8 word"
type_synonym u16 = "16 word"
type_synonym u32 = "32 word"
type_synonym u64 = "64 word"

text \<open>
  A \<open>size_t\<close> is 64 bits wide on every target the application is built for (arm64 and
  x86-64).  Sizes are natural numbers below \<open>2 ^ 64\<close>; a sum or a product that the code
  computes wraps, and the model writes the wrap-around out.
\<close>

definition SIZE_MAX :: nat where
  "SIZE_MAX = 2 ^ 64 - 1"

definition size_add :: "nat \<Rightarrow> nat \<Rightarrow> nat" where
  "size_add a b = (a + b) mod 2 ^ 64"

definition size_mul :: "nat \<Rightarrow> nat \<Rightarrow> nat" where
  "size_mul a b = (a * b) mod 2 ^ 64"

definition INT_MAX :: nat where
  "INT_MAX = 2147483647"

named_theorems size_simps "wrap-around arithmetic of size_t when nothing overflows"

lemma size_add_id [size_simps]: "a + b < 2 ^ 64 \<Longrightarrow> size_add a b = a + b"
  by (simp add: size_add_def)

lemma size_mul_id [size_simps]: "a * b < 2 ^ 64 \<Longrightarrow> size_mul a b = a * b"
  by (simp add: size_mul_def)

lemma size_add_wraps:
  assumes "a < 2 ^ 64" "b < 2 ^ 64"
  shows "size_add a b < a \<longleftrightarrow> 2 ^ 64 \<le> a + b"
proof (cases "a + b < 2 ^ 64")
  case True
  then show ?thesis by (simp add: size_add_def)
next
  case False
  with assms have "(a + b) mod 2 ^ 64 = a + b - 2 ^ 64"
    by (simp add: mod_if)
  with False assms show ?thesis by (simp add: size_add_def)
qed

section \<open>Heap allocation\<close>

text \<open>
  The allocator is the C library's.  It is a parameter of every operation that allocates: for a
  size it either fails or hands out a block whose initial contents are arbitrary.
\<close>

type_synonym allocator = "nat \<Rightarrow> (nat \<Rightarrow> u8) option"

definition always_allocates :: "allocator \<Rightarrow> bool" where
  "always_allocates al \<longleftrightarrow> (\<forall>n. al n \<noteq> None)"

section \<open>Readers\<close>

text \<open>
  A reader takes the bytes that are left and gives a result, or none where the C function returns
  zero, together with the bytes that are left afterwards.  What a failing function has consumed
  stays consumed, as in the code.
\<close>

type_synonym bytes = "u8 list"
type_synonym 'a reader = "bytes \<Rightarrow> 'a option \<times> bytes"

definition rret :: "'a \<Rightarrow> 'a reader" where
  "rret a c = (Some a, c)"

definition rfail :: "'a reader" where
  "rfail c = (None, c)"

definition rbind :: "'a reader \<Rightarrow> ('a \<Rightarrow> 'b reader) \<Rightarrow> 'b reader" where
  "rbind m f c = (case m c of (None, c') \<Rightarrow> (None, c') | (Some a, c') \<Rightarrow> f a c')"

named_theorems reader_simps "unfolding of the reader combinators"

lemma rret_simp [simp, reader_simps]: "rret a c = (Some a, c)"
  by (simp add: rret_def)

lemma rfail_simp [simp, reader_simps]: "rfail c = (None, c)"
  by (simp add: rfail_def)

lemma rbind_Some [reader_simps]: "m c = (Some a, c') \<Longrightarrow> rbind m f c = f a c'"
  by (simp add: rbind_def)

lemma rbind_None [reader_simps]: "m c = (None, c') \<Longrightarrow> rbind m f c = (None, c')"
  by (simp add: rbind_def)

lemma rbind_SomeE:
  assumes "rbind m f c = (Some b, c'')"
  obtains a c' where "m c = (Some a, c')" and "f a c' = (Some b, c'')"
  using assms by (auto simp: rbind_def split: prod.splits option.splits)

lemma rbind_assoc: "rbind (rbind m f) g = rbind m (\<lambda>a. rbind (f a) g)"
  by (auto simp: rbind_def fun_eq_iff split: prod.splits option.splits)

lemma rbind_rret [simp]: "rbind m rret = m"
  by (auto simp: rbind_def fun_eq_iff split: prod.splits option.splits)

subsection \<open>The reader interface\<close>

text \<open>
  What a caller relies on when it hands a byte string to a reader: whatever happens, the bytes
  that are left are a suffix of the bytes that were there, so nothing outside the input is read
  and no byte is read twice.
\<close>

locale byte_reader =
  fixes rd :: "'a reader"
  assumes leaves_suffix: "suffix (snd (rd c)) c"
begin

lemma left_suffix: "rd c = (r, c') \<Longrightarrow> suffix c' c"
  using leaves_suffix [of c] by simp

lemma left_length: "rd c = (r, c') \<Longrightarrow> length c' \<le> length c"
  by (rule suffix_length_le) (rule left_suffix)

lemma consumed_prefix: "rd c = (r, c') \<Longrightarrow> \<exists>p. c = p @ c'"
  using left_suffix by (auto simp: suffix_def)

end

lemma rbind_reader:
  assumes "byte_reader m" and "\<And>a. byte_reader (f a)"
  shows "byte_reader (rbind m f)"
proof
  fix c
  obtain r c' where m: "m c = (r, c')" by fastforce
  from assms(1) m have s: "suffix c' c" by (rule byte_reader.left_suffix)
  show "suffix (snd (rbind m f c)) c"
  proof (cases r)
    case None
    with m s show ?thesis by (simp add: rbind_None)
  next
    case (Some a)
    have "suffix (snd (f a c')) c'" by (rule byte_reader.leaves_suffix [OF assms(2)])
    with m s Some show ?thesis by (auto simp: rbind_Some intro: suffix_order.trans)
  qed
qed

lemma rret_reader [intro!, simp]: "byte_reader (rret a)"
  by unfold_locales simp

lemma rfail_reader [intro!, simp]: "byte_reader rfail"
  by unfold_locales simp

lemma if_reader: "(b \<Longrightarrow> byte_reader m) \<Longrightarrow> (\<not> b \<Longrightarrow> byte_reader n) \<Longrightarrow> byte_reader (if b then m else n)"
  by simp

subsection \<open>The codec interface\<close>

text \<open>
  An encoder and the reader that undoes it.  The law is stated in front of an arbitrary rest, as
  encodings are written one after the other into one buffer.
\<close>

locale codec =
  fixes enc :: "'a \<Rightarrow> bytes" and dec :: "'a reader" and valid :: "'a \<Rightarrow> bool"
  assumes dec_enc: "valid a \<Longrightarrow> dec (enc a @ r) = (Some a, r)"
begin

lemma enc_unambiguous:
  assumes "valid a" "valid b" "enc a @ r = enc b @ s"
  shows "a = b \<and> r = s"
proof -
  have "(Some a, r) = dec (enc b @ s)"
    using dec_enc [OF assms(1), of r] unfolding assms(3) by (rule sym)
  also have "\<dots> = (Some b, s)" by (rule dec_enc [OF assms(2)])
  finally show ?thesis by simp
qed

lemma enc_inj: "inj_on enc (Collect valid)"
  by (rule inj_onI) (use enc_unambiguous [of _ _ "[]" "[]"] in auto)

lemma prefix_free: "valid a \<Longrightarrow> valid b \<Longrightarrow> prefix (enc a) (enc b) \<Longrightarrow> a = b"
  using enc_unambiguous [of a b _ "[]"] by (auto simp: prefix_def)

end

subsection \<open>Reading until the input is used up\<close>

text \<open>
  \<open>while (CBS_len(&cbs) != 0) { if (!read(&cbs)) return 0; }\<close>: the loop stops at the first
  failure; the fuel is the length of the input, and it is enough when the reader consumes at
  least one byte (\<open>many_enough\<close>).
\<close>

fun many :: "nat \<Rightarrow> 'a reader \<Rightarrow> bytes \<Rightarrow> 'a list option" where
  "many n rd [] = Some []"
| "many 0 rd (b # c) = None"
| "many (Suc n) rd (b # c) =
     (case rd (b # c) of (None, _) \<Rightarrow> None
      | (Some a, c') \<Rightarrow> map_option (\<lambda>as. a # as) (many n rd c'))"

definition read_all :: "'a reader \<Rightarrow> bytes \<Rightarrow> 'a list option" where
  "read_all rd c = many (length c) rd c"

locale progress_reader = byte_reader +
  assumes progress: "rd c = (Some a, c') \<Longrightarrow> length c' < length c"
begin

lemma many_enough: "length c \<le> n \<Longrightarrow> many n rd c = many (length c) rd c"
proof (induction n arbitrary: c rule: less_induct)
  case (less n)
  show ?case
  proof (cases c)
    case Nil
    then show ?thesis by simp
  next
    case (Cons b cs)
    with less.prems obtain k where n: "n = Suc k" by (cases n) auto
    have "many k rd c' = many (length cs) rd c'"
      if "rd (b # cs) = (Some a, c')" for a c'
    proof -
      from progress [OF that] have l: "length c' \<le> length cs" by simp
      have "many k rd c' = many (length c') rd c'"
        by (rule less.IH) (use l n Cons less.prems in auto)
      moreover have "many (length cs) rd c' = many (length c') rd c'"
        by (rule less.IH) (use l n Cons less.prems in auto)
      ultimately show ?thesis by simp
    qed
    with Cons n show ?thesis by (auto split: prod.splits option.splits)
  qed
qed

lemma read_all_Nil [simp]: "read_all rd [] = Some []"
  by (simp add: read_all_def)

lemma read_all_step:
  assumes "rd c = (Some a, c')"
  shows "read_all rd c = map_option (\<lambda>as. a # as) (read_all rd c')"
proof -
  from progress [OF assms] obtain b cs where c: "c = b # cs" and l: "length c' \<le> length cs"
    by (cases c) auto
  from many_enough [OF l] assms c show ?thesis by (simp add: read_all_def)
qed

lemma read_all_stop:
  assumes "rd c = (None, c')" and "c \<noteq> []"
  shows "read_all rd c = None"
  using assms by (cases c) (auto simp: read_all_def)

text \<open>Induction over the loop: the input is empty, or one item and then a shorter rest.\<close>

lemma read_all_induct:
  assumes "read_all rd c = Some as"
    and "P [] []"
    and "\<And>c a c' as. rd c = (Some a, c') \<Longrightarrow> read_all rd c' = Some as \<Longrightarrow> P c' as \<Longrightarrow> P c (a # as)"
  shows "P c as"
  using assms(1)
proof (induction "length c" arbitrary: c as rule: less_induct)
  case less
  show ?case
  proof (cases "c = []")
    case True
    with less.prems assms(2) show ?thesis by simp
  next
    case False
    with less.prems obtain a c' where r: "rd c = (Some a, c')"
      using read_all_stop [OF _ False] by (metis option.distinct(1) not_None_eq surj_pair)
    with less.prems obtain as' where "as = a # as'" "read_all rd c' = Some as'"
      by (auto simp: read_all_step [OF r])
    with r less.hyps [OF progress [OF r]] assms(3) show ?thesis by blast
  qed
qed

end

text \<open>Items written one after the other are read back, when reader and encoder fit together.\<close>

locale stream_codec = codec + progress_reader dec +
  assumes nothing_is_no_item: "valid a \<Longrightarrow> enc a \<noteq> []"
begin

lemma read_all_enc:
  assumes "\<forall>a \<in> set as. valid a"
  shows "read_all dec (concat (map enc as)) = Some as"
  using assms
proof (induction as)
  case Nil
  then show ?case by simp
next
  case (Cons a as)
  from Cons.prems dec_enc [of a "concat (map enc as)"]
  have "dec (concat (map enc (a # as))) = (Some a, concat (map enc as))" by simp
  from read_all_step [OF this] Cons show ?case by simp
qed

end

end
