(* ===== verification/Bytes.thy ===== *)
theory Bytes imports Prelude begin

text \<open>
  Numbers as byte strings: the value of a big-endian and of a little-endian byte string, the byte
  string of a given width of a number, and how the shift-and-or loops of the code compute them on
  machine words.  No definition here models code; the components' theories do, and these are the
  reference functions their loops are proved against.
\<close>

section \<open>Reference conversions\<close>

definition be_val :: "bytes \<Rightarrow> nat" where
  "be_val bs = foldl (\<lambda>v b. v * 256 + unat b) 0 bs"

definition le_val :: "bytes \<Rightarrow> nat" where
  "le_val bs = foldr (\<lambda>b v. unat b + 256 * v) bs 0"

fun be_bytes :: "nat \<Rightarrow> nat \<Rightarrow> bytes" where
  "be_bytes 0 v = []"
| "be_bytes (Suc n) v = be_bytes n (v div 256) @ [word_of_nat (v mod 256)]"

fun le_bytes :: "nat \<Rightarrow> nat \<Rightarrow> bytes" where
  "le_bytes 0 v = []"
| "le_bytes (Suc n) v = word_of_nat (v mod 256) # le_bytes n (v div 256)"

named_theorems byte_simps "values and lengths of byte strings"

lemma unat_byte_less [simp]: "unat (b :: u8) < 256"
  using unsigned_less [of b, where ?'a = nat] by simp

lemma unat_byte_of_nat [simp]: "unat (word_of_nat (v mod 256) :: u8) = v mod 256"
  by (simp add: unat_of_nat)

text \<open>A fact about all bytes can be checked one by one.\<close>

lemma u8_exhaust:
  assumes "\<forall>n \<in> set [0..<256]. P (word_of_nat n)"
  shows "P (c :: u8)"
proof -
  have "unat c \<in> set [0..<256]" using unat_byte_less [of c] by (simp del: unat_byte_less)
  with assms have "P (word_of_nat (unat c))" by blast
  then show ?thesis by simp
qed

lemma be_val_Nil [simp]: "be_val [] = 0"
  by (simp add: be_val_def)

lemma be_val_snoc [simp]: "be_val (bs @ [b]) = be_val bs * 256 + unat b"
  by (simp add: be_val_def)

lemma be_val_append: "be_val (as @ bs) = be_val as * 256 ^ length bs + be_val bs"
proof (induction bs rule: rev_induct)
  case Nil
  then show ?case by simp
next
  case (snoc b bs)
  have "be_val (as @ bs @ [b]) = be_val (as @ bs) * 256 + unat b"
    using be_val_snoc [of "as @ bs" b] by simp
  with snoc show ?case by (simp add: algebra_simps)
qed

lemma be_val_single [simp]: "be_val [b] = unat b"
  by (simp add: be_val_def)

lemma be_val_Cons: "be_val (b # bs) = unat b * 256 ^ length bs + be_val bs"
  using be_val_append [of "[b]" bs] by simp

lemma be_val_less: "be_val bs < 256 ^ length bs"
proof (induction bs rule: rev_induct)
  case Nil
  then show ?case by simp
next
  case (snoc b bs)
  then have "(be_val bs + 1) * 256 \<le> 256 ^ length bs * 256"
    by (intro mult_le_mono1) simp
  moreover have "be_val bs * 256 + unat b < (be_val bs + 1) * 256"
    using unat_byte_less [of b] by simp
  ultimately have "be_val bs * 256 + unat b < 256 ^ length bs * 256" by (rule less_le_trans [rotated])
  then show ?case by (simp add: mult.commute)
qed

lemma le_val_Nil [simp]: "le_val [] = 0"
  by (simp add: le_val_def)

lemma le_val_Cons [simp]: "le_val (b # bs) = unat b + 256 * le_val bs"
  by (simp add: le_val_def)

lemma le_val_rev: "le_val (rev bs) = be_val bs"
proof (induction bs rule: rev_induct)
  case (snoc b bs)
  then show ?case by simp
qed simp

lemma length_be_bytes [simp]: "length (be_bytes n v) = n"
  by (induction n arbitrary: v) auto

lemma length_le_bytes [simp]: "length (le_bytes n v) = n"
  by (induction n arbitrary: v) auto

lemma rev_be_bytes: "rev (be_bytes n v) = le_bytes n v"
  by (induction n arbitrary: v) auto

lemma be_val_be_bytes [simp]: "be_val (be_bytes n v) = v mod 256 ^ n"
proof (induction n arbitrary: v)
  case 0
  then show ?case by simp
next
  case (Suc n)
  have "v mod (256 * 256 ^ n) = 256 * (v div 256 mod 256 ^ n) + v mod 256"
    by (rule mod_mult2_eq)
  with Suc show ?case by simp
qed

lemma le_val_le_bytes [simp]: "le_val (le_bytes n v) = v mod 256 ^ n"
proof -
  have "le_val (rev (be_bytes n v)) = v mod 256 ^ n" by (simp add: le_val_rev)
  then show ?thesis by (simp add: rev_be_bytes)
qed

lemma be_bytes_be_val: "be_bytes (length bs) (be_val bs) = bs"
proof (induction bs rule: rev_induct)
  case (snoc b bs)
  have "(word_of_nat (unat b) :: u8) = b" by simp
  with snoc show ?case by simp
qed simp

lemma le_val_less: "le_val bs < 256 ^ length bs"
  using be_val_less [of "rev bs"] le_val_rev [of "rev bs"] by simp

lemma le_bytes_le_val: "le_bytes (length bs) (le_val bs) = bs"
  using be_bytes_be_val [of "rev bs"] le_val_rev [of "rev bs"]
  by (metis length_rev rev_be_bytes rev_rev_ident)

lemma be_val_inj: "length as = length bs \<Longrightarrow> be_val as = be_val bs \<Longrightarrow> as = bs"
  by (metis be_bytes_be_val)

lemma be_val_zero_iff: "be_val bs = 0 \<longleftrightarrow> (\<forall>b \<in> set bs. b = 0)"
proof (induction bs rule: rev_induct)
  case (snoc b bs)
  then show ?case by (auto simp: unat_eq_zero)
qed simp

section \<open>Bits of the machine words\<close>

lemma unat_or_disjoint:
  fixes a b :: "'a::len word"
  assumes "a AND b = 0"
  shows "unat (a OR b) = unat a + unat b"
proof -
  have "unat a AND unat b = unat (a AND b)" by (simp only: unsigned_and_eq)
  with assms have "unat a AND unat b = 0" by simp
  then have "unat a + unat b = unat a OR unat b" by (rule disjunctive_add_eq_or)
  then show ?thesis by (simp only: unsigned_or_eq)
qed

lemma word_xor_zero_iff: "a XOR b = 0 \<longleftrightarrow> a = (b :: 'a::len word)"
proof
  assume "a XOR b = 0"
  have "a = a XOR (b XOR b)" by simp
  also have "\<dots> = (a XOR b) XOR b" by (simp only: xor.assoc)
  also have "\<dots> = b" unfolding \<open>a XOR b = 0\<close> by simp
  finally show "a = b" .
qed simp

lemma unat_push_bit_mod: "unat (push_bit n (a :: 'a::len word)) = unat a * 2 ^ n mod 2 ^ LENGTH('a)"
proof -
  have "unat (push_bit n a) = take_bit LENGTH('a) (push_bit n (unat a))" by (rule unsigned_push_bit_eq)
  also have "\<dots> = unat a * 2 ^ n mod 2 ^ LENGTH('a)" by (simp only: take_bit_eq_mod push_bit_eq_mult)
  finally show ?thesis .
qed

lemma unat_drop_bit_div: "unat (drop_bit n (a :: 'a::len word)) = unat a div 2 ^ n"
proof -
  have "unat (drop_bit n a) = drop_bit n (unat a)" by (rule unat_drop_bit_eq)
  also have "\<dots> = unat a div 2 ^ n" by (rule drop_bit_eq_div)
  finally show ?thesis .
qed

lemma unat_ucast_mod: "unat (ucast (a :: 'a::len word) :: 'b::len word) = unat a mod 2 ^ LENGTH('b)"
  by (simp only: unsigned_ucast_eq take_bit_eq_mod)

lemma shift_or_byte:
  fixes v :: u64 and b :: u8
  shows "unat (push_bit 8 v OR ucast b) = (unat v * 256 + unat b) mod 2 ^ 64"
proof -
  have "unat (push_bit 8 v OR ucast b) = unat (push_bit 8 v) + unat (ucast b :: u64)"
    by (rule unat_or_disjoint, rule bit_word_eqI) (auto simp: bit_simps dest: bit_imp_le_length)
  also have "\<dots> = unat v * 256 mod 2 ^ 64 + unat b"
    using unat_byte_less [of b] by (simp add: unat_push_bit_mod unat_ucast_mod del: unat_byte_less)
  also have "unat v * 256 mod 2 ^ 64 = 256 * (unat v mod 2 ^ 56)"
    using mult_mod_right [of 256 "unat v" "2 ^ 56"] by (simp add: mult.commute)
  also have "256 * (unat v mod 2 ^ 56) + unat b = (unat v * 256 + unat b) mod 2 ^ 64"
  proof -
    have "(unat v * 256 + unat b) mod (256 * 2 ^ 56)
        = 256 * ((unat v * 256 + unat b) div 256 mod 2 ^ 56) + (unat v * 256 + unat b) mod 256"
      by (rule mod_mult2_eq)
    then show ?thesis by simp
  qed
  finally show ?thesis .
qed

text \<open>The big-endian accumulation loop of the parsers.\<close>

definition be_loop :: "u64 \<Rightarrow> bytes \<Rightarrow> u64" where
  "be_loop v bs = foldl (\<lambda>r b. push_bit 8 r OR ucast b) v bs"

lemma be_loop_append: "be_loop v (as @ bs) = be_loop (be_loop v as) bs"
  by (simp add: be_loop_def)

lemma unat_be_loop: "unat (be_loop 0 bs) = be_val bs mod 2 ^ 64"
proof (induction bs rule: rev_induct)
  case Nil
  then show ?case by (simp add: be_loop_def)
next
  case (snoc b bs)
  have "unat (be_loop 0 (bs @ [b])) = (unat (be_loop 0 bs) * 256 + unat b) mod 2 ^ 64"
    by (simp only: be_loop_append) (simp add: be_loop_def shift_or_byte del: push_bit_eq_mult)
  also have "\<dots> = (be_val bs * 256 + unat b) mod 2 ^ 64"
    by (simp only: snoc mod_add_left_eq mod_mult_left_eq) (metis mod_add_left_eq mod_mult_left_eq)
  finally show ?case by simp
qed

lemma unat_be_loop_small: "length bs \<le> 8 \<Longrightarrow> unat (be_loop 0 bs) = be_val bs"
proof -
  assume "length bs \<le> 8"
  then have "(256::nat) ^ length bs \<le> 256 ^ 8" by (intro power_increasing) auto
  with be_val_less [of bs] have "be_val bs < 2 ^ 64" by simp
  then show ?thesis by (simp add: unat_be_loop)
qed

section \<open>Masks and single bits\<close>

lemma unat_and_mask: "unat (w AND mask n) = unat (w :: 'a::len word) mod 2 ^ n"
proof -
  have "unat (w AND mask n) = unat (take_bit n w)" by (simp only: take_bit_eq_mask)
  also have "\<dots> = take_bit n (unat w)" by (rule unsigned_take_bit_eq)
  also have "\<dots> = unat w mod 2 ^ n" by (rule take_bit_eq_mod)
  finally show ?thesis .
qed

lemma unat_and_7f: "unat (b AND 0x7f) = unat (b :: u8) mod 128"
  using unat_and_mask [of b 7] by (simp add: mask_eq_exp_minus_1)

lemma unat_and_1f: "unat (b AND 0x1f) = unat (b :: u8) mod 32"
  using unat_and_mask [of b 5] by (simp add: mask_eq_exp_minus_1)

lemma bit_top_iff: "bit (w :: 'a::len word) n \<longleftrightarrow> odd (unat w div 2 ^ n)"
proof -
  have "bit (unat w) n = bit w n" by (simp add: bit_unsigned_iff)
  then show ?thesis by (simp only: bit_iff_odd [of "unat w"])
qed

lemma and_80_zero: "b AND 0x80 = 0 \<longleftrightarrow> unat (b :: u8) < 128"
proof -
  have "b AND 0x80 = 0 \<longleftrightarrow> \<not> bit b 7"
    using and_exp_eq_0_iff_not_bit [of b 7] by simp
  also have "\<dots> \<longleftrightarrow> even (unat b div 128)" by (simp add: bit_top_iff)
  also have "\<dots> \<longleftrightarrow> unat b < 128"
  proof -
    have "unat b div 128 = 0 \<or> unat b div 128 = 1" using unat_byte_less [of b] by linarith
    moreover have "unat b div 128 = 0 \<longleftrightarrow> unat b < 128" by (simp add: div_eq_0_iff)
    ultimately show ?thesis by (metis even_zero odd_one)
  qed
  finally show ?thesis .
qed

lemma shift_or_small:
  fixes v x :: "'a::len word"
  assumes "unat x < 2 ^ k"
  shows "unat (push_bit k v OR x) = unat v * 2 ^ k mod 2 ^ LENGTH('a) + unat x"
proof -
  have "take_bit k (unat x) = unat x" using assms by (simp add: take_bit_nat_eq_self_iff)
  then have "take_bit k x = x" by (metis unsigned_take_bit_eq word_unat_eq_iff)
  then have "push_bit k v AND x = 0"
    by (metis (no_types) and.assoc and.commute and_zero_eq bit_simps(1) take_bit_eq_mask take_bit_push_bit diff_self_eq_0 take_bit_0 push_bit_of_0)
  then show ?thesis by (simp add: unat_or_disjoint unat_push_bit_mod)
qed
end
