(* ===== verification/Mem.thy ===== *)
theory Mem imports Bytes begin

text \<open>
  The support routines of \<open>crypto/mem.c\<close> and the inline helpers of \<open>crypto/internal.h\<close>:
  allocation on top of the C library's \<open>malloc\<close>, byte comparison and hashing, the
  locale-independent character and string functions, byte swapping, and the constant-time
  word operations.  A block of memory is the list of its bytes.  A C string is the list of its
  characters; reading at its length yields the terminator.
\<close>

section \<open>Allocation\<close>

text \<open>
  \<open>OPENSSL_malloc\<close> puts the size in front of the block, which is why it asks \<open>malloc\<close>
  for eight bytes more and checks that sum for overflow.  The overriding allocator hooks
  (\<open>OPENSSL_memory_alloc\<close>) are weak symbols that nothing in the application defines.
\<close>

definition OPENSSL_MALLOC_PREFIX :: nat where
  "OPENSSL_MALLOC_PREFIX = 8"

definition OPENSSL_malloc :: "allocator \<Rightarrow> nat \<Rightarrow> bytes option" where
  "OPENSSL_malloc al sz =
     (if size_add sz OPENSSL_MALLOC_PREFIX < sz then None
      else case al (size_add sz OPENSSL_MALLOC_PREFIX) of None \<Rightarrow> None
           | Some junk \<Rightarrow> Some (map (\<lambda>i. junk (i + OPENSSL_MALLOC_PREFIX)) [0..<sz]))"

definition OPENSSL_zalloc :: "allocator \<Rightarrow> nat \<Rightarrow> bytes option" where
  "OPENSSL_zalloc al sz =
     (case OPENSSL_malloc al sz of None \<Rightarrow> None | Some ret \<Rightarrow> Some (replicate sz 0))"

definition OPENSSL_calloc :: "allocator \<Rightarrow> nat \<Rightarrow> nat \<Rightarrow> bytes option" where
  "OPENSSL_calloc al num sz =
     (if sz \<noteq> 0 \<and> SIZE_MAX div sz < num then None
      else OPENSSL_zalloc al (size_mul num sz))"

definition OPENSSL_realloc :: "allocator \<Rightarrow> bytes option \<Rightarrow> nat \<Rightarrow> bytes option" where
  "OPENSSL_realloc al orig new_size =
     (case orig of None \<Rightarrow> OPENSSL_malloc al new_size
      | Some old \<Rightarrow>
          (case OPENSSL_malloc al new_size of None \<Rightarrow> None
           | Some ret \<Rightarrow>
               (let to_copy = (if length old < new_size then length old else new_size)
                in Some (take to_copy old @ drop to_copy ret))))"

definition OPENSSL_cleanse :: "bytes \<Rightarrow> nat \<Rightarrow> bytes" where
  "OPENSSL_cleanse p len = replicate len 0 @ drop len p"

definition OPENSSL_memdup :: "allocator \<Rightarrow> bytes \<Rightarrow> nat \<Rightarrow> bytes option" where
  "OPENSSL_memdup al data sz =
     (if sz = 0 then None
      else case OPENSSL_malloc al sz of None \<Rightarrow> None
           | Some ret \<Rightarrow> Some (take sz data @ drop sz ret))"

lemma OPENSSL_malloc_length: "OPENSSL_malloc al n = Some b \<Longrightarrow> length b = n"
  by (auto simp: OPENSSL_malloc_def split: if_splits option.splits)

lemma OPENSSL_realloc_length: "OPENSSL_realloc al p n = Some b \<Longrightarrow> length b = n"
  by (auto simp: OPENSSL_realloc_def Let_def dest: OPENSSL_malloc_length
      split: if_splits option.splits)

lemma OPENSSL_realloc_keeps:
  "OPENSSL_realloc al (Some old) n = Some b \<Longrightarrow> k \<le> length old \<Longrightarrow> k \<le> n \<Longrightarrow> take k b = take k old"
  by (auto simp: OPENSSL_realloc_def Let_def min_def split: if_splits option.splits)

lemma OPENSSL_malloc_succeeds:
  assumes "always_allocates al" "n + 8 < 2 ^ 64"
  obtains b where "OPENSSL_malloc al n = Some b" "length b = n"
proof -
  from assms(1) obtain junk where "al (n + 8) = Some junk"
    unfolding always_allocates_def by blast
  with assms(2) have "OPENSSL_malloc al n = Some (map (\<lambda>i. junk (i + OPENSSL_MALLOC_PREFIX)) [0..<n])"
    by (simp add: OPENSSL_malloc_def OPENSSL_MALLOC_PREFIX_def size_simps)
  then show thesis using that by simp
qed

lemma OPENSSL_realloc_succeeds:
  assumes "always_allocates al" "n + 8 < 2 ^ 64"
  obtains b where "OPENSSL_realloc al p n = Some b" "length b = n"
proof -
  obtain m where "OPENSSL_malloc al n = Some m" by (rule OPENSSL_malloc_succeeds [OF assms])
  then obtain b where "OPENSSL_realloc al p n = Some b"
    by (cases p) (auto simp: OPENSSL_realloc_def Let_def)
  with OPENSSL_realloc_length show thesis using that by blast
qed

lemma OPENSSL_memdup_data:
  "OPENSSL_memdup al d n = Some b \<Longrightarrow> length d = n \<Longrightarrow> b = d"
  by (auto simp: OPENSSL_memdup_def dest: OPENSSL_malloc_length split: if_splits option.splits)

section \<open>Comparing and hashing bytes\<close>

definition CRYPTO_memcmp :: "bytes \<Rightarrow> bytes \<Rightarrow> nat \<Rightarrow> u8" where
  "CRYPTO_memcmp a b len = foldl (\<lambda>x i. x OR (a ! i XOR b ! i)) 0 [0..<len]"

definition OPENSSL_hash32 :: "bytes \<Rightarrow> u32" where
  "OPENSSL_hash32 p = foldl (\<lambda>h c. (h XOR ucast c) * 16777619) 2166136261 p"

definition strlen :: "bytes \<Rightarrow> nat" where
  "strlen s = length (takeWhile (\<lambda>c. c \<noteq> 0) s)"

definition OPENSSL_strhash :: "bytes \<Rightarrow> u32" where
  "OPENSSL_strhash s = OPENSSL_hash32 (take (strlen s) s)"

text \<open>\<open>memchr\<close> and \<open>memcmp\<close> of the C library, behind the wrappers for empty arrays.\<close>

fun memchr :: "u8 \<Rightarrow> bytes \<Rightarrow> nat option" where
  "memchr c [] = None"
| "memchr c (b # bs) = (if b = c then Some 0 else map_option Suc (memchr c bs))"

definition OPENSSL_memchr :: "bytes \<Rightarrow> u8 \<Rightarrow> nat \<Rightarrow> nat option" where
  "OPENSSL_memchr s c n = (if n = 0 then None else memchr c (take n s))"

fun memcmp :: "bytes \<Rightarrow> bytes \<Rightarrow> int" where
  "memcmp (a # as) (b # bs) = (if a < b then -1 else if b < a then 1 else memcmp as bs)"
| "memcmp _ _ = 0"

definition OPENSSL_memcmp :: "bytes \<Rightarrow> bytes \<Rightarrow> nat \<Rightarrow> int" where
  "OPENSSL_memcmp s1 s2 n = (if n = 0 then 0 else memcmp (take n s1) (take n s2))"

lemma CRYPTO_memcmp_Suc:
  "CRYPTO_memcmp a b (Suc n) = CRYPTO_memcmp a b n OR (a ! n XOR b ! n)"
  by (simp add: CRYPTO_memcmp_def)

lemma CRYPTO_memcmp_zero: "CRYPTO_memcmp a b n = 0 \<longleftrightarrow> (\<forall>i < n. a ! i = b ! i)"
proof (induction n)
  case 0
  then show ?case by (simp add: CRYPTO_memcmp_def)
next
  case (Suc n)
  then show ?case
    by (simp only: CRYPTO_memcmp_Suc or_eq_0_iff word_xor_zero_iff All_less_Suc) blast
qed

lemma CRYPTO_memcmp_eq:
  "length a = n \<Longrightarrow> length b = n \<Longrightarrow> CRYPTO_memcmp a b n = 0 \<longleftrightarrow> a = b"
  by (simp add: CRYPTO_memcmp_zero list_eq_iff_nth_eq)

lemma memchr_Some:
  "memchr c bs = Some i \<Longrightarrow> i < length bs \<and> bs ! i = c \<and> (\<forall>j < i. bs ! j \<noteq> c)"
  by (induction bs arbitrary: i) (fastforce split: if_splits simp: less_Suc_eq_0_disj)+

lemma memchr_None: "memchr c bs = None \<longleftrightarrow> c \<notin> set bs"
  by (induction bs) auto

lemma OPENSSL_memchr_None: "OPENSSL_memchr bs c (length bs) = None \<longleftrightarrow> c \<notin> set bs"
  by (auto simp: OPENSSL_memchr_def memchr_None)

lemma memcmp_Nil [simp]: "memcmp a [] = 0" "memcmp [] b = 0"
  by (cases a; simp)+

lemma memcmp_refl [simp]: "memcmp a a = 0"
  by (induction a) auto

lemma memcmp_zero: "length a = length b \<Longrightarrow> memcmp a b = 0 \<longleftrightarrow> a = b"
  by (induction a b rule: memcmp.induct) auto

lemma memcmp_sym: "memcmp b a = - memcmp a b"
proof (induction a b rule: memcmp.induct)
  case (1 a as b bs)
  then show ?case by (cases a b rule: linorder_cases) auto
qed auto

section \<open>Characters\<close>

definition OPENSSL_isalpha :: "int \<Rightarrow> bool" where
  "OPENSSL_isalpha c = ((97 \<le> c \<and> c \<le> 122) \<or> (65 \<le> c \<and> c \<le> 90))"

definition OPENSSL_isdigit :: "int \<Rightarrow> bool" where
  "OPENSSL_isdigit c = (48 \<le> c \<and> c \<le> 57)"

definition OPENSSL_isxdigit :: "int \<Rightarrow> bool" where
  "OPENSSL_isxdigit c = (OPENSSL_isdigit c \<or> (97 \<le> c \<and> c \<le> 102) \<or> (65 \<le> c \<and> c \<le> 70))"

definition OPENSSL_fromxdigit :: "int \<Rightarrow> u8 option" where
  "OPENSSL_fromxdigit c =
     (if OPENSSL_isdigit c then Some (word_of_int (c - 48))
      else if 97 \<le> c \<and> c \<le> 102 then Some (word_of_int (c - 97 + 10))
      else if 65 \<le> c \<and> c \<le> 70 then Some (word_of_int (c - 65 + 10))
      else None)"

definition OPENSSL_isalnum :: "int \<Rightarrow> bool" where
  "OPENSSL_isalnum c = (OPENSSL_isalpha c \<or> OPENSSL_isdigit c)"

definition OPENSSL_tolower :: "int \<Rightarrow> int" where
  "OPENSSL_tolower c = (if 65 \<le> c \<and> c \<le> 90 then c + (97 - 65) else c)"

definition OPENSSL_isspace :: "int \<Rightarrow> bool" where
  "OPENSSL_isspace c = (c = 9 \<or> c = 10 \<or> c = 11 \<or> c = 12 \<or> c = 13 \<or> c = 32)"

lemma OPENSSL_fromxdigit_iff: "OPENSSL_fromxdigit c \<noteq> None \<longleftrightarrow> OPENSSL_isxdigit c"
  by (simp add: OPENSSL_fromxdigit_def OPENSSL_isxdigit_def)

section \<open>Strings\<close>

text \<open>A \<open>char\<close> is signed on the application's targets; it is promoted to \<open>int\<close>.\<close>

definition char_at :: "bytes \<Rightarrow> int" where
  "char_at s = (case s of [] \<Rightarrow> 0 | c # _ \<Rightarrow> sint c)"

fun OPENSSL_strnlen :: "bytes \<Rightarrow> nat \<Rightarrow> nat" where
  "OPENSSL_strnlen s 0 = 0"
| "OPENSSL_strnlen [] (Suc len) = 0"
| "OPENSSL_strnlen (c # s) (Suc len) = (if c = 0 then 0 else Suc (OPENSSL_strnlen s len))"

definition OPENSSL_strdup :: "allocator \<Rightarrow> bytes \<Rightarrow> bytes option" where
  "OPENSSL_strdup al s = OPENSSL_memdup al (take (strlen s) s @ [0]) (strlen s + 1)"

definition OPENSSL_strndup :: "allocator \<Rightarrow> bytes \<Rightarrow> nat \<Rightarrow> bytes option" where
  "OPENSSL_strndup al str size0 =
     (let n = OPENSSL_strnlen str size0; alloc_size = size_add n 1
      in if alloc_size < n then None
         else case OPENSSL_malloc al alloc_size of None \<Rightarrow> None
              | Some ret \<Rightarrow> Some ((take n str @ drop n ret)[n := 0]))"

fun OPENSSL_strcasecmp :: "bytes \<Rightarrow> bytes \<Rightarrow> int" where
  "OPENSSL_strcasecmp a b =
     (let aa = OPENSSL_tolower (char_at a); bb = OPENSSL_tolower (char_at b)
      in if aa < bb then -1 else if aa > bb then 1 else if aa = 0 then 0
         else if a = [] then 0 else OPENSSL_strcasecmp (tl a) (tl b))"

declare OPENSSL_strcasecmp.simps [simp del]

fun OPENSSL_strncasecmp :: "bytes \<Rightarrow> bytes \<Rightarrow> nat \<Rightarrow> int" where
  "OPENSSL_strncasecmp a b 0 = 0"
| "OPENSSL_strncasecmp a b (Suc n) =
     (let aa = OPENSSL_tolower (char_at a); bb = OPENSSL_tolower (char_at b)
      in if aa < bb then -1 else if aa > bb then 1 else if aa = 0 then 0
         else OPENSSL_strncasecmp (tl a) (tl b) n)"

text \<open>
  The destination is its whole buffer; the result is the buffer afterwards and the length the
  function returns.
\<close>

fun OPENSSL_strlcpy :: "bytes \<Rightarrow> bytes \<Rightarrow> nat \<Rightarrow> bytes \<times> nat" where
  "OPENSSL_strlcpy dst src 0 = (dst, strlen src)"
| "OPENSSL_strlcpy dst src (Suc 0) = (dst[0 := 0], strlen src)"
| "OPENSSL_strlcpy dst [] (Suc (Suc n)) = (dst[0 := 0], strlen [])"
| "OPENSSL_strlcpy dst (c # src) (Suc (Suc n)) =
     (if c \<noteq> 0 then (case OPENSSL_strlcpy (tl dst) src (Suc n) of (d, l) \<Rightarrow> (take 1 (dst[0 := c]) @ d, Suc l))
      else (dst[0 := 0], strlen (c # src)))"

fun OPENSSL_strlcat :: "bytes \<Rightarrow> bytes \<Rightarrow> nat \<Rightarrow> bytes \<times> nat" where
  "OPENSSL_strlcat dst src 0 = OPENSSL_strlcpy dst src 0"
| "OPENSSL_strlcat [] src (Suc n) = OPENSSL_strlcpy [] src (Suc n)"
| "OPENSSL_strlcat (d # dst) src (Suc n) =
     (if d \<noteq> 0 then (case OPENSSL_strlcat dst src n of (dst', l) \<Rightarrow> (d # dst', Suc l))
      else OPENSSL_strlcpy (d # dst) src (Suc n))"

lemma OPENSSL_strnlen_eq: "OPENSSL_strnlen s n = length (takeWhile (\<lambda>c. c \<noteq> 0) (take n s))"
  by (induction s n rule: OPENSSL_strnlen.induct) auto

lemma strlen_Cons [simp]: "strlen (c # s) = (if c = 0 then 0 else Suc (strlen s))"
  by (simp add: strlen_def)

lemma strlen_Nil [simp]: "strlen [] = 0"
  by (simp add: strlen_def)

lemma strlcpy_result: "snd (OPENSSL_strlcpy dst src n) = strlen src"
  by (induction dst src n rule: OPENSSL_strlcpy.induct) (auto split: prod.splits)

lemma strlcpy_buffer:
  "length dst = n \<Longrightarrow> 0 < n \<Longrightarrow>
    fst (OPENSSL_strlcpy dst src n) =
      (let k = min (strlen src) (n - 1) in take k src @ [0] @ drop (Suc k) dst)"
proof (induction dst src n rule: OPENSSL_strlcpy.induct)
  case (2 dst src)
  then show ?case by (cases dst) auto
next
  case (3 dst n)
  then show ?case by (cases dst) (auto simp: Let_def)
next
  case (4 dst c src n)
  then show ?case by (cases dst) (auto simp: Let_def split: prod.splits)
qed simp

section \<open>Byte order\<close>

text \<open>
  The compilers' \<open>__builtin_bswap\<close> functions (the branch of the header that is compiled)
  reverse the bytes of their argument.
\<close>

definition CRYPTO_bswap2 :: "u16 \<Rightarrow> u16" where
  "CRYPTO_bswap2 x = word_of_nat (be_val (le_bytes 2 (unat x)))"

definition CRYPTO_bswap4 :: "u32 \<Rightarrow> u32" where
  "CRYPTO_bswap4 x = word_of_nat (be_val (le_bytes 4 (unat x)))"

definition CRYPTO_bswap8 :: "u64 \<Rightarrow> u64" where
  "CRYPTO_bswap8 x = word_of_nat (be_val (le_bytes 8 (unat x)))"

text \<open>The targets are little-endian: copying bytes into an integer reads them so.\<close>

definition CRYPTO_load_u32_le :: "bytes \<Rightarrow> u32" where
  "CRYPTO_load_u32_le p = word_of_nat (le_val (take 4 p))"

definition CRYPTO_load_u32_be :: "bytes \<Rightarrow> u32" where
  "CRYPTO_load_u32_be p = CRYPTO_bswap4 (word_of_nat (le_val (take 4 p)))"

definition CRYPTO_load_u64_le :: "bytes \<Rightarrow> u64" where
  "CRYPTO_load_u64_le p = word_of_nat (le_val (take 8 p))"

definition CRYPTO_load_u64_be :: "bytes \<Rightarrow> u64" where
  "CRYPTO_load_u64_be p = CRYPTO_bswap8 (word_of_nat (le_val (take 8 p)))"

lemma unat_CRYPTO_bswap2: "unat (CRYPTO_bswap2 x) = be_val (le_bytes 2 (unat x))"
  using be_val_less [of "le_bytes 2 (unat x)"] by (simp add: CRYPTO_bswap2_def unat_of_nat)

lemma unat_CRYPTO_bswap4: "unat (CRYPTO_bswap4 x) = be_val (le_bytes 4 (unat x))"
  using be_val_less [of "le_bytes 4 (unat x)"] by (simp add: CRYPTO_bswap4_def unat_of_nat)

lemma unat_CRYPTO_bswap8: "unat (CRYPTO_bswap8 x) = be_val (le_bytes 8 (unat x))"
  using be_val_less [of "le_bytes 8 (unat x)"] by (simp add: CRYPTO_bswap8_def unat_of_nat)

lemma unat_CRYPTO_load_u64_be:
  assumes "length p = 8" shows "unat (CRYPTO_load_u64_be p) = be_val p"
proof -
  have "le_val p < 2 ^ 64" using le_val_less [of p] assms by simp
  then have "unat (word_of_nat (le_val p) :: u64) = le_val p" by (simp add: unat_of_nat)
  with assms show ?thesis
    using le_bytes_le_val [of p] by (simp add: CRYPTO_load_u64_be_def unat_CRYPTO_bswap8)
qed

lemma unat_CRYPTO_load_u32_be:
  assumes "length p = 4" shows "unat (CRYPTO_load_u32_be p) = be_val p"
proof -
  have "le_val p < 2 ^ 32" using le_val_less [of p] assms by simp
  then have "unat (word_of_nat (le_val p) :: u32) = le_val p" by (simp add: unat_of_nat)
  with assms show ?thesis
    using le_bytes_le_val [of p] by (simp add: CRYPTO_load_u32_be_def unat_CRYPTO_bswap4)
qed

section \<open>Constant-time words\<close>

definition constant_time_msb_w :: "u64 \<Rightarrow> u64" where
  "constant_time_msb_w a = 0 - drop_bit 63 a"

definition constant_time_lt_w :: "u64 \<Rightarrow> u64 \<Rightarrow> u64" where
  "constant_time_lt_w a b = constant_time_msb_w (a XOR ((a XOR b) OR ((a - b) XOR a)))"

definition constant_time_lt_8 :: "u64 \<Rightarrow> u64 \<Rightarrow> u8" where
  "constant_time_lt_8 a b = ucast (constant_time_lt_w a b)"

definition constant_time_ge_w :: "u64 \<Rightarrow> u64 \<Rightarrow> u64" where
  "constant_time_ge_w a b = NOT (constant_time_lt_w a b)"

definition constant_time_ge_8 :: "u64 \<Rightarrow> u64 \<Rightarrow> u8" where
  "constant_time_ge_8 a b = ucast (constant_time_ge_w a b)"

definition constant_time_is_zero_w :: "u64 \<Rightarrow> u64" where
  "constant_time_is_zero_w a = constant_time_msb_w (NOT a AND (a - 1))"

definition constant_time_is_zero_8 :: "u64 \<Rightarrow> u8" where
  "constant_time_is_zero_8 a = ucast (constant_time_is_zero_w a)"

definition constant_time_eq_w :: "u64 \<Rightarrow> u64 \<Rightarrow> u64" where
  "constant_time_eq_w a b = constant_time_is_zero_w (a XOR b)"

definition constant_time_eq_8 :: "u64 \<Rightarrow> u64 \<Rightarrow> u8" where
  "constant_time_eq_8 a b = ucast (constant_time_eq_w a b)"

definition constant_time_select_w :: "u64 \<Rightarrow> u64 \<Rightarrow> u64 \<Rightarrow> u64" where
  "constant_time_select_w m0 a b = ((m0 AND a) OR (NOT m0 AND b))"

definition constant_time_select_8 :: "u64 \<Rightarrow> u8 \<Rightarrow> u8 \<Rightarrow> u8" where
  "constant_time_select_8 m0 a b = (let m = (ucast m0 :: u8) in (m AND a) OR (NOT m AND b))"

named_theorems ct_simps "constant-time operations as the comparisons they compute"

lemma bit63_iff: "bit (a :: u64) 63 \<longleftrightarrow> 2 ^ 63 \<le> unat a"
proof -
  have "bit a 63 \<longleftrightarrow> odd (unat a div 2 ^ 63)"
    by (metis bit_iff_odd bit_unsigned_iff bit_imp_possible_bit possible_bit_nat)
  moreover have "unat a < 2 ^ 64" using unsigned_less [of a, where ?'a = nat] by simp
  then have "unat a div 2 ^ 63 < 2" by simp
  ultimately show ?thesis by (cases "unat a div 2 ^ 63") (auto simp: div_eq_0_iff less_Suc_eq)
qed

lemma constant_time_msb_w_eq [ct_simps]:
  "constant_time_msb_w a = (if bit a 63 then -1 else 0)"
proof -
  have "drop_bit 63 a = of_bool (bit a 63)"
  proof (rule bit_word_eqI)
    fix n
    show "bit (drop_bit 63 a) n \<longleftrightarrow> bit (of_bool (bit a 63) :: u64) n"
      using bit_imp_le_length [of a "63 + n"] by (cases n) (auto simp: bit_simps)
  qed
  then show ?thesis by (simp add: constant_time_msb_w_def)
qed

lemma constant_time_is_zero_w_eq [ct_simps]:
  "constant_time_is_zero_w a = (if a = 0 then -1 else 0)"
proof (cases "a = 0")
  case True
  then show ?thesis by (simp add: constant_time_is_zero_w_def ct_simps)
next
  case False
  then have "unat (a - 1) = unat a - 1" and "0 < unat a"
    by (simp_all add: unat_minus_one unat_gt_0)
  then have "bit (a - 1) 63 \<Longrightarrow> bit a 63" unfolding bit63_iff by linarith
  with False show ?thesis by (auto simp: constant_time_is_zero_w_def ct_simps bit_simps)
qed

lemma constant_time_eq_w_eq [ct_simps]:
  "constant_time_eq_w a b = (if a = b then -1 else 0)"
  by (simp add: constant_time_eq_w_def ct_simps word_xor_zero_iff)

lemma borrow_iff_less:
  fixes m n :: nat
  assumes "2 ^ 63 \<le> m \<longleftrightarrow> 2 ^ 63 \<le> n" "m < 2 ^ 64" "n < 2 ^ 64"
  shows "2 ^ 63 \<le> (if n \<le> m then m - n else m + 2 ^ 64 - n) \<longleftrightarrow> m < n"
  using assms by (cases "n \<le> m") auto

lemma constant_time_lt_w_eq [ct_simps]:
  "constant_time_lt_w a b = (if a < b then -1 else 0)"
proof -
  have ua: "unat a < 2 ^ 64" and ub: "unat b < 2 ^ 64"
    using unsigned_less [of a, where ?'a = nat] unsigned_less [of b, where ?'a = nat] by simp_all
  have d: "unat (a - b) = (if unat b \<le> unat a then unat a - unat b else unat a + 2 ^ 64 - unat b)"
    by (simp add: unat_sub_if_size word_size)
  have "bit (a XOR ((a XOR b) OR ((a - b) XOR a))) 63 \<longleftrightarrow> a < b"
  proof (cases "bit a 63 \<longleftrightarrow> bit b 63")
    case True
    then have "bit (a XOR ((a XOR b) OR ((a - b) XOR a))) 63 \<longleftrightarrow> bit (a - b) 63"
      by (auto simp: bit_simps)
    also have "\<dots> \<longleftrightarrow> unat a < unat b"
      unfolding bit63_iff d by (rule borrow_iff_less [OF True [unfolded bit63_iff] ua ub])
    finally show ?thesis by (simp only: word_less_nat_alt)
  next
    case False
    then have "bit (a XOR ((a XOR b) OR ((a - b) XOR a))) 63 \<longleftrightarrow> bit b 63"
      by (auto simp: bit_simps)
    also have "\<dots> \<longleftrightarrow> unat a < unat b"
      using False [unfolded bit63_iff] unfolding bit63_iff by linarith
    finally show ?thesis by (simp only: word_less_nat_alt)
  qed
  then show ?thesis by (simp add: constant_time_lt_w_def constant_time_msb_w_eq)
qed

lemma constant_time_select_w_eq [ct_simps]:
  "constant_time_select_w (if c then -1 else 0) a b = (if c then a else b)"
  by (simp add: constant_time_select_w_def)

lemma ucast_mask_8 [ct_simps]: "(ucast (if c then -1 else 0 :: u64) :: u8) = (if c then -1 else 0)"
  by (auto intro: bit_word_eqI simp: bit_simps)

lemma constant_time_select_8_eq [ct_simps]:
  "constant_time_select_8 (if c then -1 else 0) a b = (if c then a else b)"
proof -
  have "(ucast (- 1 :: u64) :: u8) = -1" using ucast_mask_8 [of True] by simp
  then show ?thesis by (simp add: constant_time_select_8_def)
qed

section \<open>Properties\<close>

text \<open>
  The constant-time operations of \<open>crypto/internal.h\<close>, which compute with masks and no
  branch, are the comparisons and the selection they stand for, on every pair of 64-bit words:
  all ones for true, all zeros for false.
\<close>

theorem constant_time_operations:
  "constant_time_lt_w a b = (if a < b then -1 else 0) \<and> constant_time_ge_w a b = (if b \<le> a then -1 else 0)
   \<and> constant_time_eq_w a b = (if a = b then -1 else 0) \<and> constant_time_is_zero_w a = (if a = 0 then -1 else 0)
   \<and> constant_time_select_w (constant_time_lt_w a b) x y = (if a < b then x else y)
   \<and> constant_time_select_8 (constant_time_eq_w a b) c d = (if a = b then c else d)"
  by (simp add: ct_simps constant_time_ge_w_def not_less not_le)

text \<open>
  \<open>OPENSSL_strlcpy\<close> into a buffer of \<open>n\<close> bytes copies the string up to its terminator or
  the last byte but one, always terminates the copy, leaves the bytes behind it alone, and returns
  the length the whole string has, so that truncation can be detected.
\<close>

theorem strlcpy_copies:
  assumes "length dst = n" "0 < n"
  shows "OPENSSL_strlcpy dst src n =
    (let k = min (strlen src) (n - 1) in (take k src @ [0] @ drop (Suc k) dst, strlen src))"
  using strlcpy_buffer [OF assms, of src] strlcpy_result [of dst src n] by (metis prod.collapse)

theorem strlcpy_copies_witness: "OPENSSL_strlcpy [9, 9, 9] [65, 66, 67, 0] 3 = ([65, 66, 0], 3)"
  using strlcpy_copies [of "[9, 9, 9]" 3 "[65, 66, 67, 0]"] by (simp add: Let_def)

end
