(* ===== verification/PosixTime.thy ===== *)
theory PosixTime imports Prelude begin

text \<open>
  \<open>crypto/asn1/posix_time.c\<close>: the conversions between a broken-down UTC time and the number
  of seconds since 1970, for the years 0 to 9999.  Every quantity of the code is an
  \<open>int64_t\<close>; the validity checks bound them so that nothing overflows, so they are integers
  here, with C's division, which truncates towards zero (\<open>sdiv\<close>, \<open>smod\<close>).  The one sum
  that could overflow, in \<open>OPENSSL_gmtime_adj\<close>, is guarded by the code and the guard is
  modelled.
\<close>

section \<open>Definitions\<close>

definition SECS_PER_HOUR :: int where "SECS_PER_HOUR = 60 * 60"
definition SECS_PER_DAY :: int where "SECS_PER_DAY = 24 * SECS_PER_HOUR"
definition INT64_MAX :: int where "INT64_MAX = 9223372036854775807"
definition INT64_MIN :: int where "INT64_MIN = - 9223372036854775808"
definition MIN_POSIX_TIME :: int where "MIN_POSIX_TIME = - 62167219200"
definition MAX_POSIX_TIME :: int where "MAX_POSIX_TIME = 253402300799"

definition is_valid_date :: "int \<Rightarrow> int \<Rightarrow> int \<Rightarrow> bool" where
  "is_valid_date year month day =
     (if day < 1 \<or> month < 1 \<or> year < 0 \<or> 9999 < year then False
      else if month \<in> {1, 3, 5, 7, 8, 10, 12} then 0 < day \<and> day \<le> 31
      else if month \<in> {4, 6, 9, 11} then 0 < day \<and> day \<le> 30
      else if month = 2 then
        (if (year smod 4 = 0 \<and> year smod 100 \<noteq> 0) \<or> year smod 400 = 0 then 0 < day \<and> day \<le> 29
         else 0 < day \<and> day \<le> 28)
      else False)"

definition is_valid_time :: "int \<Rightarrow> int \<Rightarrow> int \<Rightarrow> bool" where
  "is_valid_time hours minutes seconds =
     (\<not> (hours < 0 \<or> minutes < 0 \<or> seconds < 0 \<or> 23 < hours \<or> 59 < minutes \<or> 59 < seconds))"

definition is_valid_posix_time :: "int \<Rightarrow> bool" where
  "is_valid_posix_time time = (MIN_POSIX_TIME \<le> time \<and> time \<le> MAX_POSIX_TIME)"

definition posix_time_from_utc :: "int \<Rightarrow> int \<Rightarrow> int \<Rightarrow> int \<Rightarrow> int \<Rightarrow> int \<Rightarrow> int option" where
  "posix_time_from_utc year0 month day hours minutes seconds =
     (if \<not> is_valid_date year0 month day \<or> \<not> is_valid_time hours minutes seconds then None
      else
        let year = (if month \<le> 2 then year0 - 1 else year0);
            era = (if 0 \<le> year then year else year - 399) sdiv 400;
            year_of_era = year - era * 400;
            day_of_year = (153 * (if 2 < month then month - 3 else month + 9) + 2) sdiv 5 + day - 1;
            day_of_era = year_of_era * 365 + year_of_era sdiv 4 - year_of_era sdiv 100 + day_of_year;
            posix_days = era * 146097 + day_of_era - 719468
        in Some (posix_days * SECS_PER_DAY + hours * SECS_PER_HOUR + minutes * 60 + seconds))"

definition utc_from_posix_time :: "int \<Rightarrow> (int \<times> int \<times> int \<times> int \<times> int \<times> int) option" where
  "utc_from_posix_time time =
     (if \<not> is_valid_posix_time time then None
      else
        let days0 = time sdiv SECS_PER_DAY;
            leftover0 = time smod SECS_PER_DAY;
            days1 = (if leftover0 < 0 then days0 - 1 else days0);
            leftover = (if leftover0 < 0 then leftover0 + SECS_PER_DAY else leftover0);
            days = days1 + 719468;
            era = (if 0 < days then days else days - 146096) sdiv 146097;
            day_of_era = days - era * 146097;
            year_of_era = (day_of_era - day_of_era sdiv 1460 + day_of_era sdiv 36524
                           - day_of_era sdiv 146096) sdiv 365;
            year = year_of_era + era * 400;
            day_of_year = day_of_era - (365 * year_of_era + year_of_era sdiv 4 - year_of_era sdiv 100);
            month_of_year = (5 * day_of_year + 2) sdiv 153;
            month = (if month_of_year < 10 then month_of_year + 3 else month_of_year - 9)
        in Some (if month \<le> 2 then year + 1 else year,
                 month,
                 day_of_year - (153 * month_of_year + 2) sdiv 5 + 1,
                 leftover sdiv SECS_PER_HOUR,
                 (leftover smod SECS_PER_HOUR) sdiv 60,
                 (leftover smod SECS_PER_HOUR) smod 60))"

text \<open>
  \<open>struct tm\<close>, its six fields that the code reads; the others are zeroed by
  \<open>OPENSSL_posix_to_tm\<close> and never read.
\<close>

record tm =
  tm_year :: int
  tm_mon :: int
  tm_mday :: int
  tm_hour :: int
  tm_min :: int
  tm_sec :: int

definition OPENSSL_tm_to_posix :: "tm \<Rightarrow> int option" where
  "OPENSSL_tm_to_posix t =
     posix_time_from_utc (tm_year t + 1900) (tm_mon t + 1) (tm_mday t) (tm_hour t) (tm_min t) (tm_sec t)"

definition OPENSSL_posix_to_tm :: "int \<Rightarrow> tm option" where
  "OPENSSL_posix_to_tm time =
     (case utc_from_posix_time time of None \<Rightarrow> None
      | Some (y, mo, d, h, mi, s) \<Rightarrow>
          Some \<lparr>tm_year = y - 1900, tm_mon = mo - 1, tm_mday = d, tm_hour = h, tm_min = mi, tm_sec = s\<rparr>)"

text \<open>The width of \<open>time_t\<close> in bytes is that of the target, 4 or 8.\<close>

definition OPENSSL_timegm :: "nat \<Rightarrow> tm \<Rightarrow> int option" where
  "OPENSSL_timegm sizeof_time_t t =
     (case OPENSSL_tm_to_posix t of None \<Rightarrow> None
      | Some posix_time \<Rightarrow>
          if sizeof_time_t = 4 \<and> (2147483647 < posix_time \<or> posix_time < - 2147483648) then None
          else Some posix_time)"

definition OPENSSL_gmtime :: "int \<Rightarrow> tm option" where
  "OPENSSL_gmtime time = OPENSSL_posix_to_tm time"

definition OPENSSL_gmtime_adj :: "tm \<Rightarrow> int \<Rightarrow> int \<Rightarrow> tm option" where
  "OPENSSL_gmtime_adj t offset_day offset_sec =
     (case OPENSSL_tm_to_posix t of None \<Rightarrow> None
      | Some posix_time0 \<Rightarrow>
          let posix_time = posix_time0 + offset_day * SECS_PER_DAY
          in if 0 < posix_time \<and> INT64_MAX - posix_time < offset_sec then None
             else if posix_time < 0 \<and> offset_sec < INT64_MIN - posix_time then None
             else OPENSSL_posix_to_tm (posix_time + offset_sec))"

definition OPENSSL_gmtime_diff :: "tm \<Rightarrow> tm \<Rightarrow> (int \<times> int) option" where
  "OPENSSL_gmtime_diff from_tm to_tm =
     (case OPENSSL_tm_to_posix to_tm of None \<Rightarrow> None
      | Some time_to \<Rightarrow>
          (case OPENSSL_tm_to_posix from_tm of None \<Rightarrow> None
           | Some time_from \<Rightarrow>
               let timediff = time_to - time_from
               in Some (timediff sdiv SECS_PER_DAY, timediff smod SECS_PER_DAY)))"

section \<open>C's division\<close>

lemma sdiv_nonneg: "0 \<le> a \<Longrightarrow> 0 < b \<Longrightarrow> a sdiv b = a div (b :: int)"
  by (cases "a = 0") (simp_all add: signed_divide_int_def sgn_if)

lemma sdiv_neg: "a < 0 \<Longrightarrow> 0 < b \<Longrightarrow> a sdiv b = - ((- a) div (b :: int))"
  by (simp add: signed_divide_int_def sgn_if)

lemma smod_eq: "a smod b = a - a sdiv b * (b :: int)"
  by (simp add: minus_sdiv_mult_eq_smod)

lemma smod_nonneg: "0 \<le> a \<Longrightarrow> 0 < b \<Longrightarrow> a smod b = a mod (b :: int)"
  by (simp add: smod_eq sdiv_nonneg minus_div_mult_eq_mod)

text \<open>The code's idiom for a division that rounds down.\<close>

lemma floor_idiom:
  assumes "0 < b" shows "(if 0 \<le> a then a else a - (b - 1)) sdiv b = a div (b :: int)"
proof (cases "0 \<le> a")
  case True
  with assms show ?thesis by (simp add: sdiv_nonneg)
next
  case False
  have m: "0 \<le> a mod b" "a mod b < b" "b * (a div b) + a mod b = a"
    using assms by simp_all
  from False assms have "(a - (b - 1)) sdiv b = - ((- a + (b - 1)) div b)"
    by (subst sdiv_neg) (auto simp: algebra_simps)
  also have "(- a + (b - 1)) div b = - (a div b)"
    by (rule int_div_pos_eq [of _ _ _ "b - 1 - a mod b"]) (use m in \<open>auto simp: algebra_simps\<close>)
  finally show ?thesis using False by simp
qed

lemma floor_idiom_pos:
  assumes "0 < b" shows "(if 0 < a then a else a - (b - 1)) sdiv b = a div (b :: int)"
proof (cases "a = 0")
  case True
  from assms have "(1 - b) sdiv b = 0"
    by (cases "b = 1") (simp_all add: sdiv_neg div_pos_pos_trivial)
  with True show ?thesis by simp
next
  case False
  then have "(if 0 < a then a else a - (b - 1)) = (if 0 \<le> a then a else a - (b - 1))" by auto
  with floor_idiom [OF assms, of a] show ?thesis by simp
qed

section \<open>The calendar\<close>

text \<open>
  The Gregorian calendar as a specification: leap years, lengths of months, and the number of
  days from 1 January of the year 0, counted year by year and month by month.
\<close>

definition leap :: "int \<Rightarrow> bool" where
  "leap y \<longleftrightarrow> (y mod 4 = 0 \<and> y mod 100 \<noteq> 0) \<or> y mod 400 = 0"

definition days_in_year :: "int \<Rightarrow> int" where
  "days_in_year y = (if leap y then 366 else 365)"

definition days_in_month :: "int \<Rightarrow> int \<Rightarrow> int" where
  "days_in_month y m =
     (if m = 2 then if leap y then 29 else 28 else if m \<in> {4, 6, 9, 11} then 30 else 31)"

definition day_number :: "int \<Rightarrow> int \<Rightarrow> int \<Rightarrow> int" where
  "day_number y m d =
     sum_list (map days_in_year [0..y - 1]) + sum_list (map (days_in_month y) [1..m - 1]) + (d - 1)"

definition calendar_date :: "int \<Rightarrow> int \<Rightarrow> int \<Rightarrow> bool" where
  "calendar_date y m d \<longleftrightarrow> 0 \<le> y \<and> y \<le> 9999 \<and> 1 \<le> m \<and> m \<le> 12 \<and> 1 \<le> d \<and> d \<le> days_in_month y m"

lemma is_valid_date_calendar: "is_valid_date y m d \<longleftrightarrow> calendar_date y m d"
proof -
  have "m = 1 \<or> m = 2 \<or> m = 3 \<or> m = 4 \<or> m = 5 \<or> m = 6 \<or> m = 7 \<or> m = 8 \<or> m = 9 \<or> m = 10 \<or> m = 11
     \<or> m = 12 \<or> m < 1 \<or> 12 < m" by arith
  then show ?thesis
    by (elim disjE) (auto simp: is_valid_date_def calendar_date_def days_in_month_def leap_def smod_nonneg)
qed

lemma div_step:
  assumes "0 < k" shows "(y + k) div k = (y + k - 1) div k + (if y mod k = 0 then 1 else (0 :: int))"
proof -
  define q r where "q = y div k" and "r = y mod k"
  have y: "y = k * q + r" and r: "0 \<le> r" "r < k" using assms by (simp_all add: q_def r_def)
  have "(y + k) div k = q + 1"
    by (rule int_div_pos_eq [of _ _ _ r]) (use y r in \<open>auto simp: algebra_simps\<close>)
  moreover have "(y + k - 1) div k = (if r = 0 then q else q + 1)"
    by (rule int_div_pos_eq [of _ _ _ "if r = 0 then k - 1 else r - 1"])
      (use y r in \<open>auto simp: algebra_simps\<close>)
  ultimately show ?thesis by (simp add: r_def)
qed

lemma leap_days_step:
  "(y + 4) div 4 - (y + 100) div 100 + (y + 400) div 400
     = (y + 3) div 4 - (y + 99) div 100 + (y + 399) div 400 + (if leap y then 1 else (0::int))"
proof -
  have "y mod 400 mod 100 = y mod 100" and "y mod 100 mod 4 = y mod 4"
    by (simp_all add: mod_mod_cancel)
  then have "y mod 400 = 0 \<Longrightarrow> y mod 100 = 0" and "y mod 100 = 0 \<Longrightarrow> y mod 4 = 0" by auto
  moreover have "(y + 4) div 4 = (y + 3) div 4 + (if y mod 4 = 0 then 1 else 0)"
    using div_step [of 4 y] by simp
  moreover have "(y + 100) div 100 = (y + 99) div 100 + (if y mod 100 = 0 then 1 else 0)"
    using div_step [of 100 y] by simp
  moreover have "(y + 400) div 400 = (y + 399) div 400 + (if y mod 400 = 0 then 1 else 0)"
    using div_step [of 400 y] by simp
  ultimately show ?thesis unfolding leap_def by presburger
qed

lemma sum_days_in_year:
  assumes "0 \<le> y"
  shows "sum_list (map days_in_year [0..y - 1]) = 365 * y + (y + 3) div 4 - (y + 99) div 100 + (y + 399) div 400"
  using assms
proof (induction y rule: int_ge_induct)
  case base
  then show ?case by simp
next
  case (step y)
  then have "[0..y + 1 - 1] = [0..y - 1] @ [y]" by (simp add: upto_rec2)
  then have "sum_list (map days_in_year [0..y + 1 - 1]) = sum_list (map days_in_year [0..y - 1]) + days_in_year y"
    by simp
  also have "\<dots> = 365 * (y + 1) + ((y + 4) div 4 - (y + 100) div 100 + (y + 400) div 400)"
    unfolding step.IH leap_days_step days_in_year_def by simp
  finally show ?case by (simp add: add.commute)
qed

text \<open>The code counts years from 1 March, so that the leap day is the last day of a year.\<close>

definition march_days :: "int \<Rightarrow> int" where
  "march_days Y = 365 * Y + Y div 4 - Y div 100 + Y div 400"

lemma march_days_era:
  "march_days Y = Y div 400 * 146097 + (Y mod 400) * 365 + (Y mod 400) div 4 - (Y mod 400) div 100"
proof -
  define e r where "e = Y div 400" and "r = Y mod 400"
  have Y: "Y = 400 * e + r" by (simp add: e_def r_def)
  have "Y div 4 = 100 * e + r div 4" and "Y div 100 = 4 * e + r div 100" unfolding Y by simp_all
  then show ?thesis unfolding march_days_def e_def [symmetric] r_def [symmetric] by (simp add: Y)
qed

lemma march_days_next: "march_days y = march_days (y - 1) + 365 + (if leap y then 1 else 0)"
proof -
  have "(y - 4 + 4) div 4 - (y - 100 + 100) div 100 + (y - 400 + 400) div 400
      = (y - 1) div 4 - (y - 1) div 100 + (y - 1) div 400 + (if leap y then 1 else (0::int))"
  proof -
    have a: "(y - 1 + 4) div 4 = (y - 1) div 4 + 1" "(y - 1 + 100) div 100 = (y - 1) div 100 + 1"
      "(y - 1 + 400) div 400 = (y - 1) div 400 + 1"
      "(y + 4) div 4 = y div 4 + 1" "(y + 100) div 100 = y div 100 + 1" "(y + 400) div 400 = y div 400 + 1"
      by (simp_all only: div_add_self2 zero_neq_numeral not_False_eq_True)
    have e: "y - 1 + 4 = y + 3" "y - 1 + 100 = y + 99" "y - 1 + 400 = y + 399"
      "y - 4 + 4 = y" "y - 100 + 100 = y" "y - 400 + 400 = y" by simp_all
    show ?thesis using leap_days_step [of y] a unfolding e by linarith
  qed
  then show ?thesis by (simp add: march_days_def)
qed

lemma upto_one: "1 \<le> n \<Longrightarrow> [1..n] = 1 # [2..n :: int]"
  by (simp add: upto_rec1)

lemma day_number_march:
  assumes "calendar_date y m d"
  shows "day_number y m d =
    (if m \<le> 2 then march_days (y - 1) else march_days y)
      + (153 * (if 2 < m then m - 3 else m + 9) + 2) div 5 + d - 1 + 60"
proof -
  from assms have y: "0 \<le> y" and m: "1 \<le> m" "m \<le> 12" by (auto simp: calendar_date_def)
  have a: "(y - 1 + 4) div 4 = (y - 1) div 4 + 1" "(y - 1 + 100) div 100 = (y - 1) div 100 + 1"
      "(y - 1 + 400) div 400 = (y - 1) div 400 + 1"
    by (simp_all only: div_add_self2 zero_neq_numeral not_False_eq_True)
  have e: "y - 1 + 4 = y + 3" "y - 1 + 100 = y + 99" "y - 1 + 400 = y + 399" by simp_all
  have "march_days (y - 1) = 365 * (y - 1) + (y - 1) div 4 - (y - 1) div 100 + (y - 1) div 400"
    by (simp only: march_days_def)
  then have years: "sum_list (map days_in_year [0..y - 1]) = march_days (y - 1) + 366"
    unfolding sum_days_in_year [OF y] a [unfolded e] by (simp only: algebra_simps)
  have "m = 1 \<or> m = 2 \<or> m = 3 \<or> m = 4 \<or> m = 5 \<or> m = 6 \<or> m = 7 \<or> m = 8 \<or> m = 9 \<or> m = 10 \<or> m = 11
     \<or> m = 12" using m by arith
  then show ?thesis unfolding day_number_def years using march_days_next [of y]
    by (elim disjE) (simp_all add: days_in_month_def upto_one split: if_splits)
qed

lemma posix_time_from_utc_valid:
  assumes "is_valid_date y m d" "is_valid_time h mi s"
  shows "posix_time_from_utc y m d h mi s
       = Some ((day_number y m d - 719528) * 86400 + h * 3600 + mi * 60 + s)"
proof -
  define Y where "Y = (if m \<le> 2 then y - 1 else y)"
  define mp where "mp = (if 2 < m then m - 3 else m + 9)"
  from assms(1) have c: "calendar_date y m d" by (simp add: is_valid_date_calendar)
  then have mp: "0 \<le> 153 * mp + 2" by (auto simp: mp_def calendar_date_def)
  have r: "0 \<le> Y mod 400" "Y mod 400 = Y - Y div 400 * 400" by (simp_all add: minus_div_mult_eq_mod)
  have era: "(if 0 \<le> Y then Y else Y - 399) sdiv 400 = Y div 400"
    using floor_idiom [of 400 Y] by (simp split: if_splits)
  have days: "day_number y m d = march_days Y + (153 * mp + 2) div 5 + d - 1 + 60"
    unfolding day_number_march [OF c] Y_def mp_def by simp
  have "posix_time_from_utc y m d h mi s =
      Some ((march_days Y + (153 * mp + 2) div 5 + d - 1 - 719468) * 86400 + h * 3600 + mi * 60 + s)"
    unfolding posix_time_from_utc_def Let_def Y_def [symmetric] mp_def [symmetric] era
      r(2) [symmetric] march_days_era
    using assms r(1) mp by (simp add: sdiv_nonneg SECS_PER_DAY_def SECS_PER_HOUR_def)
  then show ?thesis unfolding days by simp
qed

subsection \<open>The inverse computation\<close>

text \<open>The correction terms of \<open>utc_from_posix_time\<close> find the year of an era.\<close>

lemma year_of_era_formula:
  fixes c q r doy doe :: int
  assumes c: "0 \<le> c" "c \<le> 3" and q: "0 \<le> q" "q \<le> 24" and r: "0 \<le> r" "r \<le> 3"
    and doy: "0 \<le> doy" "doy \<le> 365" and last: "doy = 365 \<Longrightarrow> r = 3 \<and> (q < 24 \<or> c = 3)"
    and doe: "doe = 36524 * c + 1461 * q + 365 * r + doy"
  shows "(doe - doe div 1460 + doe div 36524 - doe div 146096) div 365 = 100 * c + 4 * q + r"
proof -
  define x where "x = 24 * c + q + 365 * r + doy"
  define e1 :: int where "e1 = (if 1460 \<le> x then 1 else 0)"
  define e3 :: int where "e3 = (if doe = 146096 then 1 else 0)"
  have top: "doe \<le> 146096" using c q r doy doe by simp
  have inner: "1461 * q + 365 * r + doy \<le> 36523" if "doe \<noteq> 146096"
  proof (cases "doy = 365")
    case True
    with last have "r = 3 \<and> (q < 24 \<or> c = 3)" by simp
    with True q that doe show ?thesis by auto
  next
    case False
    with q r doy show ?thesis by simp
  qed
  have "0 \<le> x" "x < 2920" using c q r doy by (auto simp: x_def)
  then have d1: "doe div 1460 = 25 * c + q + e1"
    by (intro int_div_pos_eq [of _ _ _ "x - 1460 * e1"]) (auto simp: doe x_def e1_def)
  have d3: "doe div 146096 = e3"
    by (rule int_div_pos_eq [of _ _ _ "doe - 146096 * e3"]) (use top c q r doy doe in \<open>auto simp: e3_def\<close>)
  have "doe = 146096 \<Longrightarrow> c = 3 \<and> 1461 * q + 365 * r + doy = 36524" using c q r doy doe by auto
  then have d2: "doe div 36524 = c + e3"
    by (intro int_div_pos_eq [of _ _ _ "1461 * q + 365 * r + doy - 36524 * e3"])
      (use inner q r doy doe in \<open>auto simp: e3_def\<close>)
  have "doy = 0 \<Longrightarrow> e1 = 0" and "doy = 365 \<Longrightarrow> e1 = 1" and "0 \<le> e1 \<and> e1 \<le> 1"
    using c q r last by (auto simp: e1_def x_def)
  then have "0 \<le> doy - e1" "doy - e1 < 365" using doy by linarith+
  moreover have "doe - doe div 1460 + doe div 36524 - doe div 146096 = 365 * (100 * c + 4 * q + r) + (doy - e1)"
    unfolding d1 d2 d3 by (simp add: doe)
  ultimately show ?thesis by (intro int_div_pos_eq [of _ _ _ "doy - e1"]) auto
qed

lemma era_split:
  fixes doe :: int
  assumes "0 \<le> doe" "doe \<le> 146096"
  obtains c q r doy where "0 \<le> c" "c \<le> 3" "0 \<le> q" "q \<le> 24" "0 \<le> r" "r \<le> 3" "0 \<le> doy" "doy \<le> 365"
    "doy = 365 \<Longrightarrow> r = 3 \<and> (q < 24 \<or> c = 3)" "doe = 36524 * c + 1461 * q + 365 * r + doy"
proof -
  define c where "c = min 3 (doe div 36524)"
  define x where "x = doe - 36524 * c"
  define q where "q = x div 1461"
  define z where "z = x - 1461 * q"
  define r where "r = min 3 (z div 365)"
  have dm: "doe div 36524 * 36524 + doe mod 36524 = doe" "0 \<le> doe mod 36524" "doe mod 36524 < 36524"
    by simp_all
  then have c: "0 \<le> c" "c \<le> 3" and x: "0 \<le> x" "x \<le> 36524" "c < 3 \<Longrightarrow> x < 36524"
    using assms by (auto simp: c_def x_def min_def)
  have qm: "x div 1461 * 1461 + x mod 1461 = x" "0 \<le> x mod 1461" "x mod 1461 < 1461" by simp_all
  then have q: "0 \<le> q" "q \<le> 24" and z: "0 \<le> z" "z < 1461"
    using x by (auto simp: q_def z_def)
  have zq: "q = 24 \<Longrightarrow> c < 3 \<Longrightarrow> z < 1460" using x by (auto simp: z_def)
  have rm: "z div 365 * 365 + z mod 365 = z" "0 \<le> z mod 365" "z mod 365 < 365" by simp_all
  then have r: "0 \<le> r" "r \<le> 3" and doy: "0 \<le> z - 365 * r" "z - 365 * r \<le> 365"
    "r < 3 \<Longrightarrow> z - 365 * r < 365"
    using z by (auto simp: r_def min_def)
  have last: "z - 365 * r = 365 \<Longrightarrow> r = 3 \<and> (q < 24 \<or> c = 3)"
  proof -
    assume e: "z - 365 * r = 365"
    with doy r have r3: "r = 3" by (cases "r < 3") auto
    with e have "z = 1460" by simp
    with r3 zq q c show ?thesis by (cases "c < 3"; cases "q = 24") auto
  qed
  have "doe = 36524 * c + 1461 * q + 365 * r + (z - 365 * r)" by (simp add: z_def x_def)
  with c q r doy last that show ?thesis by blast
qed

text \<open>Months counted from March: the formula of the code and its inverse.\<close>

definition month_start :: "int \<Rightarrow> int" where
  "month_start mp = (153 * mp + 2) div 5"

lemma month_cases:
  "(0 :: int) \<le> mp \<Longrightarrow> mp \<le> 11 \<Longrightarrow> mp = 0 \<or> mp = 1 \<or> mp = 2 \<or> mp = 3 \<or> mp = 4 \<or> mp = 5 \<or> mp = 6
     \<or> mp = 7 \<or> mp = 8 \<or> mp = 9 \<or> mp = 10 \<or> mp = 11"
  by arith

lemma month_of_day:
  assumes mp: "0 \<le> mp" "mp \<le> 11" and doy: "month_start mp \<le> doy" "doy < month_start (mp + 1)"
  shows "(5 * doy + 2) div 153 = mp"
  using month_cases [OF mp] doy
  by (elim disjE) (auto simp: month_start_def intro!: int_div_pos_eq)

lemma day_has_month:
  assumes "0 \<le> doy" "doy \<le> 365"
  obtains mp where "0 \<le> mp" "mp \<le> 11" "month_start mp \<le> doy" "doy < month_start (mp + 1)"
proof -
  define mp where "mp = (5 * doy + 2) div 153"
  have *: "mp * 153 + (5 * doy + 2) mod 153 = 5 * doy + 2" "0 \<le> (5 * doy + 2) mod 153"
    "(5 * doy + 2) mod 153 < 153" by (simp_all add: mp_def)
  then have mp: "0 \<le> mp" "mp \<le> 11" using assms by auto
  have "month_start mp \<le> doy" "doy < month_start (mp + 1)"
    using month_cases [OF mp] * assms by (auto simp: month_start_def)
  with mp that show ?thesis by blast
qed

lemma calendar_months:
  assumes "calendar_date y m d"
  defines "mp \<equiv> if 2 < m then m - 3 else m + 9"
  shows "0 \<le> mp \<and> mp \<le> 11 \<and> month_start mp + d - 1 < month_start (mp + 1) \<and> 1 \<le> d
    \<and> month_start mp + d - 1 \<le> (if leap y \<and> m \<le> 2 then 365 else 364) \<and> 0 \<le> month_start mp"
proof -
  from assms(1) have m: "1 \<le> m" "m \<le> 12" by (auto simp: calendar_date_def)
  have "m = 1 \<or> m = 2 \<or> m = 3 \<or> m = 4 \<or> m = 5 \<or> m = 6 \<or> m = 7 \<or> m = 8 \<or> m = 9 \<or> m = 10 \<or> m = 11
     \<or> m = 12" using m by arith
  then show ?thesis using assms(1) unfolding mp_def
    by (elim disjE) (auto simp: month_start_def calendar_date_def days_in_month_def)
qed

lemma months_calendar:
  assumes mp: "0 \<le> mp" "mp \<le> 11" and doy: "month_start mp \<le> doy" "doy < month_start (mp + 1)"
    and last: "doy < 365 \<or> doy = 365 \<and> leap (Y + 1)"
    and y: "0 \<le> (if 10 \<le> mp then Y + 1 else Y)" "(if 10 \<le> mp then Y + 1 else Y) \<le> 9999"
  shows "calendar_date (if 10 \<le> mp then Y + 1 else Y) (if mp < 10 then mp + 3 else mp - 9)
           (doy - month_start mp + 1)"
  using month_cases [OF mp] doy last y
  by (elim disjE) (auto simp: calendar_date_def month_start_def days_in_month_def)

lemma floor_day:
  assumes "0 < b"
  shows "(if t smod b < 0 then t sdiv b - 1 else t sdiv b) = t div (b :: int)"
    and "(if t smod b < 0 then t smod b + b else t smod b) = t mod b"
proof -
  have "(if t smod b < 0 then t sdiv b - 1 else t sdiv b) = t div b
      \<and> (if t smod b < 0 then t smod b + b else t smod b) = t mod b"
  proof (cases "0 \<le> t")
    case True
    with assms have "t sdiv b = t div b" "t smod b = t mod b" "0 \<le> t mod b"
      by (simp_all add: sdiv_nonneg smod_nonneg)
    then show ?thesis by (metis linorder_not_less)
  next
    case False
    define q r where "q = (- t) div b" and "r = (- t) mod b"
    have qr: "- t = b * q + r" "0 \<le> r" "r < b" using assms by (simp_all add: q_def r_def)
    from False assms have s: "t sdiv b = - q" by (simp add: sdiv_neg q_def)
    have m: "t smod b = - r" unfolding smod_eq s using qr by (simp add: algebra_simps)
    have "t div b = (if r = 0 then - q else - q - 1)"
      by (rule int_div_pos_eq [of _ _ _ "if r = 0 then 0 else b - r"]) (use qr in \<open>auto simp: algebra_simps\<close>)
    moreover have "t mod b = (if r = 0 then 0 else b - r)"
      by (rule int_mod_pos_eq [of _ _ "if r = 0 then - q else - q - 1"]) (use qr in \<open>auto simp: algebra_simps\<close>)
    ultimately show ?thesis using qr by (simp add: s m)
  qed
  then show "(if t smod b < 0 then t sdiv b - 1 else t sdiv b) = t div b"
    and "(if t smod b < 0 then t smod b + b else t smod b) = t mod b" by blast+
qed

text \<open>\<open>utc_from_posix_time\<close> on a decomposed day number.\<close>

lemma utc_from_posix_time_decomposed:
  assumes valid: "is_valid_posix_time t" and days: "t div 86400 = march_days Y + doy - 719468"
    and doy: "0 \<le> doy" "doy < 365 \<or> doy = 365 \<and> leap (Y + 1)"
    and mp: "0 \<le> mp" "mp \<le> 11" "month_start mp \<le> doy" "doy < month_start (mp + 1)"
  shows "utc_from_posix_time t = Some
    (if 10 \<le> mp then Y + 1 else Y, if mp < 10 then mp + 3 else mp - 9, doy - month_start mp + 1,
     (t mod 86400) div 3600, (t mod 86400) mod 3600 div 60, (t mod 86400) mod 3600 mod 60)"
proof -
  define y4 where "y4 = Y mod 400"
  have y4: "0 \<le> y4" "y4 \<le> 399" by (simp_all add: y4_def)
  define c q r where "c = y4 div 100" and "q = y4 mod 100 div 4" and "r = y4 mod 4"
  have yq: "y4 = 100 * c + 4 * q + r"
  proof -
    have "y4 mod 100 mod 4 = y4 mod 4" by (simp add: mod_mod_cancel)
    then show ?thesis unfolding c_def q_def r_def by (metis mult_div_mod_eq add.assoc)
  qed
  have cqr: "0 \<le> c" "c \<le> 3" "0 \<le> q" "q \<le> 24" "0 \<le> r" "r \<le> 3"
  proof -
    have "0 \<le> y4 mod 100" "y4 mod 100 < 100" by simp_all
    then show "0 \<le> c" "c \<le> 3" "0 \<le> q" "q \<le> 24" "0 \<le> r" "r \<le> 3"
      using y4 by (simp_all add: c_def q_def r_def)
  qed
  define doe where "doe = y4 * 365 + y4 div 4 - y4 div 100 + doy"
  have d4: "y4 div 4 = 25 * c + q"
    by (rule int_div_pos_eq [of _ _ _ r]) (use yq cqr in simp_all)
  have d100: "y4 div 100 = c" by (simp add: c_def)
  have doe: "doe = 36524 * c + 1461 * q + 365 * r + doy"
    unfolding doe_def d4 d100 by (simp add: yq)
  have leap_next: "r = 3 \<and> (q < 24 \<or> c = 3)" if l: "leap (Y + 1)"
  proof -
    define e where "e = Y div 400"
    have "Y = 400 * e + y4" by (simp add: e_def y4_def)
    with yq have Y: "Y + 1 = 400 * e + 100 * c + 4 * q + (r + 1)" by simp
    have "(Y + 1) mod 4 = (r + 1) mod 4"
    proof -
      have "Y + 1 = (r + 1) + 4 * (100 * e + 25 * c + q)" unfolding Y by simp
      then show ?thesis by (simp only: mod_mult_self2)
    qed
    moreover have "(Y + 1) mod 4 = 0"
      using l mod_mod_cancel [of 4 400 "Y + 1"] by (auto simp: leap_def)
    ultimately have r: "r = 3" using cqr by (cases "r = 3") auto
    have "c = 3" if "\<not> q < 24"
    proof -
      from that cqr r have Y': "Y + 1 = 100 * (c + 1) + 400 * e" unfolding Y by simp
      have "(Y + 1) mod 100 = 0" unfolding Y' by simp
      with l have "(Y + 1) mod 400 = 0" by (simp add: leap_def)
      then have "(100 * (c + 1)) mod 400 = 0" unfolding Y' by (simp only: mod_mult_self2)
      with cqr show "c = 3" by (cases "c = 3") (auto simp: mod_pos_pos_trivial)
    qed
    with r show ?thesis by blast
  qed
  have year: "(doe - doe div 1460 + doe div 36524 - doe div 146096) div 365 = y4"
    unfolding yq by (rule year_of_era_formula) (use cqr doy doe leap_next in auto)
  have bounds: "0 \<le> doe" "doe < 146097" using doe cqr doy leap_next by auto
  define n where "n = t div 86400 + 719468"
  have n: "n = Y div 400 * 146097 + doe"
    using march_days_era [of Y] by (simp add: n_def days doe_def y4_def)
  have era: "n div 146097 = Y div 400" by (rule int_div_pos_eq [of _ _ _ doe]) (use n bounds in auto)
  have day: "(if t smod 86400 < 0 then t sdiv 86400 - 1 else t sdiv 86400) = t div 86400"
    and left: "(if t smod 86400 < 0 then t smod 86400 + 86400 else t smod 86400) = t mod 86400"
    using floor_day [of 86400 t] by simp_all
  have era': "(if 0 < n then n else n - 146096) sdiv 146097 = n div 146097"
    using floor_idiom_pos [of 146097 n] by (simp split: if_splits)
  have rest: "doe - (365 * y4 + y4 sdiv 4 - y4 sdiv 100) = doy"
    using y4 by (simp add: sdiv_nonneg doe_def)
  have month: "(5 * doy + 2) sdiv 153 = mp" and start: "(153 * mp + 2) sdiv 5 = month_start mp"
    using mp doy by (simp_all add: sdiv_nonneg month_of_day month_start_def)
  have year': "(doe - doe sdiv 1460 + doe sdiv 36524 - doe sdiv 146096) sdiv 365 = y4"
  proof -
    have "0 \<le> doe - doe div 1460 + doe div 36524 - doe div 146096"
      using year y4(1) by (simp add: pos_imp_zdiv_nonneg_iff flip: year)
    then show ?thesis using bounds year by (simp add: sdiv_nonneg)
  qed
  have era_day: "n - Y div 400 * 146097 = doe" using n by simp
  have Y: "y4 + Y div 400 * 400 = Y" by (simp add: y4_def)
  define l where "l = t mod 86400"
  have l: "0 \<le> l" by (simp add: l_def)
  have secs: "24 * 3600 = (86400 :: int)" "60 * 60 = (3600 :: int)" by simp_all
  have y2: "(if (if mp < 10 then mp + 3 else mp - 9) \<le> 2 then Y + 1 else Y) = (if 10 \<le> mp then Y + 1 else Y)"
    using mp by auto
  have "utc_from_posix_time t = Some (if 10 \<le> mp then Y + 1 else Y, if mp < 10 then mp + 3 else mp - 9,
      doy - month_start mp + 1, l sdiv 3600, l smod 3600 sdiv 60, l smod 3600 smod 60)"
    by (simp only: utc_from_posix_time_def SECS_PER_DAY_def SECS_PER_HOUR_def secs valid not_True_eq_False
        if_False day left n_def [symmetric] era' era era_day year' rest month start Y l_def [symmetric] y2
        Let_def)
  then show ?thesis using l by (simp add: sdiv_nonneg smod_nonneg l_def)
qed

lemma posix_days_split:
  obtains Y doy mp where "n = march_days Y + doy" "0 \<le> doy" "doy < 365 \<or> doy = 365 \<and> leap (Y + 1)"
    "0 \<le> mp" "mp \<le> 11" "month_start mp \<le> doy" "doy < month_start (mp + 1)"
proof -
  have "0 \<le> n mod 146097" "n mod 146097 \<le> 146096" by simp_all
  then obtain c q r doy where cqr: "0 \<le> c" "c \<le> 3" "0 \<le> q" "q \<le> 24" "0 \<le> r" "r \<le> 3"
    and doy: "0 \<le> doy" "doy \<le> 365" and last: "doy = 365 \<Longrightarrow> r = 3 \<and> (q < 24 \<or> c = 3)"
    and doe: "n mod 146097 = 36524 * c + 1461 * q + 365 * r + doy"
    by (rule era_split) blast
  define e where "e = n div 146097"
  define Y where "Y = 400 * e + (100 * c + 4 * q + r)"
  have "Y div 400 = e" by (rule int_div_pos_eq [of _ _ _ "100 * c + 4 * q + r"]) (use cqr in \<open>auto simp: Y_def\<close>)
  moreover have "Y div 4 = 100 * e + 25 * c + q" by (rule int_div_pos_eq [of _ _ _ r]) (use cqr in \<open>auto simp: Y_def\<close>)
  moreover have "Y div 100 = 4 * e + c" by (rule int_div_pos_eq [of _ _ _ "4 * q + r"]) (use cqr in \<open>auto simp: Y_def\<close>)
  ultimately have "march_days Y = 146097 * e + 36524 * c + 1461 * q + 365 * r"
    by (simp add: march_days_def Y_def)
  moreover have "n = 146097 * e + n mod 146097" by (simp add: e_def)
  ultimately have n: "n = march_days Y + doy" using doe by simp
  have "leap (Y + 1)" if "doy = 365"
  proof -
    from last [OF that] have r: "r = 3" and qc: "q < 24 \<or> c = 3" by auto
    have Y1: "Y + 1 = (q + 1 + 25 * c + 100 * e) * 4" by (simp add: Y_def r)
    then have m4: "(Y + 1) mod 4 = 0" by simp
    show ?thesis
    proof (cases "q < 24")
      case True
      have "Y + 1 = (4 * q + 4) + (4 * e + c) * 100" by (simp add: Y_def r)
      then have "(Y + 1) mod 100 = (4 * q + 4) mod 100" by (simp only: mod_mult_self1)
      with True cqr have "(Y + 1) mod 100 \<noteq> 0" by (simp add: mod_pos_pos_trivial)
      with m4 show ?thesis by (simp add: leap_def)
    next
      case False
      with qc cqr have "Y + 1 = (e + 1) * 400" by (simp add: Y_def r)
      then show ?thesis by (simp add: leap_def)
    qed
  qed
  then have "doy < 365 \<or> doy = 365 \<and> leap (Y + 1)" using doy by (cases "doy = 365") auto
  with n doy day_has_month [OF doy] that show ?thesis by metis
qed

lemma march_days_bounds:
  "400 * march_days Y \<le> 146097 * Y + 400" "146097 * Y - 800 \<le> 400 * march_days Y"
proof -
  define a b c where "a = Y div 4" and "b = Y div 100" and "c = Y div 400"
  have "4 * a \<le> Y" "Y < 4 * a + 4" "100 * b \<le> Y" "Y < 100 * b + 100" "400 * c \<le> Y" "Y < 400 * c + 400"
    unfolding a_def b_def c_def by linarith+
  then show "400 * march_days Y \<le> 146097 * Y + 400" and "146097 * Y - 800 \<le> 400 * march_days Y"
    unfolding march_days_def a_def [symmetric] b_def [symmetric] c_def [symmetric] by simp_all
qed

lemma seconds_of_day:
  assumes "0 \<le> h" "h \<le> 23" "0 \<le> mi" "mi \<le> 59" "0 \<le> s" "s \<le> (59 :: int)"
  shows "h * 3600 + mi * 60 + s < 86400" "(h * 3600 + mi * 60 + s) div 3600 = h"
    "(h * 3600 + mi * 60 + s) mod 3600 div 60 = mi" "(h * 3600 + mi * 60 + s) mod 3600 mod 60 = s"
proof -
  show "h * 3600 + mi * 60 + s < 86400" using assms by simp
  show d: "(h * 3600 + mi * 60 + s) div 3600 = h"
    by (rule int_div_pos_eq [of _ _ _ "mi * 60 + s"]) (use assms in auto)
  have m: "(h * 3600 + mi * 60 + s) mod 3600 = mi * 60 + s"
    by (rule int_mod_pos_eq [of _ _ h]) (use assms in auto)
  show "(h * 3600 + mi * 60 + s) mod 3600 div 60 = mi" unfolding m
    by (rule int_div_pos_eq [of _ _ _ s]) (use assms in auto)
  show "(h * 3600 + mi * 60 + s) mod 3600 mod 60 = s" unfolding m
    by (rule int_mod_pos_eq [of _ _ mi]) (use assms in auto)
qed

section \<open>Round trips\<close>

lemma valid_time_bounds:
  "is_valid_time h mi s \<Longrightarrow> 0 \<le> h \<and> h \<le> 23 \<and> 0 \<le> mi \<and> mi \<le> 59 \<and> 0 \<le> s \<and> s \<le> 59"
  by (auto simp: is_valid_time_def)

lemma is_valid_date_months:
  assumes "is_valid_date y m d"
  obtains Y doy mp where "y = (if 10 \<le> mp then Y + 1 else Y)" "m = (if mp < 10 then mp + 3 else mp - 9)"
    "d = doy - month_start mp + 1" "0 \<le> doy" "doy < 365 \<or> doy = 365 \<and> leap (Y + 1)"
    "0 \<le> mp" "mp \<le> 11" "month_start mp \<le> doy" "doy < month_start (mp + 1)"
    "day_number y m d = march_days Y + doy + 60"
proof -
  define mp where "mp = (if 2 < m then m - 3 else m + 9)"
  define Y where "Y = (if m \<le> 2 then y - 1 else y)"
  define doy where "doy = month_start mp + d - 1"
  from assms have c: "calendar_date y m d" by (simp add: is_valid_date_calendar)
  note cm = calendar_months [OF c, folded mp_def]
  have dn: "day_number y m d = march_days Y + doy + 60"
    using day_number_march [OF c] unfolding Y_def doy_def month_start_def mp_def by simp
  have m: "1 \<le> m" "m \<le> 12" using c by (auto simp: calendar_date_def)
  have last: "doy < 365 \<or> doy = 365 \<and> leap (Y + 1)"
    using cm by (auto simp: doy_def Y_def split: if_splits)
  have "y = (if 10 \<le> mp then Y + 1 else Y)" and "m = (if mp < 10 then mp + 3 else mp - 9)"
    using m by (auto simp: mp_def Y_def)
  with cm dn last that [of mp Y doy] show ?thesis by (auto simp: doy_def)
qed

lemma march_days_range:
  assumes "calendar_date y m d"
  shows "0 \<le> day_number y m d" "day_number y m d < 3652425"
proof -
  from assms obtain Y doy mp where *: "y = (if 10 \<le> mp then Y + 1 else Y)"
    "0 \<le> doy" "doy < 365 \<or> doy = 365 \<and> leap (Y + 1)" "0 \<le> mp" "mp \<le> 11" "month_start mp \<le> doy"
    "doy < month_start (mp + 1)" and n: "day_number y m d = march_days Y + doy + 60"
    by (metis is_valid_date_calendar is_valid_date_months)
  have y: "0 \<le> y" "y \<le> 9999" using assms by (auto simp: calendar_date_def)
  have "Y = -1 \<or> 0 \<le> Y" using * y by (auto split: if_splits)
  moreover have "march_days (- 1) = - 366" by (simp add: march_days_def)
  moreover have "0 \<le> march_days Y" if "0 \<le> Y"
    using that march_days_bounds [of Y] by (cases "Y = 0") (auto simp: march_days_def)
  moreover have "10 \<le> mp \<Longrightarrow> 306 \<le> doy"
    using * month_cases [of mp] by (auto simp: month_start_def)
  ultimately show "0 \<le> day_number y m d" using * y n by (auto split: if_splits)
  have "Y = 9999 \<or> Y \<le> 9998" using * y by (auto split: if_splits)
  moreover have "march_days 9999 = 3652059" by (simp add: march_days_def)
  moreover have "doy \<le> 305" if "Y = 9999"
    using that * y month_cases [of mp] by (auto simp: month_start_def)
  moreover have "march_days Y \<le> 3651694" if "Y \<le> 9998"
    using that march_days_bounds [of Y] by (cases "Y = 9998") (auto simp: march_days_def)
  ultimately show "day_number y m d < 3652425" using * n by fastforce
qed

lemma posix_time_roundtrip:
  assumes "is_valid_date y m d" and "is_valid_time h mi s"
  obtains t where "posix_time_from_utc y m d h mi s = Some t" "is_valid_posix_time t"
    "utc_from_posix_time t = Some (y, m, d, h, mi, s)"
    "t = (day_number y m d - 719528) * 86400 + (h * 3600 + mi * 60 + s)"
proof -
  from assms(1) obtain Y doy mp where dec: "y = (if 10 \<le> mp then Y + 1 else Y)"
    "m = (if mp < 10 then mp + 3 else mp - 9)" "d = doy - month_start mp + 1"
    and doy: "0 \<le> doy" "doy < 365 \<or> doy = 365 \<and> leap (Y + 1)"
    and mp: "0 \<le> mp" "mp \<le> 11" "month_start mp \<le> doy" "doy < month_start (mp + 1)"
    and n: "day_number y m d = march_days Y + doy + 60"
    by (rule is_valid_date_months)
  define sec where "sec = h * 3600 + mi * 60 + s"
  define t where "t = (day_number y m d - 719528) * 86400 + sec"
  note hms = valid_time_bounds [OF assms(2)]
  have sec: "0 \<le> sec" "sec < 86400" using hms by (auto simp: sec_def)
  have from_utc: "posix_time_from_utc y m d h mi s = Some t"
    using posix_time_from_utc_valid [OF assms] by (simp add: t_def sec_def)
  have valid: "is_valid_posix_time t"
    using march_days_range [of y m d] assms(1) sec
    by (auto simp: is_valid_posix_time_def MIN_POSIX_TIME_def MAX_POSIX_TIME_def t_def is_valid_date_calendar)
  have div: "t div 86400 = march_days Y + doy - 719468"
    by (rule int_div_pos_eq [of _ _ _ sec]) (use sec in \<open>auto simp: t_def n\<close>)
  have mod: "t mod 86400 = sec"
    by (rule int_mod_pos_eq [of _ _ "day_number y m d - 719528"]) (use sec in \<open>auto simp: t_def\<close>)
  have "utc_from_posix_time t = Some (y, m, d, sec div 3600, sec mod 3600 div 60, sec mod 3600 mod 60)"
    using utc_from_posix_time_decomposed [OF valid div doy mp] unfolding mod dec by simp
  then have "utc_from_posix_time t = Some (y, m, d, h, mi, s)"
    using seconds_of_day [of h mi s] hms unfolding sec_def by simp
  with from_utc valid that show ?thesis by (simp add: t_def sec_def)
qed

lemma utc_roundtrip:
  assumes valid: "is_valid_posix_time t"
  obtains y m d h mi s where "utc_from_posix_time t = Some (y, m, d, h, mi, s)"
    "is_valid_date y m d" "is_valid_time h mi s" "posix_time_from_utc y m d h mi s = Some t"
proof -
  define sec where "sec = t mod 86400"
  have sec: "0 \<le> sec" "sec < 86400" by (simp_all add: sec_def)
  obtain Y doy mp where n: "t div 86400 + 719468 = march_days Y + doy"
    and doy: "0 \<le> doy" "doy < 365 \<or> doy = 365 \<and> leap (Y + 1)"
    and mp: "0 \<le> mp" "mp \<le> 11" "month_start mp \<le> doy" "doy < month_start (mp + 1)"
    by (rule posix_days_split)
  define y m d where "y = (if 10 \<le> mp then Y + 1 else Y)" and "m = (if mp < 10 then mp + 3 else mp - 9)"
    and "d = doy - month_start mp + 1"
  from n have div: "t div 86400 = march_days Y + doy - 719468" by simp
  have range: "- 60 \<le> march_days Y + doy" "march_days Y + doy < 3652365"
    using valid n unfolding is_valid_posix_time_def MIN_POSIX_TIME_def MAX_POSIX_TIME_def by linarith+
  have year: "0 \<le> y" "y \<le> 9999"
  proof -
    have "- 1 \<le> Y"
      using range doy march_days_bounds [of Y] by linarith
    moreover have "doy \<ge> 306" if "Y = - 1" using range that by (simp add: march_days_def)
    moreover have "mp \<ge> 10" if "306 \<le> doy" using that mp month_cases [of mp] by (auto simp: month_start_def)
    ultimately show "0 \<le> y" unfolding y_def by (cases "Y = - 1") auto
    have "Y \<le> 9999" using range doy march_days_bounds [of Y] by linarith
    moreover have "doy \<le> 305" if "Y = 9999" using range that by (simp add: march_days_def)
    moreover have "mp < 10" if "doy \<le> 305" using that mp month_cases [of mp] by (auto simp: month_start_def)
    ultimately show "y \<le> 9999" unfolding y_def by (cases "Y = 9999") auto
  qed
  have cal: "calendar_date y m d"
    unfolding y_def m_def d_def by (rule months_calendar [OF mp doy(2)]) (use year in \<open>simp_all add: y_def\<close>)
  then have date: "is_valid_date y m d" by (simp add: is_valid_date_calendar)
  have mpm: "(if 2 < m then m - 3 else m + 9) = mp" "(if m \<le> 2 then march_days (y - 1) else march_days y) = march_days Y"
    using mp unfolding m_def y_def by auto
  have dn: "day_number y m d = march_days Y + doy + 60"
    unfolding day_number_march [OF cal] mpm by (simp add: d_def month_start_def)
  define h mi s where "h = sec div 3600" and "mi = sec mod 3600 div 60" and "s = sec mod 3600 mod 60"
  have m: "0 \<le> sec mod 3600" "sec mod 3600 < 3600" by simp_all
  have "0 \<le> h" "h \<le> 23" unfolding h_def using sec by linarith+
  moreover have "0 \<le> mi" "mi \<le> 59" unfolding mi_def using m by linarith+
  moreover have "0 \<le> s" "s < 60" unfolding s_def by (rule pos_mod_sign pos_mod_bound; simp)+
  ultimately have time: "is_valid_time h mi s" by (simp add: is_valid_time_def)
  have hms: "h * 3600 + mi * 60 + s = sec" unfolding h_def mi_def s_def by simp
  have "posix_time_from_utc y m d h mi s = Some ((t div 86400) * 86400 + sec)"
    unfolding posix_time_from_utc_valid [OF date time] dn using hms n by simp
  then have "posix_time_from_utc y m d h mi s = Some t" by (simp add: sec_def)
  moreover have "utc_from_posix_time t = Some (y, m, d, h, mi, s)"
    using utc_from_posix_time_decomposed [OF valid div doy mp]
    unfolding y_def m_def d_def h_def mi_def s_def sec_def .
  ultimately show ?thesis using that date time by blast
qed

lemma posix_time_from_utc_SomeD:
  assumes "posix_time_from_utc y m d h mi s = Some t"
  shows "is_valid_date y m d" "is_valid_time h mi s" "utc_from_posix_time t = Some (y, m, d, h, mi, s)"
proof -
  from assms show v: "is_valid_date y m d" "is_valid_time h mi s"
    by (auto simp: posix_time_from_utc_def split: if_splits)
  with assms show "utc_from_posix_time t = Some (y, m, d, h, mi, s)"
    by (metis option.inject posix_time_roundtrip)
qed

lemma utc_from_posix_time_SomeD:
  assumes "utc_from_posix_time t = Some (y, m, d, h, mi, s)"
  shows "is_valid_posix_time t" "posix_time_from_utc y m d h mi s = Some t"
proof -
  from assms show v: "is_valid_posix_time t"
    by (auto simp: utc_from_posix_time_def split: if_splits)
  then obtain y' m' d' h' mi' s' where "utc_from_posix_time t = Some (y', m', d', h', mi', s')"
    "posix_time_from_utc y' m' d' h' mi' s' = Some t" by (rule utc_roundtrip)
  with assms show "posix_time_from_utc y m d h mi s = Some t" by simp
qed

lemma utc_posix_iff:
  "posix_time_from_utc y m d h mi s = Some t \<longleftrightarrow> utc_from_posix_time t = Some (y, m, d, h, mi, s)"
  by (rule iffI) (erule posix_time_from_utc_SomeD(3), erule utc_from_posix_time_SomeD(2))

lemma tm_posix_iff: "OPENSSL_tm_to_posix x = Some t \<longleftrightarrow> OPENSSL_posix_to_tm t = Some x"
  by (auto simp: OPENSSL_tm_to_posix_def OPENSSL_posix_to_tm_def utc_posix_iff split: option.splits prod.splits)

lemma posix_to_tm_None: "OPENSSL_posix_to_tm t = None \<longleftrightarrow> \<not> is_valid_posix_time t"
  by (auto simp: OPENSSL_posix_to_tm_def utc_from_posix_time_def Let_def split: option.splits prod.splits)

lemma tm_to_posix_range: "OPENSSL_tm_to_posix x = Some t \<Longrightarrow> is_valid_posix_time t"
  using posix_to_tm_None [of t] by (auto simp: tm_posix_iff)

lemma gmtime_adj_eq:
  assumes "OPENSSL_tm_to_posix x = Some t"
  shows "OPENSSL_gmtime_adj x dd ss = OPENSSL_posix_to_tm (t + dd * 86400 + ss)"
proof -
  define p where "p = t + dd * 86400"
  have "\<not> is_valid_posix_time (p + ss)"
    if "(0 < p \<and> INT64_MAX - p < ss) \<or> (p < 0 \<and> ss < INT64_MIN - p)"
    using that by (auto simp: is_valid_posix_time_def MAX_POSIX_TIME_def MIN_POSIX_TIME_def
        INT64_MAX_def INT64_MIN_def)
  then show ?thesis
    using assms posix_to_tm_None [of "p + ss"]
    by (auto simp: OPENSSL_gmtime_adj_def Let_def SECS_PER_DAY_def SECS_PER_HOUR_def p_def [symmetric])
qed

subsection \<open>Properties\<close>

text \<open>
  Claim C9.  \<open>posix_time_from_utc\<close> accepts exactly the dates of the proleptic Gregorian calendar
  in the years 0 to 9999 with a time of day, and its result is the number of seconds since
  1 January 1970: the days counted year by year and month by month (719528 of them lie before
  1970) and the seconds of the day.
\<close>

theorem posix_time_from_utc_calendar:
  "posix_time_from_utc y m d h mi s =
     (if calendar_date y m d \<and> 0 \<le> h \<and> h \<le> 23 \<and> 0 \<le> mi \<and> mi \<le> 59 \<and> 0 \<le> s \<and> s \<le> 59
      then Some ((day_number y m d - 719528) * 86400 + h * 3600 + mi * 60 + s) else None)"
proof -
  have "is_valid_time h mi s \<longleftrightarrow> 0 \<le> h \<and> h \<le> 23 \<and> 0 \<le> mi \<and> mi \<le> 59 \<and> 0 \<le> s \<and> s \<le> 59"
    by (auto simp: is_valid_time_def)
  then show ?thesis
    using posix_time_from_utc_valid [of y m d h mi s]
    by (auto simp: is_valid_date_calendar posix_time_from_utc_def)
qed

text \<open>
  Claim C10.  The two conversions are inverse to one another: a broken-down time converts to the
  POSIX time \<open>t\<close> exactly when \<open>t\<close> converts to that broken-down time.
\<close>

theorem utc_posix_inverse:
  "posix_time_from_utc y m d h mi s = Some t \<longleftrightarrow> utc_from_posix_time t = Some (y, m, d, h, mi, s)"
  by (rule utc_posix_iff)

text \<open>
  The difference of two times that \<open>OPENSSL_gmtime_diff\<close> computes, days and seconds,
  takes \<open>OPENSSL_gmtime_adj\<close> from the first time to the second, and the seconds are less than
  a day and never of the sign opposite to the days.
\<close>

theorem gmtime_diff_adj:
  assumes "OPENSSL_gmtime_diff from_tm to_tm = Some (dd, ss)"
  shows "OPENSSL_gmtime_adj from_tm dd ss = Some to_tm \<and> \<bar>ss\<bar> < 86400
    \<and> (0 < dd \<longrightarrow> 0 \<le> ss) \<and> (dd < 0 \<longrightarrow> ss \<le> 0)"
proof -
  from assms obtain a b where ab: "OPENSSL_tm_to_posix to_tm = Some b" "OPENSSL_tm_to_posix from_tm = Some a"
    and dd: "dd = (b - a) sdiv 86400" and ss: "ss = (b - a) smod 86400"
    by (auto simp: OPENSSL_gmtime_diff_def Let_def SECS_PER_DAY_def SECS_PER_HOUR_def split: option.splits)
  have eq: "a + dd * 86400 + ss = b" by (simp add: dd ss smod_eq)
  have "\<bar>ss\<bar> < 86400 \<and> (0 < dd \<longrightarrow> 0 \<le> ss) \<and> (dd < 0 \<longrightarrow> ss \<le> 0)"
  proof (cases "0 \<le> b - a")
    case True
    then have "0 \<le> ss" "ss < 86400" "0 \<le> dd" by (simp_all add: ss dd smod_nonneg sdiv_nonneg pos_imp_zdiv_nonneg_iff)
    then show ?thesis by auto
  next
    case False
    then have dd': "dd = - ((a - b) div 86400)" by (simp add: dd sdiv_neg)
    then have "ss = - ((a - b) mod 86400)" using eq by (simp add: minus_div_mult_eq_mod [symmetric])
    moreover have "0 \<le> (a - b) mod 86400" "(a - b) mod 86400 < 86400" by simp_all
    moreover have "dd \<le> 0" using False by (simp add: dd' pos_imp_zdiv_nonneg_iff)
    ultimately show ?thesis by auto
  qed
  with gmtime_adj_eq [OF ab(2), of dd ss] ab(1) show ?thesis by (simp add: eq tm_posix_iff)
qed

theorem gmtime_diff_adj_witness:
  "OPENSSL_gmtime_adj \<lparr>tm_year = 100, tm_mon = 1, tm_mday = 28, tm_hour = 23, tm_min = 59, tm_sec = 59\<rparr> 1 2
     = Some \<lparr>tm_year = 100, tm_mon = 2, tm_mday = 1, tm_hour = 0, tm_min = 0, tm_sec = 1\<rparr>"
proof -
  have "OPENSSL_gmtime_diff \<lparr>tm_year = 100, tm_mon = 1, tm_mday = 28, tm_hour = 23, tm_min = 59, tm_sec = 59\<rparr>
      \<lparr>tm_year = 100, tm_mon = 2, tm_mday = 1, tm_hour = 0, tm_min = 0, tm_sec = 1\<rparr> = Some (1, 2)"
    by code_simp
  from gmtime_diff_adj [OF this] show ?thesis by simp
qed

end
