(* ===== verification/Cbs.thy ===== *)
theory Cbs imports Mem PosixTime begin

text \<open>
  \<open>crypto/bytestring/cbs.c\<close>: the byte-string reader.  A \<open>CBS\<close> is a pointer and a length into
  memory that the reader never writes, so its state is the list of the bytes it still covers; an
  operation that takes \<open>CBS *\<close> is a reader, one that takes \<open>const CBS *\<close> a function of the
  bytes.  The first part are the operations in the order of the file; then come what each group
  promises: fixed-width integers and length prefixes, base-128 integers and decimal numbers, the
  DER element parser against a specification of DER headers, and the validity predicates.
\<close>

section \<open>Fixed-width reads\<close>

definition cbs_get :: "nat \<Rightarrow> bytes reader" where
  "cbs_get n cbs = (if length cbs < n then (None, cbs) else (Some (take n cbs), drop n cbs))"

definition CBS_skip :: "nat \<Rightarrow> unit reader" where
  "CBS_skip len = rbind (cbs_get len) (\<lambda>_. rret ())"

text \<open>The buffer that the caller passes in is freed first; the result replaces it.\<close>

definition CBS_stow :: "allocator \<Rightarrow> bytes \<Rightarrow> (bytes option \<times> nat) option" where
  "CBS_stow al cbs =
     (if length cbs = 0 then Some (None, 0)
      else case OPENSSL_memdup al cbs (length cbs) of None \<Rightarrow> None
           | Some out \<Rightarrow> Some (Some out, length cbs))"

definition CBS_strdup :: "allocator \<Rightarrow> bytes \<Rightarrow> bytes option" where
  "CBS_strdup al cbs = OPENSSL_strndup al cbs (length cbs)"

definition CBS_contains_zero_byte :: "bytes \<Rightarrow> bool" where
  "CBS_contains_zero_byte cbs = (OPENSSL_memchr cbs 0 (length cbs) \<noteq> None)"

definition CBS_mem_equal :: "bytes \<Rightarrow> bytes \<Rightarrow> nat \<Rightarrow> bool" where
  "CBS_mem_equal cbs data len =
     (if len \<noteq> length cbs then False else CRYPTO_memcmp cbs data len = 0)"

definition cbs_get_u :: "nat \<Rightarrow> u64 reader" where
  "cbs_get_u len = rbind (cbs_get len) (\<lambda>data. rret (be_loop 0 data))"

definition CBS_get_u8 :: "u8 reader" where
  "CBS_get_u8 = rbind (cbs_get 1) (\<lambda>v. rret (hd v))"

definition CBS_get_u16 :: "u16 reader" where
  "CBS_get_u16 = rbind (cbs_get_u 2) (\<lambda>v. rret (ucast v))"

definition CBS_get_u16le :: "u16 reader" where
  "CBS_get_u16le = rbind CBS_get_u16 (\<lambda>out. rret (CRYPTO_bswap2 out))"

definition CBS_get_u24 :: "u32 reader" where
  "CBS_get_u24 = rbind (cbs_get_u 3) (\<lambda>v. rret (ucast v))"

definition CBS_get_u32 :: "u32 reader" where
  "CBS_get_u32 = rbind (cbs_get_u 4) (\<lambda>v. rret (ucast v))"

definition CBS_get_u32le :: "u32 reader" where
  "CBS_get_u32le = rbind CBS_get_u32 (\<lambda>out. rret (CRYPTO_bswap4 out))"

definition CBS_get_u64 :: "u64 reader" where
  "CBS_get_u64 = cbs_get_u 8"

definition CBS_get_u64le :: "u64 reader" where
  "CBS_get_u64le = rbind (cbs_get_u 8) (\<lambda>out. rret (CRYPTO_bswap8 out))"

text \<open>This one takes from the end: what is left is a prefix.\<close>

definition CBS_get_last_u8 :: "u8 reader" where
  "CBS_get_last_u8 cbs = (if length cbs = 0 then (None, cbs) else (Some (cbs ! (length cbs - 1)), butlast cbs))"

definition CBS_get_bytes :: "nat \<Rightarrow> bytes reader" where
  "CBS_get_bytes len = rbind (cbs_get len) (\<lambda>v. rret v)"

text \<open>\<open>out\<close> is the caller's buffer, of at least \<open>len\<close> bytes; the rest of it is kept.\<close>

definition CBS_copy_bytes :: "bytes \<Rightarrow> nat \<Rightarrow> bytes reader" where
  "CBS_copy_bytes out len = rbind (cbs_get len) (\<lambda>v. rret (v @ drop len out))"

definition cbs_get_length_prefixed :: "nat \<Rightarrow> bytes reader" where
  "cbs_get_length_prefixed len_len = rbind (cbs_get_u len_len) (\<lambda>len. CBS_get_bytes (unat len))"

definition CBS_get_u8_length_prefixed :: "bytes reader" where
  "CBS_get_u8_length_prefixed = cbs_get_length_prefixed 1"

definition CBS_get_u16_length_prefixed :: "bytes reader" where
  "CBS_get_u16_length_prefixed = cbs_get_length_prefixed 2"

definition CBS_get_u24_length_prefixed :: "bytes reader" where
  "CBS_get_u24_length_prefixed = cbs_get_length_prefixed 3"

definition CBS_get_until_first :: "u8 \<Rightarrow> bytes reader" where
  "CBS_get_until_first c cbs =
     (case OPENSSL_memchr cbs c (length cbs) of None \<Rightarrow> (None, cbs)
      | Some split \<Rightarrow> CBS_get_bytes split cbs)"

section \<open>Decimal numbers and base-128 integers\<close>

text \<open>The state of the loop is \<open>v\<close> and \<open>seen_digit\<close>; \<open>c - '0'\<close> is a digit's value.\<close>

fun u64_decimal_loop :: "u64 \<Rightarrow> bool \<Rightarrow> u64 reader" where
  "u64_decimal_loop v seen_digit [] = (if seen_digit then Some v else None, [])"
| "u64_decimal_loop v seen_digit (c # cbs) =
     (if \<not> OPENSSL_isdigit (uint c) then (if seen_digit then Some v else None, c # cbs)
      else if (v = 0 \<and> seen_digit) \<or> (- 1) div 10 < v \<or> - 1 - (ucast c - 48) < v * 10 then (None, cbs)
      else u64_decimal_loop (v * 10 + (ucast c - 48)) True cbs)"

definition CBS_get_u64_decimal :: "u64 reader" where
  "CBS_get_u64_decimal = u64_decimal_loop 0 False"

fun base128_loop :: "u64 \<Rightarrow> u64 reader" where
  "base128_loop v [] = (None, [])"
| "base128_loop v (b # cbs) =
     (if drop_bit (64 - 7) v \<noteq> 0 then (None, cbs)
      else if v = 0 \<and> b = 0x80 then (None, cbs)
      else let v' = push_bit 7 v OR (ucast b AND 0x7f)
           in if b AND 0x80 \<noteq> 0 then base128_loop v' cbs else (Some v', cbs))"

definition parse_base128_integer :: "u64 reader" where
  "parse_base128_integer = base128_loop 0"

section \<open>ASN.1 elements\<close>

definition CBS_ASN1_TAG_SHIFT :: nat where "CBS_ASN1_TAG_SHIFT = 24"
definition CBS_ASN1_CONSTRUCTED :: u32 where "CBS_ASN1_CONSTRUCTED = push_bit CBS_ASN1_TAG_SHIFT 0x20"
definition CBS_ASN1_APPLICATION :: u32 where "CBS_ASN1_APPLICATION = push_bit CBS_ASN1_TAG_SHIFT 0x40"
definition CBS_ASN1_CONTEXT_SPECIFIC :: u32 where
  "CBS_ASN1_CONTEXT_SPECIFIC = push_bit CBS_ASN1_TAG_SHIFT 0x80"
definition CBS_ASN1_CLASS_MASK :: u32 where "CBS_ASN1_CLASS_MASK = push_bit CBS_ASN1_TAG_SHIFT 0xc0"
definition CBS_ASN1_TAG_NUMBER_MASK :: u32 where
  "CBS_ASN1_TAG_NUMBER_MASK = push_bit (5 + CBS_ASN1_TAG_SHIFT) 1 - 1"

definition CBS_ASN1_BOOLEAN :: u32 where "CBS_ASN1_BOOLEAN = 1"
definition CBS_ASN1_INTEGER :: u32 where "CBS_ASN1_INTEGER = 2"
definition CBS_ASN1_BITSTRING :: u32 where "CBS_ASN1_BITSTRING = 3"
definition CBS_ASN1_OCTETSTRING :: u32 where "CBS_ASN1_OCTETSTRING = 4"
definition CBS_ASN1_NULL :: u32 where "CBS_ASN1_NULL = 5"
definition CBS_ASN1_OBJECT :: u32 where "CBS_ASN1_OBJECT = 6"
definition CBS_ASN1_SEQUENCE :: u32 where "CBS_ASN1_SEQUENCE = 0x10 OR CBS_ASN1_CONSTRUCTED"
definition CBS_ASN1_SET :: u32 where "CBS_ASN1_SET = 0x11 OR CBS_ASN1_CONSTRUCTED"

definition parse_asn1_tag :: "u32 reader" where
  "parse_asn1_tag =
     rbind CBS_get_u8 (\<lambda>tag_byte.
       let tag = push_bit CBS_ASN1_TAG_SHIFT (ucast tag_byte AND 0xe0);
           tag_number = ucast tag_byte AND 0x1f
       in rbind (if tag_number = 0x1f
                 then rbind parse_base128_integer (\<lambda>v.
                   if ucast CBS_ASN1_TAG_NUMBER_MASK < v \<or> v < 0x1f then rfail else rret (ucast v))
                 else rret tag_number)
          (\<lambda>tag_number.
            let tag = tag OR tag_number
            in if tag AND NOT CBS_ASN1_CONSTRUCTED = 0 then rfail else rret tag))"

record asn1_element =
  el_bytes :: bytes
  el_tag :: u32
  el_header_len :: nat
  el_ber_found :: bool
  el_indefinite :: bool

text \<open>The parser works on a copy of the \<open>CBS\<close>; only the last step advances the caller's.\<close>

definition asn1_take :: "bytes \<Rightarrow> nat \<Rightarrow> u32 \<Rightarrow> nat \<Rightarrow> bool \<Rightarrow> bool \<Rightarrow> asn1_element option \<times> bytes" where
  "asn1_take cbs len tag header_len ber_found indefinite =
     rbind (CBS_get_bytes len)
       (\<lambda>out. rret \<lparr>el_bytes = out, el_tag = tag, el_header_len = header_len,
                    el_ber_found = ber_found, el_indefinite = indefinite\<rparr>) cbs"

definition cbs_get_any_asn1_element :: "bool \<Rightarrow> asn1_element reader" where
  "cbs_get_any_asn1_element ber_ok cbs =
     (case parse_asn1_tag cbs of (None, _) \<Rightarrow> (None, cbs)
      | (Some tag, header0) \<Rightarrow>
     (case CBS_get_u8 header0 of (None, _) \<Rightarrow> (None, cbs)
      | (Some length_byte, header) \<Rightarrow>
        let header_len = length cbs - length header
        in if length_byte AND 0x80 = 0
           then asn1_take cbs (size_add (unat length_byte) header_len) tag header_len False False
           else
             let num_bytes = unat (length_byte AND 0x7f)
             in if ber_ok \<and> tag AND CBS_ASN1_CONSTRUCTED \<noteq> 0 \<and> num_bytes = 0
                then asn1_take cbs header_len tag header_len True True
                else if num_bytes = 0 \<or> 4 < num_bytes then (None, cbs)
                else
     (case cbs_get_u num_bytes header of (None, _) \<Rightarrow> (None, cbs)
      | (Some len64, _) \<Rightarrow>
             if len64 < 128 \<and> \<not> ber_ok then (None, cbs)
             else if drop_bit ((num_bytes - 1) * 8) len64 = 0 \<and> \<not> ber_ok then (None, cbs)
             else
               let ber_found = (len64 < 128 \<or> drop_bit ((num_bytes - 1) * 8) len64 = 0);
                   len = unat len64
               in if size_add (size_add len header_len) num_bytes < len then (None, cbs)
                  else asn1_take cbs (size_add len (size_add header_len num_bytes)) tag
                         (size_add header_len num_bytes) ber_found False)))"

definition CBS_get_any_asn1_element :: "asn1_element reader" where
  "CBS_get_any_asn1_element = cbs_get_any_asn1_element False"

definition CBS_get_any_ber_asn1_element :: "asn1_element reader" where
  "CBS_get_any_ber_asn1_element = cbs_get_any_asn1_element True"

text \<open>The contents are the element without its header: \<open>CBS_skip (out, header_len)\<close>.\<close>

definition CBS_get_any_asn1 :: "(bytes \<times> u32) reader" where
  "CBS_get_any_asn1 =
     rbind CBS_get_any_asn1_element (\<lambda>e.
       case CBS_skip (el_header_len e) (el_bytes e) of
         (None, _) \<Rightarrow> rfail
       | (Some _, out) \<Rightarrow> rret (out, el_tag e))"

definition cbs_get_asn1 :: "u32 \<Rightarrow> bool \<Rightarrow> bytes reader" where
  "cbs_get_asn1 tag_value skip_header =
     rbind CBS_get_any_asn1_element (\<lambda>e.
       if el_tag e \<noteq> tag_value then rfail
       else if skip_header then
         (case CBS_skip (el_header_len e) (el_bytes e) of (None, _) \<Rightarrow> rfail | (Some _, out) \<Rightarrow> rret out)
       else rret (el_bytes e))"

definition CBS_get_asn1 :: "u32 \<Rightarrow> bytes reader" where
  "CBS_get_asn1 tag_value = cbs_get_asn1 tag_value True"

definition CBS_get_asn1_element :: "u32 \<Rightarrow> bytes reader" where
  "CBS_get_asn1_element tag_value = cbs_get_asn1 tag_value False"

definition CBS_peek_asn1_tag :: "bytes \<Rightarrow> u32 \<Rightarrow> bool" where
  "CBS_peek_asn1_tag cbs tag_value =
     (case parse_asn1_tag cbs of (None, _) \<Rightarrow> False | (Some actual_tag, _) \<Rightarrow> tag_value = actual_tag)"

section \<open>Typed elements\<close>

definition CBS_is_valid_asn1_integer :: "bytes \<Rightarrow> bool" where
  "CBS_is_valid_asn1_integer cbs =
     (case CBS_get_u8 cbs of (None, _) \<Rightarrow> False
      | (Some first_byte, copy) \<Rightarrow>
     (case CBS_get_u8 copy of (None, _) \<Rightarrow> True
      | (Some second_byte, _) \<Rightarrow>
          \<not> ((first_byte = 0 \<and> second_byte AND 0x80 = 0) \<or> (first_byte = 0xff \<and> second_byte AND 0x80 \<noteq> 0))))"

text \<open>\<open>*out_is_negative\<close>, which is set whenever there is a first byte.\<close>

definition asn1_integer_is_negative :: "bytes \<Rightarrow> bool" where
  "asn1_integer_is_negative cbs =
     (case CBS_get_u8 cbs of (None, _) \<Rightarrow> False | (Some first_byte, _) \<Rightarrow> first_byte AND 0x80 \<noteq> 0)"

definition CBS_is_unsigned_asn1_integer :: "bytes \<Rightarrow> bool" where
  "CBS_is_unsigned_asn1_integer cbs = (CBS_is_valid_asn1_integer cbs \<and> \<not> asn1_integer_is_negative cbs)"

fun asn1_uint64_loop :: "u64 \<Rightarrow> bytes \<Rightarrow> u64 option" where
  "asn1_uint64_loop out [] = Some out"
| "asn1_uint64_loop out (b # data) =
     (if drop_bit 56 out \<noteq> 0 then None else asn1_uint64_loop (push_bit 8 out OR ucast b) data)"

definition CBS_get_asn1_uint64 :: "u64 reader" where
  "CBS_get_asn1_uint64 =
     rbind (CBS_get_asn1 CBS_ASN1_INTEGER) (\<lambda>data.
       if \<not> CBS_is_unsigned_asn1_integer data then rfail
       else (case asn1_uint64_loop 0 data of None \<Rightarrow> rfail | Some out \<Rightarrow> rret out))"

text \<open>The result is an \<open>int64_t\<close>, the two's complement reading of the word (\<open>sint\<close>).\<close>

definition CBS_get_asn1_int64 :: "u64 reader" where
  "CBS_get_asn1_int64 =
     rbind (CBS_get_asn1 CBS_ASN1_INTEGER) (\<lambda>data.
       if \<not> CBS_is_valid_asn1_integer data then rfail
       else if 8 < length data then rfail
       else rret (CRYPTO_load_u64_be
              (replicate (8 - length data) (if asn1_integer_is_negative data then 0xff else 0) @ data)))"

definition CBS_get_asn1_bool :: "bool reader" where
  "CBS_get_asn1_bool =
     rbind (CBS_get_asn1 CBS_ASN1_BOOLEAN) (\<lambda>data.
       if length data \<noteq> 1 then rfail
       else if hd data \<noteq> 0 \<and> hd data \<noteq> 0xff then rfail
       else rret (hd data \<noteq> 0))"

definition CBS_get_optional_asn1 :: "u32 \<Rightarrow> bytes option reader" where
  "CBS_get_optional_asn1 tag cbs =
     (if CBS_peek_asn1_tag cbs tag then rbind (CBS_get_asn1 tag) (\<lambda>out. rret (Some out)) cbs
      else (Some None, cbs))"

definition CBS_get_optional_asn1_octet_string :: "u32 \<Rightarrow> (bytes \<times> bool) reader" where
  "CBS_get_optional_asn1_octet_string tag =
     rbind (CBS_get_optional_asn1 tag) (\<lambda>present.
       case present of None \<Rightarrow> rret ([], False)
       | Some child \<Rightarrow>
           (case CBS_get_asn1 CBS_ASN1_OCTETSTRING child of
              (Some out, []) \<Rightarrow> rret (out, True)
            | _ \<Rightarrow> rfail))"

definition CBS_get_optional_asn1_uint64 :: "u32 \<Rightarrow> u64 \<Rightarrow> u64 reader" where
  "CBS_get_optional_asn1_uint64 tag default_value =
     rbind (CBS_get_optional_asn1 tag) (\<lambda>present.
       case present of None \<Rightarrow> rret default_value
       | Some child \<Rightarrow>
           (case CBS_get_asn1_uint64 child of (Some out, []) \<Rightarrow> rret out | _ \<Rightarrow> rfail))"

text \<open>The caller's \<open>int\<close> is returned unchanged when the element is missing.\<close>

definition CBS_get_optional_asn1_bool :: "u32 \<Rightarrow> int \<Rightarrow> int reader" where
  "CBS_get_optional_asn1_bool tag default_value =
     rbind (CBS_get_optional_asn1 tag) (\<lambda>present.
       case present of None \<Rightarrow> rret default_value
       | Some child \<Rightarrow>
           (case CBS_get_asn1 CBS_ASN1_BOOLEAN child of
              (None, _) \<Rightarrow> rfail
            | (Some child2, child') \<Rightarrow>
                if length child2 \<noteq> 1 \<or> length child' \<noteq> 0 then rfail
                else let boolean = hd child2
                     in if boolean = 0 then rret 0 else if boolean = 0xff then rret 1 else rfail))"

section \<open>Validity of contents\<close>

definition CBS_is_valid_asn1_bitstring :: "bytes \<Rightarrow> bool" where
  "CBS_is_valid_asn1_bitstring cbs =
     (case CBS_get_u8 cbs of (None, _) \<Rightarrow> False
      | (Some num_unused_bits, input) \<Rightarrow>
          if 7 < num_unused_bits then False
          else if num_unused_bits = 0 then True
          else (case CBS_get_last_u8 input of (None, _) \<Rightarrow> False
                | (Some last_byte, _) \<Rightarrow> last_byte AND (push_bit (unat num_unused_bits) 1 - 1) = 0))"

definition CBS_asn1_bitstring_has_bit :: "bytes \<Rightarrow> u32 \<Rightarrow> bool" where
  "CBS_asn1_bitstring_has_bit cbs b =
     (if \<not> CBS_is_valid_asn1_bitstring cbs then False
      else let byte_num = unat (drop_bit 3 b + 1);
               bit_num = unat (7 - (b AND 7))
           in byte_num < length cbs \<and> (cbs ! byte_num) AND push_bit bit_num 1 \<noteq> 0)"

fun asn1_oid_loop :: "u8 \<Rightarrow> bytes \<Rightarrow> bool" where
  "asn1_oid_loop prev [] = (prev AND 0x80 = 0)"
| "asn1_oid_loop prev (v # copy) = (if prev AND 0x80 = 0 \<and> v = 0x80 then False else asn1_oid_loop v copy)"

definition CBS_is_valid_asn1_oid :: "bytes \<Rightarrow> bool" where
  "CBS_is_valid_asn1_oid cbs = (if length cbs = 0 then False else asn1_oid_loop 0 cbs)"

section \<open>Times\<close>

definition cbs_get_two_digits :: "int reader" where
  "cbs_get_two_digits =
     rbind CBS_get_u8 (\<lambda>first_digit.
       if \<not> OPENSSL_isdigit (uint first_digit) then rfail
       else rbind CBS_get_u8 (\<lambda>second_digit.
         if \<not> OPENSSL_isdigit (uint second_digit) then rfail
         else rret ((uint first_digit - 48) * 10 + (uint second_digit - 48))))"

definition is_valid_day :: "int \<Rightarrow> int \<Rightarrow> int \<Rightarrow> bool" where
  "is_valid_day year month day =
     (if day < 1 then False
      else if month \<in> {1, 3, 5, 7, 8, 10, 12} then day \<le> 31
      else if month \<in> {4, 6, 9, 11} then day \<le> 30
      else if month = 2 then
        (if (year smod 4 = 0 \<and> year smod 100 \<noteq> 0) \<or> year smod 400 = 0 then day \<le> 29 else day \<le> 28)
      else False)"

definition parse_time_year :: "bool \<Rightarrow> int reader" where
  "parse_time_year is_gentime =
     (if is_gentime then
        rbind cbs_get_two_digits (\<lambda>tmp. rbind cbs_get_two_digits (\<lambda>tmp2. rret (tmp * 100 + tmp2)))
      else
        rbind cbs_get_two_digits (\<lambda>tmp.
          let year = 1900 + tmp;
              year = (if year < 1950 then year + 100 else year)
          in if 2050 \<le> year then rfail else rret year))"

definition parse_time_offset :: "bool \<Rightarrow> u8 \<Rightarrow> int reader" where
  "parse_time_offset allow_timezone_offset tz =
     (if tz = 0x5a then rret 0
      else if tz = 0x2b \<or> tz = 0x2d then
        (let offset_sign = (if tz = 0x2b then 1 else - 1)
         in if \<not> allow_timezone_offset then rfail
            else rbind cbs_get_two_digits (\<lambda>offset_hours.
              if 23 < offset_hours then rfail
              else rbind cbs_get_two_digits (\<lambda>offset_minutes.
                if 59 < offset_minutes then rfail
                else rret (offset_sign * (offset_hours * 3600 + offset_minutes * 60)))))
      else rfail)"

text \<open>The fields of the time and the offset in seconds.\<close>

definition rfc5280_time_reader :: "bool \<Rightarrow> bool \<Rightarrow> (tm \<times> int) reader" where
  "rfc5280_time_reader is_gentime allow_timezone_offset =
     rbind (parse_time_year is_gentime) (\<lambda>year.
     rbind cbs_get_two_digits (\<lambda>month. if month < 1 \<or> 12 < month then rfail else
     rbind cbs_get_two_digits (\<lambda>day. if \<not> is_valid_day year month day then rfail else
     rbind cbs_get_two_digits (\<lambda>hour. if 23 < hour then rfail else
     rbind cbs_get_two_digits (\<lambda>minute. if 59 < minute then rfail else
     rbind cbs_get_two_digits (\<lambda>sec. if 59 < sec then rfail else
     rbind CBS_get_u8 (\<lambda>tz.
     rbind (parse_time_offset allow_timezone_offset tz) (\<lambda>offset_seconds.
       rret (\<lparr>tm_year = year - 1900, tm_mon = month - 1, tm_mday = day, tm_hour = hour,
              tm_min = minute, tm_sec = sec\<rparr>, offset_seconds)))))))))"

text \<open>
  The whole string is parsed on a copy.  The result is the broken-down time that is written to
  \<open>out_tm\<close>; \<open>has_out\<close> says whether the caller passed one, as only then the time zone offset
  is applied (and can put the time out of range).
\<close>

definition CBS_parse_rfc5280_time_internal :: "bool \<Rightarrow> bytes \<Rightarrow> bool \<Rightarrow> bool \<Rightarrow> tm option" where
  "CBS_parse_rfc5280_time_internal has_out cbs is_gentime allow_timezone_offset =
     (case rfc5280_time_reader is_gentime allow_timezone_offset cbs of
        (Some (t, offset_seconds), []) \<Rightarrow>
          if has_out \<and> offset_seconds \<noteq> 0 then OPENSSL_gmtime_adj t 0 offset_seconds else Some t
      | _ \<Rightarrow> None)"

definition CBS_parse_generalized_time :: "bool \<Rightarrow> bytes \<Rightarrow> bool \<Rightarrow> tm option" where
  "CBS_parse_generalized_time has_out cbs allow_timezone_offset =
     CBS_parse_rfc5280_time_internal has_out cbs True allow_timezone_offset"

definition CBS_parse_utc_time :: "bool \<Rightarrow> bytes \<Rightarrow> bool \<Rightarrow> tm option" where
  "CBS_parse_utc_time has_out cbs allow_timezone_offset =
     CBS_parse_rfc5280_time_internal has_out cbs False allow_timezone_offset"

section \<open>What the fixed-width reads promise\<close>

named_theorems cbs_simps "what the readers do on a byte string"
named_theorems reader_intros "readers of the file, and the combinators they are built from"

lemmas [reader_intros] = rbind_reader rret_reader rfail_reader if_reader

lemma cbs_get_append [cbs_simps]: "length p = n \<Longrightarrow> cbs_get n (p @ r) = (Some p, r)"
  by (simp add: cbs_get_def)

lemma cbs_get_short [cbs_simps]: "length c < n \<Longrightarrow> cbs_get n c = (None, c)"
  by (simp add: cbs_get_def)

lemma cbs_get_Some_iff: "cbs_get n c = (Some p, r) \<longleftrightarrow> c = p @ r \<and> length p = n"
  by (auto simp: cbs_get_def)

interpretation cbs_get: byte_reader "cbs_get n"
  by unfold_locales (simp add: cbs_get_def suffix_drop)

lemmas [reader_intros] = cbs_get.byte_reader_axioms

lemma CBS_get_bytes_eq: "CBS_get_bytes n = cbs_get n"
  by (simp add: CBS_get_bytes_def fun_eq_iff rbind_def split: prod.splits option.splits)

lemma CBS_skip_append [cbs_simps]: "length p = n \<Longrightarrow> CBS_skip n (p @ r) = (Some (), r)"
  by (simp add: CBS_skip_def rbind_def cbs_simps)

lemma CBS_get_u8_Cons [cbs_simps]: "CBS_get_u8 (b # r) = (Some b, r)"
  by (simp add: CBS_get_u8_def rbind_def cbs_get_def)

lemma CBS_get_u8_Nil [cbs_simps]: "CBS_get_u8 [] = (None, [])"
  by (simp add: CBS_get_u8_def rbind_def cbs_get_def)

lemma CBS_get_u8_Some_iff: "CBS_get_u8 c = (Some b, r) \<longleftrightarrow> c = b # r"
  by (cases c) (auto simp: cbs_simps)

lemma cbs_get_u_append [cbs_simps]: "length p = n \<Longrightarrow> cbs_get_u n (p @ r) = (Some (be_loop 0 p), r)"
  by (simp add: cbs_get_u_def rbind_def cbs_simps)

lemma cbs_get_u_short [cbs_simps]: "length c < n \<Longrightarrow> cbs_get_u n c = (None, c)"
  by (simp add: cbs_get_u_def rbind_def cbs_simps)

lemma cbs_get_u_Some_iff:
  "cbs_get_u n c = (Some v, r) \<longleftrightarrow> (\<exists>p. c = p @ r \<and> length p = n \<and> v = be_loop 0 p)"
  by (auto simp: cbs_get_u_def rbind_def cbs_get_Some_iff cbs_get_append split: prod.splits option.splits)

lemma rbind_ret_Some_iff:
  "rbind m (\<lambda>a. rret (f a)) c = (Some b, r) \<longleftrightarrow> (\<exists>a. m c = (Some a, r) \<and> b = f a)"
  by (auto simp: rbind_def split: prod.splits option.splits)

lemma word_of_be_loop:
  "length p \<le> 8 \<Longrightarrow> unat (ucast (be_loop 0 p) :: 'a::len word) = be_val p mod 2 ^ LENGTH('a)"
  by (simp add: unat_ucast_mod unat_be_loop_small)

text \<open>The encodings that the fixed-width readers undo.\<close>

lemma word_of_nat_of_unat: "word_of_nat (unat x) = (x :: 'a::len word)"
  by simp

lemma be_bytes_read:
  assumes "\<And>c. rd c = rbind (cbs_get_u n) (\<lambda>v. rret (ucast v)) c" "n \<le> 8"
    and "v < 256 ^ n" "v < 2 ^ LENGTH('a::len)"
  shows "rd (be_bytes n v @ r) = (Some (word_of_nat v :: 'a word), r)"
proof -
  have "unat (ucast (be_loop 0 (be_bytes n v)) :: 'a word) = v"
    using assms(2-4) by (subst word_of_be_loop) auto
  then have "(ucast (be_loop 0 (be_bytes n v)) :: 'a word) = word_of_nat v"
    by (metis word_of_nat_of_unat)
  then show ?thesis by (simp add: assms(1) rbind_def cbs_simps)
qed

lemma cbs_get_length: "cbs_get n c = (Some p, c') \<Longrightarrow> length c = length c' + n"
  by (auto simp: cbs_get_Some_iff)

lemma cbs_get_u_reader [reader_intros]: "byte_reader (cbs_get_u n)"
  unfolding cbs_get_u_def by (intro reader_intros)

lemma CBS_get_u8_reader [reader_intros]: "byte_reader CBS_get_u8"
  unfolding CBS_get_u8_def by (intro reader_intros)

lemma CBS_get_bytes_reader [reader_intros]: "byte_reader (CBS_get_bytes n)"
  unfolding CBS_get_bytes_def by (intro reader_intros)

lemma CBS_skip_reader [reader_intros]: "byte_reader (CBS_skip n)"
  unfolding CBS_skip_def by (intro reader_intros)

lemma u_progress:
  assumes "\<And>c. rd c = rbind (cbs_get_u n) (\<lambda>v. rret (f v)) c" "0 < n"
  shows "progress_reader rd"
proof -
  have rd: "rd = rbind (cbs_get_u n) (\<lambda>v. rret (f v))" using assms(1) by (rule ext)
  show ?thesis
  proof (intro_locales)
    show "byte_reader rd" unfolding rd by (intro reader_intros)
    show "progress_reader_axioms rd"
      by standard (use assms(2) in \<open>auto simp: rd rbind_ret_Some_iff cbs_get_u_Some_iff\<close>)
  qed
qed

lemma fixed_width_codec:
  assumes rd: "\<And>c. rd c = rbind (cbs_get_u n) (\<lambda>v. rret (ucast v)) c" and n: "0 < n" "n \<le> 8"
    and small: "\<And>v :: 'a::len word. ok v \<Longrightarrow> unat v < 256 ^ n"
  shows "stream_codec (\<lambda>v. be_bytes n (unat v)) rd (ok :: 'a word \<Rightarrow> bool)"
proof (intro stream_codec.intro codec.intro stream_codec_axioms.intro)
  show "progress_reader rd" using rd n(1) by (rule u_progress)
  show "rd (be_bytes n (unat v) @ r) = (Some v, r)" if "ok v" for v r
    using be_bytes_read [OF rd n(2) small, of v r] unsigned_less [of v, where ?'a = nat] that by simp
  show "be_bytes n (unat v) \<noteq> []" for v :: "'a word"
    using n by (metis length_be_bytes list.size(3) less_irrefl)
qed

interpretation u16: stream_codec "\<lambda>v. be_bytes 2 (unat v)" CBS_get_u16 "\<lambda>_. True"
  by (rule fixed_width_codec)
    (simp_all add: CBS_get_u16_def order_less_le_trans [OF unsigned_less])

interpretation u24: stream_codec "\<lambda>v. be_bytes 3 (unat v)" CBS_get_u24 "\<lambda>v. v < 0x1000000"
  by (rule fixed_width_codec) (simp_all add: CBS_get_u24_def word_less_nat_alt)

interpretation u32: stream_codec "\<lambda>v. be_bytes 4 (unat v)" CBS_get_u32 "\<lambda>_. True"
  by (rule fixed_width_codec)
    (simp_all add: CBS_get_u32_def order_less_le_trans [OF unsigned_less])

lemma CBS_get_u64_eq: "CBS_get_u64 c = rbind (cbs_get_u 8) (\<lambda>v. rret (ucast v)) c"
  by (simp add: CBS_get_u64_def)

interpretation u64: stream_codec "\<lambda>v. be_bytes 8 (unat v)" CBS_get_u64 "\<lambda>_. True"
  by (rule fixed_width_codec [OF CBS_get_u64_eq]) (simp_all add: order_less_le_trans [OF unsigned_less])

text \<open>The little-endian readers swap; they undo the little-endian encoding.\<close>

lemma rev_le_bytes: "rev (le_bytes n v) = be_bytes n v"
  by (metis rev_be_bytes rev_rev_ident)

lemma be_val_le_bytes_swap: "length p = n \<Longrightarrow> be_val (le_bytes n (be_val p)) = le_val p"
  by (metis be_bytes_be_val le_val_rev rev_be_bytes rev_rev_ident)

subsection \<open>Length prefixes\<close>

lemma unat_be_loop_be_bytes: "v < 256 ^ n \<Longrightarrow> n \<le> 8 \<Longrightarrow> unat (be_loop 0 (be_bytes n v)) = v"
  by (simp add: unat_be_loop_small)

lemma length_prefixed_eq:
  "cbs_get_length_prefixed n c = (Some out, r) \<longleftrightarrow>
     (\<exists>l. c = l @ out @ r \<and> length l = n \<and> length out = unat (be_loop 0 l))"
  by (auto simp: cbs_get_length_prefixed_def rbind_def cbs_get_u_Some_iff CBS_get_bytes_eq
      cbs_get_Some_iff cbs_get_u_append split: prod.splits option.splits)

lemma length_prefixed_Some_iff:
  assumes "n \<le> 8"
  shows "cbs_get_length_prefixed n c = (Some out, r) \<longleftrightarrow>
     c = be_bytes n (length out) @ out @ r \<and> length out < 256 ^ n"
proof
  assume "cbs_get_length_prefixed n c = (Some out, r)"
  then obtain l where c: "c = l @ out @ r" and l: "length l = n" "length out = unat (be_loop 0 l)"
    by (auto simp: length_prefixed_eq)
  with assms have "length out = be_val l" by (simp add: unat_be_loop_small)
  with c l(1) show "c = be_bytes n (length out) @ out @ r \<and> length out < 256 ^ n"
    using be_bytes_be_val [of l] be_val_less [of l] by simp
next
  assume "c = be_bytes n (length out) @ out @ r \<and> length out < 256 ^ n"
  with assms show "cbs_get_length_prefixed n c = (Some out, r)" unfolding length_prefixed_eq
    by (intro exI [of _ "be_bytes n (length out)"]) (simp add: unat_be_loop_be_bytes)
qed

lemma length_prefixed_reader [reader_intros]: "byte_reader (cbs_get_length_prefixed n)"
  unfolding cbs_get_length_prefixed_def by (intro reader_intros)

lemma length_prefixed_progress: "0 < n \<Longrightarrow> progress_reader (cbs_get_length_prefixed n)"
  by (intro progress_reader.intro progress_reader_axioms.intro length_prefixed_reader)
    (auto simp: length_prefixed_eq)

lemma length_prefixed_codec:
  assumes "0 < n" "n \<le> 8"
  shows "stream_codec (\<lambda>p. be_bytes n (length p) @ p) (cbs_get_length_prefixed n) (\<lambda>p. length p < 256 ^ n)"
  by (intro stream_codec.intro codec.intro stream_codec_axioms.intro length_prefixed_progress assms)
    (use assms in \<open>auto simp: length_prefixed_Some_iff [OF assms(2)] dest: arg_cong [of _ _ length]\<close>)

interpretation u8_prefixed: stream_codec "\<lambda>p. be_bytes 1 (length p) @ p" CBS_get_u8_length_prefixed
    "\<lambda>p. length p < 256 ^ 1"
  unfolding CBS_get_u8_length_prefixed_def by (rule length_prefixed_codec) simp_all

interpretation u16_prefixed: stream_codec "\<lambda>p. be_bytes 2 (length p) @ p" CBS_get_u16_length_prefixed
    "\<lambda>p. length p < 256 ^ 2"
  unfolding CBS_get_u16_length_prefixed_def by (rule length_prefixed_codec) simp_all

interpretation u24_prefixed: stream_codec "\<lambda>p. be_bytes 3 (length p) @ p" CBS_get_u24_length_prefixed
    "\<lambda>p. length p < 256 ^ 3"
  unfolding CBS_get_u24_length_prefixed_def by (rule length_prefixed_codec) simp_all

lemma CBS_get_until_first_Some_iff:
  assumes "length c < 2 ^ 64"
  shows "CBS_get_until_first b c = (Some p, r) \<longleftrightarrow> c = p @ r \<and> b \<notin> set p \<and> (\<exists>r'. r = b # r')"
proof -
  have "memchr b c = Some (length p) \<longleftrightarrow> b \<notin> set p \<and> (\<exists>r'. r = b # r')" if "c = p @ r"
    unfolding that by (induction p) (auto split: if_splits, (cases r; auto split: if_splits)+)
  then show ?thesis
    by (cases "c = []")
      (auto simp: CBS_get_until_first_def OPENSSL_memchr_def CBS_get_bytes_eq cbs_get_Some_iff
        split: option.splits)
qed

section \<open>Decimal numbers\<close>

text \<open>The digits of a number as \<open>printf\<close> writes them.\<close>

fun decimal :: "nat \<Rightarrow> bytes" where
  "decimal n = (if n < 10 then [word_of_nat (48 + n)] else decimal (n div 10) @ [word_of_nat (48 + n mod 10)])"

declare decimal.simps [simp del]

abbreviation digit :: "u8 \<Rightarrow> bool" where
  "digit b \<equiv> OPENSSL_isdigit (uint b)"

lemma digit_iff: "digit b \<longleftrightarrow> 48 \<le> unat b \<and> unat b \<le> 57"
proof -
  have "uint b = int (unat b)" by simp
  then show ?thesis unfolding OPENSSL_isdigit_def by linarith
qed

lemma unat_digit: "n < 10 \<Longrightarrow> unat (word_of_nat (48 + n) :: u8) = 48 + n"
  by (simp add: unat_of_nat del: of_nat_add)

lemma digit_word: "digit b \<Longrightarrow> b = word_of_nat (48 + (unat b - 48))"
proof -
  assume "digit b"
  then have "48 + (unat b - 48) = unat b" by (simp add: digit_iff)
  then show ?thesis by (simp only: word_of_nat_of_unat)
qed

lemma decimal_small: "n < 10 \<Longrightarrow> decimal n = [word_of_nat (48 + n)]"
  by (simp add: decimal.simps)

lemma decimal_step: "10 \<le> n \<Longrightarrow> decimal n = decimal (n div 10) @ [word_of_nat (48 + n mod 10)]"
  by (simp add: decimal.simps [of n])

lemma decimal_snoc: "0 < n \<Longrightarrow> d < 10 \<Longrightarrow> decimal (n * 10 + d) = decimal n @ [word_of_nat (48 + d)]"
  by (simp add: decimal_step [of "n * 10 + d"])

lemma unat_digit_value: "digit c \<Longrightarrow> unat (ucast c - 48 :: u64) = unat c - 48"
proof -
  assume "digit c"
  moreover have c: "unat (ucast c :: u64) = unat c"
    using unat_byte_less [of c] by (simp add: unat_ucast_mod del: unat_byte_less)
  ultimately have "unat (48 :: u64) \<le> unat (ucast c :: u64)" by (simp add: digit_iff)
  then have "unat (ucast c - 48 :: u64) = unat (ucast c :: u64) - unat (48 :: u64)"
    by (simp only: unat_sub word_le_nat_alt)
  then show ?thesis by (simp add: c)
qed

lemma decimal_step_guard:
  fixes v :: u64
  assumes "digit c"
  shows "((- 1) div 10 < v \<or> - 1 - (ucast c - 48) < v * 10) \<longleftrightarrow> 2 ^ 64 \<le> unat v * 10 + (unat c - 48)"
    and "unat v * 10 + (unat c - 48) < 2 ^ 64 \<Longrightarrow> unat (v * 10 + (ucast c - 48)) = unat v * 10 + (unat c - 48)"
proof -
  define d where "d = unat c - 48"
  have d: "unat (ucast c - 48 :: u64) = d" using assms by (simp add: unat_digit_value d_def)
  have "d \<le> 9" using assms digit_iff [of c] unfolding d_def by linarith
  note d = d this
  have m1: "unat (- 1 :: u64) = 2 ^ 64 - 1" by (simp add: unsigned_minus_1_eq_mask mask_eq_exp_minus_1)
  have "unat ((- 1 :: u64) div 10) = (2 ^ 64 - 1) div 10"
    by (simp only: unat_div_distrib m1 unsigned_numeral) simp
  then have a: "(- 1) div 10 < v \<longleftrightarrow> 1844674407370955161 < unat v"
    by (simp add: word_less_nat_alt)
  have "unat (- 1 - (ucast c - 48) :: u64) = unat (- 1 :: u64) - unat (ucast c - 48 :: u64)"
    by (rule unat_sub) (simp add: word_le_nat_alt m1 d(1), use d(2) in simp)
  then have b: "unat (- 1 - (ucast c - 48) :: u64) = 2 ^ 64 - 1 - d" by (simp only: m1 d(1))
  have m: "unat v \<le> 1844674407370955161 \<Longrightarrow> unat (v * 10) = unat v * 10"
    by (simp add: unat_word_ariths(2))
  show "((- 1) div 10 < v \<or> - 1 - (ucast c - 48) < v * 10) \<longleftrightarrow> 2 ^ 64 \<le> unat v * 10 + (unat c - 48)"
  proof (cases "unat v \<le> 1844674407370955161")
    case True
    with a have "((- 1) div 10 < v \<or> - 1 - (ucast c - 48) < v * 10) \<longleftrightarrow> 2 ^ 64 - 1 - d < unat v * 10"
      by (simp only: word_less_nat_alt [of "- 1 - (ucast c - 48)"] b m) simp
    also have "\<dots> \<longleftrightarrow> 2 ^ 64 \<le> unat v * 10 + d" using d(2) by auto
    finally show ?thesis by (simp add: d_def)
  next
    case False
    then have "1844674407370955161 < unat v" by simp
    then have "2 ^ 64 \<le> unat v * 10 + (unat c - 48)" and "(- 1) div 10 < v"
      by (simp, simp only: a)
    then show ?thesis by (simp only: simp_thms)
  qed
  assume "unat v * 10 + (unat c - 48) < 2 ^ 64"
  then show "unat (v * 10 + (ucast c - 48)) = unat v * 10 + (unat c - 48)"
    using m d by (simp add: unat_word_ariths(1) d_def)
qed

lemma decimal_digit: "digit c \<Longrightarrow> decimal (unat c - 48) = [c]"
  using digit_word [of c] digit_iff [of c] by (subst decimal_small) auto

lemma decimal_digit_snoc: "digit c \<Longrightarrow> 0 < n \<Longrightarrow> decimal (n * 10 + (unat c - 48)) = decimal n @ [c]"
  using digit_word [of c] digit_iff [of c] by (subst decimal_snoc) auto

text \<open>What the loop accepts, from any state in which a digit has been seen.\<close>

lemma u64_decimal_loop_sound:
  assumes "u64_decimal_loop v seen c = (Some w, r)" "v \<noteq> 0 \<longrightarrow> seen"
  shows "\<exists>ds. c = ds @ r \<and> (r = [] \<or> \<not> digit (hd r))
    \<and> (if \<not> seen then ds = decimal (unat w)
       else if v = 0 then ds = [] \<and> w = 0 else decimal (unat v) @ ds = decimal (unat w))"
  using assms
proof (induction v seen c rule: u64_decimal_loop.induct)
  case (1 v seen)
  then show ?case by (auto split: if_splits)
next
  case (2 v seen c cbs)
  show ?case
  proof (cases "digit c")
    case False
    with "2.prems" show ?thesis by (auto split: if_splits)
  next
    case True
    define v' where "v' = v * 10 + (ucast c - 48)"
    have "u64_decimal_loop v seen (c # cbs) = (if (v = 0 \<and> seen) \<or> (- 1) div 10 < v \<or> - 1 - (ucast c - 48) < v * 10
        then (None, cbs) else u64_decimal_loop v' True cbs)"
      using True by (simp only: u64_decimal_loop.simps not_True_eq_False if_False v'_def)
    with 2(2) have g: "\<not> (v = 0 \<and> seen)" "\<not> ((- 1) div 10 < v \<or> - 1 - (ucast c - 48) < v * 10)"
      and step: "u64_decimal_loop v' True cbs = (Some w, r)"
      by (metis Pair_inject option.distinct(1))+
    from decimal_step_guard [OF True, of v] g(2)
    have v': "unat v' = unat v * 10 + (unat c - 48)" by (simp add: v'_def)
    have d: "unat c - 48 < 10" using True digit_iff [of c] by linarith
    have dec: "(if seen then decimal (unat v) else []) @ [c] = decimal (unat v')"
      using 2(3) g by (cases seen) (simp_all add: v' decimal_digit [OF True] decimal_digit_snoc [OF True] unat_gt_0)
    have guard: "\<not> ((v = 0 \<and> seen) \<or> (- 1) div 10 < v \<or> - 1 - (ucast c - 48) < v * 10)"
      using g by blast
    have "\<not> \<not> digit c" using True by blast
    from 2(1) [OF this guard, folded v'_def, OF step] obtain ds where ds: "cbs = ds @ r" "r = [] \<or> \<not> digit (hd r)"
      "if v' = 0 then ds = [] \<and> w = 0 else decimal (unat v') @ ds = decimal (unat w)"
      by auto
    define pre where "pre = (if seen then decimal (unat v) else [])"
    from dec have dec: "pre @ [c] = decimal (unat v')" by (simp only: pre_def)
    have "pre @ c # ds = decimal (unat w)"
    proof (cases "v' = 0")
      case True
      with ds(3) have "ds = []" "w = 0" by simp_all
      with True dec show ?thesis by simp
    next
      case False
      with ds(3) have "(pre @ [c]) @ ds = decimal (unat w)" by (simp only: dec if_False)
      then show ?thesis by simp
    qed
    moreover have "c # cbs = (c # ds) @ r" using ds(1) by simp
    moreover have "seen \<Longrightarrow> v \<noteq> 0" using g(1) by blast
    ultimately have "c # cbs = (c # ds) @ r \<and> (r = [] \<or> \<not> digit (hd r))
      \<and> (if \<not> seen then c # ds = decimal (unat w)
       else if v = 0 then c # ds = [] \<and> w = 0 else decimal (unat v) @ c # ds = decimal (unat w))"
      using ds(2) by (auto simp: pre_def simp del: append_Cons split: if_splits)
    then show ?thesis by (rule exI)
  qed
qed

lemma decimal_nonempty [simp]: "decimal n \<noteq> []"
  by (subst decimal.simps) simp

lemma hd_decimal_digit: "digit (hd (decimal n))"
proof (induction n rule: decimal.induct)
  case (1 n)
  then show ?case
    by (cases "n < 10") (simp_all add: decimal_small decimal_step digit_iff unat_digit hd_append del: of_nat_add)
qed

lemma u64_decimal_loop_step:
  assumes "d < 10" "unat v * 10 + d < 2 ^ 64" "v = 0 \<Longrightarrow> \<not> seen"
  shows "u64_decimal_loop v seen (word_of_nat (48 + d) # c) = u64_decimal_loop (word_of_nat (unat v * 10 + d)) True c"
proof -
  define b :: u8 where "b = word_of_nat (48 + d)"
  have u: "unat b = 48 + d" using assms(1) unfolding b_def by (rule unat_digit)
  then have b: "digit b" using assms(1) by (simp add: digit_iff)
  from assms(2) have small: "unat v * 10 + (unat b - 48) < 2 ^ 64" by (simp add: u)
  from decimal_step_guard(2) [OF b small]
  have "v * 10 + (ucast b - 48) = word_of_nat (unat v * 10 + d)"
    by (metis u word_of_nat_of_unat add_diff_cancel_left')
  moreover have "\<not> ((- 1) div 10 < v \<or> - 1 - (ucast b - 48) < v * 10)"
    using decimal_step_guard(1) [OF b, of v] small by linarith
  ultimately show ?thesis using b assms(3) unfolding b_def [symmetric] by auto
qed

lemma u64_decimal_loop_complete:
  "n < 2 ^ 64 \<Longrightarrow> u64_decimal_loop 0 False (decimal n @ c) = u64_decimal_loop (word_of_nat n) True c"
proof (induction n arbitrary: c rule: decimal.induct)
  case (1 n)
  show ?case
  proof (cases "n < 10")
    case True
    with u64_decimal_loop_step [of n 0 False c] show ?thesis by (simp add: decimal_small del: u64_decimal_loop.simps)
  next
    case False
    define v :: u64 where "v = word_of_nat (n div 10)"
    from "1.prems" have "n div 10 < 2 ^ 64" by simp
    then have v: "unat v = n div 10" by (simp add: v_def unat_of_nat)
    then have "v \<noteq> 0" using False by (metis div_greater_zero_iff less_irrefl not_le unat_0 zero_less_numeral)
    from False 1 have "u64_decimal_loop 0 False (decimal n @ c)
        = u64_decimal_loop v True (word_of_nat (48 + n mod 10) # c)"
      by (simp add: decimal_step v_def del: u64_decimal_loop.simps)
    also have "\<dots> = u64_decimal_loop (word_of_nat (unat v * 10 + n mod 10)) True c"
      by (rule u64_decimal_loop_step) (use "1.prems" \<open>v \<noteq> 0\<close> v in auto)
    finally show ?thesis by (simp only: v mult.commute [of "n div 10"] mult_div_mod_eq)
  qed
qed

lemma CBS_get_u64_decimal_iff:
  "CBS_get_u64_decimal c = (Some v, r) \<longleftrightarrow> c = decimal (unat v) @ r \<and> (r = [] \<or> \<not> digit (hd r))"
proof
  assume "CBS_get_u64_decimal c = (Some v, r)"
  with u64_decimal_loop_sound [of 0 False c v r]
  show "c = decimal (unat v) @ r \<and> (r = [] \<or> \<not> digit (hd r))" by (auto simp: CBS_get_u64_decimal_def)
next
  assume "c = decimal (unat v) @ r \<and> (r = [] \<or> \<not> digit (hd r))"
  moreover have "u64_decimal_loop v True r = (Some v, r)" if "r = [] \<or> \<not> digit (hd r)"
    using that by (cases r) auto
  ultimately show "CBS_get_u64_decimal c = (Some v, r)"
    using u64_decimal_loop_complete [of "unat v" r] unsigned_less [of v, where ?'a = nat]
    by (simp add: CBS_get_u64_decimal_def)
qed

section \<open>Properties\<close>

text \<open>
  \<open>CBS_get_u64_decimal\<close> reads exactly the decimal numbers of 64 bits: it returns \<open>v\<close> with
  the rest \<open>r\<close> if and only if the input is the decimal representation of \<open>v\<close>, without leading zeros,
  followed by \<open>r\<close>, and \<open>r\<close> does not start with a digit.  So a number that overflows is an error and
  not a smaller number.
\<close>

theorem decimal_exact:
  "CBS_get_u64_decimal c = (Some v, r) \<longleftrightarrow> c = decimal (unat v) @ r \<and> takeWhile (\<lambda>d. OPENSSL_isdigit (uint d)) r = []"
  by (cases r) (simp_all add: CBS_get_u64_decimal_iff)

text \<open>
  The length-prefixed readers return \<open>p\<close> and leave \<open>r\<close> if and only if the input is the
  length of \<open>p\<close> in one, two or three big-endian bytes, then \<open>p\<close>, then \<open>r\<close>.
\<close>

theorem length_prefixed_exact:
  "(CBS_get_u8_length_prefixed c = (Some p, r) \<longleftrightarrow> length p < 2 ^ 8 \<and> c = be_bytes 1 (length p) @ p @ r)
   \<and> (CBS_get_u16_length_prefixed c = (Some p, r) \<longleftrightarrow> length p < 2 ^ 16 \<and> c = be_bytes 2 (length p) @ p @ r)
   \<and> (CBS_get_u24_length_prefixed c = (Some p, r) \<longleftrightarrow> length p < 2 ^ 24 \<and> c = be_bytes 3 (length p) @ p @ r)"
  by (simp only: CBS_get_u8_length_prefixed_def CBS_get_u16_length_prefixed_def CBS_get_u24_length_prefixed_def)
     (simp add: length_prefixed_Some_iff conj_commute del: be_bytes.simps)

end
