(* ===== verification/CbsAsn1.thy ===== *)
theory CbsAsn1 imports Cbs begin

text \<open>
  The ASN.1 half of \<open>crypto/bytestring/cbs.c\<close> against its specification.  The specification is
  the encoder's side of X.690: base-128 integers, identifier octets, length octets in the
  definite form with the fewest octets.  The parser is shown to accept exactly the encodings, and
  the predicates on contents (INTEGER, BIT STRING, OBJECT IDENTIFIER) to hold of exactly the
  contents that are the encoding of a value.
\<close>

section \<open>Base-128 integers\<close>

function base128_high :: "nat \<Rightarrow> bytes" where
  "base128_high v = (if v = 0 then [] else base128_high (v div 128) @ [word_of_nat (128 + v mod 128)])"
  by auto
termination by (relation "measure id") auto

declare base128_high.simps [simp del]

definition base128_bytes :: "nat \<Rightarrow> bytes" where
  "base128_bytes v = base128_high (v div 128) @ [word_of_nat (v mod 128)]"

lemma base128_high_0 [simp]: "base128_high 0 = []"
  by (simp add: base128_high.simps)

lemma base128_high_pos:
  "v \<noteq> 0 \<Longrightarrow> base128_high v = base128_high (v div 128) @ [word_of_nat (128 + v mod 128)]"
  by (rule base128_high.simps [THEN trans]) simp

lemma base128_bytes_nonempty [simp]: "base128_bytes v \<noteq> []"
  by (simp add: base128_bytes_def)

lemma unat_high_byte: "unat (word_of_nat (128 + v mod 128) :: u8) = 128 + v mod 128"
  by (simp add: unat_of_nat del: of_nat_add)

lemma unat_low_byte: "unat (word_of_nat (v mod 128) :: u8) = v mod 128"
  by (simp add: unat_of_nat take_bit_nat_eq_self_iff)

lemma high_byte: "128 \<le> unat b \<Longrightarrow> b = word_of_nat (128 + unat (b :: u8) mod 128)"
proof -
  assume "128 \<le> unat b"
  then have "unat b div 128 = 1" using unat_byte_less [of b] by linarith
  then have "128 + unat b mod 128 = unat b" by (metis mult_div_mod_eq mult.right_neutral)
  then show ?thesis by (simp only: word_of_nat_of_unat)
qed

lemma low_byte: "unat b < 128 \<Longrightarrow> b = word_of_nat (unat (b :: u8) mod 128)"
  by simp

lemma base128_accumulate:
  fixes v :: u64 and b :: u8
  assumes "unat v < 2 ^ 57"
  shows "unat (push_bit 7 v OR (ucast b AND 0x7f)) = unat v * 128 + unat b mod 128"
proof -
  have "unat (ucast b AND 0x7f :: u64) = unat (ucast b :: u64) mod 2 ^ 7"
    using unat_and_mask [of "ucast b :: u64" 7] by (simp add: mask_eq_exp_minus_1)
  also have "unat (ucast b :: u64) = unat b"
    using unat_byte_less [of b] by (simp add: unat_ucast_mod del: unat_byte_less)
  finally have low: "unat (ucast b AND 0x7f :: u64) = unat b mod 128" by simp
  moreover have "unat b mod 128 < 2 ^ 7" by simp
  ultimately have "unat (push_bit 7 v OR (ucast b AND 0x7f)) = unat v * 2 ^ 7 mod 2 ^ LENGTH(64) + unat b mod 128"
    by (simp only: shift_or_small)
  also have "unat v * 2 ^ 7 mod 2 ^ LENGTH(64) = unat v * 128" using assms by simp
  finally show ?thesis .
qed

lemma top_bits_zero: "drop_bit n (v :: 'a::len word) = 0 \<longleftrightarrow> unat v < 2 ^ n"
proof -
  have "drop_bit n v = 0 \<longleftrightarrow> unat (drop_bit n v) = 0" by (simp add: unat_eq_0)
  also have "\<dots> \<longleftrightarrow> unat v < 2 ^ n" by (simp only: unat_drop_bit_div) (simp add: div_eq_0_iff)
  finally show ?thesis .
qed

lemma base128_loop_Cons:
  "base128_loop v (b # c) =
     (if 2 ^ 57 \<le> unat v \<or> (v = 0 \<and> b = 0x80) then (None, c)
      else let v' = push_bit 7 v OR (ucast b AND 0x7f)
           in if 128 \<le> unat b then base128_loop v' c else (Some v', c))"
  using and_80_zero [of b] top_bits_zero [of 57 v] by (auto simp: Let_def not_less)

declare base128_loop.simps(2) [simp del]

lemma base128_loop_complete:
  "v < 2 ^ 64 \<Longrightarrow> base128_loop 0 (base128_high v @ c) = base128_loop (word_of_nat v) c"
proof (induction v arbitrary: c rule: base128_high.induct)
  case (1 v)
  show ?case
  proof (cases "v = 0")
    case False
    define q :: u64 where "q = word_of_nat (v div 128)"
    define b :: u8 where "b = word_of_nat (128 + v mod 128)"
    from "1.prems" have "v div 128 < 2 ^ 57" by (simp add: less_mult_imp_div_less)
    then have q: "unat q = v div 128" "unat q < 2 ^ 57" by (simp_all add: q_def unat_of_nat)
    have b: "unat b = 128 + v mod 128" unfolding b_def by (rule unat_high_byte)
    have nz: "\<not> (q = 0 \<and> b = 0x80)"
    proof
      assume "q = 0 \<and> b = 0x80"
      then have "unat q = 0" "unat b = 128" by simp_all
      then have "v div 128 = 0" "v mod 128 = 0" using q b by simp_all
      with False show False by (metis div_mult_mod_eq mult_zero_left add_0)
    qed
    have "unat (push_bit 7 q OR (ucast b AND 0x7f)) = v"
      using base128_accumulate [OF q(2), of b] q(1) by (simp add: b)
    then have nxt: "push_bit 7 q OR (ucast b AND 0x7f) = (word_of_nat v :: u64)"
      by (metis word_of_nat_of_unat)
    have "base128_loop 0 (base128_high v @ c) = base128_loop 0 (base128_high (v div 128) @ b # c)"
      using False by (simp add: base128_high_pos b_def del: of_nat_add)
    also have "\<dots> = base128_loop q (b # c)"
      unfolding q_def by (rule "1.IH" [OF False]) (use "1.prems" in simp)
    also have "\<dots> = base128_loop (word_of_nat v) c"
      using q(2) nz b by (auto simp: base128_loop_Cons nxt)
    finally show ?thesis .
  qed simp
qed

lemma base128_loop_sound:
  "base128_loop v c = (Some w, r) \<Longrightarrow>
     \<exists>k. c = k @ r \<and> base128_high (unat v) @ k = base128_bytes (unat w)"
proof (induction c arbitrary: v)
  case (Cons b c)
  define v' where "v' = push_bit 7 v OR (ucast b AND 0x7f)"
  from Cons.prems have g: "unat v < 2 ^ 57" "\<not> (v = 0 \<and> b = 0x80)"
    by (auto simp: base128_loop_Cons split: if_splits)
  have v': "unat v' = unat v * 128 + unat b mod 128" unfolding v'_def by (rule base128_accumulate) (rule g)
  then have q: "unat v' div 128 = unat v" "unat v' mod 128 = unat b mod 128" by simp_all
  show ?case
  proof (cases "128 \<le> unat b")
    case True
    with Cons.prems g have "base128_loop v' c = (Some w, r)" by (auto simp: base128_loop_Cons v'_def Let_def)
    from Cons.IH [OF this] obtain k where k: "c = k @ r" "base128_high (unat v') @ k = base128_bytes (unat w)"
      by blast
    have "unat v' \<noteq> 0"
    proof
      assume "unat v' = 0"
      then have "unat v = 0" "unat b mod 128 = 0" using v' by simp_all
      moreover from True high_byte [of b] this(2) have "b = word_of_nat 128" by simp
      ultimately show False using g(2) by (simp add: unat_eq_0)
    qed
    from base128_high_pos [OF this]
    have "base128_high (unat v') = base128_high (unat v) @ [word_of_nat (128 + unat b mod 128)]"
      by (simp only: q)
    then have "base128_high (unat v) @ b # k = base128_bytes (unat w)"
      using k(2) high_byte [OF True] by simp
    with k(1) show ?thesis by (intro exI [of _ "b # k"]) simp
  next
    case False
    with Cons.prems g have w: "w = v'" "r = c" by (auto simp: base128_loop_Cons v'_def Let_def)
    from False low_byte [of b] have "b = word_of_nat (unat b mod 128)" by simp
    then have "base128_high (unat v) @ [b] = base128_bytes (unat v')"
      unfolding base128_bytes_def by (simp only: q)
    with w show ?thesis by (intro exI [of _ "[b]"]) simp
  qed
qed simp

lemma base128_loop_end:
  assumes "v < 2 ^ 64"
  shows "base128_loop (word_of_nat (v div 128)) (word_of_nat (v mod 128) # r) = (Some (word_of_nat v), r)"
proof -
  define q :: u64 where "q = word_of_nat (v div 128)"
  define b :: u8 where "b = word_of_nat (v mod 128)"
  from assms have "v div 128 < 2 ^ 57" by (simp add: less_mult_imp_div_less)
  then have q: "unat q = v div 128" "unat q < 2 ^ 57" by (simp_all add: q_def unat_of_nat)
  have b: "unat b = v mod 128" unfolding b_def by (rule unat_low_byte)
  then have "unat b < 128" by simp
  then have b80: "b \<noteq> 0x80" by auto
  have "unat (push_bit 7 q OR (ucast b AND 0x7f)) = v"
    using base128_accumulate [OF q(2), of b] q(1) by (simp add: b)
  then have "push_bit 7 q OR (ucast b AND 0x7f) = (word_of_nat v :: u64)" by (metis word_of_nat_of_unat)
  with q(2) b80 \<open>unat b < 128\<close> show ?thesis
    unfolding q_def [symmetric] b_def [symmetric] by (simp add: base128_loop_Cons)
qed

lemma parse_base128_integer_iff:
  "parse_base128_integer c = (Some v, r) \<longleftrightarrow> c = base128_bytes (unat v) @ r"
proof
  assume "parse_base128_integer c = (Some v, r)"
  with base128_loop_sound [of 0 c v r] show "c = base128_bytes (unat v) @ r"
    by (auto simp: parse_base128_integer_def)
next
  assume c: "c = base128_bytes (unat v) @ r"
  have v: "unat v < 2 ^ 64" using unsigned_less [of v, where ?'a = nat] by simp
  then have "parse_base128_integer c = base128_loop (word_of_nat (unat v div 128)) (word_of_nat (unat v mod 128) # r)"
    unfolding parse_base128_integer_def c base128_bytes_def
    using base128_loop_complete [of "unat v div 128" "word_of_nat (unat v mod 128) # r"] by simp
  then show "parse_base128_integer c = (Some v, r)" by (simp only: base128_loop_end [OF v] word_of_nat_of_unat)
qed

lemma base128_loop_reader: "byte_reader (base128_loop v)"
proof
  show "suffix (snd (base128_loop v c)) c" for c
    by (induction c arbitrary: v) (auto simp: base128_loop_Cons Let_def suffix_ConsI)
qed

interpretation base128: stream_codec "\<lambda>v. base128_bytes (unat v)" parse_base128_integer "\<lambda>_. True"
proof (intro stream_codec.intro codec.intro progress_reader.intro progress_reader_axioms.intro
    stream_codec_axioms.intro)
  show "byte_reader parse_base128_integer"
    unfolding parse_base128_integer_def by (rule base128_loop_reader)
qed (auto simp: parse_base128_integer_iff)

section \<open>Identifier octets\<close>

definition tag_bytes :: "u32 \<Rightarrow> bytes" where
  "tag_bytes t =
     (let cls = unat t div 2 ^ 29; num = unat t mod 2 ^ 29
      in if num < 31 then [word_of_nat (32 * cls + num)]
         else word_of_nat (32 * cls + 31) # base128_bytes num)"

definition valid_tag :: "u32 \<Rightarrow> bool" where
  "valid_tag t \<longleftrightarrow> t AND NOT CBS_ASN1_CONSTRUCTED \<noteq> 0"

lemma ucast_and_e0: "(ucast (b :: u8) AND 0xe0 :: u32) = push_bit 5 (ucast (drop_bit 5 b))"
proof (rule bit_word_eqI)
  fix n assume "n < LENGTH(32)"
  have e0: "(0xe0 :: u32) = mask 8 AND NOT (mask 5)" by (simp add: mask_eq_exp_minus_1)
  have "bit (0xe0 :: u32) n \<longleftrightarrow> n < 8 \<and> 5 \<le> n \<and> n < LENGTH(32)"
    unfolding e0 by (auto simp: bit_simps)
  then show "bit (ucast b AND 0xe0 :: u32) n = bit (push_bit 5 (ucast (drop_bit 5 b)) :: u32) n"
    using \<open>n < LENGTH(32)\<close> by (auto simp: bit_simps dest: bit_imp_le_length)
qed

lemma tag_value:
  fixes b :: u8 and m :: u32
  assumes "unat m < 2 ^ 29"
  shows "unat (push_bit CBS_ASN1_TAG_SHIFT (ucast b AND 0xe0) OR m) = unat b div 32 * 2 ^ 29 + unat m"
proof -
  have "push_bit CBS_ASN1_TAG_SHIFT (ucast b AND 0xe0 :: u32) = push_bit 29 (ucast (drop_bit 5 b))"
    by (simp only: ucast_and_e0 push_bit_push_bit CBS_ASN1_TAG_SHIFT_def) simp
  then have "unat (push_bit CBS_ASN1_TAG_SHIFT (ucast b AND 0xe0) OR m)
      = unat (ucast (drop_bit 5 b) :: u32) * 2 ^ 29 mod 2 ^ LENGTH(32) + unat m"
    using assms by (simp only: shift_or_small)
  moreover have "unat (ucast (drop_bit 5 b) :: u32) = unat b div 32"
    using unat_byte_less [of b] by (simp add: unat_ucast_mod unat_drop_bit_div del: unat_byte_less)
  moreover have "unat b div 32 < 8" using unat_byte_less [of b] by linarith
  ultimately show ?thesis by simp
qed

lemma constructed_only:
  "t AND NOT CBS_ASN1_CONSTRUCTED = 0 \<longleftrightarrow> unat t = 0 \<or> unat t = 2 ^ 29"
proof -
  have e: "CBS_ASN1_CONSTRUCTED = 2 ^ 29"
    by (simp add: CBS_ASN1_CONSTRUCTED_def CBS_ASN1_TAG_SHIFT_def)
  have c: "bit CBS_ASN1_CONSTRUCTED n \<longleftrightarrow> n = 29" for n
    unfolding e bit_exp_iff by auto
  have "t AND NOT CBS_ASN1_CONSTRUCTED = 0 \<longleftrightarrow> (\<forall>n. bit t n \<longrightarrow> n = 29)"
    by (auto simp: bit_eq_iff [of "t AND NOT CBS_ASN1_CONSTRUCTED"] bit_and_iff bit_not_iff c possible_bit_word) (use bit_imp_le_length [of t] in auto)
  also have "\<dots> \<longleftrightarrow> t = 0 \<or> t = CBS_ASN1_CONSTRUCTED"
    using bit_imp_le_length [of t] by (auto simp: bit_eq_iff [of t] c)
  also have "\<dots> \<longleftrightarrow> unat t = 0 \<or> unat t = 2 ^ 29"
    by (simp add: word_unat_eq_iff CBS_ASN1_CONSTRUCTED_def CBS_ASN1_TAG_SHIFT_def)
  finally show ?thesis .
qed

lemma tag_number_mask: "unat CBS_ASN1_TAG_NUMBER_MASK = 2 ^ 29 - 1"
  by (simp add: CBS_ASN1_TAG_NUMBER_MASK_def CBS_ASN1_TAG_SHIFT_def)

lemma parse_asn1_tag_Cons:
  "parse_asn1_tag (b # c) =
     (if unat b mod 32 = 31
      then rbind parse_base128_integer (\<lambda>v.
             if 2 ^ 29 \<le> unat v \<or> unat v < 31 then rfail
             else rret (word_of_nat (unat b div 32 * 2 ^ 29 + unat v))) c
      else if unat b mod 32 = 0 \<and> unat b div 32 \<le> 1 then (None, c)
      else (Some (word_of_nat (unat b div 32 * 2 ^ 29 + unat b mod 32)), c))"
proof -
  define hi :: u32 where "hi = push_bit CBS_ASN1_TAG_SHIFT (ucast b AND 0xe0)"
  have ub: "unat (ucast b :: u32) = unat b"
    using unat_byte_less [of b] by (simp add: unat_ucast_mod del: unat_byte_less)
  have number: "unat (ucast b AND 0x1f :: u32) = unat b mod 32"
    using unat_and_mask [of "ucast b :: u32" 5] by (simp add: mask_eq_exp_minus_1 ub)
  then have is31: "(ucast b AND 0x1f :: u32) = 0x1f \<longleftrightarrow> unat b mod 32 = 31"
    by (simp add: word_unat_eq_iff)
  have or: "hi OR m = word_of_nat (unat b div 32 * 2 ^ 29 + unat m)" if "unat m < 2 ^ 29" for m
    using tag_value [OF that, of b] by (metis hi_def word_of_nat_of_unat)
  have valid: "(hi OR m) AND NOT CBS_ASN1_CONSTRUCTED = 0 \<longleftrightarrow> unat m = 0 \<and> unat b div 32 \<le> 1"
    if "unat m < 2 ^ 29" for m
    unfolding constructed_only hi_def tag_value [OF that]
    using that by (cases "unat b div 32 = 0"; cases "unat b div 32 = 1") auto
  show ?thesis
  proof (cases "unat b mod 32 = 31")
    case True
    have bounds: "ucast CBS_ASN1_TAG_NUMBER_MASK < v \<longleftrightarrow> 2 ^ 29 \<le> unat v" "v < 0x1f \<longleftrightarrow> unat v < 31"
      for v :: u64
    proof -
      have "unat (ucast CBS_ASN1_TAG_NUMBER_MASK :: u64) = 2 ^ 29 - 1"
        by (simp add: unat_ucast_mod tag_number_mask)
      then show "ucast CBS_ASN1_TAG_NUMBER_MASK < v \<longleftrightarrow> 2 ^ 29 \<le> unat v"
        unfolding word_less_nat_alt by auto
      show "v < 0x1f \<longleftrightarrow> unat v < 31" by (simp add: word_less_nat_alt)
    qed
    obtain o1 c' where p: "parse_base128_integer c = (o1, c')" by fastforce
    show ?thesis
    proof (cases o1)
      case None
      with True p show ?thesis
        by (simp only: parse_asn1_tag_def rbind_def CBS_get_u8_Cons prod.case option.case Let_def is31 if_True simp_thms)
    next
      case (Some v)
      show ?thesis
      proof (cases "2 ^ 29 \<le> unat v \<or> unat v < 31")
        case out: True
        from True p Some out show ?thesis
          by (simp only: parse_asn1_tag_def rbind_def CBS_get_u8_Cons prod.case option.case Let_def is31
              if_True bounds rfail_simp simp_thms)
      next
        case False
        then have v: "unat (ucast v :: u32) = unat v" by (simp add: unat_ucast_mod)
        with False have m: "unat (ucast v :: u32) < 2 ^ 29" "unat (ucast v :: u32) \<noteq> 0" by auto
        have nz: "((hi OR ucast v) AND NOT CBS_ASN1_CONSTRUCTED = 0) = False" using valid [OF m(1)] m(2) by blast
        from True p Some False show ?thesis
          by (simp only: parse_asn1_tag_def rbind_def CBS_get_u8_Cons prod.case option.case Let_def is31
              if_True if_False bounds rfail_simp rret_simp hi_def [symmetric] nz simp_thms)
            (simp only: or [OF m(1)] v)
      qed
    qed
  next
    case False
    have "unat (ucast b AND 0x1f :: u32) < 2 ^ 29" by (simp only: number) (rule less_trans [of _ 32]; simp)
    note m = this
    from False show ?thesis
      by (simp only: parse_asn1_tag_def rbind_def CBS_get_u8_Cons prod.case option.case Let_def
          hi_def [symmetric] is31 if_False rret_simp valid [OF m] number cong: if_weak_cong)
        (simp only: or [OF m] number if_distribR rfail_simp rret_simp flip: hi_def)
  qed
qed

lemma parse_asn1_tag_Nil: "parse_asn1_tag [] = (None, [])"
  by (simp add: parse_asn1_tag_def rbind_def cbs_simps)

lemma unat_tag_split: "unat (t :: u32) = unat t div 2 ^ 29 * 2 ^ 29 + unat t mod 2 ^ 29" "unat t div 2 ^ 29 < 8"
  using unsigned_less [of t, where ?'a = nat] by (simp_all add: less_mult_imp_div_less)

lemma unat_tag_byte: "k < 8 \<Longrightarrow> m < 32 \<Longrightarrow> unat (word_of_nat (32 * k + m) :: u8) = 32 * k + m"
  by (simp add: unat_of_nat take_bit_nat_eq_self_iff del: of_nat_add of_nat_mult)

lemma unat_tag_word: "k < 8 \<Longrightarrow> m < 2 ^ 29 \<Longrightarrow> unat (word_of_nat (k * 2 ^ 29 + m) :: u32) = k * 2 ^ 29 + m"
  by (simp add: unat_of_nat take_bit_nat_eq_self_iff del: of_nat_add of_nat_mult)

lemma byte_split: "b = word_of_nat (32 * (unat b div 32) + unat (b :: u8) mod 32)"
  by (simp del: of_nat_add of_nat_mult)

text \<open>The parser accepts exactly the identifier octets of the tags that may be used.\<close>

lemma parse_asn1_tag_complete:
  assumes "valid_tag t"
  shows "parse_asn1_tag (tag_bytes t @ r) = (Some t, r)"
proof -
  define k m where "k = unat t div 2 ^ 29" and "m = unat t mod 2 ^ 29"
  have t: "unat t = k * 2 ^ 29 + m" and k: "k < 8" and m: "m < 2 ^ 29"
    using unat_tag_split [of t] by (simp_all add: k_def m_def)
  have tw: "word_of_nat (k * 2 ^ 29 + m) = t" using t by (metis word_of_nat_of_unat)
  show ?thesis
  proof (cases "m < 31")
    case True
    have b: "unat (word_of_nat (32 * k + m) :: u8) = 32 * k + m" by (rule unat_tag_byte) (use k True in auto)
    have "(32 * k + m) mod 32 = m" "(32 * k + m) div 32 = k" using True by simp_all
    moreover have "\<not> (m = 0 \<and> k \<le> 1)" using assms t unfolding valid_tag_def constructed_only by auto
    ultimately have "parse_asn1_tag (word_of_nat (32 * k + m) # r) = (Some t, r)"
      unfolding parse_asn1_tag_Cons b using True by (simp only: tw) simp
    with True show ?thesis unfolding tag_bytes_def Let_def by (simp add: k_def m_def)
  next
    case False
    have b: "unat (word_of_nat (32 * k + 31) :: u8) = 32 * k + 31" by (rule unat_tag_byte) (use k in auto)
    have d: "(32 * k + 31) mod 32 = 31" "(32 * k + 31) div 32 = k" by simp_all
    have v: "unat (word_of_nat m :: u64) = m" using m by (simp add: unat_of_nat take_bit_nat_eq_self_iff)
    then have "parse_base128_integer (base128_bytes m @ r) = (Some (word_of_nat m), r)"
      by (simp add: parse_base128_integer_iff)
    then have "parse_asn1_tag (word_of_nat (32 * k + 31) # base128_bytes m @ r) = (Some t, r)"
      unfolding parse_asn1_tag_Cons b d rbind_def using m False by (simp add: v tw [symmetric])
    with False show ?thesis unfolding tag_bytes_def Let_def by (simp add: k_def m_def)
  qed
qed

lemma parse_asn1_tag_sound:
  assumes "parse_asn1_tag c = (Some t, r)"
  shows "valid_tag t \<and> c = tag_bytes t @ r"
proof (cases c)
  case Nil
  with assms show ?thesis by (simp add: parse_asn1_tag_Nil)
next
  case (Cons b c')
  define k m where "k = unat b div 32" and "m = unat b mod 32"
  have b: "b = word_of_nat (32 * k + m)" unfolding k_def m_def by (rule byte_split)
  have k: "k < 8" and m: "m < 32" using unat_byte_less [of b] by (simp_all add: k_def m_def less_mult_imp_div_less)
  show ?thesis
  proof (cases "m = 31")
    case True
    with assms Cons obtain v where p: "parse_base128_integer c' = (Some v, r)"
      and v: "unat v < 2 ^ 29" "31 \<le> unat v" and t: "t = word_of_nat (k * 2 ^ 29 + unat v)"
      by (auto simp: parse_asn1_tag_Cons rbind_def k_def m_def not_le not_less
          split: prod.splits option.splits if_splits)
    have ut: "unat t = k * 2 ^ 29 + unat v" unfolding t by (rule unat_tag_word) (use k v in auto)
    then have "unat t div 2 ^ 29 = k" "unat t mod 2 ^ 29 = unat v" using v by simp_all
    then have "tag_bytes t = word_of_nat (32 * k + 31) # base128_bytes (unat v)"
      unfolding tag_bytes_def Let_def using v by simp
    moreover have "valid_tag t" using ut v k unfolding valid_tag_def constructed_only by (cases "k = 0"; cases "k = 1") auto
    ultimately show ?thesis using p b True Cons by (simp add: parse_base128_integer_iff)
  next
    case False
    with assms Cons have r: "r = c'" and t: "t = word_of_nat (k * 2 ^ 29 + m)" and nz: "\<not> (m = 0 \<and> k \<le> 1)"
      by (auto simp: parse_asn1_tag_Cons k_def m_def split: if_splits)
    have ut: "unat t = k * 2 ^ 29 + m" unfolding t by (rule unat_tag_word) (use k m in auto)
    then have "unat t div 2 ^ 29 = k" "unat t mod 2 ^ 29 = m" using m by simp_all
    then have "tag_bytes t = [word_of_nat (32 * k + m)]"
      unfolding tag_bytes_def Let_def using m False by simp
    moreover have "valid_tag t" using ut m nz k unfolding valid_tag_def constructed_only by (cases "k = 0"; cases "k = 1") auto
    ultimately show ?thesis using b r Cons by simp
  qed
qed

lemma parse_asn1_tag_iff: "parse_asn1_tag c = (Some t, r) \<longleftrightarrow> valid_tag t \<and> c = tag_bytes t @ r"
  using parse_asn1_tag_sound parse_asn1_tag_complete by blast

lemma length_base128_high: "n < 128 ^ k \<Longrightarrow> length (base128_high n) \<le> k"
proof (induction k arbitrary: n)
  case (Suc k)
  have "n div 128 < 128 ^ k" using Suc.prems by (auto simp: less_mult_imp_div_less)
  with Suc.IH [of "n div 128"] show ?case by (cases "n = 0") (simp_all add: base128_high_pos)
qed simp

lemma length_tag_bytes: "length (tag_bytes t) \<le> 6"
proof -
  have "unat t mod 2 ^ 29 div 128 < 128 ^ 4" by (simp add: less_mult_imp_div_less)
  from length_base128_high [OF this] show ?thesis by (simp add: tag_bytes_def Let_def base128_bytes_def)
qed

lemma tag_bytes_nonempty [simp]: "tag_bytes t \<noteq> []"
  by (simp add: tag_bytes_def Let_def)

lemma parse_asn1_tag_reader [reader_intros]: "byte_reader parse_asn1_tag"
  unfolding parse_asn1_tag_def Let_def by (intro reader_intros base128.byte_reader_axioms)

interpretation asn1_tag: stream_codec tag_bytes parse_asn1_tag valid_tag
  by (intro stream_codec.intro codec.intro progress_reader.intro progress_reader_axioms.intro
      stream_codec_axioms.intro parse_asn1_tag_reader) (auto simp: parse_asn1_tag_iff)

section \<open>Elements\<close>

text \<open>The fewest octets that a length takes, and the length octets.\<close>

fun byte_count :: "nat \<Rightarrow> nat" where
  "byte_count n = (if n = 0 then 0 else Suc (byte_count (n div 256)))"

declare byte_count.simps [simp del]

definition length_bytes :: "nat \<Rightarrow> bytes" where
  "length_bytes n =
     (if n < 128 then [word_of_nat n] else word_of_nat (128 + byte_count n) # be_bytes (byte_count n) n)"

definition der_header :: "u32 \<Rightarrow> nat \<Rightarrow> bytes" where
  "der_header t n = tag_bytes t @ length_bytes n"

definition der_element :: "u32 \<Rightarrow> bytes \<Rightarrow> bytes" where
  "der_element t contents = der_header t (length contents) @ contents"

lemma byte_count_iff: "byte_count n \<le> k \<longleftrightarrow> n < 256 ^ k"
proof (induction k arbitrary: n)
  case 0
  then show ?case by (simp add: byte_count.simps [of n])
next
  case (Suc k)
  have "byte_count n \<le> Suc k \<longleftrightarrow> n = 0 \<or> byte_count (n div 256) \<le> k"
    by (simp add: byte_count.simps [of n])
  also have "\<dots> \<longleftrightarrow> n div 256 < 256 ^ k" by (auto simp: Suc.IH)
  also have "\<dots> \<longleftrightarrow> n < 256 ^ Suc k" by (simp add: div_less_iff_less_mult mult.commute)
  finally show ?case .
qed

lemma byte_count_bound: "n < 256 ^ byte_count n"
  by (simp flip: byte_count_iff)

lemma byte_count_eq: "0 < k \<Longrightarrow> 256 ^ (k - 1) \<le> n \<Longrightarrow> n < 256 ^ k \<Longrightarrow> byte_count n = k"
  using byte_count_iff [of n k] byte_count_iff [of n "k - 1"] by auto

lemma byte_count_lower: "n \<noteq> 0 \<Longrightarrow> 256 ^ (byte_count n - 1) \<le> n"
  using byte_count_iff [of n "byte_count n - 1"] by (auto simp: byte_count.simps [of n] split: if_splits)

lemma byte_count_pos: "n \<noteq> 0 \<Longrightarrow> 0 < byte_count n"
  by (simp add: byte_count.simps [of n])

text \<open>The part of the parser behind the tag: the length octets.\<close>

definition asn1_after_tag :: "bool \<Rightarrow> bytes \<Rightarrow> u32 \<Rightarrow> bytes \<Rightarrow> asn1_element option \<times> bytes" where
  "asn1_after_tag ber_ok cbs tag header0 =
     (case CBS_get_u8 header0 of (None, _) \<Rightarrow> (None, cbs)
      | (Some length_byte, header) \<Rightarrow>
        let header_len = length cbs - length header
        in if length_byte AND 0x80 = 0
           then asn1_take cbs (size_add (unat length_byte) header_len) tag header_len False False
           else
             let num_bytes = unat (length_byte AND 0x7f)
             in if ber_ok \<and> tag AND CBS_ASN1_CONSTRUCTED \<noteq> 0 \<and> num_bytes = 0
                then asn1_take cbs header_len tag header_len True True
                else if num_bytes = 0 \<or> 4 < num_bytes then (None, cbs)
                else
     (case cbs_get_u num_bytes header of (None, _) \<Rightarrow> (None, cbs)
      | (Some len64, _) \<Rightarrow>
             if len64 < 128 \<and> \<not> ber_ok then (None, cbs)
             else if drop_bit ((num_bytes - 1) * 8) len64 = 0 \<and> \<not> ber_ok then (None, cbs)
             else
               let ber_found = (len64 < 128 \<or> drop_bit ((num_bytes - 1) * 8) len64 = 0);
                   len = unat len64
               in if size_add (size_add len header_len) num_bytes < len then (None, cbs)
                  else asn1_take cbs (size_add len (size_add header_len num_bytes)) tag
                         (size_add header_len num_bytes) ber_found False))"

lemma cbs_get_any_asn1_element_eq:
  "cbs_get_any_asn1_element ber_ok cbs =
     (case parse_asn1_tag cbs of (None, _) \<Rightarrow> (None, cbs) | (Some tag, header0) \<Rightarrow> asn1_after_tag ber_ok cbs tag header0)"
  unfolding cbs_get_any_asn1_element_def asn1_after_tag_def ..

lemma asn1_take_Some_iff:
  "asn1_take cbs len tag hl bf ind = (Some e, r) \<longleftrightarrow>
     cbs = el_bytes e @ r \<and> length (el_bytes e) = len \<and> el_tag e = tag \<and> el_header_len e = hl
       \<and> el_ber_found e = bf \<and> el_indefinite e = ind"
  by (cases e) (auto simp: asn1_take_def rbind_ret_Some_iff CBS_get_bytes_eq cbs_get_Some_iff)

lemma asn1_take_None: "asn1_take cbs len tag hl bf ind = (None, r) \<Longrightarrow> r = cbs"
  by (auto simp: asn1_take_def rbind_def CBS_get_bytes_eq cbs_get_def split: if_splits)

text \<open>Definite lengths as the parser reads them: the value and the octets it took.\<close>

definition definite_length :: "bool \<Rightarrow> bytes \<Rightarrow> nat \<Rightarrow> bool \<Rightarrow> bool" where
  "definite_length ber_ok l n ber_found \<longleftrightarrow>
     (\<exists>b. l = [b] \<and> unat b < 128 \<and> n = unat b \<and> \<not> ber_found) \<or>
     (\<exists>b v. l = b # v \<and> unat b = 128 + length v \<and> 1 \<le> length v \<and> length v \<le> 4 \<and> n = be_val v
        \<and> (ber_found \<longleftrightarrow> n < 128 \<or> n < 256 ^ (length v - 1)) \<and> (ber_found \<longrightarrow> ber_ok))"

lemma definite_length_der: "definite_length False l n bf \<longleftrightarrow> l = length_bytes n \<and> n < 2 ^ 32 \<and> \<not> bf"
proof
  assume a: "definite_length False l n bf"
  then show "l = length_bytes n \<and> n < 2 ^ 32 \<and> \<not> bf"
    unfolding definite_length_def
  proof (elim disjE exE conjE)
    fix b assume "l = [b]" "unat b < 128" "n = unat b" "\<not> bf"
    then show ?thesis by (simp add: length_bytes_def)
  next
    fix b v assume *: "l = b # v" "unat b = 128 + length v" "1 \<le> length v" "length v \<le> 4" "n = be_val v"
      "bf \<longleftrightarrow> n < 128 \<or> n < 256 ^ (length v - 1)" "bf \<longrightarrow> False"
    then have bc: "byte_count n = length v" by (intro byte_count_eq) (auto simp: be_val_less)
    have "b = word_of_nat (128 + length v)" using *(2) by (metis word_of_nat_of_unat)
    moreover have "be_bytes (length v) n = v" by (simp add: *(5) be_bytes_be_val)
    moreover have "n < 2 ^ 32"
    proof -
      have "(256::nat) ^ length v \<le> 256 ^ 4" using *(4) by (intro power_increasing) auto
      with be_val_less [of v] show ?thesis by (simp add: *(5))
    qed
    ultimately show ?thesis using * bc by (simp add: length_bytes_def)
  qed
next
  assume a: "l = length_bytes n \<and> n < 2 ^ 32 \<and> \<not> bf"
  show "definite_length False l n bf"
  proof (cases "n < 128")
    case True
    then have "unat (word_of_nat n :: u8) = n" by (simp add: unat_of_nat take_bit_nat_eq_self_iff)
    with True a show ?thesis by (simp add: definite_length_def length_bytes_def)
  next
    case False
    have bc4: "byte_count n \<le> 4" using a by (simp add: byte_count_iff)
    have "unat (word_of_nat (128 + byte_count n) :: u8) = 128 + byte_count n"
      using bc4 by (simp add: unat_of_nat take_bit_nat_eq_self_iff del: of_nat_add)
    moreover have "n = be_val (be_bytes (byte_count n) n)" using byte_count_bound [of n] by simp
    moreover have "0 < byte_count n" using False by (intro byte_count_pos) simp
    moreover have "256 ^ (byte_count n - 1) \<le> n" using False by (intro byte_count_lower) simp
    ultimately show ?thesis unfolding definite_length_def using False a bc4
      by (intro disjI2 exI [of _ "word_of_nat (128 + byte_count n)"] exI [of _ "be_bytes (byte_count n) n"])
        (simp add: length_bytes_def del: of_nat_add be_val_be_bytes)
  qed
qed

lemma definite_length_nonempty: "definite_length ber_ok l n bf \<Longrightarrow> l \<noteq> []"
  by (auto simp: definite_length_def)

lemma definite_length_bound: "definite_length ber_ok l n bf \<Longrightarrow> n < 2 ^ 32 \<and> length l \<le> 5"
proof -
  assume "definite_length ber_ok l n bf"
  moreover have "be_val v < 2 ^ 32" if "length v \<le> 4" for v
  proof -
    have "(256::nat) ^ length v \<le> 256 ^ 4" using that by (intro power_increasing) auto
    with be_val_less [of v] show ?thesis by simp
  qed
  ultimately show ?thesis by (auto simp: definite_length_def)
qed

lemma unat_num_bytes: "128 \<le> unat b \<Longrightarrow> unat (b AND 0x7f) = unat (b :: u8) - 128"
proof -
  assume "128 \<le> unat b"
  then have "unat b div 128 = 1" using unat_byte_less [of b] by linarith
  then have "unat b = 128 + unat b mod 128" by (metis mult_div_mod_eq mult.right_neutral)
  then show ?thesis by (simp only: unat_and_7f)
qed

lemma asn1_after_tag_Cons:
  "asn1_after_tag ber_ok cbs tag (b # h) =
     (let header_len = length cbs - length h
      in if unat b < 128 then asn1_take cbs (size_add (unat b) header_len) tag header_len False False
      else if ber_ok \<and> tag AND CBS_ASN1_CONSTRUCTED \<noteq> 0 \<and> unat b = 128
           then asn1_take cbs header_len tag header_len True True
      else let k = unat b - 128
      in if k = 0 \<or> 4 < k \<or> length h < k then (None, cbs)
      else let n = be_val (take k h); bf = (n < 128 \<or> n < 256 ^ (k - 1))
      in if (bf \<and> \<not> ber_ok) \<or> size_add (size_add n header_len) k < n then (None, cbs)
         else asn1_take cbs (size_add n (size_add header_len k)) tag (size_add header_len k) bf False)"
proof (cases "unat b < 128")
  case True
  then show ?thesis by (simp add: asn1_after_tag_def CBS_get_u8_Cons and_80_zero Let_def)
next
  case False
  then have nb: "unat (b AND 0x7f) = unat b - 128" by (simp add: unat_num_bytes)
  have z: "unat b - 128 = 0 \<longleftrightarrow> unat b = 128" using False by simp
  show ?thesis
  proof (cases "unat b - 128 = 0 \<or> 4 < unat b - 128 \<or> length h < unat b - 128")
    case True
    then show ?thesis
      using False by (auto simp: asn1_after_tag_def CBS_get_u8_Cons and_80_zero Let_def nb cbs_get_u_short)
  next
    case k: False
    define k where "k = unat b - 128"
    from k have k: "k \<noteq> 0" "k \<le> 4" "k \<le> length h" by (simp_all add: k_def)
    have u: "unat (be_loop 0 (take k h)) = be_val (take k h)" by (rule unat_be_loop_small) (use k in simp)
    have "cbs_get_u k (take k h @ drop k h) = (Some (be_loop 0 (take k h)), drop k h)"
      by (rule cbs_get_u_append) (use k in simp)
    then have g: "cbs_get_u k h = (Some (be_loop 0 (take k h)), drop k h)" by simp
    have "(2::nat) ^ ((k - 1) * 8) = (2 ^ 8) ^ (k - 1)" by (simp only: power_mult [symmetric] mult.commute)
    then have "(2::nat) ^ ((k - 1) * 8) = 256 ^ (k - 1)" by simp
    then have d: "drop_bit ((k - 1) * 8) (be_loop 0 (take k h)) = 0 \<longleftrightarrow> be_val (take k h) < 256 ^ (k - 1)"
      by (simp only: top_bits_zero u)
    have e: "be_loop 0 (take k h) < 128 \<longleftrightarrow> be_val (take k h) < 128" by (simp add: word_less_nat_alt u)
    have "unat b \<noteq> 128" using k(1) False by (simp add: k_def)
    with False k show ?thesis unfolding asn1_after_tag_def CBS_get_u8_Cons
      by (simp only: prod.case option.case Let_def and_80_zero nb k_def [symmetric] g d e u if_False simp_thms)
         (auto simp: not_less split: if_splits)
  qed
qed

lemma asn1_after_tag_definite:
  assumes d: "definite_length ber_ok l n bf" and c: "length (l @ h) \<le> length cbs" "length cbs - length h < 2 ^ 63"
  shows "asn1_after_tag ber_ok cbs tag (l @ h)
       = asn1_take cbs (length cbs - length h + n) tag (length cbs - length h) bf False"
  using d unfolding definite_length_def
proof (elim disjE exE conjE)
  fix b assume b: "l = [b]" "unat b < 128" "n = unat b" "\<not> bf"
  have "length cbs - length h < 2 ^ 63" using c by simp
  with b show ?thesis by (simp add: asn1_after_tag_Cons Let_def size_add_def add.commute)
next
  fix b v assume v: "l = b # v" "unat b = 128 + length v" "1 \<le> length v" "length v \<le> 4" "n = be_val v"
    "bf \<longleftrightarrow> n < 128 \<or> n < 256 ^ (length v - 1)" "bf \<longrightarrow> ber_ok"
  define hl where "hl = length cbs - length (v @ h)"
  define k where "k = length v"
  have hl: "hl < 2 ^ 63" "length cbs - length h = hl + k" using c v(1) by (auto simp: hl_def k_def)
  have n: "n < 2 ^ 32" and k: "k \<le> 4" "1 \<le> k" "unat b = 128 + k"
    using definite_length_bound [OF d] v by (simp_all add: k_def)
  have s: "size_add (size_add n hl) k = n + hl + k" "size_add n (hl + k) = hl + k + n" "size_add hl k = hl + k"
    using hl n k by (simp_all add: size_add_def)
  have t: "take k (v @ h) = v" "\<not> length (v @ h) < k" by (simp_all add: k_def)
  have bf: "bf = (n < 128 \<or> n < 256 ^ (k - 1))" using v(6) by (simp add: k_def)
  have nb: "\<not> (bf \<and> \<not> ber_ok)" using v(7) by blast
  from k(2-3) have g: "\<not> unat b < 128" "(ber_ok \<and> tag AND CBS_ASN1_CONSTRUCTED \<noteq> 0 \<and> unat b = 128) = False"
      "unat b - 128 = k" "k \<noteq> 0" "\<not> 4 < k" using k(1) by auto
  have "\<not> n + hl + k < n" by simp
  then show ?thesis
    unfolding v(1) append_Cons asn1_after_tag_Cons hl_def [symmetric] hl(2)
    by (simp only: Let_def g if_False t v(5) [symmetric] bf [symmetric] s simp_thms nb)
qed

lemma asn1_after_tag_indefinite:
  assumes "ber_ok" "tag AND CBS_ASN1_CONSTRUCTED \<noteq> 0"
  shows "asn1_after_tag ber_ok cbs tag (0x80 # h)
       = asn1_take cbs (length cbs - length h) tag (length cbs - length h) True True"
  using assms by (simp add: asn1_after_tag_Cons Let_def)

lemma asn1_after_tag_cases:
  obtains (indefinite) h where "h0 = 0x80 # h" "ber_ok" "tag AND CBS_ASN1_CONSTRUCTED \<noteq> 0"
  | (definite) l n bf h where "h0 = l @ h" "definite_length ber_ok l n bf"
  | (fails) "asn1_after_tag ber_ok cbs tag h0 = (None, cbs)"
proof (cases h0)
  case Nil
  then have "asn1_after_tag ber_ok cbs tag h0 = (None, cbs)" by (simp add: asn1_after_tag_def cbs_simps)
  then show ?thesis by (rule fails)
next
  case (Cons b h)
  consider (a) "unat b < 128" | (b) "ber_ok \<and> tag AND CBS_ASN1_CONSTRUCTED \<noteq> 0 \<and> unat b = 128"
    | (c) "\<not> unat b < 128" "\<not> (ber_ok \<and> tag AND CBS_ASN1_CONSTRUCTED \<noteq> 0 \<and> unat b = 128)" by blast
  then show ?thesis
  proof cases
    case a
    then have "definite_length ber_ok [b] (unat b) False" by (simp add: definite_length_def)
    with Cons show ?thesis by (intro definite) auto
  next
    case b
    then have "b = 0x80" by (simp add: word_unat_eq_iff)
    with b Cons show ?thesis by (intro indefinite) auto
  next
    case c
    define k where "k = unat b - 128"
    define bf where "bf \<longleftrightarrow> be_val (take k h) < 128 \<or> be_val (take k h) < 256 ^ (k - 1)"
    show ?thesis
    proof (cases "k = 0 \<or> 4 < k \<or> length h < k \<or> (bf \<and> \<not> ber_ok)")
      case True
      with c have "asn1_after_tag ber_ok cbs tag h0 = (None, cbs)" unfolding Cons
        by (simp only: asn1_after_tag_Cons Let_def k_def [symmetric] bf_def [symmetric]) auto
      then show ?thesis by (rule fails)
    next
      case False
      then have "definite_length ber_ok (b # take k h) (be_val (take k h)) bf"
        unfolding definite_length_def using c by (auto simp: bf_def k_def)
      then show ?thesis by (intro definite [of "b # take k h" "drop k h"]) (use Cons in auto)
    qed
  qed
qed

section \<open>What the element readers accept\<close>

definition asn1_contents :: "asn1_element \<Rightarrow> bytes" where
  "asn1_contents e = drop (el_header_len e) (el_bytes e)"

lemma any_element_complete:
  assumes "valid_tag t" "length p < 2 ^ 32"
  shows "cbs_get_any_asn1_element ber_ok (der_element t p @ r) =
    (Some \<lparr>el_bytes = der_element t p, el_tag = t, el_header_len = length (der_header t (length p)),
       el_ber_found = False, el_indefinite = False\<rparr>, r)"
proof -
  define cbs where "cbs = der_element t p @ r"
  have cbs: "cbs = tag_bytes t @ length_bytes (length p) @ p @ r"
    by (simp add: cbs_def der_element_def der_header_def)
  have "definite_length False (length_bytes (length p)) (length p) False"
    using assms(2) by (simp add: definite_length_der)
  then have d: "definite_length ber_ok (length_bytes (length p)) (length p) False"
    by (simp add: definite_length_def)
  have hl: "length cbs - length (p @ r) = length (der_header t (length p))"
    by (simp add: cbs der_header_def)
  have len: "length (length_bytes (length p) @ p @ r) \<le> length cbs" "length cbs - length (p @ r) < 2 ^ 63"
    using length_tag_bytes [of t] definite_length_bound [OF d] by (simp_all add: hl) (simp_all add: cbs der_header_def)
  have "parse_asn1_tag cbs = (Some t, length_bytes (length p) @ p @ r)"
    unfolding cbs by (rule parse_asn1_tag_complete [OF assms(1)])
  then have "cbs_get_any_asn1_element ber_ok cbs = asn1_after_tag ber_ok cbs t (length_bytes (length p) @ p @ r)"
    unfolding cbs_get_any_asn1_element_eq by simp
  also have "\<dots> = asn1_take cbs (length (der_header t (length p)) + length p) t (length (der_header t (length p))) False False"
    using asn1_after_tag_definite [OF d len, of t] by (simp only: hl)
  also have "\<dots> = (Some \<lparr>el_bytes = der_element t p, el_tag = t, el_header_len = length (der_header t (length p)),
       el_ber_found = False, el_indefinite = False\<rparr>, r)"
    by (simp add: asn1_take_Some_iff cbs_def der_element_def)
  finally show ?thesis by (simp only: cbs_def)
qed

lemma any_asn1_element_complete:
  assumes "valid_tag t" "length p < 2 ^ 32"
  shows "CBS_get_any_asn1_element (der_element t p @ r) =
    (Some \<lparr>el_bytes = der_element t p, el_tag = t, el_header_len = length (der_header t (length p)),
       el_ber_found = False, el_indefinite = False\<rparr>, r)"
  unfolding CBS_get_any_asn1_element_def by (rule any_element_complete [OF assms])

text \<open>The same for both readers: an element is a tag, a length, and as many octets as it says.\<close>

lemma any_element_sound:
  assumes "cbs_get_any_asn1_element ber_ok c = (Some e, r)"
  obtains (definite) l where "definite_length ber_ok l (length (asn1_contents e)) (el_ber_found e)" "\<not> el_indefinite e"
      "valid_tag (el_tag e)" "c = el_bytes e @ r" "el_header_len e = length (tag_bytes (el_tag e) @ l)"
      "el_bytes e = tag_bytes (el_tag e) @ l @ asn1_contents e"
  | (indefinite) "el_indefinite e" "el_ber_found e" "ber_ok" "valid_tag (el_tag e)"
      "el_tag e AND CBS_ASN1_CONSTRUCTED \<noteq> 0" "c = el_bytes e @ r" "el_header_len e = length (el_bytes e)"
      "el_bytes e = tag_bytes (el_tag e) @ [0x80]" "asn1_contents e = []"
proof -
  from assms obtain t h0 where p: "parse_asn1_tag c = (Some t, h0)" and a: "asn1_after_tag ber_ok c t h0 = (Some e, r)"
    unfolding cbs_get_any_asn1_element_eq by (auto split: prod.splits option.splits)
  from p have t: "valid_tag t" "c = tag_bytes t @ h0" by (simp_all add: parse_asn1_tag_iff)
  show thesis
  proof (cases h0 ber_ok t rule: asn1_after_tag_cases [where cbs = c])
    case (definite l n bf h)
    note a = a [unfolded definite(1)]
    have "length (tag_bytes t @ l) < 2 ^ 63"
      using length_tag_bytes [of t] definite_length_bound [OF definite(2)] by simp
    then have "asn1_after_tag ber_ok c t (l @ h) = asn1_take c (length c - length h + n) t (length c - length h) bf False"
      by (intro asn1_after_tag_definite [OF definite(2)]) (use t definite in auto)
    with a have "asn1_take c (length c - length h + n) t (length c - length h) bf False = (Some e, r)"
      by (simp only:)
    then have e: "c = el_bytes e @ r" "length (el_bytes e) = length c - length h + n" "el_tag e = t"
      "el_header_len e = length c - length h" "el_ber_found e = bf" "el_indefinite e = False"
      unfolding asn1_take_Some_iff by blast+
    have hl: "el_header_len e = length (tag_bytes t @ l)" using e(4) t(2) definite(1) by simp
    have n: "length (asn1_contents e) = n" using e by (simp add: asn1_contents_def)
    have "take (el_header_len e) c = tag_bytes t @ l" unfolding hl using t(2) definite(1) by simp
    moreover have "take (el_header_len e) c = take (el_header_len e) (el_bytes e)"
      using e(1,2,4) by (metis append_take_drop_id le_add1 length_append take_append diff_is_0_eq take_0 append_Nil2)
    ultimately have "el_bytes e = (tag_bytes t @ l) @ asn1_contents e"
      unfolding asn1_contents_def by (metis append_take_drop_id)
    with e t definite(2) n hl show thesis by (intro that(1) [of l]) simp_all
  next
    case (indefinite h)
    from a indefinite have "asn1_take c (length c - length h) t (length c - length h) True True = (Some e, r)"
      by (simp add: asn1_after_tag_indefinite)
    then have e: "c = el_bytes e @ r" "length (el_bytes e) = length c - length h" "el_tag e = t"
      "el_header_len e = length c - length h" "el_ber_found e" "el_indefinite e"
      unfolding asn1_take_Some_iff by blast+
    have "el_bytes e @ r = (tag_bytes t @ [0x80]) @ h" using e(1) t(2) indefinite(1) by simp
    moreover have "length (el_bytes e) = length (tag_bytes t @ [0x80])" using e(2) t(2) indefinite(1) by simp
    ultimately have "el_bytes e = tag_bytes t @ [0x80]" by (metis append_eq_append_conv)
    with e t indefinite show thesis by (intro that(2)) (simp_all add: asn1_contents_def)
  next
    case fails
    with a show thesis by simp
  qed
qed

lemma any_element_None: "cbs_get_any_asn1_element ber_ok c = (None, r) \<Longrightarrow> r = c"
proof -
  assume "cbs_get_any_asn1_element ber_ok c = (None, r)"
  then consider "r = c" | t h0 where "parse_asn1_tag c = (Some t, h0)" "asn1_after_tag ber_ok c t h0 = (None, r)"
    unfolding cbs_get_any_asn1_element_eq by (auto split: prod.splits option.splits)
  then show "r = c"
    by cases (auto simp: asn1_after_tag_def Let_def dest!: asn1_take_None split: prod.splits option.splits if_splits)
qed

lemma any_element_split: "cbs_get_any_asn1_element ber_ok c = (Some e, r) \<Longrightarrow> c = el_bytes e @ r \<and> el_bytes e \<noteq> []"
  by (erule any_element_sound) auto

interpretation any_element: progress_reader "cbs_get_any_asn1_element ber_ok"
proof
  fix c
  obtain res r where e: "cbs_get_any_asn1_element ber_ok c = (res, r)" by fastforce
  then have "suffix r c"
    by (cases res) (auto simp: suffix_def dest: any_element_None any_element_split)
  with e show "suffix (snd (cbs_get_any_asn1_element ber_ok c)) c" by simp
  show "length c' < length c" if "cbs_get_any_asn1_element ber_ok c = (Some a, c')" for a c'
    using any_element_split [OF that] by auto
qed

lemma any_asn1_element_sound:
  assumes "CBS_get_any_asn1_element c = (Some e, r)"
  shows "c = el_bytes e @ r \<and> valid_tag (el_tag e) \<and> length (asn1_contents e) < 2 ^ 32
    \<and> el_bytes e = der_element (el_tag e) (asn1_contents e)
    \<and> el_header_len e = length (der_header (el_tag e) (length (asn1_contents e)))
    \<and> \<not> el_ber_found e \<and> \<not> el_indefinite e"
  using assms unfolding CBS_get_any_asn1_element_def
  by (rule any_element_sound) (auto simp: definite_length_der der_element_def der_header_def)

lemma element_contents:
  "CBS_skip (length (der_header t (length p))) (der_element t p) = (Some (), p)"
  unfolding der_element_def by (rule CBS_skip_append) simp

lemma asn1_contents_of_element: "drop (length (der_header t (length p))) (der_element t p) = p"
  by (simp add: der_element_def)

lemma any_asn1_iff:
  "CBS_get_any_asn1 c = (Some (p, t), r) \<longleftrightarrow> valid_tag t \<and> length p < 2 ^ 32 \<and> c = der_element t p @ r"
proof
  assume "CBS_get_any_asn1 c = (Some (p, t), r)"
  then obtain e out where e: "CBS_get_any_asn1_element c = (Some e, r)" "t = el_tag e"
    and s: "CBS_skip (el_header_len e) (el_bytes e) = (Some (), p)"
    by (auto simp: CBS_get_any_asn1_def elim!: rbind_SomeE split: prod.splits option.splits)
  note sound = any_asn1_element_sound [OF e(1)]
  from s have "p = asn1_contents e"
    by (auto simp: CBS_skip_def rbind_ret_Some_iff cbs_get_def asn1_contents_def split: if_splits)
  with sound e(2) show "valid_tag t \<and> length p < 2 ^ 32 \<and> c = der_element t p @ r" by metis
next
  assume a: "valid_tag t \<and> length p < 2 ^ 32 \<and> c = der_element t p @ r"
  then have "CBS_get_any_asn1_element c = (Some \<lparr>el_bytes = der_element t p, el_tag = t,
      el_header_len = length (der_header t (length p)), el_ber_found = False, el_indefinite = False\<rparr>, r)"
    using any_asn1_element_complete [of t p r] by metis
  then show "CBS_get_any_asn1 c = (Some (p, t), r)"
    unfolding CBS_get_any_asn1_def by (simp add: rbind_Some element_contents)
qed

lemma CBS_get_asn1_iff:
  "CBS_get_asn1 t c = (Some p, r) \<longleftrightarrow> valid_tag t \<and> length p < 2 ^ 32 \<and> c = der_element t p @ r"
proof -
  have "CBS_get_asn1 t c = (Some p, r) \<longleftrightarrow> CBS_get_any_asn1 c = (Some (p, t), r)"
    unfolding CBS_get_asn1_def cbs_get_asn1_def CBS_get_any_asn1_def
    by (auto simp: rbind_def split: prod.splits option.splits if_splits)
  with any_asn1_iff show ?thesis by simp
qed

lemma CBS_get_asn1_element_iff:
  "CBS_get_asn1_element t c = (Some q, r) \<longleftrightarrow>
    (\<exists>p. valid_tag t \<and> length p < 2 ^ 32 \<and> q = der_element t p \<and> c = q @ r)"
proof
  assume "CBS_get_asn1_element t c = (Some q, r)"
  then obtain e where e: "CBS_get_any_asn1_element c = (Some e, r)" "el_tag e = t" "q = el_bytes e"
    by (auto simp: CBS_get_asn1_element_def cbs_get_asn1_def rbind_def split: prod.splits option.splits if_splits)
  with any_asn1_element_sound [OF e(1)]
  show "\<exists>p. valid_tag t \<and> length p < 2 ^ 32 \<and> q = der_element t p \<and> c = q @ r" by metis
next
  assume "\<exists>p. valid_tag t \<and> length p < 2 ^ 32 \<and> q = der_element t p \<and> c = q @ r"
  then obtain p where p: "valid_tag t" "length p < 2 ^ 32" "q = der_element t p" "c = q @ r" by blast
  with any_asn1_element_complete [of t p r]
  show "CBS_get_asn1_element t c = (Some q, r)"
    by (simp add: CBS_get_asn1_element_def cbs_get_asn1_def rbind_Some)
qed

section \<open>INTEGER contents\<close>

text \<open>The two's complement value of the contents octets.\<close>

definition asn1_int :: "bytes \<Rightarrow> int" where
  "asn1_int bs = int (be_val bs) - (if 128 \<le> unat (hd bs) then 256 ^ length bs else 0)"

lemma is_valid_asn1_integer_Cons:
  "CBS_is_valid_asn1_integer [] = False"
  "CBS_is_valid_asn1_integer [b]"
  "CBS_is_valid_asn1_integer (b # d # bs) \<longleftrightarrow>
     \<not> (b = 0 \<and> unat d < 128) \<and> \<not> (b = 0xff \<and> 128 \<le> unat d)"
  by (simp_all add: CBS_is_valid_asn1_integer_def cbs_simps and_80_zero not_less)

lemma asn1_integer_negative: "asn1_integer_is_negative bs \<longleftrightarrow> bs \<noteq> [] \<and> 128 \<le> unat (hd bs)"
  by (cases bs) (simp_all add: asn1_integer_is_negative_def cbs_simps and_80_zero not_less)

lemma int_be_val_less: "int (be_val bs) < 256 ^ length bs"
proof -
  have "int (be_val bs) < int (256 ^ length bs)" using be_val_less [of bs] by (simp only: of_nat_less_iff)
  then show ?thesis by simp
qed

lemma asn1_int_range:
  assumes "bs \<noteq> []"
  shows "2 * asn1_int bs < 256 ^ length bs" "- (256 ^ length bs) \<le> 2 * asn1_int bs"
proof -
  obtain b cs where bs: "bs = b # cs" using assms by (cases bs) auto
  have v: "int (be_val bs) = int (unat b) * 256 ^ length cs + int (be_val cs)" by (simp add: bs be_val_Cons)
  have c: "int (be_val cs) < 256 ^ length cs" "0 \<le> int (be_val cs)"
    by (rule int_be_val_less) simp
  define P :: int where "P = 256 ^ length cs"
  have P: "0 < P" by (simp add: P_def)
  have "int (be_val bs) < 128 * P" if "unat b < 128"
  proof -
    from that have "int (unat b) \<le> 127" by linarith
    then have "int (unat b) * P \<le> 127 * P" using P by (intro mult_right_mono) auto
    with c v show ?thesis unfolding P_def [symmetric] by linarith
  qed
  moreover have "128 * P \<le> int (be_val bs)" if "128 \<le> unat b"
  proof -
    from that have "128 \<le> int (unat b)" by linarith
    then have "128 * P \<le> int (unat b) * P" using P by (intro mult_right_mono) auto
    with c v show ?thesis unfolding P_def [symmetric] by linarith
  qed
  moreover have "int (be_val bs) < 256 * P"
    using int_be_val_less [of bs] by (simp add: P_def bs)
  ultimately show "2 * asn1_int bs < 256 ^ length bs" "- (256 ^ length bs) \<le> 2 * asn1_int bs"
    unfolding asn1_int_def by (auto simp: bs P_def [symmetric])
qed

lemma asn1_int_drop:
  "asn1_int (b # d # cs) = asn1_int (d # cs) \<longleftrightarrow> (b = 0 \<and> unat d < 128) \<or> (b = 0xff \<and> 128 \<le> unat d)"
proof -
  define P :: int where "P = 256 ^ Suc (length cs)"
  have P: "0 < P" by (simp add: P_def)
  have "asn1_int (b # d # cs) - asn1_int (d # cs)
      = (int (unat b) - (if 128 \<le> unat b then 256 else 0) + (if 128 \<le> unat d then 1 else 0)) * P"
    by (simp add: asn1_int_def be_val_Cons [of b] P_def algebra_simps)
  then have "asn1_int (b # d # cs) = asn1_int (d # cs) \<longleftrightarrow>
      int (unat b) - (if 128 \<le> unat b then 256 else 0) + (if 128 \<le> unat d then 1 else 0) = 0"
    using P by (metis eq_iff_diff_eq_0 mult_eq_0_iff less_irrefl)
  also have "\<dots> \<longleftrightarrow> (unat b = 0 \<and> unat d < 128) \<or> (unat b = 255 \<and> 128 \<le> unat d)"
  proof -
    have "int n - (if 128 \<le> n then 256 else 0) + (if 128 \<le> m then 1 else 0) = 0
        \<longleftrightarrow> (n = 0 \<and> m < 128) \<or> (n = 255 \<and> 128 \<le> m)" if "n < 256" for n m :: nat
      using that by auto
    then show ?thesis using unat_byte_less by blast
  qed
  finally show ?thesis by (simp add: word_unat_eq_iff)
qed

text \<open>Valid contents are those with no redundant leading octet.\<close>

lemma valid_asn1_integer_minimal:
  "CBS_is_valid_asn1_integer bs \<longleftrightarrow> bs \<noteq> [] \<and> (\<forall>b cs. bs = b # cs \<and> cs \<noteq> [] \<longrightarrow> asn1_int cs \<noteq> asn1_int bs)"
proof (cases bs rule: remdups_adj.cases)
  case (3 b d cs)
  then show ?thesis using asn1_int_drop [of b d cs] by (auto simp: is_valid_asn1_integer_Cons not_less)
qed (simp_all add: is_valid_asn1_integer_Cons)

text \<open>Beyond one octet, valid contents do not fit in one octet less.\<close>

lemma asn1_int_fits:
  assumes "2 * asn1_int (b # cs) < 256 ^ length cs" "- (256 ^ length cs) \<le> 2 * asn1_int (b # cs)" "cs \<noteq> []"
  shows "asn1_int (b # cs) = asn1_int cs"
proof -
  define P :: int where "P = 256 ^ length cs"
  note r = asn1_int_range [OF assms(3)]
  define k where "k = int (unat b) - (if 128 \<le> unat b then 256 else 0) + (if 128 \<le> unat (hd cs) then 1 else 0)"
  have "asn1_int (b # cs) - asn1_int cs = k * P"
    using assms(3) by (simp add: asn1_int_def be_val_Cons [of b] P_def k_def algebra_simps)
  moreover have "- (1 * P) < asn1_int (b # cs) - asn1_int cs" "asn1_int (b # cs) - asn1_int cs < 1 * P"
    using r assms unfolding P_def by linarith+
  moreover have "0 < P" by (simp add: P_def)
  ultimately have "- 1 < k" "k < 1" by (metis mult_less_cancel_right_pos mult_minus_left)+
  then have "k = 0" by linarith
  with \<open>asn1_int (b # cs) - asn1_int cs = k * P\<close> show ?thesis by simp
qed

lemma asn1_int_length_le:
  assumes "CBS_is_valid_asn1_integer as" "bs \<noteq> []" "asn1_int as = asn1_int bs"
  shows "length as \<le> length bs"
proof (rule ccontr)
  assume "\<not> length as \<le> length bs"
  then obtain b cs where as: "as = b # cs" and l: "length bs \<le> length cs" by (cases as) auto
  with assms(2) have ne: "cs \<noteq> []" by auto
  note l = l ne
  have "(256::int) ^ length bs \<le> 256 ^ length cs" using l by (intro power_increasing) auto
  with asn1_int_range [OF assms(2)]
  have "2 * asn1_int (b # cs) < 256 ^ length cs" "- (256 ^ length cs) \<le> 2 * asn1_int (b # cs)"
    using assms(3) unfolding as by linarith+
  then have "asn1_int (b # cs) = asn1_int cs" using ne by (rule asn1_int_fits)
  with assms(1) l as show False by (auto simp: valid_asn1_integer_minimal)
qed

lemma asn1_int_inj:
  assumes "CBS_is_valid_asn1_integer as" "CBS_is_valid_asn1_integer bs" "asn1_int as = asn1_int bs"
  shows "as = bs"
proof -
  have ne: "as \<noteq> []" "bs \<noteq> []" using assms by (auto simp: is_valid_asn1_integer_Cons)
  with assms have l: "length as = length bs" by (intro antisym asn1_int_length_le) auto
  have "int (be_val as) = int (be_val bs)"
  proof -
    have b: "int (be_val as) < 256 ^ length bs" "int (be_val bs) < 256 ^ length bs"
      using int_be_val_less [of as] int_be_val_less [of bs] unfolding l by simp_all
    show ?thesis using assms(3) b unfolding asn1_int_def l
      by (cases "128 \<le> unat (hd as)"; cases "128 \<le> unat (hd bs)"; simp only: if_True if_False; linarith)
  qed
  with l show ?thesis by (simp add: be_val_inj)
qed

subsection \<open>Numbers of 64 bits\<close>

lemma asn1_uint64_loop_val:
  "asn1_uint64_loop v data =
     (if unat v * 256 ^ length data + be_val data < 2 ^ 64 \<or> data = []
      then Some (word_of_nat (unat v * 256 ^ length data + be_val data)) else None)"
proof (induction data arbitrary: v)
  case (Cons b data)
  show ?case
  proof (cases "unat v < 2 ^ 56")
    case True
    then have "unat v < 72057594037927936" by simp
    with unat_byte_less [of b] have "unat v * 256 + unat b < 18446744073709551616" by linarith
    note small = this
    then have "unat (push_bit 8 v OR ucast b) = unat v * 256 + unat b"
      unfolding shift_or_byte by simp
    then show ?thesis
      using True small
      by (auto simp: top_bits_zero Cons.IH be_val_Cons algebra_simps)
  next
    case False
    have "(2::nat) ^ 64 = 2 ^ 56 * 256 ^ 1" by simp
    also have "\<dots> \<le> unat v * 256 ^ Suc (length data)"
      using False by (intro mult_le_mono power_increasing) auto
    finally show ?thesis using False by (simp add: top_bits_zero)
  qed
qed simp

lemma asn1_integer_valid_unsigned:
  "CBS_is_unsigned_asn1_integer p \<longleftrightarrow> CBS_is_valid_asn1_integer p \<and> 0 \<le> asn1_int p"
proof (cases "p = []")
  case False
  have "asn1_int p < 0 \<longleftrightarrow> 128 \<le> unat (hd p)"
    using int_be_val_less [of p] by (auto simp: asn1_int_def)
  with False show ?thesis by (auto simp: CBS_is_unsigned_asn1_integer_def asn1_integer_negative)
qed (simp add: CBS_is_unsigned_asn1_integer_def is_valid_asn1_integer_Cons)

lemma CBS_get_asn1_uint64_iff:
  "CBS_get_asn1_uint64 c = (Some w, r) \<longleftrightarrow>
    (\<exists>p. CBS_get_asn1 CBS_ASN1_INTEGER c = (Some p, r) \<and> CBS_is_valid_asn1_integer p
       \<and> asn1_int p = int (unat w))"
proof -
  have nn: "asn1_int p = int (be_val p)" if "0 \<le> asn1_int p" for p
    using that int_be_val_less [of p] by (auto simp: asn1_int_def split: if_splits)
  have l: "asn1_uint64_loop 0 p = Some w \<longleftrightarrow> be_val p = unat w" for p
    using unsigned_less [of w, where ?'a = nat]
    by (auto simp: asn1_uint64_loop_val unat_of_nat take_bit_nat_eq_self_iff unat_eq_zero)
  have "CBS_get_asn1_uint64 c = (Some w, r) \<longleftrightarrow>
    (\<exists>p. CBS_get_asn1 CBS_ASN1_INTEGER c = (Some p, r) \<and> CBS_is_unsigned_asn1_integer p
       \<and> asn1_uint64_loop 0 p = Some w)"
    unfolding CBS_get_asn1_uint64_def
    by (auto simp: rbind_def split: prod.splits option.splits if_splits)
  also have "\<dots> \<longleftrightarrow> (\<exists>p. CBS_get_asn1 CBS_ASN1_INTEGER c = (Some p, r) \<and> CBS_is_valid_asn1_integer p
       \<and> asn1_int p = int (unat w))"
    unfolding l asn1_integer_valid_unsigned using nn by (metis of_nat_0_le_iff of_nat_eq_iff)
  finally show ?thesis .
qed

lemma asn1_int_word: "asn1_int (be_bytes 8 (unat (w :: u64))) = sint w"
proof -
  have b: "be_val (be_bytes 8 (unat w)) = unat w" using unsigned_less [of w, where ?'a = nat] by simp
  obtain h t where ht: "be_bytes 8 (unat w) = h # t" by (metis length_be_bytes length_0_conv neq_Nil_conv zero_neq_numeral)
  have "length (h # t) = 8" unfolding ht [symmetric] by simp
  then have "length t = 7" by simp
  with ht b have "unat w = unat h * 256 ^ 7 + be_val t" "be_val t < 256 ^ 7"
    using be_val_Cons [of h t] be_val_less [of t] by simp_all
  then have "unat w div 2 ^ 63 = unat h div 128"
    by (simp add: div_mult2_eq [of _ "256 ^ 7" 128, simplified])
  moreover have "128 \<le> unat h \<longleftrightarrow> odd (unat h div 128)"
  proof -
    have "unat h div 128 = 0 \<or> unat h div 128 = 1" using unat_byte_less [of h] by linarith
    then show ?thesis by (metis div_eq_0_iff even_zero not_le odd_one zero_neq_numeral)
  qed
  ultimately have "128 \<le> unat (hd (be_bytes 8 (unat w))) \<longleftrightarrow> bit w 63"
    by (simp add: ht bit_top_iff)
  moreover have "sint w = uint w - 2 ^ 64 * of_bool (bit w 63)"
    unfolding sint_uint signed_take_bit_eq_take_bit_minus
    using unsigned_less [of w, where ?'a = int] by (simp add: bit_unsigned_iff take_bit_eq_mod)
  ultimately show ?thesis unfolding asn1_int_def b by simp
qed

lemma be_bytes_inverse: "length p = n \<Longrightarrow> be_val p = v \<Longrightarrow> be_bytes n v = p"
  by (metis be_bytes_be_val)

lemma asn1_int_sign_extend:
  assumes "p \<noteq> []"
  shows "asn1_int (replicate k (if asn1_integer_is_negative p then 0xff else 0) @ p) = asn1_int p"
proof (induction k)
  case (Suc k)
  define s :: u8 where "s = (if asn1_integer_is_negative p then 0xff else 0)"
  obtain d q where d: "replicate k s @ p = d # q" using assms by (cases "replicate k s @ p") auto
  have "128 \<le> unat d \<longleftrightarrow> asn1_integer_is_negative p"
    using d assms by (cases k) (auto simp: s_def asn1_integer_negative split: if_splits)
  then have "asn1_int (s # d # q) = asn1_int (d # q)"
    unfolding asn1_int_drop by (auto simp: s_def)
  then show ?case using Suc.IH unfolding s_def [symmetric] by (simp add: d)
qed simp

lemma CBS_get_asn1_int64_iff:
  "CBS_get_asn1_int64 c = (Some w, r) \<longleftrightarrow>
    (\<exists>p. CBS_get_asn1 CBS_ASN1_INTEGER c = (Some p, r) \<and> CBS_is_valid_asn1_integer p \<and> asn1_int p = sint w)"
proof -
  define ext where "ext p = replicate (8 - length p) (if asn1_integer_is_negative p then 0xff else 0) @ p" for p
  have load: "CRYPTO_load_u64_be (ext p) = w \<longleftrightarrow> asn1_int p = sint w"
    if "CBS_is_valid_asn1_integer p" "length p \<le> 8" for p
  proof -
    have p: "p \<noteq> []" using that by (auto simp: is_valid_asn1_integer_Cons)
    have l: "length (ext p) = 8" using that by (simp add: ext_def)
    define x where "x = CRYPTO_load_u64_be (ext p)"
    have "unat x = be_val (ext p)" unfolding x_def by (rule unat_CRYPTO_load_u64_be [OF l])
    then have "be_bytes 8 (unat x) = ext p" using l by (metis be_bytes_be_val)
    then have "sint x = asn1_int p"
      using asn1_int_word [of x] asn1_int_sign_extend [OF p, of "8 - length p"] by (simp add: ext_def)
    then show ?thesis unfolding x_def [symmetric] by (metis signed_word_eqI)
  qed
  have short: "length p \<le> 8" if "CBS_is_valid_asn1_integer p" "asn1_int p = sint w" for p
    using asn1_int_length_le [OF that(1), of "be_bytes 8 (unat w)"] that(2)
    by (metis asn1_int_word length_be_bytes length_0_conv zero_neq_numeral)
  have "CBS_get_asn1_int64 c = (Some w, r) \<longleftrightarrow>
    (\<exists>p. CBS_get_asn1 CBS_ASN1_INTEGER c = (Some p, r) \<and> CBS_is_valid_asn1_integer p \<and> length p \<le> 8
       \<and> CRYPTO_load_u64_be (ext p) = w)"
    unfolding CBS_get_asn1_int64_def ext_def
    by (auto simp: rbind_def not_less split: prod.splits option.splits if_splits)
  also have "\<dots> \<longleftrightarrow> (\<exists>p. CBS_get_asn1 CBS_ASN1_INTEGER c = (Some p, r) \<and> CBS_is_valid_asn1_integer p
      \<and> asn1_int p = sint w)"
    using load short by metis
  finally show ?thesis .
qed

lemma CBS_get_asn1_bool_iff:
  "CBS_get_asn1_bool c = (Some b, r) \<longleftrightarrow> CBS_get_asn1 CBS_ASN1_BOOLEAN c = (Some [if b then 0xff else 0], r)"
proof -
  have "CBS_get_asn1_bool c = (Some b, r) \<longleftrightarrow>
    (\<exists>p. CBS_get_asn1 CBS_ASN1_BOOLEAN c = (Some p, r) \<and> length p = 1 \<and> (hd p = 0 \<or> hd p = 0xff) \<and> b = (hd p \<noteq> 0))"
    unfolding CBS_get_asn1_bool_def
    by (auto simp: rbind_def split: prod.splits option.splits if_splits)
  also have "\<dots> \<longleftrightarrow> CBS_get_asn1 CBS_ASN1_BOOLEAN c = (Some [if b then 0xff else 0], r)"
    by (auto simp: length_Suc_conv)
  finally show ?thesis .
qed

section \<open>OBJECT IDENTIFIER contents\<close>

lemma asn1_oid_loop_Cons:
  "asn1_oid_loop prev (v # c) \<longleftrightarrow> \<not> (unat prev < 128 \<and> v = 0x80) \<and> asn1_oid_loop v c"
  by (simp add: and_80_zero)

lemma asn1_oid_loop_Nil: "asn1_oid_loop prev [] \<longleftrightarrow> unat prev < 128"
  by (simp add: and_80_zero)

declare asn1_oid_loop.simps [simp del]

lemma base128_high_extend:
  assumes "0 < n \<or> 128 < unat (v :: u8)" "128 \<le> unat v"
  shows "base128_high (n * 128 + unat v mod 128) = base128_high n @ [v]"
proof -
  define m where "m = unat v mod 128"
  have "n * 128 + m \<noteq> 0"
  proof
    assume "n * 128 + m = 0"
    then have "n = 0" "m = 0" by simp_all
    with assms have "128 < unat v" by simp
    moreover from \<open>m = 0\<close> high_byte [OF assms(2)] have "v = word_of_nat 128" by (simp add: m_def)
    ultimately show False by simp
  qed
  moreover have "(n * 128 + m) div 128 = n" "(n * 128 + m) mod 128 = m" by (simp_all add: m_def)
  moreover have "word_of_nat (128 + m) = v" using high_byte [OF assms(2)] by (simp add: m_def)
  ultimately have "base128_high (n * 128 + m) = base128_high n @ [v]"
    using base128_high_pos [of "n * 128 + m"] by metis
  then show ?thesis by (simp only: m_def)
qed

lemma base128_bytes_extend:
  assumes "unat (v :: u8) < 128"
  shows "base128_bytes (n * 128 + unat v) = base128_high n @ [v]"
proof -
  have "(n * 128 + unat v) div 128 = n" "(n * 128 + unat v) mod 128 = unat v" using assms by simp_all
  then show ?thesis by (simp add: base128_bytes_def)
qed

lemma asn1_oid_loop_sound:
  "asn1_oid_loop prev c \<Longrightarrow> (128 \<le> unat prev \<longleftrightarrow> 0 < n) \<Longrightarrow>
     \<exists>vs. base128_high n @ c = concat (map base128_bytes vs)"
proof (induction c arbitrary: prev n)
  case Nil
  then have "n = 0" by (auto simp: asn1_oid_loop_Nil)
  then show ?case by (intro exI [of _ "[]"]) simp
next
  case (Cons v c)
  from Cons.prems have l: "asn1_oid_loop v c" and nz: "unat prev < 128 \<Longrightarrow> v \<noteq> 0x80"
    by (auto simp: asn1_oid_loop_Cons)
  show ?case
  proof (cases "128 \<le> unat v")
    case True
    define m where "m = n * 128 + unat v mod 128"
    have pos: "0 < n \<or> 128 < unat v"
    proof (rule ccontr)
      assume a: "\<not> (0 < n \<or> 128 < unat v)"
      with True have "unat v = 128" by simp
      then have "v = 0x80" by (simp add: word_unat_eq_iff)
      moreover from a Cons.prems(2) have "unat prev < 128" by auto
      ultimately show False using nz by blast
    qed
    have "base128_high m = base128_high n @ [v]" unfolding m_def by (rule base128_high_extend [OF pos True])
    moreover from this have "0 < m" by (metis append_is_Nil_conv base128_high_0 gr0I not_Cons_self2)
    ultimately show ?thesis using Cons.IH [OF l, of m] True by simp
  next
    case False
    then have "base128_high n @ [v] = base128_bytes (n * 128 + unat v)" by (simp add: base128_bytes_extend)
    moreover from Cons.IH [OF l, of 0] False obtain vs where "c = concat (map base128_bytes vs)" by auto
    ultimately show ?thesis by (intro exI [of _ "(n * 128 + unat v) # vs"]) simp
  qed
qed

lemma asn1_oid_loop_high:
  "unat prev < 128 \<Longrightarrow> n \<noteq> 0 \<Longrightarrow> (\<And>p. 128 \<le> unat p \<Longrightarrow> asn1_oid_loop p c) \<Longrightarrow>
     asn1_oid_loop prev (base128_high n @ c)"
proof (induction n arbitrary: c rule: base128_high.induct)
  case (1 n)
  define b :: u8 where "b = word_of_nat (128 + n mod 128)"
  have b: "unat b = 128 + n mod 128" unfolding b_def by (rule unat_high_byte)
  have bc: "asn1_oid_loop p (b # c)" if "128 \<le> unat p \<or> n div 128 = 0" for p
  proof -
    have "b \<noteq> 0x80" if "n div 128 = 0"
    proof
      assume "b = 0x80"
      then have "unat b = 128" by simp
      with b have "n mod 128 = 0" by simp
      with that "1.prems"(2) show False by (metis div_mult_mod_eq mult_zero_left add_0)
    qed
    with that b "1.prems"(3) [of b] show ?thesis by (auto simp: asn1_oid_loop_Cons)
  qed
  show ?case
  proof (cases "n div 128 = 0")
    case True
    then show ?thesis using bc "1.prems"(2) by (simp add: base128_high_pos b_def)
  next
    case False
    have "asn1_oid_loop prev (base128_high (n div 128) @ b # c)"
      by (rule "1.IH" [OF "1.prems"(2,1) False]) (use bc in blast)
    with "1.prems"(2) show ?thesis by (simp add: base128_high_pos [of n] b_def)
  qed
qed

lemma asn1_oid_loop_complete: "unat prev < 128 \<Longrightarrow> asn1_oid_loop prev (concat (map base128_bytes vs))"
proof (induction vs arbitrary: prev)
  case Nil
  then show ?case by (simp add: asn1_oid_loop_Nil)
next
  case (Cons v vs)
  define b :: u8 where "b = word_of_nat (v mod 128)"
  have b: "unat b < 128" "b \<noteq> 0x80" using unat_low_byte [of v] by (auto simp: b_def)
  have "asn1_oid_loop p (b # concat (map base128_bytes vs))" for p
    using Cons.IH [OF b(1)] b(2) by (simp add: asn1_oid_loop_Cons)
  then have "asn1_oid_loop prev (base128_high (v div 128) @ b # concat (map base128_bytes vs))"
    using asn1_oid_loop_high [OF Cons.prems, of "v div 128"] by (cases "v div 128 = 0") auto
  then show ?case by (simp add: base128_bytes_def [of v] b_def)
qed

lemma valid_asn1_oid_iff:
  "CBS_is_valid_asn1_oid c \<longleftrightarrow> (\<exists>vs. vs \<noteq> [] \<and> c = concat (map base128_bytes vs))"
proof
  assume "CBS_is_valid_asn1_oid c"
  then have "c \<noteq> []" "asn1_oid_loop 0 c" by (auto simp: CBS_is_valid_asn1_oid_def split: if_splits)
  with asn1_oid_loop_sound [of 0 c 0] show "\<exists>vs. vs \<noteq> [] \<and> c = concat (map base128_bytes vs)" by auto
next
  assume "\<exists>vs. vs \<noteq> [] \<and> c = concat (map base128_bytes vs)"
  then obtain vs where vs: "vs \<noteq> []" "c = concat (map base128_bytes vs)" by blast
  then have "c \<noteq> []" by (cases vs) auto
  with vs asn1_oid_loop_complete [of 0 vs] show "CBS_is_valid_asn1_oid c" by (simp add: CBS_is_valid_asn1_oid_def)
qed

lemma valid_tag_INTEGER: "valid_tag CBS_ASN1_INTEGER"
  by (simp add: valid_tag_def constructed_only CBS_ASN1_INTEGER_def)

section \<open>Properties\<close>

text \<open>
  Claim C1.  \<open>CBS_get_any_asn1\<close> reads exactly DER elements: it returns contents \<open>p\<close> with tag \<open>t\<close> and
  the rest \<open>r\<close> if and only if the input is the identifier octets of \<open>t\<close>, the length octets of \<open>p\<close>
  with the fewest octets, \<open>p\<close>, and then \<open>r\<close>; a universal tag of number zero and lengths of more than
  32 bits are rejected.  In particular no byte string parses in two ways.
\<close>

theorem get_any_asn1_exact:
  "CBS_get_any_asn1 c = (Some (p, t), r) \<longleftrightarrow> valid_tag t \<and> length p < 2 ^ 32 \<and> c = der_element t p @ r"
  by (rule any_asn1_iff)

text \<open>
  \<open>parse_base128_integer\<close> reads exactly the minimal base-128 encoding of a 64-bit number:
  padding with \<open>0x80\<close> and numbers of more than 64 bits are rejected.
\<close>

theorem base128_exact: "parse_base128_integer c = (Some v, r) \<longleftrightarrow> c = base128_bytes (unat v) @ r"
  by (rule parse_base128_integer_iff)

text \<open>
  Claim C6.  \<open>CBS_get_asn1_int64\<close> returns \<open>w\<close> if and only if the input starts with a DER INTEGER
  whose contents are minimal and have the two's complement value \<open>w\<close>: nothing is truncated, and
  the sign is extended right.
\<close>

theorem get_int64_exact:
  "CBS_get_asn1_int64 c = (Some w, r) \<longleftrightarrow>
    (\<exists>p. length p < 2 ^ 32 \<and> c = der_element CBS_ASN1_INTEGER p @ r \<and> CBS_is_valid_asn1_integer p \<and> asn1_int p = sint w)"
  by (simp only: CBS_get_asn1_int64_iff CBS_get_asn1_iff valid_tag_INTEGER simp_thms conj_assoc)

text \<open>
  \<open>CBS_get_asn1_uint64\<close> returns \<open>w\<close> if and only if the input starts with a DER INTEGER
  whose contents are minimal and have the value \<open>w\<close>; a negative one and one of more than 64 bits
  are errors.
\<close>

theorem get_uint64_exact:
  "CBS_get_asn1_uint64 c = (Some w, r) \<longleftrightarrow>
    (\<exists>p. length p < 2 ^ 32 \<and> c = der_element CBS_ASN1_INTEGER p @ r \<and> CBS_is_valid_asn1_integer p
       \<and> asn1_int p = int (unat w))"
  by (simp only: CBS_get_asn1_uint64_iff CBS_get_asn1_iff valid_tag_INTEGER simp_thms conj_assoc)

text \<open>
  \<open>CBS_is_valid_asn1_integer\<close> accepts one encoding of each number: contents that are both
  valid and have the same value are the same bytes.
\<close>

theorem integer_encoding_unique:
  assumes "CBS_is_valid_asn1_integer as" "CBS_is_valid_asn1_integer bs" "asn1_int as = asn1_int bs"
  shows "as = bs"
  using assms by (rule asn1_int_inj)

theorem integer_encoding_unique_witness: "[0xff, 0x7f] = be_bytes 2 65407"
proof -
  have b: "be_bytes 2 65407 = [0xff, 0x7f]" by (simp add: numeral_2_eq_2)
  have v: "CBS_is_valid_asn1_integer [0xff, 0x7f]" by (simp add: is_valid_asn1_integer_Cons)
  show ?thesis by (rule integer_encoding_unique) (simp_all only: b v)
qed

text \<open>
  \<open>CBS_is_valid_asn1_oid\<close> accepts exactly the concatenations of one or more minimal
  base-128 numbers (of any size).
\<close>

theorem oid_valid_exact: "CBS_is_valid_asn1_oid c \<longleftrightarrow> (\<exists>vs. vs \<noteq> [] \<and> c = concat (map base128_bytes vs))"
  by (rule valid_asn1_oid_iff)

end
