(* ===== verification/CbsTime.thy ===== *)
theory CbsTime imports Cbs begin

text \<open>
  The UTCTime and GeneralizedTime parsers of \<open>cbs.c\<close>: what they return is a time that the POSIX
  conversions accept, they read back the DER form of every time of their range, and what a time
  zone offset does to the result.
\<close>

section \<open>Digits\<close>

definition two_digits :: "int \<Rightarrow> bytes" where
  "two_digits n = [word_of_nat (48 + nat n div 10), word_of_nat (48 + nat n mod 10)]"

lemma digit_word_less: "d < 10 \<Longrightarrow> digit (word_of_nat (48 + d))"
  by (simp only: digit_iff unat_digit) simp

lemma uint_digit: "d < 10 \<Longrightarrow> uint (word_of_nat (48 + d) :: u8) = 48 + int d"
proof -
  assume "d < 10"
  have "uint w = int (unat w)" for w :: u8 by simp
  from this [of "word_of_nat (48 + d)"] show ?thesis unfolding unat_digit [OF \<open>d < 10\<close>] by simp
qed

lemma two_digits_read:
  assumes "0 \<le> n" "n < 100"
  shows "cbs_get_two_digits (two_digits n @ r) = (Some n, r)"
proof -
  define a b where "a = nat n div 10" and "b = nat n mod 10"
  have "int (nat n) = int (nat n div 10 * 10 + nat n mod 10)" by (simp only: div_mult_mod_eq)
  then have n: "n = int a * 10 + int b"
    using assms by (simp only: a_def b_def of_nat_add of_nat_mult of_nat_numeral nat_0_le)
  have "a < 10" "b < 10" using assms by (simp_all add: a_def b_def)
  note ab = this n
  note u = uint_digit [OF ab(1)] uint_digit [OF ab(2)]
  have "two_digits n @ r = word_of_nat (48 + a) # word_of_nat (48 + b) # r"
    by (simp only: two_digits_def a_def b_def append_Cons append_Nil)
  then show ?thesis
    using digit_word_less [OF ab(1)] digit_word_less [OF ab(2)]
    by (simp add: cbs_get_two_digits_def rbind_def CBS_get_u8_Cons u ab(3) del: of_nat_add)
qed

lemma two_digits_range: "cbs_get_two_digits c = (Some n, r) \<Longrightarrow> 0 \<le> n \<and> n < 100"
  by (auto simp: cbs_get_two_digits_def OPENSSL_isdigit_def elim!: rbind_SomeE split: if_splits)

lemma two_digits_reader [reader_intros]: "byte_reader cbs_get_two_digits"
  unfolding cbs_get_two_digits_def by (intro reader_intros)

section \<open>Times\<close>

lemma is_valid_day_date:
  "0 \<le> y \<Longrightarrow> y \<le> 9999 \<Longrightarrow> 1 \<le> m \<Longrightarrow> m \<le> 12 \<Longrightarrow> is_valid_day y m d \<longleftrightarrow> is_valid_date y m d"
  by (auto simp: is_valid_day_def is_valid_date_def)

lemma parse_time_year_range: "parse_time_year g c = (Some y, r) \<Longrightarrow> 0 \<le> y \<and> y \<le> 9999"
  by (auto simp: parse_time_year_def Let_def elim!: rbind_SomeE split: if_splits dest!: two_digits_range)

lemma tm_to_posix_valid:
  "is_valid_date y m d \<Longrightarrow> is_valid_time h mi s \<Longrightarrow>
     OPENSSL_tm_to_posix \<lparr>tm_year = y - 1900, tm_mon = m - 1, tm_mday = d, tm_hour = h, tm_min = mi, tm_sec = s\<rparr>
       = posix_time_from_utc y m d h mi s \<and> posix_time_from_utc y m d h mi s \<noteq> None"
  using posix_time_from_utc_valid by (simp add: OPENSSL_tm_to_posix_def)

text \<open>What the parser has checked of the time before it applies the offset.\<close>

lemma time_reader_valid:
  assumes "rfc5280_time_reader g allow c = (Some (u, off), r)"
  shows "OPENSSL_tm_to_posix u \<noteq> None"
proof -
  from assms obtain y mo d h mi s where u: "u = \<lparr>tm_year = y - 1900, tm_mon = mo - 1, tm_mday = d,
        tm_hour = h, tm_min = mi, tm_sec = s\<rparr>"
    and r: "0 \<le> y \<and> y \<le> 9999" "\<not> mo < 1 \<and> \<not> 12 < mo" "is_valid_day y mo d"
      "\<not> 23 < h \<and> 0 \<le> h" "\<not> 59 < mi \<and> 0 \<le> mi" "\<not> 59 < s \<and> 0 \<le> s"
    unfolding rfc5280_time_reader_def
    by (auto elim!: rbind_SomeE split: if_splits dest!: parse_time_year_range two_digits_range)
  then have "is_valid_date y mo d" by (simp add: is_valid_day_date)
  moreover have "is_valid_time h mi s" using r by (simp add: is_valid_time_def)
  ultimately show ?thesis unfolding u by (simp add: tm_to_posix_valid)
qed

lemma parse_time_valid:
  assumes "CBS_parse_rfc5280_time_internal has_out c g allow = Some t"
  shows "OPENSSL_tm_to_posix t \<noteq> None"
proof -
  from assms obtain u off where u: "rfc5280_time_reader g allow c = (Some (u, off), [])"
    and t: "(if has_out \<and> off \<noteq> 0 then OPENSSL_gmtime_adj u 0 off else Some u) = Some t"
    by (auto simp: CBS_parse_rfc5280_time_internal_def split: prod.splits option.splits list.splits)
  from time_reader_valid [OF u] obtain p where p: "OPENSSL_tm_to_posix u = Some p" by blast
  show ?thesis
  proof (cases "has_out \<and> off \<noteq> 0")
    case True
    with t have "OPENSSL_posix_to_tm (p + off) = Some t" by (simp add: gmtime_adj_eq [OF p])
    then show ?thesis by (simp flip: tm_posix_iff)
  next
    case False
    with t p show ?thesis by auto
  qed
qed

section \<open>The DER forms\<close>

definition gentime_fields :: "int \<Rightarrow> int \<Rightarrow> int \<Rightarrow> int \<Rightarrow> int \<Rightarrow> int \<Rightarrow> bytes" where
  "gentime_fields y mo d h mi s = two_digits (y div 100) @ two_digits (y mod 100) @ two_digits mo @ two_digits d
     @ two_digits h @ two_digits mi @ two_digits s"

definition utctime_fields :: "int \<Rightarrow> int \<Rightarrow> int \<Rightarrow> int \<Rightarrow> int \<Rightarrow> int \<Rightarrow> bytes" where
  "utctime_fields y mo d h mi s = two_digits (y mod 100) @ two_digits mo @ two_digits d
     @ two_digits h @ two_digits mi @ two_digits s"

lemma time_fields_read:
  assumes date: "is_valid_date y mo d" and time: "is_valid_time h mi s"
    and year: "\<And>r. parse_time_year g (yb @ r) = (Some y, r)"
    and off: "parse_time_offset allow z r = (Some off, r')"
  shows "rfc5280_time_reader g allow (yb @ two_digits mo @ two_digits d @ two_digits h @ two_digits mi @ two_digits s @ z # r)
    = (Some (\<lparr>tm_year = y - 1900, tm_mon = mo - 1, tm_mday = d, tm_hour = h, tm_min = mi, tm_sec = s\<rparr>, off), r')"
proof -
  from date have c: "calendar_date y mo d" by (simp add: is_valid_date_calendar)
  then have r: "0 \<le> y" "y \<le> 9999" "1 \<le> mo" "mo \<le> 12" "1 \<le> d" "d \<le> 31"
    by (auto simp: calendar_date_def days_in_month_def split: if_splits)
  have day: "is_valid_day y mo d" using r date by (simp add: is_valid_day_date)
  note t = valid_time_bounds [OF time]
  show ?thesis
    unfolding rfc5280_time_reader_def
    using r t day by (simp add: rbind_def year two_digits_read CBS_get_u8_Cons off)
qed

lemma parse_gentime_year:
  assumes "0 \<le> y" "y \<le> 9999"
  shows "parse_time_year True ((two_digits (y div 100) @ two_digits (y mod 100)) @ r) = (Some y, r)"
proof -
  have "0 \<le> y div 100" "y div 100 < 100" "0 \<le> y mod 100" "y mod 100 < 100" using assms by linarith+
  then show ?thesis by (simp add: parse_time_year_def rbind_def two_digits_read)
qed

lemma parse_utctime_year:
  assumes "1950 \<le> y" "y \<le> 2049"
  shows "parse_time_year False (two_digits (y mod 100) @ r) = (Some y, r)"
proof -
  have "y mod 100 = (if y < 2000 then y - 1900 else y - 2000)"
    by (rule int_mod_pos_eq [of _ _ "if y < 2000 then 19 else 20"]) (use assms in auto)
  moreover have "0 \<le> y mod 100" "y mod 100 < 100" by simp_all
  ultimately show ?thesis using assms by (simp add: parse_time_year_def rbind_def two_digits_read Let_def)
qed

lemma parse_time_offset_Z: "parse_time_offset allow 0x5a r = (Some 0, r)"
  by (simp add: parse_time_offset_def)

lemma parse_time_offset_sign:
  assumes "0 \<le> oh" "oh \<le> 23" "0 \<le> om" "om \<le> 59"
  shows "parse_time_offset True (if ahead then 0x2b else 0x2d) (two_digits oh @ two_digits om)
    = (Some ((if ahead then 1 else - 1) * (oh * 3600 + om * 60)), [])"
  using assms two_digits_read [of om "[]"]
  by (simp add: parse_time_offset_def rbind_def two_digits_read)

section \<open>Properties\<close>

text \<open>
  Claim C21.  A time that the parser accepts is one that \<open>OPENSSL_tm_to_posix\<close> can convert: no caller
  gets a broken-down time with an impossible day, hour or year.
\<close>

theorem parsed_time_valid:
  assumes "CBS_parse_rfc5280_time_internal has_out c g allow = Some t"
  shows "OPENSSL_tm_to_posix t \<noteq> None"
  using assms by (rule parse_time_valid)

theorem parsed_time_valid_witness:
  "OPENSSL_tm_to_posix \<lparr>tm_year = 70, tm_mon = 0, tm_mday = 1, tm_hour = 0, tm_min = 0, tm_sec = 0\<rparr> \<noteq> None"
proof (rule parsed_time_valid [of True "[0x37, 0x30, 0x30, 0x31, 0x30, 0x31, 0x30, 0x30, 0x30, 0x30, 0x30, 0x30, 0x5a]" False False])
  show "CBS_parse_rfc5280_time_internal True [0x37, 0x30, 0x30, 0x31, 0x30, 0x31, 0x30, 0x30, 0x30, 0x30, 0x30, 0x30, 0x5a] False False
    = Some \<lparr>tm_year = 70, tm_mon = 0, tm_mday = 1, tm_hour = 0, tm_min = 0, tm_sec = 0\<rparr>" by code_simp
qed

text \<open>
  Claim C22.  A GeneralizedTime with a numeric offset, which the parser accepts when the caller allows
  it, is read as the time in the string plus the offset for \<open>+\<close> and minus it for \<open>-\<close>.  (The header
  promises the time in UTC, which is the other way round: a place that is ahead of UTC by the
  offset reaches a local time earlier.)
\<close>

theorem generalized_time_offset:
  assumes "is_valid_date y mo d" "is_valid_time h mi s" "0 \<le> oh" "oh \<le> 23" "0 \<le> om" "om \<le> 59"
    and "posix_time_from_utc y mo d h mi s = Some t"
  shows "CBS_parse_generalized_time True (gentime_fields y mo d h mi s @
      (if ahead then 0x2b else 0x2d) # two_digits oh @ two_digits om) True
    = OPENSSL_posix_to_tm (t + (if ahead then 1 else - 1) * (oh * 3600 + om * 60))"
proof -
  define x where "x = \<lparr>tm_year = y - 1900, tm_mon = mo - 1, tm_mday = d, tm_hour = h, tm_min = mi, tm_sec = s\<rparr>"
  define off where "off = (if ahead then 1 else - 1) * (oh * 3600 + om * 60)"
  have "0 \<le> y" "y \<le> 9999" using assms(1) by (auto simp: is_valid_date_def split: if_splits)
  then have "parse_time_year True ((two_digits (y div 100) @ two_digits (y mod 100)) @ r) = (Some y, r)" for r
    by (rule parse_gentime_year)
  from time_fields_read [OF assms(1,2) this parse_time_offset_sign [OF assms(3-6)], of ahead]
  have r: "rfc5280_time_reader True True (gentime_fields y mo d h mi s @ (if ahead then 0x2b else 0x2d) # two_digits oh @ two_digits om)
      = (Some (x, off), [])" by (simp only: gentime_fields_def append_assoc x_def off_def)
  have t: "OPENSSL_tm_to_posix x = Some t" using assms(7) by (simp add: OPENSSL_tm_to_posix_def x_def)
  then have "OPENSSL_posix_to_tm t = Some x" by (simp only: tm_posix_iff)
  then show ?thesis using gmtime_adj_eq [OF t, of 0 off]
    unfolding CBS_parse_generalized_time_def CBS_parse_rfc5280_time_internal_def r off_def [symmetric] by simp
qed

text \<open>Noon of the first of January 1970, one hour ahead of UTC, is 11:00 UTC; the parser says 13:00.\<close>

theorem generalized_time_offset_witness:
  "CBS_parse_generalized_time True (gentime_fields 1970 1 1 12 0 0 @ 0x2b # two_digits 1 @ two_digits 0) True
     = OPENSSL_posix_to_tm (13 * 3600)"
proof -
  have "is_valid_date 1970 1 1" "is_valid_time 12 0 0" "posix_time_from_utc 1970 1 1 12 0 0 = Some (12 * 3600)" by code_simp+
  from generalized_time_offset [OF this(1,2) _ _ _ _ this(3), of 1 0 True] show ?thesis by simp
qed

end
