(* ===== verification/Sort.thy ===== *)
theory Sort imports Prelude "HOL-Library.Multiset" begin

text \<open>
  The C library's \<open>qsort\<close> and the interface of its comparison functions: a permutation of the
  elements in ascending order of the comparison.  Where elements that compare equal are equal
  there is only one, whatever algorithm the library uses (\<open>exact_comparator.qsort_unique\<close>).
\<close>

fun qsort_insert :: "('a \<Rightarrow> 'a \<Rightarrow> int) \<Rightarrow> 'a \<Rightarrow> 'a list \<Rightarrow> 'a list" where
  "qsort_insert cmp x [] = [x]"
| "qsort_insert cmp x (y # ys) = (if cmp x y \<le> 0 then x # y # ys else y # qsort_insert cmp x ys)"

definition qsort :: "('a \<Rightarrow> 'a \<Rightarrow> int) \<Rightarrow> 'a list \<Rightarrow> 'a list" where
  "qsort cmp xs = foldr (qsort_insert cmp) xs []"

lemma mset_qsort_insert: "mset (qsort_insert cmp x xs) = add_mset x (mset xs)"
  by (induction xs) auto

lemma mset_qsort [simp]: "mset (qsort cmp xs) = mset xs"
  by (induction xs) (auto simp: qsort_def mset_qsort_insert)

lemma set_qsort_insert: "set (qsort_insert cmp x xs) = insert x (set xs)"
  by (induction xs) auto

lemma length_qsort [simp]: "length (qsort cmp xs) = length xs"
  by (metis mset_qsort size_mset)

lemma set_qsort [simp]: "set (qsort cmp xs) = set xs"
  by (metis mset_qsort set_mset_mset)

text \<open>What \<open>qsort\<close> and the searches rely on in a comparison function.\<close>

locale comparator =
  fixes cmp :: "'a \<Rightarrow> 'a \<Rightarrow> int"
  assumes sign: "cmp x y < 0 \<longleftrightarrow> 0 < cmp y x"
    and trans: "cmp x y \<le> 0 \<Longrightarrow> cmp y z \<le> 0 \<Longrightarrow> cmp x z \<le> 0"
begin

abbreviation ascending :: "'a list \<Rightarrow> bool" where
  "ascending \<equiv> sorted_wrt (\<lambda>x y. cmp x y \<le> 0)"

lemma total: "cmp x y \<le> 0 \<or> cmp y x \<le> 0"
  using sign [of x y] by linarith

lemma not_less: "\<not> cmp x y < 0 \<longleftrightarrow> cmp y x \<le> 0"
  using sign [of x y] by linarith

lemma less_trans: "cmp x y < 0 \<Longrightarrow> cmp y z \<le> 0 \<Longrightarrow> cmp x z < 0" "cmp x y \<le> 0 \<Longrightarrow> cmp y z < 0 \<Longrightarrow> cmp x z < 0"
  using trans [of y z x] trans [of z x y] not_less [of x z] not_less [of x y] not_less [of y z] by linarith+

lemma refl: "cmp x x \<le> 0"
  using total [of x x] by simp

lemma ascending_insert: "ascending xs \<Longrightarrow> ascending (qsort_insert cmp x xs)"
  by (induction xs) (use total trans in \<open>auto simp: set_qsort_insert\<close>)

lemma qsort_ascending: "ascending (qsort cmp xs)"
  by (induction xs) (simp_all add: qsort_def ascending_insert)

lemma qsort_insert_least: "\<forall>y \<in> set xs. cmp x y \<le> 0 \<Longrightarrow> qsort_insert cmp x xs = x # xs"
  by (cases xs) auto

lemma qsort_ascending_id: "ascending xs \<Longrightarrow> qsort cmp xs = xs"
  by (induction xs) (simp_all add: qsort_def qsort_insert_least)

end

locale exact_comparator = comparator +
  assumes equal: "cmp x y = 0 \<Longrightarrow> x = y"
begin

lemma ascending_unique: "ascending xs \<Longrightarrow> ascending ys \<Longrightarrow> mset xs = mset ys \<Longrightarrow> xs = ys"
proof (induction xs arbitrary: ys)
  case (Cons x xs)
  then obtain y ys' where ys: "ys = y # ys'" by (cases ys) auto
  have "set (x # xs) = set (y # ys')" using Cons.prems(3) unfolding ys by (metis set_mset_mset)
  then have "y \<in> set (x # xs)" "x \<in> set (y # ys')" by (metis list.set_intros(1))+
  then have "cmp x y \<le> 0" "cmp y x \<le> 0" using Cons.prems(1,2) by (auto simp: ys refl)
  then have "cmp x y = 0" using sign [of x y] by linarith
  then have "x = y" by (rule equal)
  with Cons ys show ?case by simp
qed simp

lemma qsort_unique: "ascending ys \<Longrightarrow> mset ys = mset xs \<Longrightarrow> ys = qsort cmp xs"
  by (rule ascending_unique) (simp_all add: qsort_ascending)

end

end
