(* ===== verification/Cbb.thy ===== *)
theory Cbb imports Cbs Sort begin

text \<open>
  \<open>crypto/bytestring/cbb.c\<close> and \<open>asn1_compat.c\<close>: the byte-string builder.  A top-level \<open>CBB\<close>
  owns a buffer (\<open>cbb_buffer_st\<close>); while length prefixes are pending, child \<open>CBB\<close>s hang off it
  in a chain, one below the other.  The state is the whole chain: the address of the top-level
  object, its buffer, and the pending children from the outermost to the innermost, each with the
  address of its \<open>CBB\<close> object.  A \<open>CBB *\<close> is an address.  An address that is in the chain no
  more is a child that was flushed or discarded; its \<open>base\<close> is \<open>NULL\<close> and operations on it fail.
  The bytes of the buffer are a list as long as the capacity.
\<close>

section \<open>The buffer\<close>

record cbb_buffer =
  cb_buf :: bytes
  cb_len :: nat
  cb_can_resize :: bool
  cb_error :: bool

record cbb_child =
  cc_offset :: nat
  cc_pending_len_len :: nat
  cc_pending_is_asn1 :: bool

type_synonym cbb_ptr = nat

record cbb =
  cbb_root :: cbb_ptr
  cbb_base :: cbb_buffer
  cbb_chain :: "(cbb_ptr \<times> cbb_child) list"

abbreviation cb_cap :: "cbb_buffer \<Rightarrow> nat" where
  "cb_cap b \<equiv> length (cb_buf b)"

text \<open>\<open>memcpy\<close> and \<open>memmove\<close> to an offset of the buffer.\<close>

definition buf_write :: "nat \<Rightarrow> bytes \<Rightarrow> bytes \<Rightarrow> bytes" where
  "buf_write off bs buf = take off buf @ bs @ drop (off + length bs) buf"

definition cbb_init :: "cbb_ptr \<Rightarrow> bytes \<Rightarrow> bool \<Rightarrow> cbb" where
  "cbb_init p buf can_resize =
     \<lparr>cbb_root = p, cbb_base = \<lparr>cb_buf = buf, cb_len = 0, cb_can_resize = can_resize, cb_error = False\<rparr>,
      cbb_chain = []\<rparr>"

definition CBB_init :: "allocator \<Rightarrow> cbb_ptr \<Rightarrow> nat \<Rightarrow> cbb option" where
  "CBB_init al p initial_capacity =
     (case OPENSSL_malloc al initial_capacity of
        None \<Rightarrow> if 0 < initial_capacity then None else Some (cbb_init p [] True)
      | Some buf \<Rightarrow> Some (cbb_init p buf True))"

definition CBB_init_fixed :: "cbb_ptr \<Rightarrow> bytes \<Rightarrow> cbb" where
  "CBB_init_fixed p buf = cbb_init p buf False"

definition cbb_buffer_error :: "cbb_buffer \<Rightarrow> cbb_buffer" where
  "cbb_buffer_error b = b\<lparr>cb_error := True\<rparr>"

text \<open>The result is the offset of the reserved space, \<open>base->len\<close>.\<close>

definition cbb_buffer_reserve :: "allocator \<Rightarrow> nat \<Rightarrow> cbb_buffer \<Rightarrow> nat option \<times> cbb_buffer" where
  "cbb_buffer_reserve al len b =
     (let newlen = size_add (cb_len b) len
      in if newlen < cb_len b then (None, cbb_buffer_error b)
         else if cb_cap b < newlen then
           (if \<not> cb_can_resize b then (None, cbb_buffer_error b)
            else let newcap0 = size_mul (cb_cap b) 2;
                     newcap = (if newcap0 < cb_cap b \<or> newcap0 < newlen then newlen else newcap0)
                 in case OPENSSL_realloc al (Some (cb_buf b)) newcap of
                      None \<Rightarrow> (None, cbb_buffer_error b)
                    | Some newbuf \<Rightarrow> (Some (cb_len b), b\<lparr>cb_buf := newbuf\<rparr>))
         else (Some (cb_len b), b))"

definition cbb_buffer_add :: "allocator \<Rightarrow> nat \<Rightarrow> cbb_buffer \<Rightarrow> nat option \<times> cbb_buffer" where
  "cbb_buffer_add al len b =
     (case cbb_buffer_reserve al len b of
        (None, b') \<Rightarrow> (None, b')
      | (Some out, b') \<Rightarrow> (Some out, b'\<lparr>cb_len := cb_len b' + len\<rparr>))"

section \<open>Flushing\<close>

text \<open>
  \<open>for (size_t i = n - 1; i < n; i--) { buf[off + i] = v; v >>= 8; }\<close>: the loop ends when \<open>i\<close>
  wraps below zero.  The result is the buffer and what is left of \<open>v\<close>.
\<close>

fun put_be :: "nat \<Rightarrow> nat \<Rightarrow> nat \<Rightarrow> bytes \<Rightarrow> bytes \<times> nat" where
  "put_be 0 off v buf = (buf, v)"
| "put_be (Suc i) off v buf = put_be i off (v div 256) (buf[off + i := word_of_nat (v mod 256)])"

text \<open>Writing out the length prefix of one child, whose own children are flushed.\<close>

definition asn1_len_len :: "nat \<Rightarrow> (nat \<times> u8) option" where
  "asn1_len_len len =
     (if 0xfffffffe < len then None
      else if 0xffffff < len then Some (5, 0x80 OR 4)
      else if 0xffff < len then Some (4, 0x80 OR 3)
      else if 0xff < len then Some (3, 0x80 OR 2)
      else if 0x7f < len then Some (2, 0x80 OR 1)
      else Some (1, word_of_nat len))"

definition cbb_put_length :: "nat \<Rightarrow> nat \<Rightarrow> nat \<Rightarrow> cbb_buffer \<Rightarrow> bool \<times> cbb_buffer" where
  "cbb_put_length off pending_len_len len b =
     (case put_be pending_len_len off len (cb_buf b) of
        (buf, rest) \<Rightarrow> if rest \<noteq> 0 then (False, cbb_buffer_error (b\<lparr>cb_buf := buf\<rparr>)) else (True, b\<lparr>cb_buf := buf\<rparr>))"

definition cbb_close_child :: "allocator \<Rightarrow> cbb_child \<Rightarrow> nat \<Rightarrow> cbb_buffer \<Rightarrow> bool \<times> cbb_buffer" where
  "cbb_close_child al child child_start b =
     (let len = cb_len b - child_start
      in if cc_pending_is_asn1 child then
           (case asn1_len_len len of None \<Rightarrow> (False, cbb_buffer_error b)
            | Some (len_len, initial_length_byte) \<Rightarrow>
                (case (if len_len \<noteq> 1 then
                         (case cbb_buffer_add al (len_len - 1) b of
                            (None, b') \<Rightarrow> (None, b')
                          | (Some _, b') \<Rightarrow>
                              (Some (), b'\<lparr>cb_buf := buf_write (child_start + (len_len - 1))
                                 (take len (drop child_start (cb_buf b'))) (cb_buf b')\<rparr>))
                       else (Some (), b)) of
                   (None, b') \<Rightarrow> (False, cbb_buffer_error b')
                 | (Some _, b') \<Rightarrow>
                     cbb_put_length (cc_offset child + 1) (len_len - 1) (if len_len = 1 then 0 else len)
                       (b'\<lparr>cb_buf := (cb_buf b')[cc_offset child := initial_length_byte]\<rparr>)))
         else cbb_put_length (cc_offset child) (cc_pending_len_len child) len b)"

text \<open>
  \<open>CBB_flush\<close> below one \<open>CBB\<close>: its child first flushes its own children.  \<open>cbb_on_error\<close> sets
  the error and forgets the child, so a failure leaves the chain empty below this \<open>CBB\<close>.
\<close>

fun cbb_flush_chain :: "allocator \<Rightarrow> (cbb_ptr \<times> cbb_child) list \<Rightarrow> cbb_buffer
    \<Rightarrow> bool \<times> (cbb_ptr \<times> cbb_child) list \<times> cbb_buffer" where
  "cbb_flush_chain al [] b = (\<not> cb_error b, [], b)"
| "cbb_flush_chain al ((p, child) # chain) b =
     (if cb_error b then (False, (p, child) # chain, b)
      else let child_start = size_add (cc_offset child) (cc_pending_len_len child)
           in case cbb_flush_chain al chain b of
                (ok, _, b') \<Rightarrow>
                  if \<not> ok \<or> child_start < cc_offset child \<or> cb_len b' < child_start
                  then (False, [], cbb_buffer_error b')
                  else (case cbb_close_child al child child_start b' of
                          (False, b'') \<Rightarrow> (False, [], b'')
                        | (True, b'') \<Rightarrow> (True, [], b'')))"

text \<open>The part of the chain down to a \<open>CBB\<close>, and the part below it; none for a dead child.\<close>

fun cbb_split_chain :: "cbb_ptr \<Rightarrow> (cbb_ptr \<times> cbb_child) list
    \<Rightarrow> ((cbb_ptr \<times> cbb_child) list \<times> (cbb_ptr \<times> cbb_child) list) option" where
  "cbb_split_chain p [] = None"
| "cbb_split_chain p ((q, c) # chain) =
     (if p = q then Some ([(q, c)], chain)
      else map_option (\<lambda>(outer, inner). ((q, c) # outer, inner)) (cbb_split_chain p chain))"

definition cbb_locate :: "cbb_ptr \<Rightarrow> cbb \<Rightarrow> ((cbb_ptr \<times> cbb_child) list \<times> (cbb_ptr \<times> cbb_child) list) option" where
  "cbb_locate p st = (if p = cbb_root st then Some ([], cbb_chain st) else cbb_split_chain p (cbb_chain st))"

definition CBB_flush :: "allocator \<Rightarrow> cbb_ptr \<Rightarrow> cbb \<Rightarrow> bool \<times> cbb" where
  "CBB_flush al p st =
     (case cbb_locate p st of None \<Rightarrow> (False, st)
      | Some (outer, inner) \<Rightarrow>
          (case cbb_flush_chain al inner (cbb_base st) of
             (ok, inner', b) \<Rightarrow> (ok, st\<lparr>cbb_base := b, cbb_chain := outer @ inner'\<rparr>)))"

definition cbb_on_error :: "cbb_ptr \<Rightarrow> cbb \<Rightarrow> cbb" where
  "cbb_on_error p st =
     (case cbb_locate p st of None \<Rightarrow> st
      | Some (outer, inner) \<Rightarrow> st\<lparr>cbb_base := cbb_buffer_error (cbb_base st), cbb_chain := outer\<rparr>)"

text \<open>
  \<open>CBB_finish\<close> gives the buffer and the length away, to those of the two pointers that are not null; a
  buffer that can grow needs both.  The top-level object is then unused.
\<close>

definition CBB_finish_to :: "allocator \<Rightarrow> bool \<Rightarrow> bool \<Rightarrow> cbb_ptr \<Rightarrow> cbb \<Rightarrow> (bytes option \<times> nat option) option \<times> cbb" where
  "CBB_finish_to al out_data out_len p st =
     (if p \<noteq> cbb_root st then (None, st)
      else case CBB_flush al p st of
             (False, st') \<Rightarrow> (None, st')
           | (True, st') \<Rightarrow>
               if cb_can_resize (cbb_base st') \<and> (\<not> out_data \<or> \<not> out_len) then (None, st')
               else (Some (if out_data then Some (cb_buf (cbb_base st')) else None, if out_len then Some (cb_len (cbb_base st')) else None),
                     st'\<lparr>cbb_base := (cbb_base st')\<lparr>cb_buf := []\<rparr>\<rparr>))"

text \<open>The callers that are modelled take both.\<close>

definition CBB_finish :: "allocator \<Rightarrow> cbb_ptr \<Rightarrow> cbb \<Rightarrow> (bytes \<times> nat) option \<times> cbb" where
  "CBB_finish al p st =
     (case CBB_finish_to al True True p st of
        (Some (Some data, Some len), st') \<Rightarrow> (Some (data, len), st')
      | (_, st') \<Rightarrow> (None, st'))"

lemma CBB_finish_eq:
  "CBB_finish al p st =
     (if p \<noteq> cbb_root st then (None, st)
      else case CBB_flush al p st of
             (False, st') \<Rightarrow> (None, st')
           | (True, st') \<Rightarrow> (Some (cb_buf (cbb_base st'), cb_len (cbb_base st')), st'\<lparr>cbb_base := (cbb_base st')\<lparr>cb_buf := []\<rparr>\<rparr>))"
  by (simp add: CBB_finish_def CBB_finish_to_def split: prod.split bool.split)

definition CBB_data_offset :: "cbb_ptr \<Rightarrow> cbb \<Rightarrow> nat" where
  "CBB_data_offset p st =
     (case cbb_locate p st of
        Some (outer, _) \<Rightarrow> (if outer = [] then 0
           else cc_offset (snd (last outer)) + cc_pending_len_len (snd (last outer)))
      | None \<Rightarrow> 0)"

definition CBB_len :: "cbb_ptr \<Rightarrow> cbb \<Rightarrow> nat" where
  "CBB_len p st = cb_len (cbb_base st) - CBB_data_offset p st"

text \<open>The bytes that \<open>CBB_data\<close> points to, as many as \<open>CBB_len\<close>.\<close>

definition CBB_data :: "cbb_ptr \<Rightarrow> cbb \<Rightarrow> bytes" where
  "CBB_data p st = take (CBB_len p st) (drop (CBB_data_offset p st) (cb_buf (cbb_base st)))"

section \<open>Adding\<close>

text \<open>\<open>if (!m || !n) return 0\<close>.\<close>

definition cbb_and :: "(cbb \<Rightarrow> bool \<times> cbb) \<Rightarrow> (cbb \<Rightarrow> bool \<times> cbb) \<Rightarrow> cbb \<Rightarrow> bool \<times> cbb" where
  "cbb_and m n st = (case m st of (False, st') \<Rightarrow> (False, st') | (True, st') \<Rightarrow> n st')"

text \<open>\<open>if (!m) { cbb_on_error(cbb); return 0; } return 1\<close>.\<close>

definition cbb_or_error :: "cbb_ptr \<Rightarrow> (cbb \<Rightarrow> bool \<times> cbb) \<Rightarrow> cbb \<Rightarrow> bool \<times> cbb" where
  "cbb_or_error p m st = (case m st of (False, st') \<Rightarrow> (False, cbb_on_error p st') | (True, st') \<Rightarrow> (True, st'))"

definition cbb_add_child :: "allocator \<Rightarrow> cbb_ptr \<Rightarrow> cbb_ptr \<Rightarrow> nat \<Rightarrow> bool \<Rightarrow> cbb \<Rightarrow> bool \<times> cbb" where
  "cbb_add_child al p out_child len_len is_asn1 st =
     (let off = cb_len (cbb_base st)
      in case cbb_buffer_add al len_len (cbb_base st) of
           (None, b) \<Rightarrow> (False, st\<lparr>cbb_base := b\<rparr>)
         | (Some out, b) \<Rightarrow>
             (True, st\<lparr>cbb_base := b\<lparr>cb_buf := buf_write out (replicate len_len 0) (cb_buf b)\<rparr>,
                cbb_chain := cbb_chain st @ [(out_child, \<lparr>cc_offset = off, cc_pending_len_len = len_len,
                                                          cc_pending_is_asn1 = is_asn1\<rparr>)]\<rparr>))"

definition cbb_add_length_prefixed :: "allocator \<Rightarrow> cbb_ptr \<Rightarrow> cbb_ptr \<Rightarrow> nat \<Rightarrow> cbb \<Rightarrow> bool \<times> cbb" where
  "cbb_add_length_prefixed al p out_contents len_len =
     cbb_and (CBB_flush al p) (cbb_add_child al p out_contents len_len False)"

definition CBB_add_u8_length_prefixed :: "allocator \<Rightarrow> cbb_ptr \<Rightarrow> cbb_ptr \<Rightarrow> cbb \<Rightarrow> bool \<times> cbb" where
  "CBB_add_u8_length_prefixed al p out_contents = cbb_add_length_prefixed al p out_contents 1"

definition CBB_add_u16_length_prefixed :: "allocator \<Rightarrow> cbb_ptr \<Rightarrow> cbb_ptr \<Rightarrow> cbb \<Rightarrow> bool \<times> cbb" where
  "CBB_add_u16_length_prefixed al p out_contents = cbb_add_length_prefixed al p out_contents 2"

definition CBB_add_u24_length_prefixed :: "allocator \<Rightarrow> cbb_ptr \<Rightarrow> cbb_ptr \<Rightarrow> cbb \<Rightarrow> bool \<times> cbb" where
  "CBB_add_u24_length_prefixed al p out_contents = cbb_add_length_prefixed al p out_contents 3"

text \<open>The result is the offset of the space, the pointer \<open>out_data\<close>.\<close>

definition CBB_add_space :: "allocator \<Rightarrow> cbb_ptr \<Rightarrow> nat \<Rightarrow> cbb \<Rightarrow> nat option \<times> cbb" where
  "CBB_add_space al p len st =
     (case CBB_flush al p st of (False, st') \<Rightarrow> (None, st')
      | (True, st') \<Rightarrow>
          (case cbb_buffer_add al len (cbb_base st') of (out, b) \<Rightarrow> (out, st'\<lparr>cbb_base := b\<rparr>)))"

definition CBB_reserve :: "allocator \<Rightarrow> cbb_ptr \<Rightarrow> nat \<Rightarrow> cbb \<Rightarrow> nat option \<times> cbb" where
  "CBB_reserve al p len st =
     (case CBB_flush al p st of (False, st') \<Rightarrow> (None, st')
      | (True, st') \<Rightarrow>
          (case cbb_buffer_reserve al len (cbb_base st') of (out, b) \<Rightarrow> (out, st'\<lparr>cbb_base := b\<rparr>)))"

definition cbb_write :: "nat \<Rightarrow> bytes \<Rightarrow> cbb \<Rightarrow> cbb" where
  "cbb_write out bs st = st\<lparr>cbb_base := (cbb_base st)\<lparr>cb_buf := buf_write out bs (cb_buf (cbb_base st))\<rparr>\<rparr>"

definition CBB_add_bytes :: "allocator \<Rightarrow> cbb_ptr \<Rightarrow> bytes \<Rightarrow> cbb \<Rightarrow> bool \<times> cbb" where
  "CBB_add_bytes al p data st =
     (case CBB_add_space al p (length data) st of
        (None, st') \<Rightarrow> (False, st') | (Some out, st') \<Rightarrow> (True, cbb_write out data st'))"

definition CBB_add_zeros :: "allocator \<Rightarrow> cbb_ptr \<Rightarrow> nat \<Rightarrow> cbb \<Rightarrow> bool \<times> cbb" where
  "CBB_add_zeros al p len st =
     (case CBB_add_space al p len st of
        (None, st') \<Rightarrow> (False, st') | (Some out, st') \<Rightarrow> (True, cbb_write out (replicate len 0) st'))"

definition CBB_did_write :: "cbb_ptr \<Rightarrow> nat \<Rightarrow> cbb \<Rightarrow> bool \<times> cbb" where
  "CBB_did_write p len st =
     (case cbb_locate p st of None \<Rightarrow> (False, st)
      | Some (outer, inner) \<Rightarrow>
          let b = cbb_base st; newlen = size_add (cb_len b) len
          in if inner \<noteq> [] \<or> newlen < cb_len b \<or> cb_cap b < newlen then (False, st)
             else (True, st\<lparr>cbb_base := b\<lparr>cb_len := newlen\<rparr>\<rparr>))"

definition cbb_add_u :: "allocator \<Rightarrow> cbb_ptr \<Rightarrow> u64 \<Rightarrow> nat \<Rightarrow> cbb \<Rightarrow> bool \<times> cbb" where
  "cbb_add_u al p v len_len st =
     (case CBB_add_space al p len_len st of
        (None, st') \<Rightarrow> (False, st')
      | (Some out, st') \<Rightarrow>
          (case put_be len_len out (unat v) (cb_buf (cbb_base st')) of
             (buf, rest) \<Rightarrow>
               let st'' = st'\<lparr>cbb_base := (cbb_base st')\<lparr>cb_buf := buf\<rparr>\<rparr>
               in if rest \<noteq> 0 then (False, cbb_on_error p st'') else (True, st'')))"

definition CBB_add_u8 :: "allocator \<Rightarrow> cbb_ptr \<Rightarrow> u8 \<Rightarrow> cbb \<Rightarrow> bool \<times> cbb" where
  "CBB_add_u8 al p v = cbb_add_u al p (ucast v) 1"

definition CBB_add_u16 :: "allocator \<Rightarrow> cbb_ptr \<Rightarrow> u16 \<Rightarrow> cbb \<Rightarrow> bool \<times> cbb" where
  "CBB_add_u16 al p v = cbb_add_u al p (ucast v) 2"

definition CBB_add_u16le :: "allocator \<Rightarrow> cbb_ptr \<Rightarrow> u16 \<Rightarrow> cbb \<Rightarrow> bool \<times> cbb" where
  "CBB_add_u16le al p v = CBB_add_u16 al p (CRYPTO_bswap2 v)"

definition CBB_add_u24 :: "allocator \<Rightarrow> cbb_ptr \<Rightarrow> u32 \<Rightarrow> cbb \<Rightarrow> bool \<times> cbb" where
  "CBB_add_u24 al p v = cbb_add_u al p (ucast v) 3"

definition CBB_add_u32 :: "allocator \<Rightarrow> cbb_ptr \<Rightarrow> u32 \<Rightarrow> cbb \<Rightarrow> bool \<times> cbb" where
  "CBB_add_u32 al p v = cbb_add_u al p (ucast v) 4"

definition CBB_add_u32le :: "allocator \<Rightarrow> cbb_ptr \<Rightarrow> u32 \<Rightarrow> cbb \<Rightarrow> bool \<times> cbb" where
  "CBB_add_u32le al p v = CBB_add_u32 al p (CRYPTO_bswap4 v)"

definition CBB_add_u64 :: "allocator \<Rightarrow> cbb_ptr \<Rightarrow> u64 \<Rightarrow> cbb \<Rightarrow> bool \<times> cbb" where
  "CBB_add_u64 al p v = cbb_add_u al p v 8"

definition CBB_add_u64le :: "allocator \<Rightarrow> cbb_ptr \<Rightarrow> u64 \<Rightarrow> cbb \<Rightarrow> bool \<times> cbb" where
  "CBB_add_u64le al p v = CBB_add_u64 al p (CRYPTO_bswap8 v)"

definition CBB_discard_child :: "cbb_ptr \<Rightarrow> cbb \<Rightarrow> cbb" where
  "CBB_discard_child p st =
     (case cbb_locate p st of
        Some (outer, (_, child) # _) \<Rightarrow>
          st\<lparr>cbb_base := (cbb_base st)\<lparr>cb_len := cc_offset child\<rparr>, cbb_chain := outer\<rparr>
      | _ \<Rightarrow> st)"

section \<open>ASN.1\<close>

fun base128_len :: "nat \<Rightarrow> nat" where
  "base128_len copy = (if 0 < copy then Suc (base128_len (copy div 128)) else 0)"

declare base128_len.simps [simp del]

fun add_base128_loop :: "allocator \<Rightarrow> cbb_ptr \<Rightarrow> u64 \<Rightarrow> nat \<Rightarrow> cbb \<Rightarrow> bool \<times> cbb" where
  "add_base128_loop al p v 0 st = (True, st)"
| "add_base128_loop al p v (Suc i) st =
     (let byte0 = ucast (drop_bit (7 * i) v) AND 0x7f;
          byte = (if i \<noteq> 0 then byte0 OR 0x80 else byte0)
      in cbb_and (CBB_add_u8 al p byte) (add_base128_loop al p v i) st)"

definition add_base128_integer :: "allocator \<Rightarrow> cbb_ptr \<Rightarrow> u64 \<Rightarrow> cbb \<Rightarrow> bool \<times> cbb" where
  "add_base128_integer al p v =
     (let len_len0 = base128_len (unat v); len_len = (if len_len0 = 0 then 1 else len_len0)
      in add_base128_loop al p v len_len)"

definition CBB_add_asn1 :: "allocator \<Rightarrow> cbb_ptr \<Rightarrow> cbb_ptr \<Rightarrow> u32 \<Rightarrow> cbb \<Rightarrow> bool \<times> cbb" where
  "CBB_add_asn1 al p out_contents tag =
     cbb_and (CBB_flush al p)
       (let tag_bits = ucast (drop_bit CBS_ASN1_TAG_SHIFT tag) AND 0xe0;
            tag_number = tag AND CBS_ASN1_TAG_NUMBER_MASK
        in cbb_and
             (if 0x1f \<le> tag_number
              then cbb_and (CBB_add_u8 al p (tag_bits OR 0x1f)) (add_base128_integer al p (ucast tag_number))
              else CBB_add_u8 al p (tag_bits OR ucast tag_number))
             (cbb_add_child al p out_contents 1 True))"

text \<open>The address of a \<open>CBB\<close> in a stack frame: one that no live object has.\<close>

definition cbb_local :: "cbb \<Rightarrow> cbb_ptr" where
  "cbb_local st = Suc (foldr max (map fst (cbb_chain st)) (cbb_root st))"

fun asn1_uint64_bytes_loop :: "allocator \<Rightarrow> cbb_ptr \<Rightarrow> u64 \<Rightarrow> nat \<Rightarrow> bool \<Rightarrow> cbb \<Rightarrow> bool \<times> cbb" where
  "asn1_uint64_bytes_loop al child v 0 started st =
     (if \<not> started then CBB_add_u8 al child 0 st else (True, st))"
| "asn1_uint64_bytes_loop al child v (Suc k) started st =
     (let byte = ucast (drop_bit (8 * k) v) AND 0xff
      in if \<not> started \<and> byte = 0 then asn1_uint64_bytes_loop al child v k started st
         else cbb_and (if \<not> started \<and> byte AND 0x80 \<noteq> 0 then CBB_add_u8 al child 0 else Pair True)
                (cbb_and (CBB_add_u8 al child byte) (asn1_uint64_bytes_loop al child v k True)) st)"

definition CBB_add_asn1_uint64_with_tag :: "allocator \<Rightarrow> cbb_ptr \<Rightarrow> u64 \<Rightarrow> u32 \<Rightarrow> cbb \<Rightarrow> bool \<times> cbb" where
  "CBB_add_asn1_uint64_with_tag al p v tag st =
     (let child = cbb_local st
      in case cbb_or_error p (cbb_and (CBB_add_asn1 al p child tag) (asn1_uint64_bytes_loop al child v 8 False)) st of
           (False, st') \<Rightarrow> (False, st')
         | (True, st') \<Rightarrow> CBB_flush al p st')"

definition CBB_add_asn1_uint64 :: "allocator \<Rightarrow> cbb_ptr \<Rightarrow> u64 \<Rightarrow> cbb \<Rightarrow> bool \<times> cbb" where
  "CBB_add_asn1_uint64 al p v = CBB_add_asn1_uint64_with_tag al p v CBS_ASN1_INTEGER"

fun skip_sign_bytes :: "bytes \<Rightarrow> nat \<Rightarrow> nat" where
  "skip_sign_bytes bs 0 = 0"
| "skip_sign_bytes bs (Suc start) =
     (if bs ! Suc start = 0xff \<and> (bs ! start) AND 0x80 \<noteq> 0 then skip_sign_bytes bs start else Suc start)"

text \<open>\<open>for (int i = start; i >= 0; i--)\<close>, with \<open>n = i + 1\<close>.\<close>

fun asn1_int64_bytes_loop :: "allocator \<Rightarrow> cbb_ptr \<Rightarrow> bytes \<Rightarrow> nat \<Rightarrow> cbb \<Rightarrow> bool \<times> cbb" where
  "asn1_int64_bytes_loop al child bs 0 st = (True, st)"
| "asn1_int64_bytes_loop al child bs (Suc i) st =
     cbb_and (CBB_add_u8 al child (bs ! i)) (asn1_int64_bytes_loop al child bs i) st"

text \<open>\<open>value\<close> is an \<open>int64_t\<close>; \<open>memcpy\<close> gives its bytes in the order of the (little-endian) target.\<close>

definition CBB_add_asn1_int64_with_tag :: "allocator \<Rightarrow> cbb_ptr \<Rightarrow> u64 \<Rightarrow> u32 \<Rightarrow> cbb \<Rightarrow> bool \<times> cbb" where
  "CBB_add_asn1_int64_with_tag al p v tag st =
     (if 0 \<le> sint v then CBB_add_asn1_uint64_with_tag al p v tag st
      else let bs = le_bytes 8 (unat v); start = skip_sign_bytes bs 7; child = cbb_local st
           in case cbb_or_error p (cbb_and (CBB_add_asn1 al p child tag)
                    (asn1_int64_bytes_loop al child bs (Suc start))) st of
                (False, st') \<Rightarrow> (False, st')
              | (True, st') \<Rightarrow> CBB_flush al p st')"

definition CBB_add_asn1_int64 :: "allocator \<Rightarrow> cbb_ptr \<Rightarrow> u64 \<Rightarrow> cbb \<Rightarrow> bool \<times> cbb" where
  "CBB_add_asn1_int64 al p v = CBB_add_asn1_int64_with_tag al p v CBS_ASN1_INTEGER"

definition CBB_add_asn1_octet_string :: "allocator \<Rightarrow> cbb_ptr \<Rightarrow> bytes \<Rightarrow> cbb \<Rightarrow> bool \<times> cbb" where
  "CBB_add_asn1_octet_string al p data st =
     (let child = cbb_local st
      in cbb_or_error p (cbb_and (CBB_add_asn1 al p child CBS_ASN1_OCTETSTRING)
           (cbb_and (CBB_add_bytes al child data) (CBB_flush al p))) st)"

definition CBB_add_asn1_bool :: "allocator \<Rightarrow> cbb_ptr \<Rightarrow> bool \<Rightarrow> cbb \<Rightarrow> bool \<times> cbb" where
  "CBB_add_asn1_bool al p v st =
     (let child = cbb_local st
      in cbb_or_error p (cbb_and (CBB_add_asn1 al p child CBS_ASN1_BOOLEAN)
           (cbb_and (CBB_add_u8 al child (if v then 0xff else 0)) (CBB_flush al p))) st)"

definition parse_dotted_decimal :: "u64 reader" where
  "parse_dotted_decimal =
     rbind CBS_get_u64_decimal (\<lambda>v cbs.
       case CBS_get_u8 cbs of
         (None, cbs') \<Rightarrow> (Some v, cbs')
       | (Some dot, cbs') \<Rightarrow> (if dot = 0x2e \<and> 0 < length cbs' then (Some v, cbs') else (None, cbs')))"

text \<open>
  The loop over the remaining components; the fuel is the length of the text, which is enough as
  every component takes a byte (\<open>oid_text_loop_fuel\<close>).
\<close>

fun oid_text_loop :: "nat \<Rightarrow> allocator \<Rightarrow> cbb_ptr \<Rightarrow> bytes \<Rightarrow> cbb \<Rightarrow> bool \<times> cbb" where
  "oid_text_loop fuel al p [] st = (True, st)"
| "oid_text_loop 0 al p (c # cbs) st = (False, st)"
| "oid_text_loop (Suc fuel) al p (c # cbs) st =
     (case parse_dotted_decimal (c # cbs) of
        (None, _) \<Rightarrow> (False, st)
      | (Some a, cbs') \<Rightarrow> cbb_and (add_base128_integer al p a) (oid_text_loop fuel al p cbs') st)"

definition CBB_add_asn1_oid_from_text :: "allocator \<Rightarrow> cbb_ptr \<Rightarrow> bytes \<Rightarrow> cbb \<Rightarrow> bool \<times> cbb" where
  "CBB_add_asn1_oid_from_text al p text =
     cbb_and (CBB_flush al p) (\<lambda>st.
       case parse_dotted_decimal text of (None, _) \<Rightarrow> (False, st)
       | (Some a, cbs) \<Rightarrow>
       (case parse_dotted_decimal cbs of (None, _) \<Rightarrow> (False, st)
       | (Some b, cbs) \<Rightarrow>
           if 2 < a \<or> (a < 2 \<and> 39 < b) \<or> - 1 - 80 < b then (False, st)
           else cbb_and (add_base128_integer al p (40 * a + b)) (oid_text_loop (length cbs) al p cbs) st))"

definition compare_set_of_element :: "bytes \<Rightarrow> bytes \<Rightarrow> int" where
  "compare_set_of_element a b =
     (let a_len = length a; b_len = length b;
          min_len = (if a_len < b_len then a_len else b_len);
          ret = OPENSSL_memcmp a b min_len
      in if ret \<noteq> 0 then ret else if a_len = b_len then 0 else if a_len < b_len then - 1 else 1)"

text \<open>\<open>sizeof(CBS)\<close>, a pointer and a length.\<close>

definition sizeof_CBS :: nat where
  "sizeof_CBS = 16"

definition CBB_flush_asn1_set_of :: "allocator \<Rightarrow> cbb_ptr \<Rightarrow> cbb \<Rightarrow> bool \<times> cbb" where
  "CBB_flush_asn1_set_of al p =
     cbb_and (CBB_flush al p) (\<lambda>st.
       case read_all CBS_get_any_asn1_element (CBB_data p st) of None \<Rightarrow> (False, st)
       | Some children \<Rightarrow>
           if length children < 2 then (True, st)
           else if OPENSSL_memdup al (CBB_data p st) (CBB_len p st) = None
                \<or> OPENSSL_calloc al (length children) sizeof_CBS = None then (False, st)
           else (True, cbb_write (CBB_data_offset p st)
                   (concat (qsort compare_set_of_element (map el_bytes children))) st))"

section \<open>asn1_compat.c\<close>

text \<open>
  \<open>*outp\<close> is none for a null pointer, or the caller's memory from \<open>*outp\<close> on; the result is the
  length and what \<open>*outp\<close> points to (a new buffer) or the memory written.  None is \<open>-1\<close>.
\<close>

definition CBB_finish_i2d :: "allocator \<Rightarrow> cbb_ptr \<Rightarrow> bytes option option \<Rightarrow> cbb \<Rightarrow> (nat \<times> bytes option) option \<times> cbb" where
  "CBB_finish_i2d al p outp st =
     (case CBB_finish al p st of (None, st') \<Rightarrow> (None, st')
      | (Some (der, der_len), st') \<Rightarrow>
          if INT_MAX < der_len then (None, st')
          else (case outp of
                  None \<Rightarrow> (Some (der_len, None), st')
                | Some None \<Rightarrow> (Some (der_len, Some der), st')
                | Some (Some out) \<Rightarrow> (Some (der_len, Some (buf_write 0 (take der_len der) out)), st')))"

end
