(* ===== verification/CbbSpec.thy ===== *)
theory CbbSpec imports Cbb CbsAsn1 begin

text \<open>
  What the byte-string builder promises.  The specification knows only the bytes written and the
  chain of pending children: flushing replaces the space of each pending prefix by the prefix
  (\<open>flushed\<close>), every operation that adds appends its encoding behind what flushing made of the
  bytes before (\<open>appends\<close>), and a child that is opened, filled and flushed leaves its header, the
  length and its contents (\<open>nested_appends\<close>).  The buffer's growth, the in-place writes and the
  moves of the code are shown to refine this.
\<close>


section \<open>The bytes written\<close>

definition written :: "cbb_buffer \<Rightarrow> bytes" where
  "written b = take (cb_len b) (cb_buf b)"

definition buf_ok :: "cbb_buffer \<Rightarrow> bool" where
  "buf_ok b \<longleftrightarrow> cb_len b \<le> cb_cap b \<and> cb_cap b < 2 ^ 64"

lemma length_written [simp]: "buf_ok b \<Longrightarrow> length (written b) = cb_len b"
  by (simp add: written_def buf_ok_def)

lemma cbb_buffer_error_simps [simp]:
  "cb_buf (cbb_buffer_error b) = cb_buf b" "cb_len (cbb_buffer_error b) = cb_len b"
  "cb_error (cbb_buffer_error b)" "cb_can_resize (cbb_buffer_error b) = cb_can_resize b"
  "buf_ok (cbb_buffer_error b) = buf_ok b" "written (cbb_buffer_error b) = written b"
  by (simp_all add: cbb_buffer_error_def buf_ok_def written_def)

lemma length_buf_write: "off + length bs \<le> length buf \<Longrightarrow> length (buf_write off bs buf) = length buf"
  by (simp add: buf_write_def)

lemma take_buf_write: "n \<le> off \<Longrightarrow> off \<le> length buf \<Longrightarrow> take n (buf_write off bs buf) = take n buf"
  by (simp add: buf_write_def min_def)

lemma take_buf_write_end:
  "off \<le> length buf \<Longrightarrow> n = off + length bs \<Longrightarrow> take n (buf_write off bs buf) = take off buf @ bs"
  by (simp add: buf_write_def min_def)

lemma cbb_buffer_reserve_Some:
  assumes "cbb_buffer_reserve al len b = (Some off, b')" "buf_ok b" "len < 2 ^ 64"
  shows "off = cb_len b \<and> buf_ok b' \<and> cb_len b' = cb_len b \<and> written b' = written b
    \<and> cb_len b + len \<le> cb_cap b' \<and> cb_error b' = cb_error b \<and> cb_can_resize b' = cb_can_resize b"
proof -
  have ov: "\<not> size_add (cb_len b) len < cb_len b"
    using assms(1) by (auto simp: cbb_buffer_reserve_def Let_def split: if_splits)
  then have nl: "size_add (cb_len b) len = cb_len b + len"
    using assms(2,3) size_add_wraps [of "cb_len b" len] by (simp add: buf_ok_def size_simps)
  show ?thesis
  proof (cases "cb_cap b < cb_len b + len")
    case False
    with assms ov show ?thesis by (auto simp: cbb_buffer_reserve_def Let_def nl)
  next
    case True
    define newcap where "newcap = (if size_mul (cb_cap b) 2 < cb_cap b \<or> size_mul (cb_cap b) 2 < cb_len b + len
       then cb_len b + len else size_mul (cb_cap b) 2)"
    have cap: "cb_len b + len \<le> newcap" "newcap < 2 ^ 64"
      using nl by (auto simp: newcap_def size_mul_def size_add_def)
    from assms(1) ov True obtain newbuf where nb: "OPENSSL_realloc al (Some (cb_buf b)) newcap = Some newbuf"
      and b': "off = cb_len b" "b' = b\<lparr>cb_buf := newbuf\<rparr>"
      by (auto simp: cbb_buffer_reserve_def Let_def nl newcap_def split: if_splits option.splits)
    from nb have "length newbuf = newcap" by (rule OPENSSL_realloc_length)
    moreover have "take (cb_len b) newbuf = take (cb_len b) (cb_buf b)"
      by (rule OPENSSL_realloc_keeps [OF nb]) (use assms(2) cap in \<open>auto simp: buf_ok_def\<close>)
    ultimately show ?thesis using b' cap by (simp add: buf_ok_def written_def)
  qed
qed

lemma cbb_buffer_reserve_None:
  "cbb_buffer_reserve al len b = (None, b') \<Longrightarrow> b' = cbb_buffer_error b"
  by (auto simp: cbb_buffer_reserve_def Let_def split: if_splits option.splits)

lemma cbb_buffer_add_Some:
  assumes "cbb_buffer_add al len b = (Some off, b')" "buf_ok b" "len < 2 ^ 64"
  shows "off = cb_len b \<and> buf_ok b' \<and> cb_len b' = cb_len b + len \<and> take (cb_len b) (cb_buf b') = written b
    \<and> cb_error b' = cb_error b \<and> cb_can_resize b' = cb_can_resize b"
proof -
  from assms(1) obtain b1 where r: "cbb_buffer_reserve al len b = (Some off, b1)"
    and b': "b' = b1\<lparr>cb_len := cb_len b1 + len\<rparr>"
    by (auto simp: cbb_buffer_add_def split: prod.splits option.splits)
  from cbb_buffer_reserve_Some [OF r assms(2,3)] show ?thesis
    by (auto simp: b' buf_ok_def written_def)
qed

lemma cbb_buffer_add_None: "cbb_buffer_add al len b = (None, b') \<Longrightarrow> b' = cbb_buffer_error b"
  by (auto simp: cbb_buffer_add_def dest: cbb_buffer_reserve_None split: prod.splits option.splits)

lemma put_be_eq:
  "off + n \<le> length buf \<Longrightarrow> put_be n off v buf = (buf_write off (be_bytes n v) buf, v div 256 ^ n)"
proof (induction n arbitrary: v buf)
  case 0
  then show ?case by (simp add: buf_write_def)
next
  case (Suc n)
  define x :: u8 where "x = word_of_nat (v mod 256)"
  have "take off (buf[off + n := x]) = take off buf" by simp
  moreover have "drop (off + n) (buf[off + n := x]) = x # drop (off + Suc n) buf"
    using Suc.prems by (subst drop_update_swap) (simp_all add: Cons_nth_drop_Suc [symmetric])
  ultimately have "buf_write off (be_bytes n (v div 256)) (buf[off + n := x]) = buf_write off (be_bytes (Suc n) v) buf"
    by (simp add: buf_write_def x_def)
  then show ?case using Suc by (simp add: x_def div_mult2_eq)
qed

section \<open>Length prefixes\<close>

definition prefix_bytes :: "cbb_child \<Rightarrow> nat \<Rightarrow> bytes" where
  "prefix_bytes c n = (if cc_pending_is_asn1 c then length_bytes n else be_bytes (cc_pending_len_len c) n)"

definition prefix_fits :: "cbb_child \<Rightarrow> nat \<Rightarrow> bool" where
  "prefix_fits c n \<longleftrightarrow> (if cc_pending_is_asn1 c then n \<le> 0xfffffffe else n < 256 ^ cc_pending_len_len c)"

text \<open>What flushing one child makes of the bytes written.\<close>

definition closed :: "cbb_child \<Rightarrow> bytes \<Rightarrow> bytes" where
  "closed c w =
     (let body = drop (cc_offset c + cc_pending_len_len c) w
      in take (cc_offset c) w @ prefix_bytes c (length body) @ body)"

lemma asn1_len_len_Some:
  assumes "asn1_len_len n = Some (k, b)"
  shows "n \<le> 0xfffffffe \<and> 1 \<le> k \<and> k \<le> 5 \<and> b # be_bytes (k - 1) (if k = 1 then 0 else n) = length_bytes n
    \<and> (if k = 1 then 0 else n) div 256 ^ (k - 1) = 0"
proof -
  have bc: "\<And>j. 0 < j \<Longrightarrow> 256 ^ (j - 1) \<le> n \<Longrightarrow> n < 256 ^ j \<Longrightarrow> byte_count n = j" by (rule byte_count_eq)
  consider "n < 128" "k = 1" "b = word_of_nat n"
    | "128 \<le> n" "k = 2" "b = 0x81" "n < 256 ^ 1"
    | "128 \<le> n" "k = 3" "b = 0x82" "256 ^ 1 \<le> n" "n < 256 ^ 2"
    | "128 \<le> n" "k = 4" "b = 0x83" "256 ^ 2 \<le> n" "n < 256 ^ 3"
    | "128 \<le> n" "k = 5" "b = 0x84" "256 ^ 3 \<le> n" "n \<le> 0xfffffffe"
    using assms by (auto simp: asn1_len_len_def split: if_splits)
  then show ?thesis
  proof cases
    case 1
    then show ?thesis by (simp add: length_bytes_def)
  next
    case 2
    with bc [of 1] have "byte_count n = 1" by simp
    with 2 show ?thesis by (simp add: length_bytes_def)
  next
    case 3
    with bc [of 2] have "byte_count n = 2" by simp
    with 3 show ?thesis by (simp add: length_bytes_def)
  next
    case 4
    with bc [of 3] have "byte_count n = 3" by simp
    with 4 show ?thesis by (simp add: length_bytes_def)
  next
    case 5
    with bc [of 4] have "byte_count n = 4" by simp
    with 5 show ?thesis by (simp add: length_bytes_def)
  qed
qed

lemma asn1_len_len_None: "asn1_len_len n = None \<longleftrightarrow> 0xfffffffe < n"
  by (auto simp: asn1_len_len_def)

lemma cbb_put_length_eq:
  assumes "off + n \<le> cb_cap b"
  shows "cbb_put_length off n len b =
     (let b' = b\<lparr>cb_buf := buf_write off (be_bytes n len) (cb_buf b)\<rparr>
      in if len div 256 ^ n \<noteq> 0 then (False, cbb_buffer_error b') else (True, b'))"
  using assms by (simp add: cbb_put_length_def put_be_eq Let_def)

lemma cbb_close_child_fixed:
  assumes "\<not> cc_pending_is_asn1 c" "buf_ok b" "cc_offset c + cc_pending_len_len c \<le> cb_len b"
  defines "n \<equiv> cb_len b - (cc_offset c + cc_pending_len_len c)"
  shows "cbb_close_child al c (cc_offset c + cc_pending_len_len c) b = (ok, b') \<Longrightarrow>
    buf_ok b' \<and> (ok \<longleftrightarrow> prefix_fits c n) \<and> cb_can_resize b' = cb_can_resize b
    \<and> (if ok then written b' = closed c (written b) \<and> cb_error b' = cb_error b else cb_error b')"
proof -
  assume r: "cbb_close_child al c (cc_offset c + cc_pending_len_len c) b = (ok, b')"
  define o1 k where "o1 = cc_offset c" and "k = cc_pending_len_len c"
  define b1 where "b1 = b\<lparr>cb_buf := buf_write o1 (be_bytes k n) (cb_buf b)\<rparr>"
  have cap: "o1 + k \<le> cb_cap b" using assms by (simp add: o1_def k_def buf_ok_def)
  have "n div 256 ^ k \<noteq> 0 \<longleftrightarrow> \<not> n < 256 ^ k" by (simp add: div_eq_0_iff)
  then have r': "(if n < 256 ^ k then (True, b1) else (False, cbb_buffer_error b1)) = (ok, b')"
    using r assms(1) cap unfolding cbb_close_child_def o1_def [symmetric] k_def [symmetric] n_def [symmetric]
    by (simp add: Let_def cbb_put_length_eq b1_def n_def [folded o1_def k_def, symmetric] split: if_splits)
  have ok1: "buf_ok b1" using assms(2) cap by (simp add: b1_def buf_ok_def length_buf_write)
  have len: "cb_len b = (o1 + k) + n" using assms(3) by (simp add: n_def o1_def k_def)
  have "take (cb_len b) (buf_write o1 (be_bytes k n) (cb_buf b))
      = take o1 (cb_buf b) @ be_bytes k n @ take n (drop (o1 + k) (cb_buf b))"
    using cap by (simp add: buf_write_def len take_drop)
  also have "\<dots> = closed c (written b)"
  proof -
    have "drop (o1 + k) (written b) = take n (drop (o1 + k) (cb_buf b))" "take o1 (written b) = take o1 (cb_buf b)"
      "length (take n (drop (o1 + k) (cb_buf b))) = n"
      using assms(2) by (auto simp: written_def len drop_take min_def buf_ok_def)
    then show ?thesis using assms(1)
      by (simp only: closed_def Let_def prefix_bytes_def o1_def [symmetric] k_def [symmetric] if_False)
  qed
  finally have "written b1 = closed c (written b)" by (simp add: b1_def written_def)
  with r' ok1 show ?thesis
    using assms(1) by (auto simp: prefix_fits_def k_def b1_def split: if_splits)
qed

lemma closed_asn1:
  assumes "cc_pending_is_asn1 c" "cc_pending_len_len c = 1" "length w = cc_offset c + 1 + n"
  shows "closed c w = take (cc_offset c) w @ length_bytes n @ drop (cc_offset c + 1) w"
  using assms by (simp add: closed_def Let_def prefix_bytes_def)

lemma write_behind:
  "off + 1 + length v \<le> length buf \<Longrightarrow>
     buf_write (off + 1) v (buf[off := x]) = take off buf @ (x # v) @ drop (off + 1 + length v) buf"
proof -
  assume l: "off + 1 + length v \<le> length buf"
  have "take (off + 1) (buf[off := x]) = take off buf @ [x]"
    using l by (simp add: take_Suc_conv_app_nth)
  then show ?thesis by (simp add: buf_write_def)
qed

lemma cbb_close_child_asn1:
  assumes c: "cc_pending_is_asn1 c" "cc_pending_len_len c = 1" and b: "buf_ok b" "cc_offset c + 1 \<le> cb_len b"
    "\<not> cb_error b"
  defines "n \<equiv> cb_len b - (cc_offset c + 1)"
  assumes r: "cbb_close_child al c (cc_offset c + 1) b = (ok, b')"
  shows "buf_ok b' \<and> cb_can_resize b' = cb_can_resize b
    \<and> (if ok then prefix_fits c n \<and> written b' = closed c (written b) \<and> \<not> cb_error b' else cb_error b')"
proof (cases "asn1_len_len n")
  case None
  with r c b show ?thesis by (auto simp: cbb_close_child_def n_def)
next
  case (Some kl)
  then obtain k ib where k: "asn1_len_len n = Some (k, ib)" by (cases kl) auto
  note pre = asn1_len_len_Some [OF k]
  define o1 where "o1 = cc_offset c"
  have len: "cb_len b = o1 + 1 + n" using b by (simp add: n_def o1_def)
  have n_o1: "n = cb_len b - (o1 + 1)" by (simp add: n_def o1_def)
  define m where "m = (if k \<noteq> 1 then (case cbb_buffer_add al (k - 1) b of
       (None, b1) \<Rightarrow> (None, b1)
     | (Some _, b1) \<Rightarrow> (Some (), b1\<lparr>cb_buf := buf_write (o1 + 1 + (k - 1)) (take n (drop (o1 + 1) (cb_buf b1))) (cb_buf b1)\<rparr>))
     else (Some (), b))"
  have r': "(case m of (None, b1) \<Rightarrow> (False, cbb_buffer_error b1)
    | (Some _, b1) \<Rightarrow> cbb_put_length (o1 + 1) (k - 1) (if k = 1 then 0 else n) (b1\<lparr>cb_buf := (cb_buf b1)[o1 := ib]\<rparr>)) = (ok, b')"
    using r c(1) k by (simp only: cbb_close_child_def Let_def n_o1 option.case prod.case
        o1_def [symmetric] m_def if_True)
  show ?thesis
  proof (cases m)
    case (Pair om b1)
    show ?thesis
    proof (cases om)
      case None
      with Pair b(1) have "b1 = cbb_buffer_error b"
        by (auto simp: m_def dest!: cbb_buffer_add_None split: if_splits prod.splits option.splits)
      with r' Pair None b(1) show ?thesis by auto
    next
      case (Some u)
      define x where "x = drop (o1 + 1) (written b)"
      have x: "length x = n" using b(1) by (simp add: x_def len)
      have m1: "buf_ok b1 \<and> cb_len b1 = o1 + k + n \<and> cb_error b1 = cb_error b \<and> cb_can_resize b1 = cb_can_resize b
        \<and> take o1 (cb_buf b1) = take o1 (written b) \<and> take n (drop (o1 + k) (cb_buf b1)) = x"
      proof (cases "k = 1")
        case True
        with Pair Some have "b1 = b" by (simp add: m_def)
        with True b(1) len show ?thesis by (simp add: x_def written_def drop_take)
      next
        case False
        with Pair Some obtain off b2 where a: "cbb_buffer_add al (k - 1) b = (Some off, b2)"
          and b1: "b1 = b2\<lparr>cb_buf := buf_write (o1 + 1 + (k - 1)) (take n (drop (o1 + 1) (cb_buf b2))) (cb_buf b2)\<rparr>"
          by (auto simp: m_def split: prod.splits option.splits)
        have k1: "k - 1 < 2 ^ 64" "1 \<le> k" using pre by auto
        note add = cbb_buffer_add_Some [OF a b(1) k1(1)]
        have l2: "cb_len b2 = o1 + k + n" using add len k1 by simp
        have x2: "take n (drop (o1 + 1) (cb_buf b2)) = x"
        proof -
          have "take (o1 + 1 + n) (cb_buf b2) = written b" using add len by simp
          then have "drop (o1 + 1) (take (o1 + 1 + n) (cb_buf b2)) = x" by (simp only: x_def)
          then show ?thesis by (simp add: drop_take)
        qed
        have cap: "o1 + k + n \<le> cb_cap b2" using add l2 by (simp add: buf_ok_def)
        have buf1: "cb_buf b1 = buf_write (o1 + k) x (cb_buf b2)" using b1 x2 k1 by simp
        have "take o1 (cb_buf b1) = take o1 (cb_buf b2)" unfolding buf1 by (rule take_buf_write) (use cap in auto)
        moreover have "take o1 (cb_buf b2) = take o1 (written b)"
          using add len by (metis le_add1 min.absorb1 take_take add.assoc)
        moreover have "take n (drop (o1 + k) (cb_buf b1)) = x"
          unfolding buf1 using cap x by (simp add: buf_write_def)
        moreover have "length (cb_buf b1) = length (cb_buf b2)"
          unfolding buf1 by (rule length_buf_write) (use cap x in simp)
        ultimately show ?thesis using add l2 b1 by (simp add: buf_ok_def)
      qed
      define b3 where "b3 = b1\<lparr>cb_buf := (cb_buf b1)[o1 := ib]\<rparr>"
      have cap1: "o1 + k + n \<le> cb_cap b1" using m1 by (simp add: buf_ok_def)
      have put: "cbb_put_length (o1 + 1) (k - 1) (if k = 1 then 0 else n) b3
          = (True, b3\<lparr>cb_buf := buf_write (o1 + 1) (be_bytes (k - 1) (if k = 1 then 0 else n)) (cb_buf b3)\<rparr>)"
        using pre cap1 by (subst cbb_put_length_eq) (auto simp: b3_def Let_def)
      with r' Pair Some have ok: "ok"
        and b': "b' = b3\<lparr>cb_buf := buf_write (o1 + 1) (be_bytes (k - 1) (if k = 1 then 0 else n)) (cb_buf b3)\<rparr>"
        by (simp_all add: b3_def)
      define v where "v = be_bytes (k - 1) (if k = 1 then 0 else n)"
      have v: "o1 + 1 + length v = o1 + k" using pre by (simp add: v_def)
      have "cb_buf b' = buf_write (o1 + 1) v ((cb_buf b1)[o1 := ib])" by (simp add: b' b3_def v_def)
      also have "\<dots> = take o1 (cb_buf b1) @ (ib # v) @ drop (o1 + 1 + length v) (cb_buf b1)"
        by (rule write_behind) (use cap1 v in simp)
      finally have "cb_buf b' = take o1 (cb_buf b1) @ (ib # v) @ drop (o1 + k) (cb_buf b1)" unfolding v .
      then have buf': "cb_buf b' = take o1 (written b) @ length_bytes n @ drop (o1 + k) (cb_buf b1)"
        using m1 pre by (simp add: v_def)
      have lenk: "length (length_bytes n) = k" using pre by (metis length_Cons length_be_bytes le_add_diff_inverse plus_1_eq_Suc)
      have wl: "length (take o1 (written b)) = o1" using b(1) len by simp
      have "written b' = take o1 (written b) @ length_bytes n @ x"
        using m1 buf' lenk wl b' by (simp add: written_def b3_def)
      also have "\<dots> = closed c (written b)"
        using closed_asn1 [OF c, of "written b" n] b(1) len by (simp add: o1_def x_def)
      finally have w: "written b' = closed c (written b)" .
      have "length (cb_buf b') = cb_cap b1" unfolding buf' using lenk wl cap1 by simp
      then have "buf_ok b'" using m1 b' by (simp add: buf_ok_def b3_def)
      then show ?thesis using w ok m1 b' b(3) pre c by (simp add: b3_def prefix_fits_def)
    qed
  qed
qed

section \<open>Flushing the chain\<close>

type_synonym cbb_chain_list = "(cbb_ptr \<times> cbb_child) list"

fun chain_ok :: "nat \<Rightarrow> nat \<Rightarrow> cbb_chain_list \<Rightarrow> bool" where
  "chain_ok len s [] = (s \<le> len)"
| "chain_ok len s ((p, c) # chain) =
     (s \<le> cc_offset c \<and> (cc_pending_is_asn1 c \<longrightarrow> cc_pending_len_len c = 1)
      \<and> chain_ok len (cc_offset c + cc_pending_len_len c) chain)"

fun flushed :: "bytes \<Rightarrow> cbb_chain_list \<Rightarrow> bytes" where
  "flushed w [] = w"
| "flushed w ((p, c) # chain) = closed c (flushed w chain)"

fun all_fit :: "bytes \<Rightarrow> cbb_chain_list \<Rightarrow> bool" where
  "all_fit w [] = True"
| "all_fit w ((p, c) # chain) =
     (all_fit w chain \<and> prefix_fits c (length (flushed w chain) - (cc_offset c + cc_pending_len_len c)))"

lemma chain_ok_le: "chain_ok len s chain \<Longrightarrow> s \<le> len"
  by (induction len s chain rule: chain_ok.induct) auto

lemma chain_ok_mono: "chain_ok len s chain \<Longrightarrow> s' \<le> s \<Longrightarrow> chain_ok len s' chain"
  by (cases "(len, s, chain)" rule: chain_ok.cases) auto

lemma take_closed: "n \<le> cc_offset c \<Longrightarrow> cc_offset c \<le> length w \<Longrightarrow> take n (closed c w) = take n w"
  by (simp add: closed_def Let_def min_def)

lemma length_closed: "cc_offset c \<le> length w \<Longrightarrow> cc_offset c \<le> length (closed c w)"
  by (simp add: closed_def Let_def)

lemma flushed_keeps:
  "chain_ok (length w) s chain \<Longrightarrow> s \<le> length (flushed w chain) \<and> take s (flushed w chain) = take s w"
proof (induction w chain arbitrary: s rule: flushed.induct)
  case (2 w p c chain)
  let ?e = "cc_offset c + cc_pending_len_len c"
  from "2.prems" have s: "s \<le> cc_offset c" by simp
  from 2 have IH: "?e \<le> length (flushed w chain)" "take ?e (flushed w chain) = take ?e w" by auto
  have "take s (take ?e (flushed w chain)) = take s (take ?e w)" by (simp only: IH(2))
  then have "take s (flushed w chain) = take s w" using s by (simp add: min_def)
  then show ?case using s IH(1) take_closed [OF s, of "flushed w chain"]
    length_closed [of c "flushed w chain"] by simp
qed simp

lemma cbb_close_child_spec:
  assumes "cbb_close_child al c e b = (ok, b')" "e = cc_offset c + cc_pending_len_len c" "buf_ok b" "e \<le> cb_len b"
    "\<not> cb_error b" "cc_pending_is_asn1 c \<longrightarrow> cc_pending_len_len c = 1"
  shows "buf_ok b' \<and> cb_can_resize b' = cb_can_resize b
    \<and> (if ok then prefix_fits c (cb_len b - e) \<and> written b' = closed c (written b) \<and> \<not> cb_error b' else cb_error b')"
proof (cases "cc_pending_is_asn1 c")
  case True
  with assms cbb_close_child_asn1 [of c b al ok b'] show ?thesis by (auto split: if_splits)
next
  case False
  with assms cbb_close_child_fixed [of c b al ok b'] show ?thesis by (auto split: if_splits)
qed

lemma cbb_flush_chain_spec:
  assumes "cbb_flush_chain al chain b = (ok, chain', b')" "buf_ok b" "\<not> cb_error b" "chain_ok (cb_len b) s chain"
  shows "chain' = [] \<and> buf_ok b' \<and> cb_can_resize b' = cb_can_resize b
    \<and> (if ok then all_fit (written b) chain \<and> written b' = flushed (written b) chain \<and> \<not> cb_error b' else cb_error b')"
  using assms
proof (induction al chain b arbitrary: s ok chain' b' rule: cbb_flush_chain.induct)
  case (2 al p c chain b)
  define e where "e = cc_offset c + cc_pending_len_len c"
  obtain ok1 ch1 b1 where r1: "cbb_flush_chain al chain b = (ok1, ch1, b1)" by (cases "cbb_flush_chain al chain b") auto
  from "2.prems" have ch: "chain_ok (cb_len b) e chain" by (simp add: e_def)
  have e64: "e < 2 ^ 64" using chain_ok_le [OF ch] "2.prems"(2) by (simp add: buf_ok_def)
  then have se: "size_add (cc_offset c) (cc_pending_len_len c) = e" by (simp add: size_add_def e_def)
  note IH = "2.IH" [OF "2.prems"(3) refl r1 "2.prems"(2,3) ch]
  have keep: "ok1 \<Longrightarrow> e \<le> cb_len b1"
    using IH flushed_keeps [of "written b" e chain] ch "2.prems"(2)
    by (metis length_written)
  have ne: "\<not> e < cc_offset c" by (simp add: e_def)
  show ?case
  proof (cases ok1)
    case False
    with "2.prems" r1 ne IH show ?thesis by (auto simp: Let_def se)
  next
    case True
    with keep have kl: "e \<le> cb_len b1" by simp
    obtain ok2 b2 where r2: "cbb_close_child al c e b1 = (ok2, b2)" by fastforce
    have "cc_pending_is_asn1 c \<longrightarrow> cc_pending_len_len c = 1" using "2.prems"(4) by simp
    with cbb_close_child_spec [OF r2 e_def _ kl] IH True
    have s2: "buf_ok b2 \<and> cb_can_resize b2 = cb_can_resize b1
    \<and> (if ok2 then prefix_fits c (cb_len b1 - e) \<and> written b2 = closed c (written b1) \<and> \<not> cb_error b2 else cb_error b2)"
      by auto
    have len1: "cb_len b1 = length (flushed (written b) chain)" using IH True by (metis length_written)
    from "2.prems"(1,3) r1 True ne kl r2 have "ok = ok2" "chain' = []" "b' = b2"
      by (auto simp: Let_def se split: if_splits bool.splits)
    with s2 IH True len1 show ?thesis by (auto simp: e_def)
  qed
qed auto

section \<open>Well-formed builders\<close>

definition cbb_wf :: "cbb \<Rightarrow> bool" where
  "cbb_wf st \<longleftrightarrow> buf_ok (cbb_base st) \<and> (\<not> cb_error (cbb_base st) \<longrightarrow> chain_ok (cb_len (cbb_base st)) 0 (cbb_chain st))
     \<and> distinct (cbb_root st # map fst (cbb_chain st))"

abbreviation cbb_failed :: "cbb \<Rightarrow> bool" where
  "cbb_failed st \<equiv> cb_error (cbb_base st)"

abbreviation cbb_written :: "cbb \<Rightarrow> bytes" where
  "cbb_written st \<equiv> written (cbb_base st)"

lemma cbb_split_chain_append: "cbb_split_chain p chain = Some (a, b) \<Longrightarrow> chain = a @ b \<and> a \<noteq> [] \<and> fst (last a) = p"
  by (induction chain arbitrary: a) (auto split: if_splits)

lemma cbb_locate_append: "cbb_locate p st = Some (a, b) \<Longrightarrow> cbb_chain st = a @ b"
  by (auto simp: cbb_locate_def dest: cbb_split_chain_append split: if_splits)

lemma chain_ok_append:
  "chain_ok len s (a @ b) \<longleftrightarrow>
     (if a = [] then chain_ok len s b
      else chain_ok (cc_offset (snd (last a)) + cc_pending_len_len (snd (last a))) s a
        \<and> chain_ok len (cc_offset (snd (last a)) + cc_pending_len_len (snd (last a))) b)"
proof (induction len s a rule: chain_ok.induct)
  case (2 len s p c chain)
  then show ?case by (cases "chain = []") auto
qed simp

lemma chain_ok_shrink: "chain_ok len s chain \<Longrightarrow> len \<le> len' \<Longrightarrow> chain_ok len' s chain"
  by (induction len s chain rule: chain_ok.induct) auto

definition chain_end :: "cbb_chain_list \<Rightarrow> nat" where
  "chain_end a = (if a = [] then 0 else cc_offset (snd (last a)) + cc_pending_len_len (snd (last a)))"

lemma chain_ok_split:
  "chain_ok len 0 (a @ b) \<longleftrightarrow> chain_ok (chain_end a) 0 a \<and> chain_ok len (chain_end a) b"
  by (simp add: chain_ok_append chain_end_def)

lemma cbb_locate_self: "cbb_locate p st = Some (a, b) \<Longrightarrow>
    cbb_locate p (st\<lparr>cbb_base := x, cbb_chain := a @ b'\<rparr>) = Some (a, b')"
proof -
  assume l: "cbb_locate p st = Some (a, b)"
  have "cbb_split_chain p (a @ b') = Some (a, b')" if "cbb_split_chain p (a @ b) = Some (a, b)"
    using that
  proof (induction a)
    case (Cons qc a)
    then show ?case by (cases qc) (auto split: if_splits)
  next
    case Nil
    then show ?case using cbb_split_chain_append [of p b "[]" b] by simp
  qed
  then show ?thesis using l cbb_locate_append [OF l] by (auto simp: cbb_locate_def split: if_splits)
qed

text \<open>Flushing: the specification of \<open>CBB_flush\<close> on a live \<open>CBB\<close>.\<close>

lemma CBB_flush_spec:
  assumes wf: "cbb_wf st" and live: "cbb_locate p st = Some (a, b)" and r: "CBB_flush al p st = (ok, st')"
  shows "cbb_wf st' \<and> cbb_root st' = cbb_root st \<and> cb_can_resize (cbb_base st') = cb_can_resize (cbb_base st) \<and>
    (if ok then \<not> cbb_failed st \<and> \<not> cbb_failed st' \<and> cbb_chain st' = a \<and> all_fit (cbb_written st) b
       \<and> cbb_written st' = flushed (cbb_written st) b \<and> cbb_locate p st' = Some (a, [])
     else cbb_failed st')"
proof -
  have ab: "cbb_chain st = a @ b" by (rule cbb_locate_append [OF live])
  obtain b1 bs1 where f: "cbb_flush_chain al b (cbb_base st) = (ok, bs1, b1)"
    and st': "st' = st\<lparr>cbb_base := b1, cbb_chain := a @ bs1\<rparr>"
    using r live by (auto simp: CBB_flush_def split: prod.splits)
  show ?thesis
  proof (cases "cbb_failed st")
    case True
    then have "ok = False \<and> b1 = cbb_base st \<and> (bs1 = b)"
      using f by (cases b) (auto split: prod.splits)
    with True wf ab show ?thesis by (auto simp: st' cbb_wf_def)
  next
    case False
    with wf ab have ch: "chain_ok (chain_end a) 0 a" "chain_ok (cb_len (cbb_base st)) (chain_end a) b"
      by (simp_all add: cbb_wf_def chain_ok_split)
    from wf have bo: "buf_ok (cbb_base st)" by (simp add: cbb_wf_def)
    note spec = cbb_flush_chain_spec [OF f bo False ch(2)]
    have "chain_ok (cb_len b1) 0 a" if "\<not> cb_error b1"
    proof -
      from that spec have "written b1 = flushed (cbb_written st) b" by (simp split: if_splits)
      with spec have "cb_len b1 = length (flushed (cbb_written st) b)" by (metis length_written)
      with flushed_keeps [of "cbb_written st" "chain_end a" b] ch(2) bo have "chain_end a \<le> cb_len b1" by simp
      with ch(1) show ?thesis by (rule chain_ok_shrink)
    qed
    moreover have "distinct (cbb_root st # map fst a)" using wf ab by (auto simp: cbb_wf_def)
    ultimately show ?thesis using spec False cbb_locate_self [OF live, where x = b1 and b' = "[]"]
      by (auto simp: st' cbb_wf_def)
  qed
qed

section \<open>Operations that append\<close>

definition appends :: "cbb_ptr \<Rightarrow> bytes \<Rightarrow> (cbb \<Rightarrow> bool \<times> cbb) \<Rightarrow> bool" where
  "appends p data m \<longleftrightarrow> (\<forall>st. cbb_wf st \<longrightarrow> (case m st of (ok, st') \<Rightarrow>
     cbb_wf st' \<and> cbb_root st' = cbb_root st \<and>
     (cbb_locate p st = None \<longrightarrow> \<not> ok) \<and>
     (\<forall>a b. cbb_locate p st = Some (a, b) \<longrightarrow> ok \<longrightarrow>
        \<not> cbb_failed st \<and> \<not> cbb_failed st' \<and> cbb_chain st' = a \<and> cbb_locate p st' = Some (a, [])
        \<and> cbb_written st' = flushed (cbb_written st) b @ data)))"

lemma appendsI:
  assumes "\<And>st ok st'. cbb_wf st \<Longrightarrow> m st = (ok, st') \<Longrightarrow> cbb_locate p st = None \<Longrightarrow>
      cbb_wf st' \<and> cbb_root st' = cbb_root st \<and> \<not> ok"
    and "\<And>st ok st' a b. cbb_wf st \<Longrightarrow> m st = (ok, st') \<Longrightarrow> cbb_locate p st = Some (a, b) \<Longrightarrow>
      cbb_wf st' \<and> cbb_root st' = cbb_root st \<and> (ok \<longrightarrow> \<not> cbb_failed st \<and> \<not> cbb_failed st' \<and> cbb_chain st' = a
        \<and> cbb_locate p st' = Some (a, []) \<and> cbb_written st' = flushed (cbb_written st) b @ data)"
  shows "appends p data m"
  unfolding appends_def
proof (intro allI impI)
  fix st assume wf: "cbb_wf st"
  obtain ok st' where m: "m st = (ok, st')" by fastforce
  show "case m st of (ok, st') \<Rightarrow>
     cbb_wf st' \<and> cbb_root st' = cbb_root st \<and> (cbb_locate p st = None \<longrightarrow> \<not> ok) \<and>
     (\<forall>a b. cbb_locate p st = Some (a, b) \<longrightarrow> ok \<longrightarrow>
        \<not> cbb_failed st \<and> \<not> cbb_failed st' \<and> cbb_chain st' = a \<and> cbb_locate p st' = Some (a, [])
        \<and> cbb_written st' = flushed (cbb_written st) b @ data)"
    using assms(1) [OF wf m] assms(2) [OF wf m] by (cases "cbb_locate p st") (auto simp: m)
qed

lemma appendsD:
  assumes "appends p data m" "cbb_wf st" "m st = (ok, st')"
  shows "cbb_wf st'" "cbb_root st' = cbb_root st" "cbb_locate p st = None \<Longrightarrow> \<not> ok"
    and "cbb_locate p st = Some (a, b) \<Longrightarrow> ok \<Longrightarrow>
        \<not> cbb_failed st \<and> \<not> cbb_failed st' \<and> cbb_chain st' = a \<and> cbb_locate p st' = Some (a, [])
        \<and> cbb_written st' = flushed (cbb_written st) b @ data"
  using assms unfolding appends_def by fastforce+

lemma appends_cong:
  assumes "\<And>st. cbb_wf st \<Longrightarrow> m st = n st" "appends p d m"
  shows "appends p d n"
  using assms(2) by (simp add: appends_def assms(1))

lemma appends_and:
  assumes m: "appends p d1 m" and n: "appends p d2 n"
  shows "appends p (d1 @ d2) (cbb_and m n)"
proof (rule appendsI)
  fix st ok st'
  assume wf: "cbb_wf st" and r: "cbb_and m n st = (ok, st')"
  obtain ok1 st1 where 1: "m st = (ok1, st1)" by fastforce
  note D = appendsD [OF m wf 1]
  show "cbb_wf st' \<and> cbb_root st' = cbb_root st \<and> \<not> ok" if "cbb_locate p st = None"
    using D that r 1 by (auto simp: cbb_and_def split: bool.splits)
  show "cbb_wf st' \<and> cbb_root st' = cbb_root st \<and> (ok \<longrightarrow> \<not> cbb_failed st \<and> \<not> cbb_failed st' \<and> cbb_chain st' = a
        \<and> cbb_locate p st' = Some (a, []) \<and> cbb_written st' = flushed (cbb_written st) b @ d1 @ d2)"
    if l: "cbb_locate p st = Some (a, b)" for a b
  proof (cases ok1)
    case False
    with D r 1 show ?thesis by (auto simp: cbb_and_def)
  next
    case True
    with r 1 have 2: "n st1 = (ok, st')" by (simp add: cbb_and_def)
    from D(4) [OF l True] have l1: "cbb_locate p st1 = Some (a, [])" and w1: "cbb_written st1 = flushed (cbb_written st) b @ d1"
      and f: "\<not> cbb_failed st" by auto
    note E = appendsD [OF n D(1) 2]
    from E(1,2) E(4) [OF l1] D(2) w1 f show ?thesis by auto
  qed
qed

lemma appends_flush: "appends p [] (CBB_flush al p)"
proof (rule appendsI)
  fix st ok st'
  assume wf: "cbb_wf st" and r: "CBB_flush al p st = (ok, st')"
  show "cbb_wf st' \<and> cbb_root st' = cbb_root st \<and> \<not> ok" if "cbb_locate p st = None"
    using r that wf by (simp add: CBB_flush_def)
  show "cbb_wf st' \<and> cbb_root st' = cbb_root st \<and> (ok \<longrightarrow> \<not> cbb_failed st \<and> \<not> cbb_failed st' \<and> cbb_chain st' = a
        \<and> cbb_locate p st' = Some (a, []) \<and> cbb_written st' = flushed (cbb_written st) b @ [])"
    if "cbb_locate p st = Some (a, b)" for a b
    using CBB_flush_spec [OF wf that r] by (auto split: if_splits)
qed

text \<open>Space at the end of the buffer, and writing to it.\<close>

lemma cbb_wf_error: "cbb_wf st \<Longrightarrow> cbb_wf (st\<lparr>cbb_base := cbb_buffer_error (cbb_base st)\<rparr>)"
  by (simp add: cbb_wf_def)

lemma CBB_add_space_spec:
  assumes wf: "cbb_wf st" and r: "CBB_add_space al p len st = (out, st')" and len: "len < 2 ^ 64"
  shows "cbb_wf st' \<and> cbb_root st' = cbb_root st \<and> (cbb_locate p st = None \<longrightarrow> out = None) \<and>
    (\<forall>a b off. cbb_locate p st = Some (a, b) \<longrightarrow> out = Some off \<longrightarrow>
       \<not> cbb_failed st \<and> \<not> cbb_failed st' \<and> cbb_chain st' = a \<and> cbb_locate p st' = Some (a, [])
       \<and> off = length (flushed (cbb_written st) b) \<and> cb_len (cbb_base st') = off + len
       \<and> take off (cb_buf (cbb_base st')) = flushed (cbb_written st) b)"
proof -
  obtain ok st1 where f: "CBB_flush al p st = (ok, st1)" by fastforce
  note F = appendsD [OF appends_flush wf f]
  show ?thesis
  proof (cases ok)
    case False
    with r f F show ?thesis by (auto simp: CBB_add_space_def)
  next
    case True
    obtain out1 b1 where ad: "cbb_buffer_add al len (cbb_base st1) = (out1, b1)" by fastforce
    with r f True have st': "out = out1" "st' = st1\<lparr>cbb_base := b1\<rparr>" by (auto simp: CBB_add_space_def)
    from F(3) True obtain a b where l: "cbb_locate p st = Some (a, b)" by (cases "cbb_locate p st") auto
    note G = F(4) [OF l True]
    have bo: "buf_ok (cbb_base st1)" using F(1) by (simp add: cbb_wf_def)
    show ?thesis
    proof (cases out1)
      case None
      with ad have "b1 = cbb_buffer_error (cbb_base st1)" by (auto dest: cbb_buffer_add_None)
      with None st' F cbb_wf_error [OF F(1)] show ?thesis by auto
    next
      case (Some off)
      note A = cbb_buffer_add_Some [OF ad [unfolded Some] bo len]
      have "cbb_wf st'" using F(1) A chain_ok_shrink by (auto simp: cbb_wf_def st')
      moreover have "cbb_locate p st' = cbb_locate p st1" by (simp add: st' cbb_locate_def)
      moreover have "off = length (flushed (cbb_written st) b)" using A G bo by (metis append_Nil2 length_written)
      ultimately show ?thesis using A G F(2) l Some by (auto simp: st' written_def)
    qed
  qed
qed

text \<open>A step that fills the space it asked for.\<close>

lemma appends_fill:
  assumes step: "\<And>st. m st = (case CBB_add_space al p (length d) st of
      (None, st') \<Rightarrow> (False, st') | (Some out, st') \<Rightarrow> (True, cbb_write out d st'))" and len: "length d < 2 ^ 64"
  shows "appends p d m"
proof (rule appendsI)
  fix st ok st'
  assume wf: "cbb_wf st" and r: "m st = (ok, st')"
  obtain out st1 where s: "CBB_add_space al p (length d) st = (out, st1)" by fastforce
  note S = CBB_add_space_spec [OF wf s len]
  show "cbb_wf st' \<and> cbb_root st' = cbb_root st \<and> \<not> ok" if "cbb_locate p st = None"
    using r s S that by (simp add: step)
  show "cbb_wf st' \<and> cbb_root st' = cbb_root st \<and> (ok \<longrightarrow> \<not> cbb_failed st \<and> \<not> cbb_failed st' \<and> cbb_chain st' = a
        \<and> cbb_locate p st' = Some (a, []) \<and> cbb_written st' = flushed (cbb_written st) b @ d)"
    if l: "cbb_locate p st = Some (a, b)" for a b
  proof (cases out)
    case None
    with r s S show ?thesis by (auto simp: step)
  next
    case (Some off)
    with r s have st': "ok" "st' = cbb_write off d st1" by (simp_all add: step)
    from S l Some have off: "off = length (flushed (cbb_written st) b)" "cb_len (cbb_base st1) = off + length d"
      "take off (cb_buf (cbb_base st1)) = flushed (cbb_written st) b" and wf1: "cbb_wf st1" by auto
    have cap: "off + length d \<le> cb_cap (cbb_base st1)" using wf1 off by (simp add: cbb_wf_def buf_ok_def)
    have "take (off + length d) (buf_write off d (cb_buf (cbb_base st1))) = take off (cb_buf (cbb_base st1)) @ d"
      by (rule take_buf_write_end) (use cap in auto)
    then have "cbb_written st' = flushed (cbb_written st) b @ d"
      using off(2,3) by (simp add: st' cbb_write_def written_def)
    moreover have "cbb_wf st'" using wf1 cap by (auto simp: st' cbb_write_def cbb_wf_def buf_ok_def length_buf_write)
    moreover have "cbb_locate p st' = cbb_locate p st1" by (simp add: st' cbb_write_def cbb_locate_def)
    ultimately show ?thesis using S l Some by (auto simp: st' cbb_write_def)
  qed
qed

lemma appends_bytes: "length data < 2 ^ 64 \<Longrightarrow> appends p data (CBB_add_bytes al p data)"
  by (rule appends_fill) (simp_all add: CBB_add_bytes_def)

lemma appends_zeros: "len < 2 ^ 64 \<Longrightarrow> appends p (replicate len 0) (CBB_add_zeros al p len)"
  by (rule appends_fill) (simp_all add: CBB_add_zeros_def)

text \<open>Fixed-width integers: the encoding has to fit, or the builder fails for good.\<close>

lemma appends_u:
  assumes "n \<le> 8"
  shows "appends p (be_bytes n (unat v)) (cbb_add_u al p v n)"
    and "\<And>st st'. cbb_wf st \<Longrightarrow> cbb_add_u al p v n st = (True, st') \<Longrightarrow> unat v < 256 ^ n"
proof -
  define d where "d = be_bytes n (unat v)"
  have ld: "length d = n" by (simp add: d_def)
  have small: "n < 2 ^ 64" using assms by simp
  have step: "cbb_add_u al p v n st = (case CBB_add_space al p n st of
      (None, st') \<Rightarrow> (False, st')
    | (Some out, st') \<Rightarrow> if unat v < 256 ^ n then (True, cbb_write out d st')
        else (False, cbb_on_error p (cbb_write out d st')))" if "cbb_wf st" for st
  proof -
    obtain out st1 where s: "CBB_add_space al p n st = (out, st1)" by fastforce
    note S = CBB_add_space_spec [OF that s small]
    show ?thesis
    proof (cases out)
      case None
      with s show ?thesis by (simp add: cbb_add_u_def)
    next
      case (Some off)
      with S obtain a b where "cbb_locate p st = Some (a, b)" by (cases "cbb_locate p st") auto
      with S Some have "cb_len (cbb_base st1) = off + n" "buf_ok (cbb_base st1)" by (auto simp: cbb_wf_def)
      then have "off + n \<le> cb_cap (cbb_base st1)" by (simp add: buf_ok_def)
      then show ?thesis using s Some
        by (simp add: cbb_add_u_def put_be_eq Let_def cbb_write_def d_def div_eq_0_iff)
    qed
  qed
  show "unat v < 256 ^ n" if "cbb_wf st" "cbb_add_u al p v n st = (True, st')" for st st'
    using that step [OF that(1)] by (auto split: prod.splits option.splits if_splits)
  show "appends p (be_bytes n (unat v)) (cbb_add_u al p v n)"
  proof (cases "unat v < 256 ^ n")
    case True
    define m where "m st = (case CBB_add_space al p (length d) st of
      (None, st') \<Rightarrow> (False, st') | (Some out, st') \<Rightarrow> (True, cbb_write out d st'))" for st
    have "appends p d m" by (rule appends_fill [OF m_def]) (use ld small in simp)
    moreover have "m st = cbb_add_u al p v n st" if "cbb_wf st" for st
      using step [OF that] True by (auto simp: m_def ld split: prod.splits option.splits)
    ultimately show ?thesis unfolding d_def [symmetric] using appends_cong by blast
  next
    case False
    have fail: "\<exists>st'. cbb_add_u al p v n st = (False, st') \<and> cbb_wf st' \<and> cbb_root st' = cbb_root st" if wf: "cbb_wf st" for st
    proof -
      obtain out st1 where s: "CBB_add_space al p n st = (out, st1)" by fastforce
      note S = CBB_add_space_spec [OF wf s small]
      show ?thesis
      proof (cases out)
        case None
        with s S step [OF wf] show ?thesis by simp
      next
        case (Some off)
        with S obtain a b where l: "cbb_locate p st = Some (a, b)" by (cases "cbb_locate p st") auto
        define st2 where "st2 = cbb_write off d st1"
        from S Some l have "cb_len (cbb_base st1) = off + n" "cbb_wf st1" "cbb_locate p st1 = Some (a, [])" "cbb_chain st1 = a" by auto
        then have 2: "cbb_wf st2" "cbb_locate p st2 = Some (a, [])" "cbb_chain st2 = a" "cbb_root st2 = cbb_root st1"
          using ld by (auto simp: st2_def cbb_write_def cbb_wf_def buf_ok_def length_buf_write cbb_locate_def)
        then have "cbb_wf (cbb_on_error p st2)" "cbb_root (cbb_on_error p st2) = cbb_root st1"
          by (simp_all add: cbb_on_error_def cbb_wf_def)
        then show ?thesis using step [OF wf] s Some False S by (simp add: st2_def)
      qed
    qed
    show ?thesis unfolding appends_def using fail by fastforce
  qed
qed

lemma appends_u8: "appends p [v] (CBB_add_u8 al p v)"
proof -
  have "unat (ucast v :: u64) = unat v" using unat_byte_less [of v] by (simp add: unat_ucast_mod del: unat_byte_less)
  then have "be_bytes 1 (unat (ucast v :: u64)) = [v]" unfolding One_nat_def by simp
  with appends_u(1) [of 1 p "ucast v" al] show ?thesis by (simp add: CBB_add_u8_def)
qed

section \<open>Base-128 integers\<close>

lemma base128_len_pos: "0 < v \<Longrightarrow> base128_len v = Suc (base128_len (v div 128))"
  by (subst base128_len.simps) simp

lemma base128_len_0 [simp]: "base128_len 0 = 0"
  by (subst base128_len.simps) simp

text \<open>The bytes of the loop from index \<open>i - 1\<close> down.\<close>

fun base128_digits :: "nat \<Rightarrow> nat \<Rightarrow> bytes" where
  "base128_digits v 0 = []"
| "base128_digits v (Suc i) = word_of_nat ((if i \<noteq> 0 then 128 else 0) + v div 128 ^ i mod 128) # base128_digits v i"

lemma base128_digits_high:
  "base128_digits v (Suc i) = map (\<lambda>j. word_of_nat (128 + v div 128 ^ j mod 128)) (rev [1..<Suc i]) @ [word_of_nat (v mod 128)]"
proof (induction i)
  case (Suc i)
  show ?case
    by (subst base128_digits.simps) (simp add: Suc del: base128_digits.simps of_nat_add)
qed simp

lemma base128_high_digits:
  "n = base128_len (v div 128) \<Longrightarrow> base128_high (v div 128) = map (\<lambda>j. word_of_nat (128 + v div 128 ^ j mod 128)) (rev [1..<Suc n])"
proof (induction n arbitrary: v)
  case 0
  then have "v div 128 = 0" using base128_len_pos [of "v div 128"] by (cases "v div 128 = 0") auto
  then show ?case by simp
next
  case (Suc n)
  define w where "w = v div 128"
  have w: "0 < w" "n = base128_len (w div 128)"
    using Suc.prems base128_len_pos [of w] by (cases "w = 0"; simp add: w_def)+
  have "base128_high w = base128_high (w div 128) @ [word_of_nat (128 + w mod 128)]"
    using w(1) by (simp add: base128_high_pos)
  also have "base128_high (w div 128) = map (\<lambda>j. word_of_nat (128 + w div 128 ^ j mod 128)) (rev [1..<Suc n])"
    by (rule Suc.IH [OF w(2)])
  also have "\<dots> = map (\<lambda>j. word_of_nat (128 + v div 128 ^ j mod 128)) (rev [2..<Suc (Suc n)])"
  proof -
    have "[2..<Suc (Suc n)] = map Suc [1..<Suc n]" by (simp add: map_Suc_upt numeral_2_eq_2)
    then show ?thesis by (simp add: rev_map w_def div_mult2_eq comp_def del: upt_Suc)
  qed
  finally have h: "base128_high w = map (\<lambda>j. word_of_nat (128 + v div 128 ^ j mod 128)) (rev [2..<Suc (Suc n)])
      @ [word_of_nat (128 + v div 128 ^ 1 mod 128)]" by (simp add: w_def del: of_nat_add upt_Suc)
  have "[1..<Suc (Suc n)] = 1 # [2..<Suc (Suc n)]" by (simp add: upt_conv_Cons numeral_2_eq_2 del: upt_Suc)
  then show ?case using h unfolding w_def by (simp del: of_nat_add upt_Suc)
qed

lemma base128_bytes_digits:
  "base128_bytes v = base128_digits v (if base128_len v = 0 then 1 else base128_len v)"
proof (cases "v = 0")
  case True
  then show ?thesis by (simp add: base128_bytes_def)
next
  case False
  then have l: "base128_len v = Suc (base128_len (v div 128))" by (intro base128_len_pos) simp
  show ?thesis
    unfolding l base128_bytes_def base128_high_digits [OF refl] by (simp add: base128_digits_high del: base128_digits.simps upt_Suc of_nat_add)
qed

lemma base128_byte:
  fixes v :: u64
  shows "(if i \<noteq> 0 then (ucast (drop_bit (7 * i) v) AND 0x7f) OR 0x80 else ucast (drop_bit (7 * i) v) AND 0x7f)
    = (word_of_nat ((if i \<noteq> 0 then 128 else 0) + unat v div 128 ^ i mod 128) :: u8)"
proof -
  define x :: u8 where "x = ucast (drop_bit (7 * i) v) AND 0x7f"
  have "(2::nat) ^ (7 * i) = 128 ^ i" by (simp add: power_mult)
  then have x: "unat x = unat v div 128 ^ i mod 128"
    by (simp add: x_def unat_and_7f unat_ucast_mod unat_drop_bit_div mod_mod_cancel)
  have "x AND 0x80 = 0" using x by (simp add: and_80_zero)
  then have "unat (x OR 0x80) = unat x + 128" by (subst unat_or_disjoint) simp_all
  then have "x OR 0x80 = word_of_nat (128 + unat v div 128 ^ i mod 128)"
    using x by (metis add.commute word_of_nat_of_unat)
  moreover have "x = word_of_nat (unat v div 128 ^ i mod 128)" using x by (metis word_of_nat_of_unat)
  ultimately show ?thesis unfolding x_def [symmetric] by simp
qed

lemma cbb_and_done: "cbb_and m (Pair True) = m"
  by (auto simp: fun_eq_iff cbb_and_def split: prod.splits bool.splits)

lemma appends_add_base128_loop:
  "0 < i \<Longrightarrow> appends p (base128_digits (unat v) i) (add_base128_loop al p v i)"
proof (induction i)
  case (Suc i)
  define byte :: u8 where "byte = word_of_nat ((if i \<noteq> 0 then 128 else 0) + unat v div 128 ^ i mod 128)"
  have step: "add_base128_loop al p v (Suc i) = cbb_and (CBB_add_u8 al p byte) (add_base128_loop al p v i)"
    by (rule ext) (simp only: add_base128_loop.simps Let_def base128_byte byte_def)
  show ?case
  proof (cases "i = 0")
    case True
    then have "add_base128_loop al p v i = Pair True" by (simp add: fun_eq_iff)
    then have "add_base128_loop al p v (Suc i) = CBB_add_u8 al p byte" by (simp only: step cbb_and_done)
    moreover have "base128_digits (unat v) (Suc i) = [byte]" by (simp add: byte_def True)
    ultimately show ?thesis by (simp only: appends_u8)
  next
    case False
    then have "appends p (base128_digits (unat v) i) (add_base128_loop al p v i)" using Suc.IH by simp
    from appends_and [OF appends_u8 this, of byte al] show ?thesis unfolding step by (simp add: byte_def)
  qed
qed simp

lemma appends_base128: "appends p (base128_bytes (unat v)) (add_base128_integer al p v)"
  unfolding add_base128_integer_def Let_def base128_bytes_digits
  by (rule appends_add_base128_loop) simp

section \<open>Children\<close>

definition appends_at :: "cbb \<Rightarrow> cbb_ptr \<Rightarrow> bytes \<Rightarrow> bool \<times> cbb \<Rightarrow> bool" where
  "appends_at st p data r \<longleftrightarrow> (case r of (ok, st') \<Rightarrow>
     cbb_wf st' \<and> cbb_root st' = cbb_root st \<and>
     (cbb_locate p st = None \<longrightarrow> \<not> ok) \<and>
     (\<forall>a b. cbb_locate p st = Some (a, b) \<longrightarrow> ok \<longrightarrow>
        \<not> cbb_failed st \<and> \<not> cbb_failed st' \<and> cbb_chain st' = a \<and> cbb_locate p st' = Some (a, [])
        \<and> cbb_written st' = flushed (cbb_written st) b @ data))"

lemma appends_iff: "appends p d m \<longleftrightarrow> (\<forall>st. cbb_wf st \<longrightarrow> appends_at st p d (m st))"
  by (simp add: appends_def appends_at_def)

text \<open>
  A step that opens a child \<open>q\<close> below \<open>p\<close>: a header, the space of the pending prefix, and the
  contents the child has so far.
\<close>

definition opens_at :: "cbb \<Rightarrow> cbb_ptr \<Rightarrow> cbb_ptr \<Rightarrow> nat \<Rightarrow> bool \<Rightarrow> bytes \<Rightarrow> bytes \<Rightarrow> bool \<times> cbb \<Rightarrow> bool" where
  "opens_at st p q k asn1 hdr body r \<longleftrightarrow> (case r of (ok, st') \<Rightarrow>
     cbb_wf st' \<and> cbb_root st' = cbb_root st \<and>
     (cbb_locate p st = None \<longrightarrow> \<not> ok) \<and>
     (\<forall>a b. cbb_locate p st = Some (a, b) \<longrightarrow> ok \<longrightarrow>
        \<not> cbb_failed st \<and> \<not> cbb_failed st'
        \<and> cbb_chain st' = a @ [(q, \<lparr>cc_offset = length (flushed (cbb_written st) b @ hdr),
                                   cc_pending_len_len = k, cc_pending_is_asn1 = asn1\<rparr>)]
        \<and> cbb_written st' = flushed (cbb_written st) b @ hdr @ replicate k 0 @ body))"

definition cbb_fresh :: "cbb_ptr \<Rightarrow> cbb \<Rightarrow> bool" where
  "cbb_fresh q st \<longleftrightarrow> q \<noteq> cbb_root st \<and> q \<notin> fst ` set (cbb_chain st)"

lemma cbb_local_fresh: "cbb_fresh (cbb_local st) st"
proof -
  have "x \<le> foldr max xs r" if "x \<in> insert r (set xs)" for x r :: nat and xs
    using that by (induction xs) auto
  then have "x < cbb_local st" if "x \<in> insert (cbb_root st) (set (map fst (cbb_chain st)))" for x
    unfolding cbb_local_def using that by (meson le_imp_less_Suc)
  from this [of "cbb_local st"] have "cbb_local st \<notin> insert (cbb_root st) (set (map fst (cbb_chain st)))" by blast
  then show ?thesis unfolding cbb_fresh_def by simp
qed

lemma locate_last:
  assumes "cbb_wf st" "cbb_chain st = a @ [(q, c)]"
  shows "cbb_locate q st = Some (a @ [(q, c)], [])"
proof -
  have d: "distinct (cbb_root st # map fst a @ [q])" using assms by (simp add: cbb_wf_def)
  then have "q \<notin> fst ` set a" by auto
  then have "cbb_split_chain q (a @ [(q, c)]) = Some (a @ [(q, c)], [])"
    by (induction a) auto
  with d assms(2) show ?thesis by (auto simp: cbb_locate_def)
qed

lemma locate_prefix:
  assumes wf: "cbb_wf st'" and chain: "cbb_chain st' = a @ b'" and root: "cbb_root st' = cbb_root st"
    and l: "cbb_locate p st = Some (a, b)"
  shows "cbb_locate p st' = Some (a, b')"
proof -
  have "st' = st\<lparr>cbb_base := cbb_base st', cbb_chain := a @ b'\<rparr>" using chain root by (cases st; cases st') simp
  then show ?thesis using cbb_locate_self [OF l] by metis
qed

lemma chain_ok_end: "chain_ok len s a \<Longrightarrow> a \<noteq> [] \<Longrightarrow> cc_offset (snd (last a)) + cc_pending_len_len (snd (last a)) \<le> len"
  by (induction len s a rule: chain_ok.induct) (auto split: if_splits)

lemma chain_ok_self:
  "chain_ok len s a \<Longrightarrow> a \<noteq> [] \<Longrightarrow> chain_ok (cc_offset (snd (last a)) + cc_pending_len_len (snd (last a))) s a"
  by (induction len s a rule: chain_ok.induct) (auto split: if_splits)

lemma opens_add_child:
  assumes wf: "cbb_wf st" and l: "cbb_locate p st = Some (a, [])" and nf: "\<not> cbb_failed st"
    and fresh: "cbb_fresh q st" and k: "asn1 \<longrightarrow> k = 1" "k < 2 ^ 64"
  shows "opens_at st p q k asn1 [] [] (cbb_add_child al p q k asn1 st)"
proof -
  have a: "cbb_chain st = a" using cbb_locate_append [OF l] by simp
  have bo: "buf_ok (cbb_base st)" using wf by (simp add: cbb_wf_def)
  obtain out b where ad: "cbb_buffer_add al k (cbb_base st) = (out, b)" by fastforce
  show ?thesis
  proof (cases out)
    case None
    with ad have "b = cbb_buffer_error (cbb_base st)" by (auto dest: cbb_buffer_add_None)
    with None ad cbb_wf_error [OF wf] show ?thesis by (simp add: cbb_add_child_def opens_at_def)
  next
    case (Some off)
    note A = cbb_buffer_add_Some [OF ad [unfolded Some] bo k(2)]
    have cap: "off + k \<le> length (cb_buf b)" using A by (simp add: buf_ok_def)
    define c where "c = \<lparr>cc_offset = cb_len (cbb_base st), cc_pending_len_len = k, cc_pending_is_asn1 = asn1\<rparr>"
    define st' where "st' = st\<lparr>cbb_base := b\<lparr>cb_buf := buf_write off (replicate k 0) (cb_buf b)\<rparr>, cbb_chain := a @ [(q, c)]\<rparr>"
    have r: "cbb_add_child al p q k asn1 st = (True, st')"
      using ad Some a by (simp add: cbb_add_child_def st'_def c_def Let_def)
    have "take (off + k) (buf_write off (replicate k 0) (cb_buf b)) = take off (cb_buf b) @ replicate k 0"
      by (rule take_buf_write_end) (use cap in auto)
    then have w: "cbb_written st' = cbb_written st @ replicate k 0"
      using A by (simp add: st'_def written_def)
    have "chain_ok (cb_len (cbb_base st)) 0 a" using wf nf a by (simp add: cbb_wf_def)
    then have "chain_ok (cb_len (cbb_base st) + k) 0 (a @ [(q, c)])"
      using k by (cases "a = []") (auto simp: chain_ok_append c_def intro: chain_ok_self dest: chain_ok_end)
    then have "cbb_wf st'"
      using wf A cap fresh a by (auto simp: st'_def cbb_wf_def buf_ok_def length_buf_write cbb_fresh_def)
    then show ?thesis using w A nf l bo unfolding r opens_at_def by (simp add: st'_def c_def)
  qed
qed

text \<open>Filling the child, and flushing its parent.\<close>

lemma opens_and:
  assumes m: "opens_at st p q k asn1 hdr body (m st)" and n: "appends q d n"
  shows "opens_at st p q k asn1 hdr (body @ d) (cbb_and m n st)"
proof -
  obtain ok1 st1 where 1: "m st = (ok1, st1)" by fastforce
  show ?thesis
  proof (cases ok1)
    case False
    with m 1 show ?thesis by (simp add: cbb_and_def opens_at_def)
  next
    case True
    obtain ok st' where 2: "n st1 = (ok, st')" by fastforce
    from m 1 True have wf1: "cbb_wf st1" and r1: "cbb_root st1 = cbb_root st" by (simp_all add: opens_at_def)
    from m 1 True obtain a b where l: "cbb_locate p st = Some (a, b)"
      by (cases "cbb_locate p st") (auto simp: opens_at_def)
    define c where "c = \<lparr>cc_offset = length (flushed (cbb_written st) b @ hdr), cc_pending_len_len = k, cc_pending_is_asn1 = asn1\<rparr>"
    from m 1 True l have o: "\<not> cbb_failed st" "cbb_chain st1 = a @ [(q, c)]"
      "cbb_written st1 = flushed (cbb_written st) b @ hdr @ replicate k 0 @ body"
      by (auto simp: opens_at_def c_def)
    have lq: "cbb_locate q st1 = Some (a @ [(q, c)], [])" by (rule locate_last [OF wf1 o(2)])
    note D = appendsD [OF n wf1 2]
    from D(1,2) D(4) [OF lq] r1 o l show ?thesis by (auto simp: cbb_and_def 1 True 2 opens_at_def c_def)
  qed
qed

lemma cbb_on_error_wf:
  assumes "cbb_wf st" shows "cbb_wf (cbb_on_error p st)" "cbb_root (cbb_on_error p st) = cbb_root st"
  using assms cbb_locate_append [of p st]
  by (auto simp: cbb_on_error_def cbb_wf_def split: option.splits prod.splits)

lemma opens_or_error:
  assumes "opens_at st p q k asn1 hdr body (m st)"
  shows "opens_at st p q k asn1 hdr body (cbb_or_error p m st)"
  using assms by (auto simp: opens_at_def cbb_or_error_def cbb_on_error_wf split: prod.splits bool.splits)

lemma appends_or_error:
  assumes "appends_at st p d (m st)"
  shows "appends_at st p d (cbb_or_error p m st)"
  using assms by (auto simp: appends_at_def cbb_or_error_def cbb_on_error_wf split: prod.splits bool.splits)

lemma opens_flush:
  assumes m: "opens_at st p q k asn1 hdr body (m st)"
  defines "c \<equiv> \<lparr>cc_offset = 0, cc_pending_len_len = k, cc_pending_is_asn1 = asn1\<rparr>"
  shows "appends_at st p (hdr @ prefix_bytes c (length body) @ body) (cbb_and m (CBB_flush al p) st)"
    and "fst (cbb_and m (CBB_flush al p) st) \<Longrightarrow> prefix_fits c (length body)"
proof -
  obtain ok1 st1 where 1: "m st = (ok1, st1)" by fastforce
  have "appends_at st p (hdr @ prefix_bytes c (length body) @ body) (cbb_and m (CBB_flush al p) st)
    \<and> (fst (cbb_and m (CBB_flush al p) st) \<longrightarrow> prefix_fits c (length body))"
  proof (cases ok1)
    case False
    with m 1 show ?thesis by (simp add: cbb_and_def opens_at_def appends_at_def)
  next
    case True
    obtain ok st' where 2: "CBB_flush al p st1 = (ok, st')" by fastforce
    from m 1 True have wf1: "cbb_wf st1" and r1: "cbb_root st1 = cbb_root st" by (simp_all add: opens_at_def)
    from m 1 True obtain a b where l: "cbb_locate p st = Some (a, b)"
      by (cases "cbb_locate p st") (auto simp: opens_at_def)
    define w where "w = flushed (cbb_written st) b @ hdr"
    define d where "d = \<lparr>cc_offset = length w, cc_pending_len_len = k, cc_pending_is_asn1 = asn1\<rparr>"
    from m 1 True l have o: "\<not> cbb_failed st" "cbb_chain st1 = a @ [(q, d)]"
      "cbb_written st1 = w @ replicate k 0 @ body"
      by (auto simp: opens_at_def d_def w_def)
    have lp: "cbb_locate p st1 = Some (a, [(q, d)])" by (rule locate_prefix [OF wf1 o(2) r1 l])
    note F = CBB_flush_spec [OF wf1 lp 2]
    have "prefix_bytes d n = prefix_bytes c n" "prefix_fits d n = prefix_fits c n" for n
      by (simp_all add: prefix_bytes_def prefix_fits_def d_def c_def)
    then have "flushed (cbb_written st1) [(q, d)] = w @ prefix_bytes c (length body) @ body"
      and "all_fit (cbb_written st1) [(q, d)] = prefix_fits c (length body)"
      by (simp_all add: o(3) closed_def Let_def d_def)
    with F r1 o l show ?thesis by (auto simp: cbb_and_def 1 True 2 appends_at_def w_def split: if_splits)
  qed
  then show "appends_at st p (hdr @ prefix_bytes c (length body) @ body) (cbb_and m (CBB_flush al p) st)"
    and "fst (cbb_and m (CBB_flush al p) st) \<Longrightarrow> prefix_fits c (length body)" by auto
qed

text \<open>Opening behind what \<open>p\<close> appends first.\<close>

lemma opens_after:
  assumes m: "appends p hdr m" and wf: "cbb_wf st" and fresh: "cbb_fresh q st" and k: "asn1 \<longrightarrow> k = 1" "k < 2 ^ 64"
  shows "opens_at st p q k asn1 hdr [] (cbb_and m (cbb_add_child al p q k asn1) st)"
proof -
  obtain ok1 st1 where 1: "m st = (ok1, st1)" by fastforce
  note D = appendsD [OF m wf 1]
  show ?thesis
  proof (cases ok1)
    case False
    with D 1 show ?thesis by (auto simp: cbb_and_def opens_at_def)
  next
    case True
    with D(3) obtain a b where l: "cbb_locate p st = Some (a, b)" by (cases "cbb_locate p st") auto
    note E = D(4) [OF l True]
    have "fst ` set (cbb_chain st1) \<subseteq> fst ` set (cbb_chain st)" using E cbb_locate_append [OF l] by auto
    then have f1: "cbb_fresh q st1" using fresh D(2) by (auto simp: cbb_fresh_def)
    have "opens_at st1 p q k asn1 [] [] (cbb_add_child al p q k asn1 st1)"
      by (rule opens_add_child [OF D(1) _ _ f1 k]) (use E in auto)
    then show ?thesis using E D(2) l by (auto simp: opens_at_def cbb_and_def 1 True split: prod.splits)
  qed
qed

lemma cbb_and_assoc: "cbb_and (cbb_and m n) k = cbb_and m (cbb_and n k)"
  by (auto simp: fun_eq_iff cbb_and_def split: prod.splits bool.splits)

lemma opens_length_prefixed:
  "cbb_wf st \<Longrightarrow> cbb_fresh q st \<Longrightarrow> k < 2 ^ 64 \<Longrightarrow> opens_at st p q k False [] [] (cbb_add_length_prefixed al p q k st)"
  unfolding cbb_add_length_prefixed_def by (rule opens_after [OF appends_flush]) simp_all

section \<open>ASN.1 elements\<close>

lemma tag_bytes_low: "unat t mod 2 ^ 29 < 31 \<Longrightarrow> tag_bytes t = [word_of_nat (32 * (unat t div 2 ^ 29) + unat t mod 2 ^ 29)]"
  by (simp add: tag_bytes_def Let_def)

lemma tag_bytes_high: "31 \<le> unat t mod 2 ^ 29 \<Longrightarrow>
    tag_bytes t = word_of_nat (32 * (unat t div 2 ^ 29) + 31) # base128_bytes (unat t mod 2 ^ 29)"
  by (simp add: tag_bytes_def Let_def)

lemma tag_number: "unat (t AND CBS_ASN1_TAG_NUMBER_MASK) = unat t mod 2 ^ 29"
  using unat_and_mask [of t 29] by (simp add: CBS_ASN1_TAG_NUMBER_MASK_def CBS_ASN1_TAG_SHIFT_def mask_eq_exp_minus_1)

lemma tag_lead:
  fixes t :: u32
  assumes "unat x < 32"
  shows "(ucast (drop_bit CBS_ASN1_TAG_SHIFT t) AND 0xe0 OR x :: u8) = word_of_nat (32 * (unat t div 2 ^ 29) + unat x)"
proof -
  define y :: u8 where "y = ucast (drop_bit CBS_ASN1_TAG_SHIFT t)"
  have y: "unat y = unat t div 2 ^ 24"
  proof -
    have "unat t < 256 * 2 ^ 24" using unsigned_less [of t, where ?'a = nat] by simp
    then have "unat t div 2 ^ 24 < 256" by (rule less_mult_imp_div_less)
    then show ?thesis by (simp add: y_def unat_ucast_mod unat_drop_bit_div CBS_ASN1_TAG_SHIFT_def)
  qed
  have "(0xe0 :: u8) = mask 8 AND NOT (mask 5)" by (simp add: mask_eq_exp_minus_1)
  then have "y AND 0xe0 = push_bit 5 (drop_bit 5 y)"
  proof -
    have "bit (y AND 0xe0) n = bit (push_bit 5 (drop_bit 5 y)) n" if "n < LENGTH(8)" for n
      unfolding \<open>0xe0 = mask 8 AND NOT (mask 5)\<close> using that by (auto simp: bit_simps)
    then show ?thesis by (rule bit_word_eqI)
  qed
  moreover have "unat (drop_bit 5 y) = unat t div 2 ^ 29"
    by (simp add: unat_drop_bit_div y div_mult2_eq [symmetric])
  moreover have "unat (push_bit 5 (drop_bit 5 y) OR x) = unat (drop_bit 5 y) * 2 ^ 5 mod 2 ^ LENGTH(8) + unat x"
    by (rule shift_or_small) (use assms in simp)
  moreover have "unat t div 2 ^ 29 < 8" by (rule unat_tag_split)
  ultimately have "unat (y AND 0xe0 OR x) = 32 * (unat t div 2 ^ 29) + unat x" by simp
  then show ?thesis unfolding y_def by (metis word_of_nat_of_unat)
qed

section \<open>Success\<close>

text \<open>
  A builder that can grow: the allocator never fails, the buffer is owned, and there is address
  space left.  \<open>n\<close> is the number of bytes that may still be added behind \<open>p\<close>; four more are
  set aside for each pending child, as an ASN.1 length may take four bytes beyond the reserved one.
\<close>

definition can_add :: "allocator \<Rightarrow> cbb_ptr \<Rightarrow> nat \<Rightarrow> cbb \<Rightarrow> bool" where
  "can_add al p n st \<longleftrightarrow> always_allocates al \<and> cbb_wf st \<and> \<not> cbb_failed st \<and> cb_can_resize (cbb_base st)
     \<and> cb_cap (cbb_base st) \<le> 2 ^ 62 \<and> (\<exists>a b. cbb_locate p st = Some (a, b) \<and> all_fit (cbb_written st) b
     \<and> cb_len (cbb_base st) + 4 * length b + n \<le> 2 ^ 61)"

definition grows :: "allocator \<Rightarrow> cbb_ptr \<Rightarrow> bytes \<Rightarrow> (cbb \<Rightarrow> bool \<times> cbb) \<Rightarrow> bool" where
  "grows al p d m \<longleftrightarrow> appends p d m \<and>
     (\<forall>st n. can_add al p (length d + n) st \<longrightarrow> (\<exists>st'. m st = (True, st') \<and> can_add al p n st'))"

lemma cbb_buffer_add_succeeds:
  assumes "always_allocates al" "buf_ok b" "cb_can_resize b" "cb_cap b \<le> 2 ^ 62" "cb_len b + len \<le> 2 ^ 61"
  shows "\<exists>b'. cbb_buffer_add al len b = (Some (cb_len b), b') \<and> cb_cap b' \<le> 2 ^ 62"
proof -
  have nl: "size_add (cb_len b) len = cb_len b + len" using assms(5) by (simp add: size_add_def)
  have "\<exists>b'. cbb_buffer_reserve al len b = (Some (cb_len b), b') \<and> cb_cap b' \<le> 2 ^ 62"
  proof (cases "cb_cap b < cb_len b + len")
    case False
    with assms(4) show ?thesis by (simp add: cbb_buffer_reserve_def nl)
  next
    case True
    then have dbl: "size_mul (cb_cap b) 2 = cb_cap b * 2" using assms(5) by (simp add: size_mul_def)
    define newcap where "newcap = (if cb_cap b * 2 < cb_len b + len then cb_len b + len else cb_cap b * 2)"
    have nc: "newcap \<le> 2 ^ 62" using True assms(5) by (auto simp: newcap_def)
    then have "newcap + 8 < 2 ^ 64" by simp
    with assms(1) obtain nb where "OPENSSL_realloc al (Some (cb_buf b)) newcap = Some nb" "length nb = newcap"
      by (rule OPENSSL_realloc_succeeds)
    with True assms(3) nc show ?thesis
      by (auto simp: cbb_buffer_reserve_def nl dbl newcap_def Let_def)
  qed
  then show ?thesis by (auto simp: cbb_buffer_add_def)
qed

lemma cbb_close_child_succeeds:
  assumes al: "always_allocates al" and b: "buf_ok b" "\<not> cb_error b" "cb_can_resize b" "cb_cap b \<le> 2 ^ 62"
    and e: "e = cc_offset c + cc_pending_len_len c" "e \<le> cb_len b" "cc_pending_is_asn1 c \<longrightarrow> cc_pending_len_len c = 1"
    and fits: "prefix_fits c (cb_len b - e)" and room: "cb_len b + 4 \<le> 2 ^ 61"
  shows "\<exists>b'. cbb_close_child al c e b = (True, b') \<and> cb_cap b' \<le> 2 ^ 62 \<and> cb_len b' \<le> cb_len b + 4"
proof (cases "cc_pending_is_asn1 c")
  case False
  then have f: "(cb_len b - e) div 256 ^ cc_pending_len_len c = 0" using fits by (simp add: prefix_fits_def)
  have "cc_offset c + cc_pending_len_len c \<le> cb_cap b" using b e by (simp add: buf_ok_def)
  with False f b(4) show ?thesis
    by (simp add: cbb_close_child_def e(1) [symmetric] Let_def cbb_put_length_eq length_buf_write)
next
  case True
  with e have p1: "cc_pending_len_len c = 1" by simp
  define n where "n = cb_len b - e"
  have "n \<le> 0xfffffffe" using True fits by (simp add: prefix_fits_def n_def)
  then obtain k ib where k: "asn1_len_len n = Some (k, ib)" using asn1_len_len_None [of n] by fastforce
  note pre = asn1_len_len_Some [OF k]
  have cap0: "cc_offset c + 1 \<le> cb_len b" "cb_len b \<le> cb_cap b" using e p1 b by (simp_all add: buf_ok_def)
  show ?thesis
  proof (cases "k = 1")
    case True
    with pre have "cbb_put_length (cc_offset c + 1) 0 0 b' = (True, b'\<lparr>cb_buf := buf_write (cc_offset c + 1) [] (cb_buf b')\<rparr>)"
      if "cc_offset c + 1 \<le> cb_cap b'" for b' using that by (simp add: cbb_put_length_eq)
    with True \<open>cc_pending_is_asn1 c\<close> cap0 b(4) show ?thesis
      by (simp add: cbb_close_child_def Let_def n_def [symmetric] k length_buf_write)
  next
    case False
    have "k \<le> 5" using pre by blast
    then have "k - 1 \<le> 4" by simp
    with cbb_buffer_add_succeeds [OF al b(1,3,4), of "k - 1"] room
    obtain b1 where a: "cbb_buffer_add al (k - 1) b = (Some (cb_len b), b1)" and c1: "cb_cap b1 \<le> 2 ^ 62" by auto
    have k64: "k - 1 < 2 ^ 64" using \<open>k - 1 \<le> 4\<close> by simp
    note A = cbb_buffer_add_Some [OF a b(1) k64]
    have l1: "cb_len b + (k - 1) \<le> cb_cap b1" using A by (simp add: buf_ok_def)
    define mv where "mv = buf_write (e + (k - 1)) (take n (drop e (cb_buf b1))) (cb_buf b1)"
    have en: "e + n = cb_len b" using e by (simp add: n_def)
    have lm: "length mv = cb_cap b1" unfolding mv_def by (rule length_buf_write) (use l1 en in simp)
    have put: "cbb_put_length (cc_offset c + 1) (k - 1) n (b1\<lparr>cb_buf := mv[cc_offset c := ib]\<rparr>)
      = (True, b1\<lparr>cb_buf := buf_write (cc_offset c + 1) (be_bytes (k - 1) n) (mv[cc_offset c := ib])\<rparr>)"
      using pre False l1 lm cap0 by (subst cbb_put_length_eq) auto
    have "cc_offset c + 1 + (k - 1) \<le> cb_cap b1" using l1 cap0 by simp
    then have "length (buf_write (cc_offset c + 1) (be_bytes (k - 1) n) (mv[cc_offset c := ib])) = cb_cap b1"
      using lm by (simp add: length_buf_write)
    moreover have "cbb_close_child al c e b = cbb_put_length (cc_offset c + 1) (k - 1) n (b1\<lparr>cb_buf := mv[cc_offset c := ib]\<rparr>)"
      unfolding cbb_close_child_def Let_def n_def [symmetric] using True False a by (simp add: k mv_def)
    ultimately show ?thesis using put c1 A \<open>k - 1 \<le> 4\<close> by simp
  qed
qed

lemma cbb_flush_chain_succeeds:
  assumes "always_allocates al" "buf_ok b" "\<not> cb_error b" "cb_can_resize b" "cb_cap b \<le> 2 ^ 62"
    and "chain_ok (cb_len b) s chain" "all_fit (written b) chain" "cb_len b + 4 * length chain \<le> 2 ^ 61"
  shows "\<exists>b'. cbb_flush_chain al chain b = (True, [], b') \<and> cb_cap b' \<le> 2 ^ 62 \<and> cb_len b' \<le> cb_len b + 4 * length chain"
  using assms
proof (induction chain arbitrary: s)
  case (Cons pc chain)
  obtain p c where pc: "pc = (p, c)" by (cases pc)
  define e where "e = cc_offset c + cc_pending_len_len c"
  from Cons.prems have ch: "chain_ok (cb_len b) e chain" and asn: "cc_pending_is_asn1 c \<longrightarrow> cc_pending_len_len c = 1"
    by (simp_all add: pc e_def)
  with Cons obtain b1 where r1: "cbb_flush_chain al chain b = (True, [], b1)" and c1: "cb_cap b1 \<le> 2 ^ 62"
    and l1: "cb_len b1 \<le> cb_len b + 4 * length chain" by (auto simp: pc)
  note S = cbb_flush_chain_spec [OF r1 Cons.prems(2,3) ch]
  have w1: "written b1 = flushed (written b) chain" using S by simp
  have b1: "buf_ok b1" "\<not> cb_error b1" "cb_can_resize b1" using S Cons.prems(4) by auto
  have len1: "cb_len b1 = length (flushed (written b) chain)" using w1 b1(1) by (metis length_written)
  have e1: "e \<le> cb_len b1" using flushed_keeps [of "written b" e chain] ch Cons.prems(2) len1 by simp
  have fits: "prefix_fits c (cb_len b1 - e)" using Cons.prems(7) by (simp add: pc e_def len1)
  have "cb_len b1 + 4 \<le> 2 ^ 61" using l1 Cons.prems(8) by simp
  from cbb_close_child_succeeds [OF Cons.prems(1) b1 c1 e_def e1 asn fits this]
  obtain b2 where r2: "cbb_close_child al c e b1 = (True, b2)" "cb_cap b2 \<le> 2 ^ 62" "cb_len b2 \<le> cb_len b1 + 4" by blast
  have "e < 2 ^ 64" using chain_ok_le [OF ch] Cons.prems(8) by simp
  then have se: "size_add (cc_offset c) (cc_pending_len_len c) = e" by (simp add: size_add_def e_def)
  have "\<not> e < cc_offset c" by (simp add: e_def)
  with r1 r2 e1 l1 Cons.prems(3) show ?case by (simp add: pc se Let_def)
qed auto

lemma grows_flush: "grows al p [] (CBB_flush al p)"
  unfolding grows_def
proof (intro conjI allI impI appends_flush)
  fix st n
  assume c: "can_add al p (length [] + n) st"
  then obtain a b where l: "cbb_locate p st = Some (a, b)" and f: "all_fit (cbb_written st) b"
    and len: "cb_len (cbb_base st) + 4 * length b + n \<le> 2 ^ 61" by (auto simp: can_add_def)
  have wf: "cbb_wf st" "\<not> cbb_failed st" using c by (simp_all add: can_add_def)
  have "chain_ok (cb_len (cbb_base st)) 0 (a @ b)" using wf cbb_locate_append [OF l] by (simp add: cbb_wf_def)
  then have ch: "chain_ok (cb_len (cbb_base st)) (chain_end a) b" by (simp add: chain_ok_split)
  obtain b' where r: "cbb_flush_chain al b (cbb_base st) = (True, [], b')" "cb_cap b' \<le> 2 ^ 62"
    "cb_len b' \<le> cb_len (cbb_base st) + 4 * length b"
    using cbb_flush_chain_succeeds [of al "cbb_base st" "chain_end a" b] c ch f len wf
    by (auto simp: can_add_def cbb_wf_def)
  define st' where "st' = st\<lparr>cbb_base := b', cbb_chain := a\<rparr>"
  have R: "CBB_flush al p st = (True, st')" using l r(1) by (simp add: CBB_flush_def st'_def)
  note S = CBB_flush_spec [OF wf(1) l R]
  show "\<exists>st'. CBB_flush al p st = (True, st') \<and> can_add al p n st'"
    using R S r c len by (auto simp: can_add_def st'_def)
qed

lemma grows_and: "grows al p d1 m \<Longrightarrow> grows al p d2 n \<Longrightarrow> grows al p (d1 @ d2) (cbb_and m n)"
  unfolding grows_def by (force simp: appends_and cbb_and_def add.assoc)

lemma CBB_add_space_succeeds:
  assumes "can_add al p (len + n) st"
  shows "\<exists>out st'. CBB_add_space al p len st = (Some out, st') \<and> can_add al p n st'"
proof -
  from assms grows_flush [of al p] obtain st1 where f: "CBB_flush al p st = (True, st1)" and c: "can_add al p (len + n) st1"
    unfolding grows_def by fastforce
  have wf: "cbb_wf st" using assms by (simp add: can_add_def)
  from assms obtain a b where l: "cbb_locate p st = Some (a, b)" by (auto simp: can_add_def)
  with CBB_flush_spec [OF wf l f] have l1: "cbb_locate p st1 = Some (a, [])" by simp
  with c have len: "cb_len (cbb_base st1) + len + n \<le> 2 ^ 61" by (auto simp: can_add_def)
  with c have "\<exists>b'. cbb_buffer_add al len (cbb_base st1) = (Some (cb_len (cbb_base st1)), b') \<and> cb_cap b' \<le> 2 ^ 62"
    by (intro cbb_buffer_add_succeeds) (auto simp: can_add_def cbb_wf_def)
  then obtain b' where a: "cbb_buffer_add al len (cbb_base st1) = (Some (cb_len (cbb_base st1)), b')" "cb_cap b' \<le> 2 ^ 62" by blast
  define st' where "st' = st1\<lparr>cbb_base := b'\<rparr>"
  have r: "CBB_add_space al p len st = (Some (cb_len (cbb_base st1)), st')"
    using f a(1) by (simp add: CBB_add_space_def st'_def)
  have l64: "len < 2 ^ 64" using len by simp
  have bo: "buf_ok (cbb_base st1)" using c by (simp add: can_add_def cbb_wf_def)
  from CBB_add_space_spec [OF wf r l64] l have "cbb_wf st'" "\<not> cbb_failed st'" "cbb_locate p st' = Some (a, [])" by auto
  moreover note cbb_buffer_add_Some [OF a(1) bo l64]
  ultimately have "can_add al p n st'" using c len a(2) by (auto simp: can_add_def st'_def)
  with r show ?thesis by blast
qed

lemma can_add_written:
  assumes "can_add al p n st" "cbb_locate p st = Some (a, [])" "length buf = cb_cap (cbb_base st)"
  shows "can_add al p n (st\<lparr>cbb_base := (cbb_base st)\<lparr>cb_buf := buf\<rparr>\<rparr>)"
  using assms by (auto simp: can_add_def cbb_locate_def cbb_wf_def buf_ok_def)

lemma grows_fill:
  assumes step: "\<And>st. m st = (case CBB_add_space al p (length d) st of
      (None, st') \<Rightarrow> (False, st') | (Some out, st') \<Rightarrow> (True, cbb_write out d st'))" and len: "length d < 2 ^ 64"
  shows "grows al p d m"
  unfolding grows_def
proof (intro conjI allI impI)
  show "appends p d m" by (rule appends_fill [OF step len])
  fix st n
  assume c: "can_add al p (length d + n) st"
  then obtain out st1 where s: "CBB_add_space al p (length d) st = (Some out, st1)" and c1: "can_add al p n st1"
    using CBB_add_space_succeeds by blast
  have wf: "cbb_wf st" using c by (simp add: can_add_def)
  obtain a b where l: "cbb_locate p st = Some (a, b)" using c by (auto simp: can_add_def)
  with CBB_add_space_spec [OF wf s len] have l1: "cbb_locate p st1 = Some (a, [])" "cb_len (cbb_base st1) = out + length d"
    "buf_ok (cbb_base st1)" by (auto simp: cbb_wf_def)
  then have "length (buf_write out d (cb_buf (cbb_base st1))) = cb_cap (cbb_base st1)"
    by (intro length_buf_write) (simp add: buf_ok_def)
  then have "can_add al p n (cbb_write out d st1)"
    unfolding cbb_write_def by (rule can_add_written [OF c1 l1(1)])
  with s show "\<exists>st'. m st = (True, st') \<and> can_add al p n st'" by (simp add: step)
qed

lemma grows_bytes: "length data < 2 ^ 64 \<Longrightarrow> grows al p data (CBB_add_bytes al p data)"
  by (rule grows_fill) (simp_all add: CBB_add_bytes_def)

lemma grows_zeros: "len < 2 ^ 64 \<Longrightarrow> grows al p (replicate len 0) (CBB_add_zeros al p len)"
  by (rule grows_fill) (simp_all add: CBB_add_zeros_def)

lemma grows_cong:
  assumes "\<And>st. cbb_wf st \<Longrightarrow> m st = n st" "grows al p d m"
  shows "grows al p d n"
  unfolding grows_def
proof (intro conjI allI impI)
  have "appends p d m" using assms(2) by (simp add: grows_def)
  with assms(1) show "appends p d n" by (rule appends_cong)
  fix st k
  assume c: "can_add al p (length d + k) st"
  then have "m st = n st" by (intro assms(1)) (simp add: can_add_def)
  moreover from c assms(2) have "\<exists>st'. m st = (True, st') \<and> can_add al p k st'" unfolding grows_def by blast
  ultimately show "\<exists>st'. n st = (True, st') \<and> can_add al p k st'" by simp
qed

lemma grows_u:
  assumes "n \<le> 8" "unat v < 256 ^ n"
  shows "grows al p (be_bytes n (unat v)) (cbb_add_u al p v n)"
proof (rule grows_cong)
  define d where "d = be_bytes n (unat v)"
  have ld: "length d = n" by (simp add: d_def)
  define m where "m st = (case CBB_add_space al p (length d) st of
      (None, st') \<Rightarrow> (False, st') | (Some out, st') \<Rightarrow> (True, cbb_write out d st'))" for st
  show "grows al p (be_bytes n (unat v)) m"
    unfolding d_def [symmetric] by (rule grows_fill [OF m_def]) (use ld assms in simp)
  show "m st = cbb_add_u al p v n st" if wf: "cbb_wf st" for st
  proof -
    obtain out st1 where s: "CBB_add_space al p n st = (out, st1)" by fastforce
    have "n < 2 ^ 64" using assms by simp
    note S = CBB_add_space_spec [OF wf s this]
    show ?thesis
    proof (cases out)
      case None
      with s show ?thesis by (simp add: cbb_add_u_def m_def ld)
    next
      case (Some off)
      with S obtain a b where "cbb_locate p st = Some (a, b)" by (cases "cbb_locate p st") auto
      with S Some have "cb_len (cbb_base st1) = off + n" "buf_ok (cbb_base st1)" by (auto simp: cbb_wf_def)
      then have "off + n \<le> cb_cap (cbb_base st1)" by (simp add: buf_ok_def)
      then show ?thesis using s Some assms
        by (simp add: cbb_add_u_def put_be_eq Let_def cbb_write_def d_def m_def)
    qed
  qed
qed

lemma grows_u8: "grows al p [v] (CBB_add_u8 al p v)"
proof -
  have u: "unat (ucast v :: u64) = unat v" using unat_byte_less [of v] by (simp add: unat_ucast_mod del: unat_byte_less)
  then have "be_bytes 1 (unat (ucast v :: u64)) = [v]" unfolding One_nat_def by simp
  moreover have "grows al p (be_bytes 1 (unat (ucast v :: u64))) (cbb_add_u al p (ucast v) 1)"
    by (rule grows_u) (use u in simp_all)
  ultimately show ?thesis by (simp add: CBB_add_u8_def)
qed

lemma grows_base128: "grows al p (base128_bytes (unat v)) (add_base128_integer al p v)"
proof -
  have "grows al p (base128_digits (unat v) i) (add_base128_loop al p v i)" if "0 < i" for i
    using that
  proof (induction i)
    case (Suc i)
    define byte :: u8 where "byte = word_of_nat ((if i \<noteq> 0 then 128 else 0) + unat v div 128 ^ i mod 128)"
    have step: "add_base128_loop al p v (Suc i) = cbb_and (CBB_add_u8 al p byte) (add_base128_loop al p v i)"
      by (rule ext) (simp only: add_base128_loop.simps Let_def base128_byte byte_def)
    have d: "base128_digits (unat v) (Suc i) = [byte] @ base128_digits (unat v) i" by (simp add: byte_def)
    show ?case
    proof (cases "i = 0")
      case True
      then have "add_base128_loop al p v i = Pair True" by (simp add: fun_eq_iff)
      then have "add_base128_loop al p v (Suc i) = CBB_add_u8 al p byte" by (simp only: step cbb_and_done)
      then show ?thesis unfolding d by (simp add: grows_u8 True)
    next
      case False
      with Suc.IH have "grows al p (base128_digits (unat v) i) (add_base128_loop al p v i)" by simp
      from grows_and [OF grows_u8 this] show ?thesis unfolding step d .
    qed
  qed simp
  then show ?thesis unfolding add_base128_integer_def Let_def base128_bytes_digits by simp
qed

lemma can_add_less: "can_add al p n st \<Longrightarrow> m \<le> n \<Longrightarrow> can_add al p m st"
  by (fastforce simp: can_add_def)

lemma growsD: "grows al p d m \<Longrightarrow> can_add al p n st \<Longrightarrow> length d \<le> n \<Longrightarrow>
    \<exists>st'. m st = (True, st') \<and> can_add al p (n - length d) st'"
  unfolding grows_def by (metis le_add_diff_inverse)

text \<open>Opening a child succeeds, and its space is the parent's.\<close>

lemma add_child_succeeds:
  assumes c: "can_add al p (k + n) st" and l: "cbb_locate p st = Some (a, [])" and fresh: "cbb_fresh q st"
    and k: "asn1 \<longrightarrow> k = 1"
  shows "\<exists>st'. cbb_add_child al p q k asn1 st = (True, st') \<and> can_add al q n st'"
proof -
  from c l have len: "cb_len (cbb_base st) + k + n \<le> 2 ^ 61" by (auto simp: can_add_def)
  then have k64: "k < 2 ^ 64" by simp
  have bo: "buf_ok (cbb_base st)" using c by (simp add: can_add_def cbb_wf_def)
  obtain b' where a: "cbb_buffer_add al k (cbb_base st) = (Some (cb_len (cbb_base st)), b')" "cb_cap b' \<le> 2 ^ 62"
    using cbb_buffer_add_succeeds [of al "cbb_base st" k] c len by (auto simp: can_add_def cbb_wf_def)
  note A = cbb_buffer_add_Some [OF a(1) bo k64]
  define out where "out = cb_len (cbb_base st)"
  have cap: "out + k \<le> cb_cap b'" using A by (simp add: buf_ok_def out_def)
  obtain st' where r: "cbb_add_child al p q k asn1 st = (True, st')"
    and st': "cbb_base st' = b'\<lparr>cb_buf := buf_write out (replicate k 0) (cb_buf b')\<rparr>"
    using a(1) by (simp add: cbb_add_child_def Let_def out_def)
  have wf: "cbb_wf st" "\<not> cbb_failed st" using c by (simp_all add: can_add_def)
  have O: "opens_at st p q k asn1 [] [] (True, st')"
    using opens_add_child [OF wf(1) l wf(2) fresh k k64, of al] unfolding r .
  then have wf': "cbb_wf st'" and ch: "cbb_chain st' = a @ [(q, \<lparr>cc_offset = length (cbb_written st),
      cc_pending_len_len = k, cc_pending_is_asn1 = asn1\<rparr>)]" and nf: "\<not> cbb_failed st'"
    using l by (auto simp: opens_at_def)
  from locate_last [OF wf' ch] c A a(2) len nf wf' cap have "can_add al q n st'"
    by (auto simp: can_add_def st' length_buf_write)
  with r show ?thesis by blast
qed

text \<open>The identifier octets, written by \<open>CBB_add_asn1\<close> before it opens the child.\<close>

definition asn1_header :: "allocator \<Rightarrow> cbb_ptr \<Rightarrow> u32 \<Rightarrow> cbb \<Rightarrow> bool \<times> cbb" where
  "asn1_header al p t =
     (let tag_bits = ucast (drop_bit CBS_ASN1_TAG_SHIFT t) AND 0xe0; tag_number = t AND CBS_ASN1_TAG_NUMBER_MASK
      in if 0x1f \<le> tag_number
         then cbb_and (CBB_add_u8 al p (tag_bits OR 0x1f)) (add_base128_integer al p (ucast tag_number))
         else CBB_add_u8 al p (tag_bits OR ucast tag_number))"

lemma CBB_add_asn1_header:
  "CBB_add_asn1 al p q t = cbb_and (cbb_and (CBB_flush al p) (asn1_header al p t)) (cbb_add_child al p q 1 True)"
  by (simp only: CBB_add_asn1_def asn1_header_def Let_def cbb_and_assoc)

lemma grows_asn1_header: "grows al p (tag_bytes t) (asn1_header al p t)"
proof -
  define tb :: u8 where "tb = ucast (drop_bit CBS_ASN1_TAG_SHIFT t) AND 0xe0"
  define tn where "tn = t AND CBS_ASN1_TAG_NUMBER_MASK"
  have tn: "unat tn = unat t mod 2 ^ 29" by (simp only: tn_def tag_number)
  have "grows al p (tag_bytes t) (if 0x1f \<le> tn then cbb_and (CBB_add_u8 al p (tb OR 0x1f)) (add_base128_integer al p (ucast tn))
      else CBB_add_u8 al p (tb OR ucast tn))"
  proof (cases "0x1f \<le> tn")
    case True
    then have h: "31 \<le> unat t mod 2 ^ 29" by (simp add: word_le_nat_alt tn)
    have "unat (ucast tn :: u64) = unat t mod 2 ^ 29"
      using unsigned_less [of tn, where ?'a = nat] by (simp add: unat_ucast_mod tn)
    with grows_and [OF grows_u8 [of al p "tb OR 0x1f"] grows_base128 [of al p "ucast tn"]]
    have "grows al p ([tb OR 0x1f] @ base128_bytes (unat t mod 2 ^ 29))
       (cbb_and (CBB_add_u8 al p (tb OR 0x1f)) (add_base128_integer al p (ucast tn)))" by simp
    moreover have "tb OR 0x1f = word_of_nat (32 * (unat t div 2 ^ 29) + 31)"
      using tag_lead [where x = "0x1f" and t = t] by (simp add: tb_def)
    ultimately show ?thesis using True by (simp add: tag_bytes_high [OF h] del: of_nat_add of_nat_mult)
  next
    case False
    then have h: "unat t mod 2 ^ 29 < 31" by (simp add: word_le_nat_alt tn not_le)
    then have "unat (ucast tn :: u8) = unat t mod 2 ^ 29" by (simp add: unat_ucast_mod tn)
    with tag_lead [of "ucast tn" t] h have "tb OR ucast tn = word_of_nat (32 * (unat t div 2 ^ 29) + unat t mod 2 ^ 29)"
      by (simp add: tb_def del: of_nat_add of_nat_mult)
    then show ?thesis using False grows_u8 [of al p "tb OR ucast tn"] tag_bytes_low [OF h] by simp
  qed
  then show ?thesis by (simp only: asn1_header_def Let_def tb_def tn_def)
qed

lemma opens_asn1:
  assumes "cbb_wf st" "cbb_fresh q st"
  shows "opens_at st p q 1 True (tag_bytes t) [] (CBB_add_asn1 al p q t st)"
proof -
  have "appends p ([] @ tag_bytes t) (cbb_and (CBB_flush al p) (asn1_header al p t))"
    using grows_and [OF grows_flush grows_asn1_header] by (simp only: grows_def)
  from opens_after [OF this assms, of True 1 al] show ?thesis by (simp only: CBB_add_asn1_header append_Nil) simp
qed

lemma asn1_prefix: "prefix_bytes \<lparr>cc_offset = 0, cc_pending_len_len = 1, cc_pending_is_asn1 = True\<rparr> n = length_bytes n"
  "prefix_fits \<lparr>cc_offset = 0, cc_pending_len_len = 1, cc_pending_is_asn1 = True\<rparr> n \<longleftrightarrow> n \<le> 0xfffffffe"
  by (simp_all add: prefix_bytes_def prefix_fits_def)

text \<open>An element: open it, fill the child, flush the parent.\<close>

lemma asn1_element_appends:
  assumes wf: "cbb_wf st" "cbb_fresh q st" and fill: "appends q body n"
  shows "appends_at st p (der_element t body) (cbb_and (cbb_and (CBB_add_asn1 al p q t) n) (CBB_flush al p) st)"
    and "fst (cbb_and (cbb_and (CBB_add_asn1 al p q t) n) (CBB_flush al p) st) \<Longrightarrow> length body \<le> 0xfffffffe"
proof -
  have "opens_at st p q 1 True (tag_bytes t) ([] @ body) (cbb_and (CBB_add_asn1 al p q t) n st)"
    by (rule opens_and [OF _ fill]) (rule opens_asn1 [OF wf])
  then have o: "opens_at st p q 1 True (tag_bytes t) body (cbb_and (CBB_add_asn1 al p q t) n st)" by simp
  show "appends_at st p (der_element t body) (cbb_and (cbb_and (CBB_add_asn1 al p q t) n) (CBB_flush al p) st)"
    and "fst (cbb_and (cbb_and (CBB_add_asn1 al p q t) n) (CBB_flush al p) st) \<Longrightarrow> length body \<le> 0xfffffffe"
    using opens_flush [where m = "cbb_and (CBB_add_asn1 al p q t) n" and al = al, OF o] by (simp_all only: asn1_prefix der_element_def der_header_def append_assoc)
qed

lemma asn1_element_succeeds:
  assumes c: "can_add al p (length (der_element t body) + 5 + n) st" and fresh: "cbb_fresh q st"
    and fill: "grows al q body m" and body: "length body \<le> 0xfffffffe"
  shows "\<exists>st'. cbb_and (cbb_and (CBB_add_asn1 al p q t) m) (CBB_flush al p) st = (True, st') \<and> can_add al p n st'"
proof -
  have wf: "cbb_wf st" using c by (simp add: can_add_def)
  obtain a b where l: "cbb_locate p st = Some (a, b)" using c by (auto simp: can_add_def)
  define N where "N = 1 + (length body + (4 + n))"
  have "can_add al p (length (tag_bytes t) + N) st"
    by (rule can_add_less [OF c]) (simp add: N_def der_element_def der_header_def length_bytes_def)
  moreover have H: "grows al p ([] @ tag_bytes t) (cbb_and (CBB_flush al p) (asn1_header al p t))"
    by (rule grows_and [OF grows_flush grows_asn1_header])
  ultimately obtain st1 where r1: "cbb_and (CBB_flush al p) (asn1_header al p t) st = (True, st1)" and c1: "can_add al p N st1"
    unfolding grows_def by fastforce
  have A: "appends p ([] @ tag_bytes t) (cbb_and (CBB_flush al p) (asn1_header al p t))" using H by (simp only: grows_def)
  note D = appendsD [OF A wf r1]
  have l1: "cbb_locate p st1 = Some (a, [])" "cbb_chain st1 = a" using D(4) [OF l] by auto
  have f1: "cbb_fresh q st1" using fresh cbb_locate_append [OF l] l1(2) D(2) by (auto simp: cbb_fresh_def)
  have "\<exists>st2. cbb_add_child al p q 1 True st1 = (True, st2) \<and> can_add al q (length body + (4 + n)) st2"
    by (rule add_child_succeeds [OF _ l1(1) f1]) (use c1 in \<open>simp_all add: N_def\<close>)
  then obtain st2 where r2: "cbb_add_child al p q 1 True st1 = (True, st2)" and c2: "can_add al q (length body + (4 + n)) st2" by blast
  with fill obtain st3 where r3: "m st2 = (True, st3)" and c3: "can_add al q (4 + n) st3"
    unfolding grows_def by blast
  have opened: "cbb_and (CBB_add_asn1 al p q t) m st = (True, st3)"
    using r1 r2 r3 by (simp add: CBB_add_asn1_header cbb_and_def)
  have "opens_at st p q 1 True (tag_bytes t) ([] @ body) (cbb_and (CBB_add_asn1 al p q t) m st)"
    by (rule opens_and [OF _ _]) (rule opens_asn1 [OF wf fresh], use fill in \<open>simp add: grows_def\<close>)
  then have o: "cbb_wf st3" "\<not> cbb_failed st3" "cbb_root st3 = cbb_root st"
    "cbb_chain st3 = a @ [(q, \<lparr>cc_offset = length (flushed (cbb_written st) b @ tag_bytes t), cc_pending_len_len = 1,
        cc_pending_is_asn1 = True\<rparr>)]" and w3: "cbb_written st3 = flushed (cbb_written st) b @ tag_bytes t @ [0] @ body"
    unfolding opened by (simp_all add: opens_at_def l)
  have lp: "cbb_locate p st3 = Some (a, [(q, \<lparr>cc_offset = length (flushed (cbb_written st) b @ tag_bytes t), cc_pending_len_len = 1,
        cc_pending_is_asn1 = True\<rparr>)])" by (rule locate_prefix [OF o(1) o(4) o(3) l])
  have lq: "snd (the (cbb_locate q st3)) = []" using locate_last [OF o(1) o(4)] by simp
  have "can_add al p n st3"
    using c3 lp lq w3 body by (auto simp: can_add_def prefix_fits_def)
  then have "can_add al p (length [] + n) st3" by simp
  with grows_flush [of al p] obtain st' where "CBB_flush al p st3 = (True, st')" "can_add al p n st'"
    unfolding grows_def by blast
  then show ?thesis using opened by (simp add: cbb_and_def [of _ "CBB_flush al p"])
qed

section \<open>Properties\<close>

text \<open>
  Claim C2.  \<open>CBB_flush\<close> implements its abstract specification, \<open>flushed\<close>: on a live object of a
  well-formed builder it either sets the error, or it closes all the children below the object,
  innermost first, so that the bytes written become those with every pending length prefix filled
  in (an ASN.1 length with the fewest octets, moving the contents where it takes more than one), all
  the lengths fit their prefixes, and the builder is well-formed with no child left below the object.
\<close>

theorem flush_correct:
  assumes "cbb_wf st" "cbb_locate p st = Some (a, b)" "CBB_flush al p st = (ok, st')"
  shows "cbb_wf st' \<and> (if ok then \<not> cbb_failed st' \<and> cbb_chain st' = a \<and> all_fit (cbb_written st) b
       \<and> cbb_written st' = flushed (cbb_written st) b else cbb_failed st')"
  using CBB_flush_spec [OF assms] by (cases ok) simp_all

text \<open>A child with a two-byte prefix and two bytes of contents.\<close>

definition example_builder :: cbb where
  "example_builder = \<lparr>cbb_root = 0, cbb_base = \<lparr>cb_buf = [9, 0, 0, 7, 8], cb_len = 5, cb_can_resize = False, cb_error = False\<rparr>,
     cbb_chain = [(1, \<lparr>cc_offset = 1, cc_pending_len_len = 2, cc_pending_is_asn1 = False\<rparr>)]\<rparr>"

theorem flush_correct_witness:
  "fst (CBB_flush (\<lambda>_. None) 0 example_builder) \<and> cbb_written (snd (CBB_flush (\<lambda>_. None) 0 example_builder)) = [9, 0, 2, 7, 8]"
proof -
  have wf: "cbb_wf example_builder" "cbb_locate 0 example_builder = Some ([], cbb_chain example_builder)"
    by (simp_all add: example_builder_def cbb_wf_def buf_ok_def cbb_locate_def)
  have ok: "fst (CBB_flush (\<lambda>_. None) 0 example_builder)"
  proof -
    have "put_be 2 off v buf = (buf[off + 1 := word_of_nat (v mod 256), off := word_of_nat (v div 256 mod 256)], v div 256 div 256)" for off v buf
      by (simp add: numeral_2_eq_2)
    then show ?thesis
      by (simp add: example_builder_def CBB_flush_def cbb_locate_def size_add_def cbb_close_child_def cbb_put_length_def Let_def)
  qed
  from flush_correct [OF wf, of "\<lambda>_. None" True "snd (CBB_flush (\<lambda>_. None) 0 example_builder)"] ok
  have "cbb_written (snd (CBB_flush (\<lambda>_. None) 0 example_builder)) = flushed (cbb_written example_builder) (cbb_chain example_builder)"
    by (simp add: prod_eq_iff)
  moreover have "be_bytes 2 (Suc (Suc 0)) = [0, 2]" by (simp add: numeral_2_eq_2)
  then have "flushed (cbb_written example_builder) (cbb_chain example_builder) = [9, 0, 2, 7, 8]"
    by (simp add: example_builder_def written_def closed_def prefix_bytes_def)
  ultimately show ?thesis using ok by simp
qed

text \<open>
  Claim C4.  Every adding operation keeps the builder well-formed, whether it succeeds or fails, and
  when it succeeds the bytes written are those written before, with the pending prefixes of the
  object's children filled in, followed by exactly its data: \<open>appends\<close> for the fixed-width integers
  (big-endian; a value that does not fit is an error), bytes, zeros, and base-128 integers.
\<close>

theorem adding_appends:
  "appends p [v8] (CBB_add_u8 al p v8) \<and> appends p (be_bytes 2 (unat v16)) (CBB_add_u16 al p v16)
   \<and> appends p (be_bytes 4 (unat v32)) (CBB_add_u32 al p v32) \<and> appends p (be_bytes 8 (unat v64)) (CBB_add_u64 al p v64)
   \<and> (length data < 2 ^ 64 \<longrightarrow> appends p data (CBB_add_bytes al p data))
   \<and> (len < 2 ^ 64 \<longrightarrow> appends p (replicate len 0) (CBB_add_zeros al p len))
   \<and> appends p (base128_bytes (unat v64)) (add_base128_integer al p v64)"
proof -
  have "unat (ucast v16 :: u64) = unat v16" using unsigned_less [of v16, where ?'a = nat] by (simp add: unat_ucast_mod)
  then have 16: "appends p (be_bytes 2 (unat v16)) (CBB_add_u16 al p v16)"
    using appends_u(1) [of 2 p "ucast v16" al] by (simp add: CBB_add_u16_def del: be_bytes.simps)
  have "unat (ucast v32 :: u64) = unat v32" using unsigned_less [of v32, where ?'a = nat] by (simp add: unat_ucast_mod)
  then have 32: "appends p (be_bytes 4 (unat v32)) (CBB_add_u32 al p v32)"
    using appends_u(1) [of 4 p "ucast v32" al] by (simp add: CBB_add_u32_def del: be_bytes.simps)
  have 64: "appends p (be_bytes 8 (unat v64)) (CBB_add_u64 al p v64)"
    using appends_u(1) [of 8 p v64 al] by (simp add: CBB_add_u64_def del: be_bytes.simps)
  from 16 32 64 show ?thesis using appends_u8 appends_bytes appends_zeros appends_base128 by blast
qed

theorem adding_appends_witness: "appends 0 [1, 2] (CBB_add_bytes (\<lambda>_. None) 0 [1, 2]) \<and> appends 0 [0] (CBB_add_zeros (\<lambda>_. None) 0 1)"
  using adding_appends [of 0 0 "\<lambda>_. None" 0 0 0 "[1, 2]" 1] by simp

end
