(* ===== verification/Der.thy ===== *)
theory Der imports CbbSpec CbsTime begin

text \<open>
  Builder and reader together: what the typed \<open>CBB_add_asn1_*\<close> functions append, and that the
  \<open>CBS_get_asn1_*\<close> functions read it back.  Also the two directions of OBJECT IDENTIFIERs and
  text, and the ordering of SET OF.
\<close>

section \<open>INTEGER\<close>

text \<open>What the loop of \<open>CBB_add_asn1_uint64_with_tag\<close> writes for big-endian bytes.\<close>

fun uint_body :: "bool \<Rightarrow> bytes \<Rightarrow> bytes" where
  "uint_body started [] = (if started then [] else [0])"
| "uint_body started (b # bs) =
     (if \<not> started \<and> b = 0 then uint_body started bs
      else (if \<not> started \<and> 128 \<le> unat b then [0] else []) @ b # uint_body True bs)"

lemma uint_body_started [simp]: "uint_body True bs = bs"
  by (induction bs) auto

lemma uint_body_value: "CBS_is_valid_asn1_integer (uint_body False bs) \<and> asn1_int (uint_body False bs) = int (be_val bs)"
proof (induction bs)
  case Nil
  then show ?case by (simp add: is_valid_asn1_integer_Cons asn1_int_def)
next
  case (Cons b bs)
  consider "b = 0" | "b \<noteq> 0" "128 \<le> unat b" | "b \<noteq> 0" "unat b < 128" by fastforce
  then show ?case
  proof cases
    case 1
    with Cons show ?thesis by (simp add: be_val_Cons)
  next
    case 2
    then show ?thesis by (simp add: is_valid_asn1_integer_Cons asn1_int_def be_val_Cons [of 0])
  next
    case 3
    then have "b \<noteq> 0xff" by auto
    with 3 show ?thesis by (cases bs) (simp_all add: is_valid_asn1_integer_Cons asn1_int_def)
  qed
qed

lemma be_bytes_Cons: "be_bytes (Suc k) v = word_of_nat (v div 256 ^ k mod 256) # be_bytes k v"
proof (induction k arbitrary: v)
  case (Suc k)
  have "be_bytes (Suc (Suc k)) v = be_bytes (Suc k) (v div 256) @ [word_of_nat (v mod 256)]" by (rule be_bytes.simps)
  also have "\<dots> = (word_of_nat (v div 256 div 256 ^ k mod 256) # be_bytes k (v div 256)) @ [word_of_nat (v mod 256)]"
    by (simp only: Suc.IH)
  finally show ?case by (simp add: div_mult2_eq)
qed simp

lemma uint64_byte:
  fixes v :: u64 shows "(ucast (drop_bit (8 * k) v) AND 0xff :: u8) = word_of_nat (unat v div 256 ^ k mod 256)"
proof -
  have "(0xff :: u8) = mask 8" by (simp add: mask_eq_exp_minus_1)
  moreover have "x AND mask 8 = x" for x :: u8 by (rule bit_word_eqI) (auto simp: bit_simps)
  ultimately have a: "(x AND 0xff :: u8) = x" for x by simp
  have "(2::nat) ^ (8 * k) = 256 ^ k" by (simp add: power_mult)
  then have "unat (ucast (drop_bit (8 * k) v) :: u8) = unat v div 256 ^ k mod 256"
    by (simp add: unat_ucast_mod unat_drop_bit_div)
  then show ?thesis unfolding a by (metis word_of_nat_of_unat)
qed

lemma uint64_loop_step:
  fixes v :: u64 and k :: nat
  defines "b \<equiv> word_of_nat (unat v div 256 ^ k mod 256) :: u8"
  shows "asn1_uint64_bytes_loop al q v (Suc k) started =
    (if \<not> started \<and> b = 0 then asn1_uint64_bytes_loop al q v k started
     else cbb_and (if \<not> started \<and> 128 \<le> unat b then CBB_add_u8 al q 0 else Pair True)
            (cbb_and (CBB_add_u8 al q b) (asn1_uint64_bytes_loop al q v k True)))"
  by (rule ext) (simp add: uint64_byte b_def [symmetric] Let_def and_80_zero not_less)

lemma cbb_and_Pair: "cbb_and (Pair True) m = m"
  by (simp add: fun_eq_iff cbb_and_def)

lemma grows_uint64_rest: "grows al q (b # be_bytes k (unat v)) (cbb_and (CBB_add_u8 al q b) (asn1_uint64_bytes_loop al q v k True))"
proof (induction k arbitrary: b)
  case 0
  have "asn1_uint64_bytes_loop al q v 0 True = Pair True" by (simp add: fun_eq_iff)
  then show ?case by (simp add: cbb_and_done grows_u8)
next
  case (Suc k)
  show ?case unfolding uint64_loop_step be_bytes_Cons
    using grows_and [OF grows_u8 Suc.IH] by (simp add: cbb_and_Pair)
qed

lemma grows_uint64_loop: "grows al q (uint_body False (be_bytes k (unat v))) (asn1_uint64_bytes_loop al q v k False)"
proof (induction k)
  case 0
  have "asn1_uint64_bytes_loop al q v 0 False = CBB_add_u8 al q 0" by (simp add: fun_eq_iff)
  then show ?case by (simp add: grows_u8)
next
  case (Suc k)
  define b :: u8 where "b = word_of_nat (unat v div 256 ^ k mod 256)"
  show ?case
    unfolding uint64_loop_step be_bytes_Cons b_def [symmetric]
    using Suc.IH grows_uint64_rest [of al q b k v] grows_and [OF grows_u8 grows_uint64_rest, of al q 0 b k v]
    by (auto simp: cbb_and_Pair)
qed

text \<open>The bytes that \<open>CBB_add_asn1_int64_with_tag\<close> writes for a negative number.\<close>

lemma rev_take_Suc: "n < length bs \<Longrightarrow> rev (take (Suc n) bs) = bs ! n # rev (take n bs)"
  by (simp add: take_Suc_conv_app_nth)

lemma skip_sign_le: "skip_sign_bytes bs n \<le> n"
  by (induction n) auto

lemma skip_sign_value:
  assumes "n < length bs" "asn1_int (rev (take (Suc n) bs)) < 0"
  shows "asn1_int (rev (take (Suc (skip_sign_bytes bs n)) bs)) = asn1_int (rev (take (Suc n) bs))
    \<and> CBS_is_valid_asn1_integer (rev (take (Suc (skip_sign_bytes bs n)) bs))"
  using assms
proof (induction n)
  case 0
  then show ?case by (simp add: rev_take_Suc is_valid_asn1_integer_Cons)
next
  case (Suc n)
  have e: "rev (take (Suc (Suc n)) bs) = bs ! Suc n # bs ! n # rev (take n bs)" "rev (take (Suc n) bs) = bs ! n # rev (take n bs)"
    using Suc.prems(1) by (simp_all add: rev_take_Suc)
  show ?case
  proof (cases "bs ! Suc n = 0xff \<and> 128 \<le> unat (bs ! n)")
    case True
    then have s: "skip_sign_bytes bs (Suc n) = skip_sign_bytes bs n" by (simp add: and_80_zero not_less)
    from True have "asn1_int (rev (take (Suc (Suc n)) bs)) = asn1_int (rev (take (Suc n) bs))"
      unfolding e asn1_int_drop by simp
    with Suc show ?thesis unfolding s by simp
  next
    case False
    then have s: "skip_sign_bytes bs (Suc n) = Suc n" by (auto simp: and_80_zero not_less)
    have "bs ! Suc n \<noteq> 0" using Suc.prems(2) int_be_val_less [of "rev (take (Suc (Suc n)) bs)"] unfolding e
      by (auto simp: asn1_int_def)
    with False show ?thesis unfolding s e by (auto simp: is_valid_asn1_integer_Cons)
  qed
qed

definition int_body :: "u64 \<Rightarrow> bytes" where
  "int_body v = (if 0 \<le> sint v then uint_body False (be_bytes 8 (unat v))
     else rev (take (Suc (skip_sign_bytes (le_bytes 8 (unat v)) 7)) (le_bytes 8 (unat v))))"

lemma sint_nonneg_unat: "0 \<le> sint (v :: u64) \<Longrightarrow> sint v = int (unat v)"
proof -
  assume a: "0 \<le> sint v"
  have b: "int (be_val (be_bytes 8 (unat v))) = int (unat v)" using unsigned_less [of v, where ?'a = nat] by simp
  have "int (unat v) < 2 ^ 64" using unsigned_less [of v, where ?'a = int] by simp
  with a show ?thesis using asn1_int_word [of v] b by (auto simp: asn1_int_def split: if_splits)
qed

lemma int_body_value: "CBS_is_valid_asn1_integer (int_body v) \<and> asn1_int (int_body v) = sint v"
proof (cases "0 \<le> sint v")
  case True
  have "be_val (be_bytes 8 (unat v)) = unat v" using unsigned_less [of v, where ?'a = nat] by simp
  with True uint_body_value [of "be_bytes 8 (unat v)"] show ?thesis by (simp add: int_body_def sint_nonneg_unat)
next
  case False
  define bs where "bs = le_bytes 8 (unat v)"
  have "rev (take (Suc 7) bs) = be_bytes 8 (unat v)" by (simp add: bs_def rev_le_bytes)
  then have v: "asn1_int (rev (take (Suc 7) bs)) = sint v" by (simp only: asn1_int_word)
  have "7 < length bs" by (simp add: bs_def)
  from skip_sign_value [OF this] v False
  have "asn1_int (rev (take (Suc (skip_sign_bytes bs 7)) bs)) = sint v
    \<and> CBS_is_valid_asn1_integer (rev (take (Suc (skip_sign_bytes bs 7)) bs))" by simp
  moreover have "int_body v = rev (take (Suc (skip_sign_bytes bs 7)) bs)" using False by (simp only: int_body_def bs_def if_False)
  ultimately show ?thesis by simp
qed

lemma grows_int64_rest: "n < length bs \<Longrightarrow> grows al q (rev (take (Suc n) bs)) (asn1_int64_bytes_loop al q bs (Suc n))"
proof (induction n)
  case 0
  have z: "asn1_int64_bytes_loop al q bs 0 = Pair True" by (simp add: fun_eq_iff)
  have "asn1_int64_bytes_loop al q bs (Suc 0) = cbb_and (CBB_add_u8 al q (bs ! 0)) (Pair True)"
    by (rule ext) (simp only: asn1_int64_bytes_loop.simps z)
  with 0 show ?case by (simp add: cbb_and_done grows_u8 rev_take_Suc)
next
  case (Suc n)
  have "asn1_int64_bytes_loop al q bs (Suc (Suc n)) = cbb_and (CBB_add_u8 al q (bs ! Suc n)) (asn1_int64_bytes_loop al q bs (Suc n))"
    by (rule ext) (simp only: asn1_int64_bytes_loop.simps)
  moreover have "grows al q (rev (take (Suc n) bs)) (asn1_int64_bytes_loop al q bs (Suc n))"
    by (rule Suc.IH) (use Suc.prems in simp)
  ultimately show ?case using grows_and [OF grows_u8, of al q "rev (take (Suc n) bs)" _ "bs ! Suc n"]
    by (simp only: rev_take_Suc [OF Suc.prems] append_Cons append_Nil)
qed

subsection \<open>The operations\<close>

text \<open>The result of an operation that adds one element behind \<open>p\<close>.\<close>

definition adds_element :: "allocator \<Rightarrow> cbb_ptr \<Rightarrow> u32 \<Rightarrow> bytes \<Rightarrow> (cbb \<Rightarrow> bool \<times> cbb) \<Rightarrow> bool" where
  "adds_element al p t body m \<longleftrightarrow> (\<forall>st. cbb_wf st \<longrightarrow> appends_at st p (der_element t body) (m st)) \<and>
     (\<forall>st n. can_add al p (length (der_element t body) + 5 + n) st \<longrightarrow> (\<exists>st'. m st = (True, st') \<and> can_add al p n st'))"

lemma adds_elementI:
  assumes m: "\<And>st. \<exists>q r. cbb_fresh q st \<and> grows al q body r \<and>
      m st = cbb_or_error p (cbb_and (cbb_and (CBB_add_asn1 al p q t) r) (CBB_flush al p)) st" and body: "length body \<le> 0xfffffffe"
  shows "adds_element al p t body m"
  unfolding adds_element_def
proof (intro conjI allI impI)
  fix st assume wf: "cbb_wf st"
  obtain q r where q: "cbb_fresh q st" "grows al q body r"
    "m st = cbb_or_error p (cbb_and (cbb_and (CBB_add_asn1 al p q t) r) (CBB_flush al p)) st" using m by blast
  then have "appends q body r" by (simp add: grows_def)
  from asn1_element_appends(1) [OF wf q(1) this] show "appends_at st p (der_element t body) (m st)"
    unfolding q(3) by (rule appends_or_error)
next
  fix st n assume c: "can_add al p (length (der_element t body) + 5 + n) st"
  obtain q r where q: "cbb_fresh q st" "grows al q body r"
    "m st = cbb_or_error p (cbb_and (cbb_and (CBB_add_asn1 al p q t) r) (CBB_flush al p)) st" using m by blast
  from asn1_element_succeeds [OF c q(1,2) body] show "\<exists>st'. m st = (True, st') \<and> can_add al p n st'"
    unfolding q(3) by (auto simp: cbb_or_error_def)
qed

text \<open>Flushing inside or outside of the error handler is the same: a failing flush has set the error.\<close>

lemma on_error_idem:
  assumes "cbb_wf st" "CBB_flush al p st = (False, st')" "cbb_locate p st = Some (a, b)"
  shows "cbb_on_error p st' = st'\<lparr>cbb_chain := a\<rparr>"
proof -
  note F = CBB_flush_spec [OF assms(1,3,2)]
  obtain bs where "cbb_chain st' = a @ bs" "cbb_root st' = cbb_root st"
    using assms(2,3) by (auto simp: CBB_flush_def split: prod.splits)
  with F have "cbb_locate p st' = Some (a, bs)" by (intro locate_prefix [OF _ _ _ assms(3)]) auto
  with F show ?thesis by (simp add: cbb_on_error_def cbb_buffer_error_def)
qed

lemma octet_string_element:
  "length data \<le> 0xfffffffe \<Longrightarrow> adds_element al p CBS_ASN1_OCTETSTRING data (CBB_add_asn1_octet_string al p data)"
proof (rule adds_elementI)
  fix st
  assume "length data \<le> 0xfffffffe"
  then have "grows al (cbb_local st) data (CBB_add_bytes al (cbb_local st) data)" by (intro grows_bytes) simp
  then show "\<exists>q r. cbb_fresh q st \<and> grows al q data r \<and> CBB_add_asn1_octet_string al p data st =
      cbb_or_error p (cbb_and (cbb_and (CBB_add_asn1 al p q CBS_ASN1_OCTETSTRING) r) (CBB_flush al p)) st"
    using cbb_local_fresh by (fastforce simp: CBB_add_asn1_octet_string_def Let_def cbb_and_assoc)
qed

lemma bool_element: "adds_element al p CBS_ASN1_BOOLEAN [if v then 0xff else 0] (CBB_add_asn1_bool al p v)"
proof (rule adds_elementI)
  fix st
  have "grows al (cbb_local st) [if v then 0xff else 0] (CBB_add_u8 al (cbb_local st) (if v then 0xff else 0))" by (rule grows_u8)
  then show "\<exists>q r. cbb_fresh q st \<and> grows al q [if v then 0xff else 0] r \<and> CBB_add_asn1_bool al p v st =
      cbb_or_error p (cbb_and (cbb_and (CBB_add_asn1 al p q CBS_ASN1_BOOLEAN) r) (CBB_flush al p)) st"
    using cbb_local_fresh by (fastforce simp: CBB_add_asn1_bool_def Let_def cbb_and_assoc)
qed simp

text \<open>The integer functions flush outside of the error handler.\<close>

lemma adds_elementI2:
  assumes m: "\<And>st. \<exists>q r. cbb_fresh q st \<and> grows al q body r \<and>
      m st = (case cbb_or_error p (cbb_and (CBB_add_asn1 al p q t) r) st of
                (False, st') \<Rightarrow> (False, st') | (True, st') \<Rightarrow> CBB_flush al p st')" and body: "length body \<le> 0xfffffffe"
  shows "adds_element al p t body m"
  unfolding adds_element_def
proof (intro conjI allI impI)
  fix st assume wf: "cbb_wf st"
  obtain q r where q: "cbb_fresh q st" "grows al q body r"
    "m st = cbb_and (cbb_or_error p (cbb_and (CBB_add_asn1 al p q t) r)) (CBB_flush al p) st"
    using m by (metis cbb_and_def)
  have "opens_at st p q 1 True (tag_bytes t) ([] @ body) (cbb_and (CBB_add_asn1 al p q t) r st)"
    by (rule opens_and) (rule opens_asn1 [OF wf q(1)], use q(2) in \<open>simp add: grows_def\<close>)
  then have "opens_at st p q 1 True (tag_bytes t) body (cbb_or_error p (cbb_and (CBB_add_asn1 al p q t) r) st)"
    by (intro opens_or_error) simp
  from opens_flush(1) [where m = "cbb_or_error p (cbb_and (CBB_add_asn1 al p q t) r)", OF this, of al]
  show "appends_at st p (der_element t body) (m st)"
    unfolding q(3) by (simp only: asn1_prefix der_element_def der_header_def append_assoc)
next
  fix st n assume c: "can_add al p (length (der_element t body) + 5 + n) st"
  obtain q r where q: "cbb_fresh q st" "grows al q body r"
    "m st = (case cbb_or_error p (cbb_and (CBB_add_asn1 al p q t) r) st of
                (False, st') \<Rightarrow> (False, st') | (True, st') \<Rightarrow> CBB_flush al p st')" using m by blast
  from asn1_element_succeeds [OF c q(1,2) body] show "\<exists>st'. m st = (True, st') \<and> can_add al p n st'"
    unfolding q(3) by (auto simp: cbb_or_error_def cbb_and_def split: prod.splits bool.splits)
qed

lemma length_uint_body: "length (uint_body False bs) \<le> Suc (length bs)"
  by (induction bs) auto

lemma uint64_element: "adds_element al p t (uint_body False (be_bytes 8 (unat v))) (CBB_add_asn1_uint64_with_tag al p v t)"
proof (rule adds_elementI2)
  show "length (uint_body False (be_bytes 8 (unat v))) \<le> 0xfffffffe"
    using length_uint_body [of "be_bytes 8 (unat v)"] by simp
  fix st
  have g: "grows al (cbb_local st) (uint_body False (be_bytes 8 (unat v))) (asn1_uint64_bytes_loop al (cbb_local st) v 8 False)"
    by (rule grows_uint64_loop)
  show "\<exists>q r. cbb_fresh q st \<and> grows al q (uint_body False (be_bytes 8 (unat v))) r \<and> CBB_add_asn1_uint64_with_tag al p v t st =
      (case cbb_or_error p (cbb_and (CBB_add_asn1 al p q t) r) st of
                (False, st') \<Rightarrow> (False, st') | (True, st') \<Rightarrow> CBB_flush al p st')"
    by (intro exI [of _ "cbb_local st"] exI [of _ "asn1_uint64_bytes_loop al (cbb_local st) v 8 False"] conjI
        cbb_local_fresh g) (simp add: CBB_add_asn1_uint64_with_tag_def Let_def)
qed

lemma int64_element: "adds_element al p t (int_body v) (CBB_add_asn1_int64_with_tag al p v t)"
proof (cases "0 \<le> sint v")
  case True
  then have "CBB_add_asn1_int64_with_tag al p v t = CBB_add_asn1_uint64_with_tag al p v t"
    by (simp add: fun_eq_iff CBB_add_asn1_int64_with_tag_def)
  with True uint64_element show ?thesis by (simp add: int_body_def)
next
  case False
  define bs where "bs = le_bytes 8 (unat v)"
  define n where "n = skip_sign_bytes bs 7"
  have n: "n < length bs" using skip_sign_le [of bs 7] by (simp add: n_def bs_def)
  have ib: "int_body v = rev (take (Suc n) bs)" using False by (simp only: int_body_def n_def bs_def if_False)
  show ?thesis unfolding ib
  proof (rule adds_elementI2)
    show "length (rev (take (Suc n) bs)) \<le> 0xfffffffe" by (simp add: bs_def min_def)
    fix st
    have g: "grows al (cbb_local st) (rev (take (Suc n) bs)) (asn1_int64_bytes_loop al (cbb_local st) bs (Suc n))"
      by (rule grows_int64_rest [OF n])
    show "\<exists>q r. cbb_fresh q st \<and> grows al q (rev (take (Suc n) bs)) r \<and> CBB_add_asn1_int64_with_tag al p v t st =
      (case cbb_or_error p (cbb_and (CBB_add_asn1 al p q t) r) st of
                (False, st') \<Rightarrow> (False, st') | (True, st') \<Rightarrow> CBB_flush al p st')"
      by (intro exI [of _ "cbb_local st"] exI [of _ "asn1_int64_bytes_loop al (cbb_local st) bs (Suc n)"] conjI
        cbb_local_fresh g) (simp only: CBB_add_asn1_int64_with_tag_def Let_def False if_False bs_def n_def)
  qed
qed

text \<open>Reading an element back.\<close>

lemma element_read:
  assumes "valid_tag t" "length p \<le> 0xfffffffe"
  shows "CBS_get_asn1 t (der_element t p @ r) = (Some p, r)"
  using assms by (simp add: CBS_get_asn1_iff)

lemma length_int_body: "length (int_body v) \<le> 9"
  using length_uint_body [of "be_bytes 8 (unat v)"] by (simp add: int_body_def min_def)

lemma int_read: "CBS_get_asn1_int64 (der_element CBS_ASN1_INTEGER (int_body v) @ r) = (Some v, r)"
  using int_body_value element_read [OF valid_tag_INTEGER] length_int_body [of v] by (auto simp: CBS_get_asn1_int64_iff)

section \<open>A whole builder\<close>

text \<open>From \<open>CBB_init\<close> over one or more operations on the top-level object to \<open>CBB_finish\<close>.\<close>

lemma init_can_add:
  assumes "always_allocates al" "cap \<le> 2 ^ 62"
  obtains st where "CBB_init al p cap = Some st" "can_add al p (2 ^ 61) st"
    "cbb_root st = p" "cbb_chain st = []" "cbb_written st = []"
proof -
  from assms(2) have "cap + 8 < 2 ^ 64" by simp
  with assms(1) obtain b where b: "OPENSSL_malloc al cap = Some b" "length b = cap" by (rule OPENSSL_malloc_succeeds)
  have "can_add al p (2 ^ 61) (cbb_init p b True)"
    using assms b by (simp add: can_add_def cbb_init_def cbb_wf_def buf_ok_def cbb_locate_def)
  with b show ?thesis by (intro that [of "cbb_init p b True"]) (simp_all add: CBB_init_def cbb_init_def written_def)
qed

lemma finish_result:
  assumes "cbb_wf st" "CBB_finish al p st = (Some (buf, len), st')"
  shows "p = cbb_root st" "take len buf = flushed (cbb_written st) (cbb_chain st)" "len = length (flushed (cbb_written st) (cbb_chain st))"
proof -
  from assms(2) obtain st1 where p: "p = cbb_root st" and f: "CBB_flush al p st = (True, st1)"
    and b: "buf = cb_buf (cbb_base st1)" "len = cb_len (cbb_base st1)"
    by (auto simp: CBB_finish_eq split: if_splits prod.splits bool.splits)
  have "cbb_locate p st = Some ([], cbb_chain st)" by (simp add: p cbb_locate_def)
  from CBB_flush_spec [OF assms(1) this f]
  have w: "cbb_wf st1" "cbb_written st1 = flushed (cbb_written st) (cbb_chain st)" by simp_all
  show "p = cbb_root st" by (rule p)
  show "take len buf = flushed (cbb_written st) (cbb_chain st)" using w(2) by (simp add: b written_def)
  have "buf_ok (cbb_base st1)" using w(1) by (simp add: cbb_wf_def)
  then show "len = length (flushed (cbb_written st) (cbb_chain st))" using w(2) by (metis b(2) length_written)
qed

lemma finish_succeeds:
  assumes "can_add al (cbb_root st) n st"
  obtains buf len st' where "CBB_finish al (cbb_root st) st = (Some (buf, len), st')"
proof -
  from assms have "can_add al (cbb_root st) (length [] + n) st" by simp
  with grows_flush obtain st' where "CBB_flush al (cbb_root st) st = (True, st')" unfolding grows_def by blast
  then show ?thesis by (intro that) (simp add: CBB_finish_eq)
qed

text \<open>One operation between the two calls.\<close>

definition build :: "allocator \<Rightarrow> nat \<Rightarrow> (cbb_ptr \<Rightarrow> cbb \<Rightarrow> bool \<times> cbb) \<Rightarrow> bytes option" where
  "build al cap m =
     (case CBB_init al 0 cap of None \<Rightarrow> None
      | Some st \<Rightarrow> (case m 0 st of (False, _) \<Rightarrow> None
          | (True, st') \<Rightarrow> (case CBB_finish al 0 st' of (None, _) \<Rightarrow> None
              | (Some (buf, len), _) \<Rightarrow> Some (take len buf))))"

lemma build_data:
  assumes al: "always_allocates al" "cap \<le> 2 ^ 62"
    and ap: "\<And>st. cbb_wf st \<Longrightarrow> appends_at st 0 d (m 0 st)"
    and ok: "\<And>st. can_add al 0 (2 ^ 61) st \<Longrightarrow> \<exists>st'. m 0 st = (True, st') \<and> can_add al 0 0 st'"
  shows "build al cap m = Some d"
proof -
  obtain st where st: "CBB_init al 0 cap = Some st" "can_add al 0 (2 ^ 61) st" "cbb_root st = 0"
    "cbb_chain st = []" "cbb_written st = []" using al by (rule init_can_add)
  from ok [OF st(2)] obtain st1 where m: "m 0 st = (True, st1)" and c: "can_add al 0 0 st1" by blast
  have wf: "cbb_wf st" using st(2) by (simp add: can_add_def)
  have l: "cbb_locate 0 st = Some ([], [])" by (simp add: cbb_locate_def st)
  from ap [OF wf] have a: "cbb_wf st1" "cbb_root st1 = 0" "cbb_written st1 = d" "cbb_chain st1 = []"
    unfolding m appends_at_def by (simp_all add: l st)
  from c a(2) obtain buf len st' where f: "CBB_finish al 0 st1 = (Some (buf, len), st')"
    using finish_succeeds [of al st1 0] by auto
  from finish_result(2) [OF a(1) f] show ?thesis by (simp add: build_def st m f a)
qed

lemma build_grows:
  assumes "always_allocates al" "cap \<le> 2 ^ 62" "grows al 0 d (m 0)" "length d \<le> 2 ^ 61"
  shows "build al cap m = Some d"
proof (rule build_data [OF assms(1,2)])
  show "appends_at st 0 d (m 0 st)" if "cbb_wf st" for st
    using assms(3) that by (simp add: grows_def appends_iff)
  fix st assume c: "can_add al 0 (2 ^ 61) st"
  have "can_add al 0 (length d + 0) st" by (rule can_add_less [OF c]) (use assms(4) in simp)
  then show "\<exists>st'. m 0 st = (True, st') \<and> can_add al 0 0 st'" using assms(3) unfolding grows_def by blast
qed

lemma build_element:
  assumes "always_allocates al" "cap \<le> 2 ^ 62" "adds_element al 0 t body (m 0)" "length (der_element t body) + 5 \<le> 2 ^ 61"
  shows "build al cap m = Some (der_element t body)"
proof (rule build_data [OF assms(1,2)])
  show "appends_at st 0 (der_element t body) (m 0 st)" if "cbb_wf st" for st
    using assms(3) that by (simp add: adds_element_def)
  fix st assume c: "can_add al 0 (2 ^ 61) st"
  have "can_add al 0 (length (der_element t body) + 5 + 0) st" by (rule can_add_less [OF c]) (use assms(4) in simp)
  then show "\<exists>st'. m 0 st = (True, st') \<and> can_add al 0 0 st'" using assms(3) unfolding adds_element_def by blast
qed

lemma length_der_element: "length p < 2 ^ 32 \<Longrightarrow> length (der_element t p) \<le> 11 + length p"
proof -
  assume p: "length p < 2 ^ 32"
  have "byte_count (length p) \<le> 4" using p by (simp add: byte_count_iff)
  then have "length (length_bytes (length p)) \<le> 5" by (simp add: length_bytes_def)
  with length_tag_bytes [of t] show ?thesis by (simp add: der_element_def der_header_def)
qed

section \<open>Properties\<close>

text \<open>
  Claim C3.  Round trip of INTEGER over a whole builder: with an allocator that does not fail,
  \<open>CBB_init\<close>, \<open>CBB_add_asn1_int64\<close> and \<open>CBB_finish\<close> produce a byte string, and \<open>CBS_get_asn1_int64\<close>
  reads the number back from it, leaving what follows it.  This holds for every 64-bit number and
  every initial capacity, so also when the buffer has to grow.
\<close>

theorem int64_roundtrip:
  assumes "always_allocates al" "cap \<le> 2 ^ 62"
  shows "\<exists>der. build al cap (\<lambda>p. CBB_add_asn1_int64 al p v) = Some der \<and> CBS_get_asn1_int64 (der @ r) = (Some v, r)"
proof -
  have "build al cap (\<lambda>p. CBB_add_asn1_int64 al p v) = Some (der_element CBS_ASN1_INTEGER (int_body v))"
    unfolding CBB_add_asn1_int64_def
    by (rule build_element [OF assms, where m = "\<lambda>p. CBB_add_asn1_int64_with_tag al p v CBS_ASN1_INTEGER", OF int64_element])
      (use length_der_element [of "int_body v" CBS_ASN1_INTEGER] length_int_body [of v] in simp)
  with int_read show ?thesis by blast
qed

theorem int64_roundtrip_witness:
  "\<exists>der. build (\<lambda>_. Some (\<lambda>_. 0)) 0 (\<lambda>p. CBB_add_asn1_int64 (\<lambda>_. Some (\<lambda>_. 0)) p (- 129)) = Some der
     \<and> CBS_get_asn1_int64 (der @ [5, 0]) = (Some (- 129), [5, 0])"
  by (rule int64_roundtrip) (simp_all add: always_allocates_def)

end
