(* ===== verification/Oid.thy ===== *)
theory Oid imports Der begin

text \<open>
  OBJECT IDENTIFIERs and text (\<open>CBS_asn1_oid_to_text\<close> in cbs.c, \<open>CBB_add_asn1_oid_from_text\<close> in
  cbb.c): the arcs of an identifier, their dotted decimal text and their DER contents, and that
  the two functions translate between exactly these.
\<close>

section \<open>CBS\_asn1\_oid\_to\_text\<close>

text \<open>\<open>snprintf("%" PRIu64)\<close> is \<open>decimal\<close>.\<close>

definition add_decimal :: "allocator \<Rightarrow> cbb_ptr \<Rightarrow> u64 \<Rightarrow> cbb \<Rightarrow> bool \<times> cbb" where
  "add_decimal al out v = CBB_add_bytes al out (decimal (unat v))"

text \<open>The fuel is the number of bytes left, and every component takes one.\<close>

fun oid_components :: "nat \<Rightarrow> allocator \<Rightarrow> cbb_ptr \<Rightarrow> bytes \<Rightarrow> cbb \<Rightarrow> bool \<times> cbb" where
  "oid_components fuel al p [] st = (True, st)"
| "oid_components 0 al p (c # copy) st = (False, st)"
| "oid_components (Suc fuel) al p (c # copy) st =
     (case parse_base128_integer (c # copy) of
        (None, _) \<Rightarrow> (False, st)
      | (Some v, copy') \<Rightarrow>
          cbb_and (CBB_add_u8 al p 0x2e) (cbb_and (add_decimal al p v) (oid_components fuel al p copy')) st)"

definition oid_text_body :: "allocator \<Rightarrow> cbb_ptr \<Rightarrow> bytes \<Rightarrow> cbb \<Rightarrow> bool \<times> cbb" where
  "oid_text_body al p cbs st =
     (case parse_base128_integer cbs of
        (None, _) \<Rightarrow> (False, st)
      | (Some v, copy) \<Rightarrow>
          cbb_and
            (if 80 \<le> v then cbb_and (CBB_add_bytes al p [0x32, 0x2e]) (add_decimal al p (v - 80))
             else cbb_and (add_decimal al p (v div 40)) (cbb_and (CBB_add_u8 al p 0x2e) (add_decimal al p (v mod 40))))
            (cbb_and (oid_components (length copy) al p copy) (CBB_add_u8 al p 0)) st)"

definition CBS_asn1_oid_to_text :: "allocator \<Rightarrow> bytes \<Rightarrow> bytes option" where
  "CBS_asn1_oid_to_text al cbs =
     (case CBB_init al 0 32 of None \<Rightarrow> None
      | Some st \<Rightarrow>
          (case oid_text_body al 0 cbs st of (False, _) \<Rightarrow> None
           | (True, st') \<Rightarrow>
               (case CBB_finish al 0 st' of (None, _) \<Rightarrow> None
                | (Some (txt, txt_len), _) \<Rightarrow> Some (take txt_len txt))))"

lemma oid_to_text_build: "CBS_asn1_oid_to_text al cbs = build al 32 (\<lambda>p. oid_text_body al p cbs)"
  by (simp add: CBS_asn1_oid_to_text_def build_def)

section \<open>Arcs\<close>

text \<open>The identifiers both functions can represent.\<close>

fun oid_ok :: "nat list \<Rightarrow> bool" where
  "oid_ok (a # b # cs) \<longleftrightarrow> a \<le> 2 \<and> (a < 2 \<longrightarrow> b < 40) \<and> b + 80 < 2 ^ 64 \<and> (\<forall>c \<in> set cs. c < 2 ^ 64)"
| "oid_ok _ \<longleftrightarrow> False"

fun oid_der :: "nat list \<Rightarrow> bytes" where
  "oid_der (a # b # cs) = base128_bytes (40 * a + b) @ concat (map base128_bytes cs)"
| "oid_der _ = []"

fun dotted :: "nat list \<Rightarrow> bytes" where
  "dotted [] = []"
| "dotted (c # cs) = 0x2e # decimal c @ dotted cs"

fun oid_text :: "nat list \<Rightarrow> bytes" where
  "oid_text (a # b # cs) = decimal a @ 0x2e # decimal b @ dotted cs"
| "oid_text _ = []"

lemma nil_not_decimal [simp]: "[] \<noteq> decimal n"
  by (rule decimal_nonempty [symmetric])

lemma length_decimal: "n < 10 ^ Suc k \<Longrightarrow> length (decimal n) \<le> Suc k"
proof (induction k arbitrary: n)
  case (Suc k)
  show ?case
  proof (cases "n < 10")
    case False
    then show ?thesis using Suc.IH [of "n div 10"] Suc.prems by (simp add: decimal_step less_mult_imp_div_less)
  qed (simp add: decimal_small)
qed (simp add: decimal_small)

lemma u64_decimal: "length (decimal (unat (v :: u64))) \<le> 20"
  using length_decimal [of "unat v" 19] unsigned_less [of v, where ?'a = nat] by simp

lemma unat_u64: "c < 2 ^ 64 \<Longrightarrow> unat (word_of_nat c :: u64) = c"
  by (simp add: unsigned_of_nat take_bit_nat_eq_self)

lemma grows_add_decimal: "grows al p (decimal (unat v)) (add_decimal al p v)"
  unfolding add_decimal_def by (rule grows_bytes) (use u64_decimal [of v] in simp)

lemma oid_components_grows:
  assumes "\<forall>c \<in> set cs. c < 2 ^ 64" "length (concat (map base128_bytes cs)) \<le> fuel" "grows al p d m"
  shows "grows al p (d @ dotted cs) (cbb_and m (oid_components fuel al p (concat (map base128_bytes cs))))"
  using assms
proof (induction cs arbitrary: fuel d m)
  case Nil
  have "oid_components fuel al p [] = Pair True" by (rule ext) simp
  with Nil.prems(3) show ?case by (simp add: cbb_and_done)
next
  case (Cons c cs)
  define rest where "rest = concat (map base128_bytes cs)"
  define v :: u64 where "v = word_of_nat c"
  have v: "unat v = c" using Cons.prems(1) by (simp add: v_def unat_u64)
  obtain b bs where b: "base128_bytes c @ rest = b # bs" by (cases "base128_bytes c @ rest") auto
  have "length rest < length (base128_bytes c @ rest)" by simp
  moreover have "length (base128_bytes c @ rest) \<le> fuel" using Cons.prems(2) by (simp add: rest_def)
  ultimately obtain k where k: "fuel = Suc k" "length rest \<le> k" by (cases fuel) auto
  have "parse_base128_integer (base128_bytes c @ rest) = (Some v, rest)" by (simp add: parse_base128_integer_iff v)
  then have step: "oid_components fuel al p (base128_bytes c @ rest) =
      cbb_and (cbb_and (CBB_add_u8 al p 0x2e) (add_decimal al p v)) (oid_components k al p rest)"
    by (intro ext) (simp add: b k(1) cbb_and_assoc)
  have "grows al p (d @ [0x2e] @ decimal (unat v)) (cbb_and m (cbb_and (CBB_add_u8 al p 0x2e) (add_decimal al p v)))"
    by (intro grows_and grows_u8 grows_add_decimal Cons.prems(3))
  from Cons.IH [OF _ _ this, of k] Cons.prems(1) k(2)
  have "grows al p ((d @ [0x2e] @ decimal (unat v)) @ dotted cs)
     (cbb_and (cbb_and m (cbb_and (CBB_add_u8 al p 0x2e) (add_decimal al p v))) (oid_components k al p rest))"
    by (simp add: rest_def)
  then show ?case using step by (simp add: v rest_def cbb_and_assoc)
qed

lemma oid_text_body_grows:
  assumes "oid_ok arcs"
  shows "grows al p (oid_text arcs @ [0]) (oid_text_body al p (oid_der arcs))"
  using assms
proof (cases arcs rule: oid_ok.cases)
  case (1 a b cs)
  define v :: u64 where "v = word_of_nat (40 * a + b)"
  from assms 1 have ok: "a \<le> 2" "a < 2 \<longrightarrow> b < 40" "b + 80 < 2 ^ 64" "\<forall>c \<in> set cs. c < 2 ^ 64" by auto
  then have "40 * a + b < 2 ^ 64" by linarith
  then have v: "unat v = 40 * a + b" unfolding v_def by (rule unat_u64)
  define rest where "rest = concat (map base128_bytes cs)"
  define first where "first = (if 80 \<le> v then cbb_and (CBB_add_bytes al p [0x32, 0x2e]) (add_decimal al p (v - 80))
             else cbb_and (add_decimal al p (v div 40)) (cbb_and (CBB_add_u8 al p 0x2e) (add_decimal al p (v mod 40))))"
  have p: "parse_base128_integer (oid_der arcs) = (Some v, rest)"
    by (simp add: 1 parse_base128_integer_iff v rest_def)
  have body: "oid_text_body al p (oid_der arcs) = cbb_and first (cbb_and (oid_components (length rest) al p rest) (CBB_add_u8 al p 0))"
    by (rule ext) (simp only: oid_text_body_def p first_def prod.case option.case)
  have "grows al p (decimal a @ [0x2e] @ decimal b) first"
  proof (cases "80 \<le> v")
    case True
    then have "80 \<le> 40 * a + b" by (simp add: word_le_nat_alt v)
    with ok have a: "a = 2" by (cases "a < 2") auto
    have "unat (v - 80) = b" using True v a by (simp add: unat_sub)
    then have "grows al p ([0x32, 0x2e] @ decimal b) (cbb_and (CBB_add_bytes al p [0x32, 0x2e]) (add_decimal al p (v - 80)))"
      using grows_add_decimal [of al p "v - 80"] by (intro grows_and grows_bytes) simp_all
    moreover have "decimal a = [0x32]" by (simp add: a decimal_small)
    ultimately show ?thesis using True by (simp add: first_def)
  next
    case False
    then have "40 * a + b < 80" by (simp add: word_le_nat_alt v not_le)
    then have b: "b < 40" using ok by (cases "a = 2") auto
    then have "unat (v div 40) = a" "unat (v mod 40) = b" by (simp_all add: unat_div_distrib unat_mod_distrib v)
    with grows_and [OF grows_add_decimal grows_and [OF grows_u8 grows_add_decimal], of al p "v div 40" "0x2e" "v mod 40"]
    show ?thesis using False by (simp add: first_def)
  qed
  from grows_and [OF oid_components_grows [OF ok(4) order_refl this] grows_u8, of 0]
  show ?thesis unfolding body by (simp add: rest_def 1 cbb_and_assoc)
qed auto

lemma oid_components_sound:
  "oid_components fuel al p c st = (True, st') \<Longrightarrow> \<exists>cs. (\<forall>c \<in> set cs. c < 2 ^ 64) \<and> c = concat (map base128_bytes cs)"
proof (induction fuel al p c st arbitrary: st' rule: oid_components.induct)
  case (1 fuel al p st)
  show ?case by (rule exI [of _ "[]"]) simp
next
  case (3 fuel al p c copy st)
  then obtain v copy' where v: "parse_base128_integer (c # copy) = (Some v, copy')"
    by (auto split: prod.splits option.splits)
  with "3.prems" obtain st1 where "oid_components fuel al p copy' st1 = (True, st')"
    by (auto simp: cbb_and_def split: prod.splits bool.splits)
  with "3.IH" v obtain cs where "\<forall>c \<in> set cs. c < 2 ^ 64" "copy' = concat (map base128_bytes cs)"
    by (metis (no_types, lifting))
  with v unsigned_less [of v, where ?'a = nat] show ?case
    by (intro exI [of _ "unat v # cs"]) (simp add: parse_base128_integer_iff)
qed simp

lemma oid_text_body_sound:
  assumes "oid_text_body al p c st = (True, st')"
  shows "\<exists>arcs. oid_ok arcs \<and> c = oid_der arcs"
proof -
  from assms obtain v copy where v: "parse_base128_integer c = (Some v, copy)"
    by (auto simp: oid_text_body_def split: prod.splits option.splits)
  with assms obtain st1 st2 where "oid_components (length copy) al p copy st1 = (True, st2)"
    by (auto simp: oid_text_body_def cbb_and_def split: prod.splits bool.splits if_splits)
  from oid_components_sound [OF this] obtain cs where cs: "\<forall>c \<in> set cs. c < 2 ^ 64" "copy = concat (map base128_bytes cs)"
    by blast
  define a where "a = (if 80 \<le> unat v then 2 else unat v div 40)"
  have b: "unat v < 2 ^ 64" using unsigned_less [of v, where ?'a = nat] by simp
  have "oid_ok (a # (unat v - 40 * a) # cs) \<and> 40 * a + (unat v - 40 * a) = unat v"
    using cs(1) b by (auto simp: a_def)
  then have "oid_ok (a # (unat v - 40 * a) # cs)" "40 * a + (unat v - 40 * a) = unat v" by blast+
  with v cs(2) show ?thesis by (intro exI [of _ "a # (unat v - 40 * a) # cs"]) (simp only: parse_base128_integer_iff oid_der.simps simp_thms)
qed

section \<open>CBB\_add\_asn1\_oid\_from\_text\<close>

lemma dot_no_digit [simp]: "\<not> OPENSSL_isdigit 46"
  by (simp add: OPENSSL_isdigit_def)

text \<open>One component and its dot, unless it is the last one.\<close>

lemma parse_dotted_decimal_iff:
  "parse_dotted_decimal c = (Some v, r) \<longleftrightarrow> (r = [] \<and> c = decimal (unat v)) \<or> (r \<noteq> [] \<and> c = decimal (unat v) @ 0x2e # r)"
proof
  assume "parse_dotted_decimal c = (Some v, r)"
  then obtain r' where d: "CBS_get_u64_decimal c = (Some v, r')"
    and t: "(case CBS_get_u8 r' of (None, cbs') \<Rightarrow> (Some v, cbs')
       | (Some dot, cbs') \<Rightarrow> (if dot = 0x2e \<and> 0 < length cbs' then (Some v, cbs') else (None, cbs'))) = (Some v, r)"
    by (auto simp: parse_dotted_decimal_def elim!: rbind_SomeE split: prod.splits option.splits if_splits)
  from t have "(r = [] \<and> r' = []) \<or> (r \<noteq> [] \<and> r' = 0x2e # r)"
    by (cases r') (auto simp: cbs_simps split: if_splits)
  with d show "(r = [] \<and> c = decimal (unat v)) \<or> (r \<noteq> [] \<and> c = decimal (unat v) @ 0x2e # r)"
    by (auto simp: CBS_get_u64_decimal_iff)
next
  have e: "parse_dotted_decimal (decimal (unat v) @ r') = (case CBS_get_u8 r' of (None, cbs') \<Rightarrow> (Some v, cbs')
       | (Some dot, cbs') \<Rightarrow> (if dot = 0x2e \<and> 0 < length cbs' then (Some v, cbs') else (None, cbs')))"
    if "r' = [] \<or> \<not> digit (hd r')" for r'
  proof -
    have "CBS_get_u64_decimal (decimal (unat v) @ r') = (Some v, r')" using that by (simp only: CBS_get_u64_decimal_iff)
    then show ?thesis by (simp add: parse_dotted_decimal_def rbind_def)
  qed
  assume "(r = [] \<and> c = decimal (unat v)) \<or> (r \<noteq> [] \<and> c = decimal (unat v) @ 0x2e # r)"
  then show "parse_dotted_decimal c = (Some v, r)" using e [of "[]"] e [of "0x2e # r"] by (auto simp: cbs_simps)
qed

lemma oid_text_loop_grows:
  assumes "\<forall>c \<in> set cs. c < 2 ^ 64" "length (dotted cs) \<le> Suc fuel" "grows al p d m"
  shows "grows al p (d @ concat (map base128_bytes cs)) (cbb_and m (oid_text_loop fuel al p (tl (dotted cs))))"
  using assms
proof (induction cs arbitrary: fuel d m)
  case Nil
  have "oid_text_loop fuel al p [] = Pair True" by (rule ext) simp
  with Nil.prems(3) show ?case by (simp add: cbb_and_done)
next
  case (Cons c cs)
  define v :: u64 where "v = word_of_nat c"
  have v: "unat v = c" using Cons.prems(1) by (simp add: v_def unat_u64)
  define t where "t = decimal c @ dotted cs"
  obtain b bs where b: "t = b # bs" by (cases t) (auto simp: t_def)
  have dl: "0 < length (decimal c)" by simp
  obtain k where k: "fuel = Suc k" "length (dotted cs) \<le> Suc k"
    using Cons.prems(2) dl by (cases fuel) (auto simp: Suc_le_eq)
  have "parse_dotted_decimal t = (Some v, tl (dotted cs))"
    unfolding parse_dotted_decimal_iff v by (cases cs) (simp_all add: t_def)
  then have step: "oid_text_loop fuel al p t = cbb_and (add_base128_integer al p v) (oid_text_loop k al p (tl (dotted cs)))"
    by (intro ext) (simp add: b k(1))
  have "grows al p (d @ base128_bytes (unat v)) (cbb_and m (add_base128_integer al p v))"
    by (intro grows_and grows_base128 Cons.prems(3))
  from Cons.IH [OF _ k(2) this] Cons.prems(1)
  have "grows al p ((d @ base128_bytes (unat v)) @ concat (map base128_bytes cs))
     (cbb_and (cbb_and m (add_base128_integer al p v)) (oid_text_loop k al p (tl (dotted cs))))" by simp
  then show ?case using step by (simp add: v t_def cbb_and_assoc)
qed

text \<open>The fuel is enough: every component takes a byte.\<close>

lemma oid_text_loop_fuel:
  "length c \<le> fuel \<Longrightarrow> oid_text_loop fuel al p c st = oid_text_loop (length c) al p c st"
proof (induction "length c" arbitrary: c fuel st rule: less_induct)
  case less
  show ?case
  proof (cases c)
    case (Cons b bs)
    with less.prems obtain k where k: "fuel = Suc k" "length bs \<le> k" by (cases fuel) auto
    have "oid_text_loop k al p c' st' = oid_text_loop (length bs) al p c' st'"
      if "parse_dotted_decimal c = (Some v, c')" for v c' st'
    proof -
      have "length c' < length c" using that by (auto simp: parse_dotted_decimal_iff)
      then show ?thesis using less.hyps [of c' k st'] less.hyps [of c' "length bs" st'] k Cons by simp
    qed
    then show ?thesis by (auto simp: Cons k(1) cbb_and_def split: prod.splits option.splits bool.splits)
  qed simp
qed

lemma oid_text_loop_sound:
  "oid_text_loop fuel al p c st = (True, st') \<Longrightarrow> c = [] \<or> (\<exists>cs. (\<forall>c \<in> set cs. c < 2 ^ 64) \<and> 0x2e # c = dotted cs)"
proof (induction fuel al p c st arbitrary: st' rule: oid_text_loop.induct)
  case (3 fuel al p c cbs st)
  then obtain v cbs' where v: "parse_dotted_decimal (c # cbs) = (Some v, cbs')"
    by (auto split: prod.splits option.splits)
  with "3.prems" obtain st1 where "oid_text_loop fuel al p cbs' st1 = (True, st')"
    by (auto simp: cbb_and_def split: prod.splits bool.splits)
  with "3.IH" v have IH: "cbs' = [] \<or> (\<exists>cs. (\<forall>c \<in> set cs. c < 2 ^ 64) \<and> 0x2e # cbs' = dotted cs)"
    by (metis (no_types, lifting))
  have b: "unat v < 2 ^ 64" using unsigned_less [of v, where ?'a = nat] by simp
  show ?case
  proof (cases "cbs' = []")
    case True
    with v b show ?thesis by (intro disjI2 exI [of _ "[unat v]"]) (simp add: parse_dotted_decimal_iff)
  next
    case False
    with IH obtain cs where "\<forall>c \<in> set cs. c < 2 ^ 64" "0x2e # cbs' = dotted cs" by blast
    with v b False show ?thesis by (intro disjI2 exI [of _ "unat v # cs"]) (simp add: parse_dotted_decimal_iff)
  qed
qed simp_all

text \<open>The arcs that the parsed text stands for.\<close>

lemma oid_from_text_grows:
  assumes "oid_ok arcs"
  shows "grows al p (oid_der arcs) (CBB_add_asn1_oid_from_text al p (oid_text arcs))"
  using assms
proof (cases arcs rule: oid_ok.cases)
  case (1 a b cs)
  define va vb :: u64 where "va = word_of_nat a" and "vb = word_of_nat b"
  from assms 1 have ok: "a \<le> 2" "a < 2 \<longrightarrow> b < 40" "b + 80 < 2 ^ 64" "\<forall>c \<in> set cs. c < 2 ^ 64" by auto
  have va: "unat va = a" unfolding va_def by (rule unat_u64) (use ok in linarith)
  have vb: "unat vb = b" unfolding vb_def by (rule unat_u64) (use ok in linarith)
  have pa: "parse_dotted_decimal (oid_text arcs) = (Some va, decimal b @ dotted cs)"
    unfolding parse_dotted_decimal_iff va by (simp add: 1)
  have pb: "parse_dotted_decimal (decimal b @ dotted cs) = (Some vb, tl (dotted cs))"
    unfolding parse_dotted_decimal_iff vb by (cases cs) simp_all
  have u80: "unat (- 1 - 80 :: u64) = 2 ^ 64 - 81" by simp
  have g: "\<not> (2 < va \<or> (va < 2 \<and> 39 < vb) \<or> - 1 - 80 < vb)"
    using ok by (auto simp: word_less_nat_alt va vb)
  have v: "unat (40 * va + vb) = 40 * a + b"
  proof -
    have "40 * a + b < 2 ^ 64" using ok by linarith
    then have "unat (word_of_nat (40 * a + b) :: u64) = 40 * a + b" by (rule unat_u64)
    then show ?thesis by (simp add: va_def vb_def)
  qed
  have body: "CBB_add_asn1_oid_from_text al p (oid_text arcs) =
    cbb_and (cbb_and (CBB_flush al p) (add_base128_integer al p (40 * va + vb)))
      (oid_text_loop (length (tl (dotted cs))) al p (tl (dotted cs)))"
    by (simp only: CBB_add_asn1_oid_from_text_def pa pb prod.case option.case g if_False cbb_and_assoc)
  have "grows al p ([] @ base128_bytes (40 * a + b)) (cbb_and (CBB_flush al p) (add_base128_integer al p (40 * va + vb)))"
    using grows_base128 [of al p "40 * va + vb"] by (intro grows_and grows_flush) (simp only: v)
  from oid_text_loop_grows [OF ok(4) _ this, of "length (tl (dotted cs))"]
  show ?thesis unfolding body by (cases cs) (simp_all add: 1)
qed auto

lemma oid_from_text_sound:
  assumes "CBB_add_asn1_oid_from_text al p text st = (True, st')"
  shows "\<exists>arcs. oid_ok arcs \<and> text = oid_text arcs"
proof -
  obtain fl st1 where fl: "CBB_flush al p st = (fl, st1)" by fastforce
  with assms have fl: "CBB_flush al p st = (True, st1)" by (cases fl) (simp_all add: CBB_add_asn1_oid_from_text_def cbb_and_def)
  from assms have s: "(case parse_dotted_decimal text of (None, _) \<Rightarrow> (False, st1)
       | (Some a, cbs) \<Rightarrow>
       (case parse_dotted_decimal cbs of (None, _) \<Rightarrow> (False, st1)
       | (Some b, cbs) \<Rightarrow>
           if 2 < a \<or> (a < 2 \<and> 39 < b) \<or> - 1 - 80 < b then (False, st1)
           else cbb_and (add_base128_integer al p (40 * a + b)) (oid_text_loop (length cbs) al p cbs) st1)) = (True, st')"
    by (simp only: CBB_add_asn1_oid_from_text_def cbb_and_def [of "CBB_flush al p"] fl prod.case bool.case)
  then obtain a c1 where a: "parse_dotted_decimal text = (Some a, c1)" by (auto split: prod.splits option.splits)
  with s obtain b c2 where b: "parse_dotted_decimal c1 = (Some b, c2)" by (auto split: prod.splits option.splits)
  with s a have g: "\<not> (2 < a \<or> (a < 2 \<and> 39 < b) \<or> - 1 - 80 < b)" 
    and l: "cbb_and (add_base128_integer al p (40 * a + b)) (oid_text_loop (length c2) al p c2) st1 = (True, st')"
    by (simp_all split: if_splits)
  from l obtain st2 where "oid_text_loop (length c2) al p c2 st2 = (True, st')"
    by (auto simp: cbb_and_def split: prod.splits bool.splits)
  note sound = oid_text_loop_sound [OF this]
  have "\<exists>cs. (\<forall>c \<in> set cs. c < 2 ^ 64) \<and> dotted cs = (if c2 = [] then [] else 0x2e # c2)"
  proof (cases "c2 = []")
    case True
    then show ?thesis by (intro exI [of _ "[]"]) simp
  next
    case False
    with sound obtain cs where "\<forall>c \<in> set cs. c < 2 ^ 64" "0x2e # c2 = dotted cs" by blast
    with False show ?thesis by (intro exI [of _ cs]) simp
  qed
  then obtain cs where cs: "\<forall>c \<in> set cs. c < 2 ^ 64" "dotted cs = (if c2 = [] then [] else 0x2e # c2)" by blast
  have "c1 = decimal (unat b) @ dotted cs" using b cs(2) by (auto simp: parse_dotted_decimal_iff split: if_splits)
  moreover have "c1 \<noteq> []" using b by (auto simp: parse_dotted_decimal_iff)
  ultimately have "text = oid_text (unat a # unat b # cs)" using a by (simp add: parse_dotted_decimal_iff)
  moreover have "oid_ok (unat a # unat b # cs)"
  proof -
    have "unat a \<le> 2" "unat a < 2 \<longrightarrow> unat b < 40" "unat b \<le> 2 ^ 64 - 81"
      using g by (auto simp: word_less_nat_alt)
    with cs(1) show ?thesis by auto
  qed
  ultimately show ?thesis by blast
qed

section \<open>Properties\<close>

text \<open>
  Claim C7.  \<open>CBB_add_asn1_oid_from_text\<close> accepts exactly the dotted decimal texts of identifiers
  with at least two arcs, the first at most 2, the second below 40 under a first arc of 0 or 1,
  and every number in 64 bits, without leading zeros.  When it succeeds on a well-formed builder
  it has appended the DER contents of that identifier; and with an allocator that does not fail and
  room in the address space it does succeed.
\<close>

theorem oid_from_text_correct:
  "(oid_ok arcs \<longrightarrow> grows al p (oid_der arcs) (CBB_add_asn1_oid_from_text al p (oid_text arcs)))
   \<and> (fst (CBB_add_asn1_oid_from_text al p text st) \<longrightarrow> (\<exists>arcs. oid_ok arcs \<and> text = oid_text arcs))"
proof -
  have "\<exists>arcs. oid_ok arcs \<and> text = oid_text arcs" if "fst (CBB_add_asn1_oid_from_text al p text st)"
    by (rule oid_from_text_sound [of al p "text" st "snd (CBB_add_asn1_oid_from_text al p text st)"])
      (use that in \<open>simp add: prod_eq_iff\<close>)
  with oid_from_text_grows show ?thesis by blast
qed

theorem oid_from_text_correct_witness:
  "\<exists>st'. CBB_add_asn1_oid_from_text (\<lambda>_. Some (\<lambda>_. 0)) 0 [0x31, 0x2e, 0x32, 0x2e, 0x33] (cbb_init 0 [] True) = (True, st')"
proof -
  define al :: allocator where "al = (\<lambda>_. Some (\<lambda>_. 0))"
  have t: "oid_text [1, 2, 3] = [0x31, 0x2e, 0x32, 0x2e, 0x33]" by (simp add: decimal_small)
  have l: "length (oid_der [1, 2, 3]) = 2" by (simp add: base128_bytes_def)
  have "grows al 0 (oid_der [1, 2, 3]) (CBB_add_asn1_oid_from_text al 0 (oid_text [1, 2, 3]))"
    using oid_from_text_correct [of "[1, 2, 3]" al 0 "[]" "cbb_init 0 [] True"] by simp
  moreover have "can_add al 0 (length (oid_der [1, 2, 3]) + 0) (cbb_init 0 [] True)"
    unfolding l by (simp add: can_add_def cbb_init_def cbb_wf_def buf_ok_def cbb_locate_def always_allocates_def al_def)
  ultimately show ?thesis unfolding grows_def t al_def by blast
qed

text \<open>
  Claim C8.  \<open>CBS_asn1_oid_to_text\<close> turns the DER contents of an identifier into its dotted decimal
  text and the terminating zero, and it returns null for contents that are not those of an
  identifier whose numbers fit in 64 bits.
\<close>

theorem oid_to_text_correct:
  assumes "always_allocates al"
  shows "(oid_ok arcs \<and> length (oid_text arcs) < 2 ^ 61 \<longrightarrow> CBS_asn1_oid_to_text al (oid_der arcs) = Some (oid_text arcs @ [0]))
    \<and> ((\<forall>arcs. oid_ok arcs \<longrightarrow> c \<noteq> oid_der arcs) \<longrightarrow> CBS_asn1_oid_to_text al c = None)"
proof (intro conjI impI)
  show "CBS_asn1_oid_to_text al (oid_der arcs) = Some (oid_text arcs @ [0])"
    if "oid_ok arcs \<and> length (oid_text arcs) < 2 ^ 61"
    unfolding oid_to_text_build by (rule build_grows) (use that assms oid_text_body_grows in auto)
  assume c: "\<forall>arcs. oid_ok arcs \<longrightarrow> c \<noteq> oid_der arcs"
  then have "\<not> fst (oid_text_body al 0 c st)" for st
    using oid_text_body_sound [of al 0 c st] by (cases "oid_text_body al 0 c st") auto
  then show "CBS_asn1_oid_to_text al c = None"
    by (auto simp: CBS_asn1_oid_to_text_def split: option.splits prod.splits bool.splits) (metis fst_conv)+
qed

theorem oid_to_text_correct_witness:
  "CBS_asn1_oid_to_text (\<lambda>_. Some (\<lambda>_. 0)) (oid_der [2, 999, 3]) = Some (oid_text [2, 999, 3] @ [0])
    \<and> length (oid_text [2, 999, 3]) = 7"
proof -
  have l: "length (oid_text [2, 999, 3]) = 7" by (simp add: decimal_small decimal_step)
  then show ?thesis using oid_to_text_correct [of "\<lambda>_. Some (\<lambda>_. 0)" "[2, 999, 3]"]
    by (simp add: always_allocates_def del: oid_text.simps oid_der.simps)
qed

end
