(* ===== verification/SetOf.thy ===== *)
theory SetOf imports Der "HOL-Library.List_Lexorder" begin

text \<open>
  SET OF (\<open>CBB_flush_asn1_set_of\<close> in cbb.c): the comparison of the encodings is the lexicographic
  order of the octets, and the flush leaves the elements of the builder in that order.
\<close>

lemma compare_set_of_Nil: "compare_set_of_element [] b = (if b = [] then 0 else - 1)"
  "compare_set_of_element a [] = (if a = [] then 0 else 1)"
  by (simp_all add: compare_set_of_element_def OPENSSL_memcmp_def Let_def)

lemma compare_set_of_Cons:
  "compare_set_of_element (a # as) (b # bs) =
     (if a < b then - 1 else if b < a then 1 else compare_set_of_element as bs)"
  by (simp add: compare_set_of_element_def OPENSSL_memcmp_def Let_def)

lemma compare_set_of_le: "compare_set_of_element a b \<le> 0 \<longleftrightarrow> a \<le> b"
proof (induction a arbitrary: b)
  case Nil
  show ?case by (simp add: compare_set_of_Nil)
next
  case (Cons x xs)
  show ?case by (cases b) (auto simp: compare_set_of_Nil compare_set_of_Cons Cons.IH)
qed

lemma compare_set_of_sym: "compare_set_of_element b a = - compare_set_of_element a b"
proof (induction a arbitrary: b)
  case Nil
  show ?case by (simp add: compare_set_of_Nil)
next
  case (Cons x xs)
  show ?case
  proof (cases b)
    case (Cons y ys)
    then show ?thesis using Cons.IH by (cases x y rule: linorder_cases) (simp_all add: compare_set_of_Cons)
  qed (simp add: compare_set_of_Nil)
qed

interpretation set_of: exact_comparator compare_set_of_element
proof
  fix a b c
  show "compare_set_of_element a b < 0 \<longleftrightarrow> 0 < compare_set_of_element b a" using compare_set_of_sym [of b a] by simp
  show "compare_set_of_element a b \<le> 0 \<Longrightarrow> compare_set_of_element b c \<le> 0 \<Longrightarrow> compare_set_of_element a c \<le> 0"
    by (simp add: compare_set_of_le)
  show "compare_set_of_element a b = 0 \<Longrightarrow> a = b"
    using compare_set_of_le [of a b] compare_set_of_le [of b a] compare_set_of_sym [of a b] by simp
qed

lemma lex_sorted: "set_of.ascending es \<longleftrightarrow> sorted es"
  by (simp add: compare_set_of_le)

text \<open>Splitting the contents into elements loses nothing.\<close>

lemma read_elements:
  assumes "read_all (cbs_get_any_asn1_element ber_ok) c = Some es"
  shows "concat (map el_bytes es) = c"
  by (rule any_element.read_all_induct [OF assms, where P = "\<lambda>c es. concat (map el_bytes es) = c"])
    (auto dest: any_element_split)

lemma read_der_elements:
  assumes "read_all CBS_get_any_asn1_element c = Some es" "e \<in> set es"
  shows "\<exists>t p. el_bytes e = der_element t p"
proof -
  have "\<forall>e \<in> set es. \<exists>t p. el_bytes e = der_element t p"
    using assms(1) unfolding CBS_get_any_asn1_element_def
  proof (rule any_element.read_all_induct)
    fix c a c' and as :: "asn1_element list"
    assume "cbs_get_any_asn1_element False c = (Some a, c')" "\<forall>e \<in> set as. \<exists>t p. el_bytes e = der_element t p"
    with any_asn1_element_sound [of c a c'] show "\<forall>e \<in> set (a # as). \<exists>t p. el_bytes e = der_element t p"
      by (auto simp: CBS_get_any_asn1_element_def)
  qed simp
  with assms(2) show ?thesis by blast
qed

lemma data_offset: "cbb_locate p st = Some (a, b) \<Longrightarrow> CBB_data_offset p st = chain_end a"
  by (simp add: CBB_data_offset_def chain_end_def)

lemma data_written:
  assumes "buf_ok (cbb_base st)"
  shows "CBB_data p st = drop (CBB_data_offset p st) (cbb_written st)"
  using assms by (simp add: CBB_data_def CBB_len_def written_def buf_ok_def drop_take)

lemma written_cbb_write:
  assumes "buf_ok (cbb_base st)" "off + length bs = cb_len (cbb_base st)"
  shows "cbb_written (cbb_write off bs st) = take off (cbb_written st) @ bs" "buf_ok (cbb_base (cbb_write off bs st))"
  using assms by (simp_all add: written_def cbb_write_def take_buf_write_end buf_ok_def length_buf_write)

lemma mset_concat_sum: "mset (concat xs) = sum_mset (image_mset mset (mset xs))"
  by (induction xs) auto

lemma flush_set_of:
  assumes wf: "cbb_wf st" and live: "cbb_locate p st = Some (a, b)"
    and r: "CBB_flush_asn1_set_of al p st = (True, st')"
  shows "\<exists>es. drop (chain_end a) (flushed (cbb_written st) b) = concat es
    \<and> (\<forall>e \<in> set es. \<exists>t c. e = der_element t c)
    \<and> cbb_written st' = take (chain_end a) (flushed (cbb_written st) b) @ concat (qsort compare_set_of_element es)
    \<and> cbb_wf st' \<and> cbb_chain st' = a"
proof -
  obtain fl st1 where fl: "CBB_flush al p st = (fl, st1)" by fastforce
  with r have fl: "CBB_flush al p st = (True, st1)" by (cases fl) (simp_all add: CBB_flush_asn1_set_of_def cbb_and_def)
  from CBB_flush_spec [OF wf live fl] have s1: "cbb_wf st1" "\<not> cbb_failed st1" "cbb_chain st1 = a"
    "cbb_written st1 = flushed (cbb_written st) b" "cbb_locate p st1 = Some (a, [])" by simp_all
  then have bo: "buf_ok (cbb_base st1)" and ch: "chain_ok (cb_len (cbb_base st1)) 0 a" by (simp_all add: cbb_wf_def)
  define off where "off = chain_end a"
  have off: "CBB_data_offset p st1 = off" using s1(5) by (simp add: data_offset off_def)
  have le: "off \<le> cb_len (cbb_base st1)" using chain_ok_end [OF ch] by (auto simp: off_def chain_end_def)
  have data: "CBB_data p st1 = drop off (cbb_written st1)" using data_written [OF bo] off by simp
  have R: "(case read_all CBS_get_any_asn1_element (CBB_data p st1) of None \<Rightarrow> (False, st1)
       | Some children \<Rightarrow>
           if length children < 2 then (True, st1)
           else if OPENSSL_memdup al (CBB_data p st1) (CBB_len p st1) = None
                \<or> OPENSSL_calloc al (length children) sizeof_CBS = None then (False, st1)
           else (True, cbb_write (CBB_data_offset p st1)
                   (concat (qsort compare_set_of_element (map el_bytes children))) st1)) = (True, st')"
    using r by (simp only: CBB_flush_asn1_set_of_def cbb_and_def fl prod.case bool.case)
  then obtain es where es: "read_all CBS_get_any_asn1_element (CBB_data p st1) = Some es" by (auto split: option.splits)
  from R have st': "st' = (if length es < 2 then st1 else cbb_write off (concat (qsort compare_set_of_element (map el_bytes es))) st1)"
    unfolding es off by (simp split: if_splits)
  define bs where "bs = map el_bytes es"
  have c: "concat bs = drop off (cbb_written st1)"
    using read_elements [of False] es unfolding CBS_get_any_asn1_element_def data bs_def by blast
  have m: "mset (concat (qsort compare_set_of_element bs)) = mset (concat bs)" by (simp only: mset_concat_sum mset_qsort)
  then have "length (concat (qsort compare_set_of_element bs)) = length (concat bs)" by (metis size_mset)
  then have l: "off + length (concat (qsort compare_set_of_element bs)) = cb_len (cbb_base st1)"
    using c le length_written [OF bo] by simp
  have "cbb_written st' = take off (cbb_written st1) @ concat (qsort compare_set_of_element bs) \<and> cbb_wf st' \<and> cbb_chain st' = a"
  proof (cases "length es < 2")
    case True
    then have "qsort compare_set_of_element bs = bs" by (cases bs rule: remdups_adj.cases) (auto simp: qsort_def bs_def)
    with True s1 c show ?thesis by (simp add: st')
  next
    case False
    note w = written_cbb_write [OF bo l]
    have "cb_len (cbb_base st') = cb_len (cbb_base st1)" "cbb_root st' = cbb_root st1" "cbb_chain st' = a" "cbb_failed st' = cbb_failed st1"
      using False s1(3) by (simp_all add: st' cbb_write_def)
    with w False s1(1,3) show ?thesis by (simp add: st' bs_def cbb_wf_def)
  qed
  with c s1(4) read_der_elements [OF es] show ?thesis
    unfolding off_def by (intro exI [of _ bs]) (auto simp: bs_def)
qed

section \<open>Properties\<close>

text \<open>
  Claim C5.  \<open>CBB_flush_asn1_set_of\<close>: when it succeeds on a live object of a well-formed builder, the
  contents written below that object were a sequence of DER elements, and they are now the same
  elements in ascending lexicographic order of their octets, as DER demands of SET OF; the bytes
  in front of the object are unchanged.
\<close>

theorem set_of_sorted:
  assumes "cbb_wf st" "cbb_locate p st = Some (a, b)" "CBB_flush_asn1_set_of al p st = (True, st')"
  shows "\<exists>es fs. drop (chain_end a) (flushed (cbb_written st) b) = concat es \<and> (\<forall>e \<in> set es. \<exists>t c. e = der_element t c)
    \<and> cbb_written st' = take (chain_end a) (flushed (cbb_written st) b) @ concat fs
    \<and> mset fs = mset es \<and> sorted fs \<and> cbb_wf st'"
proof -
  from flush_set_of [OF assms] obtain es where
    "drop (chain_end a) (flushed (cbb_written st) b) = concat es" "\<forall>e \<in> set es. \<exists>t c. e = der_element t c"
    "cbb_written st' = take (chain_end a) (flushed (cbb_written st) b) @ concat (qsort compare_set_of_element es)" "cbb_wf st'"
    by blast
  moreover have "sorted (qsort compare_set_of_element es)"
    using set_of.qsort_ascending [of es] by (simp only: lex_sorted)
  ultimately show ?thesis by (intro exI [of _ es] exI [of _ "qsort compare_set_of_element es"]) simp
qed

definition example_set :: cbb where
  "example_set = \<lparr>cbb_root = 0, cbb_base = \<lparr>cb_buf = [5, 1, 7, 5, 0], cb_len = 5, cb_can_resize = False, cb_error = False\<rparr>,
     cbb_chain = []\<rparr>"

theorem set_of_sorted_witness: "\<exists>es fs :: bytes list. [5, 1, 7, 5, 0] = concat es \<and> mset fs = mset es \<and> sorted fs"
proof -
  have "cbb_wf example_set" "cbb_locate 0 example_set = Some ([], [])"
    by (simp_all add: example_set_def cbb_wf_def buf_ok_def cbb_locate_def)
  moreover have "fst (CBB_flush_asn1_set_of (\<lambda>_. Some (\<lambda>_. 0)) 0 example_set)"
  proof -
    have d: "CBB_data 0 example_set = [5, 1, 7, 5, 0]"
      by (simp add: CBB_data_def CBB_len_def CBB_data_offset_def cbb_locate_def example_set_def)
    have v: "valid_tag 5" by (simp add: valid_tag_def constructed_only)
    have e: "der_element 5 [7] = [5, 1, 7]" "der_element 5 [] = [5, 0]"
      by (simp_all add: der_element_def der_header_def tag_bytes_def length_bytes_def)
    obtain x y where "CBS_get_any_asn1_element [5, 1, 7, 5, 0] = (Some x, [5, 0])" "CBS_get_any_asn1_element [5, 0] = (Some y, [])"
      using any_asn1_element_complete [OF v, of "[7]" "[5, 0]"] any_asn1_element_complete [OF v, of "[]" "[]"] by (auto simp: e)
    then have "read_all CBS_get_any_asn1_element [5, 1, 7, 5, 0] = Some [x, y]"
      by (simp add: read_all_def)
    then have r: "read_all CBS_get_any_asn1_element (CBB_data 0 example_set) = Some [x, y]" by (simp only: d)
    have f: "CBB_flush (\<lambda>_. Some (\<lambda>_. 0)) 0 example_set = (True, example_set)"
      by (simp add: CBB_flush_def example_set_def cbb_locate_def)
    have al: "OPENSSL_memdup (\<lambda>_. Some (\<lambda>_. 0)) d 5 \<noteq> None" "OPENSSL_calloc (\<lambda>_. Some (\<lambda>_. 0)) 2 16 \<noteq> None" for d
      by (simp_all add: OPENSSL_memdup_def OPENSSL_calloc_def OPENSSL_zalloc_def OPENSSL_malloc_def size_mul_def size_add_def
          SIZE_MAX_def OPENSSL_MALLOC_PREFIX_def)
    have "CBB_len 0 example_set = 5" by (simp add: CBB_len_def CBB_data_offset_def cbb_locate_def example_set_def)
    then show ?thesis using al by (simp add: CBB_flush_asn1_set_of_def cbb_and_def f r sizeof_CBS_def numeral_2_eq_2 [symmetric])
  qed
  then have "CBB_flush_asn1_set_of (\<lambda>_. Some (\<lambda>_. 0)) 0 example_set
      = (True, snd (CBB_flush_asn1_set_of (\<lambda>_. Some (\<lambda>_. 0)) 0 example_set))" by (simp add: prod_eq_iff)
  ultimately have "\<exists>es fs. drop (chain_end []) (flushed (cbb_written example_set) []) = concat es \<and> (\<forall>e \<in> set es. \<exists>t c. e = der_element t c)
    \<and> cbb_written (snd (CBB_flush_asn1_set_of (\<lambda>_. Some (\<lambda>_. 0)) 0 example_set)) = take (chain_end []) (flushed (cbb_written example_set) []) @ concat fs
    \<and> mset fs = mset es \<and> sorted fs \<and> cbb_wf (snd (CBB_flush_asn1_set_of (\<lambda>_. Some (\<lambda>_. 0)) 0 example_set))"
    by (rule set_of_sorted)
  then show ?thesis by (auto simp: chain_end_def example_set_def written_def)
qed

end
