(* ===== verification/Stack.thy ===== *)
theory Stack imports Mem Sort begin

text \<open>
  \<open>crypto/stack/stack.c\<close>: the growable array of pointers, with its heap sort and its binary search.
  Pointers are addresses, zero is \<open>NULL\<close>; a stack argument that may be \<open>NULL\<close> is an option.  The
  comparison function is a function pointer in the state, an address, and \<open>call_cmp comp a b\<close> is the
  result of calling it (\<open>call_cmp_func\<close>); callbacks that may have effects pass a state along.
  Freeing memory has no effect on the modelled state.
\<close>

section \<open>State\<close>

type_synonym ptr = nat

abbreviation (input) NULL :: ptr where
  "NULL \<equiv> 0"

record stack =
  stk_num :: nat
  stk_data :: "ptr list"
  stk_sorted :: bool
  stk_num_alloc :: nat
  stk_comp :: ptr

text \<open>A block of memory as an array of pointers, and \<open>OPENSSL_realloc\<close> of such an array.\<close>

definition sizeof_ptr :: nat where
  "sizeof_ptr = 8"

definition sizeof_stack :: nat where
  "sizeof_stack = 40"

definition ptr_array :: "nat \<Rightarrow> bytes \<Rightarrow> ptr list" where
  "ptr_array n bs = map (\<lambda>i. foldr (\<lambda>b v. unat b + 256 * v) (take sizeof_ptr (drop (sizeof_ptr * i) bs)) 0) [0..<n]"

definition realloc_ptrs :: "allocator \<Rightarrow> ptr list \<Rightarrow> nat \<Rightarrow> ptr list option" where
  "realloc_ptrs al data alloc_size =
     (case OPENSSL_malloc al alloc_size of None \<Rightarrow> None
      | Some junk \<Rightarrow> (let n = alloc_size div sizeof_ptr in Some (take n data @ drop (length data) (ptr_array n junk))))"

section \<open>Operations\<close>

definition kMinSize :: nat where
  "kMinSize = 4"

definition OPENSSL_sk_new :: "allocator \<Rightarrow> ptr \<Rightarrow> stack option" where
  "OPENSSL_sk_new al cmp_fn =
     (case OPENSSL_zalloc al sizeof_stack of None \<Rightarrow> None
      | Some _ \<Rightarrow>
          (case OPENSSL_calloc al kMinSize sizeof_ptr of None \<Rightarrow> None
           | Some block \<Rightarrow> Some \<lparr>stk_num = 0, stk_data = ptr_array kMinSize block, stk_sorted = False,
                               stk_num_alloc = kMinSize, stk_comp = cmp_fn\<rparr>))"

definition OPENSSL_sk_new_null :: "allocator \<Rightarrow> stack option" where
  "OPENSSL_sk_new_null al = OPENSSL_sk_new al NULL"

definition OPENSSL_sk_num :: "stack option \<Rightarrow> nat" where
  "OPENSSL_sk_num sk = (case sk of None \<Rightarrow> 0 | Some s \<Rightarrow> stk_num s)"

definition OPENSSL_sk_zero :: "stack option \<Rightarrow> stack option" where
  "OPENSSL_sk_zero sk =
     (case sk of None \<Rightarrow> None
      | Some s \<Rightarrow> (if stk_num s = 0 then Some s
          else Some (s\<lparr>stk_data := replicate (stk_num s) NULL @ drop (stk_num s) (stk_data s),
                       stk_num := 0, stk_sorted := False\<rparr>)))"

definition OPENSSL_sk_value :: "stack option \<Rightarrow> nat \<Rightarrow> ptr" where
  "OPENSSL_sk_value sk i =
     (case sk of None \<Rightarrow> NULL | Some s \<Rightarrow> if stk_num s \<le> i then NULL else stk_data s ! i)"

definition OPENSSL_sk_set :: "stack option \<Rightarrow> nat \<Rightarrow> ptr \<Rightarrow> ptr \<times> stack option" where
  "OPENSSL_sk_set sk i value =
     (case sk of None \<Rightarrow> (NULL, None)
      | Some s \<Rightarrow> if stk_num s \<le> i then (NULL, Some s) else (value, Some (s\<lparr>stk_data := (stk_data s)[i := value]\<rparr>)))"

text \<open>The callback \<open>call_free\<close> on every element that is not \<open>NULL\<close>, in order; \<open>st\<close> is its state.\<close>

fun free_each :: "(ptr \<Rightarrow> 's \<Rightarrow> 's) \<Rightarrow> ptr list \<Rightarrow> 's \<Rightarrow> 's" where
  "free_each call_free [] st = st"
| "free_each call_free (p # ps) st = free_each call_free ps (if p \<noteq> NULL then call_free p st else st)"

definition OPENSSL_sk_pop_free_ex :: "(ptr \<Rightarrow> 's \<Rightarrow> 's) \<Rightarrow> stack option \<Rightarrow> 's \<Rightarrow> 's" where
  "OPENSSL_sk_pop_free_ex call_free sk st =
     (case sk of None \<Rightarrow> st | Some s \<Rightarrow> free_each call_free (take (stk_num s) (stk_data s)) st)"

text \<open>Making room for one more pointer.\<close>

definition sk_grow :: "allocator \<Rightarrow> stack \<Rightarrow> stack option" where
  "sk_grow al s =
     (if stk_num_alloc s \<le> stk_num s + 1 then
        let new_alloc = size_mul (stk_num_alloc s) 2;
            alloc_size = size_mul new_alloc sizeof_ptr;
            overflow = (new_alloc < stk_num_alloc s \<or> alloc_size div sizeof_ptr \<noteq> new_alloc);
            new_alloc = (if overflow then size_add (stk_num_alloc s) 1 else new_alloc);
            alloc_size = (if overflow then size_mul new_alloc sizeof_ptr else alloc_size)
        in if new_alloc < stk_num_alloc s \<or> alloc_size div sizeof_ptr \<noteq> new_alloc then None
           else (case realloc_ptrs al (stk_data s) alloc_size of None \<Rightarrow> None
                 | Some data \<Rightarrow> Some (s\<lparr>stk_data := data, stk_num_alloc := new_alloc\<rparr>))
      else Some s)"

definition OPENSSL_sk_insert :: "allocator \<Rightarrow> stack option \<Rightarrow> ptr \<Rightarrow> nat \<Rightarrow> nat \<times> stack option" where
  "OPENSSL_sk_insert al sk p pos =
     (case sk of None \<Rightarrow> (0, None)
      | Some s \<Rightarrow>
          if INT_MAX \<le> stk_num s then (0, Some s)
          else (case sk_grow al s of None \<Rightarrow> (0, Some s)
           | Some s' \<Rightarrow>
               let n = stk_num s'; d = stk_data s';
                   d' = (if n \<le> pos then d[n := p]
                         else take pos d @ [p] @ take (n - pos) (drop pos d) @ drop (n + 1) d)
               in (n + 1, Some (s'\<lparr>stk_data := d', stk_num := n + 1, stk_sorted := False\<rparr>))))"

definition OPENSSL_sk_delete :: "stack option \<Rightarrow> nat \<Rightarrow> ptr \<times> stack option" where
  "OPENSSL_sk_delete sk pos =
     (case sk of None \<Rightarrow> (NULL, None)
      | Some s \<Rightarrow>
          if stk_num s \<le> pos then (NULL, Some s)
          else let d = stk_data s; n = stk_num s; ret = d ! pos;
                   d' = (if pos \<noteq> n - 1
                         then take pos d @ take (n - pos - 1) (drop (pos + 1) d) @ drop (n - 1) d else d)
               in (ret, Some (s\<lparr>stk_data := d', stk_num := n - 1\<rparr>)))"

text \<open>The first index from \<open>i\<close> on, of the first \<open>n\<close> elements, whose element satisfies \<open>found\<close>.\<close>

fun linear_search :: "(ptr \<Rightarrow> bool) \<Rightarrow> nat \<Rightarrow> ptr list \<Rightarrow> nat option" where
  "linear_search found i [] = None"
| "linear_search found i (q # qs) = (if found q then Some i else linear_search found (i + 1) qs)"

definition OPENSSL_sk_delete_ptr :: "stack option \<Rightarrow> ptr \<Rightarrow> ptr \<times> stack option" where
  "OPENSSL_sk_delete_ptr sk p =
     (case sk of None \<Rightarrow> (NULL, None)
      | Some s \<Rightarrow>
          (case linear_search (\<lambda>q. q = p) 0 (take (stk_num s) (stk_data s)) of
             Some i \<Rightarrow> OPENSSL_sk_delete sk i | None \<Rightarrow> (NULL, sk)))"

text \<open>The loop of \<open>OPENSSL_sk_delete_if\<close>, with \<open>k\<close> elements to go from index \<open>i\<close>.\<close>

fun delete_if_loop :: "(ptr \<Rightarrow> 's \<Rightarrow> bool \<times> 's) \<Rightarrow> nat \<Rightarrow> nat \<Rightarrow> nat \<Rightarrow> ptr list \<Rightarrow> 's \<Rightarrow> nat \<times> ptr list \<times> 's" where
  "delete_if_loop call_func 0 i new_num data st = (new_num, data, st)"
| "delete_if_loop call_func (Suc k) i new_num data st =
     (case call_func (data ! i) st of
        (True, st') \<Rightarrow> delete_if_loop call_func k (i + 1) new_num data st'
      | (False, st') \<Rightarrow> delete_if_loop call_func k (i + 1) (new_num + 1) (data[new_num := data ! i]) st')"

definition OPENSSL_sk_delete_if :: "(ptr \<Rightarrow> 's \<Rightarrow> bool \<times> 's) \<Rightarrow> stack option \<Rightarrow> 's \<Rightarrow> stack option \<times> 's" where
  "OPENSSL_sk_delete_if call_func sk st =
     (case sk of None \<Rightarrow> (None, st)
      | Some s \<Rightarrow>
          (case delete_if_loop call_func (stk_num s) 0 0 (stk_data s) st of
             (new_num, data, st') \<Rightarrow> (Some (s\<lparr>stk_data := data, stk_num := new_num\<rparr>), st')))"

definition OPENSSL_sk_is_sorted :: "stack option \<Rightarrow> bool" where
  "OPENSSL_sk_is_sorted sk =
     (case sk of None \<Rightarrow> True | Some s \<Rightarrow> stk_sorted s \<or> (stk_comp s \<noteq> NULL \<and> stk_num s < 2))"

text \<open>The binary search, on the half-open interval from \<open>lo\<close> to \<open>hi\<close>.\<close>

function binary_search :: "(ptr \<Rightarrow> int) \<Rightarrow> ptr list \<Rightarrow> nat \<Rightarrow> nat \<Rightarrow> nat option" where
  "binary_search cmp data lo hi =
     (if lo < hi then
        let mid = lo + (hi - lo - 1) div 2; r = cmp (data ! mid)
        in if 0 < r then binary_search cmp data (mid + 1) hi
           else if r < 0 then binary_search cmp data lo mid
           else if hi - lo = 1 then Some mid
           else binary_search cmp data lo (mid + 1)
      else None)"
  by auto
termination
  by (relation "measure (\<lambda>(cmp, data, lo, hi). hi - lo)") auto

declare binary_search.simps [simp del]

definition OPENSSL_sk_find :: "(ptr \<Rightarrow> ptr \<Rightarrow> ptr \<Rightarrow> int) \<Rightarrow> stack option \<Rightarrow> ptr \<Rightarrow> nat option" where
  "OPENSSL_sk_find call_cmp sk p =
     (case sk of None \<Rightarrow> None
      | Some s \<Rightarrow>
          if stk_comp s = NULL then linear_search (\<lambda>q. q = p) 0 (take (stk_num s) (stk_data s))
          else if p = NULL then None
          else if \<not> OPENSSL_sk_is_sorted sk
               then linear_search (\<lambda>q. call_cmp (stk_comp s) p q = 0) 0 (take (stk_num s) (stk_data s))
          else binary_search (call_cmp (stk_comp s) p) (stk_data s) 0 (stk_num s))"

definition OPENSSL_sk_shift :: "stack option \<Rightarrow> ptr \<times> stack option" where
  "OPENSSL_sk_shift sk =
     (case sk of None \<Rightarrow> (NULL, None)
      | Some s \<Rightarrow> if stk_num s = 0 then (NULL, Some s) else OPENSSL_sk_delete (Some s) 0)"

text \<open>\<open>OPENSSL_sk_push\<close> reads \<open>sk->num\<close> before any check, so its stack is not \<open>NULL\<close>.\<close>

definition OPENSSL_sk_push :: "allocator \<Rightarrow> stack \<Rightarrow> ptr \<Rightarrow> nat \<times> stack option" where
  "OPENSSL_sk_push al s p = OPENSSL_sk_insert al (Some s) p (stk_num s)"

definition OPENSSL_sk_pop :: "stack option \<Rightarrow> ptr \<times> stack option" where
  "OPENSSL_sk_pop sk =
     (case sk of None \<Rightarrow> (NULL, None)
      | Some s \<Rightarrow> if stk_num s = 0 then (NULL, Some s) else OPENSSL_sk_delete (Some s) (stk_num s - 1))"

definition OPENSSL_sk_dup :: "allocator \<Rightarrow> stack option \<Rightarrow> stack option" where
  "OPENSSL_sk_dup al sk =
     (case sk of None \<Rightarrow> None
      | Some s \<Rightarrow>
          (case OPENSSL_zalloc al sizeof_stack of None \<Rightarrow> None
           | Some _ \<Rightarrow>
               let size = size_mul sizeof_ptr (stk_num_alloc s)
               in if size = 0 then None
               else case OPENSSL_malloc al size of None \<Rightarrow> None
               | Some _ \<Rightarrow> Some \<lparr>stk_num = stk_num s, stk_data = take (size div sizeof_ptr) (stk_data s), stk_sorted = stk_sorted s,
                              stk_num_alloc = stk_num_alloc s, stk_comp = stk_comp s\<rparr>))"

section \<open>Sorting\<close>

definition parent_idx :: "nat \<Rightarrow> nat" where
  "parent_idx idx = (idx - 1) div 2"

definition left_idx :: "nat \<Rightarrow> nat" where
  "left_idx idx = 2 * idx + 1"

definition swap :: "nat \<Rightarrow> nat \<Rightarrow> 'a list \<Rightarrow> 'a list" where
  "swap i j xs = xs[i := xs ! j, j := xs ! i]"

definition largest_child :: "('a \<Rightarrow> 'a \<Rightarrow> int) \<Rightarrow> 'a list \<Rightarrow> nat \<Rightarrow> nat \<Rightarrow> nat" where
  "largest_child cmp data i num =
     (let left = left_idx i;
          next0 = (if cmp (data ! i) (data ! left) < 0 then left else i);
          right = left + 1
      in if right < num \<and> cmp (data ! next0) (data ! right) < 0 then right else next0)"

function down_heap :: "('a \<Rightarrow> 'a \<Rightarrow> int) \<Rightarrow> 'a list \<Rightarrow> nat \<Rightarrow> nat \<Rightarrow> 'a list" where
  "down_heap cmp data i num =
     (if num \<le> left_idx i then data
      else let next1 = largest_child cmp data i num
           in if i = next1 then data else down_heap cmp (swap i next1 data) next1 num)"
  by auto
termination
  by (relation "measure (\<lambda>(cmp, data, i, num). num - i)")
    (auto simp: largest_child_def left_idx_def Let_def split: if_splits)

declare down_heap.simps [simp del]

text \<open>The loop that builds the heap, from index \<open>i\<close> down to zero, where the counter wraps and the loop ends.\<close>

fun build_heap :: "('a \<Rightarrow> 'a \<Rightarrow> int) \<Rightarrow> nat \<Rightarrow> nat \<Rightarrow> 'a list \<Rightarrow> 'a list" where
  "build_heap cmp num 0 data = down_heap cmp data 0 num"
| "build_heap cmp num (Suc i) data = build_heap cmp num i (down_heap cmp data (Suc i) num)"

text \<open>The loop that takes the maximum to the end, from index \<open>i\<close> down to one.\<close>

fun extract_max :: "('a \<Rightarrow> 'a \<Rightarrow> int) \<Rightarrow> nat \<Rightarrow> 'a list \<Rightarrow> 'a list" where
  "extract_max cmp 0 data = data"
| "extract_max cmp (Suc i) data = extract_max cmp i (down_heap cmp (swap 0 (Suc i) data) 0 (Suc i))"

definition OPENSSL_sk_sort :: "(ptr \<Rightarrow> ptr \<Rightarrow> ptr \<Rightarrow> int) \<Rightarrow> stack option \<Rightarrow> stack option" where
  "OPENSSL_sk_sort call_cmp sk =
     (case sk of None \<Rightarrow> None
      | Some s \<Rightarrow>
          if stk_comp s = NULL \<or> stk_sorted s then Some s
          else let cmp = call_cmp (stk_comp s); n = stk_num s;
                   data = (if 2 \<le> n then extract_max cmp (n - 1) (build_heap cmp n (parent_idx (n - 1)) (stk_data s))
                           else stk_data s)
               in Some (s\<lparr>stk_data := data, stk_sorted := True\<rparr>))"

definition OPENSSL_sk_set_cmp_func :: "stack \<Rightarrow> ptr \<Rightarrow> ptr \<times> stack" where
  "OPENSSL_sk_set_cmp_func s cmp_fn =
     (stk_comp s, (if stk_comp s \<noteq> cmp_fn then s\<lparr>stk_sorted := False\<rparr> else s)\<lparr>stk_comp := cmp_fn\<rparr>)"

text \<open>
  The copying loop, with the elements that are still to be copied.  When a copy is \<open>NULL\<close> the
  copies made so far are freed and the loop gives up.
\<close>

fun copy_each :: "(ptr \<Rightarrow> 's \<Rightarrow> ptr \<times> 's) \<Rightarrow> (ptr \<Rightarrow> 's \<Rightarrow> 's) \<Rightarrow> ptr list \<Rightarrow> ptr list \<Rightarrow> 's \<Rightarrow> ptr list option \<times> 's" where
  "copy_each call_copy call_free copied [] st = (Some copied, st)"
| "copy_each call_copy call_free copied (p # ps) st =
     (if p = NULL then copy_each call_copy call_free (copied @ [p]) ps st
      else case call_copy p st of
        (q, st') \<Rightarrow> if q = NULL then (None, free_each call_free copied st')
                   else copy_each call_copy call_free (copied @ [q]) ps st')"

definition OPENSSL_sk_deep_copy :: "allocator \<Rightarrow> (ptr \<Rightarrow> 's \<Rightarrow> ptr \<times> 's) \<Rightarrow> (ptr \<Rightarrow> 's \<Rightarrow> 's) \<Rightarrow> stack option \<Rightarrow> 's
    \<Rightarrow> stack option \<times> 's" where
  "OPENSSL_sk_deep_copy al call_copy call_free sk st =
     (case OPENSSL_sk_dup al sk of None \<Rightarrow> (None, st)
      | Some ret \<Rightarrow>
          (case copy_each call_copy call_free [] (take (stk_num ret) (stk_data ret)) st of
             (None, st') \<Rightarrow> (None, st')
           | (Some copies, st') \<Rightarrow> (Some (ret\<lparr>stk_data := copies @ drop (stk_num ret) (stk_data ret)\<rparr>), st')))"

end
