(* ===== verification/StackSpec.thy ===== *)
theory StackSpec imports Stack begin

text \<open>
  What the stack promises: the heap sort sorts, the binary search finds what a linear search finds,
  and the operations act on the list of pointers that the stack holds.
\<close>

section \<open>Sifting down\<close>

lemma length_swap [simp]: "length (swap i j xs) = length xs"
  by (simp add: swap_def)

lemma nth_swap: "i < length xs \<Longrightarrow> j < length xs \<Longrightarrow> k < length xs \<Longrightarrow>
    swap i j xs ! k = (if k = i then xs ! j else if k = j then xs ! i else xs ! k)"
  by (auto simp: swap_def nth_list_update)

lemma take_swap: "i < n \<Longrightarrow> j < n \<Longrightarrow> n \<le> length xs \<Longrightarrow> take n (swap i j xs) = swap i j (take n xs)"
  by (simp add: swap_def take_update_swap)

lemma drop_swap: "i < n \<Longrightarrow> j < n \<Longrightarrow> drop n (swap i j xs) = drop n xs"
  by (simp add: swap_def)

lemma mset_swap: "i < length xs \<Longrightarrow> j < length xs \<Longrightarrow> mset (swap i j xs) = mset xs"
  unfolding swap_def by (rule Multiset.mset_swap)

lemma largest_child_cases:
  assumes "left_idx i < num"
  shows "largest_child cmp data i num \<in> {i, left_idx i, left_idx i + 1}" "largest_child cmp data i num < num"
    "i \<le> largest_child cmp data i num"
  using assms by (auto simp: largest_child_def left_idx_def Let_def)

lemma parent_child: "0 < j \<Longrightarrow> parent_idx j = i \<longleftrightarrow> j = left_idx i \<or> j = left_idx i + 1"
  by (auto simp: parent_idx_def left_idx_def)

lemma parent_less: "0 < j \<Longrightarrow> parent_idx j < j"
  by (simp add: parent_idx_def)

lemma down_heap_same:
  assumes "i < num" "num \<le> length data"
  shows "length (down_heap cmp data i num) = length data
    \<and> drop num (down_heap cmp data i num) = drop num data
    \<and> mset (take num (down_heap cmp data i num)) = mset (take num data)"
  using assms
proof (induction cmp data i num rule: down_heap.induct)
  case (1 cmp data i num)
  define m where "m = largest_child cmp data i num"
  show ?case
  proof (cases "num \<le> left_idx i \<or> i = m")
    case True
    then show ?thesis by (subst (1 2 3) down_heap.simps) (auto simp: m_def Let_def)
  next
    case False
    then have m: "m < num" using largest_child_cases(2) [of i num cmp data] by (simp add: m_def)
    have e: "down_heap cmp data i num = down_heap cmp (swap i m data) m num"
      using False by (subst down_heap.simps) (simp add: m_def Let_def)
    have "mset (take num (swap i m data)) = mset (take num data)"
      using "1.prems" m by (simp add: take_swap mset_swap)
    with "1.IH" [of m] False "1.prems" m show ?thesis unfolding e by (simp add: m_def drop_swap)
  qed
qed

context comparator
begin

text \<open>Every element that has a parent from index \<open>s\<close> on is at most its parent.\<close>

definition heap :: "nat \<Rightarrow> nat \<Rightarrow> 'a list \<Rightarrow> bool" where
  "heap s n d \<longleftrightarrow> (\<forall>j. 0 < j \<longrightarrow> j < n \<longrightarrow> s \<le> parent_idx j \<longrightarrow> cmp (d ! j) (d ! parent_idx j) \<le> 0)"

text \<open>The same except for the children of \<open>i\<close>, which are at most the parent of \<open>i\<close>.\<close>

definition heap_except :: "nat \<Rightarrow> nat \<Rightarrow> nat \<Rightarrow> 'a list \<Rightarrow> bool" where
  "heap_except i s n d \<longleftrightarrow> s \<le> i
     \<and> (\<forall>j. 0 < j \<longrightarrow> j < n \<longrightarrow> s \<le> parent_idx j \<longrightarrow> parent_idx j \<noteq> i \<longrightarrow> cmp (d ! j) (d ! parent_idx j) \<le> 0)
     \<and> (\<forall>j. 0 < j \<longrightarrow> j < n \<longrightarrow> parent_idx j = i \<longrightarrow> 0 < i \<longrightarrow> s \<le> parent_idx i \<longrightarrow> cmp (d ! j) (d ! parent_idx i) \<le> 0)"

lemma largest_child_largest:
  assumes "left_idx i < num" "m = largest_child cmp d i num"
  shows "cmp (d ! i) (d ! m) \<le> 0" "\<And>j. 0 < j \<Longrightarrow> j < num \<Longrightarrow> parent_idx j = i \<Longrightarrow> cmp (d ! j) (d ! m) \<le> 0"
proof -
  define l where "l = left_idx i"
  define n0 where "n0 = (if cmp (d ! i) (d ! l) < 0 then l else i)"
  have m: "m = (if l + 1 < num \<and> cmp (d ! n0) (d ! (l + 1)) < 0 then l + 1 else n0)"
    by (simp add: assms(2) largest_child_def l_def n0_def Let_def)
  have n0: "cmp (d ! i) (d ! n0) \<le> 0" "cmp (d ! l) (d ! n0) \<le> 0"
    using not_less [of "d ! i" "d ! l"] by (auto simp: n0_def refl)
  have m0: "cmp (d ! n0) (d ! m) \<le> 0" by (auto simp: m refl)
  show "cmp (d ! i) (d ! m) \<le> 0" by (rule trans [OF n0(1) m0])
  have "cmp (d ! (l + 1)) (d ! m) \<le> 0" if "l + 1 < num"
    using that not_less [of "d ! n0" "d ! (l + 1)"] by (auto simp: m refl)
  moreover have "cmp (d ! l) (d ! m) \<le> 0" by (rule trans [OF n0(2) m0])
  ultimately show "cmp (d ! j) (d ! m) \<le> 0" if "0 < j" "j < num" "parent_idx j = i" for j
    using that parent_child [of j i] by (auto simp: l_def)
qed

lemma down_heap_step:
  assumes he: "heap_except i s num d" and i: "i < num" "num \<le> length d" and l: "left_idx i < num"
    and m: "m = largest_child cmp d i num" "m \<noteq> i"
  shows "heap_except m s num (swap i m d)"
proof -
  have ml: "m = left_idx i \<or> m = left_idx i + 1" "m < num"
    using largest_child_cases [OF l, of cmp d] m by auto
  then have pm: "parent_idx m = i" "0 < m" using parent_child [of m i] by (auto simp: left_idx_def)
  have im: "i < m" using parent_less [OF pm(2)] pm(1) by simp
  have at: "swap i m d ! k = (if k = i then d ! m else if k = m then d ! i else d ! k)" if "k < num" for k
    using nth_swap [of i d m k] that i ml(2) by simp
  note big = largest_child_largest [OF l m(1)]
  show ?thesis
    unfolding heap_except_def
  proof (intro conjI allI impI)
    show "s \<le> m" using he im by (simp add: heap_except_def)
  next
    fix j assume j: "0 < j" "j < num" "s \<le> parent_idx j" "parent_idx j \<noteq> m"
    have pj: "parent_idx j < num" using parent_less [OF j(1)] j(2) by simp
    show "cmp (swap i m d ! j) (swap i m d ! parent_idx j) \<le> 0"
    proof (cases "parent_idx j = i")
      case True
      then show ?thesis using big(1) big(2) [OF j(1,2) True] parent_less [OF j(1)] j(2) i(1)
        by (auto simp: at)
    next
      case pi: False
      then have jm: "j \<noteq> m" using pm by auto
      show ?thesis
      proof (cases "j = i")
        case True
        then have "cmp (d ! m) (d ! parent_idx i) \<le> 0" using he pm ml(2) j by (simp add: heap_except_def)
        then show ?thesis using True pi j(4) pj i(1) by (simp add: at)
      next
        case False
        then show ?thesis using he j pi jm pj by (simp add: at heap_except_def)
      qed
    qed
  next
    fix j assume j: "0 < j" "j < num" "parent_idx j = m" "0 < m" "s \<le> parent_idx m"
    have "m < j" using parent_less [OF j(1)] j(3) by simp
    moreover have "s \<le> m" "m \<noteq> i" using he im by (auto simp: heap_except_def)
    then have "cmp (d ! j) (d ! m) \<le> 0" using he j(1-3) unfolding heap_except_def by blast
    ultimately show "cmp (swap i m d ! j) (swap i m d ! parent_idx m) \<le> 0"
      using j(2) i(1) im by (simp add: at pm)
  qed
qed

lemma down_heap_heap:
  assumes "heap_except i s num d" "i < num" "num \<le> length d"
  shows "heap s num (down_heap cmp d i num)"
  using assms
proof (induction "num - i" arbitrary: d i rule: less_induct)
  case less
  note he = less.prems(1)
  define m where "m = largest_child cmp d i num"
  have whole: "heap s num d" if "\<And>j. 0 < j \<Longrightarrow> j < num \<Longrightarrow> parent_idx j = i \<Longrightarrow> cmp (d ! j) (d ! i) \<le> 0"
    unfolding heap_def using he that unfolding heap_except_def by metis
  consider (leaf) "num \<le> left_idx i" | (stop) "left_idx i < num" "m = i" | (down) "left_idx i < num" "m \<noteq> i" by linarith
  then show ?case
  proof cases
    case leaf
    then have "heap s num d" by (intro whole) (auto simp: parent_child)
    with leaf show ?thesis by (simp add: down_heap.simps)
  next
    case stop
    then have "heap s num d" using largest_child_largest(2) [OF stop(1) m_def] by (intro whole) simp
    with stop show ?thesis by (simp add: down_heap.simps [of cmp d i] m_def Let_def)
  next
    case down
    have m: "m < num" "i < m" using largest_child_cases [OF down(1), of cmp d] down(2) by (auto simp: m_def)
    have "heap s num (down_heap cmp (swap i m d) m num)"
      by (rule less.hyps) (use m less.prems down_heap_step [OF he less.prems(2,3) down(1) m_def down(2)] in auto)
    then show ?thesis using down by (simp add: down_heap.simps [of cmp d i] m_def [symmetric] Let_def)
  qed
qed

lemma heap_shrink: "heap s n d \<Longrightarrow> n' \<le> n \<Longrightarrow> heap s n' d"
  by (auto simp: heap_def)

section \<open>The heap sort\<close>

lemma build_heap_correct:
  assumes "i < num" "num \<le> length d" "heap (Suc i) num d"
  shows "heap 0 num (build_heap cmp num i d) \<and> length (build_heap cmp num i d) = length d
    \<and> drop num (build_heap cmp num i d) = drop num d
    \<and> mset (take num (build_heap cmp num i d)) = mset (take num d)"
  using assms
proof (induction i arbitrary: d)
  case 0
  have "heap_except 0 0 num d" using "0.prems"(3) by (auto simp: heap_def heap_except_def Suc_le_eq)
  with "0.prems" show ?case by (simp add: down_heap_heap down_heap_same)
next
  case (Suc i)
  have ne: "parent_idx (Suc i) < Suc i" by (rule parent_less) simp
  have "heap_except (Suc i) (Suc i) num d"
  proof -
    have "cmp (d ! j) (d ! parent_idx j) \<le> 0"
      if "0 < j" "j < num" "Suc i \<le> parent_idx j" "parent_idx j \<noteq> Suc i" for j
      using Suc.prems(3) that unfolding heap_def by (metis le_antisym not_less_eq_eq)
    with ne show ?thesis by (simp add: heap_except_def)
  qed
  then have "heap (Suc i) num (down_heap cmp d (Suc i) num)" using Suc.prems by (intro down_heap_heap)
  with Suc.IH [of "down_heap cmp d (Suc i) num"] Suc.prems(1) down_heap_same [OF Suc.prems(1,2), of cmp] Suc.prems(2)
  show ?case by simp
qed

lemma heap_root:
  assumes "heap 0 n d" "j < n"
  shows "cmp (d ! j) (d ! 0) \<le> 0"
  using assms(2)
proof (induction j rule: less_induct)
  case (less j)
  show ?case
  proof (cases "j = 0")
    case False
    then have p: "parent_idx j < j" by (simp add: parent_less)
    have "cmp (d ! j) (d ! parent_idx j) \<le> 0" using assms(1) False less.prems by (simp add: heap_def)
    moreover have "cmp (d ! parent_idx j) (d ! 0) \<le> 0" using less p by simp
    ultimately show ?thesis by (rule trans)
  qed (simp add: refl)
qed

text \<open>Behind index \<open>i\<close> the elements are in order, and at least those in front of them.\<close>

definition tail_sorted :: "nat \<Rightarrow> nat \<Rightarrow> 'a list \<Rightarrow> bool" where
  "tail_sorted i n d \<longleftrightarrow> (\<forall>j k. j < k \<longrightarrow> i < k \<longrightarrow> k < n \<longrightarrow> cmp (d ! j) (d ! k) \<le> 0)"

lemma extract_max_correct:
  assumes "i < num" "num \<le> length d" "heap 0 (Suc i) d" "tail_sorted i num d"
  shows "tail_sorted 0 num (extract_max cmp i d) \<and> length (extract_max cmp i d) = length d
    \<and> drop num (extract_max cmp i d) = drop num d
    \<and> mset (take num (extract_max cmp i d)) = mset (take num d)"
  using assms
proof (induction i arbitrary: d)
  case (Suc i)
  define e where "e = swap 0 (Suc i) d"
  define f where "f = down_heap cmp e 0 (Suc i)"
  have le: "length e = length d" by (simp add: e_def)
  have f: "length f = length d" "drop (Suc i) f = drop (Suc i) e" "mset (take (Suc i) f) = mset (take (Suc i) e)"
    using down_heap_same [of 0 "Suc i" e cmp] Suc.prems by (simp_all add: f_def le)
  have at: "e ! k = (if k = 0 then d ! Suc i else if k = Suc i then d ! 0 else d ! k)" if "k < length d" for k
  proof -
    have "0 < length d" "Suc i < length d" using Suc.prems by auto
    from nth_swap [OF this that] show ?thesis by (simp only: e_def)
  qed
  have behind: "f ! k = e ! k" if "Suc i \<le> k" "k < length d" for k
  proof -
    have "f ! k = drop (Suc i) f ! (k - Suc i)" using that f(1) by simp
    also have "\<dots> = e ! k" unfolding f(2) using that le by simp
    finally show ?thesis .
  qed
  have front: "\<exists>j' \<le> Suc i. f ! j = d ! j'" if "j < Suc i" for j
  proof -
    have "f ! j \<in> set (take (Suc i) f)" using that f(1) Suc.prems by (auto simp: in_set_conv_nth)
    then have "f ! j \<in> set (take (Suc i) e)" using f(3) by (metis set_mset_mset)
    then obtain j' where "j' < Suc i" "f ! j = e ! j'" using Suc.prems le by (auto simp: in_set_conv_nth)
    then have "f ! j = (if j' = 0 then d ! Suc i else d ! j')" "j' < Suc i" using at [of j'] Suc.prems by simp_all
    then show ?thesis by (cases "j' = 0") (auto intro: less_imp_le)
  qed
  have "heap_except 0 0 (Suc i) e"
    using Suc.prems(3) at Suc.prems(1,2)
    by (auto simp: heap_def heap_except_def parent_idx_def)
  then have h: "heap 0 (Suc i) f" unfolding f_def by (intro down_heap_heap) (use Suc.prems le in auto)
  have t: "tail_sorted i num f"
    unfolding tail_sorted_def
  proof (intro allI impI)
    fix j k assume jk: "j < k" "i < k" "k < num"
    have fk: "f ! k = (if k = Suc i then d ! 0 else d ! k)" using behind [of k] at [of k] jk Suc.prems by auto
    obtain j' where j': "f ! j = d ! j'" "j' \<le> Suc i \<or> j' = j"  "j' \<noteq> k \<or> k = Suc i"
    proof (cases "j < Suc i")
      case True
      with front obtain j' where "j' \<le> Suc i" "f ! j = d ! j'" by blast
      with jk True show thesis by (cases "k = Suc i") (auto intro: that)
    next
      case False
      then have "f ! j = (if j = Suc i then d ! 0 else d ! j)" using behind [of j] at [of j] jk Suc.prems by auto
      with jk False show thesis by (cases "j = Suc i") (auto intro: that)
    qed
    show "cmp (f ! j) (f ! k) \<le> 0"
    proof (cases "k = Suc i")
      case True
      then have "j' < Suc (Suc i)" using j'(2) jk by auto
      then show ?thesis unfolding fk j'(1) using True heap_root [OF Suc.prems(3)] by simp
    next
      case False
      then have "j' < k" "Suc i < k" using j' jk by auto
      then show ?thesis unfolding fk j'(1) using False Suc.prems(4) jk(3) by (simp add: tail_sorted_def)
    qed
  qed
  have "mset (take num f) = mset (take num e)" "drop num f = drop num e"
  proof -
    have a: "take num f = take (Suc i) f @ take (num - Suc i) (drop (Suc i) f)"
      "take num e = take (Suc i) e @ take (num - Suc i) (drop (Suc i) e)"
      using Suc.prems by (metis less_imp_le_nat take_add le_add_diff_inverse)+
    then show "mset (take num f) = mset (take num e)" by (simp add: f(2,3))
    have "drop num f = drop (num - Suc i) (drop (Suc i) f)" "drop num e = drop (num - Suc i) (drop (Suc i) e)"
      using Suc.prems by simp_all
    then show "drop num f = drop num e" by (simp add: f(2))
  qed
  moreover have "mset (take num e) = mset (take num d)" "drop num e = drop num d"
    using Suc.prems by (simp_all add: e_def take_swap mset_swap drop_swap)
  ultimately show ?case using Suc.IH [of f] Suc.prems h t f(1) by (simp add: e_def f_def)
qed simp

lemma heap_sort_correct:
  assumes "2 \<le> n" "n \<le> length d"
  defines "r \<equiv> extract_max cmp (n - 1) (build_heap cmp n (parent_idx (n - 1)) d)"
  shows "ascending (take n r)" "mset (take n r) = mset (take n d)" "drop n r = drop n d" "length r = length d"
proof -
  define b where "b = build_heap cmp n (parent_idx (n - 1)) d"
  have p: "parent_idx (n - 1) < n - 1" by (rule parent_less) (use assms(1) in simp)
  have "heap (Suc (parent_idx (n - 1))) n d"
    unfolding heap_def parent_idx_def by auto
  then have b: "heap 0 n b" "length b = length d" "drop n b = drop n d" "mset (take n b) = mset (take n d)"
    using build_heap_correct [of "parent_idx (n - 1)" n d] p assms(1,2) by (simp_all add: b_def)
  have "tail_sorted (n - 1) n b" unfolding tail_sorted_def by (intro allI impI) linarith
  then have r: "tail_sorted 0 n r" "length r = length d" "drop n r = drop n d" "mset (take n r) = mset (take n d)"
    using extract_max_correct [of "n - 1" n b] b assms(1,2) by (simp_all add: r_def b_def)
  show "ascending (take n r)" using r(1) by (auto simp: tail_sorted_def sorted_wrt_iff_nth_less)
  show "mset (take n r) = mset (take n d)" "drop n r = drop n d" "length r = length d" by (rule r)+
qed

end

section \<open>Searching\<close>

text \<open>\<open>r\<close> is the first index from \<open>lo\<close> up to \<open>hi\<close> whose element \<open>f\<close> maps to zero, or none.\<close>

definition first_match :: "(ptr \<Rightarrow> int) \<Rightarrow> ptr list \<Rightarrow> nat \<Rightarrow> nat \<Rightarrow> nat option \<Rightarrow> bool" where
  "first_match f d lo hi r \<longleftrightarrow>
     (case r of None \<Rightarrow> \<forall>j. lo \<le> j \<longrightarrow> j < hi \<longrightarrow> f (d ! j) \<noteq> 0
      | Some i \<Rightarrow> lo \<le> i \<and> i < hi \<and> f (d ! i) = 0 \<and> (\<forall>j. lo \<le> j \<longrightarrow> j < i \<longrightarrow> f (d ! j) \<noteq> 0))"

lemma first_match_unique: "first_match f d lo hi r \<Longrightarrow> first_match f d lo hi r' \<Longrightarrow> r = r'"
  by (auto simp: first_match_def split: option.splits) (metis linorder_neqE_nat)

lemma linear_search_first:
  "i + length xs \<le> length d \<Longrightarrow> xs = take (length xs) (drop i d) \<Longrightarrow>
    first_match f d i (i + length xs) (linear_search (\<lambda>q. f q = 0) i xs)"
proof (induction xs arbitrary: i)
  case (Cons x xs)
  have d: "x = d ! i" "xs = take (length xs) (drop (i + 1) d)"
    using Cons.prems by (simp_all add: take_Suc_conv_app_nth Cons_nth_drop_Suc [symmetric])
  have "first_match f d (i + 1) (i + 1 + length xs) (linear_search (\<lambda>q. f q = 0) (i + 1) xs)"
    using Cons.IH [of "i + 1"] Cons.prems d by simp
  then show ?case
    by (cases "linear_search (\<lambda>q. f q = 0) (i + 1) xs") (auto simp: first_match_def d(1), (metis le_antisym not_less_eq_eq)+)
qed (simp add: first_match_def)

lemma binary_search_first:
  assumes mono: "\<And>i j. i < j \<Longrightarrow> j < n \<Longrightarrow> (f (d ! i) \<le> 0 \<longrightarrow> f (d ! j) \<le> 0) \<and> (f (d ! i) < 0 \<longrightarrow> f (d ! j) < 0)"
  shows "hi \<le> n \<Longrightarrow> first_match f d lo hi (binary_search f d lo hi)"
proof (induction "hi - lo" arbitrary: lo hi rule: less_induct)
  case less
  define mid where "mid = lo + (hi - lo - 1) div 2"
  show ?case
  proof (cases "lo < hi")
    case False
    then show ?thesis by (simp add: binary_search.simps first_match_def)
  next
    case True
    then have mid: "lo \<le> mid" "mid < hi" by (auto simp: mid_def)
    consider (low) "0 < f (d ! mid)" | (high) "f (d ! mid) < 0" | (one) "f (d ! mid) = 0" "hi - lo = 1"
      | (many) "f (d ! mid) = 0" "hi - lo \<noteq> 1" by linarith
    then show ?thesis
    proof cases
      case low
      have out: "f (d ! j) \<noteq> 0" if "j \<le> mid" for j
        using mono [of j mid] that mid less.prems low by (cases "j = mid") auto
      have "first_match f d (mid + 1) hi (binary_search f d (mid + 1) hi)"
        by (rule less.hyps) (use mid True less.prems in auto)
      moreover have "binary_search f d lo hi = binary_search f d (mid + 1) hi"
        using low True by (subst binary_search.simps) (simp add: mid_def Let_def)
      ultimately show ?thesis using out mid
        by (auto simp: first_match_def Suc_le_eq split: option.splits) (meson not_le_imp_less)+
    next
      case high
      have out: "f (d ! j) \<noteq> 0" if "mid \<le> j" "j < hi" for j
        using mono [of mid j] that mid less.prems high by (cases "j = mid") auto
      have "first_match f d lo mid (binary_search f d lo mid)"
        by (rule less.hyps) (use mid True less.prems in auto)
      moreover have "binary_search f d lo hi = binary_search f d lo mid"
        using high True by (subst binary_search.simps) (simp add: mid_def Let_def)
      ultimately show ?thesis using out mid
        by (auto simp: first_match_def split: option.splits)
    next
      case one
      then have "mid = lo" "binary_search f d lo hi = Some mid"
        using True by (simp_all add: mid_def binary_search.simps [of f d lo hi] Let_def)
      then show ?thesis using one mid by (auto simp: first_match_def)
    next
      case many
      have lt: "mid + 1 < hi" using many(2) True by (auto simp: mid_def)
      have "first_match f d lo (mid + 1) (binary_search f d lo (mid + 1))"
        by (rule less.hyps) (use mid lt less.prems in auto)
      moreover have "binary_search f d lo hi = binary_search f d lo (mid + 1)"
        using many True by (subst binary_search.simps) (simp add: mid_def Let_def)
      ultimately show ?thesis using many(1) mid lt
        by (auto simp: first_match_def split: option.splits)
    qed
  qed
qed

section \<open>The list of pointers\<close>

definition contents :: "stack \<Rightarrow> ptr list" where
  "contents s = take (stk_num s) (stk_data s)"

text \<open>
  Well-formed stacks: the array has the length that was allocated for it, which never gets beyond
  \<open>2 ^ 32\<close> as the number of elements is at most \<open>INT_MAX\<close>; and a stack that says it is sorted is.
\<close>

definition sk_wf :: "(ptr \<Rightarrow> ptr \<Rightarrow> ptr \<Rightarrow> int) \<Rightarrow> stack \<Rightarrow> bool" where
  "sk_wf call_cmp s \<longleftrightarrow> stk_num s \<le> stk_num_alloc s \<and> length (stk_data s) = stk_num_alloc s \<and> 4 \<le> stk_num_alloc s
     \<and> stk_num_alloc s \<le> 2 ^ 32 \<and> stk_num s \<le> INT_MAX
     \<and> (stk_sorted s \<longrightarrow> sorted_wrt (\<lambda>x y. call_cmp (stk_comp s) x y \<le> 0) (contents s))"

lemma length_contents [simp]: "sk_wf c s \<Longrightarrow> length (contents s) = stk_num s"
  by (simp add: contents_def sk_wf_def)

lemma nth_contents: "sk_wf c s \<Longrightarrow> i < stk_num s \<Longrightarrow> contents s ! i = stk_data s ! i"
  by (simp add: contents_def)

lemma length_ptr_array [simp]: "length (ptr_array n bs) = n"
  by (simp add: ptr_array_def)

lemma new_wf: "OPENSSL_sk_new al f = Some s \<Longrightarrow> sk_wf c s \<and> contents s = [] \<and> stk_comp s = f"
  by (auto simp: OPENSSL_sk_new_def sk_wf_def contents_def kMinSize_def INT_MAX_def split: option.splits)

lemma sk_grow_spec:
  assumes "sk_wf c s" "stk_num s < INT_MAX" "sk_grow al s = Some s'"
  shows "stk_num s' = stk_num s \<and> contents s' = contents s \<and> stk_sorted s' = stk_sorted s \<and> stk_comp s' = stk_comp s
    \<and> stk_num s + 1 < stk_num_alloc s' \<and> length (stk_data s') = stk_num_alloc s' \<and> stk_num_alloc s' \<le> 2 ^ 32 \<and> 4 \<le> stk_num_alloc s'"
proof (cases "stk_num_alloc s \<le> stk_num s + 1")
  case False
  with assms show ?thesis by (auto simp: sk_grow_def sk_wf_def)
next
  case True
  define a where "a = stk_num_alloc s"
  have a: "4 \<le> a" "a \<le> 2147483648" using assms(1,2) True by (auto simp: sk_wf_def a_def INT_MAX_def)
  have m: "size_mul a 2 = 2 * a" "size_mul (2 * a) sizeof_ptr = 16 * a" "16 * a div sizeof_ptr = 2 * a"
    using a by (auto simp: size_mul_def sizeof_ptr_def)
  obtain junk where "s' = s\<lparr>stk_data := take (2 * a) (stk_data s) @ drop (length (stk_data s)) (ptr_array (2 * a) junk), stk_num_alloc := 2 * a\<rparr>"
    using assms(3) True a by (auto simp: sk_grow_def realloc_ptrs_def Let_def a_def [symmetric] m split: option.splits)
  with assms(1) True a show ?thesis by (auto simp: sk_wf_def contents_def a_def)
qed

lemma insert_spec:
  assumes wf: "sk_wf c s" and r: "OPENSSL_sk_insert al (Some s) p pos = (n, sk')"
  obtains (fails) "n = 0" "sk' = Some s"
  | (added) s' where "sk' = Some s'" "n = stk_num s + 1" "contents s' = take pos (contents s) @ p # drop pos (contents s)" "sk_wf c s'"
      "stk_comp s' = stk_comp s" "\<not> stk_sorted s'" "stk_num s' = n"
proof (cases "INT_MAX \<le> stk_num s \<or> sk_grow al s = None")
  case True
  with r show thesis by (intro fails) (auto simp: OPENSSL_sk_insert_def split: if_splits)
next
  case False
  then obtain g where g: "sk_grow al s = Some g" and lt: "stk_num s < INT_MAX" by auto
  note G = sk_grow_spec [OF wf lt g]
  define k where "k = stk_num s"
  define d where "d = stk_data g"
  define d' where "d' = (if k \<le> pos then d[k := p] else take pos d @ [p] @ take (k - pos) (drop pos d) @ drop (k + 1) d)"
  have ld: "k + 1 < length d" using G by (simp add: d_def k_def)
  have cs: "contents s = take k d" using G unfolding contents_def d_def k_def by metis
  have "take (k + 1) d' = take pos (take k d) @ p # drop pos (take k d)"
  proof (cases "k \<le> pos")
    case True
    then show ?thesis using ld by (simp add: d'_def take_Suc_conv_app_nth min_def)
  next
    case False
    then have "k + 1 - pos = Suc (k - pos)" by simp
    then show ?thesis using ld False by (simp add: d'_def min_def drop_take)
  qed
  moreover have "length d' = length d" using ld by (auto simp: d'_def min_def)
  moreover have "(n, sk') = (k + 1, Some (g\<lparr>stk_data := d', stk_num := k + 1, stk_sorted := False\<rparr>))"
  proof -
    have "stk_num g = k" using G by (simp add: k_def)
    then have "(n, sk') = (k + 1, Some (g\<lparr>stk_data := (if k \<le> pos then (stk_data g)[k := p]
        else take pos (stk_data g) @ [p] @ take (k - pos) (drop pos (stk_data g)) @ drop (k + 1) (stk_data g)),
        stk_num := k + 1, stk_sorted := False\<rparr>))"
      using r lt unfolding OPENSSL_sk_insert_def Let_def by (simp only: option.case g) (auto split: if_splits)
    then show ?thesis by (simp only: d'_def d_def)
  qed
  moreover define s' where "s' = g\<lparr>stk_data := d', stk_num := k + 1, stk_sorted := False\<rparr>"
  ultimately have s': "contents s' = take pos (contents s) @ p # drop pos (contents s)" "sk' = Some s'" "n = k + 1"
      "length (stk_data s') = length d"
    unfolding cs by (simp_all add: contents_def)
  moreover have "sk_wf c s'" using G lt s'(4) by (auto simp: sk_wf_def s'_def k_def d_def)
  ultimately show thesis using G by (intro added [of s']) (simp_all add: s'_def k_def)
qed

lemma delete_spec:
  assumes wf: "sk_wf c s" and i: "i < stk_num s"
  obtains s' where "OPENSSL_sk_delete (Some s) i = (contents s ! i, Some s')"
    "contents s' = take i (contents s) @ drop (Suc i) (contents s)" "sk_wf c s'" "stk_comp s' = stk_comp s"
    "stk_num s' = stk_num s - 1"
proof -
  define n where "n = stk_num s"
  define d where "d = stk_data s"
  define d' where "d' = (if i \<noteq> n - 1 then take i d @ take (n - i - 1) (drop (i + 1) d) @ drop (n - 1) d else d)"
  have n: "n \<le> length d" "i < n" using wf i by (simp_all add: sk_wf_def n_def d_def)
  have c: "take (n - 1) d' = take i (take n d) @ drop (Suc i) (take n d)"
    using n by (auto simp: d'_def min_def drop_take)
  have l: "length d' = length d" using n by (auto simp: d'_def min_def)
  define s' where "s' = s\<lparr>stk_data := d', stk_num := n - 1\<rparr>"
  have "sorted_wrt R (take i xs @ drop (Suc i) xs)" if "sorted_wrt R xs" for R and xs :: "ptr list"
  proof -
    have "xs = take i xs @ take 1 (drop i xs) @ drop (Suc i) xs" by (metis append_take_drop_id drop_drop plus_1_eq_Suc)
    with that have "sorted_wrt R (take i xs @ take 1 (drop i xs) @ drop (Suc i) xs)" by metis
    then show ?thesis by (simp only: sorted_wrt_append) auto
  qed
  moreover have cs: "contents s' = take i (contents s) @ drop (Suc i) (contents s)"
    using c by (simp add: contents_def s'_def n_def d_def)
  ultimately have "stk_sorted s' \<longrightarrow> sorted_wrt (\<lambda>x y. c (stk_comp s') x y \<le> 0) (contents s')"
    using wf unfolding cs by (simp add: sk_wf_def s'_def)
  then have "sk_wf c s'" using wf l by (auto simp: sk_wf_def s'_def n_def d_def)
  moreover have "OPENSSL_sk_delete (Some s) i = (contents s ! i, Some s')"
    using n by (simp add: OPENSSL_sk_delete_def s'_def d'_def n_def d_def contents_def Let_def)
  ultimately show thesis using cs by (intro that [of s']) (simp_all add: s'_def n_def)
qed

text \<open>
  The list that is left when a callback with effects is asked about each element once, in order, and
  the state of the callback afterwards.
\<close>

fun sieve :: "('p \<Rightarrow> 's \<Rightarrow> bool \<times> 's) \<Rightarrow> 'p list \<Rightarrow> 's \<Rightarrow> 'p list \<times> 's" where
  "sieve picks [] st = ([], st)"
| "sieve picks (x # xs) st =
     (let (pick, st1) = picks x st; (kept, st2) = sieve picks xs st1 in (if pick then kept else x # kept, st2))"

lemma sieve_filter: "sieve (\<lambda>x st. (picks x, upd x st)) xs st = (filter (\<lambda>x. \<not> picks x) xs, fold upd xs st)"
  by (induction xs arbitrary: st) simp_all

lemma sieve_subseq: "subseq (fst (sieve picks xs st)) xs"
proof (induction xs arbitrary: st)
  case (Cons x xs)
  obtain pick st1 where p: "picks x st = (pick, st1)" by fastforce
  obtain kept st2 where "sieve picks xs st1 = (kept, st2)" by fastforce
  with Cons [of st1] p show ?case by (cases pick) (auto intro: list_emb_Cons)
qed simp

lemma delete_if_loop_spec:
  assumes "new_num \<le> i" "i + k \<le> length data"
  shows "\<exists>d. delete_if_loop call_func k i new_num data st
      = (new_num + length (fst (sieve call_func (take k (drop i data)) st)), d, snd (sieve call_func (take k (drop i data)) st))
    \<and> length d = length data
    \<and> take (new_num + length (fst (sieve call_func (take k (drop i data)) st))) d
        = take new_num data @ fst (sieve call_func (take k (drop i data)) st)"
  using assms
proof (induction call_func k i new_num data st rule: delete_if_loop.induct)
  case (2 call_func k i new_num data st)
  have split: "take (Suc k) (drop i data) = data ! i # take k (drop (Suc i) data)"
    using "2.prems" by (simp add: Cons_nth_drop_Suc [symmetric])
  obtain rm st1 where c: "call_func (data ! i) st = (rm, st1)" by fastforce
  obtain kept st2 where sv: "sieve call_func (take k (drop (Suc i) data)) st1 = (kept, st2)" by fastforce
  show ?case
  proof (cases rm)
    case True
    have p: "new_num \<le> i + 1" "i + 1 + k \<le> length data" using "2.prems" by simp_all
    from "2.IH"(1) [OF c [symmetric] _ p] True c sv show ?thesis by (simp add: split)
  next
    case False
    define d1 where "d1 = data[new_num := data ! i]"
    have d1: "take (new_num + 1) d1 = take new_num data @ [data ! i]" "drop (Suc i) d1 = drop (Suc i) data" "length d1 = length data"
      using "2.prems" by (simp_all add: d1_def take_Suc_conv_app_nth)
    have p: "new_num + 1 \<le> i + 1" "i + 1 + k \<le> length (data[new_num := data ! i])" using "2.prems" by simp_all
    from "2.IH"(2) [OF c [symmetric] _ p] False c d1 sv show ?thesis by (simp add: split d1_def [symmetric])
  qed
qed simp

lemma subseq_set: "subseq xs ys \<Longrightarrow> set xs \<subseteq> set ys"
  by (induction rule: list_emb.induct) auto

lemma sorted_wrt_subseq: "subseq xs ys \<Longrightarrow> sorted_wrt R ys \<Longrightarrow> sorted_wrt R xs"
  by (induction rule: list_emb.induct) (auto dest: subseq_set)

lemma delete_if_spec:
  assumes "sk_wf c s"
  shows "\<exists>s'. OPENSSL_sk_delete_if call_func (Some s) st = (Some s', snd (sieve call_func (contents s) st)) \<and> sk_wf c s'
    \<and> contents s' = fst (sieve call_func (contents s) st) \<and> stk_comp s' = stk_comp s"
proof -
  let ?kept = "fst (sieve call_func (contents s) st)"
  have "0 + stk_num s \<le> length (stk_data s)" using assms by (simp add: sk_wf_def)
  from delete_if_loop_spec [OF order.refl this, of call_func st] obtain d where
    d: "delete_if_loop call_func (stk_num s) 0 0 (stk_data s) st = (length ?kept, d, snd (sieve call_func (contents s) st))"
      "length d = length (stk_data s)" "take (length ?kept) d = ?kept"
    by (simp only: drop_0 take_0 append_Nil add_0_left contents_def [symmetric]) blast
  define s' where "s' = s\<lparr>stk_data := d, stk_num := length ?kept\<rparr>"
  have "length ?kept \<le> stk_num s" using list_emb_length [OF sieve_subseq, of call_func "contents s" st] by (simp only: length_contents [OF assms])
  moreover have "sorted_wrt R (contents s) \<longrightarrow> sorted_wrt R ?kept" for R
    by (rule impI) (rule sorted_wrt_subseq [OF sieve_subseq])
  moreover have cs: "contents s' = ?kept" using d(3) by (simp add: s'_def contents_def)
  ultimately have "sk_wf c s'" using assms d(2) unfolding sk_wf_def cs by (simp add: s'_def)
  moreover have "OPENSSL_sk_delete_if call_func (Some s) st = (Some s', snd (sieve call_func (contents s) st))"
    using d(1) by (simp add: OPENSSL_sk_delete_if_def s'_def)
  moreover have "stk_comp s' = stk_comp s" by (simp add: s'_def)
  ultimately show ?thesis using cs by blast
qed

lemma zero_spec: "sk_wf c s \<Longrightarrow> \<exists>s'. OPENSSL_sk_zero (Some s) = Some s' \<and> contents s' = [] \<and> sk_wf c s'"
  by (auto simp: OPENSSL_sk_zero_def sk_wf_def contents_def)

lemma dup_spec: "sk_wf c s \<Longrightarrow> OPENSSL_sk_dup al (Some s) = Some s' \<Longrightarrow> s' = s"
  by (auto simp: OPENSSL_sk_dup_def sk_wf_def size_mul_def sizeof_ptr_def Let_def split: option.splits if_splits)

lemma set_cmp_spec:
  "sk_wf c s \<Longrightarrow> \<exists>s'. OPENSSL_sk_set_cmp_func s f = (stk_comp s, s') \<and> sk_wf c s' \<and> contents s' = contents s \<and> stk_comp s' = f
    \<and> (stk_sorted s' \<longleftrightarrow> stk_sorted s \<and> f = stk_comp s)"
  by (auto simp: OPENSSL_sk_set_cmp_func_def sk_wf_def contents_def)

lemma sort_spec:
  assumes wf: "sk_wf c s" and cmp: "comparator (c (stk_comp s))" and f: "stk_comp s \<noteq> NULL"
  obtains s' where "OPENSSL_sk_sort c (Some s) = Some s'" "sk_wf c s'" "stk_sorted s'" "stk_num s' = stk_num s"
    "mset (contents s') = mset (contents s)" "sorted_wrt (\<lambda>x y. c (stk_comp s) x y \<le> 0) (contents s')" "stk_comp s' = stk_comp s"
proof (cases "stk_sorted s")
  case True
  then show thesis using wf by (intro that [of s]) (simp_all add: OPENSSL_sk_sort_def sk_wf_def)
next
  case False
  define n where "n = stk_num s"
  define d where "d = (if 2 \<le> n then extract_max (c (stk_comp s)) (n - 1) (build_heap (c (stk_comp s)) n (parent_idx (n - 1)) (stk_data s))
      else stk_data s)"
  have n: "n \<le> length (stk_data s)" using wf by (simp add: sk_wf_def n_def)
  have d: "sorted_wrt (\<lambda>x y. c (stk_comp s) x y \<le> 0) (take n d)" "mset (take n d) = mset (take n (stk_data s))" "length d = length (stk_data s)"
  proof -
    have "sorted_wrt (\<lambda>x y. c (stk_comp s) x y \<le> 0) (take n d) \<and> mset (take n d) = mset (take n (stk_data s)) \<and> length d = length (stk_data s)"
    proof (cases "2 \<le> n")
      case True
      then show ?thesis using comparator.heap_sort_correct [OF cmp True n] by (simp add: d_def)
    next
      case False
      then have "n = 0 \<or> n = 1" by linarith
      then show ?thesis by (auto simp: d_def take_Suc hd_conv_nth) (cases "stk_data s"; simp)
    qed
    then show "sorted_wrt (\<lambda>x y. c (stk_comp s) x y \<le> 0) (take n d)" "mset (take n d) = mset (take n (stk_data s))"
      "length d = length (stk_data s)" by blast+
  qed
  have "OPENSSL_sk_sort c (Some s) = Some (s\<lparr>stk_data := d, stk_sorted := True\<rparr>)"
    using f False by (simp add: OPENSSL_sk_sort_def d_def n_def Let_def)
  then show thesis using wf d by (intro that [of "s\<lparr>stk_data := d, stk_sorted := True\<rparr>"]) (auto simp: sk_wf_def contents_def n_def)
qed

lemma find_first:
  assumes wf: "sk_wf c s" and cmp: "comparator (c (stk_comp s))" and f: "stk_comp s \<noteq> NULL" and p: "p \<noteq> NULL"
  shows "first_match (c (stk_comp s) p) (stk_data s) 0 (stk_num s) (OPENSSL_sk_find c (Some s) p)"
proof (cases "OPENSSL_sk_is_sorted (Some s)")
  case False
  have "first_match (c (stk_comp s) p) (stk_data s) 0 (0 + length (contents s)) (linear_search (\<lambda>q. c (stk_comp s) p q = 0) 0 (contents s))"
    by (rule linear_search_first) (use wf in \<open>auto simp: contents_def sk_wf_def\<close>)
  then have "first_match (c (stk_comp s) p) (stk_data s) 0 (stk_num s) (linear_search (\<lambda>q. c (stk_comp s) p q = 0) 0 (contents s))"
    by (simp only: length_contents [OF wf] add_0)
  with False f p show ?thesis by (simp add: OPENSSL_sk_find_def contents_def)
next
  case True
  then consider "stk_num s < 2" | "stk_sorted s" by (auto simp: OPENSSL_sk_is_sorted_def)
  then have asc: "sorted_wrt (\<lambda>x y. c (stk_comp s) x y \<le> 0) (contents s)"
  proof cases
    case 1
    then have "length (contents s) < 2" using wf by simp
    then show ?thesis by (cases "contents s" rule: remdups_adj.cases) auto
  qed (use wf in \<open>simp add: sk_wf_def\<close>)
  have L: "c (stk_comp s) (stk_data s ! i) (stk_data s ! j) \<le> 0" if "i < j" "j < stk_num s" for i j
    using asc that nth_contents [OF wf] wf by (simp add: sorted_wrt_iff_nth_less)
  have "first_match (c (stk_comp s) p) (stk_data s) 0 (stk_num s) (binary_search (c (stk_comp s) p) (stk_data s) 0 (stk_num s))"
    using comparator.trans [OF cmp _ L] comparator.less_trans(1) [OF cmp _ L] by (intro binary_search_first [where n = "stk_num s"]) auto
  with True f p show ?thesis by (simp add: OPENSSL_sk_find_def)
qed

section \<open>Last in, first out\<close>

text \<open>The interface of a stack that may refuse to grow: adding one item at the end and taking it back.\<close>

locale lifo =
  fixes items :: "'s \<Rightarrow> 'a list" and inv :: "'s \<Rightarrow> bool"
    and add :: "'a \<Rightarrow> 's \<Rightarrow> 's option" and take_last :: "'s \<Rightarrow> ('a \<times> 's) option"
  assumes add_items: "inv s \<Longrightarrow> add a s = Some s' \<Longrightarrow> inv s' \<and> items s' = items s @ [a]"
    and take_items: "inv s \<Longrightarrow> items s \<noteq> [] \<Longrightarrow>
      \<exists>s'. take_last s = Some (List.last (items s), s') \<and> inv s' \<and> items s' = butlast (items s)"
begin

fun add_all :: "'a list \<Rightarrow> 's \<Rightarrow> 's option" where
  "add_all [] s = Some s"
| "add_all (a # as) s = (case add a s of None \<Rightarrow> None | Some s' \<Rightarrow> add_all as s')"

fun take_n :: "nat \<Rightarrow> 's \<Rightarrow> ('a list \<times> 's) option" where
  "take_n 0 s = Some ([], s)"
| "take_n (Suc n) s = (case take_last s of None \<Rightarrow> None
     | Some (a, s') \<Rightarrow> map_option (\<lambda>(as, t). (a # as, t)) (take_n n s'))"

lemma add_all_items: "inv s \<Longrightarrow> add_all as s = Some s' \<Longrightarrow> inv s' \<and> items s' = items s @ as"
  by (induction as arbitrary: s) (fastforce dest: add_items split: option.splits)+

lemma take_n_items: "inv s \<Longrightarrow> items s = xs @ as \<Longrightarrow>
    \<exists>t. take_n (length as) s = Some (rev as, t) \<and> inv t \<and> items t = xs"
proof (induction as arbitrary: s rule: rev_induct)
  case (snoc a as)
  from take_items [OF snoc.prems(1)] snoc.prems(2) obtain s' where
    "take_last s = Some (a, s')" "inv s'" "items s' = xs @ as" by (auto simp: butlast_append)
  with snoc.IH [of s'] show ?case by auto
qed simp

lemma add_take: "inv s \<Longrightarrow> add_all as s = Some s' \<Longrightarrow>
    \<exists>t. take_n (length as) s' = Some (rev as, t) \<and> inv t \<and> items t = items s"
  using add_all_items take_n_items by blast

end

definition try_push :: "allocator \<Rightarrow> ptr \<Rightarrow> stack \<Rightarrow> stack option" where
  "try_push al p s = (case OPENSSL_sk_push al s p of (n, sk') \<Rightarrow> if n = 0 then None else sk')"

definition try_pop :: "stack \<Rightarrow> (ptr \<times> stack) option" where
  "try_pop s = (if OPENSSL_sk_num (Some s) = 0 then None
     else case OPENSSL_sk_pop (Some s) of (p, sk') \<Rightarrow> map_option (\<lambda>s'. (p, s')) sk')"

lemma try_push_spec:
  assumes "sk_wf c s" "try_push al p s = Some s'"
  shows "sk_wf c s' \<and> contents s' = contents s @ [p]"
proof -
  obtain n sk' where r: "OPENSSL_sk_insert al (Some s) p (stk_num s) = (n, sk')" by fastforce
  with assms show ?thesis
    by (cases rule: insert_spec [OF assms(1) r]) (auto simp: try_push_def OPENSSL_sk_push_def)
qed

lemma sk_grow_succeeds:
  assumes al: "always_allocates al" and wf: "sk_wf c s" and n: "stk_num s < INT_MAX"
  shows "\<exists>g. sk_grow al s = Some g"
proof -
  define a where "a = stk_num_alloc s"
  show ?thesis
  proof (cases "a \<le> stk_num s + 1")
    case True
    have a: "4 \<le> a" "a \<le> 2147483648" using wf n True by (auto simp: sk_wf_def a_def INT_MAX_def)
    then have m: "size_mul a 2 = 2 * a" "size_mul (2 * a) sizeof_ptr = 16 * a" "16 * a div sizeof_ptr = 2 * a"
      by (auto simp: size_mul_def sizeof_ptr_def)
    have "16 * a + 8 < 2 ^ 64" using a by simp
    then obtain b where "OPENSSL_malloc al (16 * a) = Some b" using OPENSSL_malloc_succeeds [OF al] by blast
    with True a show ?thesis by (simp add: sk_grow_def realloc_ptrs_def Let_def a_def [symmetric] m)
  qed (simp add: sk_grow_def a_def)
qed

lemma push_succeeds:
  "always_allocates al \<Longrightarrow> sk_wf c s \<Longrightarrow> stk_num s < INT_MAX \<Longrightarrow> fst (OPENSSL_sk_insert al (Some s) p pos) \<noteq> 0"
  using sk_grow_succeeds by (fastforce simp: OPENSSL_sk_insert_def Let_def)

lemma try_push_succeeds:
  "always_allocates al \<Longrightarrow> sk_wf c s \<Longrightarrow> stk_num s < INT_MAX \<Longrightarrow> \<exists>s'. try_push al p s = Some s'"
  using sk_grow_succeeds by (fastforce simp: try_push_def OPENSSL_sk_push_def OPENSSL_sk_insert_def Let_def)

lemma try_pop_spec:
  assumes "sk_wf c s" "contents s \<noteq> []"
  shows "\<exists>s'. try_pop s = Some (List.last (contents s), s') \<and> sk_wf c s' \<and> contents s' = butlast (contents s)"
proof -
  have n: "length (contents s) = stk_num s" "0 < stk_num s" using assms by (auto simp: length_greater_0_conv [symmetric])
  obtain s' where "OPENSSL_sk_delete (Some s) (stk_num s - 1) = (contents s ! (stk_num s - 1), Some s')"
    "contents s' = take (stk_num s - 1) (contents s) @ drop (Suc (stk_num s - 1)) (contents s)" "sk_wf c s'"
    using delete_spec [OF assms(1), of "stk_num s - 1"] n(2) by auto
  with n assms(2) show ?thesis
    by (simp add: try_pop_def OPENSSL_sk_pop_def OPENSSL_sk_num_def last_conv_nth butlast_conv_take)
qed

interpretation stack: lifo contents "sk_wf c" "try_push al" try_pop
  using try_push_spec try_pop_spec by unfold_locales blast+

section \<open>Properties\<close>

text \<open>
  Claim C23.  \<open>OPENSSL_sk_sort\<close>, an in-place heap sort, sorts: when the comparison function is a
  total preorder, the stack afterwards holds the same pointers in ascending order, and remembers
  that it is sorted.
\<close>

theorem sort_sorts:
  assumes "sk_wf call_cmp s" "comparator (call_cmp (stk_comp s))" "stk_comp s \<noteq> 0"
  shows "\<exists>s'. OPENSSL_sk_sort call_cmp (Some s) = Some s' \<and> mset (contents s') = mset (contents s)
    \<and> sorted_wrt (\<lambda>x y. call_cmp (stk_comp s) x y \<le> 0) (contents s') \<and> OPENSSL_sk_is_sorted (Some s') \<and> sk_wf call_cmp s'"
  by (rule sort_spec [OF assms]) (simp add: OPENSSL_sk_is_sorted_def)

definition example_stack :: stack where
  "example_stack = \<lparr>stk_num = 3, stk_data = [9, 5, 7, 0], stk_sorted = False, stk_num_alloc = 4, stk_comp = 1\<rparr>"

definition example_cmp :: "ptr \<Rightarrow> ptr \<Rightarrow> ptr \<Rightarrow> int" where
  "example_cmp f a b = int a - int b"

lemma example_comparator: "comparator (example_cmp f)"
  by unfold_locales (auto simp: example_cmp_def)

lemma example_stack_wf: "sk_wf example_cmp example_stack"
  by (simp add: sk_wf_def example_stack_def INT_MAX_def)

theorem sort_sorts_witness:
  "\<exists>s'. OPENSSL_sk_sort example_cmp (Some example_stack) = Some s' \<and> mset (contents s') = {#5, 7, 9#}
     \<and> sorted_wrt (\<lambda>x y. example_cmp 1 x y \<le> 0) (contents s')"
  using sort_sorts [OF example_stack_wf example_comparator] by (auto simp: example_stack_def contents_def add_mset_commute)

text \<open>
  Claim C24.  \<open>OPENSSL_sk_find\<close> finds the same index, the first match, whether it searches the stack
  linearly or, when it is sorted, with a binary search: on a well-formed stack with a total
  preorder the result is that of the linear search.
\<close>

theorem find_is_linear_search:
  assumes "sk_wf call_cmp s" "comparator (call_cmp (stk_comp s))" "stk_comp s \<noteq> 0" "p \<noteq> 0"
  shows "OPENSSL_sk_find call_cmp (Some s) p = linear_search (\<lambda>q. call_cmp (stk_comp s) p q = 0) 0 (contents s)"
proof (rule first_match_unique [OF find_first [OF assms]])
  have "first_match (call_cmp (stk_comp s) p) (stk_data s) 0 (0 + length (contents s))
      (linear_search (\<lambda>q. call_cmp (stk_comp s) p q = 0) 0 (contents s))"
    by (rule linear_search_first) (use assms(1) in \<open>auto simp: contents_def sk_wf_def\<close>)
  then show "first_match (call_cmp (stk_comp s) p) (stk_data s) 0 (stk_num s)
      (linear_search (\<lambda>q. call_cmp (stk_comp s) p q = 0) 0 (contents s))"
    by (simp only: length_contents [OF assms(1)] add_0)
qed

definition sorted_stack :: stack where
  "sorted_stack = \<lparr>stk_num = 3, stk_data = [5, 7, 7, 0], stk_sorted = True, stk_num_alloc = 4, stk_comp = 1\<rparr>"

lemma sorted_stack_wf: "sk_wf example_cmp sorted_stack"
  by (simp add: sk_wf_def sorted_stack_def INT_MAX_def contents_def example_cmp_def numeral_3_eq_3)

theorem find_is_linear_search_witness: "OPENSSL_sk_find example_cmp (Some sorted_stack) 7 = Some 1"
  using find_is_linear_search [of example_cmp sorted_stack 7, OF sorted_stack_wf example_comparator]
  by (simp add: sorted_stack_def contents_def example_cmp_def)

text \<open>
  Claim C25.  Every operation that changes a stack, other than \<open>OPENSSL_sk_set\<close>, keeps it well-formed,
  including that a stack which says it is sorted is, and acts on the list of pointers as its name
  says.  Insertion puts the pointer at a position (at the end when that is out of range) and returns the new number of
  elements, or zero without a change, which happens only when memory runs out or the stack is full.
  Deletion takes out the element at a position, and out of range nothing.
  \<open>OPENSSL_sk_delete_if\<close> asks the callback about each element once, in order, and deletes exactly those
  that it picks.  Setting the comparison function returns the old one, keeps the elements, and forgets that the
  stack was sorted unless the function is the same.
\<close>

theorem stack_operations:
  assumes "sk_wf call_cmp s"
  shows "(case OPENSSL_sk_insert al (Some s) p pos of (n, sk') \<Rightarrow>
      if n = 0 then sk' = Some s \<and> (\<not> always_allocates al \<or> stk_num s = INT_MAX)
      else n = stk_num s + 1 \<and> stk_num s < INT_MAX
        \<and> (\<exists>s'. sk' = Some s' \<and> sk_wf call_cmp s' \<and> contents s' = take pos (contents s) @ p # drop pos (contents s)))
    \<and> (if i < stk_num s
       then \<exists>s'. OPENSSL_sk_delete (Some s) i = (contents s ! i, Some s') \<and> sk_wf call_cmp s'
          \<and> contents s' = take i (contents s) @ drop (Suc i) (contents s)
       else OPENSSL_sk_delete (Some s) i = (NULL, Some s))
    \<and> (\<exists>s'. OPENSSL_sk_delete_if call_func (Some s) st = (Some s', snd (sieve call_func (contents s) st))
          \<and> sk_wf call_cmp s' \<and> contents s' = fst (sieve call_func (contents s) st))
    \<and> (\<exists>s'. OPENSSL_sk_zero (Some s) = Some s' \<and> sk_wf call_cmp s' \<and> contents s' = [])
    \<and> (\<exists>s'. OPENSSL_sk_set_cmp_func s f = (stk_comp s, s') \<and> sk_wf call_cmp s' \<and> contents s' = contents s \<and> stk_comp s' = f
          \<and> (stk_sorted s' \<longleftrightarrow> stk_sorted s \<and> f = stk_comp s))"
proof (intro conjI)
  obtain n sk' where r: "OPENSSL_sk_insert al (Some s) p pos = (n, sk')" by fastforce
  have full: "stk_num s \<le> INT_MAX" using assms by (simp add: sk_wf_def)
  show "case OPENSSL_sk_insert al (Some s) p pos of (n, sk') \<Rightarrow>
      if n = 0 then sk' = Some s \<and> (\<not> always_allocates al \<or> stk_num s = INT_MAX)
      else n = stk_num s + 1 \<and> stk_num s < INT_MAX
        \<and> (\<exists>s'. sk' = Some s' \<and> sk_wf call_cmp s' \<and> contents s' = take pos (contents s) @ p # drop pos (contents s))"
  proof (rule insert_spec [OF assms r], goal_cases)
    case 1
    then show ?thesis using r push_succeeds [OF _ assms, of al p pos] full by force
  next
    case (2 s')
    then have "stk_num s < INT_MAX" using r full by (cases "stk_num s = INT_MAX") (simp_all add: OPENSSL_sk_insert_def)
    with 2 r show ?thesis by simp
  qed
  show "if i < stk_num s
       then \<exists>s'. OPENSSL_sk_delete (Some s) i = (contents s ! i, Some s') \<and> sk_wf call_cmp s'
          \<and> contents s' = take i (contents s) @ drop (Suc i) (contents s)
       else OPENSSL_sk_delete (Some s) i = (NULL, Some s)"
    using delete_spec [OF assms, of i] by (auto simp: OPENSSL_sk_delete_def)
  show "\<exists>s'. OPENSSL_sk_delete_if call_func (Some s) st = (Some s', snd (sieve call_func (contents s) st))
          \<and> sk_wf call_cmp s' \<and> contents s' = fst (sieve call_func (contents s) st)"
    using delete_if_spec [OF assms, of call_func st] by blast
  show "\<exists>s'. OPENSSL_sk_zero (Some s) = Some s' \<and> sk_wf call_cmp s' \<and> contents s' = []"
    using zero_spec [OF assms] by blast
qed (rule set_cmp_spec [OF assms])

theorem stack_operations_witness:
  "(\<exists>s'. OPENSSL_sk_delete (Some example_stack) 1 = (5, Some s') \<and> sk_wf example_cmp s' \<and> contents s' = [9, 7])
   \<and> (\<exists>s'. OPENSSL_sk_delete_if (\<lambda>q n. (q < 8, n + q)) (Some example_stack) 0 = (Some s', 21) \<and> contents s' = [9])"
proof -
  note W = stack_operations [OF example_stack_wf, where i = 1 and call_func = "\<lambda>q n. (q < 8, n + q)" and st = "0 :: nat"]
  have c: "contents example_stack = [9, 5, 7]" "1 < stk_num example_stack"
    by (simp_all add: example_stack_def contents_def numeral_3_eq_3)
  from conjunct1 [OF conjunct2 [OF W]] conjunct1 [OF conjunct2 [OF conjunct2 [OF W]]] show ?thesis unfolding c(1) using c(2) by auto
qed

text \<open>
  What was pushed, as long as memory lasts, is popped in the opposite order, and the
  stack then holds what it held before.
\<close>

theorem push_pop:
  assumes "sk_wf call_cmp s" "try_push al p s = Some s1" "try_push al q s1 = Some s2"
  shows "\<exists>s3 s4. try_pop s2 = Some (q, s3) \<and> try_pop s3 = Some (p, s4) \<and> contents s4 = contents s \<and> sk_wf call_cmp s4"
proof -
  have "stack.add_all al [p, q] s = Some s2" using assms by simp
  from stack.add_take [OF assms(1) this] show ?thesis
    by (auto simp: numeral_2_eq_2 split: option.splits prod.splits)
qed

theorem push_pop_witness:
  "\<exists>s2 s3 s4. try_pop s2 = Some (8, s3) \<and> try_pop s3 = Some (6, s4) \<and> contents s4 = [9, 5, 7]"
proof -
  define al :: allocator where "al = (\<lambda>_. Some (\<lambda>_. 0))"
  have al: "always_allocates al" by (simp add: always_allocates_def al_def)
  obtain s1 where s1: "try_push al 6 example_stack = Some s1"
    using try_push_succeeds [OF al example_stack_wf] by (auto simp: example_stack_def INT_MAX_def)
  from try_push_spec [OF example_stack_wf s1]
  have w1: "sk_wf example_cmp s1" "contents s1 = contents example_stack @ [6]" by blast+
  then have "stk_num s1 = 4" using length_contents [OF w1(1)] by (simp add: example_stack_def contents_def)
  then obtain s2 where "try_push al 8 s1 = Some s2"
    using try_push_succeeds [OF al w1(1)] by (auto simp: INT_MAX_def)
  from push_pop [OF example_stack_wf s1 this] show ?thesis by (auto simp: example_stack_def contents_def numeral_3_eq_3)
qed

text \<open>A binary search all of whose comparisons say that the element is further up.\<close>

lemma binary_search_up: "(\<And>i. lo \<le> i \<Longrightarrow> i < hi \<Longrightarrow> 0 < cmp (data ! i)) \<Longrightarrow> binary_search cmp data lo hi = None"
proof (induction cmp data lo hi rule: binary_search.induct)
  case (1 cmp data lo hi)
  define mid where "mid = lo + (hi - lo - 1) div 2"
  show ?case
  proof (cases "lo < hi")
    case True
    then have m: "lo \<le> mid" "mid < hi" by (auto simp: mid_def)
    then have "0 < cmp (data ! mid)" by (rule "1.prems")
    moreover have "binary_search cmp data (mid + 1) hi = None"
      using "1.IH"(1) [OF True mid_def refl calculation] "1.prems" m by simp
    ultimately show ?thesis using True by (subst binary_search.simps) (simp add: mid_def Let_def)
  qed (simp add: binary_search.simps)
qed

text \<open>
  Claim C26.  \<open>OPENSSL_sk_set\<close> does not keep the invariant, and \<open>OPENSSL_sk_find\<close> fails for it.  Take any sorted stack of
  three or more elements, where \<open>OPENSSL_sk_find\<close> finds each of them, and a pointer greater than all
  of them.  When \<open>OPENSSL_sk_set\<close> makes it the first element, the stack still says that it is sorted,
  it is not, and \<open>OPENSSL_sk_find\<close> does not find the pointer; with the flag reset, as insertion resets it, it is found.
\<close>

theorem set_breaks_find:
  assumes "sk_wf call_cmp s" "comparator (call_cmp (stk_comp s))" "stk_comp s \<noteq> NULL"
    and "OPENSSL_sk_is_sorted (Some s)" "3 \<le> stk_num s"
    and "p \<noteq> NULL" "\<forall>q \<in> set (contents s). call_cmp (stk_comp s) q p < 0"
  shows "(\<forall>q \<in> set (contents s). q \<noteq> NULL \<longrightarrow>
        (\<exists>i < stk_num s. OPENSSL_sk_find call_cmp (Some s) q = Some i \<and> call_cmp (stk_comp s) q (contents s ! i) = 0))
    \<and> (\<exists>s'. OPENSSL_sk_set (Some s) 0 p = (p, Some s') \<and> contents s' = (contents s)[0 := p]
        \<and> OPENSSL_sk_is_sorted (Some s') \<and> \<not> sorted_wrt (\<lambda>x y. call_cmp (stk_comp s) x y \<le> 0) (contents s')
        \<and> OPENSSL_sk_find call_cmp (Some s') p = None
        \<and> OPENSSL_sk_find call_cmp (Some (s'\<lparr>stk_sorted := False\<rparr>)) p = Some 0)"
proof
  let ?c = "call_cmp (stk_comp s)"
  note sign = comparator.sign [OF assms(2)]
  have same: "?c q q = 0" for q using sign [of q q] by linarith
  show "\<forall>q \<in> set (contents s). q \<noteq> NULL \<longrightarrow>
        (\<exists>i < stk_num s. OPENSSL_sk_find call_cmp (Some s) q = Some i \<and> ?c q (contents s ! i) = 0)"
  proof (intro ballI impI)
    fix q
    assume q: "q \<in> set (contents s)" "q \<noteq> NULL"
    then obtain j where "j < stk_num s" "?c q (contents s ! j) = 0"
      using same length_contents [OF assms(1)] by (metis in_set_conv_nth)
    then show "\<exists>i < stk_num s. OPENSSL_sk_find call_cmp (Some s) q = Some i \<and> ?c q (contents s ! i) = 0"
      using find_first [OF assms(1-3) q(2)] nth_contents [OF assms(1)]
      by (cases "OPENSSL_sk_find call_cmp (Some s) q") (auto simp: first_match_def)
  qed
  define s' where "s' = s\<lparr>stk_data := (stk_data s)[0 := p]\<rparr>"
  have n: "length (contents s) = stk_num s" "stk_num s \<le> length (stk_data s)"
    using length_contents [OF assms(1)] assms(1) by (simp_all add: sk_wf_def)
  have cs: "contents s' = (contents s)[0 := p]" using assms(5) by (simp add: contents_def s'_def take_update_swap)
  have up: "0 < ?c p (stk_data s' ! i)" if "1 \<le> i" "i < stk_num s" for i
  proof -
    have "stk_data s' ! i = contents s ! i" using that by (simp add: s'_def contents_def)
    moreover have "contents s ! i \<in> set (contents s)" using that n(1) by simp
    ultimately show ?thesis using assms(7) sign by metis
  qed
  have flag: "stk_sorted s" using assms(4,5) by (simp add: OPENSSL_sk_is_sorted_def)
  have "OPENSSL_sk_set (Some s) 0 p = (p, Some s')" using assms(5) by (simp add: OPENSSL_sk_set_def s'_def)
  moreover have "OPENSSL_sk_is_sorted (Some s')" using flag by (simp add: OPENSSL_sk_is_sorted_def s'_def)
  moreover have "\<not> sorted_wrt (\<lambda>x y. ?c x y \<le> 0) (contents s')"
  proof
    assume "sorted_wrt (\<lambda>x y. ?c x y \<le> 0) (contents s')"
    from sorted_wrt_nth_less [OF this, of 0 1] have "?c p (contents s ! 1) \<le> 0" using assms(5) n(1) by (simp add: cs)
    moreover have "stk_data s' ! 1 = contents s ! 1" using assms(5) by (simp add: s'_def contents_def)
    ultimately show False using up [of 1] assms(5) by simp
  qed
  moreover have "OPENSSL_sk_find call_cmp (Some s') p = None"
  proof -
    define mid where "mid = (stk_num s - 1) div 2"
    have m: "1 \<le> mid" "mid < stk_num s" using assms(5) by (auto simp: mid_def)
    have "binary_search (?c p) (stk_data s') 0 (stk_num s) = binary_search (?c p) (stk_data s') (mid + 1) (stk_num s)"
      using up [OF m] assms(5) by (subst binary_search.simps) (simp add: mid_def Let_def)
    also have "\<dots> = None" by (rule binary_search_up) (use up in simp)
    finally show ?thesis using flag assms(3,6) by (simp add: OPENSSL_sk_find_def OPENSSL_sk_is_sorted_def s'_def)
  qed
  moreover have "OPENSSL_sk_find call_cmp (Some (s'\<lparr>stk_sorted := False\<rparr>)) p = Some 0"
  proof -
    have "take (stk_num s) (stk_data s') \<noteq> []" "hd (take (stk_num s) (stk_data s')) = p"
      using assms(5) n(2) by (cases "stk_data s"; auto simp: s'_def)+
    then obtain qs where "take (stk_num s) (stk_data s') = p # qs" by (cases "take (stk_num s) (stk_data s')") auto
    then show ?thesis using assms(3,5,6) same by (simp add: OPENSSL_sk_find_def OPENSSL_sk_is_sorted_def s'_def)
  qed
  ultimately show "\<exists>s'. OPENSSL_sk_set (Some s) 0 p = (p, Some s') \<and> contents s' = (contents s)[0 := p]
        \<and> OPENSSL_sk_is_sorted (Some s') \<and> \<not> sorted_wrt (\<lambda>x y. ?c x y \<le> 0) (contents s')
        \<and> OPENSSL_sk_find call_cmp (Some s') p = None
        \<and> OPENSSL_sk_find call_cmp (Some (s'\<lparr>stk_sorted := False\<rparr>)) p = Some 0"
    using cs by blast
qed

theorem set_breaks_find_witness:
  "OPENSSL_sk_find example_cmp (snd (OPENSSL_sk_set (Some sorted_stack) 0 9)) 9 = None"
proof -
  have "stk_comp sorted_stack \<noteq> NULL" "OPENSSL_sk_is_sorted (Some sorted_stack)" "3 \<le> stk_num sorted_stack" "(9 :: ptr) \<noteq> NULL"
    "\<forall>q \<in> set (contents sorted_stack). example_cmp (stk_comp sorted_stack) q 9 < 0"
    by (simp_all add: sorted_stack_def contents_def example_cmp_def OPENSSL_sk_is_sorted_def)
  from conjunct2 [OF set_breaks_find [OF sorted_stack_wf example_comparator this]] show ?thesis by auto
qed

end
