(* ===== verification/Base64.thy ===== *)
theory Base64 imports Mem begin

unbundle bit_operations_syntax

text \<open>
  \<open>crypto/base64/base64.c\<close>: the constant-time character maps, block encoding and decoding, and the
  streaming coder with lines of 48 bytes.  Output pointers are the list of bytes written from
  them, as the functions leave them; \<open>in_len\<close> is the length of the input list.
\<close>

section \<open>Character maps\<close>

text \<open>The result of \<open>constant_time_msb_w\<close> is truncated to a byte.\<close>

definition constant_time_lt_args_8 :: "u8 \<Rightarrow> u8 \<Rightarrow> u8" where
  "constant_time_lt_args_8 a b = (let aw = ucast a :: u64; bw = ucast b in ucast (constant_time_msb_w (aw - bw)))"

definition constant_time_in_range_8 :: "u8 \<Rightarrow> u8 \<Rightarrow> u8 \<Rightarrow> u8" where
  "constant_time_in_range_8 a lo hi = constant_time_lt_args_8 (a - lo) (hi - lo + 1)"

definition conv_bin2ascii :: "u8 \<Rightarrow> u8" where
  "conv_bin2ascii a0 =
     (let a = a0 AND 0x3f;
          ret = constant_time_select_8 (ucast (constant_time_eq_8 (ucast a) 62)) 43 47;
          ret = constant_time_select_8 (ucast (constant_time_lt_args_8 a 62)) (a - 52 + 48) ret;
          ret = constant_time_select_8 (ucast (constant_time_lt_args_8 a 52)) (a - 26 + 97) ret;
          ret = constant_time_select_8 (ucast (constant_time_lt_args_8 a 26)) (a + 65) ret
      in ret)"

definition base64_ascii_to_bin :: "u8 \<Rightarrow> u8" where
  "base64_ascii_to_bin a =
     (let is_upper = constant_time_in_range_8 a 65 90;
          is_lower = constant_time_in_range_8 a 97 122;
          is_digit = constant_time_in_range_8 a 48 57;
          is_plus = constant_time_eq_8 (ucast a) 43;
          is_slash = constant_time_eq_8 (ucast a) 47;
          is_equals = constant_time_eq_8 (ucast a) 61;
          ret = is_upper AND (a - 65);
          ret = ret OR (is_lower AND (a - 97 + 26));
          ret = ret OR (is_digit AND (a - 48 + 52));
          ret = ret OR (is_plus AND 62);
          ret = ret OR (is_slash AND 63);
          is_valid = is_upper OR is_lower OR is_digit OR is_plus OR is_slash OR is_equals
      in ret OR NOT is_valid)"

section \<open>Encoding\<close>

definition EVP_EncodedLength :: "nat \<Rightarrow> nat option" where
  "EVP_EncodedLength len =
     (if size_add len 2 < len then None
      else let len = size_add len 2 div 3
      in if size_mul len 4 div 4 \<noteq> len then None
         else let len = size_mul len 4 in if size_add len 1 < len then None else Some (size_add len 1))"

record encode_ctx =
  ec_data_used :: nat
  ec_data :: bytes
  ec_eof_seen :: bool
  ec_error :: bool

definition sizeof_data :: nat where
  "sizeof_data = 48"

definition EVP_EncodeInit :: "encode_ctx \<Rightarrow> encode_ctx" where
  "EVP_EncodeInit ctx = \<lparr>ec_data_used = 0, ec_data = replicate sizeof_data 0, ec_eof_seen = False, ec_error = False\<rparr>"

text \<open>\<open>sizeof(EVP_ENCODE_CTX)\<close> is 56; a zeroed context is an initialised one.\<close>

definition EVP_ENCODE_CTX_new :: "allocator \<Rightarrow> encode_ctx option" where
  "EVP_ENCODE_CTX_new al =
     map_option (\<lambda>_. \<lparr>ec_data_used = 0, ec_data = replicate sizeof_data 0, ec_eof_seen = False, ec_error = False\<rparr>)
       (OPENSSL_zalloc al 56)"

text \<open>The characters that the loop of \<open>EVP_EncodeBlock\<close> writes.\<close>

definition encode_quad :: "u32 \<Rightarrow> bytes" where
  "encode_quad l = [conv_bin2ascii (ucast (drop_bit 18 l)), conv_bin2ascii (ucast (drop_bit 12 l)),
                    conv_bin2ascii (ucast (drop_bit 6 l)), conv_bin2ascii (ucast l)]"

fun encode_loop :: "bytes \<Rightarrow> bytes" where
  "encode_loop [] = []"
| "encode_loop [a] =
     (let l = push_bit 16 (ucast a :: u32)
      in [conv_bin2ascii (ucast (drop_bit 18 l)), conv_bin2ascii (ucast (drop_bit 12 l)), 61, 61])"
| "encode_loop [a, b] =
     (let l = push_bit 16 (ucast a :: u32) OR push_bit 8 (ucast b)
      in [conv_bin2ascii (ucast (drop_bit 18 l)), conv_bin2ascii (ucast (drop_bit 12 l)),
          conv_bin2ascii (ucast (drop_bit 6 l)), 61])"
| "encode_loop (a # b # c # src) =
     encode_quad (push_bit 16 (ucast a) OR push_bit 8 (ucast b) OR ucast c) @ encode_loop src"

text \<open>The bytes written, with the terminating zero, and the number of characters.\<close>

definition EVP_EncodeBlock :: "bytes \<Rightarrow> bytes \<times> nat" where
  "EVP_EncodeBlock src = (let dst = encode_loop src in (dst @ [0], length dst))"

text \<open>
  The loop over whole lines: the input that is left, the bytes written (each line's zero is
  overwritten by the next line), the total, and whether the total overflowed.
\<close>

function encode_lines :: "bytes \<Rightarrow> bytes \<Rightarrow> nat \<Rightarrow> bytes \<times> bytes \<times> nat \<times> bool" where
  "encode_lines inp out tot =
     (if sizeof_data \<le> length inp then
        let (line, encoded) = EVP_EncodeBlock (take sizeof_data inp);
            inp = drop sizeof_data inp;
            out = out @ take encoded line @ [10];
            tot' = size_add tot (encoded + 1)
        in if tot' < tot then (inp, out, tot, True) else encode_lines inp out tot'
      else (inp, out, tot, False))"
  by auto
termination
  by (relation "measure (\<lambda>(inp, _). length inp)") (auto simp: sizeof_data_def)

declare encode_lines.simps [simp del]

text \<open>The result is the context, the bytes written (no zero is written when no line is) and \<open>*out_len\<close>.\<close>

definition EVP_EncodeUpdate :: "encode_ctx \<Rightarrow> bytes \<Rightarrow> encode_ctx \<times> bytes \<times> nat" where
  "EVP_EncodeUpdate ctx inp =
     (if inp = [] then (ctx, [], 0)
      else if length inp < sizeof_data - ec_data_used ctx then
        (ctx\<lparr>ec_data := take (ec_data_used ctx) (ec_data ctx) @ inp @ drop (ec_data_used ctx + length inp) (ec_data ctx),
             ec_data_used := ec_data_used ctx + length inp\<rparr>, [], 0)
      else
        let used = ec_data_used ctx; todo = sizeof_data - used;
            data = (if used \<noteq> 0 then take used (ec_data ctx) @ take todo inp else ec_data ctx);
            (line, encoded) = EVP_EncodeBlock data;
            out0 = (if used \<noteq> 0 then take encoded line @ [10] else []);
            tot0 = (if used \<noteq> 0 then encoded + 1 else 0);
            inp0 = (if used \<noteq> 0 then drop todo inp else inp);
            (rest, out, tot, overflow) = encode_lines inp0 out0 tot0;
            written = (if out = [] then [] else out @ [0])
        in if overflow then (ctx\<lparr>ec_data := data, ec_data_used := 0\<rparr>, written, 0)
           else (ctx\<lparr>ec_data := rest @ drop (length rest) data, ec_data_used := length rest\<rparr>,
                 written, if INT_MAX < tot then 0 else tot))"

definition EVP_EncodeFinal :: "encode_ctx \<Rightarrow> encode_ctx \<times> bytes \<times> nat" where
  "EVP_EncodeFinal ctx =
     (if ec_data_used ctx = 0 then (ctx, [], 0)
      else let (line, encoded) = EVP_EncodeBlock (take (ec_data_used ctx) (ec_data ctx))
           in (ctx\<lparr>ec_data_used := 0\<rparr>, take encoded line @ [10, 0], encoded + 1))"

section \<open>Decoding\<close>

definition EVP_DecodedLength :: "nat \<Rightarrow> nat option" where
  "EVP_DecodedLength len = (if len mod 4 \<noteq> 0 then None else Some (len div 4 * 3))"

definition EVP_DecodeInit :: "encode_ctx \<Rightarrow> encode_ctx" where
  "EVP_DecodeInit ctx = \<lparr>ec_data_used = 0, ec_data = replicate sizeof_data 0, ec_eof_seen = False, ec_error = False\<rparr>"

definition base64_decode_quad :: "u8 \<Rightarrow> u8 \<Rightarrow> u8 \<Rightarrow> u8 \<Rightarrow> bytes option" where
  "base64_decode_quad in0 in1 in2 in3 =
     (let a = base64_ascii_to_bin in0; b = base64_ascii_to_bin in1;
          c = base64_ascii_to_bin in2; d = base64_ascii_to_bin in3
      in if a = 0xff \<or> b = 0xff \<or> c = 0xff \<or> d = 0xff then None
      else let v = push_bit 18 (ucast a :: u32) OR push_bit 12 (ucast b) OR push_bit 6 (ucast c) OR ucast d;
               padding_pattern = (in0 = 61, in1 = 61, in2 = 61, in3 = 61)
      in if padding_pattern = (False, False, False, False) then
           Some [ucast (drop_bit 16 v), ucast (drop_bit 8 v), ucast v]
         else if padding_pattern = (False, False, False, True) then
           Some [ucast (drop_bit 16 v), ucast (drop_bit 8 v)]
         else if padding_pattern = (False, False, True, True) then Some [ucast (drop_bit 16 v)]
         else None)"

definition is_space :: "u8 \<Rightarrow> bool" where
  "is_space c \<longleftrightarrow> c = 32 \<or> c = 9 \<or> c = 13 \<or> c = 10"

text \<open>The loop over the characters: the context, whether it goes on, and the bytes written.\<close>

fun decode_update_loop :: "encode_ctx \<Rightarrow> bytes \<Rightarrow> bytes \<Rightarrow> encode_ctx \<times> bool \<times> bytes" where
  "decode_update_loop ctx out [] = (ctx, True, out)"
| "decode_update_loop ctx out (c # inp) =
     (if is_space c then decode_update_loop ctx out inp
      else if ec_eof_seen ctx then (ctx\<lparr>ec_error := True\<rparr>, False, out)
      else let ctx = ctx\<lparr>ec_data := (ec_data ctx)[ec_data_used ctx := c], ec_data_used := ec_data_used ctx + 1\<rparr>
      in if ec_data_used ctx = 4 then
           (case base64_decode_quad (ec_data ctx ! 0) (ec_data ctx ! 1) (ec_data ctx ! 2) (ec_data ctx ! 3) of
              None \<Rightarrow> (ctx\<lparr>ec_error := True\<rparr>, False, out)
            | Some bs \<Rightarrow> decode_update_loop (ctx\<lparr>ec_data_used := 0, ec_eof_seen := ec_eof_seen ctx \<or> length bs < 3\<rparr>)
                (out @ bs) inp)
         else decode_update_loop ctx out inp)"

definition EVP_DecodeUpdate :: "encode_ctx \<Rightarrow> bytes \<Rightarrow> int \<times> encode_ctx \<times> bytes \<times> nat" where
  "EVP_DecodeUpdate ctx inp =
     (if ec_error ctx then (- 1, ctx, [], 0)
      else case decode_update_loop ctx [] inp of
        (ctx', ok, out) \<Rightarrow>
          if \<not> ok then (- 1, ctx', out, 0)
          else if INT_MAX < length out then (- 1, ctx'\<lparr>ec_error := True\<rparr>, out, 0)
          else (if ec_eof_seen ctx' then 0 else 1, ctx', out, length out))"

definition EVP_DecodeFinal :: "encode_ctx \<Rightarrow> int \<times> nat" where
  "EVP_DecodeFinal ctx = (if ec_error ctx \<or> ec_data_used ctx \<noteq> 0 then (- 1, 0) else (1, 0))"

text \<open>The loop over the quads: whether it succeeded, and the bytes written.\<close>

fun decode_base64_loop :: "bytes \<Rightarrow> bytes \<Rightarrow> bool \<times> bytes" where
  "decode_base64_loop out (a # b # c # d # inp) =
     (case base64_decode_quad a b c d of None \<Rightarrow> (False, out)
      | Some bs \<Rightarrow>
          if length bs \<noteq> 3 \<and> inp \<noteq> [] then (False, out @ bs) else decode_base64_loop (out @ bs) inp)"
| "decode_base64_loop out _ = (True, out)"

text \<open>Success, the bytes written, and \<open>*out_len\<close>.\<close>

definition EVP_DecodeBase64 :: "nat \<Rightarrow> bytes \<Rightarrow> bool \<times> bytes \<times> nat" where
  "EVP_DecodeBase64 max_out inp =
     (if length inp mod 4 \<noteq> 0 then (False, [], 0)
      else case EVP_DecodedLength (length inp) of None \<Rightarrow> (False, [], 0)
      | Some max_len \<Rightarrow>
          if max_out < max_len then (False, [], 0)
          else case decode_base64_loop [] inp of
                 (False, out) \<Rightarrow> (False, out, 0)
               | (True, out) \<Rightarrow> (True, out, length out))"

text \<open>
  The result is the bytes written to \<open>dst\<close>, and their number or \<open>-1\<close>.  The padding loop appends
  zeros up to a multiple of three.
\<close>

definition EVP_DecodeBlock :: "bytes \<Rightarrow> bytes \<times> int" where
  "EVP_DecodeBlock src =
     (let src = dropWhile (\<lambda>c. c = 32 \<or> c = 9) src;
          src = rev (dropWhile is_space (rev src))
      in case EVP_DecodedLength (length src) of None \<Rightarrow> ([], - 1)
      | Some dst_len \<Rightarrow>
          if INT_MAX < dst_len then ([], - 1)
          else case EVP_DecodeBase64 dst_len src of
                 (False, dst, _) \<Rightarrow> (dst, - 1)
               | (True, dst, dst_len) \<Rightarrow>
                   let pad = (3 - dst_len mod 3) mod 3 in (dst @ replicate pad 0, int (dst_len + pad)))"

end
