(* ===== verification/Base64Spec.thy ===== *)
theory Base64Spec imports Base64 begin

text \<open>
  Base64: the constant-time character maps are the alphabet of RFC 4648 and its inverse, decoding
  undoes encoding for blocks and for streams, and the streaming coder does not depend on how its
  input is cut into pieces.
\<close>

section \<open>The alphabet\<close>

lemma unat_byte_up: "unat (ucast (a :: u8) :: u64) = unat a"
proof -
  have "unat a mod 2 ^ 64 = unat a" by (rule mod_less) (rule order.strict_trans2 [OF unat_byte_less], simp)
  then show ?thesis by (simp add: unat_ucast_mod)
qed

lemma byte_up_down: "ucast (ucast (a :: u8) :: u64) = a"
  by (rule bit_word_eqI) (auto simp: bit_simps)

lemma ct_lt_args [ct_simps]: "constant_time_lt_args_8 a b = (if a < b then - 1 else 0)"
proof -
  define x y where "x = (ucast a :: u64)" and "y = (ucast b :: u64)"
  have u: "unat x = unat a" "unat y = unat b" "unat a < 256" "unat b < 256"
    by (simp_all add: x_def y_def unat_byte_up)
  have "unat (x - y) = (if unat b \<le> unat a then unat a - unat b else unat a + 2 ^ 64 - unat b)"
    by (simp add: unat_sub_if_size word_size u)
  then have "bit (x - y) 63 \<longleftrightarrow> a < b" using u(3,4) by (auto simp: bit63_iff word_less_nat_alt simp del: unat_byte_less)
  then have "constant_time_msb_w (x - y) = (if a < b then - 1 else 0)" by (simp add: constant_time_msb_w_eq)
  then show ?thesis
    unfolding constant_time_lt_args_8_def Let_def x_def [symmetric] y_def [symmetric] by (simp only: ucast_mask_8)
qed

lemma ct_in_range:
  assumes "lo \<le> hi" "hi - lo < 255"
  shows "constant_time_in_range_8 a lo hi = (if lo \<le> a \<and> a \<le> hi then - 1 else 0)"
proof -
  have "unat (hi - lo) = unat hi - unat lo" using assms(1) by (simp add: unat_sub)
  moreover have "unat (hi - lo + 1) = unat (hi - lo) + 1"
    using assms(2) by (simp add: word_less_nat_alt unat_word_ariths)
  moreover have "unat (a - lo) = (if unat lo \<le> unat a then unat a - unat lo else unat a + 256 - unat lo)"
    by (simp add: unat_sub_if_size word_size)
  ultimately have "a - lo < hi - lo + 1 \<longleftrightarrow> lo \<le> a \<and> a \<le> hi"
    using assms(1) unat_byte_less [of hi] by (auto simp: word_less_nat_alt word_le_nat_alt simp del: unat_byte_less)
  then show ?thesis by (simp add: constant_time_in_range_8_def ct_simps)
qed

lemma ct_select_byte [ct_simps]:
  "constant_time_select_8 (ucast (if c then - 1 else 0 :: u8)) a b = (if c then a else b)"
proof -
  have "ucast (ucast (if c then - 1 else 0 :: u8) :: u64) = (if c then - 1 else 0 :: u8)"
    by (rule bit_word_eqI) (auto simp: bit_simps)
  then show ?thesis by (simp add: constant_time_select_8_def Let_def)
qed

lemma ct_eq_byte:
  assumes "k = ucast (l :: u8)"
  shows "constant_time_eq_8 (ucast a) k = (if a = l then - 1 else 0)"
proof -
  have "ucast a = (ucast l :: u64) \<longleftrightarrow> a = l" by (metis byte_up_down)
  then show ?thesis by (simp add: constant_time_eq_8_def ct_simps assms)
qed

lemma conv_bin2ascii_eq:
  "conv_bin2ascii x = (let a = x AND 0x3f in
     if a < 26 then a + 65 else if a < 52 then a - 26 + 97 else if a < 62 then a - 52 + 48 else if a = 62 then 43 else 47)"
proof -
  have "constant_time_eq_8 (ucast a) 62 = (if a = 62 then - 1 else 0)" for a :: u8 by (rule ct_eq_byte) simp
  then show ?thesis unfolding conv_bin2ascii_def Let_def by (simp only: ct_simps)
qed

lemma or_mask: "((if c then - 1 else 0) AND x :: u8) = (if c then x else 0)"
  by simp

lemma base64_ascii_to_bin_eq:
  "base64_ascii_to_bin a =
     (if 65 \<le> a \<and> a \<le> 90 then a - 65 else if 97 \<le> a \<and> a \<le> 122 then a - 97 + 26
      else if 48 \<le> a \<and> a \<le> 57 then a - 48 + 52 else if a = 43 then 62 else if a = 47 then 63
      else if a = 61 then 0 else 0xff)"
proof -
  have r: "constant_time_in_range_8 a 65 90 = (if 65 \<le> a \<and> a \<le> 90 then - 1 else 0)"
    "constant_time_in_range_8 a 97 122 = (if 97 \<le> a \<and> a \<le> 122 then - 1 else 0)"
    "constant_time_in_range_8 a 48 57 = (if 48 \<le> a \<and> a \<le> 57 then - 1 else 0)"
    by (rule ct_in_range; simp)+
  have e: "constant_time_eq_8 (ucast a) 43 = (if a = 43 then - 1 else 0)" "constant_time_eq_8 (ucast a) 47 = (if a = 47 then - 1 else 0)"
    "constant_time_eq_8 (ucast a) 61 = (if a = 61 then - 1 else 0)"
    by (rule ct_eq_byte; simp)+
  consider "65 \<le> a \<and> a \<le> 90" | "97 \<le> a \<and> a \<le> 122" | "48 \<le> a \<and> a \<le> 57" | "a = 43" | "a = 47" | "a = 61"
    | "\<not> (65 \<le> a \<and> a \<le> 90)" "\<not> (97 \<le> a \<and> a \<le> 122)" "\<not> (48 \<le> a \<and> a \<le> 57)" "a \<noteq> 43" "a \<noteq> 47" "a \<noteq> 61" by blast
  then show ?thesis
    unfolding base64_ascii_to_bin_def Let_def r e by cases (auto simp: word_le_nat_alt)
qed

text \<open>All sixty-four digits.\<close>

lemma digits_inverse:
  "list_all (\<lambda>n. base64_ascii_to_bin (conv_bin2ascii (word_of_nat n)) = word_of_nat n
     \<and> conv_bin2ascii (word_of_nat n) \<noteq> 61 \<and> \<not> is_space (conv_bin2ascii (word_of_nat n))) [0..<64]"
  unfolding conv_bin2ascii_eq base64_ascii_to_bin_eq is_space_def by code_simp

lemma conv_digit:
  fixes x :: u8
  shows "base64_ascii_to_bin (conv_bin2ascii x) = x AND 0x3f" "conv_bin2ascii x \<noteq> 61" "\<not> is_space (conv_bin2ascii x)"
proof -
  define n where "n = unat (x AND 0x3f)"
  have "n = unat x mod 64" using unat_and_mask [of x 6] by (simp add: n_def mask_eq_exp_minus_1)
  then have n: "n \<in> set [0..<64]" by simp
  have w: "word_of_nat n = x AND 0x3f" by (simp add: n_def)
  have c: "conv_bin2ascii x = conv_bin2ascii (word_of_nat n)" unfolding w by (simp add: conv_bin2ascii_eq Let_def)
  from digits_inverse n have "base64_ascii_to_bin (conv_bin2ascii (word_of_nat n)) = word_of_nat n
     \<and> conv_bin2ascii (word_of_nat n) \<noteq> 61 \<and> \<not> is_space (conv_bin2ascii (word_of_nat n))"
    unfolding list_all_iff by blast
  with w c show "base64_ascii_to_bin (conv_bin2ascii x) = x AND 0x3f" "conv_bin2ascii x \<noteq> 61" "\<not> is_space (conv_bin2ascii x)"
    by simp_all
qed

lemma digit_not_ff: "(x AND 0x3f :: u8) \<noteq> 0xff"
proof -
  have "unat (x AND 0x3f) < 64" using unat_and_mask [of x 6] by (simp add: mask_eq_exp_minus_1)
  then show ?thesis by auto
qed

section \<open>Quads\<close>

lemma quad_bits:
  fixes l :: u32
  assumes "\<And>n. bit l n \<Longrightarrow> n < 24"
  shows "push_bit 18 (ucast (ucast (drop_bit 18 l) AND 0x3f :: u8) :: u32) OR push_bit 12 (ucast (ucast (drop_bit 12 l) AND 0x3f :: u8))
    OR push_bit 6 (ucast (ucast (drop_bit 6 l) AND 0x3f :: u8)) OR ucast (ucast l AND 0x3f :: u8) = l"
proof (rule bit_word_eqI)
  fix n assume "n < LENGTH(32)"
  have m: "(0x3f :: u8) = mask 6" by (simp add: mask_eq_exp_minus_1)
  consider "n < 6" | "6 \<le> n" "n < 12" | "12 \<le> n" "n < 18" | "18 \<le> n" "n < 24" | "24 \<le> n" by linarith
  then show "bit (push_bit 18 (ucast (ucast (drop_bit 18 l) AND 0x3f :: u8) :: u32) OR push_bit 12 (ucast (ucast (drop_bit 12 l) AND 0x3f :: u8))
    OR push_bit 6 (ucast (ucast (drop_bit 6 l) AND 0x3f :: u8)) OR ucast (ucast l AND 0x3f :: u8)) n = bit l n"
    unfolding m by cases (auto simp: bit_simps dest: assms)
qed

text \<open>The 24 bits of a quad and their bytes.\<close>

definition pack :: "u8 \<Rightarrow> u8 \<Rightarrow> u8 \<Rightarrow> u32" where
  "pack a b c = push_bit 16 (ucast a) OR push_bit 8 (ucast b) OR ucast c"

lemma bit_pack: "bit (pack a b c) n \<longleftrightarrow> (if n < 8 then bit c n else if n < 16 then bit b (n - 8) else n < 24 \<and> bit a (n - 16))"
proof -
  have z: "\<not> bit (x :: u8) k" if "8 \<le> k" for x k using bit_imp_le_length [of x k] that by auto
  consider "n < 8" | "8 \<le> n" "n < 16" | "16 \<le> n" "n < 24" | "24 \<le> n" by linarith
  then show ?thesis unfolding pack_def by cases (auto simp: bit_simps z)
qed

lemma pack_bytes: "ucast (drop_bit 16 (pack a b c)) = a" "ucast (drop_bit 8 (pack a b c)) = b" "ucast (pack a b c) = c"
  by (rule bit_word_eqI; auto simp: bit_simps bit_pack)+

lemma pack_quad:
  "push_bit 18 (ucast (ucast (drop_bit 18 (pack a b c)) AND 0x3f :: u8) :: u32) OR push_bit 12 (ucast (ucast (drop_bit 12 (pack a b c)) AND 0x3f :: u8))
    OR push_bit 6 (ucast (ucast (drop_bit 6 (pack a b c)) AND 0x3f :: u8)) OR ucast (ucast (pack a b c) AND 0x3f :: u8) = pack a b c"
  by (rule quad_bits) (auto simp: bit_pack split: if_splits)

lemma low_digits:
  "(ucast (pack a b 0) AND 0x3f :: u8) = 0" "(ucast (drop_bit 6 (pack a 0 0)) AND 0x3f :: u8) = 0"
proof -
  have m: "(0x3f :: u8) = mask 6" by (simp add: mask_eq_exp_minus_1)
  show "(ucast (pack a b 0) AND 0x3f :: u8) = 0" "(ucast (drop_bit 6 (pack a 0 0)) AND 0x3f :: u8) = 0"
    unfolding m by (rule bit_word_eqI; auto simp: bit_simps bit_pack)+
qed

lemma decode_full: "base64_decode_quad (conv_bin2ascii w) (conv_bin2ascii x) (conv_bin2ascii y) (conv_bin2ascii z) =
  (let v = push_bit 18 (ucast (w AND 0x3f) :: u32) OR push_bit 12 (ucast (x AND 0x3f)) OR push_bit 6 (ucast (y AND 0x3f)) OR ucast (z AND 0x3f)
   in Some [ucast (drop_bit 16 v), ucast (drop_bit 8 v), ucast v])"
  unfolding base64_decode_quad_def Let_def by (simp add: conv_digit digit_not_ff)

lemma bin_pad: "base64_ascii_to_bin 61 = 0"
  by (simp add: base64_ascii_to_bin_eq)

lemma decode_pad1: "base64_decode_quad (conv_bin2ascii w) (conv_bin2ascii x) (conv_bin2ascii y) 61 =
  (let v = push_bit 18 (ucast (w AND 0x3f) :: u32) OR push_bit 12 (ucast (x AND 0x3f)) OR push_bit 6 (ucast (y AND 0x3f)) OR 0
   in Some [ucast (drop_bit 16 v), ucast (drop_bit 8 v)])"
  unfolding base64_decode_quad_def Let_def by (simp add: conv_digit digit_not_ff bin_pad)

lemma decode_pad2: "base64_decode_quad (conv_bin2ascii w) (conv_bin2ascii x) 61 61 =
  (let v = push_bit 18 (ucast (w AND 0x3f) :: u32) OR push_bit 12 (ucast (x AND 0x3f)) OR 0 OR 0
   in Some [ucast (drop_bit 16 v)])"
  unfolding base64_decode_quad_def Let_def by (simp add: conv_digit digit_not_ff bin_pad)

text \<open>What \<open>encode_loop\<close> writes for one, two and three bytes.\<close>

definition quad1 :: "u8 \<Rightarrow> bytes" where
  "quad1 a = [conv_bin2ascii (ucast (drop_bit 18 (pack a 0 0))), conv_bin2ascii (ucast (drop_bit 12 (pack a 0 0))), 61, 61]"

definition quad2 :: "u8 \<Rightarrow> u8 \<Rightarrow> bytes" where
  "quad2 a b = [conv_bin2ascii (ucast (drop_bit 18 (pack a b 0))), conv_bin2ascii (ucast (drop_bit 12 (pack a b 0))),
     conv_bin2ascii (ucast (drop_bit 6 (pack a b 0))), 61]"

lemma encode_loop_quads:
  "encode_loop [a] = quad1 a" "encode_loop [a, b] = quad2 a b"
  "encode_loop (a # b # c # src) = encode_quad (pack a b c) @ encode_loop src"
  by (simp_all add: quad1_def quad2_def pack_def Let_def)

lemma decode_quads:
  "base64_decode_quad (encode_quad (pack a b c) ! 0) (encode_quad (pack a b c) ! 1) (encode_quad (pack a b c) ! 2) (encode_quad (pack a b c) ! 3) = Some [a, b, c]"
  "base64_decode_quad (quad2 a b ! 0) (quad2 a b ! 1) (quad2 a b ! 2) (quad2 a b ! 3) = Some [a, b]"
  "base64_decode_quad (quad1 a ! 0) (quad1 a ! 1) (quad1 a ! 2) (quad1 a ! 3) = Some [a]"
proof -
  show "base64_decode_quad (encode_quad (pack a b c) ! 0) (encode_quad (pack a b c) ! 1) (encode_quad (pack a b c) ! 2) (encode_quad (pack a b c) ! 3) = Some [a, b, c]"
  proof -
    have E: "encode_quad l ! 0 = conv_bin2ascii (ucast (drop_bit 18 l))" "encode_quad l ! 1 = conv_bin2ascii (ucast (drop_bit 12 l))"
      "encode_quad l ! 2 = conv_bin2ascii (ucast (drop_bit 6 l))" "encode_quad l ! 3 = conv_bin2ascii (ucast l)" for l
      by (simp_all add: encode_quad_def numeral_2_eq_2 numeral_3_eq_3)
    show ?thesis unfolding E decode_full Let_def unfolding pack_quad unfolding pack_bytes by (rule refl)
  qed
  have p2: "push_bit 18 (ucast (ucast (drop_bit 18 (pack a b 0)) AND 0x3f :: u8) :: u32) OR push_bit 12 (ucast (ucast (drop_bit 12 (pack a b 0)) AND 0x3f :: u8))
    OR push_bit 6 (ucast (ucast (drop_bit 6 (pack a b 0)) AND 0x3f :: u8)) = pack a b 0"
    using pack_quad [of a b 0] by (simp add: low_digits)
  then show "base64_decode_quad (quad2 a b ! 0) (quad2 a b ! 1) (quad2 a b ! 2) (quad2 a b ! 3) = Some [a, b]"
    by (simp add: quad2_def decode_pad1 pack_bytes Let_def numeral_2_eq_2 numeral_3_eq_3)
  have "push_bit 18 (ucast (ucast (drop_bit 18 (pack a 0 0)) AND 0x3f :: u8) :: u32) OR push_bit 12 (ucast (ucast (drop_bit 12 (pack a 0 0)) AND 0x3f :: u8)) = pack a 0 0"
    using pack_quad [of a 0 0] by (simp add: low_digits)
  then show "base64_decode_quad (quad1 a ! 0) (quad1 a ! 1) (quad1 a ! 2) (quad1 a ! 3) = Some [a]"
    by (simp add: quad1_def decode_pad2 pack_bytes Let_def numeral_2_eq_2 numeral_3_eq_3)
qed

section \<open>Blocks\<close>

lemma length_encode_loop: "length (encode_loop src) = 4 * ((length src + 2) div 3)"
proof (induction src rule: encode_loop.induct)
  case (4 a b c src)
  have "(length (a # b # c # src) + 2) div 3 = Suc ((length src + 2) div 3)" by simp
  with 4 show ?case by (simp add: encode_loop_quads encode_quad_def del: encode_loop.simps(4))
qed (simp_all add: encode_loop_quads quad1_def quad2_def del: encode_loop.simps(2-4))

text \<open>A quad written out.\<close>

lemma quad_list: "length q = 4 \<Longrightarrow> q = [q ! 0, q ! 1, q ! 2, q ! 3]"
  by (rule nth_equalityI) (auto simp: less_Suc_eq numeral_2_eq_2 numeral_3_eq_3 eval_nat_numeral)

lemma decode_base64_step:
  assumes "length q = 4" "base64_decode_quad (q ! 0) (q ! 1) (q ! 2) (q ! 3) = Some bs" "length bs = 3 \<or> inp = []"
  shows "decode_base64_loop out (q @ inp) = decode_base64_loop (out @ bs) inp"
proof -
  have "q @ inp = q ! 0 # q ! 1 # q ! 2 # q ! 3 # inp" using quad_list [OF assms(1)] by (metis append_Cons append_Nil)
  then have "decode_base64_loop out (q @ inp) = decode_base64_loop out (q ! 0 # q ! 1 # q ! 2 # q ! 3 # inp)" by (rule arg_cong)
  also have "\<dots> = decode_base64_loop (out @ bs) inp" using assms(2,3) by auto
  finally show ?thesis .
qed

lemma quad_lengths: "length (encode_quad l) = 4" "length (quad1 a) = 4" "length (quad2 a b) = 4"
  by (simp_all add: encode_quad_def quad1_def quad2_def)

lemma decode_base64_encode: "decode_base64_loop out (encode_loop src) = (True, out @ src)"
proof (induction src arbitrary: out rule: encode_loop.induct)
  case (2 a)
  have "decode_base64_loop out (quad1 a @ []) = decode_base64_loop (out @ [a]) []"
    by (rule decode_base64_step) (simp_all add: quad_lengths decode_quads del: One_nat_def)
  then show ?case by (simp add: encode_loop_quads del: encode_loop.simps)
next
  case (3 a b)
  have "decode_base64_loop out (quad2 a b @ []) = decode_base64_loop (out @ [a, b]) []"
    by (rule decode_base64_step) (simp_all add: quad_lengths decode_quads del: One_nat_def)
  then show ?case by (simp add: encode_loop_quads del: encode_loop.simps)
next
  case (4 a b c src)
  have "decode_base64_loop out (encode_quad (pack a b c) @ encode_loop src) = decode_base64_loop (out @ [a, b, c]) (encode_loop src)"
    by (rule decode_base64_step) (simp_all add: quad_lengths decode_quads del: One_nat_def)
  with 4 show ?case by (simp only: encode_loop_quads append_assoc append_Cons append_Nil)
qed simp

lemma base64_quad_length: "base64_decode_quad a b c d = Some bs \<Longrightarrow> length bs \<le> 3"
  by (auto simp: base64_decode_quad_def Let_def split: if_splits)

lemma decode_base64_length: "length (snd (decode_base64_loop out inp)) \<le> length out + length inp div 4 * 3"
proof (induction out inp rule: decode_base64_loop.induct)
  case (1 out a b c d inp)
  have l: "length (a # b # c # d # inp) div 4 = Suc (length inp div 4)" by simp
  show ?case
  proof (cases "base64_decode_quad a b c d")
    case (Some bs)
    with base64_quad_length [OF Some] 1 show ?thesis by (auto simp: l simp del: list.size) 
  qed simp
qed simp_all

section \<open>Streaming encoder\<close>

lemma encode_loop_append: "3 dvd length xs \<Longrightarrow> encode_loop (xs @ ys) = encode_loop xs @ encode_loop ys"
proof (induction xs rule: encode_loop.induct)
  case (3 a b)
  then have False by (auto dest: dvd_imp_le)
  then show ?case ..
next
  case (4 a b c src)
  have "length (a # b # c # src) = length src + 3" by simp
  with "4.prems" have "3 dvd length src + 3" by metis
  then have "3 dvd length src" by (simp only: dvd_add_triv_right_iff)
  with 4 show ?case by (simp add: encode_loop_quads del: encode_loop.simps(4))
qed auto

text \<open>The whole lines of a byte string, and what is left.\<close>

function whole_lines :: "bytes \<Rightarrow> bytes" where
  "whole_lines s = (if 48 \<le> length s then encode_loop (take 48 s) @ [10] @ whole_lines (drop 48 s) else [])"
  by auto
termination by (relation "measure length") auto

declare whole_lines.simps [simp del]

definition left_over :: "bytes \<Rightarrow> bytes" where
  "left_over s = drop (48 * (length s div 48)) s"

lemma left_over_step: "48 \<le> length s \<Longrightarrow> left_over s = left_over (drop 48 s)"
  by (simp add: left_over_def le_div_geq add.commute)

lemma left_over_short: "length s < 48 \<Longrightarrow> left_over s = s"
  by (simp add: left_over_def)

lemma length_left_over: "length (left_over s) < 48"
  by (simp add: left_over_def minus_mult_div_eq_mod)

lemma length_whole_lines: "length (whole_lines s) = 65 * (length s div 48)"
proof (induction s rule: whole_lines.induct)
  case (1 s)
  show ?case
  proof (cases "48 \<le> length s")
    case True
    then have "length s div 48 = Suc (length (drop 48 s) div 48)" by (simp add: le_div_geq)
    with 1 True show ?thesis by (simp add: whole_lines.simps [of s] length_encode_loop)
  qed (simp add: whole_lines.simps [of s])
qed

lemma whole_lines_append:
  "whole_lines (s @ t) = whole_lines s @ whole_lines (left_over s @ t) \<and> left_over (s @ t) = left_over (left_over s @ t)"
proof (induction s rule: whole_lines.induct)
  case (1 s)
  show ?case
  proof (cases "48 \<le> length s")
    case True
    with 1 show ?thesis
      by (simp add: whole_lines.simps [of s] whole_lines.simps [of "s @ t"] left_over_step [of s] left_over_step [of "s @ t"])
  qed (simp add: whole_lines.simps [of s] left_over_short)
qed

lemma encode_lines_eq:
  assumes "tot + 65 * (length inp div 48) < 2 ^ 64"
  shows "encode_lines inp out tot = (left_over inp, out @ whole_lines inp, tot + 65 * (length inp div 48), False)"
  using assms
proof (induction inp arbitrary: out tot rule: whole_lines.induct)
  case (1 inp)
  show ?case
  proof (cases "48 \<le> length inp")
    case True
    then have d: "length inp div 48 = Suc (length (drop 48 inp) div 48)" by (simp add: le_div_geq)
    have l: "length (encode_loop (take 48 inp)) = 64" using True by (simp add: length_encode_loop)
    have sz: "size_add tot 65 = tot + 65" using "1.prems" d by (simp add: size_add_def)
    have IH: "encode_lines (drop 48 inp) (out @ encode_loop (take 48 inp) @ [10]) (tot + 65) =
      (left_over (drop 48 inp), (out @ encode_loop (take 48 inp) @ [10]) @ whole_lines (drop 48 inp), tot + 65 + 65 * (length (drop 48 inp) div 48), False)"
      by (rule "1.IH" [OF True]) (use "1.prems" d in simp)
    show ?thesis using True IH
      by (subst encode_lines.simps) (simp add: sizeof_data_def EVP_EncodeBlock_def Let_def l sz left_over_step d whole_lines.simps [of inp])
  qed (subst encode_lines.simps, simp add: sizeof_data_def whole_lines.simps [of inp] left_over_short)
qed

text \<open>The bytes of an unfinished line.\<close>

definition pending :: "encode_ctx \<Rightarrow> bytes" where
  "pending ctx = take (ec_data_used ctx) (ec_data ctx)"

definition encode_ctx_ok :: "encode_ctx \<Rightarrow> bool" where
  "encode_ctx_ok ctx \<longleftrightarrow> length (ec_data ctx) = 48 \<and> ec_data_used ctx < 48"

lemma encode_update_spec:
  assumes ok: "encode_ctx_ok ctx" and len: "length inp \<le> 2 ^ 30"
    and r: "EVP_EncodeUpdate ctx inp = (ctx', out, n)"
  shows "encode_ctx_ok ctx' \<and> pending ctx' = left_over (pending ctx @ inp) \<and> take n out = whole_lines (pending ctx @ inp)"
proof -
  define used where "used = ec_data_used ctx"
  have u: "used < 48" "length (ec_data ctx) = 48" "length (pending ctx) = used" using ok by (simp_all add: encode_ctx_ok_def used_def pending_def)
  consider (none) "inp = []" | (short) "inp \<noteq> []" "length inp < 48 - used" | (lines) "inp \<noteq> []" "48 - used \<le> length inp" by linarith
  then show ?thesis
  proof cases
    case none
    with r ok u show ?thesis by (simp add: EVP_EncodeUpdate_def left_over_short whole_lines.simps)
  next
    case short
    have l: "length (pending ctx @ inp) < 48" using u short by simp
    have c: "ctx' = ctx\<lparr>ec_data := take used (ec_data ctx) @ inp @ drop (used + length inp) (ec_data ctx), ec_data_used := used + length inp\<rparr>"
      "out = []" using r short by (simp_all add: EVP_EncodeUpdate_def sizeof_data_def used_def)
    have "encode_ctx_ok ctx'" using short u by (simp add: c encode_ctx_ok_def)
    moreover have "pending ctx' = pending ctx @ inp" using short u by (simp add: c pending_def used_def [symmetric])
    ultimately show ?thesis using l by (simp add: left_over_short whole_lines.simps c(2))
  next
    case lines
    define s where "s = pending ctx @ inp"
    define todo where "todo = 48 - used"
    define data where "data = (if used \<noteq> 0 then take used (ec_data ctx) @ take todo inp else ec_data ctx)"
    define inp0 where "inp0 = (if used \<noteq> 0 then drop todo inp else inp)"
    define out0 where "out0 = (if used \<noteq> 0 then encode_loop data @ [10] else [])"
    have ld: "length data = 48" using lines u by (simp add: data_def todo_def)
    have n48: "48 \<le> length s" using lines u by (simp add: s_def)
    have s48: "take 48 s = data" "drop 48 s = inp0" if "used \<noteq> 0"
      using that lines u by (simp_all add: s_def data_def inp0_def todo_def pending_def used_def)
    have enc: "EVP_EncodeBlock data = (encode_loop data @ [0], 64)" by (simp add: EVP_EncodeBlock_def Let_def length_encode_loop ld)
    have l64: "length (encode_loop data) = 64" by (simp add: length_encode_loop ld)
    define tot0 where "tot0 = (if used \<noteq> 0 then 65 else 0 :: nat)"
    have bound: "tot0 + 65 * (length inp0 div 48) \<le> 1500000000"
    proof -
      have "length inp0 \<le> length inp" by (simp add: inp0_def)
      with len have "length inp0 \<le> 2 ^ 30" by linarith
      then have "length inp0 div 48 \<le> 2 ^ 30 div 48" by (rule div_le_mono)
      then show ?thesis by (simp add: tot0_def)
    qed
    have el: "encode_lines inp0 out0 tot0 = (left_over inp0, out0 @ whole_lines inp0, tot0 + 65 * (length inp0 div 48), False)"
      by (rule encode_lines_eq) (use bound in simp)
    have w: "out0 @ whole_lines inp0 = whole_lines s" "left_over inp0 = left_over s"
    proof -
      have "out0 @ whole_lines inp0 = whole_lines s \<and> left_over inp0 = left_over s"
      proof (cases "used = 0")
        case True
        then show ?thesis using u(3) by (simp add: out0_def inp0_def s_def)
      next
        case False
        then show ?thesis using n48 s48 [OF False] by (simp add: out0_def whole_lines.simps [of s] left_over_step [of s])
      qed
      then show "out0 @ whole_lines inp0 = whole_lines s" "left_over inp0 = left_over s" by blast+
    qed
    have tot: "tot0 + 65 * (length inp0 div 48) = length (whole_lines s)"
      using arg_cong [OF w(1), of length] by (simp add: length_whole_lines out0_def tot0_def l64 split: if_splits)
    have ne: "whole_lines s \<noteq> []" using n48 by (simp add: whole_lines.simps [of s])
    have res: "EVP_EncodeUpdate ctx inp = (ctx\<lparr>ec_data := left_over s @ drop (length (left_over s)) data, ec_data_used := length (left_over s)\<rparr>,
        whole_lines s @ [0], length (whole_lines s))"
    proof -
      have a: "take 64 (encode_loop data @ [0]) @ [10] = encode_loop data @ [10]" using l64 by simp
      have "EVP_EncodeUpdate ctx inp =
        (let (rest, out, tot, overflow) = encode_lines inp0 out0 tot0; written = (if out = [] then [] else out @ [0])
         in if overflow then (ctx\<lparr>ec_data := data, ec_data_used := 0\<rparr>, written, 0)
           else (ctx\<lparr>ec_data := rest @ drop (length rest) data, ec_data_used := length rest\<rparr>, written, if INT_MAX < tot then 0 else tot))"
        using lines unfolding EVP_EncodeUpdate_def used_def [symmetric] sizeof_data_def todo_def [symmetric] Let_def data_def [symmetric] enc
        by (simp add: out0_def tot0_def inp0_def l64)
      then show ?thesis using bound ne by (simp add: el w tot Let_def INT_MAX_def)
    qed
    have "length (left_over s) < 48" by (rule length_left_over)
    then show ?thesis using r ld unfolding res s_def [symmetric] by (auto simp: encode_ctx_ok_def pending_def)
  qed
qed

text \<open>The output of a stream: the bytes that each update and the end hand out.\<close>

fun encode_stream :: "encode_ctx \<Rightarrow> bytes list \<Rightarrow> bytes" where
  "encode_stream ctx [] = (case EVP_EncodeFinal ctx of (_, out, n) \<Rightarrow> take n out)"
| "encode_stream ctx (c # cs) = (case EVP_EncodeUpdate ctx c of (ctx', out, n) \<Rightarrow> take n out @ encode_stream ctx' cs)"

text \<open>The specification: the whole lines of everything, and the rest as one more line.\<close>

definition encode_text :: "bytes \<Rightarrow> bytes" where
  "encode_text s = whole_lines s @ (if left_over s = [] then [] else encode_loop (left_over s) @ [10])"

lemma encode_final_spec:
  assumes "encode_ctx_ok ctx"
  shows "encode_stream ctx [] = encode_text (pending ctx)"
proof -
  have "length (pending ctx) < 48" "pending ctx = [] \<longleftrightarrow> ec_data_used ctx = 0" using assms by (auto simp: encode_ctx_ok_def pending_def)
  then show ?thesis
    by (simp add: EVP_EncodeFinal_def EVP_EncodeBlock_def pending_def [symmetric] Let_def encode_text_def left_over_short
        whole_lines.simps)
qed

lemma encode_stream_text:
  assumes "encode_ctx_ok ctx" "\<forall>c \<in> set cs. length c \<le> 2 ^ 30"
  shows "encode_stream ctx cs = encode_text (pending ctx @ concat cs)"
  using assms
proof (induction cs arbitrary: ctx)
  case Nil
  then show ?case using encode_final_spec by simp
next
  case (Cons c cs)
  obtain ctx' out n where r: "EVP_EncodeUpdate ctx c = (ctx', out, n)" by (metis surj_pair)
  have "length c \<le> 2 ^ 30" using Cons.prems(2) by simp
  note S = encode_update_spec [OF Cons.prems(1) this r]
  have "encode_stream ctx' cs = encode_text (left_over (pending ctx @ c) @ concat cs)"
    using Cons.IH [of ctx'] Cons.prems(2) S by simp
  moreover have "encode_text ((pending ctx @ c) @ concat cs) = whole_lines (pending ctx @ c) @ encode_text (left_over (pending ctx @ c) @ concat cs)"
    using whole_lines_append [of "pending ctx @ c" "concat cs"] by (simp add: encode_text_def)
  ultimately show ?case using S r by simp
qed

section \<open>Streaming decoder\<close>

lemma decode_update_filter:
  "decode_update_loop ctx out s = decode_update_loop ctx out (filter (\<lambda>c. \<not> is_space c) s)"
  by (induction ctx out s rule: decode_update_loop.induct) (auto simp: Let_def split: option.splits)

definition decode_ctx_ok :: "encode_ctx \<Rightarrow> bool" where
  "decode_ctx_ok ctx \<longleftrightarrow> length (ec_data ctx) = 48 \<and> ec_data_used ctx = 0 \<and> \<not> ec_eof_seen ctx \<and> \<not> ec_error ctx"

lemma store_char:
  assumes "\<not> is_space c" "\<not> ec_eof_seen ctx" "ec_data_used ctx < 3"
  shows "decode_update_loop ctx out (c # inp) =
    decode_update_loop (ctx\<lparr>ec_data := (ec_data ctx)[ec_data_used ctx := c], ec_data_used := Suc (ec_data_used ctx)\<rparr>) out inp"
  using assms by simp

lemma store_fourth:
  assumes "\<not> is_space c" "\<not> ec_eof_seen ctx" "ec_data_used ctx = 3" "data = (ec_data ctx)[3 := c]"
    "base64_decode_quad (data ! 0) (data ! 1) (data ! 2) (data ! 3) = Some bs"
  shows "decode_update_loop ctx out (c # inp) =
    decode_update_loop (ctx\<lparr>ec_data := data, ec_data_used := 0, ec_eof_seen := length bs < 3\<rparr>) (out @ bs) inp"
  using assms by simp

lemma decode_update_step:
  assumes ctx: "decode_ctx_ok ctx" and q: "length q = 4" "\<forall>c \<in> set q. \<not> is_space c"
    and d: "base64_decode_quad (q ! 0) (q ! 1) (q ! 2) (q ! 3) = Some bs"
  shows "\<exists>ctx'. decode_update_loop ctx out (q @ inp) = decode_update_loop ctx' (out @ bs) inp
    \<and> ec_data_used ctx' = 0 \<and> \<not> ec_error ctx' \<and> (length bs = 3 \<longrightarrow> decode_ctx_ok ctx')"
proof -
  define data where "data = (ec_data ctx)[0 := q ! 0, 1 := q ! 1, 2 := q ! 2, 3 := q ! 3]"
  define ctx' where "ctx' = ctx\<lparr>ec_data := data, ec_data_used := 0, ec_eof_seen := length bs < 3\<rparr>"
  have ns: "\<not> is_space (q ! 0)" "\<not> is_space (q ! 1)" "\<not> is_space (q ! 2)" "\<not> is_space (q ! 3)" using q by simp_all
  have at: "data ! 0 = q ! 0" "data ! 1 = q ! 1" "data ! 2 = q ! 2" "data ! 3 = q ! 3"
    using ctx by (simp_all add: data_def decode_ctx_ok_def)
  have "q @ inp = q ! 0 # q ! 1 # q ! 2 # q ! 3 # inp" using quad_list [OF q(1)] by (metis append_Cons append_Nil)
  then have "decode_update_loop ctx out (q @ inp) = decode_update_loop ctx out (q ! 0 # q ! 1 # q ! 2 # q ! 3 # inp)" by (rule arg_cong)
  also have "\<dots> = decode_update_loop ctx' (out @ bs) inp"
  proof -
    have u: "ec_data_used ctx = 0" "\<not> ec_eof_seen ctx" "length (ec_data ctx) = 48" using ctx by (simp_all add: decode_ctx_ok_def)
    have one: "2 = Suc (Suc 0)" "3 = Suc (Suc (Suc 0))" "4 = Suc (Suc (Suc (Suc 0)))" by simp_all
    have "decode_update_loop ctx out (q ! 0 # q ! 1 # q ! 2 # q ! 3 # inp) =
      decode_update_loop (ctx\<lparr>ec_data := (ec_data ctx)[0 := q ! 0, 1 := q ! 1, 2 := q ! 2], ec_data_used := 3\<rparr>) out (q ! 3 # inp)"
      using u ns by (simp add: store_char one del: decode_update_loop.simps)
    also have "\<dots> = decode_update_loop ctx' (out @ bs) inp"
      using u ns at d by (subst store_fourth) (simp_all add: data_def ctx'_def)
    finally show ?thesis .
  qed
  finally show ?thesis using ctx by (intro exI [of _ ctx']) (simp add: ctx'_def decode_ctx_ok_def data_def)
qed

lemma quad_no_space:
  "\<forall>c \<in> set (encode_quad l). \<not> is_space c" "\<forall>c \<in> set (quad1 a). \<not> is_space c" "\<forall>c \<in> set (quad2 a b). \<not> is_space c"
proof -
  have "\<not> is_space 61" by (simp add: is_space_def)
  then show "\<forall>c \<in> set (encode_quad l). \<not> is_space c" "\<forall>c \<in> set (quad1 a). \<not> is_space c" "\<forall>c \<in> set (quad2 a b). \<not> is_space c"
    by (simp_all add: encode_quad_def quad1_def quad2_def conv_digit)
qed

lemma encode_loop_no_space: "\<forall>c \<in> set (encode_loop s). \<not> is_space c"
  by (induction s rule: encode_loop.induct) (simp_all add: encode_loop_quads quad_no_space del: encode_loop.simps(2-4), use quad_no_space in auto)

lemma decode_update_encode:
  assumes "decode_ctx_ok ctx"
  shows "\<exists>ctx'. decode_update_loop ctx out (encode_loop s) = (ctx', True, out @ s) \<and> ec_data_used ctx' = 0 \<and> \<not> ec_error ctx'"
  using assms
proof (induction s arbitrary: ctx out rule: encode_loop.induct)
  case (2 a)
  from decode_update_step [OF 2 quad_lengths(2) quad_no_space(2) decode_quads(3), where out = out and inp = "[]"]
  show ?case by (auto simp: encode_loop_quads simp del: encode_loop.simps(2))
next
  case (3 a b)
  from decode_update_step [OF 3 quad_lengths(3) quad_no_space(3) decode_quads(2), where out = out and inp = "[]"]
  show ?case by (auto simp: encode_loop_quads simp del: encode_loop.simps(3))
next
  case (4 a b c src)
  obtain ctx1 where "decode_update_loop ctx out (encode_quad (pack a b c) @ encode_loop src) = decode_update_loop ctx1 (out @ [a, b, c]) (encode_loop src)"
    "decode_ctx_ok ctx1"
    using decode_update_step [OF "4.prems" quad_lengths(1) quad_no_space(1) decode_quads(1) [of a b c], where out = out and inp = "encode_loop src"]
    by auto
  with "4.IH" [of ctx1 "out @ [a, b, c]"] show ?case by (simp add: encode_loop_quads del: encode_loop.simps(4))
qed (auto simp: decode_ctx_ok_def)

text \<open>The text of a stream without its newlines is the encoding of its bytes.\<close>

lemma whole_lines_filter:
  "filter (\<lambda>c. \<not> is_space c) (whole_lines s) @ encode_loop (left_over s) = encode_loop s"
proof (induction s rule: whole_lines.induct)
  case (1 s)
  show ?case
  proof (cases "48 \<le> length s")
    case True
    have "\<not> \<not> is_space 10" by (simp add: is_space_def)
    moreover have "filter (\<lambda>c. \<not> is_space c) (encode_loop (take 48 s)) = encode_loop (take 48 s)"
      using encode_loop_no_space by (simp add: filter_id_conv)
    moreover have "encode_loop (take 48 s @ drop 48 s) = encode_loop (take 48 s) @ encode_loop (drop 48 s)"
      by (rule encode_loop_append) (use True in \<open>simp add: min_def\<close>)
    ultimately show ?thesis using 1 True by (simp add: whole_lines.simps [of s] left_over_step [of s])
  qed (simp add: whole_lines.simps [of s] left_over_short)
qed

lemma encode_text_filter: "filter (\<lambda>c. \<not> is_space c) (encode_text s) = encode_loop s"
proof -
  have "filter (\<lambda>c. \<not> is_space c) (encode_loop (left_over s)) = encode_loop (left_over s)"
    using encode_loop_no_space by (simp add: filter_id_conv)
  moreover have "is_space 10" by (simp add: is_space_def)
  ultimately show ?thesis using whole_lines_filter [of s] by (auto simp: encode_text_def)
qed

section \<open>Lengths\<close>

lemma size_mul_checked:
  assumes "0 < b"
  shows "size_mul a b div b = a \<longleftrightarrow> a * b < 2 ^ 64"
proof (cases "a * b < 2 ^ 64")
  case False
  have "size_mul a b < 2 ^ 64" by (simp add: size_mul_def)
  with False have "size_mul a b < a * b" by linarith
  then have "size_mul a b div b < a" using assms by (simp add: less_mult_imp_div_less)
  with False show ?thesis by simp
qed (use assms in \<open>simp add: size_mul_id\<close>)

lemma encoded_length_eq:
  assumes "len < 2 ^ 64"
  shows "EVP_EncodedLength len =
    (if len + 2 < 2 ^ 64 \<and> 4 * ((len + 2) div 3) + 1 < 2 ^ 64 then Some (4 * ((len + 2) div 3) + 1) else None)"
proof (cases "len + 2 < 2 ^ 64")
  case True
  define k where "k = (len + 2) div 3"
  have w: "\<not> size_add len 2 < len" "size_add len 2 div 3 = k" using True by (simp_all add: size_add_id k_def)
  show ?thesis
  proof (cases "k * 4 < 2 ^ 64")
    case True
    moreover have "k * 4 + 1 \<noteq> 2 ^ 64" by (rule notI, drule arg_cong [where f = even]) simp
    ultimately have "k * 4 + 1 < 2 ^ 64" by linarith
    with True show ?thesis using w \<open>len + 2 < 2 ^ 64\<close> size_mul_checked [of 4 k]
      by (simp add: EVP_EncodedLength_def k_def [symmetric] size_mul_id size_add_id mult.commute)
  next
    case False
    then have n: "EVP_EncodedLength len = None" using w size_mul_checked [of 4 k]
      by (simp add: EVP_EncodedLength_def Let_def)
    have "\<not> 4 * ((len + 2) div 3) + 1 < 2 ^ 64" using False unfolding k_def by linarith
    with n show ?thesis by (simp only: simp_thms if_False)
  qed
next
  case False
  then have "size_add len 2 < len" using size_add_wraps [of len 2] assms by simp
  with False show ?thesis by (simp add: EVP_EncodedLength_def)
qed

section \<open>Properties\<close>

text \<open>
  Claim C28.  \<open>EVP_DecodeBase64\<close> undoes \<open>EVP_EncodeBlock\<close>: on the characters that the encoder writes for
  any byte string, given room for the maximal decoded length, it succeeds and writes that string.
\<close>

theorem block_roundtrip:
  assumes "(length src + 2) div 3 * 3 \<le> max_out"
  shows "EVP_EncodeBlock src = (encode_loop src @ [0], 4 * ((length src + 2) div 3))
    \<and> EVP_DecodeBase64 max_out (encode_loop src) = (True, src, length src)"
  using assms
  by (simp add: EVP_EncodeBlock_def Let_def length_encode_loop EVP_DecodeBase64_def EVP_DecodedLength_def
      decode_base64_encode del: One_nat_def)

theorem block_roundtrip_witness: "EVP_DecodeBase64 6 (encode_loop [1, 2, 3, 4]) = (True, [1, 2, 3, 4], 4)"
  using block_roundtrip [of "[1, 2, 3, 4]" 6] by simp

text \<open>
  Claim C27.  Streaming round trip: whatever chunks a byte string is fed to \<open>EVP_EncodeUpdate\<close> in
  (of at most \<open>2 ^ 30\<close> bytes each, as a larger output cannot be reported), the output of the updates
  and of \<open>EVP_EncodeFinal\<close> is the same text of lines of 48 bytes, and \<open>EVP_DecodeUpdate\<close> and
  \<open>EVP_DecodeFinal\<close> accept that text and give the byte string back.
\<close>

theorem stream_roundtrip:
  assumes "\<forall>c \<in> set cs. length c \<le> 2 ^ 30" "length (concat cs) \<le> INT_MAX"
  shows "encode_stream (EVP_EncodeInit ctx) cs = encode_text (concat cs)
    \<and> (case EVP_DecodeUpdate (EVP_DecodeInit ctx) (encode_stream (EVP_EncodeInit ctx) cs) of
         (r, ctx', out, n) \<Rightarrow> r \<noteq> - 1 \<and> out = concat cs \<and> n = length out \<and> EVP_DecodeFinal ctx' = (1, 0))"
proof -
  have i: "encode_ctx_ok (EVP_EncodeInit ctx)" "pending (EVP_EncodeInit ctx) = []"
    by (simp_all add: encode_ctx_ok_def pending_def EVP_EncodeInit_def sizeof_data_def)
  from encode_stream_text [OF i(1) assms(1)] have e: "encode_stream (EVP_EncodeInit ctx) cs = encode_text (concat cs)"
    by (simp add: i(2))
  have d: "decode_ctx_ok (EVP_DecodeInit ctx)" "\<not> ec_error (EVP_DecodeInit ctx)"
    by (simp_all add: decode_ctx_ok_def EVP_DecodeInit_def sizeof_data_def)
  from decode_update_encode [OF d(1), of "[]" "concat cs"] obtain ctx' where
    "decode_update_loop (EVP_DecodeInit ctx) [] (encode_loop (concat cs)) = (ctx', True, concat cs)" "ec_data_used ctx' = 0" "\<not> ec_error ctx'"
    by auto
  then have "decode_update_loop (EVP_DecodeInit ctx) [] (encode_text (concat cs)) = (ctx', True, concat cs)"
    by (subst decode_update_filter) (simp add: encode_text_filter)
  with d(2) assms(2) \<open>ec_data_used ctx' = 0\<close> \<open>\<not> ec_error ctx'\<close> show ?thesis
    by (simp add: e EVP_DecodeUpdate_def EVP_DecodeFinal_def)
qed

theorem stream_roundtrip_witness:
  "encode_stream (EVP_EncodeInit undefined) [[1, 2], [], [3]] = encode_text [1, 2, 3]"
  using stream_roundtrip [of "[[1, 2], [], [3]]" undefined] by (simp add: INT_MAX_def)

text \<open>
  Claim C29.  \<open>EVP_EncodedLength\<close> gives the characters of the encoding and one for the terminator, which is
  what \<open>EVP_EncodeBlock\<close> writes, and fails exactly when that does not fit in a \<open>size_t\<close>; and
  \<open>EVP_DecodeBase64\<close> never writes more than the \<open>max_out\<close> bytes the caller has room for.
\<close>

theorem base64_lengths:
  assumes "len < 2 ^ 64"
  shows "EVP_EncodedLength len =
      (if len + 2 < 2 ^ 64 \<and> 4 * ((len + 2) div 3) + 1 < 2 ^ 64 then Some (4 * ((len + 2) div 3) + 1) else None)
    \<and> length (fst (EVP_EncodeBlock src)) = 4 * ((length src + 2) div 3) + 1
    \<and> length (fst (snd (EVP_DecodeBase64 max_out inp))) \<le> max_out"
proof (intro conjI)
  show "length (fst (snd (EVP_DecodeBase64 max_out inp))) \<le> max_out"
    using decode_base64_length [of "[]" inp]
    by (auto simp: EVP_DecodeBase64_def EVP_DecodedLength_def split: bool.splits prod.splits)
qed (use assms encoded_length_eq in \<open>simp_all add: EVP_EncodeBlock_def Let_def length_encode_loop\<close>)

theorem base64_lengths_witness:
  "EVP_EncodedLength 4 = Some 9 \<and> EVP_EncodedLength (2 ^ 64 - 1) = None"
  using base64_lengths [of 4] base64_lengths [of "2 ^ 64 - 1"] by simp

text \<open>Trimming, and input that ends in a character that is no digit.\<close>

lemma trim_spaces:
  "\<forall>c \<in> set ws. is_space c \<Longrightarrow> xs = [] \<or> \<not> is_space (List.last xs) \<Longrightarrow> rev (dropWhile is_space (rev (xs @ ws))) = xs"
  by (cases xs rule: rev_cases) (simp_all add: dropWhile_append)

lemma strip_blanks:
  assumes "\<forall>c \<in> set sp. c = 32 \<or> c = 9" "xs = [] \<or> \<not> is_space (hd xs)" "\<forall>c \<in> set ws. is_space c"
  obtains ws' where "dropWhile (\<lambda>c. c = 32 \<or> c = 9) (sp @ xs @ ws) = xs @ ws'" "\<forall>c \<in> set ws'. is_space c"
proof (cases xs)
  case Nil
  show thesis
    by (rule that [of "dropWhile (\<lambda>c. c = 32 \<or> c = 9) ws"])
      (use assms Nil in \<open>auto simp: dropWhile_append dest: set_dropWhileD\<close>)
next
  case (Cons x ys)
  then have "\<not> (x = 32 \<or> x = 9)" using assms(2) by (auto simp: is_space_def)
  then have "dropWhile (\<lambda>c. c = 32 \<or> c = 9) (sp @ xs @ ws) = xs @ ws" using assms(1) Cons by simp
  then show thesis using assms(3) by (rule that)
qed

lemma decode_ends_minus: "xs \<noteq> [] \<Longrightarrow> List.last xs = 0x2d \<Longrightarrow> length xs mod 4 = 0 \<Longrightarrow> \<not> fst (decode_base64_loop out xs)"
proof (induction out xs rule: decode_base64_loop.induct)
  case (1 out a b c d inp)
  show ?case
  proof (cases inp)
    case Nil
    with "1.prems" have "d = 0x2d" by simp
    moreover have "base64_ascii_to_bin 0x2d = 0xff" by (simp add: base64_ascii_to_bin_eq)
    ultimately have "base64_decode_quad a b c d = None" by (simp add: base64_decode_quad_def Let_def)
    then show ?thesis by simp
  next
    case (Cons e rest)
    then have p: "inp \<noteq> []" "List.last inp = 0x2d" "length inp mod 4 = 0"
      using "1.prems" mod_add_self2 [of "length inp" 4] by simp_all
    show ?thesis
    proof (cases "base64_decode_quad a b c d")
      case (Some bs)
      show ?thesis
      proof (cases "length bs = 3")
        case True
        with "1.IH" [OF Some _ p] Some show ?thesis by simp
      next
        case False
        with Some p(1) show ?thesis by simp
      qed
    qed simp
  qed
qed (auto simp: mod_Suc)

text \<open>
  Claim C30.  \<open>EVP_DecodeBlock\<close> strips blanks and tabs before its input and whitespace after it, and undoes
  the encoding of a block, with zeros for the padding.  The header says that it also strips minus signs at
  the end; it does not: whatever comes before, input that ends in a minus sign, and whitespace or not, is an error.
\<close>

theorem decode_block_minus:
  assumes "\<forall>c \<in> set sp. c = 32 \<or> c = 9" "\<forall>c \<in> set ws. is_space c" "length src \<le> INT_MAX - 2"
  shows "EVP_DecodeBlock (sp @ encode_loop src @ ws)
      = (src @ replicate ((3 - length src mod 3) mod 3) 0, int (length src + (3 - length src mod 3) mod 3))
    \<and> snd (EVP_DecodeBlock (inp @ [0x2d] @ ws)) = - 1"
proof
  have nosp: "encode_loop src = [] \<or> \<not> is_space (hd (encode_loop src))" "encode_loop src = [] \<or> \<not> is_space (List.last (encode_loop src))"
    using encode_loop_no_space [of src] by auto
  from assms(1) nosp(1) assms(2) obtain ws' where w: "dropWhile (\<lambda>c. c = 32 \<or> c = 9) (sp @ encode_loop src @ ws) = encode_loop src @ ws'"
    "\<forall>c \<in> set ws'. is_space c" by (rule strip_blanks)
  have "(length src + 2) div 3 * 3 \<le> INT_MAX" using assms(3) div_times_less_eq_dividend [of "length src + 2" 3]
    by (simp add: INT_MAX_def)
  then show "EVP_DecodeBlock (sp @ encode_loop src @ ws)
      = (src @ replicate ((3 - length src mod 3) mod 3) 0, int (length src + (3 - length src mod 3) mod 3))"
    unfolding EVP_DecodeBlock_def Let_def w(1) trim_spaces [OF w(2) nosp(2)]
    by (simp add: EVP_DecodedLength_def EVP_DecodeBase64_def length_encode_loop decode_base64_encode del: One_nat_def)
next
  define x where "x = dropWhile (\<lambda>c. c = 32 \<or> c = 9) inp @ [0x2d]"
  have "dropWhile (\<lambda>c. c = 32 \<or> c = 9) (inp @ [0x2d] @ ws) = x @ ws"
    unfolding x_def by (induction inp) simp_all
  moreover have "x = [] \<or> \<not> is_space (List.last x)" "x \<noteq> []" "List.last x = 0x2d" by (simp_all add: x_def is_space_def)
  ultimately show "snd (EVP_DecodeBlock (inp @ [0x2d] @ ws)) = - 1"
    using trim_spaces [OF assms(2), of x] decode_ends_minus [of x "[]"]
    by (auto simp: EVP_DecodeBlock_def Let_def EVP_DecodedLength_def EVP_DecodeBase64_def split: option.split bool.split prod.split)
qed

theorem decode_block_minus_witness:
  "EVP_DecodeBlock ([32] @ encode_loop [7] @ [10]) = ([7, 0, 0], 3) \<and> snd (EVP_DecodeBlock ([0x41, 0x41, 0x41] @ [0x2d] @ [10])) = - 1"
proof -
  have "\<forall>c \<in> set [32]. c = 32 \<or> c = (9 :: u8)" "\<forall>c \<in> set [10]. is_space c" "length [7 :: u8] \<le> INT_MAX - 2"
    by (simp_all add: is_space_def INT_MAX_def)
  from decode_block_minus [OF this, of "[0x41, 0x41, 0x41]"] show ?thesis
    by (simp add: numeral_2_eq_2 del: encode_loop.simps)
qed

end
