(* ===== verification/Lhash.thy ===== *)
theory Lhash imports Mem "HOL-Library.Multiset" begin

text \<open>
  \<open>crypto/lhash/lhash.c\<close>: a chained hash table that grows and shrinks.  A chain is the list of its
  items; the pointer to a pointer that the searches return is the bucket's number with the position
  in its chain, where the position behind the last item stands for the \<open>NULL\<close> that it points to.
  The elements are opaque, of any type; the two helper arguments that cast the stored functions
  back to their types are those functions themselves.
\<close>

section \<open>Definitions\<close>

definition kMinNumBuckets :: nat where "kMinNumBuckets = 16"
definition kMaxAverageChainLength :: nat where "kMaxAverageChainLength = 2"
definition kMinAverageChainLength :: nat where "kMinAverageChainLength = 1"
definition UINT_MAX :: nat where "UINT_MAX = 2 ^ 32 - 1"

record 'a lhash_item =
  it_data :: 'a
  it_hash :: u32

record 'a lhash =
  lh_num_items :: nat
  lh_buckets :: "'a lhash_item list list"
  lh_num_buckets :: nat
  lh_callback_depth :: nat
  lh_comp :: "'a \<Rightarrow> 'a \<Rightarrow> int"
  lh_hash :: "'a \<Rightarrow> u32"

text \<open>\<open>sizeof(_LHASH)\<close> is 48, \<open>sizeof(LHASH_ITEM)\<close> is 24 and a pointer has 8 bytes.\<close>

definition OPENSSL_lh_new :: "allocator \<Rightarrow> ('a \<Rightarrow> u32) \<Rightarrow> ('a \<Rightarrow> 'a \<Rightarrow> int) \<Rightarrow> 'a lhash option" where
  "OPENSSL_lh_new al hash cmp =
     (case OPENSSL_zalloc al 48 of None \<Rightarrow> None
      | Some _ \<Rightarrow>
          (case OPENSSL_calloc al kMinNumBuckets 8 of None \<Rightarrow> None
           | Some _ \<Rightarrow> Some \<lparr>lh_num_items = 0, lh_buckets = replicate kMinNumBuckets [], lh_num_buckets = kMinNumBuckets,
                             lh_callback_depth = 0, lh_comp = cmp, lh_hash = hash\<rparr>))"

definition OPENSSL_lh_num_items :: "'a lhash \<Rightarrow> nat" where
  "OPENSSL_lh_num_items lh = lh_num_items lh"

text \<open>The loop along a chain: the position of the first item that compares equal.\<close>

fun chain_search :: "('a \<Rightarrow> int) \<Rightarrow> 'a lhash_item list \<Rightarrow> nat" where
  "chain_search cmp [] = 0"
| "chain_search cmp (cur # rest) = (if cmp (it_data cur) = 0 then 0 else Suc (chain_search cmp rest))"

definition get_next_ptr_and_hash :: "'a lhash \<Rightarrow> 'a \<Rightarrow> u32 \<times> nat \<times> nat" where
  "get_next_ptr_and_hash lh data =
     (let hash = lh_hash lh data; b = unat hash mod lh_num_buckets lh
      in (hash, b, chain_search (\<lambda>x. lh_comp lh x data) (lh_buckets lh ! b)))"

definition get_next_ptr_by_key :: "'a lhash \<Rightarrow> 'k \<Rightarrow> u32 \<Rightarrow> ('k \<Rightarrow> 'a \<Rightarrow> int) \<Rightarrow> nat \<times> nat" where
  "get_next_ptr_by_key lh key key_hash cmp_key =
     (let b = unat key_hash mod lh_num_buckets lh in (b, chain_search (cmp_key key) (lh_buckets lh ! b)))"

definition next_item :: "'a lhash \<Rightarrow> nat \<Rightarrow> nat \<Rightarrow> 'a lhash_item option" where
  "next_item lh b k = (if k < length (lh_buckets lh ! b) then Some (lh_buckets lh ! b ! k) else None)"

definition OPENSSL_lh_retrieve :: "'a lhash \<Rightarrow> 'a \<Rightarrow> 'a option" where
  "OPENSSL_lh_retrieve lh data =
     (let (_, b, k) = get_next_ptr_and_hash lh data in map_option it_data (next_item lh b k))"

definition OPENSSL_lh_retrieve_key :: "'a lhash \<Rightarrow> 'k \<Rightarrow> u32 \<Rightarrow> ('k \<Rightarrow> 'a \<Rightarrow> int) \<Rightarrow> 'a option" where
  "OPENSSL_lh_retrieve_key lh key key_hash cmp_key =
     (let (b, k) = get_next_ptr_by_key lh key key_hash cmp_key in map_option it_data (next_item lh b k))"

text \<open>The loops of \<open>lh_rebucket\<close>: every item goes to the front of its new chain.\<close>

definition rebucket_item :: "nat \<Rightarrow> 'a lhash_item \<Rightarrow> 'a lhash_item list list \<Rightarrow> 'a lhash_item list list" where
  "rebucket_item n cur bs = (let b = unat (it_hash cur) mod n in bs[b := cur # bs ! b])"

definition lh_rebucket :: "allocator \<Rightarrow> 'a lhash \<Rightarrow> nat \<Rightarrow> 'a lhash" where
  "lh_rebucket al lh n =
     (let alloc_size = size_mul 8 n
      in if alloc_size div 8 \<noteq> n then lh
         else case OPENSSL_zalloc al alloc_size of None \<Rightarrow> lh
              | Some _ \<Rightarrow> lh\<lparr>lh_num_buckets := n,
                             lh_buckets := fold (fold (rebucket_item n)) (lh_buckets lh) (replicate n [])\<rparr>)"

definition lh_maybe_resize :: "allocator \<Rightarrow> 'a lhash \<Rightarrow> 'a lhash" where
  "lh_maybe_resize al lh =
     (if 0 < lh_callback_depth lh then lh
      else let avg_chain_length = lh_num_items lh div lh_num_buckets lh
      in if kMaxAverageChainLength < avg_chain_length then
           let new_num_buckets = size_mul (lh_num_buckets lh) 2
           in if lh_num_buckets lh < new_num_buckets then lh_rebucket al lh new_num_buckets else lh
         else if avg_chain_length < kMinAverageChainLength \<and> kMinNumBuckets < lh_num_buckets lh then
           let new_num_buckets = lh_num_buckets lh div 2;
               new_num_buckets = (if new_num_buckets < kMinNumBuckets then kMinNumBuckets else new_num_buckets)
           in lh_rebucket al lh new_num_buckets
         else lh)"

text \<open>The table, \<open>*old_data\<close> and the result.\<close>

definition OPENSSL_lh_insert :: "allocator \<Rightarrow> 'a lhash \<Rightarrow> 'a \<Rightarrow> 'a lhash \<times> 'a option \<times> bool" where
  "OPENSSL_lh_insert al lh data =
     (let (hash, b, k) = get_next_ptr_and_hash lh data; chain = lh_buckets lh ! b
      in case next_item lh b k of
           Some item \<Rightarrow>
             (lh\<lparr>lh_buckets := (lh_buckets lh)[b := chain[k := item\<lparr>it_data := data\<rparr>]]\<rparr>, Some (it_data item), True)
         | None \<Rightarrow>
             (case OPENSSL_malloc al 24 of None \<Rightarrow> (lh, None, False)
              | Some _ \<Rightarrow>
                  (lh_maybe_resize al (lh\<lparr>lh_buckets := (lh_buckets lh)[b := chain @ [\<lparr>it_data = data, it_hash = hash\<rparr>]],
                                          lh_num_items := size_add (lh_num_items lh) 1\<rparr>), None, True)))"

definition OPENSSL_lh_delete :: "allocator \<Rightarrow> 'a lhash \<Rightarrow> 'a \<Rightarrow> 'a lhash \<times> 'a option" where
  "OPENSSL_lh_delete al lh data =
     (let (_, b, k) = get_next_ptr_and_hash lh data; chain = lh_buckets lh ! b
      in case next_item lh b k of None \<Rightarrow> (lh, None)
         | Some item \<Rightarrow>
             (lh_maybe_resize al (lh\<lparr>lh_buckets := (lh_buckets lh)[b := take k chain @ drop (Suc k) chain],
                                     lh_num_items := size_add (lh_num_items lh) SIZE_MAX\<rparr>), Some (it_data item)))"

text \<open>
  The callback acts on a state of its own, the \<open>arg\<close> and what it points to; callbacks that use the
  table they are called from are not modelled.
\<close>

definition OPENSSL_lh_doall_arg :: "allocator \<Rightarrow> 'a lhash option \<Rightarrow> ('a \<Rightarrow> 's \<Rightarrow> 's) \<Rightarrow> 's \<Rightarrow> 'a lhash option \<times> 's" where
  "OPENSSL_lh_doall_arg al lh0 func arg =
     (case lh0 of None \<Rightarrow> (None, arg)
      | Some lh \<Rightarrow>
          let lh = (if lh_callback_depth lh < UINT_MAX then lh\<lparr>lh_callback_depth := lh_callback_depth lh + 1\<rparr> else lh);
              arg = fold (fold (\<lambda>cur. func (it_data cur))) (lh_buckets lh) arg;
              lh = (if lh_callback_depth lh < UINT_MAX then lh\<lparr>lh_callback_depth := lh_callback_depth lh - 1\<rparr> else lh)
          in (Some (lh_maybe_resize al lh), arg))"

section \<open>Chains\<close>

lemma chain_search_le: "chain_search cmp c \<le> length c"
  by (induction c) auto

lemma chain_search_found: "chain_search cmp c < length c \<Longrightarrow> cmp (it_data (c ! chain_search cmp c)) = 0"
  by (induction c) auto

lemma chain_search_none: "chain_search cmp c = length c \<longleftrightarrow> (\<forall>it \<in> set c. cmp (it_data it) \<noteq> 0)"
  by (induction c) auto

lemma concat_update:
  assumes "b < length bs"
  shows "concat (bs[b := c]) = concat (take b bs) @ c @ concat (drop (Suc b) bs)"
  using assms by (simp add: upd_conv_take_nth_drop)

lemma concat_split: "b < length bs \<Longrightarrow> concat bs = concat (take b bs) @ bs ! b @ concat (drop (Suc b) bs)"
  using concat_update [of b bs "bs ! b"] by simp

lemma other_chain:
  assumes "it \<in> set (concat (take b bs)) \<union> set (concat (drop (Suc b) bs))"
  obtains i where "i \<noteq> b" "i < length bs" "it \<in> set (bs ! i)"
proof -
  from assms obtain ch where ch: "it \<in> set ch" "ch \<in> set (take b bs) \<or> ch \<in> set (drop (Suc b) bs)" by auto
  from ch(2) show thesis
  proof
    assume "ch \<in> set (take b bs)"
    then obtain j where "j < b" "j < length bs" "ch = bs ! j" by (auto simp: in_set_conv_nth)
    then show thesis using that [of j] ch(1) by simp
  next
    assume "ch \<in> set (drop (Suc b) bs)"
    then obtain j where "j < length bs - Suc b" "ch = bs ! (Suc b + j)" by (auto simp: in_set_conv_nth)
    then show thesis using that [of "Suc b + j"] ch(1) by simp
  qed
qed

section \<open>Rebucketing\<close>

definition items :: "'a lhash \<Rightarrow> 'a lhash_item list" where
  "items lh = concat (lh_buckets lh)"

definition in_bucket :: "nat \<Rightarrow> nat \<Rightarrow> 'a lhash_item \<Rightarrow> bool" where
  "in_bucket n i it \<longleftrightarrow> unat (it_hash it) mod n = i"

lemma rebucket_fold:
  assumes "length bs = n" "j < n"
  shows "length (fold (rebucket_item n) xs bs) = n
    \<and> fold (rebucket_item n) xs bs ! j = rev (filter (in_bucket n j) xs) @ bs ! j"
  using assms(1)
proof (induction xs arbitrary: bs)
  case (Cons x xs)
  have "rebucket_item n x bs ! j = (if in_bucket n j x then x # bs ! j else bs ! j)"
    using Cons.prems assms(2) by (auto simp: rebucket_item_def in_bucket_def Let_def)
  with Cons.IH [of "rebucket_item n x bs"] Cons.prems show ?case by (simp add: rebucket_item_def Let_def)
qed simp

lemma fold_concat: "fold (fold f) bs s = fold f (concat bs) s"
  by (induction bs arbitrary: s) simp_all

lemma mset_buckets:
  assumes "0 < n"
  shows "mset (concat (map (\<lambda>i. filter (in_bucket n i) xs) [0..<n])) = mset xs"
proof (induction xs)
  case (Cons x xs)
  define k where "k = unat (it_hash x) mod n"
  have k: "k < n" using assms by (simp add: k_def)
  have a: "filter (in_bucket n i) (x # xs) = (if i = k then [x] else []) @ filter (in_bucket n i) xs" for i
    by (simp add: in_bucket_def k_def)
  have b: "mset (concat (map (\<lambda>i. (if i = k then [x] else []) @ filter (in_bucket n i) xs) is))
    = mset (concat (map (\<lambda>i. if i = k then [x] else []) is)) + mset (concat (map (\<lambda>i. filter (in_bucket n i) xs) is))" for "is"
    by (induction "is") simp_all
  have c: "concat (map (\<lambda>i. if i = k then [x] else []) [0..<m]) = (if k < m then [x] else [])" for m
    by (induction m) auto
  show ?case unfolding a b c using Cons k by simp
qed simp

lemma rebucket_all:
  assumes "0 < n" "bs' = fold (fold (rebucket_item n)) bs (replicate n [])"
  shows "length bs' = n" "mset (concat bs') = mset (concat bs)" "\<forall>i < n. \<forall>it \<in> set (bs' ! i). in_bucket n i it"
proof -
  have s: "bs' = fold (rebucket_item n) (concat bs) (replicate n [])" using assms(2) by (simp only: fold_concat)
  show l: "length bs' = n" unfolding s using rebucket_fold [of "replicate n []" n 0 "concat bs"] assms(1) by simp
  have nth: "bs' ! i = rev (filter (in_bucket n i) (concat bs))" if "i < n" for i
    unfolding s using rebucket_fold [of "replicate n []" n i "concat bs"] that by simp
  then show "\<forall>i < n. \<forall>it \<in> set (bs' ! i). in_bucket n i it" by simp
  have "bs' = map (\<lambda>i. rev (filter (in_bucket n i) (concat bs))) [0..<n]" by (rule nth_equalityI) (simp_all add: l nth)
  moreover have "mset (concat (map (\<lambda>i. rev (f i)) is)) = mset (concat (map f is))" for f :: "nat \<Rightarrow> 'a lhash_item list" and "is"
    by (induction "is") simp_all
  ultimately show "mset (concat bs') = mset (concat bs)" using mset_buckets [OF assms(1)] by simp
qed


lemma option_eqI: "(\<And>x. a = Some x \<longleftrightarrow> b = Some x) \<Longrightarrow> a = b"
  by (cases a; cases b) auto

section \<open>The interface of a dictionary\<close>

text \<open>
  Operations on elements that are looked up by an equivalence.  An insertion may fail, and then
  leaves what is found unchanged.  Each operation of a sequence comes with the environment in which it runs, here the
  allocator, so that every operation of a sequence may find memory or not.
\<close>

datatype 'v dict_op = Put 'v | Remove 'v

text \<open>The operations of a sequence that took effect, and what they leave to be found.\<close>

fun dict_run ::
  "('e \<Rightarrow> 's \<Rightarrow> 'v \<Rightarrow> 's \<times> bool) \<Rightarrow> ('e \<Rightarrow> 's \<Rightarrow> 'v \<Rightarrow> 's) \<Rightarrow> 's \<Rightarrow> ('e \<times> 'v dict_op) list \<Rightarrow> 's \<times> 'v dict_op list" where
  "dict_run ins del s [] = (s, [])"
| "dict_run ins del s ((e, Put v) # ops) =
     (let (s1, ok) = ins e s v; (s2, done_ops) = dict_run ins del s1 ops in (s2, if ok then Put v # done_ops else done_ops))"
| "dict_run ins del s ((e, Remove v) # ops) =
     (let (s2, done_ops) = dict_run ins del (del e s v) ops in (s2, Remove v # done_ops))"

fun history :: "('v \<Rightarrow> 'v \<Rightarrow> bool) \<Rightarrow> 'v dict_op list \<Rightarrow> 'v \<Rightarrow> 'v option \<Rightarrow> 'v option" where
  "history eq [] w r = r"
| "history eq (Put v # ops) w r = history eq ops w (if eq v w then Some v else r)"
| "history eq (Remove v # ops) w r = history eq ops w (if eq v w then None else r)"

locale dictionary =
  fixes eq :: "'v \<Rightarrow> 'v \<Rightarrow> bool" and inv :: "'s \<Rightarrow> bool" and lookup :: "'s \<Rightarrow> 'v \<Rightarrow> 'v option"
    and ins :: "'e \<Rightarrow> 's \<Rightarrow> 'v \<Rightarrow> 's \<times> bool" and del :: "'e \<Rightarrow> 's \<Rightarrow> 'v \<Rightarrow> 's"
  assumes inv_ins: "inv s \<Longrightarrow> inv (fst (ins e s v))"
    and inv_del: "inv s \<Longrightarrow> inv (del e s v)"
    and lookup_ins: "inv s \<Longrightarrow> lookup (fst (ins e s v)) w = (if snd (ins e s v) \<and> eq v w then Some v else lookup s w)"
    and lookup_del: "inv s \<Longrightarrow> lookup (del e s v) w = (if eq v w then None else lookup s w)"
begin

lemma run_lookup:
  assumes "inv s" "dict_run ins del s ops = (t, es)"
  shows "inv t \<and> lookup t w = history eq es w (lookup s w)"
  using assms
proof (induction ops arbitrary: s t es)
  case (Cons eop ops)
  obtain e op where e: "eop = (e, op)" by fastforce
  show ?case
  proof (cases op)
    case (Put v)
    obtain s1 ok where i: "ins e s v = (s1, ok)" by (metis surj_pair)
    obtain t' es' where r: "dict_run ins del s1 ops = (t', es')" by (metis surj_pair)
    have "inv s1" "lookup s1 w = (if ok \<and> eq v w then Some v else lookup s w)"
      using inv_ins [of s e v] lookup_ins [of s e v w] Cons.prems(1) i by simp_all
    with Cons.IH [OF _ r] Cons.prems(2) show ?thesis by (auto simp: e Put i r)
  next
    case (Remove v)
    obtain t' es' where r: "dict_run ins del (del e s v) ops = (t', es')" by (metis surj_pair)
    with Cons.IH [OF inv_del [OF Cons.prems(1)] r] Cons.prems show ?thesis by (auto simp: e Remove r lookup_del)
  qed
qed simp

end

section \<open>The table\<close>

text \<open>What \<open>lhash.h\<close> asks of the functions: an equality whose equal elements have equal hashes.\<close>

locale lawful_hash =
  fixes h :: "'a \<Rightarrow> u32" and c :: "'a \<Rightarrow> 'a \<Rightarrow> int"
  assumes refl: "c x x = 0"
    and sym: "c x y = 0 \<Longrightarrow> c y x = 0"
    and trans: "c x y = 0 \<Longrightarrow> c y z = 0 \<Longrightarrow> c x z = 0"
    and compat: "c x y = 0 \<Longrightarrow> h x = h y"

text \<open>The invariant; the counter wraps only when there are more items than addresses.\<close>

definition lh_shape :: "'a lhash \<Rightarrow> bool" where
  "lh_shape lh \<longleftrightarrow> kMinNumBuckets \<le> lh_num_buckets lh \<and> length (lh_buckets lh) = lh_num_buckets lh
     \<and> (\<forall>i < lh_num_buckets lh. \<forall>it \<in> set (lh_buckets lh ! i). in_bucket (lh_num_buckets lh) i it)"

definition items_ok :: "('a \<Rightarrow> u32) \<Rightarrow> ('a \<Rightarrow> 'a \<Rightarrow> int) \<Rightarrow> 'a lhash_item multiset \<Rightarrow> bool" where
  "items_ok h c M \<longleftrightarrow> (\<forall>it \<in># M. it_hash it = h (it_data it)) \<and> (\<forall>it \<in># M. \<forall>it' \<in># M - {#it#}. c (it_data it) (it_data it') \<noteq> 0)"

definition lh_ok :: "('a \<Rightarrow> u32) \<Rightarrow> ('a \<Rightarrow> 'a \<Rightarrow> int) \<Rightarrow> 'a lhash \<Rightarrow> bool" where
  "lh_ok h c lh \<longleftrightarrow> lh_hash lh = h \<and> lh_comp lh = c \<and> lh_shape lh \<and> items_ok h c (mset (items lh))
     \<and> lh_num_items lh = length (items lh) mod 2 ^ 64"

lemma chain_in_bucket:
  "lh_shape lh \<Longrightarrow> b < length (lh_buckets lh) \<Longrightarrow> it \<in> set (lh_buckets lh ! b) \<Longrightarrow> in_bucket (lh_num_buckets lh) b it"
  by (simp add: lh_shape_def)

lemma shape_update:
  assumes "lh_shape lh" "b < length (lh_buckets lh)" "\<forall>it \<in> set ch. in_bucket (lh_num_buckets lh) b it"
  shows "lh_shape (lh\<lparr>lh_buckets := (lh_buckets lh)[b := ch]\<rparr>)"
proof -
  have "in_bucket (lh_num_buckets lh) i it" if "i < lh_num_buckets lh" "it \<in> set ((lh_buckets lh)[b := ch] ! i)" for i it
    using that assms by (cases "i = b") (simp_all add: lh_shape_def)
  then show ?thesis using assms(1) by (simp add: lh_shape_def)
qed

text \<open>The elements of a table.\<close>

definition elements :: "'a lhash \<Rightarrow> 'a set" where
  "elements lh = it_data ` set (items lh)"

lemma rebucket_ok:
  assumes "lh_ok h c lh" "kMinNumBuckets \<le> n"
  shows "lh_ok h c (lh_rebucket al lh n) \<and> mset (items (lh_rebucket al lh n)) = mset (items lh)"
proof -
  define bs where "bs = fold (fold (rebucket_item n)) (lh_buckets lh) (replicate n [])"
  have "0 < n" using assms(2) by (simp add: kMinNumBuckets_def)
  note R = rebucket_all [OF this bs_def]
  have m: "mset (concat bs) = mset (items lh)" using R(2) by (simp add: items_def)
  then have l: "length (concat bs) = length (items lh)" by (rule mset_eq_length)
  have "lh_ok h c (lh\<lparr>lh_num_buckets := n, lh_buckets := bs\<rparr>)"
    using assms R(1,3) m l by (simp add: lh_ok_def lh_shape_def items_def)
  moreover have "mset (items (lh\<lparr>lh_num_buckets := n, lh_buckets := bs\<rparr>)) = mset (items lh)" using m by (simp add: items_def)
  ultimately show ?thesis using assms(1)
    by (auto simp: lh_rebucket_def Let_def bs_def [symmetric] split: option.splits)
qed

lemma resize_ok:
  assumes "lh_ok h c lh"
  shows "lh_ok h c (lh_maybe_resize al lh) \<and> mset (items (lh_maybe_resize al lh)) = mset (items lh)"
proof -
  have "kMinNumBuckets \<le> lh_num_buckets lh" using assms by (simp add: lh_ok_def lh_shape_def)
  then show ?thesis
    using assms rebucket_ok [OF assms] by (simp add: lh_maybe_resize_def Let_def)
qed

lemma elements_cong: "mset (items lh) = mset (items lh') \<Longrightarrow> elements lh = elements lh'"
  unfolding elements_def by (metis set_mset_mset)

lemma resize_elements: "lh_ok h c lh \<Longrightarrow> elements (lh_maybe_resize al lh) = elements lh"
  using resize_ok elements_cong by metis

context lawful_hash
begin

lemma items_ok_add:
  "items_ok h c (add_mset it M) \<longleftrightarrow> items_ok h c M \<and> it_hash it = h (it_data it) \<and> (\<forall>it' \<in># M. c (it_data it) (it_data it') \<noteq> 0)"
  (is "?l \<longleftrightarrow> ?r")
proof
  assume r: ?r
  have s: "c (it_data x) (it_data it) \<noteq> 0" if "x \<in># M" for x using r that sym by blast
  have "\<forall>b \<in># add_mset it M - {#a#}. c (it_data a) (it_data b) \<noteq> 0" if "a \<in># add_mset it M" for a
  proof (cases "a = it")
    case False
    then have "a \<in># M" "add_mset it M - {#a#} = add_mset it (M - {#a#})" using that by auto
    then show ?thesis using r s by (auto simp: items_ok_def)
  qed (use r in simp)
  then show ?l using r by (simp add: items_ok_def)
next
  assume l: ?l
  then have "\<forall>b \<in># M. c (it_data it) (it_data b) \<noteq> 0" by (auto simp: items_ok_def)
  moreover have "\<forall>b \<in># M - {#a#}. c (it_data a) (it_data b) \<noteq> 0" if "a \<in># M" for a
  proof -
    have "add_mset it M - {#a#} = add_mset it (M - {#a#})" using that by (rule diff_union_swap2)
    then show ?thesis using l that by (auto simp: items_ok_def)
  qed
  ultimately show ?r using l by (auto simp: items_ok_def)
qed

text \<open>The chain of an element, and the rest of the table, which has no element equal to it.\<close>

lemma chain_split:
  assumes "lh_ok h c lh" "b = unat (h d) mod lh_num_buckets lh"
  obtains L R where "items lh = L @ lh_buckets lh ! b @ R" "\<And>x. concat ((lh_buckets lh)[b := x]) = L @ x @ R"
    "\<forall>it \<in> set L \<union> set R. c (it_data it) d \<noteq> 0" "b < length (lh_buckets lh)"
proof -
  define L R where "L = concat (take b (lh_buckets lh))" and "R = concat (drop (Suc b) (lh_buckets lh))"
  have b: "b < length (lh_buckets lh)" using assms by (auto simp: lh_ok_def lh_shape_def kMinNumBuckets_def)
  have "c (it_data it) d \<noteq> 0" if "it \<in> set L \<union> set R" for it
  proof -
    from that obtain i where "i \<noteq> b" "i < length (lh_buckets lh)" "it \<in> set (lh_buckets lh ! i)"
      using other_chain [of it b "lh_buckets lh"] unfolding L_def R_def by blast
    then have "unat (it_hash it) mod lh_num_buckets lh \<noteq> b" "it \<in> set (items lh)"
      using assms by (auto simp: lh_ok_def lh_shape_def in_bucket_def items_def)
    then have "h (it_data it) \<noteq> h d" using assms by (auto simp: lh_ok_def items_ok_def)
    then show ?thesis using compat by blast
  qed
  then show thesis using that [of L R] concat_split [OF b] concat_update [OF b] b by (simp add: L_def R_def items_def)
qed

text \<open>
  The position that the search gives: either the item that is equal to the element, the only one,
  or the end of a chain when there is none.
\<close>

lemma search_cases:
  assumes ok: "lh_ok h c lh" and g: "get_next_ptr_and_hash lh d = (hash, b, k)"
  obtains (found) A B it where "next_item lh b k = Some it" "lh_buckets lh ! b = A @ it # B" "k = length A" "c (it_data it) d = 0"
      "hash = h d"
  | (absent) "next_item lh b k = None" "\<forall>it \<in> set (items lh). c (it_data it) d \<noteq> 0" "hash = h d"
proof -
  define ch where "ch = lh_buckets lh ! b"
  have d: "hash = h d" "b = unat (h d) mod lh_num_buckets lh" "k = chain_search (\<lambda>x. c x d) ch"
    using g ok by (auto simp: get_next_ptr_and_hash_def Let_def lh_ok_def ch_def)
  show thesis
  proof (cases "k < length ch")
    case True
    then have "ch = take k ch @ ch ! k # drop (Suc k) ch" by (simp add: id_take_nth_drop)
    moreover have "c (it_data (ch ! k)) d = 0" using True chain_search_found d(3) by blast
    moreover have "next_item lh b k = Some (ch ! k)" "k = length (take k ch)" using True by (simp_all add: next_item_def ch_def)
    ultimately show thesis using d(1) found [of "ch ! k" "take k ch" "drop (Suc k) ch"] ch_def by blast
  next
    case False
    with chain_search_le [of _ ch] have "k = length ch" using d(3) by (metis le_neq_implies_less)
    then have "\<forall>it \<in> set ch. c (it_data it) d \<noteq> 0" using d(3) chain_search_none by metis
    moreover obtain L R where "items lh = L @ ch @ R" "\<forall>it \<in> set L \<union> set R. c (it_data it) d \<noteq> 0"
      using chain_split [OF ok d(2)] ch_def by metis
    ultimately have "\<forall>it \<in> set (items lh). c (it_data it) d \<noteq> 0" by auto
    moreover have "next_item lh b k = None" using False by (simp add: next_item_def ch_def)
    ultimately show thesis using d(1) absent by blast
  qed
qed

lemma elements_distinct:
  assumes "lh_ok h c lh" "x \<in> elements lh" "y \<in> elements lh" "c x y = 0"
  shows "x = y"
proof (rule ccontr)
  assume "x \<noteq> y"
  obtain a b where ab: "a \<in># mset (items lh)" "b \<in># mset (items lh)" "x = it_data a" "y = it_data b"
    using assms(2,3) by (auto simp: elements_def)
  with \<open>x \<noteq> y\<close> have "b \<in># mset (items lh) - {#a#}" by (auto simp: in_diff_count)
  with ab assms(1,4) show False by (auto simp: lh_ok_def items_ok_def)
qed

lemma retrieve_iff:
  assumes ok: "lh_ok h c lh"
  shows "OPENSSL_lh_retrieve lh d = Some x \<longleftrightarrow> x \<in> elements lh \<and> c x d = 0"
proof -
  obtain hash b k where g: "get_next_ptr_and_hash lh d = (hash, b, k)" by (metis surj_pair)
  from ok g show ?thesis
  proof (cases rule: search_cases [consumes 2, case_names found absent])
    case (found A B it)
    have "it_data it \<in> elements lh"
    proof -
      have "b = unat (h d) mod lh_num_buckets lh" using g ok by (auto simp: get_next_ptr_and_hash_def Let_def lh_ok_def)
      then obtain L R where "items lh = L @ lh_buckets lh ! b @ R" by (rule chain_split [OF ok])
      then show ?thesis by (simp add: found elements_def)
    qed
    moreover have "x = it_data it" if "x \<in> elements lh" "c x d = 0"
      using elements_distinct [OF ok that(1) calculation] trans [OF that(2) sym [OF found(4)]] by blast
    ultimately show ?thesis using g found by (auto simp: OPENSSL_lh_retrieve_def)
  next
    case absent
    then show ?thesis using g by (auto simp: OPENSSL_lh_retrieve_def elements_def)
  qed
qed


lemma lh_insert_spec:
  assumes ok: "lh_ok h c lh" and r: "OPENSSL_lh_insert al lh d = (lh', old, done_flag)"
  shows "lh_ok h c lh'" "old = OPENSSL_lh_retrieve lh d" "done_flag \<longleftrightarrow> old \<noteq> None \<or> OPENSSL_malloc al 24 \<noteq> None"
    "elements lh' = (if done_flag then insert d {x \<in> elements lh. c x d \<noteq> 0} else elements lh)" "\<not> done_flag \<longrightarrow> lh' = lh"
proof -
  obtain hash b k where g: "get_next_ptr_and_hash lh d = (hash, b, k)" by (metis surj_pair)
  have b: "b = unat (h d) mod lh_num_buckets lh" using g ok by (auto simp: get_next_ptr_and_hash_def Let_def lh_ok_def)
  obtain L R where S: "items lh = L @ lh_buckets lh ! b @ R" "\<And>x. concat ((lh_buckets lh)[b := x]) = L @ x @ R"
    "\<forall>it \<in> set L \<union> set R. c (it_data it) d \<noteq> 0" "b < length (lh_buckets lh)"
    by (rule chain_split [OF ok b]) blast
  have "lh_ok h c lh' \<and> old = OPENSSL_lh_retrieve lh d \<and> (done_flag \<longleftrightarrow> old \<noteq> None \<or> OPENSSL_malloc al 24 \<noteq> None)
    \<and> elements lh' = (if done_flag then insert d {x \<in> elements lh. c x d \<noteq> 0} else elements lh) \<and> (\<not> done_flag \<longrightarrow> lh' = lh)"
    using ok g
  proof (cases rule: search_cases [consumes 2, case_names found absent])
    case (found A B it)
    define it' where "it' = it\<lparr>it_data := d\<rparr>"
    have u: "(lh_buckets lh ! b)[k := it'] = A @ it' # B" using found by simp
    have r': "lh' = lh\<lparr>lh_buckets := (lh_buckets lh)[b := A @ it' # B]\<rparr>" "old = Some (it_data it)" "done_flag"
      using r g found(1) u by (simp_all add: OPENSSL_lh_insert_def it'_def)
    have ms: "mset (items lh) = add_mset it (mset (L @ A @ B @ R))" using S(1) found(2) by simp
    have ms': "mset (items lh') = add_mset it' (mset (L @ A @ B @ R))" using S(2) r'(1) by (simp add: items_def)
    have old: "items_ok h c (add_mset it (mset (L @ A @ B @ R)))" using ok ms by (simp add: lh_ok_def)
    have io: "items_ok h c (mset (items lh'))"
    proof -
      have "c d (it_data a) \<noteq> 0" if "a \<in># mset (L @ A @ B @ R)" for a
        using old that trans [OF found(4), of "it_data a"] unfolding items_ok_add by blast
      then show ?thesis using old compat [OF found(4)] unfolding ms' items_ok_add by (simp add: it'_def)
    qed
    have len: "length (items lh') = length (items lh)" using arg_cong [OF ms, of size] arg_cong [OF ms', of size] by simp
    have bk: "in_bucket n i it' = in_bucket n i it" for n i by (simp add: in_bucket_def it'_def)
    have "lh_shape lh'" unfolding r'(1)
      by (rule shape_update [OF _ S(4)]) (use ok chain_in_bucket [OF _ S(4)] found(2) bk in \<open>auto simp: lh_ok_def\<close>)
    then have "lh_ok h c lh'" using ok io len r'(1) by (simp add: lh_ok_def)
    moreover have "OPENSSL_lh_retrieve lh d = Some (it_data it)" using g found(1) by (simp add: OPENSSL_lh_retrieve_def)
    moreover have "elements lh' = insert d {x \<in> elements lh. c x d \<noteq> 0}"
    proof -
      have "c (it_data a) d \<noteq> 0" if "a \<in># mset (L @ A @ B @ R)" for a
        using old that trans [OF found(4) sym, of "it_data a"] unfolding items_ok_add by blast
      moreover have "elements lh' = insert d (it_data ` set_mset (mset (L @ A @ B @ R)))"
        "elements lh = insert (it_data it) (it_data ` set_mset (mset (L @ A @ B @ R)))"
        unfolding elements_def set_mset_mset [symmetric] ms ms' by (simp_all add: it'_def)
      ultimately show ?thesis using found(4) by auto
    qed
    ultimately show ?thesis using r' by simp
  next
    case absent
    have ret: "OPENSSL_lh_retrieve lh d = None" using g absent(1) by (simp add: OPENSSL_lh_retrieve_def)
    show ?thesis
    proof (cases "OPENSSL_malloc al 24")
      case None
      then show ?thesis using r g absent(1) ret ok by (simp add: OPENSSL_lh_insert_def)
    next
      case (Some m)
      define it' where "it' = \<lparr>it_data = d, it_hash = h d\<rparr>"
      define lh1 where "lh1 = lh\<lparr>lh_buckets := (lh_buckets lh)[b := lh_buckets lh ! b @ [it']], lh_num_items := size_add (lh_num_items lh) 1\<rparr>"
      have r': "lh' = lh_maybe_resize al lh1" "old = None" "done_flag"
        using r g absent(1,3) Some by (simp_all add: OPENSSL_lh_insert_def lh1_def it'_def)
      have ms: "mset (items lh1) = add_mset it' (mset (items lh))" using S(1,2) by (simp add: items_def lh1_def)
      have "c d (it_data a) \<noteq> 0" if "a \<in># mset (items lh)" for a using absent(2) that sym by auto
      then have io: "items_ok h c (mset (items lh1))" unfolding ms items_ok_add using ok by (simp add: it'_def lh_ok_def)
      have len: "length (items lh1) = Suc (length (items lh))" using arg_cong [OF ms, of size] by simp
      have "lh_shape (lh\<lparr>lh_buckets := (lh_buckets lh)[b := lh_buckets lh ! b @ [it']]\<rparr>)"
        by (rule shape_update [OF _ S(4)]) (use ok chain_in_bucket [OF _ S(4)] b in \<open>auto simp: lh_ok_def in_bucket_def it'_def\<close>)
      then have ok1: "lh_ok h c lh1" using ok io len by (simp add: lh_ok_def lh_shape_def lh1_def size_add_def mod_Suc_eq)
      have "elements lh1 = insert d (elements lh)"
        unfolding elements_def set_mset_mset [symmetric] ms by (simp add: it'_def)
      moreover have "{x \<in> elements lh. c x d \<noteq> 0} = elements lh" using absent(2) by (auto simp: elements_def)
      ultimately show ?thesis using r' ret Some resize_ok [OF ok1] resize_elements [OF ok1] by simp
    qed
  qed
  then show "lh_ok h c lh'" "old = OPENSSL_lh_retrieve lh d" "done_flag \<longleftrightarrow> old \<noteq> None \<or> OPENSSL_malloc al 24 \<noteq> None"
    "elements lh' = (if done_flag then insert d {x \<in> elements lh. c x d \<noteq> 0} else elements lh)" "\<not> done_flag \<longrightarrow> lh' = lh"
    by blast+
qed

lemma lh_delete_spec:
  assumes ok: "lh_ok h c lh" and r: "OPENSSL_lh_delete al lh d = (lh', old)"
  shows "lh_ok h c lh'" "old = OPENSSL_lh_retrieve lh d" "elements lh' = {x \<in> elements lh. c x d \<noteq> 0}"
proof -
  obtain hash b k where g: "get_next_ptr_and_hash lh d = (hash, b, k)" by (metis surj_pair)
  have b: "b = unat (h d) mod lh_num_buckets lh" using g ok by (auto simp: get_next_ptr_and_hash_def Let_def lh_ok_def)
  obtain L R where S: "items lh = L @ lh_buckets lh ! b @ R" "\<And>x. concat ((lh_buckets lh)[b := x]) = L @ x @ R"
    "\<forall>it \<in> set L \<union> set R. c (it_data it) d \<noteq> 0" "b < length (lh_buckets lh)"
    by (rule chain_split [OF ok b]) blast
  have "lh_ok h c lh' \<and> old = OPENSSL_lh_retrieve lh d \<and> elements lh' = {x \<in> elements lh. c x d \<noteq> 0}"
    using ok g
  proof (cases rule: search_cases [consumes 2, case_names found absent])
    case (found A B it)
    define lh1 where "lh1 = lh\<lparr>lh_buckets := (lh_buckets lh)[b := A @ B], lh_num_items := size_add (lh_num_items lh) SIZE_MAX\<rparr>"
    have r': "lh' = lh_maybe_resize al lh1" "old = Some (it_data it)"
      using r g found(1-3) by (simp_all add: OPENSSL_lh_delete_def lh1_def)
    have ms: "mset (items lh) = add_mset it (mset (items lh1))" using S(1,2) found(2) by (simp add: items_def lh1_def)
    have old: "items_ok h c (add_mset it (mset (items lh1)))" using ok ms by (simp add: lh_ok_def)
    then have io: "items_ok h c (mset (items lh1))" unfolding items_ok_add by blast
    have len: "length (items lh) = Suc (length (items lh1))" using arg_cong [OF ms, of size] by simp
    have num: "size_add (lh_num_items lh) SIZE_MAX = length (items lh1) mod 2 ^ 64"
    proof -
      have "lh_num_items lh = Suc (length (items lh1)) mod 2 ^ 64" using ok len by (simp add: lh_ok_def)
      then have "size_add (lh_num_items lh) SIZE_MAX = (Suc (length (items lh1)) + SIZE_MAX) mod 2 ^ 64"
        by (simp only: size_add_def mod_add_left_eq)
      also have "Suc (length (items lh1)) + SIZE_MAX = length (items lh1) + 2 ^ 64" by (simp add: SIZE_MAX_def)
      finally show ?thesis by simp
    qed
    have "lh_shape (lh\<lparr>lh_buckets := (lh_buckets lh)[b := A @ B]\<rparr>)"
      by (rule shape_update [OF _ S(4)]) (use ok chain_in_bucket [OF _ S(4)] found(2) in \<open>auto simp: lh_ok_def\<close>)
    then have ok1: "lh_ok h c lh1" using ok io num by (simp add: lh_ok_def lh_shape_def lh1_def items_def)
    have "elements lh1 = {x \<in> elements lh. c x d \<noteq> 0}"
    proof -
      have "c (it_data a) d \<noteq> 0" if "a \<in># mset (items lh1)" for a
        using old that trans [OF found(4) sym, of "it_data a"] unfolding items_ok_add by blast
      moreover have "elements lh = insert (it_data it) (it_data ` set_mset (mset (items lh1)))"
        unfolding elements_def set_mset_mset [symmetric] ms by simp
      ultimately show ?thesis using found(4) by (auto simp: elements_def)
    qed
    then show ?thesis using r' resize_ok [OF ok1] resize_elements [OF ok1] g found(1) by (simp add: OPENSSL_lh_retrieve_def)
  next
    case absent
    then show ?thesis using r g ok by (auto simp: OPENSSL_lh_delete_def OPENSSL_lh_retrieve_def elements_def)
  qed
  then show "lh_ok h c lh'" "old = OPENSSL_lh_retrieve lh d" "elements lh' = {x \<in> elements lh. c x d \<noteq> 0}" by blast+
qed

lemma elements_items:
  assumes "lh_ok h c lh"
  shows "distinct (map it_data (items lh))" "card (elements lh) = length (items lh)"
proof -
  have "items_ok h c (mset xs) \<Longrightarrow> distinct (map it_data xs)" for xs
    by (induction xs) (use refl in \<open>force simp: items_ok_add\<close>)+
  then show d: "distinct (map it_data (items lh))" using assms by (simp add: lh_ok_def)
  show "card (elements lh) = length (items lh)" using distinct_card [OF d] by (simp add: elements_def)
qed

lemma doall_spec:
  assumes "lh_ok h c lh" "lh_callback_depth lh < UINT_MAX - 1"
  shows "\<exists>xs lh'. OPENSSL_lh_doall_arg al (Some lh) func arg = (Some lh', fold func xs arg) \<and> distinct xs \<and> set xs = elements lh
    \<and> lh_ok h c lh' \<and> elements lh' = elements lh"
proof (intro exI conjI)
  have "lh\<lparr>lh_callback_depth := lh_callback_depth lh + 1 - 1\<rparr> = lh" by simp
  then show "OPENSSL_lh_doall_arg al (Some lh) func arg = (Some (lh_maybe_resize al lh), fold func (map it_data (items lh)) arg)"
    using assms(2) by (simp add: OPENSSL_lh_doall_arg_def Let_def fold_concat items_def fold_map comp_def)
qed (use elements_items [OF assms(1)] resize_ok [OF assms(1)] resize_elements [OF assms(1)] in \<open>auto simp: elements_def\<close>)

lemma retrieve_deleted:
  assumes "lh_ok h c lh" "lh_ok h c lh'" "elements lh' = {x \<in> elements lh. c x v \<noteq> 0}"
  shows "OPENSSL_lh_retrieve lh' w = (if c v w = 0 then None else OPENSSL_lh_retrieve lh w)"
proof (rule option_eqI)
  fix x
  show "OPENSSL_lh_retrieve lh' w = Some x \<longleftrightarrow> (if c v w = 0 then None else OPENSSL_lh_retrieve lh w) = Some x"
  proof (cases "c v w = 0")
    case True
    have "c x v = 0" if "c x w = 0" by (rule trans [OF that sym [OF True]])
    then show ?thesis using True retrieve_iff [OF assms(2), of w x] assms(3) by auto
  next
    case False
    have "c x v \<noteq> 0" if "c x w = 0" using False trans [OF sym that, of v] by blast
    then show ?thesis using False retrieve_iff [OF assms(2), of w x] retrieve_iff [OF assms(1), of w x] assms(3) by auto
  qed
qed

lemma retrieve_inserted:
  assumes "lh_ok h c lh" "lh_ok h c lh'" "elements lh' = insert v {x \<in> elements lh. c x v \<noteq> 0}"
  shows "OPENSSL_lh_retrieve lh' w = (if c v w = 0 then Some v else OPENSSL_lh_retrieve lh w)"
proof (rule option_eqI)
  fix x
  show "OPENSSL_lh_retrieve lh' w = Some x \<longleftrightarrow> (if c v w = 0 then Some v else OPENSSL_lh_retrieve lh w) = Some x"
  proof (cases "c v w = 0")
    case True
    have "c x v = 0" if "c x w = 0" by (rule trans [OF that sym [OF True]])
    then show ?thesis using True retrieve_iff [OF assms(2), of w x] assms(3) by auto
  next
    case False
    have "c x v \<noteq> 0" if "c x w = 0" using False trans [OF sym that, of v] by blast
    then show ?thesis using False retrieve_iff [OF assms(2), of w x] retrieve_iff [OF assms(1), of w x] assms(3) by auto
  qed
qed

end

text \<open>Operations on a table, as the dictionary has them.\<close>

definition lh_put :: "allocator \<Rightarrow> 'a lhash \<Rightarrow> 'a \<Rightarrow> 'a lhash \<times> bool" where
  "lh_put al lh v = (let (lh', _, ok) = OPENSSL_lh_insert al lh v in (lh', ok))"

definition lh_remove :: "allocator \<Rightarrow> 'a lhash \<Rightarrow> 'a \<Rightarrow> 'a lhash" where
  "lh_remove al lh v = fst (OPENSSL_lh_delete al lh v)"

sublocale lawful_hash \<subseteq> dict: dictionary "\<lambda>v w. c v w = 0" "lh_ok h c" OPENSSL_lh_retrieve lh_put lh_remove
proof
  fix lh v w al
  assume ok: "lh_ok h c lh"
  obtain lh' old d where i: "OPENSSL_lh_insert al lh v = (lh', old, d)" by (metis surj_pair)
  note I = lh_insert_spec [OF ok i]
  obtain lh2 old2 where dl: "OPENSSL_lh_delete al lh v = (lh2, old2)" by (metis surj_pair)
  note D = lh_delete_spec [OF ok dl]
  show "lh_ok h c (fst (lh_put al lh v))" using i I(1) by (simp add: lh_put_def)
  show "lh_ok h c (lh_remove al lh v)" using dl D(1) by (simp add: lh_remove_def)
  have "OPENSSL_lh_retrieve lh' w = (if d \<and> c v w = 0 then Some v else OPENSSL_lh_retrieve lh w)"
    using retrieve_inserted [OF ok I(1), of v w] I(4,5) by (cases d) simp_all
  then show "OPENSSL_lh_retrieve (fst (lh_put al lh v)) w =
    (if snd (lh_put al lh v) \<and> c v w = 0 then Some v else OPENSSL_lh_retrieve lh w)"
    using i by (simp add: lh_put_def)
  have "OPENSSL_lh_retrieve lh2 w = (if c v w = 0 then None else OPENSSL_lh_retrieve lh w)"
    by (rule retrieve_deleted [OF ok D(1,3)])
  then show "OPENSSL_lh_retrieve (lh_remove al lh v) w = (if c v w = 0 then None else OPENSSL_lh_retrieve lh w)"
    using dl by (simp add: lh_remove_def)
qed

lemma new_ok: "OPENSSL_lh_new al h c = Some lh \<Longrightarrow> lh_ok h c lh \<and> elements lh = {} \<and> lh_callback_depth lh = 0"
  by (auto simp: OPENSSL_lh_new_def lh_ok_def lh_shape_def items_ok_def items_def elements_def kMinNumBuckets_def
      split: option.splits)

lemma lh_new_succeeds: "always_allocates al \<Longrightarrow> OPENSSL_lh_new al h c \<noteq> None"
  by (simp add: OPENSSL_lh_new_def OPENSSL_calloc_def OPENSSL_zalloc_def OPENSSL_malloc_def always_allocates_def
      kMinNumBuckets_def OPENSSL_MALLOC_PREFIX_def SIZE_MAX_def size_add_def size_mul_def split: option.splits)

context lawful_hash
begin

lemma lh_run_lookup:
  "lh_ok h c lh \<Longrightarrow> dict_run lh_put lh_remove lh ops = (lh', es)
    \<Longrightarrow> OPENSSL_lh_retrieve lh' w = history (\<lambda>v w. c v w = 0) es w (OPENSSL_lh_retrieve lh w)"
  using dict.run_lookup by blast

end

section \<open>Properties\<close>

text \<open>
  Claim C31.  A hash table is a dictionary: after any sequence of insertions and deletions on a new
  table, each with an allocator of its own, so whatever resizing they caused and whichever of them found no memory,
  \<open>OPENSSL_lh_retrieve\<close> finds what the operations that took effect say, an element equal to the one
  asked for that was inserted and neither replaced nor deleted since.  An insertion that found no memory
  leaves all that is found as it was.
\<close>

theorem lhash_dictionary:
  assumes "lawful_hash h c" "OPENSSL_lh_new al h c = Some lh" "dict_run lh_put lh_remove lh ops = (lh', done_ops)"
  shows "OPENSSL_lh_retrieve lh' w = history (\<lambda>v w. c v w = 0) done_ops w None"
proof -
  have "OPENSSL_lh_retrieve lh w = None"
    using lawful_hash.retrieve_iff [OF assms(1)] new_ok [OF assms(2)] by (metis empty_iff not_None_eq)
  then show ?thesis
    using lawful_hash.lh_run_lookup [OF assms(1) _ assms(3)] new_ok [OF assms(2)] by simp
qed

lemma byte_hash_lawful: "lawful_hash (\<lambda>x :: nat. word_of_nat (x div 2)) (\<lambda>x y. int (x div 2) - int (y div 2))"
  by unfold_locales auto

text \<open>Here the third insertion finds no memory.\<close>

theorem lhash_dictionary_witness:
  "\<exists>lh lh' es. OPENSSL_lh_new (\<lambda>n. Some (\<lambda>i. 0)) (\<lambda>x :: nat. word_of_nat (x div 2)) (\<lambda>x y. int (x div 2) - int (y div 2)) = Some lh
     \<and> dict_run lh_put lh_remove lh
         [(\<lambda>n. Some (\<lambda>i. 0), Put 4), (\<lambda>n. Some (\<lambda>i. 0), Put 7), (\<lambda>n. None, Put 9), (\<lambda>n. None, Put 5), (\<lambda>n. None, Remove 6)] = (lh', es)
     \<and> OPENSSL_lh_retrieve lh' 4 = history (\<lambda>x y. int (x div 2) - int (y div 2) = 0) es 4 None"
proof -
  let ?al = "\<lambda>n. Some (\<lambda>i. 0) :: (nat \<Rightarrow> u8) option" and ?h = "\<lambda>x :: nat. word_of_nat (x div 2)" and ?c = "\<lambda>x y. int (x div 2) - int (y div 2)"
  let ?ops = "[(?al, Put 4), (?al, Put 7), (\<lambda>n. None, Put 9), (\<lambda>n. None, Put 5), (\<lambda>n. None, Remove 6)]"
  obtain lh where lh: "OPENSSL_lh_new ?al ?h ?c = Some lh" using lh_new_succeeds [of ?al] by (auto simp: always_allocates_def)
  obtain lh' es where r: "dict_run lh_put lh_remove lh ?ops = (lh', es)" by (metis surj_pair)
  show ?thesis using lhash_dictionary [OF byte_hash_lawful lh r, of 4] lh r by blast
qed

text \<open>
  Claim C32.  On a well-formed table whose functions are lawful, an insertion either fails for lack of
  memory and changes nothing, or replaces the element equal to the new one and reports it; a deletion
  removes and reports it; both keep the table well-formed (each item in the bucket of its hash,
  no two equal elements, the count right); and \<open>OPENSSL_lh_doall_arg\<close> calls the callback on each
  element exactly once.
\<close>

theorem lhash_operations:
  assumes "lawful_hash h c" "lh_ok h c lh" "lh_callback_depth lh < UINT_MAX - 1"
  shows "(case OPENSSL_lh_insert al lh d of (lh', old, ok) \<Rightarrow>
      lh_ok h c lh' \<and> old = OPENSSL_lh_retrieve lh d \<and> (ok \<longleftrightarrow> old \<noteq> None \<or> OPENSSL_malloc al 24 \<noteq> None)
      \<and> (if ok then elements lh' = insert d {x \<in> elements lh. c x d \<noteq> 0} else lh' = lh))
    \<and> (case OPENSSL_lh_delete al lh d of (lh', old) \<Rightarrow>
      lh_ok h c lh' \<and> old = OPENSSL_lh_retrieve lh d \<and> elements lh' = {x \<in> elements lh. c x d \<noteq> 0})
    \<and> OPENSSL_lh_num_items lh = card (elements lh) mod 2 ^ 64
    \<and> (\<exists>xs lh'. OPENSSL_lh_doall_arg al (Some lh) func arg = (Some lh', fold func xs arg) \<and> distinct xs \<and> set xs = elements lh
        \<and> lh_ok h c lh' \<and> elements lh' = elements lh)"
proof (intro conjI)
  note I = lawful_hash.lh_insert_spec [OF assms(1,2)] and D = lawful_hash.lh_delete_spec [OF assms(1,2)]
  show "case OPENSSL_lh_insert al lh d of (lh', old, ok) \<Rightarrow>
      lh_ok h c lh' \<and> old = OPENSSL_lh_retrieve lh d \<and> (ok \<longleftrightarrow> old \<noteq> None \<or> OPENSSL_malloc al 24 \<noteq> None)
      \<and> (if ok then elements lh' = insert d {x \<in> elements lh. c x d \<noteq> 0} else lh' = lh)"
    using I [where al = al and d = d] by (cases "OPENSSL_lh_insert al lh d") (simp split: prod.split)
  show "case OPENSSL_lh_delete al lh d of (lh', old) \<Rightarrow>
      lh_ok h c lh' \<and> old = OPENSSL_lh_retrieve lh d \<and> elements lh' = {x \<in> elements lh. c x d \<noteq> 0}"
    using D [where al = al and d = d] by (cases "OPENSSL_lh_delete al lh d") simp
  show "OPENSSL_lh_num_items lh = card (elements lh) mod 2 ^ 64"
    using lawful_hash.elements_items(2) [OF assms(1,2)] assms(2) by (simp add: OPENSSL_lh_num_items_def lh_ok_def)
qed (rule lawful_hash.doall_spec [OF assms])

theorem lhash_operations_witness:
  "\<exists>lh. OPENSSL_lh_new (\<lambda>n. Some (\<lambda>i. 0)) (\<lambda>x :: nat. word_of_nat (x div 2)) (\<lambda>x y. int (x div 2) - int (y div 2)) = Some lh
     \<and> elements (fst (OPENSSL_lh_delete (\<lambda>n. Some (\<lambda>i. 0)) lh 3)) = {} \<and> OPENSSL_lh_num_items lh = 0"
proof -
  let ?al = "\<lambda>n. Some (\<lambda>i. 0) :: (nat \<Rightarrow> u8) option" and ?h = "\<lambda>x :: nat. word_of_nat (x div 2)" and ?c = "\<lambda>x y. int (x div 2) - int (y div 2)"
  obtain lh where lh: "OPENSSL_lh_new ?al ?h ?c = Some lh" using lh_new_succeeds [of ?al] by (auto simp: always_allocates_def)
  then have n: "lh_ok ?h ?c lh" "elements lh = {}" "lh_callback_depth lh < UINT_MAX - 1" using new_ok [OF lh] by (simp_all add: UINT_MAX_def)
  then show ?thesis using lh lhash_operations [OF byte_hash_lawful n(1,3), where al = ?al and d = 3 and func = "\<lambda>x n. n + 1 :: nat" and arg = 0] by (auto split: prod.splits)
qed

end
