(* ===== verification/Obj.thy ===== *)
theory Obj imports Oid Lhash begin

unbundle bit_operations_syntax

text \<open>
  \<open>crypto/obj/obj.c\<close>: the registry of object identifiers, with the constructor of
  \<open>crypto/asn1/a_object.c\<close>.  Identifiers that the program registers are kept in four hash tables; the
  built-in ones are the arrays that \<open>obj_dat.h\<close> holds, generated data that is a parameter here.
  Strings end with their zero byte.  A result \<open>None\<close> of a function that searches the arrays is the
  abort of \<open>BSSL_CHECK\<close>; the locks have no effect on a single thread.
\<close>

section \<open>Strings of the C library\<close>

definition cstring :: "bytes \<Rightarrow> bytes" where
  "cstring s = take (strlen s) s"

fun strcmp :: "bytes \<Rightarrow> bytes \<Rightarrow> int" where
  "strcmp (c # s) (d # t) = (if c \<noteq> d then uint c - uint d else if c = 0 then 0 else strcmp s t)"
| "strcmp [] [] = 0"
| "strcmp [] (d # t) = - uint d"
| "strcmp (c # s) [] = uint c"

lemma cstring_simps [simp]: "cstring [] = []" "cstring (c # s) = (if c = 0 then [] else c # cstring s)"
  by (simp_all add: cstring_def)

lemma uint_byte_eq: "uint (c :: u8) = uint d \<longleftrightarrow> c = d"
  by (simp add: word_uint_eq_iff)

lemma strcmp_equal: "strcmp s t = 0 \<longleftrightarrow> cstring s = cstring t"
  by (induction s t rule: strcmp.induct) (auto simp: uint_0_iff uint_byte_eq)

text \<open>The standard binary search; the comparison may abort.\<close>

function bsearch :: "('e \<Rightarrow> int option) \<Rightarrow> 'e list \<Rightarrow> nat \<Rightarrow> nat \<Rightarrow> 'e option option" where
  "bsearch cmp xs lo hi =
     (if lo < hi then
        let mid = lo + (hi - lo) div 2
        in case cmp (xs ! mid) of None \<Rightarrow> None
           | Some r \<Rightarrow> if r = 0 then Some (Some (xs ! mid))
                       else if r < 0 then bsearch cmp xs lo mid else bsearch cmp xs (mid + 1) hi
      else Some None)"
  by auto
termination by (relation "measure (\<lambda>(_, _, lo, hi). hi - lo)") auto

declare bsearch.simps [simp del]

section \<open>Objects\<close>

text \<open>The fields \<open>length\<close> and \<open>data\<close> are one: an array with its length, or null with none.\<close>

record asn1_object =
  ob_sn :: "bytes option"
  ob_ln :: "bytes option"
  ob_nid :: int
  ob_data :: "bytes option"
  ob_flags :: u32

definition ob_bytes :: "asn1_object \<Rightarrow> bytes" where
  "ob_bytes o1 = (case ob_data o1 of None \<Rightarrow> [] | Some d \<Rightarrow> d)"

definition ob_length :: "asn1_object \<Rightarrow> nat" where
  "ob_length o1 = length (ob_bytes o1)"

text \<open>\<open>ASN1_OBJECT_FLAG_DYNAMIC\<close>, \<open>_DYNAMIC_STRINGS\<close> and \<open>_DYNAMIC_DATA\<close>.\<close>

definition flag_dynamic :: u32 where "flag_dynamic = 0x01"
definition flag_strings :: u32 where "flag_strings = 0x04"
definition flag_data :: u32 where "flag_data = 0x08"

definition NID_undef :: int where "NID_undef = 0"
definition NUM_NID :: int where "NUM_NID = 966"

definition ASN1_OBJECT_new :: "allocator \<Rightarrow> asn1_object option" where
  "ASN1_OBJECT_new al =
     (case OPENSSL_malloc al 40 of None \<Rightarrow> None
      | Some _ \<Rightarrow> Some \<lparr>ob_sn = None, ob_ln = None, ob_nid = 0, ob_data = None, ob_flags = flag_dynamic\<rparr>)"

text \<open>A copy of a string that may be null: none when the allocation fails.\<close>

definition dup_string :: "allocator \<Rightarrow> bytes option \<Rightarrow> bytes option option" where
  "dup_string al s = (case s of None \<Rightarrow> Some None | Some t \<Rightarrow> map_option Some (OPENSSL_strdup al t))"

definition OBJ_dup :: "allocator \<Rightarrow> asn1_object option \<Rightarrow> asn1_object option" where
  "OBJ_dup al o0 =
     (case o0 of None \<Rightarrow> None
      | Some o1 \<Rightarrow>
          if ob_flags o1 AND flag_dynamic = 0 then Some o1
          else case ASN1_OBJECT_new al of None \<Rightarrow> None
          | Some r \<Rightarrow>
              let data = OPENSSL_memdup al (ob_bytes o1) (ob_length o1)
              in if ob_length o1 \<noteq> 0 \<and> data = None then None
              else case dup_string al (ob_ln o1) of None \<Rightarrow> None
              | Some ln \<Rightarrow>
                  (case dup_string al (ob_sn o1) of None \<Rightarrow> None
                   | Some sn \<Rightarrow>
                       Some (r\<lparr>ob_sn := sn, ob_ln := ln, ob_nid := ob_nid o1, ob_data := data,
                               ob_flags := ob_flags o1 OR (flag_dynamic OR flag_strings OR flag_data)\<rparr>)))"

definition ASN1_OBJECT_create :: "allocator \<Rightarrow> int \<Rightarrow> bytes \<Rightarrow> bytes option \<Rightarrow> bytes option \<Rightarrow> asn1_object option" where
  "ASN1_OBJECT_create al nid data sn ln =
     (if INT_MAX < length data then None
      else OBJ_dup al (Some \<lparr>ob_sn = sn, ob_ln = ln, ob_nid = nid, ob_data = Some data,
                             ob_flags = flag_dynamic OR flag_strings OR flag_data\<rparr>))"

definition OBJ_cmp :: "asn1_object \<Rightarrow> asn1_object \<Rightarrow> int" where
  "OBJ_cmp a b =
     (if ob_length a < ob_length b then - 1 else if ob_length b < ob_length a then 1
      else OPENSSL_memcmp (ob_bytes a) (ob_bytes b) (ob_length a))"

definition OBJ_get0_data :: "asn1_object option \<Rightarrow> bytes option" where
  "OBJ_get0_data obj = (case obj of None \<Rightarrow> None | Some o1 \<Rightarrow> ob_data o1)"

definition OBJ_length :: "asn1_object option \<Rightarrow> nat" where
  "OBJ_length obj = (case obj of None \<Rightarrow> 0 | Some o1 \<Rightarrow> ob_length o1)"

text \<open>The functions of the tables.  Names are not null where the tables call these.\<close>

definition ob_str :: "bytes option \<Rightarrow> bytes" where
  "ob_str s = (case s of None \<Rightarrow> [] | Some t \<Rightarrow> t)"

definition hash_nid :: "asn1_object \<Rightarrow> u32" where
  "hash_nid obj = word_of_int (ob_nid obj)"

text \<open>
  The difference of two nids is of unbounded integers here: the tables only test it for zero, and it fits into an
  \<open>int\<close> for the nids that are given out, which count up from \<open>NUM_NID\<close>.
\<close>

definition cmp_nid :: "asn1_object \<Rightarrow> asn1_object \<Rightarrow> int" where
  "cmp_nid a b = ob_nid a - ob_nid b"

definition hash_data :: "asn1_object \<Rightarrow> u32" where
  "hash_data obj = OPENSSL_hash32 (ob_bytes obj)"

definition hash_short_name :: "asn1_object \<Rightarrow> u32" where
  "hash_short_name obj = OPENSSL_strhash (ob_str (ob_sn obj))"

definition cmp_short_name :: "asn1_object \<Rightarrow> asn1_object \<Rightarrow> int" where
  "cmp_short_name a b = strcmp (ob_str (ob_sn a)) (ob_str (ob_sn b))"

definition hash_long_name :: "asn1_object \<Rightarrow> u32" where
  "hash_long_name obj = OPENSSL_strhash (ob_str (ob_ln obj))"

definition cmp_long_name :: "asn1_object \<Rightarrow> asn1_object \<Rightarrow> int" where
  "cmp_long_name a b = strcmp (ob_str (ob_ln a)) (ob_str (ob_ln b))"

section \<open>The registry\<close>

record obj_tables =
  kObjects :: "asn1_object list"
  kNIDsInShortNameOrder :: "int list"
  kNIDsInLongNameOrder :: "int list"
  kNIDsInOIDOrder :: "int list"

record obj_state =
  global_next_nid :: u32
  global_added_by_data :: "asn1_object lhash option"
  global_added_by_nid :: "asn1_object lhash option"
  global_added_by_short_name :: "asn1_object lhash option"
  global_added_by_long_name :: "asn1_object lhash option"

definition obj_next_nid :: "obj_state \<Rightarrow> int \<times> obj_state" where
  "obj_next_nid st = (sint (global_next_nid st), st\<lparr>global_next_nid := global_next_nid st + 1\<rparr>)"

definition get_builtin_object :: "obj_tables \<Rightarrow> int \<Rightarrow> asn1_object option" where
  "get_builtin_object tb nid = (if 0 < nid \<and> nid < NUM_NID then Some (kObjects tb ! nat (nid - 1)) else None)"

definition obj_cmp :: "obj_tables \<Rightarrow> asn1_object \<Rightarrow> int \<Rightarrow> int option" where
  "obj_cmp tb key nid = map_option (OBJ_cmp key) (get_builtin_object tb nid)"

definition short_name_cmp :: "obj_tables \<Rightarrow> bytes \<Rightarrow> int \<Rightarrow> int option" where
  "short_name_cmp tb name nid = map_option (\<lambda>o1. strcmp name (ob_str (ob_sn o1))) (get_builtin_object tb nid)"

definition long_name_cmp :: "obj_tables \<Rightarrow> bytes \<Rightarrow> int \<Rightarrow> int option" where
  "long_name_cmp tb name nid = map_option (\<lambda>o1. strcmp name (ob_str (ob_ln o1))) (get_builtin_object tb nid)"

text \<open>The nid of what a search of an array found.\<close>

definition found_nid :: "obj_tables \<Rightarrow> int option option \<Rightarrow> int option" where
  "found_nid tb r = (case r of None \<Rightarrow> None | Some None \<Rightarrow> Some NID_undef
     | Some (Some nid) \<Rightarrow> map_option ob_nid (get_builtin_object tb nid))"

definition lookup_added :: "'a lhash option \<Rightarrow> 'a \<Rightarrow> 'a option" where
  "lookup_added t key = (case t of None \<Rightarrow> None | Some lh \<Rightarrow> OPENSSL_lh_retrieve lh key)"

definition OBJ_obj2nid :: "obj_tables \<Rightarrow> obj_state \<Rightarrow> asn1_object option \<Rightarrow> int option" where
  "OBJ_obj2nid tb st obj =
     (case obj of None \<Rightarrow> Some NID_undef
      | Some o1 \<Rightarrow>
          if ob_nid o1 \<noteq> 0 then Some (ob_nid o1)
          else case lookup_added (global_added_by_data st) o1 of
            Some match \<Rightarrow> Some (ob_nid match)
          | None \<Rightarrow> found_nid tb (bsearch (obj_cmp tb o1) (kNIDsInOIDOrder tb) 0 (length (kNIDsInOIDOrder tb))))"

text \<open>A template of which only the key's field is set; the hash and the comparison read nothing else.\<close>

definition no_object :: asn1_object where
  "no_object = \<lparr>ob_sn = None, ob_ln = None, ob_nid = 0, ob_data = None, ob_flags = 0\<rparr>"

definition OBJ_cbs2nid :: "obj_tables \<Rightarrow> obj_state \<Rightarrow> bytes \<Rightarrow> int option" where
  "OBJ_cbs2nid tb st cbs =
     (if INT_MAX < length cbs then Some NID_undef
      else OBJ_obj2nid tb st (Some (no_object\<lparr>ob_data := Some cbs\<rparr>)))"

definition OBJ_sn2nid :: "obj_tables \<Rightarrow> obj_state \<Rightarrow> bytes \<Rightarrow> int option" where
  "OBJ_sn2nid tb st short_name =
     (case lookup_added (global_added_by_short_name st) (no_object\<lparr>ob_sn := Some short_name\<rparr>) of
        Some match \<Rightarrow> Some (ob_nid match)
      | None \<Rightarrow> found_nid tb (bsearch (short_name_cmp tb short_name) (kNIDsInShortNameOrder tb) 0
                 (length (kNIDsInShortNameOrder tb))))"

definition OBJ_ln2nid :: "obj_tables \<Rightarrow> obj_state \<Rightarrow> bytes \<Rightarrow> int option" where
  "OBJ_ln2nid tb st long_name =
     (case lookup_added (global_added_by_long_name st) (no_object\<lparr>ob_ln := Some long_name\<rparr>) of
        Some match \<Rightarrow> Some (ob_nid match)
      | None \<Rightarrow> found_nid tb (bsearch (long_name_cmp tb long_name) (kNIDsInLongNameOrder tb) 0
                 (length (kNIDsInLongNameOrder tb))))"

text \<open>\<open>SN_undef\<close> is \<open>UNDEF\<close> and \<open>LN_undef\<close> is \<open>undefined\<close>.\<close>

definition OBJ_get_undef :: asn1_object where
  "OBJ_get_undef = \<lparr>ob_sn = Some [0x55, 0x4e, 0x44, 0x45, 0x46, 0],
     ob_ln = Some [0x75, 0x6e, 0x64, 0x65, 0x66, 0x69, 0x6e, 0x65, 0x64, 0], ob_nid = NID_undef, ob_data = None, ob_flags = 0\<rparr>"

definition OBJ_nid2obj :: "obj_tables \<Rightarrow> obj_state \<Rightarrow> int \<Rightarrow> asn1_object option" where
  "OBJ_nid2obj tb st nid =
     (if nid = NID_undef then Some OBJ_get_undef
      else if 0 < nid \<and> nid < NUM_NID then
        (case get_builtin_object tb nid of None \<Rightarrow> None
         | Some obj \<Rightarrow> if nid \<noteq> NID_undef \<and> ob_nid obj = NID_undef then None else Some obj)
      else lookup_added (global_added_by_nid st) (no_object\<lparr>ob_nid := nid\<rparr>))"

definition OBJ_nid2sn :: "obj_tables \<Rightarrow> obj_state \<Rightarrow> int \<Rightarrow> bytes option" where
  "OBJ_nid2sn tb st nid = (case OBJ_nid2obj tb st nid of None \<Rightarrow> None | Some obj \<Rightarrow> ob_sn obj)"

definition OBJ_nid2ln :: "obj_tables \<Rightarrow> obj_state \<Rightarrow> int \<Rightarrow> bytes option" where
  "OBJ_nid2ln tb st nid = (case OBJ_nid2obj tb st nid of None \<Rightarrow> None | Some obj \<Rightarrow> ob_ln obj)"

definition OBJ_nid2cbb :: "allocator \<Rightarrow> obj_tables \<Rightarrow> obj_state \<Rightarrow> cbb_ptr \<Rightarrow> cbb_ptr \<Rightarrow> int \<Rightarrow> cbb \<Rightarrow> bool \<times> cbb" where
  "OBJ_nid2cbb al tb st out oid nid cb =
     (case OBJ_nid2obj tb st nid of None \<Rightarrow> (False, cb)
      | Some obj \<Rightarrow>
          cbb_and (CBB_add_asn1 al out oid 6) (cbb_and (CBB_add_bytes al oid (ob_bytes obj)) (CBB_flush al out)) cb)"

text \<open>The nid is drawn, when there is a function to draw it from, once the text has been parsed.\<close>

definition create_object_with_text_oid ::
  "allocator \<Rightarrow> (obj_state \<Rightarrow> int \<times> obj_state) option \<Rightarrow> bytes \<Rightarrow> bytes option \<Rightarrow> bytes option \<Rightarrow> obj_state
    \<Rightarrow> asn1_object option \<times> obj_state" where
  "create_object_with_text_oid al get_nid oid short_name long_name st =
     (case CBB_init al 0 32 of None \<Rightarrow> (None, st)
      | Some cb \<Rightarrow>
          (case CBB_add_asn1_oid_from_text al 0 (take (strlen oid) oid) cb of (False, _) \<Rightarrow> (None, st)
           | (True, cb) \<Rightarrow>
               (case CBB_finish al 0 cb of (None, _) \<Rightarrow> (None, st)
                | (Some (buf, len), _) \<Rightarrow>
                    let (nid, st) = (case get_nid of None \<Rightarrow> (NID_undef, st) | Some get \<Rightarrow> get st)
                    in (ASN1_OBJECT_create al nid (take len buf) short_name long_name, st))))"

definition OBJ_txt2obj :: "allocator \<Rightarrow> obj_tables \<Rightarrow> obj_state \<Rightarrow> bytes \<Rightarrow> bool \<Rightarrow> asn1_object option option" where
  "OBJ_txt2obj al tb st s dont_search_names =
     (if dont_search_names then Some (fst (create_object_with_text_oid al None s None None st))
      else case OBJ_sn2nid tb st s of None \<Rightarrow> None
      | Some nid \<Rightarrow>
          (case (if nid = NID_undef then OBJ_ln2nid tb st s else Some nid) of None \<Rightarrow> None
           | Some nid \<Rightarrow>
               if nid \<noteq> NID_undef then Some (OBJ_nid2obj tb st nid)
               else Some (fst (create_object_with_text_oid al None s None None st))))"

definition OBJ_txt2nid :: "allocator \<Rightarrow> obj_tables \<Rightarrow> obj_state \<Rightarrow> bytes \<Rightarrow> int option" where
  "OBJ_txt2nid al tb st s = (case OBJ_txt2obj al tb st s False of None \<Rightarrow> None | Some obj \<Rightarrow> OBJ_obj2nid tb st obj)"

definition strlcpy_int :: "bytes \<Rightarrow> bytes \<Rightarrow> int \<Rightarrow> bytes \<times> int" where
  "strlcpy_int dst src dst_size =
     (let (dst, ret) = OPENSSL_strlcpy dst src (if dst_size < 0 then 0 else nat dst_size)
      in if INT_MAX < ret then (dst, - 1) else (dst, int ret))"

text \<open>The buffer and the result.\<close>

definition OBJ_obj2txt :: "allocator \<Rightarrow> obj_tables \<Rightarrow> obj_state \<Rightarrow> bytes \<Rightarrow> int \<Rightarrow> asn1_object option \<Rightarrow> bool
    \<Rightarrow> (bytes \<times> int) option" where
  "OBJ_obj2txt al tb st out out_len obj always_return_oid =
     (case obj of None \<Rightarrow> Some (strlcpy_int out [0] out_len)
      | Some o1 \<Rightarrow>
          if ob_length o1 = 0 then Some (strlcpy_int out [0] out_len)
          else case (if always_return_oid then Some NID_undef else OBJ_obj2nid tb st obj) of None \<Rightarrow> None
          | Some nid \<Rightarrow>
              let name = (if nid = NID_undef then None
                          else case OBJ_nid2ln tb st nid of None \<Rightarrow> OBJ_nid2sn tb st nid | Some ln \<Rightarrow> Some ln)
              in case name of Some nm \<Rightarrow> Some (strlcpy_int out nm out_len)
              | None \<Rightarrow>
                  (case CBS_asn1_oid_to_text al (ob_bytes o1) of
                     None \<Rightarrow> Some (if 0 < out_len then out[0 := 0] else out, - 1)
                   | Some txt \<Rightarrow> Some (strlcpy_int out txt out_len)))"

text \<open>A table, created when it does not exist yet.\<close>

definition ensure_table :: "allocator \<Rightarrow> ('a \<Rightarrow> u32) \<Rightarrow> ('a \<Rightarrow> 'a \<Rightarrow> int) \<Rightarrow> 'a lhash option \<Rightarrow> 'a lhash option" where
  "ensure_table al h c t = (case t of None \<Rightarrow> OPENSSL_lh_new al h c | Some lh \<Rightarrow> Some lh)"

text \<open>An insertion that is made under a condition, and counts as done otherwise.\<close>

definition insert_when :: "allocator \<Rightarrow> bool \<Rightarrow> 'a lhash \<Rightarrow> 'a \<Rightarrow> 'a lhash \<times> bool" where
  "insert_when al cond lh obj = (if cond then (let (lh', _, ok) = OPENSSL_lh_insert al lh obj in (lh', ok)) else (lh, True))"

definition obj_add_object :: "allocator \<Rightarrow> obj_state \<Rightarrow> asn1_object \<Rightarrow> bool \<times> obj_state" where
  "obj_add_object al st obj0 =
     (let obj = obj0\<lparr>ob_flags := ob_flags obj0 AND NOT (flag_dynamic OR flag_strings OR flag_data)\<rparr>;
          st = st\<lparr>global_added_by_nid := ensure_table al hash_nid cmp_nid (global_added_by_nid st)\<rparr>;
          st = st\<lparr>global_added_by_data := ensure_table al hash_data OBJ_cmp (global_added_by_data st)\<rparr>;
          st = st\<lparr>global_added_by_short_name := ensure_table al hash_short_name cmp_short_name (global_added_by_short_name st)\<rparr>;
          st = st\<lparr>global_added_by_long_name := ensure_table al hash_long_name cmp_long_name (global_added_by_long_name st)\<rparr>
      in case (global_added_by_nid st, global_added_by_data st, global_added_by_short_name st, global_added_by_long_name st) of
           (Some by_nid, Some by_data, Some by_sn, Some by_ln) \<Rightarrow>
             let (by_nid, ok1) = insert_when al True by_nid obj;
                 (by_data, ok2) = insert_when al (ob_length obj \<noteq> 0 \<and> ob_data obj \<noteq> None) by_data obj;
                 (by_sn, ok3) = insert_when al (ob_sn obj \<noteq> None) by_sn obj;
                 (by_ln, ok4) = insert_when al (ob_ln obj \<noteq> None) by_ln obj
             in (ok1 \<and> ok2 \<and> ok3 \<and> ok4,
                 st\<lparr>global_added_by_nid := Some by_nid, global_added_by_data := Some by_data,
                    global_added_by_short_name := Some by_sn, global_added_by_long_name := Some by_ln\<rparr>)
         | _ \<Rightarrow> (False, st))"

definition OBJ_create :: "allocator \<Rightarrow> obj_state \<Rightarrow> bytes \<Rightarrow> bytes option \<Rightarrow> bytes option \<Rightarrow> int \<times> obj_state" where
  "OBJ_create al st oid short_name long_name =
     (case create_object_with_text_oid al (Some obj_next_nid) oid short_name long_name st of
        (None, st) \<Rightarrow> (NID_undef, st)
      | (Some op, st) \<Rightarrow>
          (case obj_add_object al st op of (False, st) \<Rightarrow> (NID_undef, st) | (True, st) \<Rightarrow> (ob_nid op, st)))"


section \<open>The tables\<close>

lemma memcmp_equal: "length a = length b \<Longrightarrow> memcmp a b = 0 \<longleftrightarrow> a = b"
  by (induction a b rule: memcmp.induct) auto

lemma OBJ_cmp_equal: "OBJ_cmp a b = 0 \<longleftrightarrow> ob_bytes a = ob_bytes b"
  by (auto simp: OBJ_cmp_def ob_length_def OPENSSL_memcmp_def memcmp_equal)

lemma strhash_cstring: "OPENSSL_strhash s = OPENSSL_hash32 (cstring s)"
  by (simp add: OPENSSL_strhash_def cstring_def)

interpretation nid_hash: lawful_hash hash_nid cmp_nid
  by unfold_locales (auto simp: hash_nid_def cmp_nid_def)

interpretation data_hash: lawful_hash hash_data OBJ_cmp
  by unfold_locales (auto simp: hash_data_def OBJ_cmp_equal)

interpretation short_name_hash: lawful_hash hash_short_name cmp_short_name
  by unfold_locales (auto simp: hash_short_name_def cmp_short_name_def strcmp_equal strhash_cstring)

interpretation long_name_hash: lawful_hash hash_long_name cmp_long_name
  by unfold_locales (auto simp: hash_long_name_def cmp_long_name_def strcmp_equal strhash_cstring)

definition table_ok :: "('a \<Rightarrow> u32) \<Rightarrow> ('a \<Rightarrow> 'a \<Rightarrow> int) \<Rightarrow> 'a lhash option \<Rightarrow> bool" where
  "table_ok h c t \<longleftrightarrow> (case t of None \<Rightarrow> True | Some lh \<Rightarrow> lh_ok h c lh)"

definition registry_ok :: "obj_state \<Rightarrow> bool" where
  "registry_ok st \<longleftrightarrow> table_ok hash_nid cmp_nid (global_added_by_nid st) \<and> table_ok hash_data OBJ_cmp (global_added_by_data st)
     \<and> table_ok hash_short_name cmp_short_name (global_added_by_short_name st)
     \<and> table_ok hash_long_name cmp_long_name (global_added_by_long_name st)"

context lawful_hash
begin

lemma insert_when_lookup:
  assumes "lh_ok h c lh" "insert_when al cond lh obj = (lh', ok)"
  shows "lh_ok h c lh' \<and> OPENSSL_lh_retrieve lh' k = (if cond \<and> ok \<and> c obj k = 0 then Some obj else OPENSSL_lh_retrieve lh k)"
  using assms dict.inv_ins [of lh al obj] dict.lookup_ins [of lh al obj k] unfolding insert_when_def lh_put_def
  by (auto split: if_splits)


lemma ensure_table_lookup:
  assumes "table_ok h c t" "ensure_table al h c t = Some lh"
  shows "lh_ok h c lh \<and> OPENSSL_lh_retrieve lh k = lookup_added t k"
proof (cases t)
  case None
  then have "lh_ok h c lh" "elements lh = {}" using assms(2) new_ok [of al h c lh] by (simp_all add: ensure_table_def)
  then show ?thesis using retrieve_iff [of lh k] None by (auto simp: lookup_added_def intro: option_eqI)
qed (use assms in \<open>simp add: ensure_table_def table_ok_def lookup_added_def\<close>)

lemma table_step:
  assumes "table_ok h c t" "ensure_table al h c t = Some lh" "insert_when al cond lh obj = (lh', ok)"
  shows "table_ok h c (Some lh') \<and> lookup_added (Some lh') k = (if cond \<and> ok \<and> c obj k = 0 then Some obj else lookup_added t k)"
  using insert_when_lookup [OF _ assms(3), of k] ensure_table_lookup [OF assms(1,2), of k] by (simp add: table_ok_def lookup_added_def)

lemma insert_succeeds:
  assumes "always_allocates al" "table_ok h c t"
  shows "\<exists>lh lh'. ensure_table al h c t = Some lh \<and> insert_when al cond lh obj = (lh', True)"
proof -
  obtain lh where lh: "ensure_table al h c t = Some lh" using lh_new_succeeds [OF assms(1), of h c] by (cases t) (auto simp: ensure_table_def)
  then have ok: "lh_ok h c lh" using ensure_table_lookup [OF assms(2)] by blast
  obtain b where m: "OPENSSL_malloc al 24 = Some b" by (rule OPENSSL_malloc_succeeds [OF assms(1), of 24]) simp_all
  obtain lh' old d where i: "OPENSSL_lh_insert al lh obj = (lh', old, d)" by (metis surj_pair)
  then have d using lh_insert_spec(3) [OF ok i] m by simp
  then show ?thesis using lh i by (auto simp: insert_when_def)
qed

end

text \<open>What a successful registration makes of the four tables.\<close>

definition added :: "asn1_object \<Rightarrow> asn1_object" where
  "added obj = obj\<lparr>ob_flags := ob_flags obj AND NOT (flag_dynamic OR flag_strings OR flag_data)\<rparr>"

lemma added_fields [simp]: "ob_sn (added o1) = ob_sn o1" "ob_ln (added o1) = ob_ln o1" "ob_nid (added o1) = ob_nid o1"
  "ob_data (added o1) = ob_data o1" "ob_bytes (added o1) = ob_bytes o1" "ob_length (added o1) = ob_length o1"
  by (simp_all add: added_def ob_length_def ob_bytes_def)

lemma obj_add_object_spec:
  assumes ok: "registry_ok st" and r: "obj_add_object al st obj = (True, st')"
  shows "registry_ok st'" "global_next_nid st' = global_next_nid st"
    "lookup_added (global_added_by_nid st') k =
      (if cmp_nid (added obj) k = 0 then Some (added obj) else lookup_added (global_added_by_nid st) k)"
    "lookup_added (global_added_by_data st') k =
      (if ob_length obj \<noteq> 0 \<and> OBJ_cmp (added obj) k = 0 then Some (added obj) else lookup_added (global_added_by_data st) k)"
    "lookup_added (global_added_by_short_name st') k =
      (if ob_sn obj \<noteq> None \<and> cmp_short_name (added obj) k = 0 then Some (added obj)
       else lookup_added (global_added_by_short_name st) k)"
    "lookup_added (global_added_by_long_name st') k =
      (if ob_ln obj \<noteq> None \<and> cmp_long_name (added obj) k = 0 then Some (added obj)
       else lookup_added (global_added_by_long_name st) k)"
proof -
  obtain t1 t2 t3 t4 where e: "ensure_table al hash_nid cmp_nid (global_added_by_nid st) = Some t1"
    "ensure_table al hash_data OBJ_cmp (global_added_by_data st) = Some t2"
    "ensure_table al hash_short_name cmp_short_name (global_added_by_short_name st) = Some t3"
    "ensure_table al hash_long_name cmp_long_name (global_added_by_long_name st) = Some t4"
    using r by (auto simp: obj_add_object_def Let_def split: option.splits)
  obtain u1 ok1 where i1: "insert_when al True t1 (added obj) = (u1, ok1)" by (metis surj_pair)
  obtain u2 ok2 where i2: "insert_when al (ob_length obj \<noteq> 0 \<and> ob_data obj \<noteq> None) t2 (added obj) = (u2, ok2)" by (metis surj_pair)
  obtain u3 ok3 where i3: "insert_when al (ob_sn obj \<noteq> None) t3 (added obj) = (u3, ok3)" by (metis surj_pair)
  obtain u4 ok4 where i4: "insert_when al (ob_ln obj \<noteq> None) t4 (added obj) = (u4, ok4)" by (metis surj_pair)
  have st': "ok1" "ok2" "ok3" "ok4" "global_added_by_nid st' = Some u1" "global_added_by_data st' = Some u2"
    "global_added_by_short_name st' = Some u3" "global_added_by_long_name st' = Some u4" "global_next_nid st' = global_next_nid st"
    using r i1 i2 i3 i4 unfolding obj_add_object_def Let_def added_def [symmetric] by (simp_all add: e) auto
  have len: "ob_length obj \<noteq> 0 \<and> ob_data obj \<noteq> None \<longleftrightarrow> ob_length obj \<noteq> 0" by (cases "ob_data obj") (auto simp: ob_length_def ob_bytes_def)
  have tabs: "table_ok hash_nid cmp_nid (global_added_by_nid st)" "table_ok hash_data OBJ_cmp (global_added_by_data st)"
    "table_ok hash_short_name cmp_short_name (global_added_by_short_name st)"
    "table_ok hash_long_name cmp_long_name (global_added_by_long_name st)"
    using ok by (simp_all add: registry_ok_def)
  note S = nid_hash.table_step [OF tabs(1) e(1) i1] data_hash.table_step [OF tabs(2) e(2) i2]
    short_name_hash.table_step [OF tabs(3) e(3) i3] long_name_hash.table_step [OF tabs(4) e(4) i4]
  show "registry_ok st'" using S st' by (simp add: registry_ok_def)
  show "global_next_nid st' = global_next_nid st" by (rule st'(9))
  show "lookup_added (global_added_by_nid st') k =
      (if cmp_nid (added obj) k = 0 then Some (added obj) else lookup_added (global_added_by_nid st) k)"
    using S(1) [of k] st' by simp
  show "lookup_added (global_added_by_data st') k =
      (if ob_length obj \<noteq> 0 \<and> OBJ_cmp (added obj) k = 0 then Some (added obj) else lookup_added (global_added_by_data st) k)"
    using S(2) [of k] st' unfolding len by simp
  show "lookup_added (global_added_by_short_name st') k =
      (if ob_sn obj \<noteq> None \<and> cmp_short_name (added obj) k = 0 then Some (added obj)
       else lookup_added (global_added_by_short_name st) k)"
    using S(3) [of k] st' by simp
  show "lookup_added (global_added_by_long_name st') k =
      (if ob_ln obj \<noteq> None \<and> cmp_long_name (added obj) k = 0 then Some (added obj)
       else lookup_added (global_added_by_long_name st) k)"
    using S(4) [of k] st' by simp
qed

section \<open>Creating objects\<close>

lemma create_builds:
  "create_object_with_text_oid al g oid sn ln st =
    (case build al 32 (\<lambda>p. CBB_add_asn1_oid_from_text al p (cstring oid)) of
       None \<Rightarrow> (None, st)
     | Some d \<Rightarrow> let (nid, st) = (case g of None \<Rightarrow> (NID_undef, st) | Some get \<Rightarrow> get st)
                in (ASN1_OBJECT_create al nid d sn ln, st))"
  by (simp add: create_object_with_text_oid_def build_def cstring_def split: option.splits prod.splits bool.splits)

lemma strdup_string: "OPENSSL_strdup al s = Some t \<Longrightarrow> t = cstring s @ [0]"
proof -
  assume "OPENSSL_strdup al s = Some t"
  moreover have "length (cstring s @ [0]) = strlen s + 1" by (simp add: cstring_def strlen_def length_takeWhile_le)
  ultimately show ?thesis using OPENSSL_memdup_data unfolding OPENSSL_strdup_def cstring_def by blast
qed

lemma cstring_strlen: "cstring s = takeWhile (\<lambda>c. c \<noteq> 0) s"
  by (simp add: cstring_def strlen_def takeWhile_eq_take [symmetric])

lemma cstring_dup [simp]: "cstring (cstring s @ [0]) = cstring s"
  by (induction s) auto

text \<open>The fields of a created object: copies, with the strings up to their zero bytes.\<close>

lemma ASN1_OBJECT_create_fields:
  assumes "ASN1_OBJECT_create al nid d sn ln = Some o1"
  shows "ob_nid o1 = nid" "ob_bytes o1 = d" "ob_sn o1 = map_option (\<lambda>s. cstring s @ [0]) sn" "ob_ln o1 = map_option (\<lambda>s. cstring s @ [0]) ln"
proof -
  have dup: "dup_string al s = Some t \<Longrightarrow> t = map_option (\<lambda>s. cstring s @ [0]) s" for s t
    by (auto simp: dup_string_def dest: strdup_string split: option.splits)
  have mem: "length d \<noteq> 0 \<and> OPENSSL_memdup al d (length d) = None \<or> ob_bytes (r\<lparr>ob_sn := a, ob_ln := b, ob_nid := nid,
      ob_data := OPENSSL_memdup al d (length d), ob_flags := f\<rparr>) = d" for r a b f
  proof (cases "OPENSSL_memdup al d (length d)")
    case (Some x)
    then show ?thesis using OPENSSL_memdup_data [OF Some refl] by (simp add: ob_bytes_def)
  qed (simp add: ob_bytes_def)
  show "ob_nid o1 = nid" "ob_bytes o1 = d" "ob_sn o1 = map_option (\<lambda>s. cstring s @ [0]) sn" "ob_ln o1 = map_option (\<lambda>s. cstring s @ [0]) ln"
    using assms mem unfolding ASN1_OBJECT_create_def OBJ_dup_def
    by (auto simp: Let_def ob_length_def ob_bytes_def flag_dynamic_def flag_strings_def flag_data_def dest!: dup
        split: if_splits option.splits)
qed



text \<open>What a builder with one operation gives, when it gives anything: also where allocations may fail.\<close>

lemma init_state:
  assumes "CBB_init al p cap = Some st" "cap \<le> 2 ^ 62" "0 < cap"
  shows "cbb_wf st" "cbb_root st = p" "cbb_chain st = []" "cbb_written st = []"
proof -
  from assms(1,3) obtain b where b: "OPENSSL_malloc al cap = Some b" "st = cbb_init p b True"
    by (auto simp: CBB_init_def split: option.splits)
  then show "cbb_wf st" "cbb_root st = p" "cbb_chain st = []" "cbb_written st = []"
    using OPENSSL_malloc_length [OF b(1)] assms(2)
    by (simp_all add: cbb_init_def cbb_wf_def buf_ok_def written_def)
qed

lemma build_sound:
  assumes "build al cap m = Some e" "grows al 0 d (m 0)" "cap \<le> 2 ^ 62" "0 < cap"
  shows "e = d"
proof -
  obtain st st1 st2 buf len where b: "CBB_init al 0 cap = Some st" "m 0 st = (True, st1)" "CBB_finish al 0 st1 = (Some (buf, len), st2)"
    "e = take len buf"
    using assms(1) by (auto simp: build_def split: option.splits prod.splits bool.splits)
  note I = init_state [OF b(1) assms(3,4)]
  have "cbb_locate 0 st = Some ([], [])" by (simp add: cbb_locate_def I)
  moreover have "appends_at st 0 d (True, st1)" using assms(2) I(1) b(2) unfolding grows_def appends_iff by metis
  ultimately have "cbb_wf st1" "cbb_chain st1 = []" "cbb_written st1 = d" using I by (simp_all add: appends_at_def)
  then show "e = d" using finish_result(2) [OF _ b(3)] b(4) by simp
qed

lemma build_oid_sound:
  assumes "build al 32 (\<lambda>p. CBB_add_asn1_oid_from_text al p s) = Some d"
  obtains arcs where "oid_ok arcs" "s = oid_text arcs" "d = oid_der arcs"
proof -
  obtain st st1 where "CBB_add_asn1_oid_from_text al 0 s st = (True, st1)"
    using assms by (auto simp: build_def split: option.splits prod.splits bool.splits)
  then obtain arcs where a: "oid_ok arcs" "s = oid_text arcs" using oid_from_text_sound by blast
  have "d = oid_der arcs"
    by (rule build_sound [OF assms]) (use oid_from_text_grows [OF a(1)] a(2) in simp_all)
  with a show thesis using that by blast
qed

lemma OBJ_create_cases:
  assumes "OBJ_create al st oid sn ln = (n, st')" "n \<noteq> NID_undef"
  obtains o1 arcs where "obj_add_object al (snd (obj_next_nid st)) o1 = (True, st')" "n = sint (global_next_nid st)"
    "ob_nid o1 = n" "ob_bytes o1 = oid_der arcs" "oid_ok arcs" "cstring oid = oid_text arcs"
    "ob_sn o1 = map_option (\<lambda>s. cstring s @ [0]) sn" "ob_ln o1 = map_option (\<lambda>s. cstring s @ [0]) ln"
proof -
  obtain d o1 where d: "build al 32 (\<lambda>p. CBB_add_asn1_oid_from_text al p (cstring oid)) = Some d"
    and o1: "ASN1_OBJECT_create al (sint (global_next_nid st)) d sn ln = Some o1"
    and a: "obj_add_object al (snd (obj_next_nid st)) o1 = (True, st')" "n = ob_nid o1"
    using assms by (auto simp: OBJ_create_def create_builds obj_next_nid_def Let_def split: option.splits prod.splits bool.splits)
  from d obtain arcs where arcs: "oid_ok arcs" "cstring oid = oid_text arcs" "d = oid_der arcs" by (rule build_oid_sound)
  note F = ASN1_OBJECT_create_fields [OF o1]
  show thesis by (rule that [OF a(1)]) (use F arcs a(2) in simp_all)
qed

lemma strlen_le: "strlen s \<le> length s"
  by (simp add: strlen_def length_takeWhile_le)

lemma cstring_text: "0 \<notin> set s \<Longrightarrow> cstring (s @ [0]) = s"
  by (induction s) auto

lemma decimal_no_zero: "0 \<notin> set (decimal n)"
proof (induction n rule: decimal.induct)
  case (1 n)
  have z: "(0 :: u8) \<noteq> word_of_nat (48 + k)" if "k < 10" for k
    using unat_digit [OF that] by (metis add_is_0 unat_0 zero_neq_numeral)
  show ?case
  proof (cases "n < 10")
    case True
    then show ?thesis using z [OF True] by (simp add: decimal_small)
  next
    case False
    then show ?thesis using 1 z [of "n mod 10"] by (simp add: decimal_step)
  qed
qed

lemma dotted_no_zero: "0 \<notin> set (dotted cs)"
  by (induction cs) (simp_all add: decimal_no_zero)

lemma oid_text_no_zero: "0 \<notin> set (oid_text arcs)"
  by (cases arcs rule: oid_text.cases) (simp_all add: decimal_no_zero dotted_no_zero)

lemma small_memdup:
  assumes "always_allocates al" "n \<le> INT_MAX + 1" "n \<noteq> 0"
  shows "OPENSSL_memdup al d n \<noteq> None"
proof -
  have "n \<le> 2147483648" using assms(2) by (simp add: INT_MAX_def)
  then have "n + 8 < 2 ^ 64" by simp
  then obtain b where "OPENSSL_malloc al n = Some b" using assms(1) by (metis OPENSSL_malloc_succeeds)
  then show ?thesis using assms(3) by (simp add: OPENSSL_memdup_def)
qed

lemma dup_string_succeeds:
  assumes "always_allocates al" "pred_option (\<lambda>t. length t \<le> INT_MAX) s"
  shows "dup_string al s \<noteq> None"
proof (cases s)
  case (Some t)
  then have "strlen t + 1 \<le> INT_MAX + 1" using assms(2) strlen_le [of t] by simp
  then show ?thesis using small_memdup [OF assms(1), of "strlen t + 1"] Some by (simp add: dup_string_def OPENSSL_strdup_def)
qed (simp add: dup_string_def)

lemma ASN1_OBJECT_create_succeeds:
  assumes "always_allocates al" "length d \<le> INT_MAX" "pred_option (\<lambda>t. length t \<le> INT_MAX) sn" "pred_option (\<lambda>t. length t \<le> INT_MAX) ln"
  shows "\<exists>o1. ASN1_OBJECT_create al nid d sn ln = Some o1"
proof -
  obtain b where "OPENSSL_malloc al 40 = Some b" by (rule OPENSSL_malloc_succeeds [OF assms(1), of 40]) simp_all
  moreover have "d \<noteq> [] \<longrightarrow> OPENSSL_memdup al d (length d) \<noteq> None"
    using small_memdup [OF assms(1), of "length d" d] assms(2) by simp
  moreover obtain s' l' where "dup_string al sn = Some s'" "dup_string al ln = Some l'"
    using dup_string_succeeds [OF assms(1,3)] dup_string_succeeds [OF assms(1,4)] by blast
  ultimately show ?thesis using assms(2)
    by (auto simp: ASN1_OBJECT_create_def OBJ_dup_def ASN1_OBJECT_new_def Let_def ob_length_def ob_bytes_def not_less)
qed

lemma obj_add_object_succeeds:
  assumes "always_allocates al" "registry_ok st"
  shows "\<exists>st'. obj_add_object al st obj = (True, st')"
proof -
  have t: "table_ok hash_nid cmp_nid (global_added_by_nid st)" "table_ok hash_data OBJ_cmp (global_added_by_data st)"
    "table_ok hash_short_name cmp_short_name (global_added_by_short_name st)" "table_ok hash_long_name cmp_long_name (global_added_by_long_name st)"
    using assms(2) by (simp_all add: registry_ok_def)
  obtain t1 u1 where 1: "ensure_table al hash_nid cmp_nid (global_added_by_nid st) = Some t1" "insert_when al True t1 (added obj) = (u1, True)"
    using nid_hash.insert_succeeds [OF assms(1) t(1)] by blast
  obtain t2 u2 where 2: "ensure_table al hash_data OBJ_cmp (global_added_by_data st) = Some t2"
    "insert_when al (ob_length obj \<noteq> 0 \<and> ob_data obj \<noteq> None) t2 (added obj) = (u2, True)"
    using data_hash.insert_succeeds [OF assms(1) t(2)] by blast
  obtain t3 u3 where 3: "ensure_table al hash_short_name cmp_short_name (global_added_by_short_name st) = Some t3"
    "insert_when al (ob_sn obj \<noteq> None) t3 (added obj) = (u3, True)"
    using short_name_hash.insert_succeeds [OF assms(1) t(3)] by blast
  obtain t4 u4 where 4: "ensure_table al hash_long_name cmp_long_name (global_added_by_long_name st) = Some t4"
    "insert_when al (ob_ln obj \<noteq> None) t4 (added obj) = (u4, True)"
    using long_name_hash.insert_succeeds [OF assms(1) t(4)] by blast
  show ?thesis unfolding obj_add_object_def Let_def added_def [symmetric] using 1 2 3 4 by simp
qed

lemma OBJ_create_succeeds:
  assumes "always_allocates al" "registry_ok st" "oid_ok arcs" "cstring oid = oid_text arcs" "length (oid_der arcs) \<le> INT_MAX"
    "pred_option (\<lambda>t. length t \<le> INT_MAX) sn" "pred_option (\<lambda>t. length t \<le> INT_MAX) ln"
  shows "\<exists>st'. OBJ_create al st oid sn ln = (sint (global_next_nid st), st')"
proof -
  have b: "build al 32 (\<lambda>p. CBB_add_asn1_oid_from_text al p (oid_text arcs)) = Some (oid_der arcs)"
    by (rule build_grows) (use assms oid_from_text_grows in \<open>simp_all add: INT_MAX_def\<close>)
  obtain o1 where o1: "ASN1_OBJECT_create al (sint (global_next_nid st)) (oid_der arcs) sn ln = Some o1"
    using ASN1_OBJECT_create_succeeds [OF assms(1,5,6,7)] by blast
  have "registry_ok (snd (obj_next_nid st))" using assms(2) by (simp add: registry_ok_def obj_next_nid_def)
  with assms(1) obtain st' where "obj_add_object al (snd (obj_next_nid st)) o1 = (True, st')" using obj_add_object_succeeds by blast
  then show ?thesis using b o1 ASN1_OBJECT_create_fields(1) [OF o1] assms(4)
    by (simp add: OBJ_create_def create_builds obj_next_nid_def)
qed

lemma oid_der_nonempty: "oid_ok arcs \<Longrightarrow> oid_der arcs \<noteq> []"
  by (cases arcs rule: oid_ok.cases) simp_all

definition empty_registry :: obj_state where
  "empty_registry = \<lparr>global_next_nid = 966, global_added_by_data = None, global_added_by_nid = None,
     global_added_by_short_name = None, global_added_by_long_name = None\<rparr>"

section \<open>Properties\<close>

text \<open>
  Claim C33.  When \<open>OBJ_create\<close> succeeds, the nid that it returns is the next one, and all the ways to look
  an object up know the new object: its short name, its long name and its DER contents give the
  nid, and the nid, when it is not one of the built-in ones, gives an object with those names and contents.
  Whatever else is looked up, by any other name, contents or nid, built-in or registered before,
  is found as before.
\<close>

theorem create_registers:
  assumes "registry_ok st" "OBJ_create al st oid (Some sn) (Some ln) = (n, st')" "n \<noteq> NID_undef"
  shows "registry_ok st' \<and> n = sint (global_next_nid st)
    \<and> OBJ_sn2nid tb st' s = (if cstring s = cstring sn then Some n else OBJ_sn2nid tb st s)
    \<and> OBJ_ln2nid tb st' s = (if cstring s = cstring ln then Some n else OBJ_ln2nid tb st s)
    \<and> (\<exists>arcs. oid_ok arcs \<and> cstring oid = oid_text arcs
        \<and> OBJ_cbs2nid tb st' d = (if length d \<le> INT_MAX \<and> d = oid_der arcs then Some n else OBJ_cbs2nid tb st d)
        \<and> (NUM_NID \<le> n \<or> n < 0 \<longrightarrow> OBJ_nid2sn tb st' n = Some (cstring sn @ [0]) \<and> OBJ_nid2ln tb st' n = Some (cstring ln @ [0])
            \<and> (\<exists>o1. OBJ_nid2obj tb st' n = Some o1 \<and> ob_nid o1 = n \<and> ob_bytes o1 = oid_der arcs)))
    \<and> (m \<noteq> n \<longrightarrow> OBJ_nid2obj tb st' m = OBJ_nid2obj tb st m
        \<and> OBJ_nid2sn tb st' m = OBJ_nid2sn tb st m \<and> OBJ_nid2ln tb st' m = OBJ_nid2ln tb st m)"
proof -
  obtain o1 arcs where o1: "obj_add_object al (snd (obj_next_nid st)) o1 = (True, st')" "n = sint (global_next_nid st)"
    "ob_nid o1 = n" "ob_bytes o1 = oid_der arcs" "oid_ok arcs" "cstring oid = oid_text arcs"
    "ob_sn o1 = Some (cstring sn @ [0])" "ob_ln o1 = Some (cstring ln @ [0])"
    by (rule OBJ_create_cases [OF assms(2,3)]) auto
  have "registry_ok (snd (obj_next_nid st))" using assms(1) by (simp add: registry_ok_def obj_next_nid_def)
  note A = obj_add_object_spec [OF this o1(1)]
  have same: "global_added_by_nid (snd (obj_next_nid st)) = global_added_by_nid st"
    "global_added_by_data (snd (obj_next_nid st)) = global_added_by_data st"
    "global_added_by_short_name (snd (obj_next_nid st)) = global_added_by_short_name st"
    "global_added_by_long_name (snd (obj_next_nid st)) = global_added_by_long_name st"
    by (simp_all add: obj_next_nid_def)
  have ne: "ob_length o1 \<noteq> 0" using o1(4,5) oid_der_nonempty by (simp add: ob_length_def)
  have sn: "OBJ_sn2nid tb st' s = (if cstring s = cstring sn then Some n else OBJ_sn2nid tb st s)"
    using A(5) [of "no_object\<lparr>ob_sn := Some s\<rparr>"] o1(3,7)
    by (auto simp: OBJ_sn2nid_def same cmp_short_name_def strcmp_equal ob_str_def)
  have ln: "OBJ_ln2nid tb st' s = (if cstring s = cstring ln then Some n else OBJ_ln2nid tb st s)"
    using A(6) [of "no_object\<lparr>ob_ln := Some s\<rparr>"] o1(3,8)
    by (auto simp: OBJ_ln2nid_def same cmp_long_name_def strcmp_equal ob_str_def)
  have dt: "OBJ_cbs2nid tb st' d = (if length d \<le> INT_MAX \<and> d = oid_der arcs then Some n else OBJ_cbs2nid tb st d)"
  proof -
    have k: "ob_bytes (no_object\<lparr>ob_data := Some d\<rparr>) = d" "ob_nid no_object = 0"
      by (simp_all add: ob_bytes_def no_object_def)
    have "lookup_added (global_added_by_data st') (no_object\<lparr>ob_data := Some d\<rparr>) =
      (if oid_der arcs = d then Some (added o1) else lookup_added (global_added_by_data st) (no_object\<lparr>ob_data := Some d\<rparr>))"
      using A(4) [of "no_object\<lparr>ob_data := Some d\<rparr>"] o1(4) ne by (simp add: same OBJ_cmp_equal k)
    then show ?thesis by (auto simp: OBJ_cbs2nid_def OBJ_obj2nid_def k o1(3) not_less)
  qed
  have nid: "OBJ_nid2obj tb st' n = Some (added o1)" if "NUM_NID \<le> n \<or> n < 0"
    using A(3) [of "no_object\<lparr>ob_nid := n\<rparr>"] o1(3) that assms(3)
    by (auto simp: OBJ_nid2obj_def cmp_nid_def NUM_NID_def)
  have other: "OBJ_nid2obj tb st' m = OBJ_nid2obj tb st m" if "m \<noteq> n"
    using A(3) [of "no_object\<lparr>ob_nid := m\<rparr>"] o1(3) that same(1) by (auto simp: OBJ_nid2obj_def cmp_nid_def)
  show ?thesis using A(1) o1(2-8) sn ln dt nid other by (auto simp: OBJ_nid2sn_def OBJ_nid2ln_def)
qed

theorem create_registers_witness:
  "\<exists>st'. OBJ_create (\<lambda>_. Some (\<lambda>_. 0)) empty_registry [0x31, 0x2e, 0x32, 0x2e, 0x33, 0] (Some [65, 0]) (Some [66, 0]) = (966, st')
     \<and> OBJ_sn2nid (obj_tables.make [] [] [] []) st' [65, 0] = Some 966
     \<and> OBJ_nid2ln (obj_tables.make [] [] [] []) st' 966 = Some [66, 0]"
proof -
  have t: "oid_text [1, 2, 3] = [0x31, 0x2e, 0x32, 0x2e, 0x33]" by (simp add: decimal_small)
  have l: "length (oid_der [1, 2, 3]) = 2" by (simp add: base128_bytes_def)
  have al: "always_allocates (\<lambda>_. Some (\<lambda>_. 0))" by (simp add: always_allocates_def)
  have ok: "registry_ok empty_registry" by (simp add: registry_ok_def empty_registry_def table_ok_def)
  have n: "sint (global_next_nid empty_registry) = 966" by (simp add: empty_registry_def)
  have c: "cstring [0x31, 0x2e, 0x32, 0x2e, 0x33, 0] = oid_text [1, 2, 3]" unfolding t by simp
  obtain st' where r: "OBJ_create (\<lambda>_. Some (\<lambda>_. 0)) empty_registry [0x31, 0x2e, 0x32, 0x2e, 0x33, 0] (Some [65, 0]) (Some [66, 0]) = (966, st')"
    using OBJ_create_succeeds [OF al ok _ c, of "Some [65, 0]" "Some [66, 0]"] unfolding n l by (auto simp: INT_MAX_def)
  show ?thesis
    using create_registers [OF ok r, of "obj_tables.make [] [] [] []" "[65, 0]" "[]" 0] r by (auto simp: NID_undef_def NUM_NID_def)
qed

text \<open>
  Claim C34.  An identifier in dotted decimal text is turned into an object with its DER contents by
  \<open>OBJ_txt2obj\<close>, and \<open>OBJ_obj2txt\<close> writes that text back: all of it, with the terminating zero,
  when it fits in the buffer, its first bytes otherwise, and the full length as the result.
\<close>

theorem text_object_text:
  assumes "always_allocates al" "oid_ok arcs" "length (oid_der arcs) \<le> INT_MAX" "length (oid_text arcs) \<le> INT_MAX"
    "length out = n" "0 < n"
  shows "\<exists>o1. OBJ_txt2obj al tb st (oid_text arcs @ [0]) True = Some (Some o1) \<and> ob_bytes o1 = oid_der arcs
    \<and> OBJ_obj2txt al tb st out (int n) (Some o1) True =
        Some (let k = min (length (oid_text arcs)) (n - 1) in take k (oid_text arcs) @ [0] @ drop (Suc k) out, int (length (oid_text arcs)))"
proof -
  have nz: "cstring (oid_text arcs @ [0]) = oid_text arcs" by (rule cstring_text) (rule oid_text_no_zero)
  have b: "build al 32 (\<lambda>p. CBB_add_asn1_oid_from_text al p (oid_text arcs)) = Some (oid_der arcs)"
    by (rule build_grows) (use assms oid_from_text_grows in \<open>simp_all add: INT_MAX_def\<close>)
  obtain o1 where o1: "ASN1_OBJECT_create al NID_undef (oid_der arcs) None None = Some o1"
    using ASN1_OBJECT_create_succeeds [OF assms(1,3), where sn = None and ln = None] by auto
  have ob: "ob_bytes o1 = oid_der arcs" by (rule ASN1_OBJECT_create_fields(2) [OF o1])
  have t: "CBS_asn1_oid_to_text al (oid_der arcs) = Some (oid_text arcs @ [0])"
    unfolding oid_to_text_build by (rule build_grows) (use assms oid_text_body_grows in \<open>simp_all add: INT_MAX_def\<close>)
  have sl: "strlen (oid_text arcs @ [0]) = length (oid_text arcs)" 
    using nz by (metis cstring_def length_take min.absorb2 strlen_le)
  have "OPENSSL_strlcpy out (oid_text arcs @ [0]) n =
    (let k = min (length (oid_text arcs)) (n - 1) in take k (oid_text arcs) @ [0] @ drop (Suc k) out, length (oid_text arcs))"
    using strlcpy_buffer [OF assms(5,6), of "oid_text arcs @ [0]"] strlcpy_result [of out "oid_text arcs @ [0]" n] sl
    by (simp add: prod_eq_iff Let_def)
  then have "strlcpy_int out (oid_text arcs @ [0]) (int n) =
    (let k = min (length (oid_text arcs)) (n - 1) in take k (oid_text arcs) @ [0] @ drop (Suc k) out, int (length (oid_text arcs)))"
    using assms(4) by (simp add: strlcpy_int_def)
  then show ?thesis
    using oid_der_nonempty [OF assms(2)] o1 ob t
    by (simp add: OBJ_txt2obj_def create_builds nz b OBJ_obj2txt_def ob_length_def)
qed

theorem text_object_text_witness:
  "\<exists>o1. OBJ_txt2obj (\<lambda>_. Some (\<lambda>_. 0)) (obj_tables.make [] [] [] []) empty_registry [0x31, 0x2e, 0x32, 0x2e, 0x33, 0] True = Some (Some o1)
     \<and> OBJ_obj2txt (\<lambda>_. Some (\<lambda>_. 0)) (obj_tables.make [] [] [] []) empty_registry [9, 9, 9, 9] 4 (Some o1) True = Some ([0x31, 0x2e, 0x32, 0], 5)"
proof -
  have t: "oid_text [1, 2, 3] = [0x31, 0x2e, 0x32, 0x2e, 0x33]" by (simp add: decimal_small)
  have l: "length (oid_der [1, 2, 3]) = 2" by (simp add: base128_bytes_def)
  have al: "always_allocates (\<lambda>_. Some (\<lambda>_. 0))" by (simp add: always_allocates_def)
  show ?thesis
    using text_object_text [OF al, of "[1, 2, 3]" "[9, 9, 9, 9]" 4 "obj_tables.make [] [] [] []" empty_registry]
    unfolding t l by (auto simp: INT_MAX_def)
qed

end
