(* ===== verification/Ber.thy ===== *)
theory Ber imports Der begin

unbundle bit_operations_syntax

text \<open>
  \<open>crypto/bytestring/ber.c\<close>: the conversion of BER to DER.  Indefinite lengths and constructed strings
  are replaced; what the conversion writes has none of them left, and a walk over it finds nothing
  to convert.
\<close>

section \<open>Definitions\<close>

definition kMaxDepth :: nat where "kMaxDepth = 128"

abbreviation constructed :: "u32 \<Rightarrow> bool" where
  "constructed t \<equiv> t AND CBS_ASN1_CONSTRUCTED \<noteq> 0"

definition is_string_type :: "u32 \<Rightarrow> bool" where
  "is_string_type tag \<longleftrightarrow> tag AND NOT CBS_ASN1_CONSTRUCTED \<in>
     {CBS_ASN1_OCTETSTRING, 0xc, 0x12, 0x13, 0x14, 0x15, 0x16, 0x19, 0x1a, 0x1b, 0x1c, 0x1e}"

text \<open>None is the error; otherwise whether something to convert was found.\<close>

function cbs_find_ber :: "nat \<Rightarrow> bytes \<Rightarrow> bool option" where
  "cbs_find_ber depth inp =
     (if kMaxDepth < depth then None
      else if inp = [] then Some False
      else case CBS_get_any_ber_asn1_element inp of (None, _) \<Rightarrow> None
      | (Some e, rest) \<Rightarrow>
          if el_ber_found e then Some True
          else if constructed (el_tag e) then
            if is_string_type (el_tag e) then Some True
            else (case CBS_skip (el_header_len e) (el_bytes e) of (None, _) \<Rightarrow> None
                  | (Some _, contents) \<Rightarrow>
                      (case cbs_find_ber (Suc depth) contents of None \<Rightarrow> None
                       | Some True \<Rightarrow> Some True
                       | Some False \<Rightarrow> cbs_find_ber depth rest))
          else cbs_find_ber depth rest)"
  by pat_completeness auto
termination
  by (relation "measures [\<lambda>(d, _). Suc kMaxDepth - d, \<lambda>(_, c). length c]")
    (auto simp: CBS_get_any_ber_asn1_element_def dest!: any_element_split [OF sym])

declare cbs_find_ber.simps [simp del]

definition cbs_get_eoc :: "unit reader" where
  "cbs_get_eoc cbs = (if 2 \<le> length cbs \<and> cbs ! 0 = 0 \<and> cbs ! 1 = 0 then CBS_skip 2 cbs else (None, cbs))"

text \<open>
  An element of the input: the tag to write (a constructed string becomes primitive), the tag that its
  children have to match, and the object that takes its contents, opened unless the element is a
  fragment of a string.
\<close>

definition from_string :: "u32 \<Rightarrow> u32 \<Rightarrow> bool" where
  "from_string string_tag tag \<longleftrightarrow> string_tag = 0 \<and> constructed tag \<and> is_string_type tag"

definition ber_out_tag :: "u32 \<Rightarrow> u32 \<Rightarrow> u32" where
  "ber_out_tag string_tag tag = (if from_string string_tag tag then tag AND NOT CBS_ASN1_CONSTRUCTED else tag)"

definition child_string_tag :: "u32 \<Rightarrow> u32 \<Rightarrow> u32" where
  "child_string_tag string_tag tag = (if from_string string_tag tag then ber_out_tag string_tag tag else string_tag)"

definition ber_open :: "allocator \<Rightarrow> cbb_ptr \<Rightarrow> u32 \<Rightarrow> u32 \<Rightarrow> cbb \<Rightarrow> cbb_ptr \<times> bool \<times> cbb" where
  "ber_open al out string_tag tag st =
     (if string_tag \<noteq> 0 then (out, True, st)
      else (cbb_local st, CBB_add_asn1 al out (cbb_local st) (ber_out_tag string_tag tag) st))"

text \<open>The contents of an element: the rest of the input up to its end, its children, or as they are.\<close>

definition ber_fill :: "(bytes \<Rightarrow> cbb_ptr \<Rightarrow> u32 \<Rightarrow> bool \<Rightarrow> nat \<Rightarrow> cbb \<Rightarrow> (bool \<times> bytes \<times> cbb) option) \<Rightarrow> allocator
    \<Rightarrow> asn1_element \<Rightarrow> bytes \<Rightarrow> cbb_ptr \<Rightarrow> u32 \<Rightarrow> nat \<Rightarrow> cbb \<Rightarrow> (bool \<times> bytes \<times> cbb) option" where
  "ber_fill convert al e rest out_contents string_tag depth st =
     (if el_indefinite e then convert rest out_contents string_tag True depth st
      else case CBS_skip (el_header_len e) (el_bytes e) of (None, _) \<Rightarrow> Some (False, rest, st)
      | (Some _, contents) \<Rightarrow>
          if constructed (el_tag e) then
            (case convert contents out_contents string_tag False depth st of
               None \<Rightarrow> None | Some (ok, _, st) \<Rightarrow> Some (ok, rest, st))
          else (case CBB_add_bytes al out_contents contents st of (ok, st) \<Rightarrow> Some (ok, rest, st)))"

text \<open>
  The loop of \<open>cbs_convert_ber\<close> and its recursion, with fuel: every call has consumed input, so the
  length of the input and one more is enough (\<open>convert_enough\<close>).  The result is none without fuel,
  and else success, the input that is left and the builder.
\<close>

fun cbs_convert_ber :: "nat \<Rightarrow> allocator \<Rightarrow> bytes \<Rightarrow> cbb_ptr \<Rightarrow> u32 \<Rightarrow> bool \<Rightarrow> nat \<Rightarrow> cbb \<Rightarrow> (bool \<times> bytes \<times> cbb) option" where
  "cbs_convert_ber 0 al inp out string_tag looking_for_eoc depth st = None"
| "cbs_convert_ber (Suc fuel) al inp out string_tag looking_for_eoc depth st =
     (if kMaxDepth < depth then Some (False, inp, st)
      else if inp = [] then Some (\<not> looking_for_eoc, inp, st)
      else if looking_for_eoc \<and> fst (cbs_get_eoc inp) \<noteq> None then Some (True, snd (cbs_get_eoc inp), st)
      else case CBS_get_any_ber_asn1_element inp of (None, rest) \<Rightarrow> Some (False, rest, st)
      | (Some e, rest) \<Rightarrow>
          if string_tag \<noteq> 0 \<and> el_tag e AND NOT CBS_ASN1_CONSTRUCTED \<noteq> string_tag then Some (False, rest, st)
          else (case ber_open al out string_tag (el_tag e) st of
            (_, False, st1) \<Rightarrow> Some (False, rest, st1)
          | (out_contents, True, st1) \<Rightarrow>
              (case ber_fill (cbs_convert_ber fuel al) al e rest out_contents (child_string_tag string_tag (el_tag e)) (Suc depth) st1 of
                 None \<Rightarrow> None
               | Some (False, rest, st2) \<Rightarrow> Some (False, rest, st2)
               | Some (True, rest, st2) \<Rightarrow>
                   (case CBB_flush al out st2 of
                      (False, st3) \<Rightarrow> Some (False, rest, st3)
                    | (True, st3) \<Rightarrow> cbs_convert_ber fuel al rest out string_tag looking_for_eoc depth st3))))"

declare cbs_convert_ber.simps(2) [simp del]

text \<open>The result is \<open>out\<close> and \<open>*out_storage\<close>.\<close>

definition CBS_asn1_ber_to_der :: "allocator \<Rightarrow> (bytes \<times> bytes option) reader" where
  "CBS_asn1_ber_to_der al inp =
     (case cbs_find_ber 0 inp of None \<Rightarrow> (None, inp)
      | Some False \<Rightarrow>
          (case CBS_get_any_asn1_element inp of (None, r) \<Rightarrow> (None, r) | (Some e, r) \<Rightarrow> (Some (el_bytes e, None), r))
      | Some True \<Rightarrow>
          (case CBB_init al 0 (length inp) of None \<Rightarrow> (None, inp)
           | Some cb \<Rightarrow>
               (case cbs_convert_ber (Suc (length inp)) al inp 0 0 False 0 cb of
                  None \<Rightarrow> (None, inp)
                | Some (False, r, _) \<Rightarrow> (None, r)
                | Some (True, r, cb) \<Rightarrow>
                    (case CBB_finish al 0 cb of (None, _) \<Rightarrow> (None, r)
                     | (Some (buf, len), _) \<Rightarrow> (Some (take len buf, Some buf), r)))))"

text \<open>The loop over the chunks of a constructed string; the fuel is the length of its contents.\<close>

fun implicit_string_loop :: "nat \<Rightarrow> allocator \<Rightarrow> u32 \<Rightarrow> bytes \<Rightarrow> cbb \<Rightarrow> bool \<times> cbb" where
  "implicit_string_loop fuel al inner_tag [] st = (True, st)"
| "implicit_string_loop 0 al inner_tag (b # child) st = (False, st)"
| "implicit_string_loop (Suc fuel) al inner_tag (b # child) st =
     (case CBS_get_asn1 inner_tag (b # child) of (None, _) \<Rightarrow> (False, st)
      | (Some chunk, child) \<Rightarrow> cbb_and (CBB_add_bytes al 0 chunk) (implicit_string_loop fuel al inner_tag child) st)"

definition CBS_get_asn1_implicit_string :: "allocator \<Rightarrow> u32 \<Rightarrow> u32 \<Rightarrow> (bytes \<times> bytes option) reader" where
  "CBS_get_asn1_implicit_string al outer_tag inner_tag inp =
     (if CBS_peek_asn1_tag inp outer_tag then
        (case CBS_get_asn1 outer_tag inp of (None, r) \<Rightarrow> (None, r) | (Some out, r) \<Rightarrow> (Some (out, None), r))
      else case CBB_init al 0 (length inp) of None \<Rightarrow> (None, inp)
      | Some cb \<Rightarrow>
          (case CBS_get_asn1 (outer_tag OR CBS_ASN1_CONSTRUCTED) inp of (None, r) \<Rightarrow> (None, r)
           | (Some child, r) \<Rightarrow>
               (case implicit_string_loop (length child) al inner_tag child cb of (False, _) \<Rightarrow> (None, r)
                | (True, cb) \<Rightarrow>
                    (case CBB_finish al 0 cb of (None, _) \<Rightarrow> (None, r)
                     | (Some (data, len), _) \<Rightarrow> (Some (take len data, Some data), r)))))"

section \<open>Termination\<close>

lemma ber_element_split: "CBS_get_any_ber_asn1_element c = (Some e, r) \<Longrightarrow> c = el_bytes e @ r \<and> el_bytes e \<noteq> []"
  unfolding CBS_get_any_ber_asn1_element_def by (rule any_element_split)

lemma ber_element_None: "CBS_get_any_ber_asn1_element c = (None, r) \<Longrightarrow> r = c"
  unfolding CBS_get_any_ber_asn1_element_def by (rule any_element_None)

lemma skip_shorter: "CBS_skip n c = (Some u, r) \<Longrightarrow> length r \<le> length c"
  by (auto simp: CBS_skip_def rbind_def cbs_get_def rret_def split: if_splits)

lemma eoc_shorter: "length (snd (cbs_get_eoc c)) \<le> length c"
  by (auto simp: cbs_get_eoc_def CBS_skip_def rbind_def cbs_get_def rret_def rfail_def split: if_splits)

lemma ber_contents:
  assumes "CBS_get_any_ber_asn1_element inp = (Some e, r)" "CBS_skip (el_header_len e) (el_bytes e) = (Some u, c)"
  shows "c = asn1_contents e" "length c < length (el_bytes e)"
proof -
  show c: "c = asn1_contents e" using assms(2) by (auto simp: CBS_skip_def rbind_ret_Some_iff cbs_get_def asn1_contents_def split: if_splits)
  have "0 < el_header_len e" "el_bytes e \<noteq> []"
    using assms(1) unfolding CBS_get_any_ber_asn1_element_def by (auto elim!: any_element_sound)
  then show "length c < length (el_bytes e)" by (simp add: c asn1_contents_def)
qed

lemma fill_enough:
  assumes e: "CBS_get_any_ber_asn1_element inp = (Some e, rest)"
    and convert: "\<And>c p t eoc d st. length c < fuel \<Longrightarrow> \<exists>ok r st'. convert c p t eoc d st = Some (ok, r, st') \<and> length r \<le> length c"
    and short: "length rest < fuel" "length (el_bytes e) \<le> fuel"
  shows "\<exists>ok r st'. ber_fill convert al e rest p t d st = Some (ok, r, st') \<and> length r \<le> length rest"
proof -
  obtain ok1 r1 st1 where 1: "convert rest p t True d st = Some (ok1, r1, st1)" "length r1 \<le> length rest"
    using convert [OF short(1)] by blast
  obtain u c where s: "CBS_skip (el_header_len e) (el_bytes e) = (u, c)" by fastforce
  show ?thesis
  proof (cases u)
    case None
    then show ?thesis using 1 s by (auto simp: ber_fill_def)
  next
    case (Some u')
    have "length c < fuel" using ber_contents(2) [OF e, of u' c] s Some short(2) by simp
    then obtain ok2 r2 st2 where "convert c p t False d st = Some (ok2, r2, st2)" using convert by blast
    moreover obtain ok3 st3 where "CBB_add_bytes al p c st = (ok3, st3)" by fastforce
    ultimately show ?thesis using 1 s Some by (simp add: ber_fill_def)
  qed
qed

lemma convert_enough:
  assumes "length inp < fuel"
  shows "\<exists>ok r st'. cbs_convert_ber fuel al inp out t eoc depth st = Some (ok, r, st') \<and> length r \<le> length inp"
  using assms
proof (induction fuel arbitrary: inp out t eoc depth st)
  case (Suc fuel)
  show ?case
  proof (cases "kMaxDepth < depth \<or> inp = [] \<or> eoc \<and> fst (cbs_get_eoc inp) \<noteq> None")
    case True
    then show ?thesis using eoc_shorter [of inp] by (auto simp: cbs_convert_ber.simps(2))
  next
    case False
    obtain el rest where el: "CBS_get_any_ber_asn1_element inp = (el, rest)" by (metis surj_pair)
    show ?thesis
    proof (cases el)
      case None
      then show ?thesis using False ber_element_None [of inp rest] el by (auto simp: cbs_convert_ber.simps(2))
    next
      case (Some e)
      have split: "inp = el_bytes e @ rest" "el_bytes e \<noteq> []" using ber_element_split el Some by blast+
      have "0 < length (el_bytes e)" "length inp = length (el_bytes e) + length rest" using split by simp_all
      then have short: "length rest < fuel" "length (el_bytes e) \<le> fuel" "length rest < length inp" using Suc.prems by linarith+
      have I: "\<exists>ok r st'. cbs_convert_ber fuel al c p t eoc d st = Some (ok, r, st') \<and> length r \<le> length c"
        if "length c < fuel" for c p t eoc d st using Suc.IH [OF that] by blast
      obtain q ok1 st1 where o: "ber_open al out t (el_tag e) st = (q, ok1, st1)" by (metis surj_pair)
      obtain ok2 r2 st2 where x: "ber_fill (cbs_convert_ber fuel al) al e rest q (child_string_tag t (el_tag e)) (Suc depth) st1 = Some (ok2, r2, st2)"
        "length r2 \<le> length rest"
        using fill_enough [where convert = "cbs_convert_ber fuel al" and fuel = fuel, OF el [unfolded Some] I short(1,2)] by blast
      obtain ok3 st3 where f: "CBB_flush al out st2 = (ok3, st3)" by fastforce
      have "length r2 < fuel" using x(2) short(1) by simp
      then obtain ok4 r4 st4 where i: "cbs_convert_ber fuel al r2 out t eoc depth st3 = Some (ok4, r4, st4)" "length r4 \<le> length r2"
        using I by blast
      have "cbs_convert_ber (Suc fuel) al inp out t eoc depth st =
        (if t \<noteq> 0 \<and> el_tag e AND NOT CBS_ASN1_CONSTRUCTED \<noteq> t then Some (False, rest, st)
         else if \<not> ok1 then Some (False, rest, st1)
         else if \<not> ok2 then Some (False, r2, st2)
         else if \<not> ok3 then Some (False, r2, st3) else Some (ok4, r4, st4))"
        using False el Some o x(1) f i(1) unfolding cbs_convert_ber.simps(2)
        by (cases ok1; cases ok2; cases ok3) auto
      then show ?thesis using x(2) i(2) short(3) by auto
    qed
  qed
qed simp


section \<open>What needs no conversion\<close>

text \<open>A sequence of DER elements, constructed ones with such a sequence inside, nested at most this deep.\<close>

inductive ber_free :: "nat \<Rightarrow> bytes \<Rightarrow> bool" where
  ber_free_Nil: "ber_free n []"
| ber_free_primitive: "valid_tag t \<Longrightarrow> \<not> constructed t \<Longrightarrow> length p < 2 ^ 32 \<Longrightarrow> ber_free n r \<Longrightarrow> ber_free n (der_element t p @ r)"
| ber_free_constructed: "valid_tag t \<Longrightarrow> constructed t \<Longrightarrow> \<not> is_string_type t \<Longrightarrow> length p < 2 ^ 32 \<Longrightarrow> ber_free n p
    \<Longrightarrow> ber_free (Suc n) r \<Longrightarrow> ber_free (Suc n) (der_element t p @ r)"

lemma ber_free_append: "ber_free n a \<Longrightarrow> ber_free n b \<Longrightarrow> ber_free n (a @ b)"
  by (induction n a rule: ber_free.induct) (auto intro: ber_free.intros)

lemma ber_element_complete:
  assumes "valid_tag t" "length p < 2 ^ 32"
  shows "CBS_get_any_ber_asn1_element (der_element t p @ r) =
    (Some \<lparr>el_bytes = der_element t p, el_tag = t, el_header_len = length (der_header t (length p)),
       el_ber_found = False, el_indefinite = False\<rparr>, r)"
  unfolding CBS_get_any_ber_asn1_element_def by (rule any_element_complete [OF assms])

lemma der_element_nonempty: "der_element t p \<noteq> []"
  by (simp add: der_element_def der_header_def)

lemma ber_element_der:
  assumes "CBS_get_any_ber_asn1_element inp = (Some e, r)" "\<not> el_ber_found e"
  shows "valid_tag (el_tag e)" "length (asn1_contents e) < 2 ^ 32" "inp = der_element (el_tag e) (asn1_contents e) @ r"
    "el_bytes e = der_element (el_tag e) (asn1_contents e)"
proof -
  have "valid_tag (el_tag e) \<and> length (asn1_contents e) < 2 ^ 32 \<and> inp = el_bytes e @ r \<and> el_bytes e = der_element (el_tag e) (asn1_contents e)"
    using assms(1) unfolding CBS_get_any_ber_asn1_element_def
  proof (cases rule: any_element_sound)
    case (definite l)
    then have "definite_length False l (length (asn1_contents e)) False" using assms(2) by (simp add: definite_length_def)
    then show ?thesis using definite by (simp add: definite_length_der der_element_def der_header_def)
  qed (use assms(2) in simp)
  then show "valid_tag (el_tag e)" "length (asn1_contents e) < 2 ^ 32" "inp = der_element (el_tag e) (asn1_contents e) @ r"
    "el_bytes e = der_element (el_tag e) (asn1_contents e)" by simp_all
qed

lemma ber_free_find: "ber_free n d \<Longrightarrow> n \<le> kMaxDepth \<Longrightarrow> cbs_find_ber (kMaxDepth - n) d = Some False"
proof (induction n d rule: ber_free.induct)
  case (ber_free_primitive t p n r)
  then show ?case by (subst cbs_find_ber.simps) (simp add: ber_element_complete der_element_nonempty)
next
  case (ber_free_constructed t p n r)
  have "Suc (kMaxDepth - Suc n) = kMaxDepth - n" using ber_free_constructed.prems by simp
  then have "cbs_find_ber (Suc (kMaxDepth - Suc n)) p = Some False" using ber_free_constructed by simp
  then show ?case using ber_free_constructed
    by (subst cbs_find_ber.simps) (simp add: ber_element_complete der_element_nonempty element_contents)
qed (subst cbs_find_ber.simps, simp)

lemma find_ber_deep: "kMaxDepth < depth \<Longrightarrow> cbs_find_ber depth inp = None"
  by (subst cbs_find_ber.simps) simp

lemma find_ber_free: "cbs_find_ber depth inp = Some False \<Longrightarrow> ber_free (kMaxDepth - depth) inp"
proof (induction depth inp rule: cbs_find_ber.induct)
  case (1 depth inp)
  show ?case
  proof (cases "inp = []")
    case True
    then show ?thesis by (simp add: ber_free_Nil)
  next
    case False
    have d: "depth \<le> kMaxDepth" using "1.prems" find_ber_deep [of depth inp] by (cases "kMaxDepth < depth") simp_all
    obtain e r where e: "CBS_get_any_ber_asn1_element inp = (Some e, r)"
      using "1.prems" False d by (auto simp: cbs_find_ber.simps [of depth] split: prod.splits option.splits if_splits)
    have nf: "\<not> el_ber_found e" using "1.prems" False d e by (auto simp: cbs_find_ber.simps [of depth])
    note D = ber_element_der [OF e nf]
    show ?thesis
    proof (cases "constructed (el_tag e)")
      case False
      then have "cbs_find_ber depth r = Some False" using "1.prems" \<open>inp \<noteq> []\<close> d e nf by (simp add: cbs_find_ber.simps [of depth inp])
      then have "ber_free (kMaxDepth - depth) r" using "1.IH" d \<open>inp \<noteq> []\<close> e nf False by auto
      then show ?thesis unfolding D(3) using D(1,2) False by (intro ber_free_primitive) simp_all
    next
      case True
      obtain u c where s: "CBS_skip (el_header_len e) (el_bytes e) = (Some u, c)"
        using "1.prems" False d e nf True
        by (auto simp: cbs_find_ber.simps [of depth inp] split: prod.splits option.splits if_splits)
      have c: "c = asn1_contents e" using ber_contents(1) [OF e s] .
      have ns: "\<not> is_string_type (el_tag e)" and fc: "cbs_find_ber (Suc depth) c = Some False" and fr: "cbs_find_ber depth r = Some False"
        using "1.prems" False d e nf True s
        by (auto simp: cbs_find_ber.simps [of depth inp] split: prod.splits option.splits if_splits bool.splits)
      have "Suc depth \<le> kMaxDepth" using fc find_ber_deep [of "Suc depth" c] by (cases "kMaxDepth < Suc depth") simp_all
      then obtain n where n: "kMaxDepth - depth = Suc n" "kMaxDepth - Suc depth = n" by (metis Suc_diff_le diff_Suc_Suc)
      have "ber_free n c" "ber_free (Suc n) r" using "1.IH" d False e nf True ns s fc fr n by auto
      then show ?thesis unfolding D(3) n(1) using D(1,2) True ns c by (intro ber_free_constructed) simp_all
    qed
  qed
qed


section \<open>What the conversion writes\<close>

text \<open>A live object with no open child.\<close>

definition writable :: "cbb_ptr \<Rightarrow> cbb \<Rightarrow> bool" where
  "writable p st \<longleftrightarrow> cbb_wf st \<and> \<not> cbb_failed st \<and> (\<exists>a. cbb_locate p st = Some (a, []))"

lemma appends_at_writable: "appends_at st p d (True, st') \<Longrightarrow> writable p st \<Longrightarrow> writable p st'"
  by (auto simp: appends_at_def writable_def)

lemma appends_at_refl:
  assumes "writable p st"
  shows "appends_at st p [] (ok, st)"
proof -
  obtain a where l: "cbb_locate p st = Some (a, [])" using assms by (auto simp: writable_def)
  then have "cbb_chain st = a" using cbb_locate_append [OF l] by simp
  then show ?thesis using assms l by (simp add: appends_at_def writable_def)
qed

lemma appends_at_trans:
  assumes "writable p st" "appends_at st p d (True, st1)" "appends_at st1 p e (ok, st2)"
  shows "appends_at st p (d @ e) (ok, st2)"
  using assms unfolding appends_at_def writable_def by auto

lemma appends_at_failed: "appends_at st p d (False, st') \<Longrightarrow> appends_at st p e (False, st')"
  by (simp add: appends_at_def)

lemma appends_at_fails: "cbb_wf st' \<Longrightarrow> cbb_root st' = cbb_root st \<Longrightarrow> appends_at st p d (False, st')"
  by (simp add: appends_at_def)

lemma appends_at_bytes: "writable p st \<Longrightarrow> length d < 2 ^ 64 \<Longrightarrow> appends_at st p d (CBB_add_bytes al p d st)"
  using appends_bytes [of d p al] unfolding appends_iff by (auto simp: writable_def)

lemma appends_at_flush: "writable p st \<Longrightarrow> appends_at st p [] (CBB_flush al p st)"
  using appends_flush [of p al] unfolding appends_iff by (auto simp: writable_def)

text \<open>An element that was opened and filled, and then its parent flushed.\<close>

lemma element_at:
  assumes "writable p st" "CBB_add_asn1 al p (cbb_local st) t st = (True, st1)" "appends_at st1 (cbb_local st) body (True, st2)"
    "CBB_flush al p st2 = (ok, st3)"
  shows "appends_at st p (der_element t body) (ok, st3) \<and> (ok \<longrightarrow> length body \<le> 0xfffffffe)"
proof -
  define q where "q = cbb_local st"
  define n where "n s = (if s = st1 then (True, st2) else (False, s))" for s
  have wf: "cbb_wf st" using assms(1) by (simp add: writable_def)
  have "opens_at st p q 1 True (tag_bytes t) [] (CBB_add_asn1 al p q t st)"
    unfolding q_def by (rule opens_asn1 [OF wf cbb_local_fresh])
  then have "opens_at st p q 1 True (tag_bytes t) [] ((\<lambda>_. (True, st1)) st)" using assms(2) by (simp add: q_def)
  moreover have "appends q body n" unfolding appends_iff n_def
    using assms(3) by (auto simp: q_def intro: appends_at_fails)
  ultimately have "opens_at st p q 1 True (tag_bytes t) ([] @ body) (cbb_and (\<lambda>_. (True, st1)) n st)" by (rule opens_and)
  then have o: "opens_at st p q 1 True (tag_bytes t) body ((\<lambda>_. (True, st2)) st)" by (simp add: cbb_and_def n_def)
  show ?thesis
    using opens_flush [where m = "\<lambda>_. (True, st2)" and al = al, OF o] assms(4)
    by (simp add: asn1_prefix [simplified] der_element_def der_header_def cbb_and_def)
qed

lemma add_asn1_writable:
  assumes "writable p st" "CBB_add_asn1 al p (cbb_local st) t st = (ok, st1)"
  shows "appends_at st p d (False, st1)" "ok \<Longrightarrow> writable (cbb_local st) st1"
proof -
  have wf: "cbb_wf st" using assms(1) by (simp add: writable_def)
  have o: "opens_at st p (cbb_local st) 1 True (tag_bytes t) [] (ok, st1)"
    using opens_asn1 [OF wf cbb_local_fresh, of p t al] assms(2) by simp
  then show "appends_at st p d (False, st1)" by (simp add: opens_at_def appends_at_def)
  assume ok
  then obtain a c where "cbb_wf st1" "\<not> cbb_failed st1" "cbb_chain st1 = a @ [(cbb_local st, c)]"
    using o assms(1) by (auto simp: opens_at_def writable_def)
  then show "writable (cbb_local st) st1" using locate_last by (auto simp: writable_def)
qed

lemma convert_deep: "kMaxDepth < depth \<Longrightarrow> cbs_convert_ber fuel al inp out t eoc depth st = Some (ok, r, st') \<Longrightarrow> \<not> ok \<and> st' = st"
  by (cases fuel) (simp_all add: cbs_convert_ber.simps(2))

lemma valid_tag_primitive:
  "valid_tag (t AND NOT CBS_ASN1_CONSTRUCTED) \<longleftrightarrow> valid_tag t" "\<not> constructed (t AND NOT CBS_ASN1_CONSTRUCTED)"
  by (simp_all add: valid_tag_def and.assoc)

lemma ber_element_tag: "CBS_get_any_ber_asn1_element inp = (Some e, r) \<Longrightarrow> valid_tag (el_tag e) \<and> (el_indefinite e \<longrightarrow> constructed (el_tag e))"
  unfolding CBS_get_any_ber_asn1_element_def by (auto elim!: any_element_sound)

text \<open>
  What one call appends: anything for the fragments of a string, and otherwise a sequence of elements
  that needs no conversion.
\<close>

definition converts :: "u32 \<Rightarrow> nat \<Rightarrow> cbb_ptr \<Rightarrow> cbb \<Rightarrow> bool \<times> cbb \<Rightarrow> bool" where
  "converts t depth p st r \<longleftrightarrow> (\<exists>d. appends_at st p d r \<and> (fst r \<longrightarrow> t = 0 \<longrightarrow> ber_free (kMaxDepth - depth) d))"

lemma converts_fails: "cbb_wf st' \<Longrightarrow> cbb_root st' = cbb_root st \<Longrightarrow> converts t depth p st (False, st')"
  by (auto simp: converts_def intro: appends_at_fails)

lemma converts_trans:
  assumes "writable p st" "converts t depth p st (True, st1)" "converts t depth p st1 r"
  shows "converts t depth p st r"
  using assms unfolding converts_def by (cases r) (auto intro: appends_at_trans ber_free_append)

text \<open>One element: the contents appended to the object opened for it, then the flush.\<close>

lemma converts_element:
  assumes w: "writable p st" and o: "ber_open al p t tag st = (q, True, st1)" and valid: "valid_tag tag"
    and i: "appends_at st1 q d (True, st2)" and f: "CBB_flush al p st2 = (ok, st3)"
    and free: "constructed tag \<Longrightarrow> \<not> from_string t tag \<Longrightarrow> t = 0 \<Longrightarrow> depth < kMaxDepth \<and> ber_free (kMaxDepth - Suc depth) d"
  shows "converts t depth p st (ok, st3)"
proof (cases "t = 0")
  case False
  then have "q = p" "st1 = st" using o by (simp_all add: ber_open_def)
  moreover have "appends_at st2 p [] (ok, st3)" using appends_at_flush [of p st2 al] appends_at_writable [of st p d st2] i w f
    calculation by simp
  ultimately show ?thesis using appends_at_trans [OF w] i False by (fastforce simp: converts_def)
next
  case True
  define t' where "t' = ber_out_tag t tag"
  have "q = cbb_local st" "CBB_add_asn1 al p (cbb_local st) t' st = (True, st1)" using o True by (auto simp: ber_open_def t'_def)
  then have e: "appends_at st p (der_element t' d) (ok, st3)" "ok \<Longrightarrow> length d \<le> 0xfffffffe"
    using element_at [OF w _ _ f, of t' st1 d] i by simp_all
  have "ber_free (kMaxDepth - depth) (der_element t' d)" if ok
  proof -
    have l: "length d < 2 ^ 32" using e(2) [OF that] by simp
    consider "from_string t tag" | "\<not> from_string t tag" "constructed tag" | "\<not> from_string t tag" "\<not> constructed tag" by blast
    then show ?thesis
    proof cases
      case 1
      then have "valid_tag t'" "\<not> constructed t'" using valid by (simp_all add: t'_def ber_out_tag_def valid_tag_primitive)
      then show ?thesis using ber_free_primitive [OF _ _ l ber_free_Nil] by simp
    next
      case 2
      then have "\<not> is_string_type tag" "t' = tag" using True by (simp_all add: from_string_def t'_def ber_out_tag_def)
      moreover have "depth < kMaxDepth" "ber_free (kMaxDepth - Suc depth) d" using free 2 True by simp_all
      moreover have "kMaxDepth - depth = Suc (kMaxDepth - Suc depth)" using Suc_diff_Suc [OF calculation(3)] by simp
      ultimately show ?thesis using ber_free_constructed [OF valid 2(2) _ l _ ber_free_Nil] by simp
    next
      case 3
      then have "t' = tag" by (simp add: t'_def ber_out_tag_def)
      then show ?thesis using ber_free_primitive [OF valid _ l ber_free_Nil] 3 by simp
    qed
  qed
  then show ?thesis using e(1) by (auto simp: converts_def)
qed


lemma open_writable:
  assumes "writable p st" "ber_open al p t tag st = (q, ok, st1)"
  shows "converts t depth p st (False, st1) \<and> (ok \<longrightarrow> writable q st1)"
proof (cases "t = 0")
  case True
  then have o: "CBB_add_asn1 al p (cbb_local st) (ber_out_tag t tag) st = (ok, st1)" "q = cbb_local st"
    using assms(2) by (auto simp: ber_open_def)
  then show ?thesis using add_asn1_writable [OF assms(1) o(1)] by (auto simp: converts_def)
next
  case False
  then have "st1 = st" "q = p" using assms(2) by (simp_all add: ber_open_def)
  then show ?thesis using assms(1) converts_fails [of st st] by (simp add: writable_def)
qed

text \<open>The contents of an element, for any conversion that behaves.\<close>

lemma fill_writes:
  assumes e: "CBS_get_any_ber_asn1_element inp = (Some e, rest)" and w: "writable q st"
    and len: "length rest < 2 ^ 64" "length (el_bytes e) < 2 ^ 64"
    and convert: "\<And>c p t eoc d st ok r st'. writable p st \<Longrightarrow> length c < 2 ^ 64 \<Longrightarrow> convert c p t eoc d st = Some (ok, r, st')
      \<Longrightarrow> converts t d p st (ok, st') \<and> length r \<le> length c"
    and deep: "\<And>c p t eoc d st ok r st'. kMaxDepth < d \<Longrightarrow> convert c p t eoc d st = Some (ok, r, st') \<Longrightarrow> \<not> ok \<and> st' = st"
    and r: "ber_fill convert al e rest q t (Suc depth) st = Some (ok, r, st')"
  shows "\<exists>d. appends_at st q d (ok, st') \<and> length r \<le> length rest \<and>
    (ok \<longrightarrow> constructed (el_tag e) \<longrightarrow> t = 0 \<longrightarrow> depth < kMaxDepth \<and> ber_free (kMaxDepth - Suc depth) d)"
proof -
  have rec: "\<exists>d. appends_at st q d (ok, st') \<and> length r1 \<le> length c \<and> (ok \<longrightarrow> t = 0 \<longrightarrow> depth < kMaxDepth \<and> ber_free (kMaxDepth - Suc depth) d)"
    if "convert c q t b (Suc depth) st = Some (ok, r1, st')" "length c < 2 ^ 64" for c b r1
    using convert [OF w that(2,1)] deep [OF _ that(1)] by (cases "depth < kMaxDepth") (auto simp: converts_def)
  obtain u c where s: "CBS_skip (el_header_len e) (el_bytes e) = (u, c)" by fastforce
  consider "el_indefinite e" | "\<not> el_indefinite e" "u = None" | u' where "\<not> el_indefinite e" "u = Some u'" "constructed (el_tag e)"
    | u' where "\<not> el_indefinite e" "u = Some u'" "\<not> constructed (el_tag e)" by (cases u) auto
  then show ?thesis
  proof cases
    case 1
    then have "convert rest q t True (Suc depth) st = Some (ok, r, st')" using r by (simp add: ber_fill_def)
    from rec [OF this len(1)] show ?thesis by blast
  next
    case 2
    then have "ok = False" "st' = st" "r = rest" using r s by (simp_all add: ber_fill_def)
    then show ?thesis using appends_at_refl [OF w] by auto
  next
    case 3
    then obtain r1 where i: "convert c q t False (Suc depth) st = Some (ok, r1, st')" "r = rest"
      using r s by (auto simp: ber_fill_def split: option.splits)
    have "length c < 2 ^ 64" using ber_contents(2) [OF e, of u' c] s 3 len(2) by simp
    from rec [OF i(1) this] i(2) show ?thesis by auto
  next
    case 4
    then have i: "CBB_add_bytes al q c st = (ok, st')" "r = rest" using r s by (auto simp: ber_fill_def split: prod.splits)
    have "length c < 2 ^ 64" using ber_contents(2) [OF e, of u' c] s 4 len(2) by simp
    with appends_at_bytes [OF w, of c al] i 4 show ?thesis by auto
  qed
qed

lemma convert_writes:
  assumes "writable out st" "length inp < 2 ^ 64" "cbs_convert_ber fuel al inp out t eoc depth st = Some (ok, r, st')"
  shows "converts t depth out st (ok, st') \<and> length r \<le> length inp"
  using assms
proof (induction fuel arbitrary: inp out t eoc depth st ok r st')
  case (Suc fuel)
  note res = Suc.prems(3)
  have wf: "cbb_wf st" using Suc.prems(1) by (simp add: writable_def)
  have same: "converts t depth out st (ok, st)" if "ok \<longrightarrow> t = 0 \<longrightarrow> True" for ok
    using appends_at_refl [OF Suc.prems(1)] ber_free_Nil by (auto simp: converts_def)
  show ?case
  proof (cases "kMaxDepth < depth \<or> inp = [] \<or> eoc \<and> fst (cbs_get_eoc inp) \<noteq> None")
    case True
    then have "st' = st" "length r \<le> length inp" using res eoc_shorter [of inp] by (auto simp: cbs_convert_ber.simps(2) split: if_splits)
    then show ?thesis using same by simp
  next
    case False
    obtain el rest where el: "CBS_get_any_ber_asn1_element inp = (el, rest)" by (metis surj_pair)
    show ?thesis
    proof (cases el)
      case None
      then have "st' = st" "r = inp" using False el res ber_element_None [of inp rest] by (auto simp: cbs_convert_ber.simps(2))
      then show ?thesis using same by simp
    next
      case (Some e)
      note el = el [unfolded Some]
      have len: "length rest < 2 ^ 64" "length (el_bytes e) < 2 ^ 64" "length rest \<le> length inp"
        using ber_element_split [OF el] Suc.prems(2) by (auto dest: arg_cong [where f = length])
      note valid = ber_element_tag [OF el]
      show ?thesis
      proof (cases "t \<noteq> 0 \<and> el_tag e AND NOT CBS_ASN1_CONSTRUCTED \<noteq> t")
        case True
        then have "st' = st" "r = rest" using False el res by (auto simp: cbs_convert_ber.simps(2))
        then show ?thesis using same len(3) by simp
      next
        case match: False
        define ct where "ct = child_string_tag t (el_tag e)"
        obtain q ok1 st1 where o: "ber_open al out t (el_tag e) st = (q, ok1, st1)" by (metis surj_pair)
        define X where "X = ber_fill (cbs_convert_ber fuel al) al e rest q ct (Suc depth) st1"
        have res': "Some (ok, r, st') = (if \<not> ok1 then Some (False, rest, st1) else case X of None \<Rightarrow> None
            | Some (False, rest, st2) \<Rightarrow> Some (False, rest, st2)
            | Some (True, rest, st2) \<Rightarrow>
                (case CBB_flush al out st2 of (False, st3) \<Rightarrow> Some (False, rest, st3)
                 | (True, st3) \<Rightarrow> cbs_convert_ber fuel al rest out t eoc depth st3))"
          using False el match res o unfolding cbs_convert_ber.simps(2) X_def ct_def by (cases ok1) auto
        have opened: "converts t depth out st (False, st1)" "ok1 \<Longrightarrow> writable q st1" using open_writable [OF Suc.prems(1) o] by blast+
        show ?thesis
        proof (cases ok1)
          case False
          then show ?thesis using res' opened(1) len(3) by simp
        next
          case True
          obtain ok2 r2 st2 where x: "X = Some (ok2, r2, st2)" using res' True by (cases X) auto
          have "ber_fill (cbs_convert_ber fuel al) al e rest q ct (Suc depth) st1 = Some (ok2, r2, st2)" using x by (simp add: X_def)
          then have "\<exists>d. appends_at st1 q d (ok2, st2) \<and> length r2 \<le> length rest \<and>
             (ok2 \<longrightarrow> constructed (el_tag e) \<longrightarrow> ct = 0 \<longrightarrow> depth < kMaxDepth \<and> ber_free (kMaxDepth - Suc depth) d)"
          proof (rule fill_writes [OF el opened(2) [OF True] len(1,2), rotated 2])
            show "converts t d p st (ok, st') \<and> length r \<le> length c"
              if "writable p st" "length c < 2 ^ 64" "cbs_convert_ber fuel al c p t eoc d st = Some (ok, r, st')" for c p t eoc d st ok r st'
              by (rule Suc.IH [OF that])
            show "\<not> ok \<and> st' = st" if "kMaxDepth < d" "cbs_convert_ber fuel al c p t eoc d st = Some (ok, r, st')" for c p t eoc d st ok r st'
              by (rule convert_deep [OF that])
          qed
          then obtain d where d: "appends_at st1 q d (ok2, st2)" "length r2 \<le> length rest"
            "ok2 \<longrightarrow> constructed (el_tag e) \<longrightarrow> ct = 0 \<longrightarrow> depth < kMaxDepth \<and> ber_free (kMaxDepth - Suc depth) d" by blast
          show ?thesis
          proof (cases ok2)
            case False
            have "cbb_wf st2" "cbb_root st2 = cbb_root st1" using d(1) by (simp_all add: appends_at_def)
            moreover have "cbb_root st1 = cbb_root st" using opened(1) by (auto simp: converts_def appends_at_def)
            ultimately show ?thesis using res' True x False converts_fails d(2) len(3) by simp
          next
            case ok2: True
            obtain ok3 st3 where f: "CBB_flush al out st2 = (ok3, st3)" by fastforce
            have el3: "converts t depth out st (ok3, st3)"
              by (rule converts_element [OF Suc.prems(1) _ _ _ f]) (use o True valid d ok2 in \<open>auto simp: ct_def child_string_tag_def\<close>)
            show ?thesis
            proof (cases ok3)
              case False
              then show ?thesis using res' True x ok2 f el3 d(2) len(3) by simp
            next
              case ok3: True
              have "writable out st3" using el3 ok3 appends_at_writable [OF _ Suc.prems(1)] by (auto simp: converts_def)
              moreover have "length r2 < 2 ^ 64" using d(2) len(1) by simp
              moreover have "cbs_convert_ber fuel al r2 out t eoc depth st3 = Some (ok, r, st')" using res' True x ok2 f ok3 by simp
              ultimately have "converts t depth out st3 (ok, st') \<and> length r \<le> length r2" by (rule Suc.IH)
              then show ?thesis using converts_trans [OF Suc.prems(1)] el3 ok3 d(2) len(3) by auto
            qed
          qed
        qed
      qed
    qed
  qed
qed simp


section \<open>More fuel changes nothing, and nothing is left\<close>

lemma fill_mono:
  assumes "\<And>c p t eoc d st x. convert c p t eoc d st = Some x \<Longrightarrow> convert' c p t eoc d st = Some x"
    "ber_fill convert al e rest q t d st = Some x"
  shows "ber_fill convert' al e rest q t d st = Some x"
  using assms by (auto simp: ber_fill_def split: prod.splits option.splits if_splits)

lemma convert_more_fuel:
  "cbs_convert_ber fuel al inp out t eoc depth st = Some x \<Longrightarrow> cbs_convert_ber (Suc fuel) al inp out t eoc depth st = Some x"
proof (induction fuel arbitrary: inp out t eoc depth st x)
  case (Suc fuel)
  have m: "ber_fill (cbs_convert_ber fuel al) al e rest q t d st = Some y \<Longrightarrow> ber_fill (cbs_convert_ber (Suc fuel) al) al e rest q t d st = Some y"
    for e rest q t d st y by (rule fill_mono [where convert = "cbs_convert_ber fuel al"]) (rule Suc.IH)
  show ?case
  proof (cases "kMaxDepth < depth \<or> inp = [] \<or> eoc \<and> fst (cbs_get_eoc inp) \<noteq> None")
    case True
    then have "cbs_convert_ber (Suc (Suc fuel)) al inp out t eoc depth st = cbs_convert_ber (Suc fuel) al inp out t eoc depth st"
      by (elim disjE) (simp_all add: cbs_convert_ber.simps(2))
    then show ?thesis using Suc.prems by (simp only:)
  next
    case False
    obtain el rest where el: "CBS_get_any_ber_asn1_element inp = (el, rest)" by (metis surj_pair)
    show ?thesis
    proof (cases "el = None \<or> t \<noteq> 0 \<and> el_tag (the el) AND NOT CBS_ASN1_CONSTRUCTED \<noteq> t")
      case True
      then have "cbs_convert_ber (Suc n) al inp out t eoc depth st = Some (False, rest, st)" for n
        using False el by (cases el) (simp_all add: cbs_convert_ber.simps(2))
      then show ?thesis using Suc.prems by (simp only:)
    next
      case match: False
      then obtain e where e: "el = Some e" by (cases el) simp_all
      obtain q ok1 st1 where o: "ber_open al out t (el_tag e) st = (q, ok1, st1)" by (metis surj_pair)
      define rest_of where "rest_of n X = (if \<not> ok1 then Some (False, rest, st1) else case X of None \<Rightarrow> None
            | Some (False, rest, st2) \<Rightarrow> Some (False, rest, st2)
            | Some (True, rest, st2) \<Rightarrow>
                (case CBB_flush al out st2 of (False, st3) \<Rightarrow> Some (False, rest, st3)
                 | (True, st3) \<Rightarrow> cbs_convert_ber n al rest out t eoc depth st3))" for n X
      define fill where "fill n = ber_fill (cbs_convert_ber n al) al e rest q (child_string_tag t (el_tag e)) (Suc depth) st1" for n
      have step: "cbs_convert_ber (Suc n) al inp out t eoc depth st = rest_of n (fill n)" for n
        using False match el e o unfolding cbs_convert_ber.simps(2) rest_of_def fill_def by (cases ok1) auto
      have f: "fill fuel = Some y \<Longrightarrow> fill (Suc fuel) = Some y" for y unfolding fill_def by (rule m)
      have i: "cbs_convert_ber fuel al r out t eoc depth s = Some y \<Longrightarrow> cbs_convert_ber (Suc fuel) al r out t eoc depth s = Some y" for r s y
        by (rule Suc.IH)
      show ?thesis
      proof (cases "ok1 \<and> fill fuel \<noteq> None")
        case True
        then obtain ok2 r2 st2 where y: "fill fuel = Some (ok2, r2, st2)" by auto
        obtain ok3 st3 where "CBB_flush al out st2 = (ok3, st3)" by fastforce
        then show ?thesis using Suc.prems f [OF y] i True unfolding step rest_of_def y
          by (cases ok2; cases ok3) auto
      next
        case False
        have n: "rest_of n X = Some (False, rest, st1)" if "\<not> ok1" for n X using that by (simp add: rest_of_def)
        have "rest_of n None = None" if ok1 for n using that by (simp add: rest_of_def)
        then show ?thesis using Suc.prems False n unfolding step by (cases ok1; cases "fill fuel") simp_all
      qed
    qed
  qed
qed simp

lemma convert_fuel: "cbs_convert_ber fuel al inp out t eoc depth st = Some x \<Longrightarrow> cbs_convert_ber (fuel + k) al inp out t eoc depth st = Some x"
  by (induction k) (simp_all add: convert_more_fuel del: cbs_convert_ber.simps)

lemma convert_rest:
  "cbs_convert_ber fuel al inp out t False depth st = Some (True, r, st') \<Longrightarrow> r = []"
proof (induction fuel arbitrary: inp st)
  case (Suc fuel)
  show ?case
  proof (cases "inp = []")
    case True
    then show ?thesis using Suc.prems by (auto simp: cbs_convert_ber.simps(2) split: if_splits)
  next
    case False
    obtain r2 st3 where "cbs_convert_ber fuel al r2 out t False depth st3 = Some (True, r, st')"
      using Suc.prems False unfolding cbs_convert_ber.simps(2)
      by (simp split: if_splits prod.splits option.splits bool.splits)
    then show ?thesis by (rule Suc.IH)
  qed
qed simp

lemma ber_free_single:
  "valid_tag t \<Longrightarrow> \<not> constructed t \<Longrightarrow> length p < 2 ^ 32 \<Longrightarrow> ber_free n (der_element t p)"
  "valid_tag t \<Longrightarrow> constructed t \<Longrightarrow> \<not> is_string_type t \<Longrightarrow> length p < 2 ^ 32 \<Longrightarrow> ber_free n p \<Longrightarrow> ber_free (Suc n) (der_element t p)"
  using ber_free_primitive [OF _ _ _ ber_free_Nil] ber_free_constructed [OF _ _ _ _ _ ber_free_Nil] by fastforce+

lemma first_element_free:
  assumes "ber_free n inp" "CBS_get_any_asn1_element inp = (Some e, r)"
  shows "ber_free n (el_bytes e)"
proof -
  have "inp \<noteq> []" using any_asn1_element_sound [OF assms(2)] der_element_nonempty by (metis append_is_Nil_conv)
  moreover have "inp = [] \<or> (\<exists>t p r'. inp = der_element t p @ r' \<and> valid_tag t \<and> length p < 2 ^ 32 \<and> ber_free n (der_element t p))"
    using assms(1)
  proof (induction rule: ber_free.induct)
    case (ber_free_primitive t p n r)
    then show ?case using ber_free_single(1) [of t p n] by blast
  next
    case (ber_free_constructed t p n r)
    then show ?case using ber_free_single(2) [of t p n] by blast
  qed simp
  ultimately obtain t p r' where i: "inp = der_element t p @ r'" "valid_tag t" "length p < 2 ^ 32" "ber_free n (der_element t p)"
    by blast
  then have "el_bytes e = der_element t p" using any_asn1_element_complete [OF i(2,3), of r'] assms(2) by auto
  with i(4) show ?thesis by simp
qed

lemma conversion_free:
  assumes "CBB_init al 0 cap = Some cb" "cap \<le> 2 ^ 62" "0 < cap" "length inp < 2 ^ 64"
    "cbs_convert_ber fuel al inp 0 0 False 0 cb = Some (True, r, cb')" "CBB_finish al 0 cb' = (Some (buf, len), cb'')"
  shows "ber_free kMaxDepth (take len buf)"
proof -
  have "cbb_wf cb \<and> cbb_root cb = 0 \<and> cbb_chain cb = [] \<and> cbb_written cb = [] \<and> \<not> cbb_failed cb"
  proof -
    obtain b where b: "OPENSSL_malloc al cap = Some b" "cb = cbb_init 0 b True"
      using assms(1,3) by (auto simp: CBB_init_def split: option.splits)
    then show ?thesis using OPENSSL_malloc_length [OF b(1)] assms(2) by (simp add: cbb_init_def cbb_wf_def buf_ok_def written_def)
  qed
  note I = this
  then have l: "cbb_locate 0 cb = Some ([], [])" by (simp add: cbb_locate_def)
  then have "writable 0 cb" using I by (simp add: writable_def)
  from convert_writes [OF this assms(4,5)] obtain d where d: "appends_at cb 0 d (True, cb')" "ber_free kMaxDepth d"
    by (auto simp: converts_def)
  then have "cbb_wf cb'" "cbb_chain cb' = []" "cbb_written cb' = d" using l I by (simp_all add: appends_at_def)
  then have "take len buf = d" using finish_result(2) [OF _ assms(6)] by simp
  with d(2) show ?thesis by simp
qed

section \<open>An example\<close>

text \<open>A constructed OCTET STRING of indefinite length with one fragment, and the states of the builder.\<close>

lemmas read_eval = CBS_get_any_ber_asn1_element_def cbs_get_any_asn1_element_def parse_asn1_tag_def cbs_simps rbind_def Let_def
  CBS_get_u8_def cbs_get_u_def cbs_get_def CBS_ASN1_CONSTRUCTED_def CBS_ASN1_TAG_SHIFT_def asn1_take_def CBS_get_bytes_def
  is_string_type_def size_add_def CBS_skip_def

lemmas build_eval = CBB_init_def OPENSSL_malloc_def OPENSSL_MALLOC_PREFIX_def size_add_def cbb_init_def cbb_local_def
  CBB_add_asn1_def cbb_and_def CBB_flush_def cbb_locate_def CBS_ASN1_TAG_SHIFT_def CBS_ASN1_TAG_NUMBER_MASK_def
  CBB_add_u8_def cbb_add_u_def CBB_add_space_def cbb_buffer_add_def cbb_buffer_reserve_def cbb_write_def buf_write_def
  cbb_add_child_def Let_def CBB_add_bytes_def cbb_close_child_def asn1_len_len_def upt_rec cbb_put_length_def

definition example_cbb :: "bytes \<Rightarrow> nat \<Rightarrow> (cbb_ptr \<times> cbb_child) list \<Rightarrow> cbb" where
  "example_cbb buf len chain =
     \<lparr>cbb_root = 0, cbb_base = \<lparr>cb_buf = buf, cb_len = len, cb_can_resize = True, cb_error = False\<rparr>, cbb_chain = chain\<rparr>"

lemma example_conversion:
  "CBS_asn1_ber_to_der (\<lambda>_. Some (\<lambda>_. 0)) [0x24, 0x80, 4, 1, 0x61, 0, 0] = (Some ([4, 1, 0x61], Some [4, 1, 0x61, 0, 0, 0, 0]), [])"
proof -
  define al :: allocator where "al = (\<lambda>_. Some (\<lambda>_. 0))"
  define ch where "ch = [(1 :: nat, \<lparr>cc_offset = 1, cc_pending_len_len = 1, cc_pending_is_asn1 = True\<rparr>)]"
  define s0 s1 s2 s3 where "s0 = example_cbb [0, 0, 0, 0, 0, 0, 0] 0 []" and "s1 = example_cbb [4, 0, 0, 0, 0, 0, 0] 2 ch"
    and "s2 = example_cbb [4, 0, 0x61, 0, 0, 0, 0] 3 ch" and "s3 = example_cbb [4, 1, 0x61, 0, 0, 0, 0] 3 []"
  note S = s0_def s1_def s2_def s3_def example_cbb_def al_def ch_def
  have e1: "CBS_get_any_ber_asn1_element [0x24, 0x80, 4, 1, 0x61, 0, 0] =
    (Some \<lparr>el_bytes = [0x24, 0x80], el_tag = 0x20000004, el_header_len = 2, el_ber_found = True, el_indefinite = True\<rparr>, [4, 1, 0x61, 0, 0])"
    by (simp add: read_eval)
  have e2: "CBS_get_any_ber_asn1_element [4, 1, 0x61, 0, 0] =
    (Some \<lparr>el_bytes = [4, 1, 0x61], el_tag = 4, el_header_len = 2, el_ber_found = False, el_indefinite = False\<rparr>, [0, 0])"
    by (simp add: read_eval)
  have init: "CBB_init al 0 7 = Some s0" by (simp add: build_eval S)
  have add: "CBB_add_asn1 al 0 1 4 s0 = (True, s1)" by (simp add: build_eval S)
  have bytes: "CBB_add_bytes al 1 [0x61] s1 = (True, s2)" by (simp add: build_eval S)
  have flush: "CBB_flush al 1 s2 = (True, s2)" "CBB_flush al 0 s2 = (True, s3)" "CBB_flush al 0 s3 = (True, s3)"
    by (simp_all add: build_eval S)
  have loc: "cbb_local s0 = 1" by (simp add: cbb_local_def S)
  have eoc: "fst (cbs_get_eoc (4 # x)) = None" "cbs_get_eoc [0, 0] = (Some (), [])" for x
    by (simp_all add: cbs_get_eoc_def CBS_skip_def rbind_def cbs_get_def)
  have t: "child_string_tag 0 0x20000004 = 4" "ber_open al 0 0 0x20000004 s0 = (1, True, s1)" "ber_open al 1 4 4 s1 = (1, True, s1)"
    using add loc by (simp_all add: child_string_tag_def from_string_def ber_out_tag_def ber_open_def read_eval CBS_ASN1_OCTETSTRING_def)
  have c0: "cbs_convert_ber (Suc n) al [] 0 0 False 0 s3 = Some (True, [], s3)" for n
    by (simp add: cbs_convert_ber.simps(2) kMaxDepth_def)
  have c3: "cbs_convert_ber (Suc n) al [0, 0] 1 4 True 1 s2 = Some (True, [], s2)" for n
    by (simp add: cbs_convert_ber.simps(2) eoc kMaxDepth_def)
  have c2: "cbs_convert_ber (Suc (Suc n)) al [4, 1, 0x61, 0, 0] 1 4 True 1 s1 = Some (True, [], s2)" for n
    unfolding cbs_convert_ber.simps(2) [of "Suc n"]
    by (simp add: e2 eoc t [simplified] kMaxDepth_def ber_fill_def CBS_skip_def rbind_def cbs_get_def bytes [simplified] flush [simplified] c3 [simplified] CBS_ASN1_CONSTRUCTED_def CBS_ASN1_TAG_SHIFT_def)
  have c1: "cbs_convert_ber (Suc (Suc (Suc n))) al [0x24, 0x80, 4, 1, 0x61, 0, 0] 0 0 False 0 s0 = Some (True, [], s3)" for n
    unfolding cbs_convert_ber.simps(2) [of "Suc (Suc n)"]
    by (simp add: e1 t [simplified] kMaxDepth_def ber_fill_def c2 [simplified] flush c0)
  have f: "cbs_find_ber 0 [0x24, 0x80, 4, 1, 0x61, 0, 0] = Some True"
    by (subst cbs_find_ber.simps) (simp add: e1 kMaxDepth_def)
  have fin: "CBB_finish al 0 s3 = (Some ([4, 1, 0x61, 0, 0, 0, 0], 3), s3\<lparr>cbb_base := (cbb_base s3)\<lparr>cb_buf := []\<rparr>\<rparr>)"
    using flush(3) by (simp add: CBB_finish_eq S)
  have n: "Suc (length [0x24, 0x80, 4, 1, 0x61, 0, 0 :: u8]) = Suc (Suc (Suc 5))" "length [0x24, 0x80, 4, 1, 0x61, 0, 0 :: u8] = 7" by simp_all
  have "cbs_convert_ber (Suc (Suc (Suc 5))) al [0x24, 0x80, 4, 1, 0x61, 0, 0] 0 0 False 0 s0 = Some (True, [], s3)" by (rule c1)
  then show ?thesis
    unfolding al_def [symmetric] CBS_asn1_ber_to_der_def f n init by (simp add: fin)
qed

section \<open>Properties\<close>

text \<open>
  Claim C35.  What \<open>CBS_asn1_ber_to_der\<close> gives needs no further conversion: it is a sequence of DER
  elements, nested at most 128 deep, in which no length is indefinite or longer than necessary and no
  string is constructed, and the walk that looks for BER finds nothing in it.  Without a conversion
  it is the first element of the input, as it is, and the input behind it is left; but with a
  conversion all of the input is converted and nothing is left, not just one element as the header
  says.
\<close>

theorem ber_to_der_result:
  assumes "CBS_asn1_ber_to_der al inp = (Some (out, storage), rest)" "length inp \<le> 2 ^ 62"
  shows "ber_free kMaxDepth out \<and> cbs_find_ber 0 out = Some False
    \<and> (case storage of None \<Rightarrow> inp = out @ rest | Some buf \<Rightarrow> rest = [])"
proof -
  have "ber_free kMaxDepth out \<and> (case storage of None \<Rightarrow> inp = out @ rest | Some buf \<Rightarrow> rest = [])"
  proof (cases "cbs_find_ber 0 inp")
    case None
    then show ?thesis using assms(1) by (simp add: CBS_asn1_ber_to_der_def)
  next
    case (Some found)
    show ?thesis
    proof (cases found)
      case False
      then obtain e where e: "CBS_get_any_asn1_element inp = (Some e, rest)" "out = el_bytes e" "storage = None"
        using assms(1) Some by (auto simp: CBS_asn1_ber_to_der_def split: prod.splits option.splits)
      have "ber_free kMaxDepth inp" using find_ber_free [of 0 inp] Some False by simp
      then show ?thesis using first_element_free [OF _ e(1)] any_asn1_element_sound [OF e(1)] e(2,3) by simp
    next
      case True
      then obtain cb cb' cb'' buf len where c: "CBB_init al 0 (length inp) = Some cb"
        "cbs_convert_ber (Suc (length inp)) al inp 0 0 False 0 cb = Some (True, rest, cb')"
        "CBB_finish al 0 cb' = (Some (buf, len), cb'')" "out = take len buf" "storage = Some buf"
        using assms(1) Some unfolding CBS_asn1_ber_to_der_def
        by (auto split: option.splits prod.splits bool.splits)
      have "inp \<noteq> []" using Some True by (auto simp: cbs_find_ber.simps [of 0])
      then show ?thesis using conversion_free [OF c(1) assms(2) _ _ c(2,3)] convert_rest [OF c(2)] c(4,5) assms(2) by simp
    qed
  qed
  then show ?thesis using ber_free_find [of kMaxDepth out] by simp
qed

theorem ber_to_der_result_witness:
  "CBS_asn1_ber_to_der (\<lambda>_. Some (\<lambda>_. 0)) [0x24, 0x80, 4, 1, 0x61, 0, 0] = (Some ([4, 1, 0x61], Some [4, 1, 0x61, 0, 0, 0, 0]), [])
    \<and> ber_free kMaxDepth [4, 1, 0x61]"
proof -
  have r: "CBS_asn1_ber_to_der (\<lambda>_. Some (\<lambda>_. 0)) [0x24, 0x80, 4, 1, 0x61, 0, 0] = (Some ([4, 1, 0x61], Some [4, 1, 0x61, 0, 0, 0, 0]), [])"
    by (rule example_conversion)
  from ber_to_der_result [OF r] r show ?thesis by simp
qed

text \<open>
  Claim C36.  The conversion returns: whatever the input, the builder and the depth, fuel for one step
  more than the input has bytes is enough, and any more gives the same result.
\<close>

theorem convert_terminates:
  "cbs_convert_ber (Suc (length inp) + k) al inp out t eoc depth st = cbs_convert_ber (Suc (length inp)) al inp out t eoc depth st
   \<and> cbs_convert_ber (Suc (length inp)) al inp out t eoc depth st \<noteq> None"
proof -
  obtain x where "cbs_convert_ber (Suc (length inp)) al inp out t eoc depth st = Some x" using convert_enough [of inp "Suc (length inp)"] by blast
  from this convert_fuel [OF this, of k] show ?thesis by simp
qed

end
