(* ===== verification/Buf.thy ===== *)
theory Buf imports Mem "HOL-Library.Monad_Syntax" begin

text \<open>
  Growing buffers (\<open>crypto/buf/buf.c\<close>), the checked block operations of \<open>crypto/internal.h\<close> they
  are written with, and reference counts (\<open>crypto/refcount.c\<close>).

  From here on an operation that the C standard leaves undefined on some states, or that fails
  an assertion or aborts there, gives an option: \<open>None\<close> stands for that undefined behaviour and
  for nothing else, so that its absence is a theorem.  A failure that the code reports is a
  value.
\<close>

section \<open>Blocks of memory\<close>

text \<open>
  A block is the list of its bytes; a pointer into it is an offset.  Copying outside of a block
  is undefined.
\<close>

definition ensure :: "bool \<Rightarrow> unit option" where
  "ensure b = (if b then Some () else None)"

lemma ensure_simps [simp]:
  "ensure True = Some ()" "ensure False = None" "ensure b = Some u \<longleftrightarrow> b" "ensure b = None \<longleftrightarrow> \<not> b"
  by (simp_all add: ensure_def)

lemma ensure_bind [simp]: "ensure b \<bind> f = (if b then f () else None)"
  by simp

definition OPENSSL_memcpy :: "bytes \<Rightarrow> nat \<Rightarrow> bytes \<Rightarrow> nat \<Rightarrow> nat \<Rightarrow> bytes option" where
  "OPENSSL_memcpy dst d src s n =
     (if n = 0 then Some dst
      else if d + n \<le> length dst \<and> s + n \<le> length src
        then Some (take d dst @ take n (drop s src) @ drop (d + n) dst)
      else None)"

definition OPENSSL_memmove :: "bytes \<Rightarrow> nat \<Rightarrow> nat \<Rightarrow> nat \<Rightarrow> bytes option" where
  "OPENSSL_memmove blk d s n = (if n = 0 then Some blk else OPENSSL_memcpy blk d blk s n)"

definition OPENSSL_memset :: "bytes \<Rightarrow> nat \<Rightarrow> u8 \<Rightarrow> nat \<Rightarrow> bytes option" where
  "OPENSSL_memset dst d c n =
     (if n = 0 then Some dst
      else if d + n \<le> length dst then Some (take d dst @ replicate n c @ drop (d + n) dst)
      else None)"

lemma memcpy_eq:
  "d + n \<le> length dst \<Longrightarrow> s + n \<le> length src \<Longrightarrow>
    OPENSSL_memcpy dst d src s n = Some (take d dst @ take n (drop s src) @ drop (d + n) dst)"
  by (simp add: OPENSSL_memcpy_def)

lemma memset_eq:
  "d + n \<le> length dst \<Longrightarrow>
    OPENSSL_memset dst d c n = Some (take d dst @ replicate n c @ drop (d + n) dst)"
  by (simp add: OPENSSL_memset_def)

lemma memmove_eq:
  "d + n \<le> length b \<Longrightarrow> s + n \<le> length b \<Longrightarrow>
    OPENSSL_memmove b d s n = Some (take d b @ take n (drop s b) @ drop (d + n) b)"
  by (simp add: OPENSSL_memmove_def memcpy_eq)

text \<open>Differences of two \<open>size_t\<close>, and conversions of a \<open>size_t\<close> to \<open>int\<close> and \<open>long\<close>.\<close>

definition size_sub :: "nat \<Rightarrow> nat \<Rightarrow> nat" where
  "size_sub a b = nat ((int a - int b) mod 2 ^ 64)"

definition size_of_int :: "int \<Rightarrow> nat" where
  "size_of_int i = nat (i mod 2 ^ 64)"

definition c_int :: "nat \<Rightarrow> int" where
  "c_int n = (let m = int n mod 2 ^ 32 in if m < 2 ^ 31 then m else m - 2 ^ 32)"

definition c_long :: "nat \<Rightarrow> int" where
  "c_long n = (let m = int n mod 2 ^ 64 in if m < 2 ^ 63 then m else m - 2 ^ 64)"

lemma size_sub_id [size_simps]:
  assumes "b \<le> a" "a < 2 ^ 64" shows "size_sub a b = a - b"
proof -
  have "(int a - int b) mod 2 ^ 64 = int a - int b"
    by (rule mod_pos_pos_trivial) (use assms in auto)
  with assms show ?thesis by (simp only: size_sub_def nat_diff_distrib nat_int)
qed

lemma size_of_int_id [size_simps]: "0 \<le> i \<Longrightarrow> i < 2 ^ 64 \<Longrightarrow> size_of_int i = nat i"
  by (simp add: size_of_int_def)

lemma c_int_id [size_simps]: "n < 2 ^ 31 \<Longrightarrow> c_int n = int n"
  by (simp add: c_int_def Let_def)

lemma c_long_id [size_simps]: "n < 2 ^ 63 \<Longrightarrow> c_long n = int n"
  by (simp add: c_long_def Let_def)

section \<open>Reference counts\<close>

definition CRYPTO_REFCOUNT_MAX :: u32 where
  "CRYPTO_REFCOUNT_MAX = 0xffffffff"

definition CRYPTO_refcount_inc :: "u32 \<Rightarrow> u32" where
  "CRYPTO_refcount_inc cnt = (if cnt \<noteq> CRYPTO_REFCOUNT_MAX then cnt + 1 else cnt)"

definition CRYPTO_refcount_dec_and_test_zero :: "u32 \<Rightarrow> (bool \<times> u32) option" where
  "CRYPTO_refcount_dec_and_test_zero cnt =
     (if cnt = 0 then None
      else if cnt = CRYPTO_REFCOUNT_MAX then Some (False, cnt)
      else Some (cnt - 1 = 0, cnt - 1))"

lemma refcount_inc_pos: "CRYPTO_refcount_inc n \<noteq> 0"
proof
  assume z: "CRYPTO_refcount_inc n = 0"
  then have "n + 1 = 0" and "n \<noteq> CRYPTO_REFCOUNT_MAX"
    by (auto simp: CRYPTO_refcount_inc_def CRYPTO_REFCOUNT_MAX_def split: if_splits)
  from this(1) have "n = - 1" by (simp add: eq_neg_iff_add_eq_0)
  with \<open>n \<noteq> CRYPTO_REFCOUNT_MAX\<close> show False by (simp add: CRYPTO_REFCOUNT_MAX_def)
qed

lemma refcount_dec_defined: "n \<noteq> 0 \<Longrightarrow> \<exists>z n'. CRYPTO_refcount_dec_and_test_zero n = Some (z, n')"
  by (auto simp: CRYPTO_refcount_dec_and_test_zero_def)

lemma refcount_dec_pos:
  "CRYPTO_refcount_dec_and_test_zero n = Some (False, n') \<Longrightarrow> n' \<noteq> 0"
  by (auto simp: CRYPTO_refcount_dec_and_test_zero_def CRYPTO_REFCOUNT_MAX_def split: if_splits)

section \<open>BUF\_MEM\<close>

text \<open>
  The data pointer is the block it points into and an offset, which is zero unless a reader of
  static memory has moved it (\<open>bio_mem.c\<close>).
\<close>

record buf_mem =
  bm_length :: nat
  bm_data :: "bytes option"
  bm_off :: nat
  bm_max :: nat

definition sizeof_buf_mem :: nat where "sizeof_buf_mem = 24"

definition BUF_MEM_empty :: buf_mem where
  "BUF_MEM_empty = \<lparr>bm_length = 0, bm_data = None, bm_off = 0, bm_max = 0\<rparr>"

definition BUF_MEM_new :: "allocator \<Rightarrow> buf_mem option" where
  "BUF_MEM_new al = map_option (\<lambda>_. BUF_MEM_empty) (OPENSSL_zalloc al sizeof_buf_mem)"

definition BUF_MEM_reserve :: "allocator \<Rightarrow> nat \<Rightarrow> buf_mem \<Rightarrow> (bool \<times> buf_mem) option" where
  "BUF_MEM_reserve al cap buf =
     (if cap \<le> bm_max buf then Some (True, buf)
      else let n = size_add cap 3
           in if n < cap then Some (False, buf)
              else let n = n div 3; alloc_size = size_mul n 4
                   in if alloc_size div 4 \<noteq> n then Some (False, buf)
                      else do {
                        ensure (bm_off buf = 0);
                        case OPENSSL_realloc al (bm_data buf) alloc_size of
                          None \<Rightarrow> Some (False, buf)
                        | Some new_buf \<Rightarrow> Some (True, buf\<lparr>bm_data := Some new_buf, bm_max := alloc_size\<rparr>)
                      })"

definition BUF_MEM_grow :: "allocator \<Rightarrow> nat \<Rightarrow> buf_mem \<Rightarrow> (nat \<times> buf_mem) option" where
  "BUF_MEM_grow al len buf = do {
     (ok, buf) \<leftarrow> BUF_MEM_reserve al len buf;
     if \<not> ok then Some (0, buf)
     else do {
       buf \<leftarrow> (if bm_length buf < len
               then do {
                 data \<leftarrow> bm_data buf;
                 data \<leftarrow> OPENSSL_memset data (bm_off buf + bm_length buf) 0 (len - bm_length buf);
                 Some (buf\<lparr>bm_data := Some data\<rparr>)
               }
               else Some buf);
       Some (len, buf\<lparr>bm_length := len\<rparr>)
     }
   }"

definition BUF_MEM_grow_clean :: "allocator \<Rightarrow> nat \<Rightarrow> buf_mem \<Rightarrow> (nat \<times> buf_mem) option" where
  "BUF_MEM_grow_clean al len buf = BUF_MEM_grow al len buf"

definition BUF_MEM_append :: "allocator \<Rightarrow> bytes \<Rightarrow> nat \<Rightarrow> buf_mem \<Rightarrow> (bool \<times> buf_mem) option" where
  "BUF_MEM_append al inp len buf =
     (if len = 0 then Some (True, buf)
      else let new_len = size_add (bm_length buf) len
           in if new_len < len then Some (False, buf)
              else do {
                (ok, buf) \<leftarrow> BUF_MEM_reserve al new_len buf;
                if \<not> ok then Some (False, buf)
                else do {
                  data \<leftarrow> bm_data buf;
                  data \<leftarrow> OPENSSL_memcpy data (bm_off buf + bm_length buf) inp 0 len;
                  Some (True, buf\<lparr>bm_data := Some data, bm_length := new_len\<rparr>)
                }
              })"

text \<open>The deprecated names.\<close>

definition BUF_strdup :: "allocator \<Rightarrow> bytes \<Rightarrow> bytes option" where
  "BUF_strdup al str = OPENSSL_strdup al str"

definition BUF_strnlen :: "bytes \<Rightarrow> nat \<Rightarrow> nat" where
  "BUF_strnlen str max_len = OPENSSL_strnlen str max_len"

definition BUF_strndup :: "allocator \<Rightarrow> bytes \<Rightarrow> nat \<Rightarrow> bytes option" where
  "BUF_strndup al str sz = OPENSSL_strndup al str sz"

definition BUF_strlcpy :: "bytes \<Rightarrow> bytes \<Rightarrow> nat \<Rightarrow> bytes \<times> nat" where
  "BUF_strlcpy dst src dst_size = OPENSSL_strlcpy dst src dst_size"

definition BUF_strlcat :: "bytes \<Rightarrow> bytes \<Rightarrow> nat \<Rightarrow> bytes \<times> nat" where
  "BUF_strlcat dst src dst_size = OPENSSL_strlcat dst src dst_size"

definition BUF_memdup :: "allocator \<Rightarrow> bytes \<Rightarrow> nat \<Rightarrow> bytes option" where
  "BUF_memdup al data sz = OPENSSL_memdup al data sz"

subsection \<open>What the operations do\<close>

text \<open>
  The contents of a buffer are its first \<open>bm_length\<close> bytes from the data pointer on.  A buffer is
  well-formed when it owns a block of exactly \<open>bm_max\<close> bytes that holds its contents.
\<close>

definition bm_bytes :: "buf_mem \<Rightarrow> bytes" where
  "bm_bytes b = (case bm_data b of None \<Rightarrow> [] | Some d \<Rightarrow> take (bm_length b) (drop (bm_off b) d))"

definition bm_wf :: "buf_mem \<Rightarrow> bool" where
  "bm_wf b \<longleftrightarrow> bm_off b = 0 \<and> bm_length b \<le> bm_max b \<and> bm_max b < 2 ^ 64
     \<and> (case bm_data b of None \<Rightarrow> bm_max b = 0 | Some d \<Rightarrow> length d = bm_max b)"

lemma bm_wf_empty [simp]: "bm_wf BUF_MEM_empty" "bm_bytes BUF_MEM_empty = []"
  by (simp_all add: bm_wf_def bm_bytes_def BUF_MEM_empty_def)

lemma length_bm_bytes: "bm_wf b \<Longrightarrow> length (bm_bytes b) = bm_length b"
  by (auto simp: bm_wf_def bm_bytes_def split: option.splits)

lemma reserve_rounds_up:
  assumes "cap < 2 ^ 64" "\<not> size_add cap 3 < cap" "size_mul (size_add cap 3 div 3) 4 div 4 = size_add cap 3 div 3"
  shows "cap \<le> size_mul (size_add cap 3 div 3) 4" "size_mul (size_add cap 3 div 3) 4 < 2 ^ 64"
proof -
  from assms(1,2) size_add_wraps [of cap 3] have "size_add cap 3 = cap + 3"
    by (simp add: size_simps)
  with assms(3) have m: "size_mul ((cap + 3) div 3) 4 div 4 = (cap + 3) div 3" by simp
  then have "size_mul ((cap + 3) div 3) 4 \<ge> (cap + 3) div 3 * 4" by linarith
  moreover have "cap \<le> (cap + 3) div 3 * 4" by linarith
  ultimately show "cap \<le> size_mul (size_add cap 3 div 3) 4"
    using \<open>size_add cap 3 = cap + 3\<close> by simp
  show "size_mul (size_add cap 3 div 3) 4 < 2 ^ 64" by (simp add: size_mul_def)
qed

lemma BUF_MEM_reserve_wf:
  assumes "bm_wf b" "cap < 2 ^ 64"
  obtains ok b' where "BUF_MEM_reserve al cap b = Some (ok, b')" "bm_wf b'" "bm_bytes b' = bm_bytes b"
    "bm_length b' = bm_length b" "ok \<longrightarrow> cap \<le> bm_max b'" "\<not> ok \<longrightarrow> b' = b"
proof (cases "cap \<le> bm_max b \<or> size_add cap 3 < cap
    \<or> size_mul (size_add cap 3 div 3) 4 div 4 \<noteq> size_add cap 3 div 3
    \<or> OPENSSL_realloc al (bm_data b) (size_mul (size_add cap 3 div 3) 4) = None")
  case True
  then show thesis using that [of "cap \<le> bm_max b" b] assms
    by (auto simp: BUF_MEM_reserve_def Let_def bm_wf_def)
next
  case False
  let ?n = "size_mul (size_add cap 3 div 3) 4"
  from False obtain d where d: "OPENSSL_realloc al (bm_data b) ?n = Some d" by blast
  have l: "cap \<le> ?n" "?n < 2 ^ 64" using reserve_rounds_up [OF assms(2)] False by auto
  let ?b = "b\<lparr>bm_data := Some d, bm_max := ?n\<rparr>"
  have ld: "length d = ?n" by (rule OPENSSL_realloc_length [OF d])
  have "bm_wf ?b" using assms(1) False l ld by (auto simp: bm_wf_def)
  moreover have "take (bm_length b) d = bm_bytes b"
  proof (cases "bm_data b")
    case None
    with assms(1) show ?thesis by (simp add: bm_wf_def bm_bytes_def)
  next
    case (Some old)
    with OPENSSL_realloc_keeps [of al old ?n d "bm_length b"] d assms(1) False l
    show ?thesis by (auto simp: bm_wf_def bm_bytes_def)
  qed
  then have "bm_bytes ?b = bm_bytes b" using assms(1) by (simp add: bm_bytes_def bm_wf_def)
  ultimately show thesis using that [of True ?b] False d l assms(1)
    by (auto simp: BUF_MEM_reserve_def Let_def bm_wf_def)
qed

lemma BUF_MEM_append_wf:
  assumes wf: "bm_wf b" and n: "n \<le> length xs" "n < 2 ^ 64"
  obtains ok b' where "BUF_MEM_append al xs n b = Some (ok, b')" "bm_wf b'"
    "bm_bytes b' = bm_bytes b @ (if ok then take n xs else [])"
proof (cases "n = 0 \<or> size_add (bm_length b) n < n")
  case True
  then show thesis using that [of "n = 0" b] wf by (auto simp: BUF_MEM_append_def Let_def)
next
  case False
  let ?l = "size_add (bm_length b) n"
  have lb: "bm_length b < 2 ^ 64" using wf by (simp add: bm_wf_def)
  with False size_add_wraps [of n "bm_length b"] n have l: "?l = bm_length b + n" "bm_length b + n < 2 ^ 64"
    by (auto simp: size_add_def add.commute)
  obtain ok b1 where r: "BUF_MEM_reserve al ?l b = Some (ok, b1)" "bm_wf b1" "bm_bytes b1 = bm_bytes b"
    "bm_length b1 = bm_length b" "ok \<longrightarrow> ?l \<le> bm_max b1" "\<not> ok \<longrightarrow> b1 = b"
    by (rule BUF_MEM_reserve_wf [OF wf, where al = al and cap = ?l]) (use l in simp)
  show thesis
  proof (cases ok)
    case False
    with r that [of False b] \<open>\<not> (n = 0 \<or> _)\<close> wf show thesis
      by (auto simp: BUF_MEM_append_def Let_def)
  next
    case True
    with r l have m: "bm_length b + n \<le> bm_max b1" by simp
    with r(2) False obtain d where d: "bm_data b1 = Some d" "length d = bm_max b1" "bm_off b1 = 0"
      by (auto simp: bm_wf_def split: option.splits)
    let ?d = "take (bm_length b) d @ take n xs @ drop (bm_length b + n) d"
    have c: "OPENSSL_memcpy d (bm_length b) xs 0 n = Some ?d"
      using memcpy_eq [of "bm_length b" n d 0 xs] m d n by simp
    let ?b = "b1\<lparr>bm_data := Some ?d, bm_length := ?l\<rparr>"
    have "BUF_MEM_append al xs n b = Some (True, ?b)"
      using False True r d c by (simp add: BUF_MEM_append_def Let_def)
    moreover have "bm_wf ?b" using r(2) d m n l by (simp add: bm_wf_def)
    moreover have "bm_bytes ?b = bm_bytes b1 @ take n xs"
      using d m n l r(4) by (simp add: bm_bytes_def)
    ultimately show thesis using that [of True ?b] r(3) by simp
  qed
qed

lemma BUF_MEM_grow_wf:
  assumes wf: "bm_wf b" and n: "n < 2 ^ 64"
  obtains r b' where "BUF_MEM_grow al n b = Some (r, b')" "bm_wf b'"
    "(r = n \<and> bm_bytes b' = take n (bm_bytes b @ replicate (n - bm_length b) 0)) \<or> (r = 0 \<and> b' = b)"
proof -
  obtain ok b1 where r: "BUF_MEM_reserve al n b = Some (ok, b1)" "bm_wf b1" "bm_bytes b1 = bm_bytes b"
    "bm_length b1 = bm_length b" "ok \<longrightarrow> n \<le> bm_max b1" "\<not> ok \<longrightarrow> b1 = b"
    by (rule BUF_MEM_reserve_wf [OF wf n, where al = al])
  consider "\<not> ok" | "ok" "bm_length b < n" | "ok" "n \<le> bm_length b" by linarith
  then show thesis
  proof cases
    case 1
    with r that [of 0 b] wf show thesis by (auto simp: BUF_MEM_grow_def)
  next
    case 2
    with r obtain d where d: "bm_data b1 = Some d" "length d = bm_max b1" "bm_off b1 = 0"
      by (auto simp: bm_wf_def split: option.splits)
    let ?l = "bm_length b"
    let ?d = "take ?l d @ replicate (n - ?l) 0 @ drop n d"
    have c: "OPENSSL_memset d ?l 0 (n - ?l) = Some ?d"
      using memset_eq [of ?l "n - ?l" d 0] 2 r(5) d by simp
    let ?b = "b1\<lparr>bm_data := Some ?d, bm_length := n\<rparr>"
    have "BUF_MEM_grow al n b = Some (n, ?b)" using 2 r d c by (simp add: BUF_MEM_grow_def)
    moreover have "bm_wf ?b" using r(2,5) 2 d by (simp add: bm_wf_def)
    moreover have "bm_bytes b1 = take ?l d" using d r(4) by (simp add: bm_bytes_def)
    then have "bm_bytes ?b = bm_bytes b1 @ replicate (n - ?l) 0"
      using d 2 r(5) by (simp add: bm_bytes_def)
    moreover have "length (bm_bytes b1) = ?l" using length_bm_bytes [OF r(2)] r(4) by simp
    ultimately show thesis using that [of n ?b] 2 r(3) by simp
  next
    case 3
    let ?b = "b1\<lparr>bm_length := n\<rparr>"
    have "BUF_MEM_grow al n b = Some (n, ?b)" using 3 r by (simp add: BUF_MEM_grow_def)
    moreover have "bm_wf ?b" using r(2,4) 3 by (auto simp: bm_wf_def split: option.splits)
    moreover have "bm_bytes ?b = take n (bm_bytes b1)"
      using 3 r(4) by (simp add: bm_bytes_def min_def split: option.split)
    ultimately show thesis using that [of n ?b] 3 r(3) by simp
  qed
qed

end
