(* ===== verification/Bio.thy ===== *)
theory Bio imports Buf begin

text \<open>
  Abstract input and output (\<open>crypto/bio/bio.c\<close>): the BIO object, its flags and reference count.

  BIOs point to each other (the two ends of a pair, the links of a chain), so they live in a
  store that maps addresses to objects; a NULL pointer is \<open>None\<close>.  Looking up an address that is
  not in the store is a use of freed memory, hence undefined.  The private data behind
  \<open>bio->ptr\<close> is kept with its BIO: no two BIOs share it.  The methods are the two static tables of
  \<open>pair.c\<close> and \<open>bio\_mem.c\<close>; an operation on a BIO looks its method up there
  (theory \<open>BioIo\<close>).
\<close>

section \<open>Objects\<close>

record bio_bio_st =
  bb_peer :: "nat option"
  bb_closed :: bool
  bb_len :: nat
  bb_offset :: nat
  bb_size :: nat
  bb_buf :: "bytes option"
  bb_request :: nat

datatype bio_data = No_data | Pair_data bio_bio_st | Mem_data buf_mem

datatype bio_method = methods_biop | mem_method

record bio_st =
  bio_method :: bio_method
  bio_init :: bool
  bio_shutdown :: int
  bio_flags :: u32
  bio_retry_reason :: int
  bio_num :: int
  bio_references :: u32
  bio_ptr :: bio_data
  next_bio :: "nat option"
  num_read :: u64
  num_write :: u64

type_synonym bio_store = "nat \<rightharpoonup> bio_st"

definition sizeof_bio_bio_st :: nat where "sizeof_bio_bio_st = 56"
definition sizeof_bio_st :: nat where "sizeof_bio_st = 72"

text \<open>Assignment to a field of the BIO at an address, and access to the private data.\<close>

definition at_bio :: "nat \<Rightarrow> (bio_st \<Rightarrow> bio_st) \<Rightarrow> bio_store \<Rightarrow> bio_store option" where
  "at_bio p f h = (case h p of None \<Rightarrow> None | Some x \<Rightarrow> Some (h(p \<mapsto> f x)))"

definition pair_of :: "bio_st \<Rightarrow> bio_bio_st option" where
  "pair_of x = (case bio_ptr x of Pair_data b \<Rightarrow> Some b | _ \<Rightarrow> None)"

definition mem_of :: "bio_st \<Rightarrow> buf_mem option" where
  "mem_of x = (case bio_ptr x of Mem_data b \<Rightarrow> Some b | _ \<Rightarrow> None)"

definition pair_at :: "bio_store \<Rightarrow> nat \<Rightarrow> bio_bio_st option" where
  "pair_at h p = do { x \<leftarrow> h p; pair_of x }"

definition mem_at :: "bio_store \<Rightarrow> nat \<Rightarrow> buf_mem option" where
  "mem_at h p = do { x \<leftarrow> h p; mem_of x }"

definition set_pair :: "nat \<Rightarrow> bio_bio_st \<Rightarrow> bio_store \<Rightarrow> bio_store option" where
  "set_pair p b = at_bio p (\<lambda>x. x\<lparr>bio_ptr := Pair_data b\<rparr>)"

definition set_mem :: "nat \<Rightarrow> buf_mem \<Rightarrow> bio_store \<Rightarrow> bio_store option" where
  "set_mem p b = at_bio p (\<lambda>x. x\<lparr>bio_ptr := Mem_data b\<rparr>)"

text \<open>The requests of \<open>BIO_ctrl\<close>, by the numbers the header gives them.\<close>

definition BIO_CTRL_RESET :: int where "BIO_CTRL_RESET = 1"
definition BIO_CTRL_EOF :: int where "BIO_CTRL_EOF = 2"
definition BIO_CTRL_INFO :: int where "BIO_CTRL_INFO = 3"
definition BIO_CTRL_GET_CLOSE :: int where "BIO_CTRL_GET_CLOSE = 8"
definition BIO_CTRL_SET_CLOSE :: int where "BIO_CTRL_SET_CLOSE = 9"
definition BIO_CTRL_PENDING :: int where "BIO_CTRL_PENDING = 10"
definition BIO_CTRL_FLUSH :: int where "BIO_CTRL_FLUSH = 11"
definition BIO_CTRL_WPENDING :: int where "BIO_CTRL_WPENDING = 13"
definition BIO_C_SET_BUF_MEM :: int where "BIO_C_SET_BUF_MEM = 114"
definition BIO_C_GET_BUF_MEM_PTR :: int where "BIO_C_GET_BUF_MEM_PTR = 115"
definition BIO_C_SET_BUF_MEM_EOF_RETURN :: int where "BIO_C_SET_BUF_MEM_EOF_RETURN = 130"
definition BIO_C_GET_WRITE_BUF_SIZE :: int where "BIO_C_GET_WRITE_BUF_SIZE = 137"
definition BIO_C_GET_WRITE_GUARANTEE :: int where "BIO_C_GET_WRITE_GUARANTEE = 140"
definition BIO_C_GET_READ_REQUEST :: int where "BIO_C_GET_READ_REQUEST = 141"
definition BIO_C_SHUTDOWN_WR :: int where "BIO_C_SHUTDOWN_WR = 142"
definition BIO_C_RESET_READ_REQUEST :: int where "BIO_C_RESET_READ_REQUEST = 147"

lemmas ctrl_numbers =
  BIO_CTRL_RESET_def BIO_CTRL_EOF_def BIO_CTRL_INFO_def BIO_CTRL_GET_CLOSE_def
  BIO_CTRL_SET_CLOSE_def BIO_CTRL_PENDING_def BIO_CTRL_FLUSH_def BIO_CTRL_WPENDING_def
  BIO_C_SET_BUF_MEM_def BIO_C_GET_BUF_MEM_PTR_def BIO_C_SET_BUF_MEM_EOF_RETURN_def
  BIO_C_GET_WRITE_BUF_SIZE_def BIO_C_GET_WRITE_GUARANTEE_def BIO_C_GET_READ_REQUEST_def
  BIO_C_SHUTDOWN_WR_def BIO_C_RESET_READ_REQUEST_def

text \<open>
  The untyped pointer argument of a request, and what the request stores through it: a pointer to
  the data of a memory BIO, given as the bytes that it points to, or its buffer.
\<close>

datatype ctrl_arg = Null_arg | Bio_arg nat | Buf_arg buf_mem | Out_arg
datatype ctrl_out = No_out | Data_out bytes | Buf_out buf_mem

text \<open>The conversion of a \<open>long\<close> to \<open>int\<close>.\<close>

definition int_of_long :: "int \<Rightarrow> int" where
  "int_of_long n = signed_take_bit 31 n"

section \<open>Flags\<close>

definition BIO_FLAGS_READ :: u32 where "BIO_FLAGS_READ = 0x01"
definition BIO_FLAGS_WRITE :: u32 where "BIO_FLAGS_WRITE = 0x02"
definition BIO_FLAGS_IO_SPECIAL :: u32 where "BIO_FLAGS_IO_SPECIAL = 0x04"
definition BIO_FLAGS_RWS :: u32 where
  "BIO_FLAGS_RWS = (BIO_FLAGS_READ OR BIO_FLAGS_WRITE OR BIO_FLAGS_IO_SPECIAL)"
definition BIO_FLAGS_SHOULD_RETRY :: u32 where "BIO_FLAGS_SHOULD_RETRY = 0x08"
definition BIO_FLAGS_MEM_RDONLY :: u32 where "BIO_FLAGS_MEM_RDONLY = 0x200"

definition kRetryFlags :: u32 where
  "kRetryFlags = (BIO_FLAGS_RWS OR BIO_FLAGS_SHOULD_RETRY)"

lemmas flag_numbers =
  BIO_FLAGS_READ_def BIO_FLAGS_WRITE_def BIO_FLAGS_IO_SPECIAL_def BIO_FLAGS_RWS_def
  BIO_FLAGS_SHOULD_RETRY_def BIO_FLAGS_MEM_RDONLY_def kRetryFlags_def

definition BIO_set_flags :: "nat \<Rightarrow> u32 \<Rightarrow> bio_store \<Rightarrow> bio_store option" where
  "BIO_set_flags bio flags = at_bio bio (\<lambda>x. x\<lparr>bio_flags := bio_flags x OR flags\<rparr>)"

definition BIO_test_flags :: "nat \<Rightarrow> u32 \<Rightarrow> bio_store \<Rightarrow> u32 option" where
  "BIO_test_flags bio flags h = do { x \<leftarrow> h bio; Some (bio_flags x AND flags) }"

definition BIO_should_read :: "nat \<Rightarrow> bio_store \<Rightarrow> u32 option" where
  "BIO_should_read bio = BIO_test_flags bio BIO_FLAGS_READ"

definition BIO_should_write :: "nat \<Rightarrow> bio_store \<Rightarrow> u32 option" where
  "BIO_should_write bio = BIO_test_flags bio BIO_FLAGS_WRITE"

definition BIO_should_retry :: "nat \<Rightarrow> bio_store \<Rightarrow> u32 option" where
  "BIO_should_retry bio = BIO_test_flags bio BIO_FLAGS_SHOULD_RETRY"

definition BIO_should_io_special :: "nat \<Rightarrow> bio_store \<Rightarrow> u32 option" where
  "BIO_should_io_special bio = BIO_test_flags bio BIO_FLAGS_IO_SPECIAL"

definition BIO_get_retry_reason :: "nat \<Rightarrow> bio_store \<Rightarrow> int option" where
  "BIO_get_retry_reason bio h = do { x \<leftarrow> h bio; Some (bio_retry_reason x) }"

definition BIO_set_retry_reason :: "nat \<Rightarrow> int \<Rightarrow> bio_store \<Rightarrow> bio_store option" where
  "BIO_set_retry_reason bio reason = at_bio bio (\<lambda>x. x\<lparr>bio_retry_reason := reason\<rparr>)"

definition BIO_clear_flags :: "nat \<Rightarrow> u32 \<Rightarrow> bio_store \<Rightarrow> bio_store option" where
  "BIO_clear_flags bio flags = at_bio bio (\<lambda>x. x\<lparr>bio_flags := bio_flags x AND NOT flags\<rparr>)"

definition BIO_set_retry_read :: "nat \<Rightarrow> bio_store \<Rightarrow> bio_store option" where
  "BIO_set_retry_read bio =
     at_bio bio (\<lambda>x. x\<lparr>bio_flags := bio_flags x OR (BIO_FLAGS_READ OR BIO_FLAGS_SHOULD_RETRY)\<rparr>)"

definition BIO_set_retry_write :: "nat \<Rightarrow> bio_store \<Rightarrow> bio_store option" where
  "BIO_set_retry_write bio =
     at_bio bio (\<lambda>x. x\<lparr>bio_flags := bio_flags x OR (BIO_FLAGS_WRITE OR BIO_FLAGS_SHOULD_RETRY)\<rparr>)"

definition BIO_set_retry_special :: "nat \<Rightarrow> bio_store \<Rightarrow> bio_store option" where
  "BIO_set_retry_special bio =
     at_bio bio (\<lambda>x. x\<lparr>bio_flags := bio_flags x OR (BIO_FLAGS_READ OR BIO_FLAGS_IO_SPECIAL)\<rparr>)"

definition BIO_get_retry_flags :: "nat \<Rightarrow> bio_store \<Rightarrow> u32 option" where
  "BIO_get_retry_flags bio h = do { x \<leftarrow> h bio; Some (bio_flags x AND kRetryFlags) }"

definition BIO_clear_retry_flags :: "nat \<Rightarrow> bio_store \<Rightarrow> bio_store option" where
  "BIO_clear_retry_flags bio =
     at_bio bio (\<lambda>x. x\<lparr>bio_flags := bio_flags x AND NOT kRetryFlags, bio_retry_reason := 0\<rparr>)"

definition BIO_copy_next_retry :: "nat \<Rightarrow> bio_store \<Rightarrow> bio_store option" where
  "BIO_copy_next_retry bio h = do {
     h \<leftarrow> BIO_clear_retry_flags bio h;
     x \<leftarrow> h bio;
     n \<leftarrow> next_bio x;
     flags \<leftarrow> BIO_get_retry_flags n h;
     h \<leftarrow> BIO_set_flags bio flags h;
     y \<leftarrow> h n;
     at_bio bio (\<lambda>x. x\<lparr>bio_retry_reason := bio_retry_reason y\<rparr>) h
   }"

section \<open>Accessors\<close>

definition BIO_up_ref :: "nat \<Rightarrow> bio_store \<Rightarrow> (int \<times> bio_store) option" where
  "BIO_up_ref bio h = do {
     h \<leftarrow> at_bio bio (\<lambda>x. x\<lparr>bio_references := CRYPTO_refcount_inc (bio_references x)\<rparr>) h;
     Some (1, h)
   }"

definition BIO_number_read :: "nat \<Rightarrow> bio_store \<Rightarrow> u64 option" where
  "BIO_number_read bio h = do { x \<leftarrow> h bio; Some (num_read x) }"

definition BIO_number_written :: "nat \<Rightarrow> bio_store \<Rightarrow> u64 option" where
  "BIO_number_written bio h = do { x \<leftarrow> h bio; Some (num_write x) }"

definition BIO_set_init :: "nat \<Rightarrow> bool \<Rightarrow> bio_store \<Rightarrow> bio_store option" where
  "BIO_set_init bio ini = at_bio bio (\<lambda>x. x\<lparr>bio_init := ini\<rparr>)"

definition BIO_get_init :: "nat \<Rightarrow> bio_store \<Rightarrow> bool option" where
  "BIO_get_init bio h = do { x \<leftarrow> h bio; Some (bio_init x) }"

definition BIO_set_shutdown :: "nat \<Rightarrow> int \<Rightarrow> bio_store \<Rightarrow> bio_store option" where
  "BIO_set_shutdown bio shut = at_bio bio (\<lambda>x. x\<lparr>bio_shutdown := shut\<rparr>)"

definition BIO_get_shutdown :: "nat \<Rightarrow> bio_store \<Rightarrow> int option" where
  "BIO_get_shutdown bio h = do { x \<leftarrow> h bio; Some (bio_shutdown x) }"

section \<open>Chains\<close>

definition BIO_pop :: "nat option \<Rightarrow> bio_store \<Rightarrow> (nat option \<times> bio_store) option" where
  "BIO_pop bio h =
     (case bio of None \<Rightarrow> Some (None, h)
      | Some p \<Rightarrow> do {
          x \<leftarrow> h p;
          Some (next_bio x, h(p \<mapsto> x\<lparr>next_bio := None\<rparr>))
        })"

definition BIO_next :: "nat option \<Rightarrow> bio_store \<Rightarrow> nat option option" where
  "BIO_next bio h = (case bio of None \<Rightarrow> Some None | Some p \<Rightarrow> do { x \<leftarrow> h p; Some (next_bio x) })"

partial_function (option) last_bio :: "nat \<Rightarrow> bio_store \<Rightarrow> nat option" where
  "last_bio p h = do {
     x \<leftarrow> h p;
     case next_bio x of None \<Rightarrow> Some p | Some q \<Rightarrow> last_bio q h
   }"

definition BIO_push :: "nat option \<Rightarrow> nat option \<Rightarrow> bio_store \<Rightarrow> (nat option \<times> bio_store) option" where
  "BIO_push bio appended_bio h =
     (case bio of None \<Rightarrow> Some (None, h)
      | Some p \<Rightarrow> do {
          l \<leftarrow> last_bio p h;
          h \<leftarrow> at_bio l (\<lambda>x. x\<lparr>next_bio := appended_bio\<rparr>) h;
          Some (Some p, h)
        })"

definition method_type :: "bio_method \<Rightarrow> u32" where
  "method_type m = (case m of methods_biop \<Rightarrow> 19 OR 0x0400 | mem_method \<Rightarrow> 1 OR 0x0400)"

definition BIO_method_type :: "nat \<Rightarrow> bio_store \<Rightarrow> u32 option" where
  "BIO_method_type bio h = do { x \<leftarrow> h bio; Some (method_type (bio_method x)) }"

partial_function (option) find_type_loop :: "nat \<Rightarrow> u32 \<Rightarrow> u32 \<Rightarrow> bio_store \<Rightarrow> nat option option" where
  "find_type_loop p typ msk h = do {
     x \<leftarrow> h p;
     let mt = method_type (bio_method x);
     if (if msk = 0 then mt AND typ \<noteq> 0 else mt = typ) then Some (Some p)
     else case next_bio x of None \<Rightarrow> Some None | Some q \<Rightarrow> find_type_loop q typ msk h
   }"

definition BIO_find_type :: "nat option \<Rightarrow> u32 \<Rightarrow> bio_store \<Rightarrow> nat option option" where
  "BIO_find_type bio typ h =
     (case bio of None \<Rightarrow> Some None | Some p \<Rightarrow> find_type_loop p typ (typ AND 0xff) h)"

section \<open>Rules for the store\<close>

named_theorems bio_simps "what the accesses to the store of BIOs give"

lemma at_bio_eq [bio_simps]: "h p = Some x \<Longrightarrow> at_bio p f h = Some (h(p \<mapsto> f x))"
  by (simp add: at_bio_def)

lemma pair_at_eq [bio_simps]: "h p = Some x \<Longrightarrow> bio_ptr x = Pair_data b \<Longrightarrow> pair_at h p = Some b"
  by (simp add: pair_at_def pair_of_def)

lemma mem_at_eq [bio_simps]: "h p = Some x \<Longrightarrow> bio_ptr x = Mem_data b \<Longrightarrow> mem_at h p = Some b"
  by (simp add: mem_at_def mem_of_def)

lemma pair_at_Some: "pair_at h p = Some b \<longleftrightarrow> (\<exists>x. h p = Some x \<and> bio_ptr x = Pair_data b)"
  by (cases "h p") (auto simp: pair_at_def pair_of_def split: bio_data.splits)

lemma mem_at_Some: "mem_at h p = Some b \<longleftrightarrow> (\<exists>x. h p = Some x \<and> bio_ptr x = Mem_data b)"
  by (cases "h p") (auto simp: mem_at_def mem_of_def split: bio_data.splits)

lemmas flag_ops =
  BIO_set_flags_def BIO_clear_flags_def BIO_set_retry_read_def BIO_set_retry_write_def
  BIO_clear_retry_flags_def BIO_set_retry_special_def BIO_set_retry_reason_def
  BIO_test_flags_def BIO_get_retry_flags_def BIO_should_read_def BIO_should_write_def
  BIO_should_retry_def BIO_should_io_special_def BIO_get_retry_reason_def

end
