(* ===== verification/BioPair.thy ===== *)
theory BioPair imports Bio begin

text \<open>
  The pair of connected BIOs (\<open>crypto/bio/pair.c\<close>): each end has a ring buffer for what is written
  to it, and reading takes from the buffer of the peer.  The assertions of the code are kept.
\<close>

section \<open>The code\<close>

definition bio_new :: "allocator \<Rightarrow> nat \<Rightarrow> bio_store \<Rightarrow> (bool \<times> bio_store) option" where
  "bio_new al bio h =
     (case OPENSSL_zalloc al sizeof_bio_bio_st of None \<Rightarrow> Some (False, h)
      | Some _ \<Rightarrow> do {
          h \<leftarrow> set_pair bio \<lparr>bb_peer = None, bb_closed = False, bb_len = 0, bb_offset = 0,
                             bb_size = 17 * 1024, bb_buf = None, bb_request = 0\<rparr> h;
          Some (True, h)
        })"

definition bio_destroy_pair :: "nat \<Rightarrow> bio_store \<Rightarrow> bio_store option" where
  "bio_destroy_pair bio h = do {
     x \<leftarrow> h bio;
     if bio_ptr x = No_data then Some h
     else do {
       b \<leftarrow> pair_at h bio;
       case bb_peer b of None \<Rightarrow> Some h
       | Some peer_bio \<Rightarrow> do {
           peer_b \<leftarrow> pair_at h peer_bio;
           ensure (bb_peer peer_b = Some bio);
           h \<leftarrow> at_bio peer_bio (\<lambda>x. x\<lparr>bio_init := False\<rparr>) h;
           ensure (bb_buf peer_b \<noteq> None);
           h \<leftarrow> set_pair peer_bio (peer_b\<lparr>bb_peer := None, bb_len := 0, bb_offset := 0\<rparr>) h;
           b \<leftarrow> pair_at h bio;
           h \<leftarrow> at_bio bio (\<lambda>x. x\<lparr>bio_init := False\<rparr>) h;
           ensure (bb_buf b \<noteq> None);
           set_pair bio (b\<lparr>bb_peer := None, bb_len := 0, bb_offset := 0\<rparr>) h
         }
     }
   }"

definition bio_free :: "nat \<Rightarrow> bio_store \<Rightarrow> (int \<times> bio_store) option" where
  "bio_free bio h = do {
     b \<leftarrow> pair_at h bio;
     h \<leftarrow> (if bb_peer b \<noteq> None then bio_destroy_pair bio h else Some h);
     Some (1, h)
   }"

partial_function (option) bio_read_loop ::
  "nat \<Rightarrow> nat \<Rightarrow> bytes \<Rightarrow> bio_bio_st \<Rightarrow> (bytes \<times> bio_bio_st) option" where
  "bio_read_loop rest pos buf peer_b = do {
     ensure (rest \<le> bb_len peer_b);
     let off = bb_offset peer_b;
     let chunk = (if size_add off rest \<le> bb_size peer_b then rest else size_sub (bb_size peer_b) off);
     ensure (size_add off chunk \<le> bb_size peer_b);
     ring \<leftarrow> bb_buf peer_b;
     buf \<leftarrow> OPENSSL_memcpy buf pos ring off chunk;
     let len = size_sub (bb_len peer_b) chunk;
     ensure (len \<noteq> 0 \<longrightarrow> off + chunk \<le> bb_size peer_b);
     ensure (len = 0 \<longrightarrow> chunk = rest);
     let peer_b = peer_b\<lparr>bb_len := len,
           bb_offset := (if len \<noteq> 0 then if off + chunk = bb_size peer_b then 0 else off + chunk else 0)\<rparr>;
     let pos = (if len \<noteq> 0 then pos + chunk else pos);
     let rest = size_sub rest chunk;
     if rest = 0 then Some (buf, peer_b) else bio_read_loop rest pos buf peer_b
   }"

definition bio_read :: "nat \<Rightarrow> bytes option \<Rightarrow> int \<Rightarrow> bio_store \<Rightarrow> (int \<times> bytes option \<times> bio_store) option" where
  "bio_read bio buf size' h = do {
     let sz = size_of_int size';
     h \<leftarrow> BIO_clear_retry_flags bio h;
     x \<leftarrow> h bio;
     if \<not> bio_init x then Some (0, buf, h)
     else do {
       b \<leftarrow> pair_at h bio;
       peer \<leftarrow> bb_peer b;
       peer_b \<leftarrow> pair_at h peer;
       ensure (bb_buf peer_b \<noteq> None);
       let peer_b = peer_b\<lparr>bb_request := 0\<rparr>;
       h \<leftarrow> set_pair peer peer_b h;
       case buf of None \<Rightarrow> Some (0, buf, h)
       | Some out \<Rightarrow>
           if sz = 0 then Some (0, buf, h)
           else if bb_len peer_b = 0 then
             if bb_closed peer_b then Some (0, buf, h)
             else do {
               h \<leftarrow> BIO_set_retry_read bio h;
               h \<leftarrow> set_pair peer (peer_b\<lparr>bb_request := (if sz \<le> bb_size peer_b then sz else bb_size peer_b)\<rparr>) h;
               Some (-1, buf, h)
             }
           else do {
             let sz = (if bb_len peer_b < sz then bb_len peer_b else sz);
             ensure (0 < sz);
             (out, peer_b) \<leftarrow> bio_read_loop sz 0 out peer_b;
             h \<leftarrow> set_pair peer peer_b h;
             Some (c_int sz, Some out, h)
           }
     }
   }"

partial_function (option) bio_write_loop :: "nat \<Rightarrow> nat \<Rightarrow> bytes \<Rightarrow> bio_bio_st \<Rightarrow> bio_bio_st option" where
  "bio_write_loop rest pos buf b = do {
     ensure (size_add (bb_len b) rest \<le> bb_size b);
     let write_offset = size_add (bb_offset b) (bb_len b);
     let write_offset = (if bb_size b \<le> write_offset then size_sub write_offset (bb_size b) else write_offset);
     let chunk = (if size_add write_offset rest \<le> bb_size b then rest else size_sub (bb_size b) write_offset);
     ring \<leftarrow> bb_buf b;
     ring \<leftarrow> OPENSSL_memcpy ring write_offset buf pos chunk;
     let b = b\<lparr>bb_buf := Some ring, bb_len := size_add (bb_len b) chunk\<rparr>;
     ensure (bb_len b \<le> bb_size b);
     let rest = size_sub rest chunk;
     if rest = 0 then Some b else bio_write_loop rest (pos + chunk) buf b
   }"

definition bio_write :: "nat \<Rightarrow> bytes option \<Rightarrow> int \<Rightarrow> bio_store \<Rightarrow> (int \<times> bio_store) option" where
  "bio_write bio buf num' h = do {
     let num = size_of_int num';
     h \<leftarrow> BIO_clear_retry_flags bio h;
     x \<leftarrow> h bio;
     case buf of None \<Rightarrow> Some (0, h)
     | Some inp \<Rightarrow>
         if \<not> bio_init x \<or> num = 0 then Some (0, h)
         else do {
           b \<leftarrow> pair_at h bio;
           ensure (bb_peer b \<noteq> None);
           ensure (bb_buf b \<noteq> None);
           let b = b\<lparr>bb_request := 0\<rparr>;
           h \<leftarrow> set_pair bio b h;
           if bb_closed b then Some (-1, h)
           else do {
             ensure (bb_len b \<le> bb_size b);
             if bb_len b = bb_size b then do {
               h \<leftarrow> BIO_set_retry_write bio h;
               Some (-1, h)
             }
             else do {
               let num = (if size_sub (bb_size b) (bb_len b) < num then size_sub (bb_size b) (bb_len b) else num);
               ensure (0 < num);
               b \<leftarrow> bio_write_loop num 0 inp b;
               h \<leftarrow> set_pair bio b h;
               Some (c_int num, h)
             }
           }
         }
   }"

definition make_buf :: "allocator \<Rightarrow> nat \<Rightarrow> bio_bio_st \<Rightarrow> bool \<times> bio_bio_st" where
  "make_buf al writebuf_len b =
     (if bb_buf b = None then
        (let b = (if writebuf_len \<noteq> 0 then b\<lparr>bb_size := writebuf_len\<rparr> else b)
         in case OPENSSL_malloc al (bb_size b) of None \<Rightarrow> (False, b)
            | Some buf \<Rightarrow> (True, b\<lparr>bb_buf := Some buf, bb_len := 0, bb_offset := 0\<rparr>))
      else (True, b))"

definition bio_make_pair :: "allocator \<Rightarrow> nat \<Rightarrow> nat \<Rightarrow> nat \<Rightarrow> nat \<Rightarrow> bio_store \<Rightarrow> (bool \<times> bio_store) option" where
  "bio_make_pair al bio1 bio2 writebuf1_len writebuf2_len h = do {
     b1 \<leftarrow> pair_at h bio1;
     b2 \<leftarrow> pair_at h bio2;
     if bb_peer b1 \<noteq> None \<or> bb_peer b2 \<noteq> None then Some (False, h)
     else do {
       let (ok1, b1) = make_buf al writebuf1_len b1;
       h \<leftarrow> set_pair bio1 b1 h;
       if \<not> ok1 then Some (False, h)
       else do {
         let (ok2, b2) = make_buf al writebuf2_len b2;
         h \<leftarrow> set_pair bio2 b2 h;
         if \<not> ok2 then Some (False, h)
         else do {
           h \<leftarrow> set_pair bio1 (b1\<lparr>bb_peer := Some bio2, bb_closed := False, bb_request := 0\<rparr>) h;
           h \<leftarrow> set_pair bio2 (b2\<lparr>bb_peer := Some bio1, bb_closed := False, bb_request := 0\<rparr>) h;
           h \<leftarrow> at_bio bio1 (\<lambda>x. x\<lparr>bio_init := True\<rparr>) h;
           h \<leftarrow> at_bio bio2 (\<lambda>x. x\<lparr>bio_init := True\<rparr>) h;
           Some (True, h)
         }
       }
     }
   }"

definition bio_ctrl :: "nat \<Rightarrow> int \<Rightarrow> int \<Rightarrow> ctrl_arg \<Rightarrow> bio_store \<Rightarrow> (int \<times> bio_store) option" where
  "bio_ctrl bio cmd num ptr h = do {
     x \<leftarrow> h bio;
     b \<leftarrow> pair_at h bio;
     if cmd = BIO_C_GET_WRITE_BUF_SIZE then Some (c_long (bb_size b), h)
     else if cmd = BIO_C_GET_WRITE_GUARANTEE then
       Some (if bb_peer b = None \<or> bb_closed b then 0 else c_long (size_sub (bb_size b) (bb_len b)), h)
     else if cmd = BIO_C_GET_READ_REQUEST then Some (c_long (bb_request b), h)
     else if cmd = BIO_C_RESET_READ_REQUEST then do {
       h \<leftarrow> set_pair bio (b\<lparr>bb_request := 0\<rparr>) h;
       Some (1, h)
     }
     else if cmd = BIO_C_SHUTDOWN_WR then do {
       h \<leftarrow> set_pair bio (b\<lparr>bb_closed := True\<rparr>) h;
       Some (1, h)
     }
     else if cmd = BIO_CTRL_GET_CLOSE then Some (bio_shutdown x, h)
     else if cmd = BIO_CTRL_SET_CLOSE then do {
       h \<leftarrow> at_bio bio (\<lambda>x. x\<lparr>bio_shutdown := int_of_long num\<rparr>) h;
       Some (1, h)
     }
     else if cmd = BIO_CTRL_PENDING then
       (case bb_peer b of
          Some peer \<Rightarrow> do { peer_b \<leftarrow> pair_at h peer; Some (c_long (bb_len peer_b), h) }
        | None \<Rightarrow> Some (0, h))
     else if cmd = BIO_CTRL_WPENDING then Some (if bb_buf b \<noteq> None then c_long (bb_len b) else 0, h)
     else if cmd = BIO_CTRL_FLUSH then Some (1, h)
     else if cmd = BIO_CTRL_EOF then
       (case ptr of
          Null_arg \<Rightarrow> Some (1, h)
        | Bio_arg other \<Rightarrow> do {
            other_b \<leftarrow> pair_at h other;
            Some (if bb_len other_b = 0 \<and> bb_closed other_b then 1 else 0, h)
          }
        | _ \<Rightarrow> None)
     else Some (0, h)
   }"

end
