(* ===== verification/BioMem.thy ===== *)
theory BioMem imports Bio begin

text \<open>
  The memory BIO (\<open>crypto/bio/bio_mem.c\<close>): a growing buffer that is written at its end and read at
  its front, or, read-only, a pointer that moves through static memory.
\<close>

definition mem_new :: "allocator \<Rightarrow> nat \<Rightarrow> bio_store \<Rightarrow> (bool \<times> bio_store) option" where
  "mem_new al bio h =
     (case BUF_MEM_new al of None \<Rightarrow> Some (False, h)
      | Some b \<Rightarrow> do {
          h \<leftarrow> at_bio bio (\<lambda>x. x\<lparr>bio_shutdown := 1, bio_init := True, bio_num := -1,
                                bio_ptr := Mem_data b\<rparr>) h;
          Some (True, h)
        })"

definition mem_free :: "nat \<Rightarrow> bio_store \<Rightarrow> (int \<times> bio_store) option" where
  "mem_free bio h = do {
     x \<leftarrow> h bio;
     if bio_shutdown x = 0 \<or> \<not> bio_init x \<or> bio_ptr x = No_data then Some (1, h)
     else do {
       h \<leftarrow> at_bio bio (\<lambda>x. x\<lparr>bio_ptr := No_data\<rparr>) h;
       Some (1, h)
     }
   }"

definition mem_rdonly :: "bio_st \<Rightarrow> bool" where
  "mem_rdonly x \<longleftrightarrow> bio_flags x AND BIO_FLAGS_MEM_RDONLY \<noteq> 0"

definition mem_consume :: "bool \<Rightarrow> nat \<Rightarrow> buf_mem \<Rightarrow> buf_mem option" where
  "mem_consume rdonly n b = do {
     let len = size_sub (bm_length b) n;
     if rdonly then Some (b\<lparr>bm_length := len, bm_off := bm_off b + n\<rparr>)
     else do {
       data \<leftarrow> bm_data b;
       data \<leftarrow> OPENSSL_memmove data (bm_off b) (bm_off b + n) len;
       Some (b\<lparr>bm_length := len, bm_data := Some data\<rparr>)
     }
   }"

definition mem_read :: "nat \<Rightarrow> bytes option \<Rightarrow> int \<Rightarrow> bio_store \<Rightarrow> (int \<times> bytes option \<times> bio_store) option" where
  "mem_read bio out outl h = do {
     h \<leftarrow> BIO_clear_retry_flags bio h;
     if outl \<le> 0 then Some (0, out, h)
     else do {
       x \<leftarrow> h bio;
       b \<leftarrow> mem_of x;
       let ret = (if bm_length b < size_of_int outl then c_int (bm_length b) else outl);
       if 0 < ret then do {
         dst \<leftarrow> out;
         data \<leftarrow> bm_data b;
         dst \<leftarrow> OPENSSL_memcpy dst 0 data (bm_off b) (nat ret);
         b \<leftarrow> mem_consume (mem_rdonly x) (nat ret) b;
         h \<leftarrow> set_mem bio b h;
         Some (ret, Some dst, h)
       }
       else if bm_length b = 0 then
         if bio_num x \<noteq> 0 then do {
           h \<leftarrow> BIO_set_retry_read bio h;
           Some (bio_num x, out, h)
         }
         else Some (bio_num x, out, h)
       else Some (ret, out, h)
     }
   }"

definition mem_write :: "allocator \<Rightarrow> nat \<Rightarrow> bytes option \<Rightarrow> int \<Rightarrow> bio_store \<Rightarrow> (int \<times> bio_store) option" where
  "mem_write al bio inp inl h = do {
     h \<leftarrow> BIO_clear_retry_flags bio h;
     if inl \<le> 0 then Some (0, h)
     else do {
       x \<leftarrow> h bio;
       if mem_rdonly x then Some (-1, h)
       else do {
         b \<leftarrow> mem_of x;
         data \<leftarrow> inp;
         (ok, b) \<leftarrow> BUF_MEM_append al data (size_of_int inl) b;
         h \<leftarrow> set_mem bio b h;
         Some (if ok then inl else -1, h)
       }
     }
   }"

definition newline :: u8 where "newline = 10"

definition mem_gets :: "nat \<Rightarrow> bytes option \<Rightarrow> int \<Rightarrow> bio_store \<Rightarrow> (int \<times> bytes option \<times> bio_store) option" where
  "mem_gets bio buf sz h = do {
     h \<leftarrow> BIO_clear_retry_flags bio h;
     if sz \<le> 0 then Some (0, buf, h)
     else do {
       x \<leftarrow> h bio;
       b \<leftarrow> mem_of x;
       let ret = (if bm_length b < size_of_int (sz - 1) then c_int (bm_length b) else sz - 1);
       found \<leftarrow> (if ret = 0 then Some None
                 else do {
                   data \<leftarrow> bm_data b;
                   Some (OPENSSL_memchr (drop (bm_off b) data) newline (nat ret))
                 });
       let ret = (case found of None \<Rightarrow> ret | Some i \<Rightarrow> int i + 1);
       (ret, buf, h) \<leftarrow> mem_read bio buf ret h;
       if 0 \<le> ret then do {
         dst \<leftarrow> buf;
         ensure (nat ret < length dst);
         Some (ret, Some (dst[nat ret := 0]), h)
       }
       else Some (ret, buf, h)
     }
   }"

definition bm_pointer :: "buf_mem \<Rightarrow> bytes" where
  "bm_pointer b = (case bm_data b of None \<Rightarrow> [] | Some d \<Rightarrow> drop (bm_off b) d)"

definition mem_reset :: "bool \<Rightarrow> buf_mem \<Rightarrow> buf_mem option" where
  "mem_reset rdonly b =
     (case bm_data b of None \<Rightarrow> Some b
      | Some data \<Rightarrow>
          if rdonly then do {
            ensure (bm_length b \<le> bm_max b \<and> bm_max b - bm_length b \<le> bm_off b);
            Some (b\<lparr>bm_off := bm_off b - (bm_max b - bm_length b), bm_length := bm_max b\<rparr>)
          }
          else do {
            data \<leftarrow> OPENSSL_memset data (bm_off b) 0 (bm_max b);
            Some (b\<lparr>bm_data := Some data, bm_length := 0\<rparr>)
          })"

definition mem_ctrl :: "nat \<Rightarrow> int \<Rightarrow> int \<Rightarrow> ctrl_arg \<Rightarrow> bio_store \<Rightarrow> (int \<times> ctrl_out \<times> bio_store) option" where
  "mem_ctrl bio cmd num ptr h = do {
     x \<leftarrow> h bio;
     let bp = mem_of x;
     if cmd = BIO_CTRL_RESET then do {
       b \<leftarrow> bp;
       b \<leftarrow> mem_reset (mem_rdonly x) b;
       h \<leftarrow> set_mem bio b h;
       Some (1, No_out, h)
     }
     else if cmd = BIO_CTRL_EOF then do {
       b \<leftarrow> bp;
       Some (if bm_length b = 0 then 1 else 0, No_out, h)
     }
     else if cmd = BIO_C_SET_BUF_MEM_EOF_RETURN then do {
       h \<leftarrow> at_bio bio (\<lambda>x. x\<lparr>bio_num := int_of_long num\<rparr>) h;
       Some (1, No_out, h)
     }
     else if cmd = BIO_CTRL_INFO then do {
       b \<leftarrow> bp;
       Some (c_long (bm_length b), if ptr \<noteq> Null_arg then Data_out (bm_pointer b) else No_out, h)
     }
     else if cmd = BIO_C_SET_BUF_MEM then do {
       (_, h) \<leftarrow> mem_free bio h;
       d \<leftarrow> (case ptr of Null_arg \<Rightarrow> Some No_data | Buf_arg b \<Rightarrow> Some (Mem_data b) | _ \<Rightarrow> None);
       h \<leftarrow> at_bio bio (\<lambda>x. x\<lparr>bio_shutdown := int_of_long num, bio_ptr := d\<rparr>) h;
       Some (1, No_out, h)
     }
     else if cmd = BIO_C_GET_BUF_MEM_PTR then
       (if ptr \<noteq> Null_arg then do { b \<leftarrow> bp; Some (1, Buf_out b, h) } else Some (1, No_out, h))
     else if cmd = BIO_CTRL_GET_CLOSE then Some (bio_shutdown x, No_out, h)
     else if cmd = BIO_CTRL_SET_CLOSE then do {
       h \<leftarrow> at_bio bio (\<lambda>x. x\<lparr>bio_shutdown := int_of_long num\<rparr>) h;
       Some (1, No_out, h)
     }
     else if cmd = BIO_CTRL_WPENDING then Some (0, No_out, h)
     else if cmd = BIO_CTRL_PENDING then do {
       b \<leftarrow> bp;
       Some (c_long (bm_length b), No_out, h)
     }
     else if cmd = BIO_CTRL_FLUSH then Some (1, No_out, h)
     else Some (0, No_out, h)
   }"

end
