(* ===== verification/BioIo.thy ===== *)
theory BioIo imports BioPair BioMem begin

text \<open>
  The operations of \<open>crypto/bio/bio.c\<close> that go through the methods of a BIO, and the constructors
  and accessors of the two kinds of BIO that are written with them.  A BIO that is allocated gets
  the address \<open>p\<close> that the allocator hands out for it.
\<close>

section \<open>Creating and freeing\<close>

definition method_create :: "bio_method \<Rightarrow> allocator \<Rightarrow> nat \<Rightarrow> bio_store \<Rightarrow> (bool \<times> bio_store) option" where
  "method_create m = (case m of methods_biop \<Rightarrow> bio_new | mem_method \<Rightarrow> mem_new)"

definition method_destroy :: "bio_method \<Rightarrow> nat \<Rightarrow> bio_store \<Rightarrow> (int \<times> bio_store) option" where
  "method_destroy m = (case m of methods_biop \<Rightarrow> bio_free | mem_method \<Rightarrow> mem_free)"

definition BIO_new :: "allocator \<Rightarrow> nat \<Rightarrow> bio_method \<Rightarrow> bio_store \<Rightarrow> (nat option \<times> bio_store) option" where
  "BIO_new al p method h =
     (case OPENSSL_zalloc al sizeof_bio_st of None \<Rightarrow> Some (None, h)
      | Some _ \<Rightarrow> do {
          let h0 = h;
          let h = h(p \<mapsto> \<lparr>bio_method = method, bio_init = False, bio_shutdown = 1, bio_flags = 0,
                         bio_retry_reason = 0, bio_num = 0, bio_references = 1, bio_ptr = No_data,
                         next_bio = None, num_read = 0, num_write = 0\<rparr>);
          (ok, h) \<leftarrow> method_create method al p h;
          if \<not> ok then Some (None, h(p := None)) else Some (Some p, h)
        })"

partial_function (option) BIO_free :: "nat option \<Rightarrow> bio_store \<Rightarrow> (int \<times> bio_store) option" where
  "BIO_free bio h =
     (case bio of None \<Rightarrow> Some (1, h)
      | Some p \<Rightarrow> do {
          x \<leftarrow> h p;
          (zero, refs) \<leftarrow> CRYPTO_refcount_dec_and_test_zero (bio_references x);
          let h = h(p \<mapsto> x\<lparr>bio_references := refs\<rparr>);
          if \<not> zero then Some (0, h)
          else do {
            (next, h) \<leftarrow> BIO_pop (Some p) h;
            (_, h) \<leftarrow> method_destroy (bio_method x) p h;
            BIO_free next (h(p := None))
          }
        })"

definition BIO_vfree :: "nat option \<Rightarrow> bio_store \<Rightarrow> bio_store option" where
  "BIO_vfree bio h = map_option snd (BIO_free bio h)"

definition BIO_free_all :: "nat option \<Rightarrow> bio_store \<Rightarrow> bio_store option" where
  "BIO_free_all bio h = map_option snd (BIO_free bio h)"

section \<open>Reading and writing\<close>

definition method_bread :: "bio_method \<Rightarrow> nat \<Rightarrow> bytes option \<Rightarrow> int \<Rightarrow> bio_store \<Rightarrow> (int \<times> bytes option \<times> bio_store) option" where
  "method_bread m = (case m of methods_biop \<Rightarrow> bio_read | mem_method \<Rightarrow> mem_read)"

definition method_bwrite :: "bio_method \<Rightarrow> allocator \<Rightarrow> nat \<Rightarrow> bytes option \<Rightarrow> int \<Rightarrow> bio_store \<Rightarrow> (int \<times> bio_store) option" where
  "method_bwrite m al = (case m of methods_biop \<Rightarrow> bio_write | mem_method \<Rightarrow> mem_write al)"

definition BIO_read :: "nat option \<Rightarrow> bytes option \<Rightarrow> int \<Rightarrow> bio_store \<Rightarrow> (int \<times> bytes option \<times> bio_store) option" where
  "BIO_read bio buf len h =
     (case bio of None \<Rightarrow> Some (-2, buf, h)
      | Some p \<Rightarrow> do {
          x \<leftarrow> h p;
          if \<not> bio_init x then Some (-2, buf, h)
          else if len \<le> 0 then Some (0, buf, h)
          else do {
            (ret, buf, h) \<leftarrow> method_bread (bio_method x) p buf len h;
            h \<leftarrow> (if 0 < ret then at_bio p (\<lambda>x. x\<lparr>num_read := num_read x + word_of_int ret\<rparr>) h else Some h);
            Some (ret, buf, h)
          }
        })"

definition BIO_gets :: "nat option \<Rightarrow> bytes option \<Rightarrow> int \<Rightarrow> bio_store \<Rightarrow> (int \<times> bytes option \<times> bio_store) option" where
  "BIO_gets bio buf len h =
     (case bio of None \<Rightarrow> Some (-2, buf, h)
      | Some p \<Rightarrow> do {
          x \<leftarrow> h p;
          if bio_method x = methods_biop then Some (-2, buf, h)
          else if \<not> bio_init x then Some (-2, buf, h)
          else if len \<le> 0 then Some (0, buf, h)
          else do {
            (ret, buf, h) \<leftarrow> mem_gets p buf len h;
            h \<leftarrow> (if 0 < ret then at_bio p (\<lambda>x. x\<lparr>num_read := num_read x + word_of_int ret\<rparr>) h else Some h);
            Some (ret, buf, h)
          }
        })"

definition BIO_write :: "allocator \<Rightarrow> nat option \<Rightarrow> bytes option \<Rightarrow> int \<Rightarrow> bio_store \<Rightarrow> (int \<times> bio_store) option" where
  "BIO_write al bio inp inl h =
     (case bio of None \<Rightarrow> Some (-2, h)
      | Some p \<Rightarrow> do {
          x \<leftarrow> h p;
          if \<not> bio_init x then Some (-2, h)
          else if inl \<le> 0 then Some (0, h)
          else do {
            (ret, h) \<leftarrow> method_bwrite (bio_method x) al p inp inl h;
            h \<leftarrow> (if 0 < ret then at_bio p (\<lambda>x. x\<lparr>num_write := num_write x + word_of_int ret\<rparr>) h else Some h);
            Some (ret, h)
          }
        })"

text \<open>\<open>while (len > 0)\<close>: each round writes at least a byte or is the last one.\<close>

partial_function (option) BIO_write_all :: "allocator \<Rightarrow> nat option \<Rightarrow> bytes \<Rightarrow> bio_store \<Rightarrow> (bool \<times> bio_store) option" where
  "BIO_write_all al bio data h =
     (if length data = 0 then Some (True, h)
      else do {
        (ret, h) \<leftarrow> BIO_write al bio (Some data) (if INT_MAX < length data then int INT_MAX else int (length data)) h;
        if ret \<le> 0 then Some (False, h)
        else BIO_write_all al bio (drop (nat ret) data) h
      })"

definition BIO_puts :: "allocator \<Rightarrow> nat option \<Rightarrow> bytes \<Rightarrow> bio_store \<Rightarrow> (int \<times> bio_store) option" where
  "BIO_puts al bio inp h =
     (if INT_MAX < strlen inp then Some (-1, h)
      else BIO_write al bio (Some inp) (int (strlen inp)) h)"

primrec indent_loop :: "nat \<Rightarrow> allocator \<Rightarrow> nat option \<Rightarrow> bio_store \<Rightarrow> (bool \<times> bio_store) option" where
  "indent_loop 0 al bio h = Some (True, h)"
| "indent_loop (Suc n) al bio h = do {
     (ret, h) \<leftarrow> BIO_puts al bio [32] h;
     if ret \<noteq> 1 then Some (False, h) else indent_loop n al bio h
   }"

definition BIO_indent :: "allocator \<Rightarrow> nat option \<Rightarrow> nat \<Rightarrow> nat \<Rightarrow> bio_store \<Rightarrow> (bool \<times> bio_store) option" where
  "BIO_indent al bio indent max_indent h =
     indent_loop (if max_indent < indent then max_indent else indent) al bio h"

section \<open>Requests\<close>

definition BIO_ctrl :: "nat option \<Rightarrow> int \<Rightarrow> int \<Rightarrow> ctrl_arg \<Rightarrow> bio_store \<Rightarrow> (int \<times> ctrl_out \<times> bio_store) option" where
  "BIO_ctrl bio cmd larg parg h =
     (case bio of None \<Rightarrow> Some (0, No_out, h)
      | Some p \<Rightarrow> do {
          x \<leftarrow> h p;
          case bio_method x of
            methods_biop \<Rightarrow> map_option (\<lambda>(ret, h). (ret, No_out, h)) (bio_ctrl p cmd larg parg h)
          | mem_method \<Rightarrow> mem_ctrl p cmd larg parg h
        })"

definition BIO_flush :: "nat option \<Rightarrow> bio_store \<Rightarrow> (int \<times> ctrl_out \<times> bio_store) option" where
  "BIO_flush bio = BIO_ctrl bio BIO_CTRL_FLUSH 0 Null_arg"

definition BIO_reset :: "nat option \<Rightarrow> bio_store \<Rightarrow> (int \<times> ctrl_out \<times> bio_store) option" where
  "BIO_reset bio = BIO_ctrl bio BIO_CTRL_RESET 0 Null_arg"

definition BIO_eof :: "nat option \<Rightarrow> bio_store \<Rightarrow> (int \<times> ctrl_out \<times> bio_store) option" where
  "BIO_eof bio = BIO_ctrl bio BIO_CTRL_EOF 0 Null_arg"

definition BIO_pending :: "nat option \<Rightarrow> bio_store \<Rightarrow> (nat \<times> bio_store) option" where
  "BIO_pending bio h = do {
     (r, _, h) \<leftarrow> BIO_ctrl bio BIO_CTRL_PENDING 0 Null_arg h;
     ensure (0 \<le> r);
     Some (nat r, h)
   }"

definition BIO_ctrl_pending :: "nat option \<Rightarrow> bio_store \<Rightarrow> (nat \<times> bio_store) option" where
  "BIO_ctrl_pending bio = BIO_pending bio"

definition BIO_wpending :: "nat option \<Rightarrow> bio_store \<Rightarrow> (nat \<times> bio_store) option" where
  "BIO_wpending bio h = do {
     (r, _, h) \<leftarrow> BIO_ctrl bio BIO_CTRL_WPENDING 0 Null_arg h;
     ensure (0 \<le> r);
     Some (nat r, h)
   }"

definition BIO_set_close :: "nat option \<Rightarrow> int \<Rightarrow> bio_store \<Rightarrow> (int \<times> ctrl_out \<times> bio_store) option" where
  "BIO_set_close bio close_flag = BIO_ctrl bio BIO_CTRL_SET_CLOSE close_flag Null_arg"

subsection \<open>Pairs\<close>

definition BIO_new_bio_pair :: "allocator \<Rightarrow> nat \<Rightarrow> nat \<Rightarrow> nat \<Rightarrow> nat \<Rightarrow> bio_store
    \<Rightarrow> ((nat option \<times> nat option \<times> bool) \<times> bio_store) option" where
  "BIO_new_bio_pair al p1 p2 writebuf1_len writebuf2_len h = do {
     (bio1, h) \<leftarrow> BIO_new al p1 methods_biop h;
     (bio2, h) \<leftarrow> BIO_new al p2 methods_biop h;
     (ok, h) \<leftarrow> (case (bio1, bio2) of
                  (Some b1, Some b2) \<Rightarrow> bio_make_pair al b1 b2 writebuf1_len writebuf2_len h
                | _ \<Rightarrow> Some (False, h));
     if \<not> ok then do {
       (_, h) \<leftarrow> BIO_free bio1 h;
       (_, h) \<leftarrow> BIO_free bio2 h;
       Some ((None, None, False), h)
     }
     else Some ((bio1, bio2, True), h)
   }"

definition BIO_ctrl_get_read_request :: "nat option \<Rightarrow> bio_store \<Rightarrow> (int \<times> ctrl_out \<times> bio_store) option" where
  "BIO_ctrl_get_read_request bio = BIO_ctrl bio BIO_C_GET_READ_REQUEST 0 Null_arg"

definition BIO_ctrl_get_write_guarantee :: "nat option \<Rightarrow> bio_store \<Rightarrow> (int \<times> ctrl_out \<times> bio_store) option" where
  "BIO_ctrl_get_write_guarantee bio = BIO_ctrl bio BIO_C_GET_WRITE_GUARANTEE 0 Null_arg"

definition BIO_shutdown_wr :: "nat option \<Rightarrow> bio_store \<Rightarrow> (int \<times> ctrl_out \<times> bio_store) option" where
  "BIO_shutdown_wr bio = BIO_ctrl bio BIO_C_SHUTDOWN_WR 0 Null_arg"

subsection \<open>Memory\<close>

definition BIO_new_mem_buf :: "allocator \<Rightarrow> nat \<Rightarrow> bytes option \<Rightarrow> int \<Rightarrow> bio_store \<Rightarrow> (nat option \<times> bio_store) option" where
  "BIO_new_mem_buf al p buf len h = do {
     sz \<leftarrow> (if len < 0 then do { s \<leftarrow> buf; Some (strlen s) } else Some (nat len));
     if buf = None \<and> len \<noteq> 0 then Some (None, h)
     else do {
       (ret, h) \<leftarrow> BIO_new al p mem_method h;
       case ret of None \<Rightarrow> Some (None, h)
       | Some q \<Rightarrow> do {
           b \<leftarrow> mem_at h q;
           h \<leftarrow> set_mem q (b\<lparr>bm_data := buf, bm_off := 0, bm_length := sz, bm_max := sz\<rparr>) h;
           h \<leftarrow> at_bio q (\<lambda>x. x\<lparr>bio_flags := bio_flags x OR BIO_FLAGS_MEM_RDONLY, bio_num := 0\<rparr>) h;
           Some (Some q, h)
         }
     }
   }"

definition BIO_mem_contents :: "nat \<Rightarrow> bio_store \<Rightarrow> (bytes \<times> nat) option option" where
  "BIO_mem_contents bio h = do {
     x \<leftarrow> h bio;
     if bio_method x \<noteq> mem_method then Some None
     else do {
       b \<leftarrow> mem_of x;
       Some (Some (bm_pointer b, bm_length b))
     }
   }"

definition BIO_get_mem_data :: "nat option \<Rightarrow> bio_store \<Rightarrow> (int \<times> ctrl_out \<times> bio_store) option" where
  "BIO_get_mem_data bio = BIO_ctrl bio BIO_CTRL_INFO 0 Out_arg"

definition BIO_get_mem_ptr :: "nat option \<Rightarrow> bio_store \<Rightarrow> (int \<times> ctrl_out \<times> bio_store) option" where
  "BIO_get_mem_ptr bio = BIO_ctrl bio BIO_C_GET_BUF_MEM_PTR 0 Out_arg"

definition BIO_set_mem_buf :: "nat option \<Rightarrow> buf_mem \<Rightarrow> int \<Rightarrow> bio_store \<Rightarrow> (int \<times> ctrl_out \<times> bio_store) option" where
  "BIO_set_mem_buf bio b take_ownership = BIO_ctrl bio BIO_C_SET_BUF_MEM take_ownership (Buf_arg b)"

definition BIO_set_mem_eof_return :: "nat option \<Rightarrow> int \<Rightarrow> bio_store \<Rightarrow> (int \<times> ctrl_out \<times> bio_store) option" where
  "BIO_set_mem_eof_return bio eof_value = BIO_ctrl bio BIO_C_SET_BUF_MEM_EOF_RETURN eof_value Null_arg"

section \<open>Reading an ASN.1 element\<close>

text \<open>
  \<open>for (;;)\<close>: reads until end of file, growing the block; nothing bounds the number of reads when
  the BIO is another one than those modelled here.
\<close>

definition kChunkSize :: nat where "kChunkSize = 4096"

partial_function (option) read_all_loop ::
  "allocator \<Rightarrow> nat option \<Rightarrow> nat \<Rightarrow> nat \<Rightarrow> nat \<Rightarrow> bytes \<Rightarrow> bio_store \<Rightarrow> ((bytes \<times> nat) option \<times> bio_store) option" where
  "read_all_loop al bio max_len len done out h =
     (if done = len then Some (None, h)
      else do {
        let todo = size_sub len done;
        let todo = (if INT_MAX < todo then INT_MAX else todo);
        ensure (done \<le> length out);
        (n, tl_out, h) \<leftarrow> BIO_read bio (Some (drop done out)) (int todo) h;
        if n = 0 then Some (Some (out, done), h)
        else if n = -1 then Some (None, h)
        else do {
          let out = take done out @ the tl_out;
          let done = size_add done (size_of_int n);
          if len < max_len \<and> size_sub len done < kChunkSize div 2 then do {
            let len = size_add len kChunkSize;
            let len = (if len < kChunkSize \<or> max_len < len then max_len else len);
            case OPENSSL_realloc al (Some out) len of
              None \<Rightarrow> Some (None, h)
            | Some new_buf \<Rightarrow> read_all_loop al bio max_len len done new_buf h
          }
          else read_all_loop al bio max_len len done out h
        }
      })"

definition bio_read_all :: "allocator \<Rightarrow> nat option \<Rightarrow> bytes \<Rightarrow> nat \<Rightarrow> bio_store \<Rightarrow> ((bytes \<times> nat) option \<times> bio_store) option" where
  "bio_read_all al bio pre max_len h = do {
     let prefix_len = length pre;
     let len = size_add prefix_len kChunkSize;
     let len = (if max_len < len then max_len else len);
     if len < prefix_len then Some (None, h)
     else case OPENSSL_malloc al len of None \<Rightarrow> Some (None, h)
     | Some out \<Rightarrow> do {
         out \<leftarrow> OPENSSL_memcpy out 0 pre 0 prefix_len;
         read_all_loop al bio max_len len prefix_len out h
       }
   }"

partial_function (option) read_full_loop ::
  "nat option \<Rightarrow> bytes \<Rightarrow> nat \<Rightarrow> nat \<Rightarrow> bool \<Rightarrow> bio_store \<Rightarrow> ((bool \<times> bool) \<times> bytes \<times> bio_store) option" where
  "read_full_loop bio out pos len first_read h =
     (if len = 0 then Some ((True, False), out, h)
      else do {
        let todo = (if len \<le> INT_MAX then len else INT_MAX);
        ensure (pos \<le> length out);
        (ret, tl_out, h) \<leftarrow> BIO_read bio (Some (drop pos out)) (int todo) h;
        let out = take pos out @ the tl_out;
        if ret \<le> 0 then Some ((False, first_read \<and> ret = 0), out, h)
        else read_full_loop bio out (pos + nat ret) (size_sub len (nat ret)) False h
      })"

definition bio_read_full :: "nat option \<Rightarrow> bytes \<Rightarrow> nat \<Rightarrow> nat \<Rightarrow> bio_store \<Rightarrow> ((bool \<times> bool) \<times> bytes \<times> bio_store) option" where
  "bio_read_full bio out pos len h = read_full_loop bio out pos len True h"

definition BIO_read_asn1 :: "allocator \<Rightarrow> nat option \<Rightarrow> nat \<Rightarrow> bio_store \<Rightarrow> ((bytes \<times> nat) option \<times> bio_store) option" where
  "BIO_read_asn1 al bio max_len h = do {
     let kInitialHeaderLen = 2;
     ((ok, _), header, h) \<leftarrow> bio_read_full bio (replicate 6 0) 0 kInitialHeaderLen h;
     if \<not> ok then Some (None, h)
     else do {
       let tag = header ! 0;
       let length_byte = header ! 1;
       if tag AND 0x1f = 0x1f then Some (None, h)
       else if length_byte AND 0x80 \<noteq> 0 \<and> tag AND 0x20 \<noteq> 0 \<and> length_byte AND 0x7f = 0 then
         bio_read_all al bio (take kInitialHeaderLen header) max_len h
       else do {
         (l, header, h) \<leftarrow>
           (if length_byte AND 0x80 = 0 then Some (Some (unat length_byte, kInitialHeaderLen), header, h)
            else do {
              let num_bytes = unat (length_byte AND 0x7f);
              if num_bytes = 0 \<or> 4 < num_bytes then Some (None, header, h)
              else do {
                ((ok, _), header, h) \<leftarrow> bio_read_full bio header kInitialHeaderLen num_bytes h;
                if \<not> ok then Some (None, header, h)
                else do {
                  let len32 = foldl (\<lambda>v i. push_bit 8 v OR ucast (header ! (kInitialHeaderLen + i)))
                                (0 :: u32) [0..<num_bytes];
                  if len32 < 128 then Some (None, header, h)
                  else if drop_bit ((num_bytes - 1) * 8) len32 = 0 then Some (None, header, h)
                  else Some (Some (unat len32, kInitialHeaderLen + num_bytes), header, h)
                }
              }
            });
         case l of None \<Rightarrow> Some (None, h)
         | Some (len, header_len) \<Rightarrow>
             if size_add len header_len < len \<or> max_len < size_add len header_len \<or> INT_MAX < len
             then Some (None, h)
             else do {
               let len = size_add len header_len;
               case OPENSSL_malloc al len of None \<Rightarrow> Some (None, h)
               | Some out \<Rightarrow> do {
                   out \<leftarrow> OPENSSL_memcpy out 0 header 0 header_len;
                   ((ok, _), out, h) \<leftarrow> bio_read_full bio out header_len (size_sub len header_len) h;
                   if \<not> ok then Some (None, h) else Some (Some (out, len), h)
                 }
             }
       }
     }
   }"

end
