(* ===== verification/BioRing.thy ===== *)
theory BioRing imports BioIo begin

text \<open>
  The ring buffer of a pair and the buffer of a memory BIO as one kind of thing: a byte channel,
  whose contents grow at one end and are taken from the other.
\<close>

section \<open>Byte channels\<close>

text \<open>
  What the two ends of a channel rely on.  Writing offers bytes, of which a prefix is accepted;
  reading asks for at most so many bytes.
\<close>

locale byte_channel =
  fixes ok :: "'s \<Rightarrow> bool" and contents :: "'s \<Rightarrow> bytes"
    and put :: "bytes \<Rightarrow> 's \<Rightarrow> nat \<times> 's" and get :: "nat \<Rightarrow> 's \<Rightarrow> bytes \<times> 's"
  assumes put_ok: "ok s \<Longrightarrow> ok (snd (put xs s))"
    and put_contents: "ok s \<Longrightarrow> contents (snd (put xs s)) = contents s @ take (fst (put xs s)) xs"
    and get_ok: "ok s \<Longrightarrow> ok (snd (get n s))"
    and get_contents: "ok s \<Longrightarrow> fst (get n s) @ contents (snd (get n s)) = contents s"

text \<open>
  Other events happen between writes and reads (traffic in the other direction, requests, the
  shutting down of an end) and leave the contents alone.
\<close>

datatype ('x, 'n, 'e) channel_event = Put 'x | Get 'n | Side 'e

text \<open>
  A history of writes, reads and other events: the bytes accepted, the bytes read and the state
  at the end.
\<close>

primrec channel_run ::
  "(bytes \<Rightarrow> 's \<Rightarrow> nat \<times> 's) \<Rightarrow> (nat \<Rightarrow> 's \<Rightarrow> bytes \<times> 's) \<Rightarrow> ('e \<Rightarrow> 's \<Rightarrow> 's)
    \<Rightarrow> (bytes, nat, 'e) channel_event list \<Rightarrow> 's \<Rightarrow> bytes \<times> bytes \<times> 's" where
  "channel_run put get side [] s = ([], [], s)"
| "channel_run put get side (e # es) s =
     (case e of
        Put xs \<Rightarrow> (case channel_run put get side es (snd (put xs s)) of
                    (i, out, s') \<Rightarrow> (take (fst (put xs s)) xs @ i, out, s'))
      | Get n \<Rightarrow> (case channel_run put get side es (snd (get n s)) of
                    (i, out, s') \<Rightarrow> (i, fst (get n s) @ out, s'))
      | Side x \<Rightarrow> channel_run put get side es (side x s))"

locale interleaved_channel = byte_channel +
  fixes side :: "'e \<Rightarrow> 'a \<Rightarrow> 'a"
  assumes side_ok: "ok s \<Longrightarrow> ok (side e s)"
    and side_contents: "ok s \<Longrightarrow> contents (side e s) = contents s"
begin

lemma channel_run_fifo:
  "ok s \<Longrightarrow> channel_run put get side es s = (i, out, s') \<Longrightarrow> ok s' \<and> contents s @ i = out @ contents s'"
proof (induction es arbitrary: s i out)
  case Nil
  then show ?case by simp
next
  case (Cons e es)
  show ?case
  proof (cases e)
    case (Put xs)
    obtain i2 where r: "channel_run put get side es (snd (put xs s)) = (i2, out, s')" "i = take (fst (put xs s)) xs @ i2"
      using Cons.prems(2) Put by (auto split: prod.splits)
    from Cons.IH [OF put_ok [OF Cons.prems(1)] r(1)] r(2) put_contents [OF Cons.prems(1)]
    show ?thesis by simp
  next
    case (Get n)
    obtain o2 where r: "channel_run put get side es (snd (get n s)) = (i, o2, s')" "out = fst (get n s) @ o2"
      using Cons.prems(2) Get by (auto split: prod.splits)
    from Cons.IH [OF get_ok [OF Cons.prems(1)] r(1)] r(2)
    have "ok s' \<and> fst (get n s) @ contents (snd (get n s)) @ i = out @ contents s'" by simp
    then show ?thesis
      unfolding append_assoc [symmetric] by (simp only: get_contents [OF Cons.prems(1)])
  next
    case (Side x)
    with Cons.prems(2) have "channel_run put get side es (side x s) = (i, out, s')" by simp
    from Cons.IH [OF side_ok [OF Cons.prems(1)] this] side_contents [OF Cons.prems(1)]
    show ?thesis by simp
  qed
qed

end

text \<open>
  A writer that offers what it has left and a reader that asks for \<open>n\<close> bytes, taking turns: what is
  left to write after \<open>k\<close> rounds, what was read, and the state.
\<close>

primrec pump ::
  "(bytes \<Rightarrow> 's \<Rightarrow> nat \<times> 's) \<Rightarrow> (nat \<Rightarrow> 's \<Rightarrow> bytes \<times> 's) \<Rightarrow> nat \<Rightarrow> nat \<Rightarrow> bytes \<Rightarrow> 's \<Rightarrow> bytes \<times> bytes \<times> 's" where
  "pump put get n 0 xs s = (xs, [], s)"
| "pump put get n (Suc k) xs s =
     (case put xs s of (a, s1) \<Rightarrow> case get n s1 of (ys, s2) \<Rightarrow>
        case pump put get n k (drop a xs) s2 of (rest, out, s') \<Rightarrow> (rest, ys @ out, s'))"

text \<open>A channel of bounded capacity, which neither end finds stuck without need.\<close>

locale bounded_channel = byte_channel +
  fixes capacity :: "'a \<Rightarrow> nat"
  assumes put_progress: "ok s \<Longrightarrow> xs \<noteq> [] \<Longrightarrow> length (contents s) < capacity s \<Longrightarrow> 0 < fst (put xs s)"
    and get_progress: "ok s \<Longrightarrow> 0 < n \<Longrightarrow> contents s \<noteq> [] \<Longrightarrow> fst (get n s) \<noteq> []"
    and within: "ok s \<Longrightarrow> length (contents s) \<le> capacity s"
    and get_capacity: "ok s \<Longrightarrow> capacity (snd (get n s)) = capacity s"
    and room: "ok s \<Longrightarrow> 0 < capacity s"
begin

lemma not_both_stuck:
  assumes "ok s" "xs \<noteq> []" "0 < n"
  shows "0 < fst (put xs s) \<or> fst (get n s) \<noteq> []"
  using put_progress [OF assms(1,2)] get_progress [OF assms(1,3)] room [OF assms(1)]
  by (cases "contents s = []") auto

text \<open>Every round moves at least a byte, so that as many rounds as there are bytes are enough.\<close>

lemma pump_delivers:
  assumes "ok s" "0 < n" "length (contents s) + length xs \<le> k" "pump put get n k xs s = (rest, out, s')"
  shows "rest = [] \<and> out = contents s @ xs \<and> contents s' = [] \<and> ok s'"
  using assms(1,3,4)
proof (induction k arbitrary: s xs out)
  case 0
  then show ?case by simp
next
  case (Suc k)
  obtain a s1 where p: "put xs s = (a, s1)" by fastforce
  obtain ys s2 where g: "get n s1 = (ys, s2)" by fastforce
  from p g Suc.prems(3) obtain out2 where r: "pump put get n k (drop a xs) s2 = (rest, out2, s')" "out = ys @ out2"
    by (auto split: prod.splits)
  have s1: "ok s1" "contents s1 = contents s @ take a xs"
    using put_ok [OF Suc.prems(1), of xs] put_contents [OF Suc.prems(1), of xs] p by simp_all
  have s2: "ok s2" "ys @ contents s2 = contents s1"
    using get_ok [OF s1(1), of n] get_contents [OF s1(1), of n] g by simp_all
  have all: "ys @ contents s2 @ drop a xs = contents s @ xs"
    using s1(2) s2(2) by (metis append_assoc append_take_drop_id)
  have "length (contents s2) + length (drop a xs) \<le> k"
  proof (cases "contents s = [] \<and> xs = []")
    case True
    with arg_cong [OF all, of length] show ?thesis by simp
  next
    case False
    have "contents s1 \<noteq> []"
    proof (cases "contents s = []")
      case True
      with False put_progress [OF Suc.prems(1), of xs] room [OF Suc.prems(1)] p have "0 < a" "xs \<noteq> []" by auto
      with s1(2) show ?thesis by simp
    qed (simp add: s1(2))
    with get_progress [OF s1(1) assms(2)] g have "ys \<noteq> []" by simp
    then have "0 < length ys" by simp
    moreover have "length ys + (length (contents s2) + length (drop a xs)) = length (contents s) + length xs"
      using arg_cong [OF all, of length] by (simp only: length_append)
    ultimately show ?thesis using Suc.prems(2) by linarith
  qed
  from Suc.IH [OF s2(1) this r(1)] all r(2) show ?case by simp
qed

lemma room_after_get:
  assumes "ok s" "0 < n" "contents s \<noteq> []" "xs \<noteq> []"
  shows "0 < fst (put xs (snd (get n s)))"
proof (rule put_progress [OF get_ok [OF assms(1)] assms(4)])
  have "length (contents (snd (get n s))) < length (contents s)"
    using get_contents [OF assms(1), of n] get_progress [OF assms(1-3)]
    by (metis length_append less_add_same_cancel2 length_greater_0_conv)
  with within [OF assms(1)] show "length (contents (snd (get n s))) < capacity (snd (get n s))"
    by (simp add: get_capacity [OF assms(1)])
qed

end

section \<open>The ring buffer\<close>

definition ring_wf :: "bio_bio_st \<Rightarrow> bool" where
  "ring_wf b \<longleftrightarrow> (\<exists>d. bb_buf b = Some d \<and> length d = bb_size b) \<and> bb_size b < 2 ^ 63
     \<and> bb_len b \<le> bb_size b \<and> bb_offset b < bb_size b"

definition ring_bytes :: "bio_bio_st \<Rightarrow> bytes" where
  "ring_bytes b = (case bb_buf b of None \<Rightarrow> []
     | Some d \<Rightarrow> take (bb_len b) (drop (bb_offset b) d @ take (bb_offset b) d))"

definition ring_skip :: "nat \<Rightarrow> bio_bio_st \<Rightarrow> bio_bio_st" where
  "ring_skip n b = b\<lparr>bb_len := bb_len b - n,
     bb_offset := (if bb_len b = n then 0 else (bb_offset b + n) mod bb_size b)\<rparr>"

lemma ring_wfE:
  assumes "ring_wf b"
  obtains d where "bb_buf b = Some d" "length d = bb_size b" "bb_size b < 2 ^ 63"
    "bb_len b \<le> bb_size b" "bb_offset b < bb_size b"
  using assms by (auto simp: ring_wf_def)

lemma length_ring_bytes [simp]: "ring_wf b \<Longrightarrow> length (ring_bytes b) = bb_len b"
  by (auto simp: ring_wf_def ring_bytes_def)

lemma ring_skip_wf: "ring_wf b \<Longrightarrow> ring_wf (ring_skip n b)"
  by (auto simp: ring_wf_def ring_skip_def)

lemma ring_skip_bytes:
  assumes "ring_wf b" "n \<le> bb_len b"
  shows "ring_bytes (ring_skip n b) = drop n (ring_bytes b)"
proof -
  from assms(1) obtain d where d: "bb_buf b = Some d" "length d = bb_size b"
    "bb_len b \<le> bb_size b" "bb_offset b < bb_size b" by (rule ring_wfE)
  consider "bb_len b = n" | "n < bb_len b" "bb_offset b + n < bb_size b"
    | "n < bb_len b" "bb_size b \<le> bb_offset b + n" using assms(2) by linarith
  then show ?thesis
  proof cases
    case 1
    with d show ?thesis by (simp add: ring_bytes_def ring_skip_def)
  next
    case 2
    have "take (bb_len b - n) (drop (bb_offset b + n) d @ take (bb_offset b + n) d)
        = take (bb_len b - n) (drop (bb_offset b + n) d @ take (bb_offset b) d)"
    proof -
      have "take (bb_offset b + n) d = take (bb_offset b) d @ take n (drop (bb_offset b) d)"
        by (rule take_add)
      moreover have "bb_len b - n \<le> length (drop (bb_offset b + n) d @ take (bb_offset b) d)"
        using 2 d by simp
      ultimately show ?thesis by simp
    qed
    with 2 d show ?thesis
      by (simp add: ring_bytes_def ring_skip_def drop_take add.commute)
  next
    case 3
    then have m: "(bb_offset b + n) mod bb_size b = bb_offset b + n - bb_size b"
      using d by (simp add: mod_if)
    have "bb_len b - n \<le> length (drop (bb_offset b + n - bb_size b) (take (bb_offset b) d))"
      using 3 d by simp
    then have "take (bb_len b - n) (drop (bb_offset b + n - bb_size b) d)
        = take (bb_len b - n) (drop (bb_offset b + n - bb_size b) (take (bb_offset b) d))"
      using 3 d by (simp add: drop_take)
    with 3 d m show ?thesis
      by (simp add: ring_bytes_def ring_skip_def drop_take add.commute)
  qed
qed

subsection \<open>The loop that reads\<close>

lemma read_one_chunk:
  assumes wf: "ring_wf b" and n: "0 < n" "n \<le> bb_len b" "bb_offset b + n \<le> bb_size b"
    and room: "pos + n \<le> length buf"
  shows "bio_read_loop n pos buf b = Some (take pos buf @ take n (ring_bytes b) @ drop (pos + n) buf, ring_skip n b)"
proof -
  from wf obtain d where d: "bb_buf b = Some d" "length d = bb_size b" "bb_size b < 2 ^ 63"
    "bb_len b \<le> bb_size b" "bb_offset b < bb_size b" by (rule ring_wfE)
  have c: "OPENSSL_memcpy buf pos d (bb_offset b) n = Some (take pos buf @ take n (drop (bb_offset b) d) @ drop (pos + n) buf)"
    by (rule memcpy_eq) (use d n room in auto)
  have t: "take n (ring_bytes b) = take n (drop (bb_offset b) d)"
    using n d by (auto simp: ring_bytes_def min_def)
  have m: "(bb_offset b + n) mod bb_size b = (if bb_offset b + n = bb_size b then 0 else bb_offset b + n)"
    using n by simp
  show ?thesis
    by (subst bio_read_loop.simps) (use d n c t m in \<open>simp add: size_simps ring_skip_def Let_def\<close>)
qed

lemma read_loop_correct:
  assumes wf: "ring_wf b" and n: "0 < n" "n \<le> bb_len b" and room: "pos + n \<le> length buf"
  shows "bio_read_loop n pos buf b = Some (take pos buf @ take n (ring_bytes b) @ drop (pos + n) buf, ring_skip n b)"
proof (cases "bb_offset b + n \<le> bb_size b")
  case True
  with assms show ?thesis by (intro read_one_chunk)
next
  case False
  from wf obtain d where d: "bb_buf b = Some d" "length d = bb_size b" "bb_size b < 2 ^ 63"
    "bb_len b \<le> bb_size b" "bb_offset b < bb_size b" by (rule ring_wfE)
  let ?c = "bb_size b - bb_offset b"
  let ?b = "b\<lparr>bb_len := bb_len b - ?c, bb_offset := 0\<rparr>"
  let ?buf = "take pos buf @ drop (bb_offset b) d @ drop (pos + ?c) buf"
  have cn: "?c < n" "0 < ?c" using False d by auto
  have c: "OPENSSL_memcpy buf pos d (bb_offset b) ?c = Some ?buf"
    using memcpy_eq [of pos ?c buf "bb_offset b" d] d n room cn by simp
  have "bio_read_loop n pos buf b = bio_read_loop (n - ?c) (pos + ?c) ?buf ?b"
    by (subst bio_read_loop.simps) (use d n c cn False in \<open>simp add: size_simps Let_def\<close>)
  also have "\<dots> = Some (take (pos + ?c) ?buf @ take (n - ?c) (ring_bytes ?b) @ drop (pos + ?c + (n - ?c)) ?buf,
      ring_skip (n - ?c) ?b)"
    by (rule read_one_chunk) (use wf d n cn room in \<open>auto simp: ring_wf_def\<close>)
  also have "ring_skip (n - ?c) ?b = ring_skip n b"
    using cn d n by (auto simp: ring_skip_def mod_if)
  also have "take (pos + ?c) ?buf = take pos buf @ drop (bb_offset b) d"
    using d room cn by simp
  also have "drop (pos + ?c + (n - ?c)) ?buf = drop (pos + n) buf"
    using d room cn by (simp add: add.commute)
  also have "take (n - ?c) (ring_bytes ?b) = take (n - ?c) d"
    using d n cn by (simp add: ring_bytes_def min_def)
  also have "(take pos buf @ drop (bb_offset b) d) @ take (n - ?c) d @ drop (pos + n) buf
      = take pos buf @ take n (ring_bytes b) @ drop (pos + n) buf"
    using d n cn by (simp add: ring_bytes_def min_def)
  finally show ?thesis .
qed

subsection \<open>The loop that writes\<close>

lemma write_chunk_bytes:
  assumes d: "length d = sz" "off < sz" "len + length xs \<le> sz"
    and wo: "wo = (if sz \<le> off + len then off + len - sz else off + len)" "wo + length xs \<le> sz"
    and d': "d' = take wo d @ xs @ drop (wo + length xs) d"
  shows "take (len + length xs) (drop off d' @ take off d') = take len (drop off d @ take off d) @ xs"
proof (cases "sz \<le> off + len")
  case False
  with assms show ?thesis by (simp add: drop_take)
next
  case True
  let ?c = "length xs"
  from True d wo have w: "wo = off + len - sz" "wo + ?c \<le> off" by auto
  have "drop off d' = drop off d"
    using w d wo unfolding d' by simp
  moreover have "take (wo + ?c) (take off d') = take (wo + ?c) d'"
    using w(2) by (simp add: min_absorb1)
  then have "take (wo + ?c) (take off d') = take wo d @ xs"
    using wo(2) d(1) unfolding d' by simp
  moreover have "len + ?c = length (drop off d) + (wo + ?c)"
    using w d True by simp
  then have "take (len + ?c) (drop off d @ take off d')
      = drop off d @ take (wo + ?c) (take off d')" by simp
  moreover have "take len (drop off d @ take off d) = drop off d @ take wo d"
    using w d True by (simp add: min_def add.commute)
  ultimately show ?thesis by simp
qed

definition ring_put :: "bytes \<Rightarrow> bytes \<Rightarrow> bio_bio_st \<Rightarrow> bio_bio_st" where
  "ring_put d xs b = b\<lparr>bb_buf := Some d, bb_len := bb_len b + length xs\<rparr>"

lemma ring_put_bytes:
  assumes "bb_buf b = Some d" "length d = bb_size b" "bb_offset b < bb_size b"
    and "bb_len b + length xs \<le> bb_size b"
    and "wo = (if bb_size b \<le> bb_offset b + bb_len b then bb_offset b + bb_len b - bb_size b
               else bb_offset b + bb_len b)" "wo + length xs \<le> bb_size b"
    and "d' = take wo d @ xs @ drop (wo + length xs) d"
  shows "ring_bytes (ring_put d' xs b) = ring_bytes b @ xs"
  using write_chunk_bytes [OF assms(2-7)] assms(1) by (simp add: ring_bytes_def ring_put_def)

lemma write_one_chunk:
  assumes wf: "ring_wf b" and n: "0 < n" "bb_len b + n \<le> bb_size b" "pos + n \<le> length buf"
    and fits: "(if bb_size b \<le> bb_offset b + bb_len b then bb_offset b + bb_len b - bb_size b
                else bb_offset b + bb_len b) + n \<le> bb_size b"
  shows "\<exists>d. bio_write_loop n pos buf b = Some (ring_put d (take n (drop pos buf)) b)
    \<and> ring_wf (ring_put d (take n (drop pos buf)) b)
    \<and> ring_bytes (ring_put d (take n (drop pos buf)) b) = ring_bytes b @ take n (drop pos buf)"
proof -
  from wf obtain d where d: "bb_buf b = Some d" "length d = bb_size b" "bb_size b < 2 ^ 63"
    "bb_len b \<le> bb_size b" "bb_offset b < bb_size b" by (rule ring_wfE)
  define wo where "wo = (if bb_size b \<le> bb_offset b + bb_len b then bb_offset b + bb_len b - bb_size b
                else bb_offset b + bb_len b)"
  let ?xs = "take n (drop pos buf)"
  let ?d = "take wo d @ ?xs @ drop (wo + n) d"
  have lx: "length ?xs = n" using n by simp
  have wn: "wo + n \<le> bb_size b" using fits by (simp add: wo_def)
  have "OPENSSL_memcpy d wo buf pos n = Some ?d"
    by (rule memcpy_eq) (use d n wn in auto)
  moreover have "size_sub (bb_offset b + bb_len b) (bb_size b) = bb_offset b + bb_len b - bb_size b"
    if "bb_size b \<le> bb_offset b + bb_len b" using that d by (simp add: size_simps)
  then have "(if bb_size b \<le> bb_offset b + bb_len b
      then size_sub (bb_offset b + bb_len b) (bb_size b) else bb_offset b + bb_len b) = wo"
    by (simp add: wo_def)
  moreover have "size_add wo n = wo + n" "size_add (bb_len b) n = bb_len b + n"
    "size_add (bb_offset b) (bb_len b) = bb_offset b + bb_len b" "size_sub n n = 0"
    using d n wn by (simp_all add: size_simps)
  ultimately have "bio_write_loop n pos buf b = Some (ring_put ?d ?xs b)"
    by (subst bio_write_loop.simps) (use d n wn lx in \<open>simp add: ring_put_def Let_def\<close>)
  moreover have "ring_wf (ring_put ?d ?xs b)"
    using d n wn lx by (simp add: ring_wf_def ring_put_def)
  moreover have "ring_bytes (ring_put ?d ?xs b) = ring_bytes b @ ?xs"
    by (rule ring_put_bytes [OF d(1,2,5)]) (use n(2) wn lx wo_def in simp_all)
  ultimately show ?thesis by blast
qed

lemma write_loop_correct:
  assumes wf: "ring_wf b" and n: "0 < n" "bb_len b + n \<le> bb_size b" "pos + n \<le> length buf"
  shows "\<exists>d. bio_write_loop n pos buf b = Some (ring_put d (take n (drop pos buf)) b)
    \<and> ring_wf (ring_put d (take n (drop pos buf)) b)
    \<and> ring_bytes (ring_put d (take n (drop pos buf)) b) = ring_bytes b @ take n (drop pos buf)"
proof (cases "bb_size b \<le> bb_offset b + bb_len b \<or> bb_offset b + bb_len b + n \<le> bb_size b")
  case True
  from wf have "bb_offset b < bb_size b" by (rule ring_wfE)
  with True n show ?thesis by (intro write_one_chunk [OF wf n]) auto
next
  case False
  from wf obtain d where d: "bb_buf b = Some d" "length d = bb_size b" "bb_size b < 2 ^ 63"
    "bb_len b \<le> bb_size b" "bb_offset b < bb_size b" by (rule ring_wfE)
  let ?wo = "bb_offset b + bb_len b"
  let ?c = "bb_size b - ?wo"
  let ?x1 = "take ?c (drop pos buf)"
  let ?d = "take ?wo d @ ?x1"
  let ?b = "ring_put ?d ?x1 b"
  have cn: "?c < n" "0 < ?c" using False by auto
  have l1: "length ?x1 = ?c" using n cn by simp
  have c: "OPENSSL_memcpy d ?wo buf pos ?c = Some ?d"
    using memcpy_eq [of ?wo ?c d pos buf] d n cn by simp
  have step: "bio_write_loop n pos buf b = bio_write_loop (n - ?c) (pos + ?c) buf ?b"
    by (subst bio_write_loop.simps)
      (use d n c cn l1 False in \<open>simp add: size_simps ring_put_def Let_def\<close>)
  have wf': "ring_wf ?b" using d n cn l1 by (simp add: ring_wf_def ring_put_def)
  have bytes: "ring_bytes ?b = ring_bytes b @ ?x1"
    by (rule ring_put_bytes [OF d(1,2,5), where wo = ?wo])
      (use d(2) n(2) cn l1 False in simp_all)
  let ?x2 = "take (n - ?c) (drop (pos + ?c) buf)"
  have "\<exists>d. bio_write_loop (n - ?c) (pos + ?c) buf ?b = Some (ring_put d ?x2 ?b)
    \<and> ring_wf (ring_put d ?x2 ?b) \<and> ring_bytes (ring_put d ?x2 ?b) = ring_bytes ?b @ ?x2"
    by (rule write_one_chunk [OF wf']) (use d n cn l1 in \<open>auto simp: ring_put_def\<close>)
  then obtain e where e: "bio_write_loop (n - ?c) (pos + ?c) buf ?b = Some (ring_put e ?x2 ?b)"
    "ring_wf (ring_put e ?x2 ?b)" "ring_bytes (ring_put e ?x2 ?b) = ring_bytes ?b @ ?x2" by blast
  have x: "take n (drop pos buf) = ?x1 @ ?x2"
    using cn take_add [of ?c "n - ?c" "drop pos buf"] by (simp add: add.commute)
  have "ring_put e ?x2 ?b = ring_put e (?x1 @ ?x2) b"
    by (simp add: ring_put_def)
  with e step bytes x show ?thesis by auto
qed

end
