(* ===== verification/BioSpec.thy ===== *)
theory BioSpec imports BioRing begin

text \<open>
  What the operations on pairs and memory BIOs promise to their callers: the bytes that go through
  and the results and retry flags.
\<close>

section \<open>The ends of a pair\<close>

lemma INT_MAX_small [simp]: "n \<le> INT_MAX \<Longrightarrow> n < 2 ^ 31" "n \<le> INT_MAX \<Longrightarrow> n < 2 ^ 64"
  by (simp_all add: INT_MAX_def)

lemma size_of_int_len: "n \<le> INT_MAX \<Longrightarrow> size_of_int (int n) = n"
  by (simp add: size_of_int_def INT_MAX_def)

definition write_flags :: "bool \<Rightarrow> u32 \<Rightarrow> u32" where
  "write_flags retry f = (if retry then (f AND NOT kRetryFlags) OR (BIO_FLAGS_WRITE OR BIO_FLAGS_SHOULD_RETRY)
     else f AND NOT kRetryFlags)"

definition read_flags :: "bool \<Rightarrow> u32 \<Rightarrow> u32" where
  "read_flags retry f = (if retry then (f AND NOT kRetryFlags) OR (BIO_FLAGS_READ OR BIO_FLAGS_SHOULD_RETRY)
     else f AND NOT kRetryFlags)"

lemma ring_other_fields [simp]:
  "ring_wf (b\<lparr>bb_request := r\<rparr>) = ring_wf b" "ring_bytes (b\<lparr>bb_request := r\<rparr>) = ring_bytes b"
  "ring_wf (b\<lparr>bb_closed := c\<rparr>) = ring_wf b" "ring_bytes (b\<lparr>bb_closed := c\<rparr>) = ring_bytes b"
  "ring_wf (b\<lparr>bb_peer := q\<rparr>) = ring_wf b" "ring_bytes (b\<lparr>bb_peer := q\<rparr>) = ring_bytes b"
  by (simp_all add: ring_wf_def ring_bytes_def split: option.split)

text \<open>
  One write of \<open>n\<close> bytes to an end with the ring \<open>b\<close>: the ring afterwards is \<open>b'\<close>, which holds the
  accepted bytes too.
\<close>

definition accepted :: "nat \<Rightarrow> bio_bio_st \<Rightarrow> nat" where
  "accepted n b = (if bb_closed b then 0 else min n (bb_size b - bb_len b))"

lemma bio_write_pair:
  assumes x: "h p = Some x" "bio_ptr x = Pair_data b" "bb_peer b \<noteq> None" "bio_init x" and wf: "ring_wf b"
    and n: "0 < n" "n \<le> INT_MAX" "n \<le> length xs"
  obtains b' where
    "bio_write p (Some xs) (int n) h = Some (if accepted n b = 0 then -1 else int (accepted n b),
       h(p \<mapsto> x\<lparr>bio_flags := write_flags (\<not> bb_closed b \<and> accepted n b = 0) (bio_flags x),
               bio_retry_reason := 0, bio_ptr := Pair_data b'\<rparr>))"
    "ring_wf b'" "ring_bytes b' = ring_bytes b @ take (accepted n b) xs"
    "bb_peer b' = bb_peer b" "bb_closed b' = bb_closed b" "bb_size b' = bb_size b" "bb_request b' = 0"
proof -
  from wf obtain d where d: "bb_buf b = Some d" "length d = bb_size b" "bb_size b < 2 ^ 63"
    "bb_len b \<le> bb_size b" "bb_offset b < bb_size b" by (rule ring_wfE)
  let ?b = "b\<lparr>bb_request := 0\<rparr>"
  have wf': "ring_wf ?b" and bytes: "ring_bytes ?b = ring_bytes b"
    using wf by simp_all
  have sn: "size_of_int (int n) = n" using n(2) by (rule size_of_int_len)
  show thesis
  proof (cases "accepted n b = 0")
    case True
    then have "bb_closed b \<or> bb_len b = bb_size b"
      using n(1) d(4) by (auto simp: accepted_def split: if_splits)
    then have "bio_write p (Some xs) (int n) h = Some (-1,
       h(p \<mapsto> x\<lparr>bio_flags := write_flags (\<not> bb_closed b) (bio_flags x),
               bio_retry_reason := 0, bio_ptr := Pair_data ?b\<rparr>))"
      using x d n sn
      by (auto simp: bio_write_def flag_ops set_pair_def bio_simps write_flags_def Let_def)
    with True show thesis by (intro that [of ?b]) (simp_all add: wf bytes)
  next
    case False
    let ?k = "accepted n b"
    have k: "0 < ?k" "?k \<le> n" "?k = min n (bb_size b - bb_len b)" "\<not> bb_closed b"
      using False by (auto simp: accepted_def split: if_splits)
    have ss: "size_sub (bb_size b) (bb_len b) = bb_size b - bb_len b" using d by (simp add: size_simps)
    have kk: "(if bb_size b - bb_len b < n then size_sub (bb_size ?b) (bb_len ?b) else n) = ?k"
      using k ss by auto
    have "\<exists>d. bio_write_loop ?k 0 xs ?b = Some (ring_put d (take ?k (drop 0 xs)) ?b)
        \<and> ring_wf (ring_put d (take ?k (drop 0 xs)) ?b)
        \<and> ring_bytes (ring_put d (take ?k (drop 0 xs)) ?b) = ring_bytes ?b @ take ?k (drop 0 xs)"
      by (rule write_loop_correct [OF wf']) (use k n d in auto)
    then obtain e where e: "bio_write_loop ?k 0 xs ?b = Some (ring_put e (take ?k xs) ?b)"
      "ring_wf (ring_put e (take ?k xs) ?b)" "ring_bytes (ring_put e (take ?k xs) ?b) = ring_bytes ?b @ take ?k xs"
      by auto
    have "c_int ?k = int ?k" using k n by (intro c_int_id) (auto simp: INT_MAX_def)
    moreover have "bb_len b \<noteq> bb_size b" using k by auto
    ultimately have "bio_write p (Some xs) (int n) h = Some (int ?k,
       h(p \<mapsto> x\<lparr>bio_flags := write_flags False (bio_flags x),
               bio_retry_reason := 0, bio_ptr := Pair_data (ring_put e (take ?k xs) ?b)\<rparr>))"
      using x d n sn k(1,4) ss e(1)
      by (simp add: bio_write_def flag_ops set_pair_def bio_simps write_flags_def Let_def kk del: if_split)
    with False e bytes show thesis
      by (intro that [of "ring_put e (take ?k xs) ?b"]) (simp_all add: ring_put_def)
  qed
qed

definition delivered :: "nat \<Rightarrow> bio_bio_st \<Rightarrow> nat" where
  "delivered n b = min n (bb_len b)"

lemma bio_read_pair:
  assumes y: "h q = Some y" "bio_ptr y = Pair_data c" "bb_peer c = Some p" "bio_init y"
    and x: "h p = Some x" "bio_ptr x = Pair_data b" "p \<noteq> q" and wf: "ring_wf b"
    and n: "0 < n" "n \<le> INT_MAX" "n \<le> length buf"
  obtains b' where
    "bio_read q (Some buf) (int n) h =
       Some (if delivered n b \<noteq> 0 then int (delivered n b) else if bb_closed b then 0 else -1,
         Some (take (delivered n b) (ring_bytes b) @ drop (delivered n b) buf),
         h(q \<mapsto> y\<lparr>bio_flags := read_flags (\<not> bb_closed b \<and> delivered n b = 0) (bio_flags y), bio_retry_reason := 0\<rparr>,
           p \<mapsto> x\<lparr>bio_ptr := Pair_data b'\<rparr>))"
    "ring_wf b'" "ring_bytes b' = drop (delivered n b) (ring_bytes b)"
    "bb_peer b' = bb_peer b" "bb_closed b' = bb_closed b" "bb_size b' = bb_size b"
    "bb_request b' = (if delivered n b = 0 \<and> \<not> bb_closed b then min n (bb_size b) else 0)"
proof -
  from wf obtain d where d: "bb_buf b = Some d" "length d = bb_size b" "bb_size b < 2 ^ 63"
    "bb_len b \<le> bb_size b" "bb_offset b < bb_size b" by (rule ring_wfE)
  let ?b = "b\<lparr>bb_request := 0\<rparr>"
  have wf': "ring_wf ?b" and bytes: "ring_bytes ?b = ring_bytes b"
    using wf by simp_all
  have sn: "size_of_int (int n) = n" using n(2) by (rule size_of_int_len)
  let ?k = "delivered n b"
  show thesis
  proof (cases "?k = 0")
    case True
    then have l: "bb_len b = 0" using n by (simp add: delivered_def)
    let ?b' = "b\<lparr>bb_request := (if bb_closed b then 0 else min n (bb_size b))\<rparr>"
    have "ring_wf ?b'" "ring_bytes ?b' = ring_bytes b"
      using wf by simp_all
    moreover have "bio_read q (Some buf) (int n) h = Some (if bb_closed b then 0 else -1, Some buf,
         h(q \<mapsto> y\<lparr>bio_flags := read_flags (\<not> bb_closed b) (bio_flags y), bio_retry_reason := 0\<rparr>,
           p \<mapsto> x\<lparr>bio_ptr := Pair_data ?b'\<rparr>))"
      using x y d(1) n sn l
      by (auto simp: bio_read_def flag_ops set_pair_def bio_simps read_flags_def Let_def min_def fun_upd_twist)
    ultimately show thesis using True by (intro that [of ?b']) simp_all
  next
    case False
    then have k: "0 < ?k" "?k \<le> n" "?k \<le> bb_len b" "bb_len b \<noteq> 0" by (auto simp: delivered_def)
    have kk: "(if bb_len b < n then bb_len ?b else n) = ?k" by (auto simp: delivered_def)
    have "bio_read_loop ?k 0 buf ?b = Some (take 0 buf @ take ?k (ring_bytes ?b) @ drop (0 + ?k) buf, ring_skip ?k ?b)"
      by (rule read_loop_correct [OF wf']) (use k n in auto)
    then have r: "bio_read_loop ?k 0 buf ?b = Some (take ?k (ring_bytes b) @ drop ?k buf, ring_skip ?k ?b)"
      by (simp add: bytes)
    have "c_int ?k = int ?k" using k n by (intro c_int_id) (auto simp: INT_MAX_def)
    moreover have "ring_wf (ring_skip ?k ?b)" by (rule ring_skip_wf [OF wf'])
    moreover have "ring_bytes (ring_skip ?k ?b) = drop ?k (ring_bytes b)"
      using ring_skip_bytes [OF wf', of ?k] k bytes by simp
    moreover have "bio_read q (Some buf) (int n) h = Some (c_int ?k,
         Some (take ?k (ring_bytes b) @ drop ?k buf),
         h(q \<mapsto> y\<lparr>bio_flags := read_flags False (bio_flags y), bio_retry_reason := 0\<rparr>,
           p \<mapsto> x\<lparr>bio_ptr := Pair_data (ring_skip ?k ?b)\<rparr>))"
      using x y d(1) n(1) sn k(1,4) r
      by (simp add: bio_read_def flag_ops set_pair_def bio_simps read_flags_def Let_def fun_upd_twist kk del: if_split)
    ultimately show thesis using False
      by (intro that [of "ring_skip ?k ?b"]) (simp_all add: ring_skip_def)
  qed
qed

end
