(* ===== verification/BioPipe.thy ===== *)
theory BioPipe imports BioSpec begin

text \<open>
  A connected pair of BIOs as two pipes, one in each direction: the abstract specification, the
  proof that the code refines it, and the pair as a byte channel.
\<close>

section \<open>Pipes\<close>

record pipe =
  pi_bytes :: bytes
  pi_closed :: bool
  pi_size :: nat
  pi_request :: nat

text \<open>
  Writing accepts what fits and asks the caller to retry when nothing does; after the write end
  has been shut down it is an error.  The result is the return value, and whether to retry.
\<close>

definition pipe_write :: "bytes \<Rightarrow> pipe \<Rightarrow> (int \<times> bool) \<times> pipe" where
  "pipe_write xs p =
     (let room = pi_size p - length (pi_bytes p); p = p\<lparr>pi_request := 0\<rparr>
      in if pi_closed p then ((-1, False), p)
         else if room = 0 then ((-1, True), p)
         else ((int (min (length xs) room), False), p\<lparr>pi_bytes := pi_bytes p @ take room xs\<rparr>))"

text \<open>
  Reading takes what there is; an empty pipe is the end of file when its write end is shut down,
  and otherwise a reason to retry, which leaves a note of how many bytes are wanted.
\<close>

definition pipe_read :: "nat \<Rightarrow> pipe \<Rightarrow> (int \<times> bool \<times> bytes) \<times> pipe" where
  "pipe_read n p =
     (if pi_bytes p \<noteq> [] then ((int (min n (length (pi_bytes p))), False, take n (pi_bytes p)),
        p\<lparr>pi_bytes := drop n (pi_bytes p), pi_request := 0\<rparr>)
      else if pi_closed p then ((0, False, []), p\<lparr>pi_request := 0\<rparr>)
      else ((-1, True, []), p\<lparr>pi_request := min n (pi_size p)\<rparr>))"

section \<open>The abstraction\<close>

definition pipe_of :: "bio_bio_st \<Rightarrow> pipe" where
  "pipe_of b = \<lparr>pi_bytes = ring_bytes b, pi_closed = bb_closed b, pi_size = bb_size b, pi_request = bb_request b\<rparr>"

definition pipe_at :: "bio_store \<Rightarrow> nat \<Rightarrow> pipe option" where
  "pipe_at h p = map_option pipe_of (pair_at h p)"

definition pair_end :: "bio_store \<Rightarrow> nat \<Rightarrow> nat \<Rightarrow> bool" where
  "pair_end h p q \<longleftrightarrow> (\<exists>x b. h p = Some x \<and> bio_method x = methods_biop \<and> bio_init x \<and> bio_ptr x = Pair_data b
     \<and> bb_peer b = Some q \<and> ring_wf b)"

definition connected :: "bio_store \<Rightarrow> nat \<Rightarrow> nat \<Rightarrow> bool" where
  "connected h p q \<longleftrightarrow> p \<noteq> q \<and> pair_end h p q \<and> pair_end h q p"

definition retry_flags :: "bio_store \<Rightarrow> nat \<Rightarrow> u32 \<Rightarrow> bool \<Rightarrow> bool" where
  "retry_flags h p f retry \<longleftrightarrow>
     BIO_get_retry_flags p h = Some (if retry then f OR BIO_FLAGS_SHOULD_RETRY else 0)"

text \<open>What a call leaves alone: which BIOs there are, their methods, links and reference counts.\<close>

definition peer_of :: "bio_st \<Rightarrow> nat option" where
  "peer_of x = Option.bind (pair_of x) bb_peer"

definition kept :: "bio_st \<Rightarrow> bio_st \<Rightarrow> bool" where
  "kept x y \<longleftrightarrow> bio_method y = bio_method x \<and> bio_references y = bio_references x
     \<and> next_bio y = next_bio x \<and> peer_of y = peer_of x"

definition frame :: "bio_store \<Rightarrow> bio_store \<Rightarrow> bool" where
  "frame h h' \<longleftrightarrow> (\<forall>r. rel_option kept (h r) (h' r))"

lemma kept_refl [simp]: "kept x x"
  by (simp add: kept_def)

lemma frame_refl [simp]: "frame h h"
  by (simp add: frame_def option.rel_refl)

lemma frame_upd: "frame h h' \<Longrightarrow> h p = Some x \<Longrightarrow> kept x y \<Longrightarrow> frame h (h'(p \<mapsto> y))"
  by (simp add: frame_def)

lemma connected_sym: "connected h p q \<Longrightarrow> connected h q p"
  by (auto simp: connected_def)

lemma pair_endE:
  assumes "pair_end h p q"
  obtains x b where "h p = Some x" "bio_method x = methods_biop" "bio_init x" "bio_ptr x = Pair_data b"
    "bb_peer b = Some q" "ring_wf b"
  using assms by (auto simp: pair_end_def)

lemma pipe_at_eq: "h p = Some x \<Longrightarrow> bio_ptr x = Pair_data b \<Longrightarrow> pipe_at h p = Some (pipe_of b)"
  by (simp add: pipe_at_def pair_at_eq)

lemma pipe_of_simps [simp]:
  "pi_bytes (pipe_of b) = ring_bytes b" "pi_closed (pipe_of b) = bb_closed b"
  "pi_size (pipe_of b) = bb_size b" "pi_request (pipe_of b) = bb_request b"
  by (simp_all add: pipe_of_def)

lemma retry_mask:
  "write_flags r f AND kRetryFlags = (if r then BIO_FLAGS_WRITE OR BIO_FLAGS_SHOULD_RETRY else 0)"
  "read_flags r f AND kRetryFlags = (if r then BIO_FLAGS_READ OR BIO_FLAGS_SHOULD_RETRY else 0)"
proof -
  have a: "(f AND NOT kRetryFlags) AND kRetryFlags = 0" by (simp add: and.assoc)
  have b: "(BIO_FLAGS_WRITE OR BIO_FLAGS_SHOULD_RETRY) AND kRetryFlags = BIO_FLAGS_WRITE OR BIO_FLAGS_SHOULD_RETRY"
    "(BIO_FLAGS_READ OR BIO_FLAGS_SHOULD_RETRY) AND kRetryFlags = BIO_FLAGS_READ OR BIO_FLAGS_SHOULD_RETRY"
    by (simp_all add: flag_numbers)
  show "write_flags r f AND kRetryFlags = (if r then BIO_FLAGS_WRITE OR BIO_FLAGS_SHOULD_RETRY else 0)"
    "read_flags r f AND kRetryFlags = (if r then BIO_FLAGS_READ OR BIO_FLAGS_SHOULD_RETRY else 0)"
    using a b unfolding write_flags_def read_flags_def
    by (simp_all only: bit.conj_disj_distrib2 or.left_neutral if_True if_False split: if_split) simp_all
qed

section \<open>The refinement\<close>

lemma write_refines:
  assumes c: "connected h p q" and n: "0 < n" "n \<le> INT_MAX" "n \<le> length xs" and a: "pipe_at h p = Some a"
  obtains h' where
    "BIO_write al (Some p) (Some xs) (int n) h = Some (fst (fst (pipe_write (take n xs) a)), h')"
    "connected h' p q" "pipe_at h' p = Some (snd (pipe_write (take n xs) a))" "pipe_at h' q = pipe_at h q"
    "retry_flags h' p BIO_FLAGS_WRITE (snd (fst (pipe_write (take n xs) a)))" "\<And>r. r \<noteq> p \<Longrightarrow> h' r = h r"
    "frame h h'"
proof -
  from c obtain x b where x: "h p = Some x" "bio_method x = methods_biop" "bio_init x" "bio_ptr x = Pair_data b"
    "bb_peer b = Some q" "ring_wf b" unfolding connected_def by (auto elim: pair_endE)
  obtain b' where b': "bio_write p (Some xs) (int n) h = Some (if accepted n b = 0 then -1 else int (accepted n b),
       h(p \<mapsto> x\<lparr>bio_flags := write_flags (\<not> bb_closed b \<and> accepted n b = 0) (bio_flags x),
               bio_retry_reason := 0, bio_ptr := Pair_data b'\<rparr>))"
    "ring_wf b'" "ring_bytes b' = ring_bytes b @ take (accepted n b) xs"
    "bb_peer b' = bb_peer b" "bb_closed b' = bb_closed b" "bb_size b' = bb_size b" "bb_request b' = 0"
    by (rule bio_write_pair [where h = h and p = p and n = n and xs = xs, OF x(1,4) _ x(3,6) n])
      (use x(5) in auto)
  let ?k = "accepted n b"
  define x1 where "x1 = x\<lparr>bio_flags := write_flags (\<not> bb_closed b \<and> ?k = 0) (bio_flags x),
    bio_retry_reason := 0, bio_ptr := Pair_data b'\<rparr>"
  define x2 where "x2 = (if ?k = 0 then x1 else x1\<lparr>num_write := num_write x1 + word_of_int (int ?k)\<rparr>)"
  have a': "a = pipe_of b" using a x by (simp add: pipe_at_eq)
  have w: "BIO_write al (Some p) (Some xs) (int n) h = Some (if ?k = 0 then -1 else int ?k, h(p \<mapsto> x2))"
    using x n b'(1) [folded x1_def]
    by (simp add: BIO_write_def method_bwrite_def at_bio_eq x2_def)
  have x2: "bio_method x2 = methods_biop" "bio_init x2" "bio_ptr x2 = Pair_data b'"
    "bio_flags x2 = write_flags (\<not> bb_closed b \<and> ?k = 0) (bio_flags x)"
    using x by (simp_all add: x2_def x1_def)
  have lb: "length (ring_bytes b) = bb_len b" using x(6) by simp
  have r: "fst (fst (pipe_write (take n xs) a)) = (if ?k = 0 then -1 else int ?k)"
    "snd (fst (pipe_write (take n xs) a)) = (\<not> bb_closed b \<and> ?k = 0)"
    "snd (pipe_write (take n xs) a) = pipe_of b'"
    using n lb b' by (auto simp: a' pipe_write_def Let_def accepted_def pipe_of_def min_def)
  have c': "connected (h(p \<mapsto> x2)) p q"
    using c x x2 b' by (auto simp: connected_def pair_end_def)
  have "kept x x2" using x b'(4) by (simp add: kept_def peer_of_def pair_of_def x2_def x1_def)
  then have fr: "frame h (h(p \<mapsto> x2))" using x(1) by (simp add: frame_upd)
  show thesis
    by (rule that [of "h(p \<mapsto> x2)"])
      (use w r x2 c' c fr in \<open>auto simp: pipe_at_eq retry_flags_def BIO_get_retry_flags_def retry_mask
        pipe_at_def pair_at_def pair_of_def connected_def\<close>)
qed

lemma read_refines:
  assumes c: "connected h p q" and n: "0 < n" "n \<le> INT_MAX" "n \<le> length buf" and a: "pipe_at h p = Some a"
  obtains h' where
    "BIO_read (Some q) (Some buf) (int n) h = Some (fst (fst (pipe_read n a)),
       Some (snd (snd (fst (pipe_read n a))) @ drop (length (snd (snd (fst (pipe_read n a))))) buf), h')"
    "connected h' p q" "pipe_at h' p = Some (snd (pipe_read n a))" "pipe_at h' q = pipe_at h q"
    "retry_flags h' q BIO_FLAGS_READ (fst (snd (fst (pipe_read n a))))" "\<And>r. r \<noteq> p \<Longrightarrow> r \<noteq> q \<Longrightarrow> h' r = h r"
    "frame h h'"
proof -
  from c obtain x b where x: "h p = Some x" "bio_method x = methods_biop" "bio_init x" "bio_ptr x = Pair_data b"
    "bb_peer b = Some q" "ring_wf b" unfolding connected_def by (auto elim: pair_endE)
  from c obtain y c' where y: "h q = Some y" "bio_method y = methods_biop" "bio_init y" "bio_ptr y = Pair_data c'"
    "bb_peer c' = Some p" "ring_wf c'" unfolding connected_def by (auto elim: pair_endE)
  have pq: "p \<noteq> q" using c by (simp add: connected_def)
  let ?k = "delivered n b"
  let ?rt = "\<not> bb_closed b \<and> ?k = 0"
  obtain b' where b': "bio_read q (Some buf) (int n) h =
       Some (if ?k \<noteq> 0 then int ?k else if bb_closed b then 0 else -1,
         Some (take ?k (ring_bytes b) @ drop ?k buf),
         h(q \<mapsto> y\<lparr>bio_flags := read_flags ?rt (bio_flags y), bio_retry_reason := 0\<rparr>,
           p \<mapsto> x\<lparr>bio_ptr := Pair_data b'\<rparr>))"
    "ring_wf b'" "ring_bytes b' = drop ?k (ring_bytes b)"
    "bb_peer b' = bb_peer b" "bb_closed b' = bb_closed b" "bb_size b' = bb_size b"
    "bb_request b' = (if ?k = 0 \<and> \<not> bb_closed b then min n (bb_size b) else 0)"
    by (rule bio_read_pair [OF y(1,4,5,3) x(1,4) pq x(6) n])
  define y1 where "y1 = y\<lparr>bio_flags := read_flags ?rt (bio_flags y), bio_retry_reason := 0\<rparr>"
  define y2 where "y2 = (if ?k = 0 then y1 else y1\<lparr>num_read := num_read y1 + word_of_int (int ?k)\<rparr>)"
  define x1 where "x1 = x\<lparr>bio_ptr := Pair_data b'\<rparr>"
  have a': "a = pipe_of b" using a x by (simp add: pipe_at_eq)
  have w: "BIO_read (Some q) (Some buf) (int n) h = Some (if ?k \<noteq> 0 then int ?k else if bb_closed b then 0 else -1,
      Some (take ?k (ring_bytes b) @ drop ?k buf), h(q \<mapsto> y2, p \<mapsto> x1))"
    using y n b'(1) [folded x1_def y1_def] pq
    by (auto simp: BIO_read_def method_bread_def at_bio_eq y2_def fun_upd_twist)
  have y2: "bio_method y2 = methods_biop" "bio_init y2" "bio_ptr y2 = Pair_data c'"
    "bio_flags y2 = read_flags ?rt (bio_flags y)"
    using y by (simp_all add: y2_def y1_def)
  have x1: "bio_method x1 = methods_biop" "bio_init x1" "bio_ptr x1 = Pair_data b'"
    using x by (simp_all add: x1_def)
  have lb: "length (ring_bytes b) = bb_len b" using x(6) by simp
  then have e: "ring_bytes b = [] \<longleftrightarrow> bb_len b = 0" by auto
  from lb have r: "fst (fst (pipe_read n a)) = (if ?k \<noteq> 0 then int ?k else if bb_closed b then 0 else -1)"
    "fst (snd (fst (pipe_read n a))) = ?rt" "snd (snd (fst (pipe_read n a))) = take ?k (ring_bytes b)"
    "snd (pipe_read n a) = pipe_of b'"
    using n(1) b'(3,5-7) e by (auto simp: a' pipe_read_def Let_def delivered_def pipe_of_def min_def)
  have c': "connected (h(q \<mapsto> y2, p \<mapsto> x1)) p q"
    using pq x y x1 y2 b' by (auto simp: connected_def pair_end_def)
  have lt: "length (take ?k (ring_bytes b)) = ?k" using lb by (simp add: delivered_def)
  have "kept x x1" "kept y y2"
    using x y b'(4) by (simp_all add: kept_def peer_of_def pair_of_def y2_def y1_def x1_def)
  then have fr: "frame h (h(q \<mapsto> y2, p \<mapsto> x1))" using x(1) y(1) by (simp add: frame_upd)
  show thesis
    by (rule that [of "h(q \<mapsto> y2, p \<mapsto> x1)"])
      (use w r x1 y2 y c' pq lt fr in \<open>auto simp: pipe_at_eq retry_flags_def BIO_get_retry_flags_def retry_mask
        pipe_at_def pair_at_def pair_of_def\<close>)
qed

lemma pipe_at_upd [simp]:
  "pipe_at (h(p \<mapsto> x)) r = (if r = p then map_option pipe_of (pair_of x) else pipe_at h r)"
  by (simp add: pipe_at_def pair_at_def)

lemma pair_of_data [simp]: "bio_ptr x = Pair_data b \<Longrightarrow> pair_of x = Some b"
  by (simp add: pair_of_def)

text \<open>The requests that the two ends send to each other's buffers.\<close>

lemma ctrl_end:
  assumes "pair_end h p q"
  obtains x b where "h p = Some x" "bio_ptr x = Pair_data b" "ring_wf b" "bb_peer b = Some q"
    "\<forall>cmd num arg. BIO_ctrl (Some p) cmd num arg h
       = map_option (\<lambda>(r, h). (r, No_out, h)) (bio_ctrl p cmd num arg h)"
    "\<forall>b'. ring_wf b' \<longrightarrow> bb_peer b' = Some q \<longrightarrow> pair_end (h(p \<mapsto> x\<lparr>bio_ptr := Pair_data b'\<rparr>)) p q"
  using assms by (force simp: pair_end_def BIO_ctrl_def intro: that)

lemma shutdown_refines:
  assumes c: "connected h p q" and a: "pipe_at h p = Some a"
  obtains h' where "BIO_shutdown_wr (Some p) h = Some (1, No_out, h')" "connected h' p q"
    "pipe_at h' p = Some (a\<lparr>pi_closed := True\<rparr>)" "pipe_at h' q = pipe_at h q"
    "\<And>r. r \<noteq> p \<Longrightarrow> h' r = h r" "frame h h'"
proof -
  from c have e: "pair_end h p q" and pq: "p \<noteq> q" "pair_end h q p" by (simp_all add: connected_def)
  from e obtain x b where x: "h p = Some x" "bio_ptr x = Pair_data b" "ring_wf b" "bb_peer b = Some q"
    "\<forall>cmd num arg. BIO_ctrl (Some p) cmd num arg h
       = map_option (\<lambda>(r, h). (r, No_out, h)) (bio_ctrl p cmd num arg h)"
    "\<forall>b'. ring_wf b' \<longrightarrow> bb_peer b' = Some q \<longrightarrow> pair_end (h(p \<mapsto> x\<lparr>bio_ptr := Pair_data b'\<rparr>)) p q"
    by (rule ctrl_end)
  let ?b = "b\<lparr>bb_closed := True\<rparr>"
  let ?h = "h(p \<mapsto> x\<lparr>bio_ptr := Pair_data ?b\<rparr>)"
  have "BIO_shutdown_wr (Some p) h = Some (1, No_out, ?h)"
    using x by (simp add: BIO_shutdown_wr_def bio_ctrl_def bio_simps set_pair_def ctrl_numbers)
  moreover have "connected ?h p q"
    using x(6) x(3,4) pq by (auto simp: connected_def pair_end_def)
  moreover have "a = pipe_of b" using a x by (simp add: pipe_at_eq)
  moreover have "kept x (x\<lparr>bio_ptr := Pair_data ?b\<rparr>)"
    using x by (simp add: kept_def peer_of_def pair_of_def)
  then have "frame h ?h" using x(1) by (simp add: frame_upd)
  ultimately show thesis using that [of ?h] pq x by (auto simp: pipe_of_def)
qed

lemma requests_refine:
  assumes c: "connected h p q" and a: "pipe_at h p = Some a" "pipe_at h q = Some b"
  shows "BIO_pending (Some p) h = Some (length (pi_bytes b), h)"
    and "BIO_wpending (Some p) h = Some (length (pi_bytes a), h)"
    and "BIO_ctrl_get_write_guarantee (Some p) h =
      Some (if pi_closed a then 0 else int (pi_size a - length (pi_bytes a)), No_out, h)"
    and "BIO_ctrl_get_read_request (Some p) h = Some (c_long (pi_request a), No_out, h)"
    and "BIO_eof (Some p) h = Some (1, No_out, h)"
proof -
  from c have e: "pair_end h p q" "pair_end h q p" by (simp_all add: connected_def)
  from e(1) obtain x r where x: "h p = Some x" "bio_ptr x = Pair_data r" "ring_wf r" "bb_peer r = Some q"
    "\<forall>cmd num arg. BIO_ctrl (Some p) cmd num arg h
       = map_option (\<lambda>(r, h). (r, No_out, h)) (bio_ctrl p cmd num arg h)"
    by (rule ctrl_end)
  from e(2) obtain y t where y: "h q = Some y" "bio_ptr y = Pair_data t" "ring_wf t" by (rule ctrl_end)
  have ab: "a = pipe_of r" "b = pipe_of t" using a x y by (simp_all add: pipe_at_eq)
  from x(3) obtain d where d: "bb_buf r = Some d" "bb_size r < 2 ^ 63" "bb_len r \<le> bb_size r" by (rule ring_wfE)
  from y(3) have l: "bb_len t < 2 ^ 63" by (auto elim: ring_wfE)
  have g: "c_long (size_sub (bb_size r) (bb_len r)) = int (bb_size r - bb_len r)"
    using d by (simp add: size_simps)
  note defs = BIO_pending_def BIO_wpending_def BIO_ctrl_get_write_guarantee_def
    BIO_ctrl_get_read_request_def BIO_eof_def bio_ctrl_def bio_simps ctrl_numbers
  show "BIO_pending (Some p) h = Some (length (pi_bytes b), h)"
    using x y l by (simp add: defs ab c_long_id)
  show "BIO_wpending (Some p) h = Some (length (pi_bytes a), h)"
    using x d by (simp add: defs ab c_long_id)
  show "BIO_ctrl_get_write_guarantee (Some p) h =
      Some (if pi_closed a then 0 else int (pi_size a - length (pi_bytes a)), No_out, h)"
    using x g by (simp add: defs ab)
  show "BIO_ctrl_get_read_request (Some p) h = Some (c_long (pi_request a), No_out, h)"
    using x by (simp add: defs ab)
  show "BIO_eof (Some p) h = Some (1, No_out, h)"
    using x by (simp add: defs)
qed

section \<open>Making a pair\<close>

text \<open>
  What is assumed of the C library's \<open>malloc\<close>: no object is larger than \<open>PTRDIFF_MAX\<close> bytes.
\<close>

definition malloc_bounded :: "allocator \<Rightarrow> bool" where
  "malloc_bounded al \<longleftrightarrow> (\<forall>n \<ge> 2 ^ 63. al n = None)"

lemma malloc_bounded_size:
  assumes "malloc_bounded al" "OPENSSL_malloc al n = Some b"
  shows "n < 2 ^ 63"
proof (rule ccontr)
  assume "\<not> n < 2 ^ 63"
  moreover from assms(2) have w: "\<not> size_add n 8 < n" and "al (size_add n 8) \<noteq> None"
    by (auto simp: OPENSSL_malloc_def OPENSSL_MALLOC_PREFIX_def split: if_splits option.splits)
  ultimately show False using assms(1) by (auto simp: malloc_bounded_def)
qed

definition fresh_bio :: "bio_method \<Rightarrow> bio_st" where
  "fresh_bio m = \<lparr>bio_method = m, bio_init = False, bio_shutdown = 1, bio_flags = 0,
     bio_retry_reason = 0, bio_num = 0, bio_references = 1, bio_ptr = No_data,
     next_bio = None, num_read = 0, num_write = 0\<rparr>"

definition fresh_ring :: bio_bio_st where
  "fresh_ring = \<lparr>bb_peer = None, bb_closed = False, bb_len = 0, bb_offset = 0,
     bb_size = 17 * 1024, bb_buf = None, bb_request = 0\<rparr>"

definition pair_half :: "bio_bio_st \<Rightarrow> bio_st" where
  "pair_half b = (fresh_bio methods_biop)\<lparr>bio_ptr := Pair_data b\<rparr>"

lemma pair_half_simps [simp]:
  "bio_ptr (pair_half b) = Pair_data b" "bio_method (pair_half b) = methods_biop"
  "(pair_half b)\<lparr>bio_ptr := Pair_data c\<rparr> = pair_half c" "bio_references (pair_half b) = 1"
  "next_bio (pair_half b) = None"
  by (simp_all add: pair_half_def fresh_bio_def)

lemma BIO_new_pair_half:
  assumes "h p = None"
  shows "BIO_new al p methods_biop h = Some (None, h)
    \<or> BIO_new al p methods_biop h = Some (Some p, h(p \<mapsto> pair_half fresh_ring))"
  using assms
  by (auto simp: BIO_new_def method_create_def bio_new_def set_pair_def bio_simps Let_def
      pair_half_def fresh_bio_def fresh_ring_def fun_upd_idem split: option.split)

lemma BIO_free_half:
  assumes "h p = Some (pair_half b)" "bb_peer b = None"
  shows "BIO_free (Some p) h = Some (1, h(p := None))"
  using assms
  by (subst BIO_free.simps)
    (simp add: CRYPTO_refcount_dec_and_test_zero_def CRYPTO_REFCOUNT_MAX_def BIO_pop_def
      method_destroy_def bio_free_def pair_half_def fresh_bio_def bio_simps BIO_free.simps)

lemma make_buf_cases:
  assumes "malloc_bounded al" "make_buf al n fresh_ring = (ok, b)"
  shows "bb_peer b = None \<and> (ok \<longrightarrow> ring_wf b \<and> ring_bytes b = [] \<and> bb_size b = (if n = 0 then 17 * 1024 else n))"
proof -
  have "bb_size b < 2 ^ 63 \<and> length d = bb_size b" if "bb_buf b = Some d" for d
    using assms that malloc_bounded_size [OF assms(1)]
    by (auto simp: make_buf_def fresh_ring_def Let_def dest: OPENSSL_malloc_length split: option.splits if_splits)
  with assms(2) show ?thesis
    by (auto simp: make_buf_def fresh_ring_def Let_def ring_wf_def ring_bytes_def split: option.splits if_splits)
qed

lemma make_pair_connected:
  assumes h: "h p = Some (pair_half fresh_ring)" "h q = Some (pair_half fresh_ring)" "p \<noteq> q"
    and al: "malloc_bounded al"
  shows "(\<exists>b1 b2. bio_make_pair al p q n m h = Some (False, h(p \<mapsto> pair_half b1, q \<mapsto> pair_half b2))
        \<and> bb_peer b1 = None \<and> bb_peer b2 = None)
    \<or> (\<exists>h'. bio_make_pair al p q n m h = Some (True, h') \<and> connected h' p q
        \<and> pipe_at h' p = Some \<lparr>pi_bytes = [], pi_closed = False, pi_size = if n = 0 then 17 * 1024 else n, pi_request = 0\<rparr>
        \<and> pipe_at h' q = Some \<lparr>pi_bytes = [], pi_closed = False, pi_size = if m = 0 then 17 * 1024 else m, pi_request = 0\<rparr>
        \<and> (\<forall>r. r \<noteq> p \<longrightarrow> r \<noteq> q \<longrightarrow> h' r = h r)
        \<and> (\<forall>r x. r \<in> {p, q} \<longrightarrow> h' r = Some x \<longrightarrow> bio_references x = 1 \<and> next_bio x = None))"
proof -
  obtain ok1 b1 where b1: "make_buf al n fresh_ring = (ok1, b1)" by fastforce
  obtain ok2 b2 where b2: "make_buf al m fresh_ring = (ok2, b2)" by fastforce
  note c1 = make_buf_cases [OF al b1] and c2 = make_buf_cases [OF al b2]
  note defs = bio_make_pair_def set_pair_def bio_simps fresh_ring_def fun_upd_twist fun_upd_idem
  have f: "bb_peer fresh_ring = None" by (simp add: fresh_ring_def)
  show ?thesis
  proof (cases "ok1 \<and> ok2")
    case False
    then have "bio_make_pair al p q n m h = Some (False, h(p \<mapsto> pair_half b1, q \<mapsto> pair_half (if ok1 then b2 else fresh_ring)))"
      using h b1 b2 f by (auto simp: bio_make_pair_def set_pair_def bio_simps fun_upd_twist fun_upd_idem)
    with c1 c2 f show ?thesis by auto
  next
    case True
    let ?b1 = "b1\<lparr>bb_peer := Some q, bb_closed := False, bb_request := 0\<rparr>"
    let ?b2 = "b2\<lparr>bb_peer := Some p, bb_closed := False, bb_request := 0\<rparr>"
    let ?h = "h(p \<mapsto> pair_half ?b1\<lparr>bio_init := True\<rparr>, q \<mapsto> pair_half ?b2\<lparr>bio_init := True\<rparr>)"
    have "bio_make_pair al p q n m h = Some (True, ?h)"
      using True h b1 b2 f
      by (auto simp: bio_make_pair_def set_pair_def bio_simps fun_upd_twist fun_upd_idem)
    moreover have "ring_wf ?b1" "ring_wf ?b2" "ring_bytes ?b1 = []" "ring_bytes ?b2 = []"
      using True c1 c2 by simp_all
    then have "connected ?h p q"
      using h(3) by (auto simp: connected_def pair_end_def)
    ultimately show ?thesis using True c1 c2 h(3) \<open>ring_bytes ?b1 = []\<close> \<open>ring_bytes ?b2 = []\<close>
      by (intro disjI2 exI [of _ ?h]) (auto simp: pipe_of_def)
  qed
qed

lemma new_pair_connected:
  assumes h: "h p = None" "h q = None" "p \<noteq> q" and al: "malloc_bounded al"
  shows "BIO_new_bio_pair al p q n m h = Some ((None, None, False), h)
    \<or> (\<exists>h'. BIO_new_bio_pair al p q n m h = Some ((Some p, Some q, True), h') \<and> connected h' p q
        \<and> pipe_at h' p = Some \<lparr>pi_bytes = [], pi_closed = False, pi_size = if n = 0 then 17 * 1024 else n, pi_request = 0\<rparr>
        \<and> pipe_at h' q = Some \<lparr>pi_bytes = [], pi_closed = False, pi_size = if m = 0 then 17 * 1024 else m, pi_request = 0\<rparr>
        \<and> (\<forall>r. r \<noteq> p \<longrightarrow> r \<noteq> q \<longrightarrow> h' r = h r)
        \<and> (\<forall>r x. r \<in> {p, q} \<longrightarrow> h' r = Some x \<longrightarrow> bio_references x = 1 \<and> next_bio x = None))"
proof -
  let ?f = "pair_half fresh_ring"
  let ?h1 = "h(p \<mapsto> ?f)" and ?h2 = "h(p \<mapsto> ?f, q \<mapsto> ?f)"
  have f: "bb_peer fresh_ring = None" by (simp add: fresh_ring_def)
  have nul: "BIO_free None k = Some (1, k)" for k by (simp add: BIO_free.simps)
  note half = BIO_free_half [of _ _ fresh_ring, OF _ f]
  from BIO_new_pair_half [where h = h and p = p and al = al, OF h(1)] consider
      "BIO_new al p methods_biop h = Some (None, h)" | "BIO_new al p methods_biop h = Some (Some p, ?h1)" by blast
  then show ?thesis
  proof cases
    case 1
    with BIO_new_pair_half [where h = h and p = q and al = al, OF h(2)] half [of "h(q \<mapsto> ?f)" q] h show ?thesis
      by (auto simp: BIO_new_bio_pair_def nul fun_upd_idem)
  next
    case 2
    have "?h1 q = None" using h by simp
    from BIO_new_pair_half [where h = ?h1 and p = q and al = al, OF this] consider
      "BIO_new al q methods_biop ?h1 = Some (None, ?h1)" | "BIO_new al q methods_biop ?h1 = Some (Some q, ?h2)" by blast
    then show ?thesis
    proof cases
      case 1
      with 2 half [of ?h1 p] h show ?thesis by (simp add: BIO_new_bio_pair_def nul fun_upd_idem)
    next
      case n2: 2
      have hh: "?h2 p = Some ?f" "?h2 q = Some ?f" using h by simp_all
      from make_pair_connected [OF hh h(3) al, of n m] show ?thesis
      proof (elim disjE exE conjE)
        fix b1 b2 assume m: "bio_make_pair al p q n m ?h2 = Some (False, ?h2(p \<mapsto> pair_half b1, q \<mapsto> pair_half b2))"
          "bb_peer b1 = None" "bb_peer b2 = None"
        have "BIO_free (Some p) (?h2(p \<mapsto> pair_half b1, q \<mapsto> pair_half b2)) = Some (1, h(p := None, q \<mapsto> pair_half b2))"
          using BIO_free_half [of "?h2(p \<mapsto> pair_half b1, q \<mapsto> pair_half b2)" p b1] h m by (simp add: fun_upd_twist)
        moreover have "BIO_free (Some q) (h(p := None, q \<mapsto> pair_half b2)) = Some (1, h)"
          using BIO_free_half [of "h(p := None, q \<mapsto> pair_half b2)" q b2] h m by (simp add: fun_upd_idem)
        ultimately show ?thesis using 2 n2 m by (simp add: BIO_new_bio_pair_def)
      next
        fix h' assume m: "bio_make_pair al p q n m ?h2 = Some (True, h')"
        assume "connected h' p q"
          "pipe_at h' p = Some \<lparr>pi_bytes = [], pi_closed = False, pi_size = if n = 0 then 17 * 1024 else n, pi_request = 0\<rparr>"
          "pipe_at h' q = Some \<lparr>pi_bytes = [], pi_closed = False, pi_size = if m = 0 then 17 * 1024 else m, pi_request = 0\<rparr>"
          "\<forall>r. r \<noteq> p \<longrightarrow> r \<noteq> q \<longrightarrow> h' r = ?h2 r"
          "\<forall>r x. r \<in> {p, q} \<longrightarrow> h' r = Some x \<longrightarrow> bio_references x = 1 \<and> next_bio x = None"
        with 2 n2 m h show ?thesis by (auto simp: BIO_new_bio_pair_def)
      qed
    qed
  qed
qed

end
