(* ===== verification/BioMemSpec.thy ===== *)
theory BioMemSpec imports BioPipe begin

text \<open>
  What a memory BIO promises: it is an unbounded byte channel, and at its end it returns the value
  its owner has chosen.
\<close>

section \<open>The invariant\<close>

text \<open>
  A read-only BIO points into a block that stays as it is; what has been read lies in front of the
  pointer.  The other kind owns its buffer.
\<close>

definition mem_static :: "buf_mem \<Rightarrow> bool" where
  "mem_static m \<longleftrightarrow> bm_off m + bm_length m = bm_max m
     \<and> (case bm_data m of None \<Rightarrow> bm_max m = 0 | Some d \<Rightarrow> bm_max m \<le> length d)"

definition mem_inv :: "bio_st \<Rightarrow> buf_mem \<Rightarrow> bool" where
  "mem_inv x m \<longleftrightarrow> bm_max m < 2 ^ 63 \<and> (if mem_rdonly x then mem_static m else bm_wf m)"

lemma mem_inv_length: "mem_inv x m \<Longrightarrow> length (bm_bytes m) = bm_length m"
  using length_bm_bytes
  by (auto simp: mem_inv_def mem_static_def bm_bytes_def bm_wf_def split: if_splits option.splits)

lemma mem_inv_small: "mem_inv x m \<Longrightarrow> bm_length m < 2 ^ 63"
  by (auto simp: mem_inv_def mem_static_def bm_wf_def split: if_splits)

lemma mem_inv_data:
  assumes "mem_inv x m" "bm_length m \<noteq> 0"
  obtains d where "bm_data m = Some d" "bm_off m + bm_length m \<le> length d"
    "bm_bytes m = take (bm_length m) (drop (bm_off m) d)"
  using assms by (auto simp: mem_inv_def mem_static_def bm_wf_def bm_bytes_def split: if_splits option.splits)

lemma mem_consume_spec:
  assumes i: "mem_inv x m" and n: "n \<le> bm_length m" "0 < n"
  obtains m' where "mem_consume (mem_rdonly x) n m = Some m'" "mem_inv x m'"
    "bm_bytes m' = drop n (bm_bytes m)"
proof -
  have s: "size_sub (bm_length m) n = bm_length m - n"
    using mem_inv_small [OF i] n by (simp add: size_simps)
  from n have "bm_length m \<noteq> 0" by simp
  with i obtain d where d: "bm_data m = Some d" "bm_off m + bm_length m \<le> length d"
    "bm_bytes m = take (bm_length m) (drop (bm_off m) d)" by (rule mem_inv_data)
  show thesis
  proof (cases "mem_rdonly x")
    case True
    with i d n show thesis
      by (intro that [of "m\<lparr>bm_length := bm_length m - n, bm_off := bm_off m + n\<rparr>"])
        (auto simp: mem_consume_def s mem_inv_def mem_static_def bm_bytes_def drop_take add.commute)
  next
    case False
    with i have w: "bm_wf m" "bm_max m < 2 ^ 63" by (simp_all add: mem_inv_def)
    with d have o: "bm_off m = 0" "length d = bm_max m" by (simp_all add: bm_wf_def)
    let ?l = "bm_length m - n"
    let ?d = "take ?l (drop n d) @ drop ?l d"
    have "OPENSSL_memmove d 0 n ?l = Some ?d"
      using memmove_eq [of 0 ?l d n] d o n by simp
    then have "mem_consume False n m = Some (m\<lparr>bm_length := ?l, bm_data := Some ?d\<rparr>)"
      using d o s by (simp add: mem_consume_def Let_def)
    moreover have "mem_inv x (m\<lparr>bm_length := ?l, bm_data := Some ?d\<rparr>)"
      using False w d o n by (auto simp: mem_inv_def bm_wf_def)
    moreover have "bm_bytes (m\<lparr>bm_length := ?l, bm_data := Some ?d\<rparr>) = drop n (bm_bytes m)"
      using d o n by (simp add: bm_bytes_def drop_take)
    ultimately show thesis using that False by simp
  qed
qed

section \<open>Reading\<close>

lemma bio_ptr_self:
  "bio_ptr x = d \<Longrightarrow> x\<lparr>bio_flags := f, bio_retry_reason := i, bio_ptr := d\<rparr> = x\<lparr>bio_flags := f, bio_retry_reason := i\<rparr>"
  by (cases x) simp

lemma rdonly_flags [simp]:
  "mem_rdonly (x\<lparr>bio_flags := read_flags r f\<rparr>) = mem_rdonly (x\<lparr>bio_flags := f\<rparr>)"
  "mem_rdonly (x\<lparr>bio_retry_reason := i\<rparr>) = mem_rdonly x"
  "mem_rdonly (x\<lparr>bio_ptr := d\<rparr>) = mem_rdonly x"
  "mem_rdonly (x\<lparr>num_read := u\<rparr>) = mem_rdonly x" "mem_rdonly (x\<lparr>num_write := u\<rparr>) = mem_rdonly x"
proof -
  have a: "(f AND NOT kRetryFlags) AND BIO_FLAGS_MEM_RDONLY = f AND BIO_FLAGS_MEM_RDONLY"
    by (simp add: and.assoc flag_numbers)
  have b: "(BIO_FLAGS_READ OR BIO_FLAGS_SHOULD_RETRY) AND BIO_FLAGS_MEM_RDONLY = 0"
    by (simp add: flag_numbers)
  show "mem_rdonly (x\<lparr>bio_flags := read_flags r f\<rparr>) = mem_rdonly (x\<lparr>bio_flags := f\<rparr>)"
    using a b by (simp add: mem_rdonly_def read_flags_def bit.conj_disj_distrib2)
qed (simp_all add: mem_rdonly_def)

lemma mem_inv_cong: "mem_rdonly x = mem_rdonly y \<Longrightarrow> mem_inv x m = mem_inv y m"
  by (simp add: mem_inv_def)

lemma mem_read_spec:
  assumes x: "h p = Some x" "bio_ptr x = Mem_data m" "mem_inv x m"
    and n: "0 < n" "n \<le> INT_MAX" "n \<le> length buf"
  obtains m' where
    "mem_read p (Some buf) (int n) h =
       Some (if bm_length m = 0 then bio_num x else int (min n (bm_length m)),
         Some (take n (bm_bytes m) @ drop (min n (bm_length m)) buf),
         h(p \<mapsto> x\<lparr>bio_flags := read_flags (bm_length m = 0 \<and> bio_num x \<noteq> 0) (bio_flags x),
                 bio_retry_reason := 0, bio_ptr := Mem_data m'\<rparr>))"
    "mem_inv x m'" "bm_bytes m' = drop n (bm_bytes m)"
proof (cases "bm_length m = 0")
  case True
  then have "bm_bytes m = []" using mem_inv_length [OF x(3)] by simp
  with True x n show thesis
    by (intro that [of m])
      (auto simp: bio_ptr_self mem_read_def flag_ops bio_simps mem_of_def read_flags_def c_int_def size_of_int_len Let_def)
next
  case False
  let ?k = "min n (bm_length m)"
  have k: "0 < ?k" "?k \<le> bm_length m" "?k \<le> n" using False n by auto
  from x(3) False obtain d where d: "bm_data m = Some d" "bm_off m + bm_length m \<le> length d"
    "bm_bytes m = take (bm_length m) (drop (bm_off m) d)" by (rule mem_inv_data)
  obtain m' where m': "mem_consume (mem_rdonly x) ?k m = Some m'" "mem_inv x m'"
    "bm_bytes m' = drop ?k (bm_bytes m)"
    by (rule mem_consume_spec [OF x(3) k(2,1)])
  have c: "OPENSSL_memcpy buf 0 d (bm_off m) ?k = Some (take ?k (drop (bm_off m) d) @ drop ?k buf)"
    using memcpy_eq [of 0 ?k buf "bm_off m" d] k n d by simp
  have t: "take ?k (drop (bm_off m) d) = take n (bm_bytes m)" using d by (simp add: min.commute)
  have r: "(if bm_length m < size_of_int (int n) then c_int (bm_length m) else int n) = int ?k"
    using n by (auto simp: size_of_int_len c_int_id INT_MAX_def)
  let ?x = "x\<lparr>bio_flags := bio_flags x AND NOT kRetryFlags, bio_retry_reason := 0\<rparr>"
  have f: "read_flags False (bio_flags x) = bio_flags x AND NOT kRetryFlags" by (simp add: read_flags_def)
  have ro: "mem_rdonly ?x = mem_rdonly x"
    using rdonly_flags(1) [where x = x and r = False and f = "bio_flags x"] by (simp add: f)
  have "mem_read p (Some buf) (int n) h =
       Some (int ?k, Some (take n (bm_bytes m) @ drop ?k buf), h(p \<mapsto> ?x\<lparr>bio_ptr := Mem_data m'\<rparr>))"
    using x n(1) k(1) d(1) c m'(1) ro
    by (simp add: mem_read_def flag_ops set_mem_def bio_simps mem_of_def r t Let_def del: min_less_iff_conj)
  moreover have "drop ?k (bm_bytes m) = drop n (bm_bytes m)"
    using mem_inv_length [OF x(3)] by (auto simp: min_def)
  ultimately show thesis using False m' f that [of m'] by simp
qed

section \<open>Writing\<close>

lemma realloc_bounded:
  assumes "malloc_bounded al" "OPENSSL_realloc al q n = Some b"
  shows "n < 2 ^ 63"
proof -
  from assms(2) obtain b' where "OPENSSL_malloc al n = Some b'"
    by (auto simp: OPENSSL_realloc_def split: option.splits)
  with assms(1) show ?thesis by (rule malloc_bounded_size)
qed

lemma reserve_max:
  "malloc_bounded al \<Longrightarrow> bm_max b < 2 ^ 63 \<Longrightarrow> BUF_MEM_reserve al cap b = Some (ok, b') \<Longrightarrow> bm_max b' < 2 ^ 63"
  by (auto simp: BUF_MEM_reserve_def Let_def dest: realloc_bounded split: if_splits option.splits)

lemma append_max:
  assumes "malloc_bounded al" "bm_max b < 2 ^ 63" "BUF_MEM_append al xs n b = Some (ok, b')"
  shows "bm_max b' < 2 ^ 63"
proof (cases "n = 0 \<or> size_add (bm_length b) n < n")
  case True
  with assms show ?thesis by (auto simp: BUF_MEM_append_def Let_def split: if_splits)
next
  case False
  with assms(3) obtain ok1 b1 where r: "BUF_MEM_reserve al (size_add (bm_length b) n) b = Some (ok1, b1)"
    by (auto simp: BUF_MEM_append_def Let_def bind_eq_Some_conv)
  from False assms(3) r have "bm_max b' = bm_max b1"
    by (auto simp: BUF_MEM_append_def Let_def bind_eq_Some_conv split: if_splits)
  with reserve_max [OF assms(1,2) r] show ?thesis by simp
qed

lemma mem_write_spec:
  assumes x: "h p = Some x" "bio_ptr x = Mem_data m" "mem_inv x m" and al: "malloc_bounded al"
    and n: "0 < n" "n \<le> INT_MAX" "n \<le> length xs"
  obtains ok m' where
    "mem_write al p (Some xs) (int n) h = Some (if ok then int n else -1,
       h(p \<mapsto> x\<lparr>bio_flags := read_flags False (bio_flags x), bio_retry_reason := 0, bio_ptr := Mem_data m'\<rparr>))"
    "mem_inv x m'" "bm_bytes m' = bm_bytes m @ (if ok then take n xs else [])" "ok \<longrightarrow> \<not> mem_rdonly x"
proof (cases "mem_rdonly x")
  case True
  have "mem_rdonly (x\<lparr>bio_flags := bio_flags x AND NOT kRetryFlags, bio_retry_reason := 0\<rparr>)"
    using True rdonly_flags(1) [where x = x and r = False and f = "bio_flags x"] by (simp add: read_flags_def)
  with True x n show thesis
    by (intro that [of False m]) (auto simp: bio_ptr_self mem_write_def flag_ops bio_simps read_flags_def)
next
  case False
  with x(3) have w: "bm_wf m" "bm_max m < 2 ^ 63" by (simp_all add: mem_inv_def)
  have r: "\<not> mem_rdonly (x\<lparr>bio_flags := bio_flags x AND NOT kRetryFlags, bio_retry_reason := 0\<rparr>)"
    using False rdonly_flags(1) [where x = x and r = False and f = "bio_flags x"] by (simp add: read_flags_def)
  obtain ok m' where a: "BUF_MEM_append al xs n m = Some (ok, m')" "bm_wf m'"
    "bm_bytes m' = bm_bytes m @ (if ok then take n xs else [])"
    by (rule BUF_MEM_append_wf [OF w(1) n(3), where al = al]) (use n in \<open>simp_all add: INT_MAX_def\<close>)
  from a(2) append_max [OF al w(2) a(1)] False have "mem_inv x m'" by (simp add: mem_inv_def)
  moreover have "mem_write al p (Some xs) (int n) h = Some (if ok then int n else -1,
       h(p \<mapsto> x\<lparr>bio_flags := read_flags False (bio_flags x), bio_retry_reason := 0, bio_ptr := Mem_data m'\<rparr>))"
    using x n(1,2) a(1) r
    by (simp add: mem_write_def flag_ops set_mem_def bio_simps mem_of_def read_flags_def size_of_int_len)
  ultimately show thesis using that False a(3) by blast
qed

section \<open>Lines\<close>

text \<open>How many bytes of \<open>c\<close> a call with room for \<open>k\<close> of them takes: up to and including a newline.\<close>

definition line_length :: "nat \<Rightarrow> bytes \<Rightarrow> nat" where
  "line_length k c = (case memchr newline (take k c) of None \<Rightarrow> min k (length c) | Some i \<Rightarrow> i + 1)"

lemma line_length_le: "line_length k c \<le> min k (length c)"
  using memchr_Some [of newline "take k c"] by (auto simp: line_length_def split: option.splits)

lemma mem_gets_spec:
  assumes x: "h p = Some x" "bio_ptr x = Mem_data m" "mem_inv x m"
    and n: "0 < n" "n \<le> INT_MAX" "n \<le> length buf"
  defines "l \<equiv> line_length (n - 1) (bm_bytes m)"
  obtains m' where
    "mem_gets p (Some buf) (int n) h = Some (int l, Some (take l (bm_bytes m) @ 0 # drop (Suc l) buf),
       h(p \<mapsto> x\<lparr>bio_flags := read_flags False (bio_flags x), bio_retry_reason := 0, bio_ptr := Mem_data m'\<rparr>))"
    "mem_inv x m'" "bm_bytes m' = drop l (bm_bytes m)"
proof -
  let ?x = "x\<lparr>bio_flags := bio_flags x AND NOT kRetryFlags, bio_retry_reason := 0\<rparr>"
  let ?k = "min (n - 1) (bm_length m)"
  have lm: "length (bm_bytes m) = bm_length m" by (rule mem_inv_length [OF x(3)])
  have ll: "l \<le> ?k" using line_length_le [of "n - 1" "bm_bytes m"] lm by (simp add: l_def)
  have r: "(if bm_length m < size_of_int (int n - 1) then c_int (bm_length m) else int n - 1) = int ?k"
  proof -
    have "size_of_int (int n - 1) = n - 1"
      using size_of_int_len [of "n - 1"] n by (simp add: of_nat_diff)
    with n show ?thesis by (auto simp: c_int_id INT_MAX_def of_nat_diff)
  qed
  have ro: "mem_rdonly ?x = mem_rdonly x"
    using rdonly_flags(1) [where x = x and r = False and f = "bio_flags x"] by (simp add: read_flags_def)
  have found: "(if int ?k = 0 then Some None
      else do { data \<leftarrow> bm_data m; Some (OPENSSL_memchr (drop (bm_off m) data) newline (nat (int ?k))) })
    = Some (memchr newline (take (n - 1) (bm_bytes m)))"
  proof (cases "?k = 0")
    case True
    with lm have "take (n - 1) (bm_bytes m) = []" by (auto simp: min_def split: if_splits)
    then have "memchr newline (take (n - 1) (bm_bytes m)) = None" by (simp only: memchr.simps)
    with True show ?thesis by simp
  next
    case False
    then have "bm_length m \<noteq> 0" by auto
    with x(3) obtain d where d: "bm_data m = Some d" "bm_off m + bm_length m \<le> length d"
      "bm_bytes m = take (bm_length m) (drop (bm_off m) d)" by (rule mem_inv_data)
    with False show ?thesis by (simp add: OPENSSL_memchr_def min.commute)
  qed
  have ret: "(case memchr newline (take (n - 1) (bm_bytes m)) of None \<Rightarrow> int ?k | Some i \<Rightarrow> int i + 1) = int l"
    by (simp add: l_def line_length_def lm split: option.split)
  have "\<exists>m'. mem_read p (Some buf) (int l) (h(p \<mapsto> ?x)) = Some (int l, Some (take l (bm_bytes m) @ drop l buf),
      h(p \<mapsto> ?x\<lparr>bio_ptr := Mem_data m'\<rparr>)) \<and> mem_inv x m' \<and> bm_bytes m' = drop l (bm_bytes m)"
  proof (cases "l = 0")
    case True
    with x show ?thesis
      by (intro exI [of _ m]) (simp add: mem_read_def flag_ops bio_simps and.assoc bio_ptr_self)
  next
    case False
    have i: "mem_inv ?x m" using x(3) mem_inv_cong [of ?x x m] ro by simp
    obtain m' where m': "mem_read p (Some buf) (int l) (h(p \<mapsto> ?x)) =
       Some (if bm_length m = 0 then bio_num ?x else int (min l (bm_length m)),
         Some (take l (bm_bytes m) @ drop (min l (bm_length m)) buf),
         (h(p \<mapsto> ?x))(p \<mapsto> ?x\<lparr>bio_flags := read_flags (bm_length m = 0 \<and> bio_num ?x \<noteq> 0) (bio_flags ?x),
                 bio_retry_reason := 0, bio_ptr := Mem_data m'\<rparr>))"
      "mem_inv ?x m'" "bm_bytes m' = drop l (bm_bytes m)"
      by (rule mem_read_spec [where h = "h(p \<mapsto> ?x)" and p = p and x = ?x and m = m and n = l and buf = buf])
        (use x(2) i False ll n in auto)
    moreover have "bm_length m \<noteq> 0" "min l (bm_length m) = l" using False ll by auto
    moreover have "read_flags False (bio_flags ?x) = bio_flags ?x"
      by (simp add: read_flags_def and.assoc)
    ultimately show ?thesis using mem_inv_cong [of ?x x m'] ro by (intro exI [of _ m']) simp
  qed
  then obtain m' where m': "mem_read p (Some buf) (int l) (h(p \<mapsto> ?x)) = Some (int l, Some (take l (bm_bytes m) @ drop l buf),
      h(p \<mapsto> ?x\<lparr>bio_ptr := Mem_data m'\<rparr>))" "mem_inv x m'" "bm_bytes m' = drop l (bm_bytes m)" by blast
  have tl: "length (take l (bm_bytes m)) = l" using ll lm by simp
  have lb: "l < length buf" using ll n by linarith
  then have upd: "(take l (bm_bytes m) @ drop l buf)[l := 0] = take l (bm_bytes m) @ 0 # drop (Suc l) buf"
    using tl by (simp add: list_update_append Cons_nth_drop_Suc [symmetric])
  have clr: "BIO_clear_retry_flags p h = Some (h(p \<mapsto> ?x))"
    using x(1) by (simp add: flag_ops at_bio_eq)
  have ptr: "mem_of ?x = Some m" using x(2) by (simp add: mem_of_def)
  have "mem_gets p (Some buf) (int n) h = Some (int l, Some (take l (bm_bytes m) @ 0 # drop (Suc l) buf),
       h(p \<mapsto> ?x\<lparr>bio_ptr := Mem_data m'\<rparr>))"
    unfolding mem_gets_def clr Let_def Option.bind.simps(2) fun_upd_same ptr
    unfolding r unfolding found Option.bind.simps(2) unfolding ret m'(1)
    using n(1) upd tl lb by simp
  then show thesis using that [of m'] m' by (simp add: read_flags_def)
qed

section \<open>The public functions\<close>

text \<open>
  \<open>mem_bio h p c rd e\<close>: at \<open>p\<close> is a memory BIO that holds the bytes \<open>c\<close>, is read-only if \<open>rd\<close>
  and returns \<open>e\<close> when it is empty.
\<close>

definition mem_bio :: "bio_store \<Rightarrow> nat \<Rightarrow> bytes \<Rightarrow> bool \<Rightarrow> int \<Rightarrow> bool" where
  "mem_bio h p c rd e \<longleftrightarrow> (\<exists>x m. h p = Some x \<and> bio_method x = mem_method \<and> bio_init x \<and> bio_ptr x = Mem_data m
     \<and> mem_inv x m \<and> bm_bytes m = c \<and> mem_rdonly x = rd \<and> bio_num x = e)"

lemma mem_bioE:
  assumes "mem_bio h p c rd e"
  obtains x m where "h p = Some x" "bio_method x = mem_method" "bio_init x" "bio_ptr x = Mem_data m"
    "mem_inv x m" "bm_bytes m = c" "bm_length m = length c" "mem_rdonly x = rd" "bio_num x = e"
  using assms mem_inv_length by (force simp: mem_bio_def)

lemma mem_bio_read:
  assumes b: "mem_bio h p c rd e" and n: "0 < n" "n \<le> INT_MAX" "n \<le> length buf"
  obtains h' where
    "BIO_read (Some p) (Some buf) (int n) h = Some (if c = [] then e else int (min n (length c)),
       Some (take n c @ drop (min n (length c)) buf), h')"
    "mem_bio h' p (drop n c) rd e" "\<And>r. r \<noteq> p \<Longrightarrow> h' r = h r" "frame h h'"
    "retry_flags h' p BIO_FLAGS_READ (c = [] \<and> e \<noteq> 0)"
proof -
  from b obtain x m where x: "h p = Some x" "bio_method x = mem_method" "bio_init x" "bio_ptr x = Mem_data m"
    "mem_inv x m" "bm_bytes m = c" "bm_length m = length c" "mem_rdonly x = rd" "bio_num x = e" by (rule mem_bioE)
  obtain m' where m': "mem_read p (Some buf) (int n) h =
       Some (if bm_length m = 0 then bio_num x else int (min n (bm_length m)),
         Some (take n (bm_bytes m) @ drop (min n (bm_length m)) buf),
         h(p \<mapsto> x\<lparr>bio_flags := read_flags (bm_length m = 0 \<and> bio_num x \<noteq> 0) (bio_flags x),
                 bio_retry_reason := 0, bio_ptr := Mem_data m'\<rparr>))"
    "mem_inv x m'" "bm_bytes m' = drop n (bm_bytes m)"
    by (rule mem_read_spec [where h = h and p = p and buf = buf, OF x(1,4,5) n])
  let ?ret = "if c = [] then e else int (min n (length c))"
  define x1 where "x1 = x\<lparr>bio_flags := read_flags (c = [] \<and> e \<noteq> 0) (bio_flags x),
    bio_retry_reason := 0, bio_ptr := Mem_data m'\<rparr>"
  define x2 where "x2 = (if 0 < ?ret then x1\<lparr>num_read := num_read x1 + word_of_int ?ret\<rparr> else x1)"
  have f: "bio_method x2 = mem_method" "bio_init x2" "bio_ptr x2 = Mem_data m'" "mem_rdonly x2 = rd" "bio_num x2 = e"
    "bio_flags x2 = read_flags (c = [] \<and> e \<noteq> 0) (bio_flags x)"
    using x by (simp_all add: x2_def x1_def)
  have "mem_read p (Some buf) (int n) h = Some (?ret, Some (take n c @ drop (min n (length c)) buf), h(p \<mapsto> x1))"
    using m'(1) x(6,7,9) by (simp add: x1_def)
  then have "BIO_read (Some p) (Some buf) (int n) h
      = Some (?ret, Some (take n c @ drop (min n (length c)) buf), h(p \<mapsto> x2))"
    unfolding BIO_read_def option.case x(1) Option.bind.simps(2) using x(2,3) n(1)
    by (simp add: method_bread_def at_bio_def x2_def)
  moreover have "mem_bio (h(p \<mapsto> x2)) p (drop n c) rd e"
    using f m' x mem_inv_cong [of x2 x m'] by (auto simp: mem_bio_def)
  moreover have "frame h (h(p \<mapsto> x2))"
    using x(1,4) by (simp add: frame_upd kept_def peer_of_def pair_of_def x2_def x1_def)
  ultimately show thesis
    using that [of "h(p \<mapsto> x2)"] f by (auto simp: retry_flags_def BIO_get_retry_flags_def retry_mask)
qed

lemma mem_bio_write:
  assumes b: "mem_bio h p c rd e" and al: "malloc_bounded al" and n: "0 < n" "n \<le> INT_MAX" "n \<le> length xs"
  obtains ok h' where
    "BIO_write al (Some p) (Some xs) (int n) h = Some (if ok then int n else -1, h')"
    "mem_bio h' p (c @ (if ok then take n xs else [])) rd e" "ok \<longrightarrow> \<not> rd" "\<And>r. r \<noteq> p \<Longrightarrow> h' r = h r" "frame h h'"
proof -
  from b obtain x m where x: "h p = Some x" "bio_method x = mem_method" "bio_init x" "bio_ptr x = Mem_data m"
    "mem_inv x m" "bm_bytes m = c" "bm_length m = length c" "mem_rdonly x = rd" "bio_num x = e" by (rule mem_bioE)
  obtain ok m' where m': "mem_write al p (Some xs) (int n) h = Some (if ok then int n else -1,
       h(p \<mapsto> x\<lparr>bio_flags := read_flags False (bio_flags x), bio_retry_reason := 0, bio_ptr := Mem_data m'\<rparr>))"
    "mem_inv x m'" "bm_bytes m' = bm_bytes m @ (if ok then take n xs else [])" "ok \<longrightarrow> \<not> mem_rdonly x"
    by (rule mem_write_spec [where h = h and p = p and al = al, OF x(1,4,5) al n])
  let ?ret = "if ok then int n else -1"
  define x1 where "x1 = x\<lparr>bio_flags := read_flags False (bio_flags x),
    bio_retry_reason := 0, bio_ptr := Mem_data m'\<rparr>"
  define x2 where "x2 = (if 0 < ?ret then x1\<lparr>num_write := num_write x1 + word_of_int ?ret\<rparr> else x1)"
  have f: "bio_method x2 = mem_method" "bio_init x2" "bio_ptr x2 = Mem_data m'" "mem_rdonly x2 = rd" "bio_num x2 = e"
    using x by (simp_all add: x2_def x1_def)
  have "BIO_write al (Some p) (Some xs) (int n) h = Some (?ret, h(p \<mapsto> x2))"
    unfolding BIO_write_def option.case x(1) Option.bind.simps(2) using x(2,3) n(1) m'(1) [folded x1_def]
    by (simp add: method_bwrite_def at_bio_def x2_def)
  moreover have "mem_bio (h(p \<mapsto> x2)) p (c @ (if ok then take n xs else [])) rd e"
    using f m' x mem_inv_cong [of x2 x m'] by (auto simp: mem_bio_def)
  moreover have "frame h (h(p \<mapsto> x2))"
    using x(1,4) by (simp add: frame_upd kept_def peer_of_def pair_of_def x2_def x1_def)
  ultimately show thesis using that [of ok "h(p \<mapsto> x2)"] m'(4) x(8) by auto
qed

lemma mem_bio_gets:
  assumes b: "mem_bio h p c rd e" and n: "0 < n" "n \<le> INT_MAX" "n \<le> length buf"
  obtains h' where
    "BIO_gets (Some p) (Some buf) (int n) h = Some (int (line_length (n - 1) c),
       Some (take (line_length (n - 1) c) c @ 0 # drop (Suc (line_length (n - 1) c)) buf), h')"
    "mem_bio h' p (drop (line_length (n - 1) c) c) rd e" "\<And>r. r \<noteq> p \<Longrightarrow> h' r = h r" "frame h h'"
proof -
  from b obtain x m where x: "h p = Some x" "bio_method x = mem_method" "bio_init x" "bio_ptr x = Mem_data m"
    "mem_inv x m" "bm_bytes m = c" "bm_length m = length c" "mem_rdonly x = rd" "bio_num x = e" by (rule mem_bioE)
  let ?l = "line_length (n - 1) c"
  obtain m' where m': "mem_gets p (Some buf) (int n) h = Some (int (line_length (n - 1) (bm_bytes m)),
       Some (take (line_length (n - 1) (bm_bytes m)) (bm_bytes m) @ 0 # drop (Suc (line_length (n - 1) (bm_bytes m))) buf),
       h(p \<mapsto> x\<lparr>bio_flags := read_flags False (bio_flags x), bio_retry_reason := 0, bio_ptr := Mem_data m'\<rparr>))"
    "mem_inv x m'" "bm_bytes m' = drop (line_length (n - 1) (bm_bytes m)) (bm_bytes m)"
    by (rule mem_gets_spec [where h = h and p = p and buf = buf, OF x(1,4,5) n])
  define x1 where "x1 = x\<lparr>bio_flags := read_flags False (bio_flags x),
    bio_retry_reason := 0, bio_ptr := Mem_data m'\<rparr>"
  define x2 where "x2 = (if 0 < ?l then x1\<lparr>num_read := num_read x1 + word_of_int (int ?l)\<rparr> else x1)"
  have f: "bio_method x2 = mem_method" "bio_init x2" "bio_ptr x2 = Mem_data m'" "mem_rdonly x2 = rd" "bio_num x2 = e"
    using x by (simp_all add: x2_def x1_def)
  have "BIO_gets (Some p) (Some buf) (int n) h
      = Some (int ?l, Some (take ?l c @ 0 # drop (Suc ?l) buf), h(p \<mapsto> x2))"
    unfolding BIO_gets_def option.case x(1) Option.bind.simps(2) using x(2,3,6) n(1) m'(1) [folded x1_def]
    by (simp add: at_bio_def x2_def)
  moreover have "mem_bio (h(p \<mapsto> x2)) p (drop ?l c) rd e"
    using f m' x mem_inv_cong [of x2 x m'] by (auto simp: mem_bio_def)
  moreover have "frame h (h(p \<mapsto> x2))"
    using x(1,4) by (simp add: frame_upd kept_def peer_of_def pair_of_def x2_def x1_def)
  ultimately show thesis using that [of "h(p \<mapsto> x2)"] by auto
qed

section \<open>A memory BIO as a byte channel\<close>

definition mem_contents :: "nat \<Rightarrow> bio_store \<Rightarrow> bytes" where
  "mem_contents p h = (case mem_at h p of None \<Rightarrow> [] | Some m \<Rightarrow> bm_bytes m)"

definition mem_put :: "allocator \<Rightarrow> nat \<Rightarrow> bytes \<Rightarrow> bio_store \<Rightarrow> nat \<times> bio_store" where
  "mem_put al p xs h =
     (if xs = [] then (0, h)
      else let n = min (length xs) INT_MAX
           in case BIO_write al (Some p) (Some xs) (int n) h of
                None \<Rightarrow> (0, h) | Some (r, h') \<Rightarrow> (nat r, h'))"

definition mem_get :: "nat \<Rightarrow> nat \<Rightarrow> bio_store \<Rightarrow> bytes \<times> bio_store" where
  "mem_get p n h =
     (if n = 0 then ([], h)
      else let n = min n INT_MAX
           in case BIO_read (Some p) (Some (replicate n 0)) (int n) h of
                None \<Rightarrow> ([], h) | Some (r, buf, h') \<Rightarrow> (take (nat r) (the buf), h'))"

definition mem_ready :: "nat \<Rightarrow> bio_store \<Rightarrow> bool" where
  "mem_ready p h \<longleftrightarrow> (\<exists>c rd e. mem_bio h p c rd e \<and> e \<le> 0)"

lemma mem_contents_eq: "mem_bio h p c rd e \<Longrightarrow> mem_contents p h = c"
  by (auto simp: mem_contents_def mem_bio_def mem_at_eq)

lemma mem_put_spec:
  assumes "mem_bio h p c rd e" "malloc_bounded al"
  shows "mem_bio (snd (mem_put al p xs h)) p (c @ take (fst (mem_put al p xs h)) xs) rd e"
proof (cases "xs = []")
  case True
  with assms show ?thesis by (simp add: mem_put_def)
next
  case False
  let ?n = "min (length xs) INT_MAX"
  have "0 < ?n" "?n \<le> INT_MAX" "?n \<le> length xs" using False by (simp_all add: INT_MAX_def)
  from mem_bio_write [OF assms this] obtain ok h' where
    "BIO_write al (Some p) (Some xs) (int ?n) h = Some (if ok then int ?n else -1, h')"
    "mem_bio h' p (c @ (if ok then take ?n xs else [])) rd e" by blast
  with False show ?thesis by (cases ok) (simp_all add: mem_put_def Let_def)
qed

lemma mem_get_spec:
  assumes "mem_bio h p c rd e" "e \<le> 0" "0 < n"
  shows "mem_bio (snd (mem_get p n h)) p (drop (min n INT_MAX) c) rd e
    \<and> fst (mem_get p n h) = take (min n INT_MAX) c"
proof -
  let ?n = "min n INT_MAX"
  have "0 < ?n" "?n \<le> INT_MAX" "?n \<le> length (replicate ?n (0 :: u8))" using assms by (simp_all add: INT_MAX_def)
  from mem_bio_read [OF assms(1) this] obtain h' where
    "BIO_read (Some p) (Some (replicate ?n 0)) (int ?n) h = Some (if c = [] then e else int (min ?n (length c)),
       Some (take ?n c @ drop (min ?n (length c)) (replicate ?n 0)), h')" "mem_bio h' p (drop ?n c) rd e" by blast
  moreover have "take (min N (length c)) (take N c @ r) = take N c" for N and r :: bytes
    by (cases "N \<le> length c") simp_all
  note t = this [of ?n]
  ultimately show ?thesis using assms(2,3)
    by (cases "c = []") (simp_all add: mem_get_def Let_def t del: take_append)
qed

interpretation mem: interleaved_channel "\<lambda>h. mem_ready p h \<and> malloc_bounded al" "mem_contents p"
    "mem_put al p" "mem_get p" "\<lambda>_ :: unit. id"
  for p al
proof unfold_locales
  fix h xs assume "mem_ready p h \<and> malloc_bounded al"
  then obtain c rd e where c: "mem_bio h p c rd e" "e \<le> 0" "malloc_bounded al" by (auto simp: mem_ready_def)
  from mem_put_spec [OF c(1,3)] c(2,3)
  show "mem_ready p (snd (mem_put al p xs h)) \<and> malloc_bounded al" by (auto simp: mem_ready_def)
  from mem_put_spec [OF c(1,3)] show "mem_contents p (snd (mem_put al p xs h)) = mem_contents p h @ take (fst (mem_put al p xs h)) xs"
    by (auto simp: mem_contents_eq [OF c(1)] dest!: mem_contents_eq)
next
  fix h n assume "mem_ready p h \<and> malloc_bounded al"
  then obtain c rd e where c: "mem_bio h p c rd e" "e \<le> 0" "malloc_bounded al" by (auto simp: mem_ready_def)
  then show "mem_ready p (snd (mem_get p n h)) \<and> malloc_bounded al"
    using mem_get_spec [OF c(1,2), of n] by (cases "n = 0") (auto simp: mem_ready_def mem_get_def)
  show "fst (mem_get p n h) @ mem_contents p (snd (mem_get p n h)) = mem_contents p h"
    using mem_get_spec [OF c(1,2), of n] mem_contents_eq [OF c(1)]
    by (cases "n = 0") (auto simp: mem_get_def dest!: mem_contents_eq)
qed simp_all

end
