(* ===== verification/BioChannel.thy ===== *)
theory BioChannel imports BioPipe begin

text \<open>
  The calls of \<open>BIO_write\<close> and \<open>BIO_read\<close> on the ends of a pair, in any interleaving, as a byte
  channel: the interfaces of \<open>BioRing\<close> interpreted on the code, and the properties that follow.
\<close>

section \<open>A pair as a byte channel\<close>

text \<open>
  One write and one read through the public functions.  A call takes at most \<open>INT_MAX\<close> bytes, so a
  longer list is offered in part.
\<close>

definition in_flight :: "nat \<Rightarrow> bio_store \<Rightarrow> bytes" where
  "in_flight p h = (case pipe_at h p of None \<Rightarrow> [] | Some a \<Rightarrow> pi_bytes a)"

definition pair_put :: "allocator \<Rightarrow> nat \<Rightarrow> bytes \<Rightarrow> bio_store \<Rightarrow> nat \<times> bio_store" where
  "pair_put al p xs h =
     (if xs = [] then (0, h)
      else let xs = take INT_MAX xs
           in case BIO_write al (Some p) (Some xs) (int (length xs)) h of
                None \<Rightarrow> (0, h) | Some (r, h') \<Rightarrow> (nat r, h'))"

definition pair_get :: "nat \<Rightarrow> nat \<Rightarrow> bio_store \<Rightarrow> bytes \<times> bio_store" where
  "pair_get q n h =
     (if n = 0 then ([], h)
      else let n = min n INT_MAX
           in case BIO_read (Some q) (Some (replicate n 0)) (int n) h of
                None \<Rightarrow> ([], h) | Some (r, buf, h') \<Rightarrow> (take (nat r) (the buf), h'))"

text \<open>Everything else that may happen: traffic the other way, and shutting down an end.\<close>

datatype pair_side = Back_write bytes | Back_read nat | Shutdown_back | Shutdown_forth

definition pair_shutdown :: "nat \<Rightarrow> bio_store \<Rightarrow> bio_store" where
  "pair_shutdown p h = (case BIO_shutdown_wr (Some p) h of None \<Rightarrow> h | Some (_, _, h') \<Rightarrow> h')"

definition back_side :: "allocator \<Rightarrow> nat \<Rightarrow> nat \<Rightarrow> pair_side \<Rightarrow> bio_store \<Rightarrow> bio_store" where
  "back_side al p q e h =
     (case e of Back_write xs \<Rightarrow> snd (pair_put al q xs h) | Back_read n \<Rightarrow> snd (pair_get p n h)
      | Shutdown_back \<Rightarrow> pair_shutdown q h | Shutdown_forth \<Rightarrow> pair_shutdown p h)"

lemma connected_pipes:
  assumes "connected h p q"
  obtains a b where "pipe_at h p = Some a" "pipe_at h q = Some b"
    "length (pi_bytes a) \<le> pi_size a" "0 < pi_size a"
proof -
  from assms have e: "pair_end h p q" "pair_end h q p" by (simp_all add: connected_def)
  from e(1) obtain x r where x: "h p = Some x" "bio_ptr x = Pair_data r" "ring_wf r" by (rule ctrl_end)
  from e(2) obtain y t where y: "h q = Some y" "bio_ptr y = Pair_data t" by (rule ctrl_end)
  from x(3) have "bb_len r \<le> bb_size r" "0 < bb_size r" by (auto elim: ring_wfE)
  with x y show thesis by (intro that) (auto simp: pipe_at_eq)
qed

lemma pair_put_spec:
  assumes c: "connected h p q" and a: "pipe_at h p = Some a" and xs: "xs \<noteq> []"
  shows "connected (snd (pair_put al p xs h)) p q
    \<and> pipe_at (snd (pair_put al p xs h)) p = Some (snd (pipe_write (take INT_MAX xs) a))
    \<and> pipe_at (snd (pair_put al p xs h)) q = pipe_at h q
    \<and> fst (pair_put al p xs h) = nat (fst (fst (pipe_write (take INT_MAX xs) a)))"
proof -
  let ?n = "length (take INT_MAX xs)"
  have "0 < ?n" "?n \<le> INT_MAX" "?n \<le> length (take INT_MAX xs)"
    using xs by (simp_all add: INT_MAX_def)
  note n = this
  have e: "take ?n (take INT_MAX xs) = take INT_MAX xs" by (rule take_all) (rule order_refl)
  from write_refines [OF c n a, of al, unfolded e] obtain h' where
    "BIO_write al (Some p) (Some (take INT_MAX xs)) (int (length (take INT_MAX xs))) h
      = Some (fst (fst (pipe_write (take INT_MAX xs) a)), h')"
    "connected h' p q" "pipe_at h' p = Some (snd (pipe_write (take INT_MAX xs) a))" "pipe_at h' q = pipe_at h q"
    by blast
  with xs show ?thesis by (simp add: pair_put_def Let_def del: length_take)
qed

lemma pair_get_spec:
  assumes c: "connected h p q" and a: "pipe_at h p = Some a" and n: "0 < n"
  shows "connected (snd (pair_get q n h)) p q
    \<and> pipe_at (snd (pair_get q n h)) p = Some (snd (pipe_read (min n INT_MAX) a))
    \<and> pipe_at (snd (pair_get q n h)) q = pipe_at h q
    \<and> fst (pair_get q n h) = snd (snd (fst (pipe_read (min n INT_MAX) a)))"
proof -
  let ?n = "min n INT_MAX"
  let ?r = "pipe_read ?n a"
  have "0 < ?n" "?n \<le> INT_MAX" "?n \<le> length (replicate ?n (0 :: u8))"
    using n by (simp_all add: INT_MAX_def)
  from read_refines [OF c this a] obtain h' where
    r: "BIO_read (Some q) (Some (replicate ?n 0)) (int ?n) h = Some (fst (fst ?r),
       Some (snd (snd (fst ?r)) @ drop (length (snd (snd (fst ?r)))) (replicate ?n 0)), h')"
    "connected h' p q" "pipe_at h' p = Some (snd ?r)" "pipe_at h' q = pipe_at h q" by blast
  have l: "nat (fst (fst ?r)) = length (snd (snd (fst ?r)))"
    by (auto simp: pipe_read_def)
  show ?thesis using n r l by (simp add: pair_get_def Let_def)
qed

lemma pair_put_keeps:
  assumes "connected h p q" "pipe_at h p = Some a"
  shows "connected (snd (pair_put al p xs h)) p q \<and> pipe_at (snd (pair_put al p xs h)) q = pipe_at h q"
proof (cases "xs = []")
  case True
  then show ?thesis using assms by (simp add: pair_put_def)
next
  case False
  then show ?thesis using pair_put_spec [OF assms False] by blast
qed

lemma pair_get_keeps:
  assumes "connected h p q" "pipe_at h p = Some a"
  shows "connected (snd (pair_get q n h)) p q \<and> pipe_at (snd (pair_get q n h)) q = pipe_at h q"
proof (cases "n = 0")
  case True
  then show ?thesis using assms by (simp add: pair_get_def)
next
  case False
  then show ?thesis using pair_get_spec [OF assms] by blast
qed

lemma pair_shutdown_spec:
  assumes "connected h p q" "pipe_at h p = Some a"
  shows "connected (pair_shutdown p h) p q \<and> pipe_at (pair_shutdown p h) q = pipe_at h q
    \<and> pipe_at (pair_shutdown p h) p = Some (a\<lparr>pi_closed := True\<rparr>)"
  using shutdown_refines [OF assms] by (fastforce simp: pair_shutdown_def)

lemma pipe_write_bytes:
  "pi_bytes (snd (pipe_write xs a)) = pi_bytes a @ take (nat (fst (fst (pipe_write xs a)))) xs"
  "pi_size (snd (pipe_write xs a)) = pi_size a"
  by (auto simp: pipe_write_def Let_def min_def)

lemma pipe_read_bytes:
  "snd (snd (fst (pipe_read n a))) @ pi_bytes (snd (pipe_read n a)) = pi_bytes a"
  "pi_size (snd (pipe_read n a)) = pi_size a" "pi_closed (snd (pipe_read n a)) = pi_closed a"
  by (auto simp: pipe_read_def)

lemma back_side_spec:
  assumes "connected h p q" "pipe_at h p = Some a" "pipe_at h q = Some b"
  shows "connected (back_side al p q e h) p q \<and> in_flight p (back_side al p q e h) = pi_bytes a"
  using pair_put_keeps [OF connected_sym [OF assms(1)] assms(3), of al]
    pair_get_keeps [OF connected_sym [OF assms(1)] assms(3)]
    pair_shutdown_spec [OF assms(1,2)] pair_shutdown_spec [OF connected_sym [OF assms(1)] assms(3)] assms(2)
  by (cases e) (simp_all add: back_side_def in_flight_def connected_sym)

interpretation pair: interleaved_channel "\<lambda>h. connected h p q" "in_flight p" "pair_put al p" "pair_get q"
    "back_side al p q"
  for al p q
proof unfold_locales
  fix h xs assume c: "connected h p q"
  then obtain a b where a: "pipe_at h p = Some a" "pipe_at h q = Some b" by (rule connected_pipes)
  show "connected (snd (pair_put al p xs h)) p q" using pair_put_keeps [OF c a(1)] by blast
  show "in_flight p (snd (pair_put al p xs h)) = in_flight p h @ take (fst (pair_put al p xs h)) xs"
  proof (cases "xs = []")
    case True
    then show ?thesis by (simp add: pair_put_def)
  next
    case False
    have "nat (fst (fst (pipe_write (take INT_MAX xs) a))) \<le> INT_MAX \<or> xs = []"
      by (auto simp: pipe_write_def Let_def)
    with pair_put_spec [OF c a(1) False, of al] a False show ?thesis
      by (simp add: in_flight_def pipe_write_bytes min_absorb1)
  qed
next
  fix h n assume c: "connected h p q"
  then obtain a b where a: "pipe_at h p = Some a" "pipe_at h q = Some b" by (rule connected_pipes)
  show "connected (snd (pair_get q n h)) p q" using pair_get_keeps [OF c a(1)] by blast
  show "fst (pair_get q n h) @ in_flight p (snd (pair_get q n h)) = in_flight p h"
    using pair_get_spec [OF c a(1), of n] a
    by (cases "n = 0") (simp_all add: pair_get_def in_flight_def pipe_read_bytes)
next
  fix h e assume c: "connected h p q"
  then obtain a b where a: "pipe_at h p = Some a" "pipe_at h q = Some b" by (rule connected_pipes)
  from back_side_spec [OF c a] a
  show "connected (back_side al p q e h) p q" "in_flight p (back_side al p q e h) = in_flight p h"
    by (simp_all add: in_flight_def)
qed

text \<open>While the write end is open, the pair has the capacity of its buffer.\<close>

definition open_pair :: "nat \<Rightarrow> nat \<Rightarrow> bio_store \<Rightarrow> bool" where
  "open_pair p q h \<longleftrightarrow> connected h p q \<and> (\<forall>a. pipe_at h p = Some a \<longrightarrow> \<not> pi_closed a)"

definition pair_capacity :: "nat \<Rightarrow> bio_store \<Rightarrow> nat" where
  "pair_capacity p h = (case pipe_at h p of None \<Rightarrow> 0 | Some a \<Rightarrow> pi_size a)"

lemma open_pairE:
  assumes "open_pair p q h"
  obtains a where "connected h p q" "pipe_at h p = Some a" "\<not> pi_closed a" "length (pi_bytes a) \<le> pi_size a"
    "0 < pi_size a"
  using assms by (auto simp: open_pair_def elim: connected_pipes)

interpretation open_pair: bounded_channel "open_pair p q" "in_flight p" "pair_put al p" "pair_get q"
    "pair_capacity p"
  for al p q
proof unfold_locales
  fix h xs assume o: "open_pair p q h"
  then obtain a where a: "connected h p q" "pipe_at h p = Some a" "\<not> pi_closed a"
    "length (pi_bytes a) \<le> pi_size a" "0 < pi_size a" by (rule open_pairE)
  have "\<not> pi_closed (snd (pipe_write ys a))" for ys using a(3) by (simp add: pipe_write_def Let_def)
  then show "open_pair p q (snd (pair_put al p xs h))"
    using pair_put_spec [OF a(1,2), of xs al] o
    by (cases "xs = []") (auto simp: open_pair_def pair_put_def)
  show "in_flight p (snd (pair_put al p xs h)) = in_flight p h @ take (fst (pair_put al p xs h)) xs"
    by (rule pair.put_contents [OF a(1)])
  show "0 < fst (pair_put al p xs h)" if "xs \<noteq> []" "length (in_flight p h) < pair_capacity p h"
    using pair_put_spec [OF a(1,2) that(1), of al] that a
    by (auto simp: in_flight_def pair_capacity_def pipe_write_def Let_def INT_MAX_def)
  show "length (in_flight p h) \<le> pair_capacity p h" "0 < pair_capacity p h"
    using a by (simp_all add: in_flight_def pair_capacity_def)
next
  fix h n assume o: "open_pair p q h"
  then obtain a where a: "connected h p q" "pipe_at h p = Some a" "\<not> pi_closed a" by (rule open_pairE)
  show "open_pair p q (snd (pair_get q n h))"
    using pair_get_spec [OF a(1,2), of n] a o
    by (cases "n = 0") (auto simp: open_pair_def pair_get_def pipe_read_bytes)
  show "fst (pair_get q n h) @ in_flight p (snd (pair_get q n h)) = in_flight p h"
    by (rule pair.get_contents [OF a(1)])
  show "pair_capacity p (snd (pair_get q n h)) = pair_capacity p h"
    using pair_get_spec [OF a(1,2), of n] a
    by (cases "n = 0") (simp_all add: pair_capacity_def pair_get_def pipe_read_bytes)
  show "fst (pair_get q n h) \<noteq> []" if "0 < n" "in_flight p h \<noteq> []"
    using pair_get_spec [OF a(1,2) that(1)] that a
    by (auto simp: in_flight_def pipe_read_def INT_MAX_def)
qed

section \<open>Properties\<close>

text \<open>An example: a ring of four bytes whose contents wrap around its end.\<close>

definition example_ring :: "nat \<Rightarrow> bytes \<Rightarrow> nat \<Rightarrow> nat \<Rightarrow> bio_bio_st" where
  "example_ring q d off len = \<lparr>bb_peer = Some q, bb_closed = False, bb_len = len, bb_offset = off,
     bb_size = length d, bb_buf = Some d, bb_request = 0\<rparr>"

definition example_pair :: bio_store where
  "example_pair = [0 \<mapsto> pair_half (example_ring 1 [2, 3, 0, 1] 3 3)\<lparr>bio_init := True\<rparr>,
                   1 \<mapsto> pair_half (example_ring 0 [0, 0, 0, 0] 0 0)\<lparr>bio_init := True\<rparr>]"

lemma example_pair_connected: "connected example_pair 0 1"
  by (simp add: connected_def pair_end_def example_pair_def example_ring_def ring_wf_def)

lemma example_pair_pipes:
  "pipe_at example_pair 0 = Some \<lparr>pi_bytes = [1, 2, 3], pi_closed = False, pi_size = 4, pi_request = 0\<rparr>"
  "pipe_at example_pair 1 = Some \<lparr>pi_bytes = [], pi_closed = False, pi_size = 4, pi_request = 0\<rparr>"
  by (simp_all add: example_pair_def example_ring_def pipe_of_def ring_bytes_def)

definition example_malloc :: allocator where
  "example_malloc n = (if n < 2 ^ 63 then Some (\<lambda>_. 0) else None)"

lemma example_malloc_bounded: "malloc_bounded example_malloc"
  by (simp add: malloc_bounded_def example_malloc_def)

text \<open>
  Claim C37.  A connected pair is two pipes, one in each direction, and the ring buffers are not
  visible: a write of \<open>n\<close> bytes accepts as many as there is room for and returns their number, or
  returns -1 and asks for a retry when there is no room, or is an error after the end was shut
  down; a read takes the first bytes there are, or returns 0 when the other end was shut down and
  nothing is left, or returns -1, asks for a retry and leaves a read request; the other direction
  is untouched, and the requests report the sizes.
\<close>

theorem pair_refines_pipes:
  assumes "connected h p q" "pipe_at h p = Some a" "pipe_at h q = Some b"
    and "0 < n" "n \<le> INT_MAX" "n \<le> length xs"
  shows "(\<exists>h'. BIO_write al (Some p) (Some xs) (int n) h = Some (fst (fst (pipe_write (take n xs) a)), h')
      \<and> connected h' p q \<and> pipe_at h' p = Some (snd (pipe_write (take n xs) a)) \<and> pipe_at h' q = Some b
      \<and> retry_flags h' p BIO_FLAGS_WRITE (snd (fst (pipe_write (take n xs) a))))
    \<and> (\<exists>h'. BIO_read (Some q) (Some xs) (int n) h = Some (fst (fst (pipe_read n a)),
         Some (snd (snd (fst (pipe_read n a))) @ drop (length (snd (snd (fst (pipe_read n a))))) xs), h')
      \<and> connected h' p q \<and> pipe_at h' p = Some (snd (pipe_read n a)) \<and> pipe_at h' q = Some b
      \<and> retry_flags h' q BIO_FLAGS_READ (fst (snd (fst (pipe_read n a)))))
    \<and> (\<exists>h'. BIO_shutdown_wr (Some p) h = Some (1, No_out, h') \<and> connected h' p q
      \<and> pipe_at h' p = Some (a\<lparr>pi_closed := True\<rparr>) \<and> pipe_at h' q = Some b)
    \<and> BIO_pending (Some q) h = Some (length (pi_bytes a), h)
    \<and> BIO_wpending (Some p) h = Some (length (pi_bytes a), h)
    \<and> BIO_ctrl_get_write_guarantee (Some p) h =
        Some (if pi_closed a then 0 else int (pi_size a - length (pi_bytes a)), No_out, h)"
proof (intro conjI)
  note c = assms(1) and n = assms(4-6) and a = assms(2) and b = assms(3)
  show "\<exists>h'. BIO_write al (Some p) (Some xs) (int n) h = Some (fst (fst (pipe_write (take n xs) a)), h')
      \<and> connected h' p q \<and> pipe_at h' p = Some (snd (pipe_write (take n xs) a)) \<and> pipe_at h' q = Some b
      \<and> retry_flags h' p BIO_FLAGS_WRITE (snd (fst (pipe_write (take n xs) a)))"
    by (rule write_refines [OF c n a, of al]) (rule exI, intro conjI, assumption+, simp only: b)
  show "\<exists>h'. BIO_read (Some q) (Some xs) (int n) h = Some (fst (fst (pipe_read n a)),
         Some (snd (snd (fst (pipe_read n a))) @ drop (length (snd (snd (fst (pipe_read n a))))) xs), h')
      \<and> connected h' p q \<and> pipe_at h' p = Some (snd (pipe_read n a)) \<and> pipe_at h' q = Some b
      \<and> retry_flags h' q BIO_FLAGS_READ (fst (snd (fst (pipe_read n a))))"
    by (rule read_refines [OF c n a]) (rule exI, intro conjI, assumption+, simp only: b)
  show "\<exists>h'. BIO_shutdown_wr (Some p) h = Some (1, No_out, h') \<and> connected h' p q
      \<and> pipe_at h' p = Some (a\<lparr>pi_closed := True\<rparr>) \<and> pipe_at h' q = Some b"
    by (rule shutdown_refines [OF c a]) (rule exI, intro conjI, assumption+, simp only: b)
  show "BIO_pending (Some q) h = Some (length (pi_bytes a), h)"
    by (rule requests_refine(1) [OF connected_sym [OF c] b a])
  show "BIO_wpending (Some p) h = Some (length (pi_bytes a), h)"
    "BIO_ctrl_get_write_guarantee (Some p) h =
        Some (if pi_closed a then 0 else int (pi_size a - length (pi_bytes a)), No_out, h)"
    by (rule requests_refine [OF c a b])+
qed

theorem pair_refines_pipes_witness:
  "(\<exists>h'. BIO_write example_malloc (Some 0) (Some [7, 8]) 2 example_pair = Some (1, h')
      \<and> pipe_at h' 0 = Some \<lparr>pi_bytes = [1, 2, 3, 7], pi_closed = False, pi_size = 4, pi_request = 0\<rparr>)
    \<and> (\<exists>h'. BIO_read (Some 1) (Some [7, 8]) 2 example_pair = Some (2, Some [1, 2], h'))"
  using pair_refines_pipes [OF example_pair_connected example_pair_pipes, of 2 "[7, 8]" example_malloc]
  by (auto simp: pipe_write_def pipe_read_def INT_MAX_def Let_def)

text \<open>
  Claim C38.  First in, first out: however the writes of one end and the reads of the other are
  interleaved, with each other and with traffic in the other direction and the shutting down of
  either end, the bytes read followed by the bytes still in flight are the bytes accepted, in
  their order; nothing is lost, doubled or changed.
\<close>

theorem pair_fifo:
  assumes "BIO_new_bio_pair al p q n m h = Some ((Some p, Some q, True), h0)"
    and "h p = None" "h q = None" "p \<noteq> q" "malloc_bounded al"
    and "channel_run (pair_put al p) (pair_get q) (back_side al p q) es h0 = (i, out, h1)"
  shows "connected h1 p q \<and> i = out @ in_flight p h1"
proof -
  from new_pair_connected [OF assms(2-5), of n m] assms(1)
  have c: "connected h0 p q" and "in_flight p h0 = []" by (auto simp: in_flight_def)
  with pair.channel_run_fifo [OF c assms(6)] show ?thesis by simp
qed

lemma example_malloc_succeeds:
  "n < 1000 \<Longrightarrow> OPENSSL_malloc example_malloc n = Some (replicate n 0)"
  "n < 1000 \<Longrightarrow> OPENSSL_zalloc example_malloc n = Some (replicate n 0)"
  by (simp_all add: example_malloc_def OPENSSL_zalloc_def OPENSSL_malloc_def OPENSSL_MALLOC_PREFIX_def size_simps
      map_replicate_trivial map_replicate_const)

lemma example_new_pair:
  "\<exists>h0. BIO_new_bio_pair example_malloc 0 1 4 4 Map.empty = Some ((Some 0, Some 1, True), h0)"
  by (simp add: BIO_new_bio_pair_def BIO_new_def method_create_def bio_new_def bio_make_pair_def make_buf_def
      example_malloc_succeeds sizeof_bio_st_def sizeof_bio_bio_st_def set_pair_def bio_simps Let_def)

theorem pair_fifo_witness:
  "\<exists>h0 i out h1. BIO_new_bio_pair example_malloc 0 1 4 4 Map.empty = Some ((Some 0, Some 1, True), h0)
    \<and> channel_run (pair_put example_malloc 0) (pair_get 1) (back_side example_malloc 0 1)
        [Put [1, 2, 3], Get 2, Side (Back_write [9]), Put [4, 5, 6, 7], Side Shutdown_forth, Get 9] h0 = (i, out, h1)
    \<and> i = out @ in_flight 0 h1"
proof -
  obtain h0 where h0: "BIO_new_bio_pair example_malloc 0 1 4 4 Map.empty = Some ((Some 0, Some 1, True), h0)"
    using example_new_pair by blast
  obtain i out h1 where r: "channel_run (pair_put example_malloc 0) (pair_get 1) (back_side example_malloc 0 1)
      [Put [1, 2, 3], Get 2, Side (Back_write [9]), Put [4, 5, 6, 7], Side Shutdown_forth, Get 9] h0 = (i, out, h1)"
    by (rule prod_cases3)
  from pair_fifo [OF h0 _ _ _ example_malloc_bounded r] h0 r show ?thesis by auto
qed

text \<open>
  Claim C39.  A pair does not get stuck: when a writer keeps offering what it has left and a reader
  keeps asking for any number of bytes, everything written arrives, in at most as many rounds as
  there are bytes; and a call that had to be retried succeeds once the other side has acted.
\<close>

theorem pair_delivers:
  assumes "open_pair p q h" "0 < n" "length (in_flight p h) + length xs \<le> k"
  shows "\<exists>h'. pump (pair_put al p) (pair_get q) n k xs h = ([], in_flight p h @ xs, h') \<and> in_flight p h' = []
    \<and> open_pair p q h'
    \<and> (xs \<noteq> [] \<longrightarrow> 0 < fst (pair_put al p xs h) \<or> 0 < fst (pair_put al p xs (snd (pair_get q n h))))"
proof -
  obtain rest out h' where r: "pump (pair_put al p) (pair_get q) n k xs h = (rest, out, h')"
    by (metis prod_cases3)
  have "0 < fst (pair_put al p xs h) \<or> 0 < fst (pair_put al p xs (snd (pair_get q n h)))" if xs: "xs \<noteq> []"
  proof (cases "in_flight p h = []")
    case True
    with open_pair.within [OF assms(1)] open_pair.room [OF assms(1)]
    have "length (in_flight p h) < pair_capacity p h" by simp
    then have "0 < fst (pair_put al p xs h)" by (rule open_pair.put_progress [OF assms(1) xs])
    then show ?thesis ..
  next
    case False
    show ?thesis by (rule disjI2, rule open_pair.room_after_get [OF assms(1,2) False xs])
  qed
  with open_pair.pump_delivers [OF assms r] r show ?thesis by auto
qed

theorem pair_delivers_witness:
  "\<exists>h'. pump (pair_put example_malloc 0) (pair_get 1) 2 9 [4, 5, 6, 7, 8, 9] example_pair
     = ([], [1, 2, 3, 4, 5, 6, 7, 8, 9], h')"
proof -
  have "open_pair 0 1 example_pair" "in_flight 0 example_pair = [1, 2, 3]"
    using example_pair_connected example_pair_pipes by (simp_all add: open_pair_def in_flight_def)
  with pair_delivers [where p = 0 and q = 1 and h = example_pair and n = 2 and xs = "[4, 5, 6, 7, 8, 9]"
      and k = 9 and al = example_malloc] show ?thesis by auto
qed

end
