(* ===== verification/BioSafe.thy ===== *)
theory BioSafe imports BioChannel BioMemSpec begin

text \<open>
  No call on live BIOs is undefined: the stores that programs can reach keep an invariant under
  which every assertion of the code holds and every access is inside its block.
\<close>

section \<open>The invariant of the store\<close>

definition local_ok :: "bio_st \<Rightarrow> bool" where
  "local_ok x \<longleftrightarrow> bio_references x \<noteq> 0 \<and> next_bio x = None
     \<and> (case bio_method x of
          methods_biop \<Rightarrow> \<exists>b. bio_ptr x = Pair_data b
            \<and> (if bb_peer b = None then \<not> bio_init x \<and> bb_len b = 0 else bio_init x \<and> ring_wf b)
        | mem_method \<Rightarrow> bio_init x \<and> (\<exists>m. bio_ptr x = Mem_data m \<and> mem_inv x m))"

definition link_ok :: "bio_store \<Rightarrow> nat \<Rightarrow> bio_st \<Rightarrow> bool" where
  "link_ok h p x \<longleftrightarrow> (\<forall>q. peer_of x = Some q \<longrightarrow>
     q \<noteq> p \<and> (\<exists>y. h q = Some y \<and> bio_method y = methods_biop \<and> peer_of y = Some p))"

definition store_ok :: "bio_store \<Rightarrow> bool" where
  "store_ok h \<longleftrightarrow> (\<forall>p x. h p = Some x \<longrightarrow> local_ok x \<and> link_ok h p x)"

lemma local_ok_pairI:
  "bio_references x \<noteq> 0 \<Longrightarrow> next_bio x = None \<Longrightarrow> bio_method x = methods_biop \<Longrightarrow> bio_ptr x = Pair_data b
    \<Longrightarrow> bb_peer b = Some q \<Longrightarrow> bio_init x \<Longrightarrow> ring_wf b \<Longrightarrow> local_ok x"
  by (simp add: local_ok_def)

lemma store_okD: "store_ok h \<Longrightarrow> h p = Some x \<Longrightarrow> local_ok x" "store_ok h \<Longrightarrow> h p = Some x \<Longrightarrow> link_ok h p x"
  by (simp_all add: store_ok_def)

lemma frameD:
  assumes "frame h h'" "h' p = Some x'"
  obtains x where "h p = Some x" "kept x x'"
  using assms by (auto simp: frame_def option_rel_Some2 elim!: allE [of _ p])

lemma frame_dom: "frame h h' \<Longrightarrow> dom h' = dom h"
  by (auto simp: frame_def dom_def elim: allE) (metis option.rel_distinct option.exhaust)+

lemma link_ok_frame:
  assumes "frame h h'" "link_ok h p x" "kept x x'"
  shows "link_ok h' p x'"
proof -
  have "\<exists>y'. h' q = Some y' \<and> kept y y'" if "h q = Some y" for q y
    using assms(1) that by (auto simp: frame_def option_rel_Some1 elim!: allE [of _ q])
  with assms(2,3) show ?thesis by (fastforce simp: link_ok_def kept_def)
qed

lemma store_ok_frame:
  assumes "store_ok h" "frame h h'" "\<And>p x. h' p = Some x \<Longrightarrow> h p = Some x \<or> local_ok x"
  shows "store_ok h'"
  unfolding store_ok_def
proof (intro allI impI conjI)
  fix p x' assume x': "h' p = Some x'"
  from assms(3) [OF x'] assms(1) show "local_ok x'" by (auto simp: store_ok_def)
  from assms(2) x' obtain x where x: "h p = Some x" "kept x x'" by (rule frameD)
  from link_ok_frame [OF assms(2) store_okD(2) [OF assms(1) x(1)] x(2)] show "link_ok h' p x'" .
qed

lemma local_ok_cong:
  assumes "kept x x'" "local_ok x" "bio_init x' = bio_init x"
    "\<And>b. bio_ptr x = Pair_data b \<Longrightarrow> bio_ptr x' = Pair_data b"
    "\<And>m. bio_ptr x = Mem_data m \<Longrightarrow> bio_ptr x' = Mem_data m" "mem_rdonly x' = mem_rdonly x"
  shows "local_ok x'"
  using assms mem_inv_cong [of x' x] by (auto simp: local_ok_def kept_def split: bio_method.splits)

lemma store_ok_upd:
  assumes "store_ok h" "h p = Some x" "kept x x'" "local_ok x'"
  shows "store_ok (h(p \<mapsto> x'))"
  by (rule store_ok_frame [OF assms(1)]) (use assms in \<open>auto simp: frame_upd split: if_splits\<close>)

lemma local_ok_pair_end:
  assumes "pair_end h' p q" "store_ok h" "frame h h'" "h' p = Some x"
  shows "local_ok x"
proof -
  from assms(3,4) obtain y where y: "h p = Some y" "kept y x" by (rule frameD)
  with store_okD(1) [OF assms(2) y(1)] have "bio_references x \<noteq> 0" "next_bio x = None"
    by (auto simp: local_ok_def kept_def)
  with assms(1,4) show ?thesis by (auto simp: pair_end_def local_ok_def)
qed

lemma store_ok_pair:
  assumes "store_ok h" "frame h h'" "connected h' p q" "\<And>r. r \<noteq> p \<Longrightarrow> r \<noteq> q \<Longrightarrow> h' r = h r"
  shows "store_ok h'"
proof (rule store_ok_frame [OF assms(1,2)])
  fix r x assume x: "h' r = Some x"
  consider "r = p" | "r = q" | "r \<noteq> p" "r \<noteq> q" by blast
  then show "h r = Some x \<or> local_ok x"
  proof cases
    case 3
    with assms(4) x show ?thesis by simp
  qed (use assms x local_ok_pair_end [of h'] in \<open>auto simp: connected_def\<close>)
qed

lemma store_ok_mem:
  assumes "store_ok h" "frame h h'" "mem_bio h' p c rd e" "\<And>r. r \<noteq> p \<Longrightarrow> h' r = h r"
  shows "store_ok h'"
proof (rule store_ok_frame [OF assms(1,2)])
  fix r x assume x: "h' r = Some x"
  show "h r = Some x \<or> local_ok x"
  proof (cases "r = p")
    case True
    from assms(2) x obtain y where y: "h r = Some y" "kept y x" by (rule frameD)
    with store_okD(1) [OF assms(1) y(1)] have "bio_references x \<noteq> 0" "next_bio x = None"
      by (auto simp: local_ok_def kept_def)
    with True x assms(3) show ?thesis by (auto simp: mem_bio_def local_ok_def)
  qed (use assms x in simp)
qed

lemma store_ok_new:
  assumes ok: "store_ok h" and p: "h p = None" and x: "local_ok x" "peer_of x = None"
  shows "store_ok (h(p \<mapsto> x))"
  using ok p x by (fastforce simp: store_ok_def link_ok_def)

text \<open>Every live BIO is a connected end, a lonely end or a memory BIO.\<close>

lemma store_ok_cases:
  assumes "store_ok h" "h p = Some x"
  obtains (pair) q where "connected h p q" "bio_method x = methods_biop"
  | (lonely) b where "bio_method x = methods_biop" "\<not> bio_init x" "bio_ptr x = Pair_data b" "bb_peer b = None" "bb_len b = 0"
  | (mem) c where "bio_method x = mem_method" "mem_bio h p c (mem_rdonly x) (bio_num x)"
proof -
  note ok = store_okD [OF assms]
  show thesis
  proof (cases "bio_method x")
    case mem_method
    with ok(1) mem assms(2) show thesis by (auto simp: local_ok_def mem_bio_def)
  next
    case methods_biop
    with ok(1) obtain b where b: "bio_ptr x = Pair_data b"
      "if bb_peer b = None then \<not> bio_init x \<and> bb_len b = 0 else bio_init x \<and> ring_wf b" by (auto simp: local_ok_def)
    show thesis
    proof (cases "bb_peer b")
      case None
      with b methods_biop lonely show thesis by simp
    next
      case (Some q)
      then have "peer_of x = Some q" using b by (simp add: peer_of_def)
      with ok(2) obtain y where y: "q \<noteq> p" "h q = Some y" "bio_method y = methods_biop" "peer_of y = Some p"
        by (auto simp: link_ok_def)
      with store_okD(1) [OF assms(1) y(2)] have "pair_end h q p"
        by (auto simp: pair_end_def local_ok_def peer_of_def split: if_splits)
      moreover have "pair_end h p q" using b Some methods_biop assms(2) by (auto simp: pair_end_def)
      ultimately have "connected h p q" using y(1) by (simp add: connected_def)
      then show thesis using methods_biop by (rule pair)
    qed
  qed
qed

section \<open>Calls\<close>

datatype bio_call =
    New_pair nat nat nat nat
  | New_mem nat
  | New_mem_buf nat bytes
  | Write nat bytes
  | Read nat nat
  | Gets nat nat
  | Write_all nat bytes
  | Ctrl nat int int
  | Pending nat
  | Wpending nat
  | Up_ref nat
  | Free nat

text \<open>
  The requests without a pointer argument are all of \<open>Ctrl\<close>: \<open>BIO_reset\<close>, \<open>BIO_eof\<close>, \<open>BIO_flush\<close>,
  \<open>BIO_shutdown_wr\<close>, \<open>BIO_set_close\<close>, \<open>BIO_set_mem_eof_return\<close> and the rest, also on BIOs that do not
  support them.  The state after a call; \<open>None\<close> if it is undefined.\<close>

fun bio_exec :: "allocator \<Rightarrow> bio_call \<Rightarrow> bio_store \<Rightarrow> bio_store option" where
  "bio_exec al (New_pair p q n m) h = map_option snd (BIO_new_bio_pair al p q n m h)"
| "bio_exec al (New_mem p) h = map_option snd (BIO_new al p mem_method h)"
| "bio_exec al (New_mem_buf p buf) h = map_option snd (BIO_new_mem_buf al p (Some buf) (int (length buf)) h)"
| "bio_exec al (Write p xs) h = map_option snd (BIO_write al (Some p) (Some xs) (int (length xs)) h)"
| "bio_exec al (Read p n) h = map_option (\<lambda>(_, _, h). h) (BIO_read (Some p) (Some (replicate n 0)) (int n) h)"
| "bio_exec al (Gets p n) h = map_option (\<lambda>(_, _, h). h) (BIO_gets (Some p) (Some (replicate n 0)) (int n) h)"
| "bio_exec al (Write_all p xs) h = map_option snd (BIO_write_all al (Some p) xs h)"
| "bio_exec al (Ctrl p cmd i) h = map_option (\<lambda>(_, _, h). h) (BIO_ctrl (Some p) cmd i Null_arg h)"
| "bio_exec al (Pending p) h = map_option snd (BIO_pending (Some p) h)"
| "bio_exec al (Wpending p) h = map_option snd (BIO_wpending (Some p) h)"
| "bio_exec al (Up_ref p) h = map_option snd (BIO_up_ref p h)"
| "bio_exec al (Free p) h = map_option snd (BIO_free (Some p) h)"

text \<open>
  A program may call with BIOs that it has not freed and with lengths that an \<open>int\<close> holds; the
  allocator hands out addresses that are not in use.
\<close>

fun call_ok :: "bio_call \<Rightarrow> bio_store \<Rightarrow> bool" where
  "call_ok (New_pair p q n m) h \<longleftrightarrow> h p = None \<and> h q = None \<and> p \<noteq> q"
| "call_ok (New_mem p) h \<longleftrightarrow> h p = None"
| "call_ok (New_mem_buf p buf) h \<longleftrightarrow> h p = None \<and> length buf < 2 ^ 63"
| "call_ok (Write p xs) h \<longleftrightarrow> h p \<noteq> None \<and> length xs \<le> INT_MAX"
| "call_ok (Read p n) h \<longleftrightarrow> h p \<noteq> None \<and> n \<le> INT_MAX"
| "call_ok (Gets p n) h \<longleftrightarrow> h p \<noteq> None \<and> n \<le> INT_MAX"
| "call_ok (Write_all p xs) h \<longleftrightarrow> h p \<noteq> None"
| "call_ok (Ctrl p cmd i) h \<longleftrightarrow> h p \<noteq> None \<and> cmd \<noteq> BIO_C_SET_BUF_MEM"
| "call_ok (Pending p) h \<longleftrightarrow> h p \<noteq> None"
| "call_ok (Wpending p) h \<longleftrightarrow> h p \<noteq> None"
| "call_ok (Up_ref p) h \<longleftrightarrow> h p \<noteq> None"
| "call_ok (Free p) h \<longleftrightarrow> h p \<noteq> None"

section \<open>Every call is defined\<close>

text \<open>\<open>gives P r\<close>: the call is defined and its resulting store satisfies \<open>P\<close>.\<close>

definition gives :: "(bio_store \<Rightarrow> bool) \<Rightarrow> ('r \<times> bio_store) option \<Rightarrow> bool" where
  "gives P r \<longleftrightarrow> (\<exists>a h'. r = Some (a, h') \<and> P h')"

lemma gives_simps [simp]:
  "gives P (Some (a, h)) = P h" "gives P (if c then r else s) = (if c then gives P r else gives P s)"
  by (simp_all add: gives_def)

lemma BIO_write_safe:
  assumes ok: "store_ok h" and al: "malloc_bounded al" and p: "h p \<noteq> None" and n: "n \<le> INT_MAX" "n \<le> length xs"
  obtains r h' where "BIO_write al (Some p) (Some xs) (int n) h = Some (r, h')" "store_ok h'" "frame h h'" "r \<le> int n"
proof -
  from p obtain x where x: "h p = Some x" by blast
  show thesis
  proof (cases "n = 0")
    case True
    with x ok show thesis by (intro that [of "if bio_init x then 0 else -2" h]) (simp_all add: BIO_write_def)
  next
    case False
    then have n': "0 < n" by simp
    from ok x show thesis
    proof (cases rule: store_ok_cases)
      case (pair q)
      obtain a b where a: "pipe_at h p = Some a" "pipe_at h q = Some b" by (rule connected_pipes [OF pair(1)])
      obtain h' where w: "BIO_write al (Some p) (Some xs) (int n) h = Some (fst (fst (pipe_write (take n xs) a)), h')"
        "connected h' p q" "\<And>r. r \<noteq> p \<Longrightarrow> h' r = h r" "frame h h'"
        by (rule write_refines [OF pair(1) n' n a(1), where al = al]) blast
      have "fst (fst (pipe_write (take n xs) a)) \<le> int n"
        by (auto simp: pipe_write_def Let_def)
      with w store_ok_pair [OF ok w(4,2)] show thesis by (intro that) auto
    next
      case (lonely b)
      with x ok show thesis by (intro that [of "-2" h]) (simp_all add: BIO_write_def)
    next
      case (mem c)
      obtain k h' where w: "BIO_write al (Some p) (Some xs) (int n) h = Some (if k then int n else -1, h')"
        "mem_bio h' p (c @ (if k then take n xs else [])) (mem_rdonly x) (bio_num x)" "\<And>r. r \<noteq> p \<Longrightarrow> h' r = h r" "frame h h'"
        by (rule mem_bio_write [OF mem(2) al n' n]) blast
      from store_ok_mem [OF ok w(4,2,3)] w show thesis by (intro that) auto
    qed
  qed
qed

lemma BIO_read_safe:
  assumes ok: "store_ok h" and p: "h p \<noteq> None" and n: "n \<le> INT_MAX" "n \<le> length buf"
  obtains r buf' h' where "BIO_read (Some p) (Some buf) (int n) h = Some (r, Some buf', h')" "store_ok h'" "frame h h'"
    "length buf' = length buf"
proof -
  from p obtain x where x: "h p = Some x" by blast
  show thesis
  proof (cases "n = 0")
    case True
    with x ok show thesis by (intro that [of "if bio_init x then 0 else -2" buf h]) (simp_all add: BIO_read_def)
  next
    case False
    then have n': "0 < n" by simp
    from ok x show thesis
    proof (cases rule: store_ok_cases)
      case (pair q)
      obtain a b where a: "pipe_at h q = Some a" "pipe_at h p = Some b" by (rule connected_pipes [OF connected_sym [OF pair(1)]])
      obtain h' where w: "BIO_read (Some p) (Some buf) (int n) h = Some (fst (fst (pipe_read n a)),
         Some (snd (snd (fst (pipe_read n a))) @ drop (length (snd (snd (fst (pipe_read n a))))) buf), h')"
        "connected h' q p" "\<And>r. r \<noteq> q \<Longrightarrow> r \<noteq> p \<Longrightarrow> h' r = h r" "frame h h'"
        by (rule read_refines [OF connected_sym [OF pair(1)] n' n a(1)]) blast
      have "length (snd (snd (fst (pipe_read n a)))) \<le> length buf" using n(2) by (auto simp: pipe_read_def)
      then have "length (snd (snd (fst (pipe_read n a))) @ drop (length (snd (snd (fst (pipe_read n a))))) buf) = length buf"
        by (simp only: length_append length_drop le_add_diff_inverse)
      moreover have "store_ok h'" by (rule store_ok_pair [OF ok w(4,2)]) (use w(3) in blast)
      ultimately show thesis using that [OF w(1) _ w(4)] by blast
    next
      case (lonely b)
      with x ok show thesis by (intro that [of "-2" buf h]) (simp_all add: BIO_read_def)
    next
      case (mem c)
      obtain h' where w: "BIO_read (Some p) (Some buf) (int n) h = Some (if c = [] then bio_num x else int (min n (length c)),
         Some (take n c @ drop (min n (length c)) buf), h')"
        "mem_bio h' p (drop n c) (mem_rdonly x) (bio_num x)" "\<And>r. r \<noteq> p \<Longrightarrow> h' r = h r" "frame h h'"
        by (rule mem_bio_read [OF mem(2) n' n]) blast
      from n show thesis by (intro that [OF w(1) store_ok_mem [OF ok w(4,2,3)] w(4)]) (auto simp: min_def)
    qed
  qed
qed


lemma frame_None: "frame h h' \<Longrightarrow> h' p = None \<longleftrightarrow> h p = None"
  using frame_dom [of h h'] by auto

lemma BIO_gets_safe:
  assumes ok: "store_ok h" and p: "h p \<noteq> None" and n: "n \<le> INT_MAX" "n \<le> length buf"
  obtains r buf' h' where "BIO_gets (Some p) (Some buf) (int n) h = Some (r, buf', h')" "store_ok h'"
proof -
  from p obtain x where x: "h p = Some x" by blast
  show thesis
  proof (cases "n = 0 \<or> bio_method x = methods_biop")
    case True
    have "BIO_gets (Some p) (Some buf) (int n) h =
        Some (if bio_method x = methods_biop \<or> \<not> bio_init x then -2 else 0, Some buf, h)"
      using True x by (auto simp: BIO_gets_def)
    with ok show thesis by (rule that [rotated])
  next
    case False
    then have n': "0 < n" by simp
    from ok x show thesis
    proof (cases rule: store_ok_cases)
      case (mem c)
      obtain h' where w: "BIO_gets (Some p) (Some buf) (int n) h = Some (int (line_length (n - 1) c),
         Some (take (line_length (n - 1) c) c @ 0 # drop (Suc (line_length (n - 1) c)) buf), h')"
        "mem_bio h' p (drop (line_length (n - 1) c) c) (mem_rdonly x) (bio_num x)"
        "\<And>r. r \<noteq> p \<Longrightarrow> h' r = h r" "frame h h'"
        by (rule mem_bio_gets [OF mem(2) n' n]) blast
      show thesis by (rule that [OF w(1) store_ok_mem [OF ok w(4,2,3)]])
    qed (use False in auto)
  qed
qed

lemma BIO_write_all_safe:
  assumes "store_ok h" and al: "malloc_bounded al" and "h p \<noteq> None"
  shows "\<exists>r h'. BIO_write_all al (Some p) xs h = Some (r, h') \<and> store_ok h'"
  using assms(1,3)
proof (induction "length xs" arbitrary: xs h rule: less_induct)
  case less
  show ?case
  proof (cases "xs = []")
    case True
    with less.prems show ?thesis by (subst BIO_write_all.simps) auto
  next
    case False
    let ?n = "if INT_MAX < length xs then INT_MAX else length xs"
    obtain r h' where w: "BIO_write al (Some p) (Some xs) (int ?n) h = Some (r, h')" "store_ok h'" "frame h h'"
      by (rule BIO_write_safe [OF less.prems(1) al less.prems(2), of ?n xs]) auto
    have i: "(if INT_MAX < length xs then int INT_MAX else int (length xs)) = int ?n" by simp
    show ?thesis
    proof (cases "r \<le> 0")
      case True
      with False w show ?thesis by (subst BIO_write_all.simps) (auto simp: i)
    next
      case pos: False
      have "\<exists>r' h''. BIO_write_all al (Some p) (drop (nat r) xs) h' = Some (r', h'') \<and> store_ok h''"
        by (rule less.hyps) (use False pos w less.prems(2) frame_None [OF w(3)] in auto)
      with False w pos show ?thesis by (subst BIO_write_all.simps) (simp add: i)
    qed
  qed
qed

lemma bio_ctrl_safe:
  assumes x: "h p = Some x" "bio_ptr x = Pair_data b" and q: "\<And>q. bb_peer b = Some q \<Longrightarrow> pair_at h q \<noteq> None"
  obtains r x' where "bio_ctrl p cmd i Null_arg h = Some (r, h(p \<mapsto> x'))" "kept x x'" "bio_init x' = bio_init x"
    "\<exists>b'. bio_ptr x' = Pair_data b' \<and> bb_peer b' = bb_peer b \<and> bb_len b' = bb_len b \<and> ring_wf b' = ring_wf b"
proof -
  have self: "h(p \<mapsto> x) = h" using x(1) by (rule fun_upd_idem)
  let ?xs = "{x, x\<lparr>bio_ptr := Pair_data (b\<lparr>bb_request := 0\<rparr>)\<rparr>, x\<lparr>bio_ptr := Pair_data (b\<lparr>bb_closed := True\<rparr>)\<rparr>,
        x\<lparr>bio_shutdown := int_of_long i\<rparr>}"
  have "gives (\<lambda>h'. h' \<in> insert h ((\<lambda>y. h(p \<mapsto> y)) ` ?xs))
      (case bb_peer b of
          Some peer \<Rightarrow> do { peer_b \<leftarrow> pair_at h peer; Some (c_long (bb_len peer_b), h) }
        | None \<Rightarrow> Some (0, h))"
    using q by (auto split: option.split)
  with x have "gives (\<lambda>h'. h' \<in> insert h ((\<lambda>y. h(p \<mapsto> y)) ` ?xs)) (bio_ctrl p cmd i Null_arg h)"
    by (simp add: bio_ctrl_def pair_at_eq at_bio_eq set_pair_def)
  then obtain r h' where g: "bio_ctrl p cmd i Null_arg h = Some (r, h')" "h' \<in> insert h ((\<lambda>y. h(p \<mapsto> y)) ` ?xs)"
    unfolding gives_def by blast
  from g(2) self have "\<exists>x' \<in> ?xs. h' = h(p \<mapsto> x')" by auto
  with g(1) obtain x' where r: "bio_ctrl p cmd i Null_arg h = Some (r, h(p \<mapsto> x'))" "x' \<in> ?xs" by blast
  from r(2) x(2) show thesis
    by (intro that [OF r(1)]) (auto simp: kept_def peer_of_def pair_of_def)
qed

lemma mem_reset_safe:
  assumes "mem_inv x m"
  obtains m' where "mem_reset (mem_rdonly x) m = Some m'" "mem_inv x m'"
proof (cases "bm_data m")
  case None
  with assms that [of m] show thesis by (simp add: mem_reset_def)
next
  case (Some d)
  show thesis
  proof (cases "mem_rdonly x")
    case True
    with assms Some show thesis
      by (intro that [of "m\<lparr>bm_off := bm_off m - (bm_max m - bm_length m), bm_length := bm_max m\<rparr>"])
        (auto simp: mem_reset_def mem_inv_def mem_static_def)
  next
    case False
    with assms Some have "bm_off m = 0" "length d = bm_max m" by (simp_all add: mem_inv_def bm_wf_def)
    with False assms Some memset_eq [of 0 "bm_max m" d 0] show thesis
      by (intro that [of "m\<lparr>bm_data := Some (replicate (bm_max m) 0), bm_length := 0\<rparr>"])
        (auto simp: mem_reset_def mem_inv_def bm_wf_def)
  qed
qed

lemma mem_ctrl_safe:
  assumes x: "h p = Some x" "bio_ptr x = Mem_data m" "mem_inv x m" and c: "cmd \<noteq> BIO_C_SET_BUF_MEM"
  obtains r x' where "mem_ctrl p cmd i Null_arg h = Some (r, No_out, h(p \<mapsto> x'))" "kept x x'" "bio_init x' = bio_init x"
    "\<exists>m'. bio_ptr x' = Mem_data m' \<and> mem_inv x' m'"
proof -
  have self: "h(p \<mapsto> x) = h" using x(1) by (rule fun_upd_idem)
  obtain m1 where m1: "mem_reset (mem_rdonly x) m = Some m1" "mem_inv x m1" by (rule mem_reset_safe [OF x(3)])
  let ?xs = "{x, x\<lparr>bio_ptr := Mem_data m1\<rparr>, x\<lparr>bio_num := int_of_long i\<rparr>, x\<lparr>bio_shutdown := int_of_long i\<rparr>}"
  have "\<exists>r h'. mem_ctrl p cmd i Null_arg h = Some (r, No_out, h') \<and> h' \<in> insert h ((\<lambda>y. h(p \<mapsto> y)) ` ?xs)"
    using x c m1(1)
    by (auto simp: mem_ctrl_def mem_of_def at_bio_eq set_mem_def Let_def)
  then obtain r x' where r: "mem_ctrl p cmd i Null_arg h = Some (r, No_out, h(p \<mapsto> x'))" "x' \<in> ?xs"
    using self by (metis (no_types, lifting) imageE insertCI insertE)
  from r(2) x(2,3) m1(2) show thesis
    by (intro that [OF r(1)])
      (auto simp: kept_def peer_of_def pair_of_def mem_inv_def mem_rdonly_def)
qed

lemma BIO_ctrl_safe:
  assumes ok: "store_ok h" and p: "h p \<noteq> None" and c: "cmd \<noteq> BIO_C_SET_BUF_MEM"
  obtains r h' where "BIO_ctrl (Some p) cmd i Null_arg h = Some (r, No_out, h')" "store_ok h'"
proof -
  from p obtain x where x: "h p = Some x" by blast
  note l = store_okD [OF ok x]
  show thesis
  proof (cases "bio_method x")
    case mem_method
    with l(1) obtain m where m: "bio_ptr x = Mem_data m" "mem_inv x m" by (auto simp: local_ok_def)
    obtain r x' where r: "mem_ctrl p cmd i Null_arg h = Some (r, No_out, h(p \<mapsto> x'))" "kept x x'" "bio_init x' = bio_init x"
      "\<exists>m'. bio_ptr x' = Mem_data m' \<and> mem_inv x' m'" by (rule mem_ctrl_safe [where h = h and p = p, OF x m c])
    from r(2-4) l(1) mem_method have "local_ok x'" by (auto simp: local_ok_def kept_def)
    from store_ok_upd [OF ok x r(2) this] r(1) x mem_method show thesis
      by (intro that) (auto simp: BIO_ctrl_def)
  next
    case methods_biop
    with l(1) obtain b where b: "bio_ptr x = Pair_data b"
      "if bb_peer b = None then \<not> bio_init x \<and> bb_len b = 0 else bio_init x \<and> ring_wf b" by (auto simp: local_ok_def)
    have "pair_at h q \<noteq> None" if "bb_peer b = Some q" for q
    proof -
      from that l(2) b obtain y where y: "h q = Some y" "peer_of y = Some p" by (auto simp: link_ok_def peer_of_def)
      then show ?thesis by (auto simp: pair_at_def peer_of_def bind_eq_Some_conv)
    qed
    then obtain r x' where r: "bio_ctrl p cmd i Null_arg h = Some (r, h(p \<mapsto> x'))" "kept x x'" "bio_init x' = bio_init x"
      "\<exists>b'. bio_ptr x' = Pair_data b' \<and> bb_peer b' = bb_peer b \<and> bb_len b' = bb_len b \<and> ring_wf b' = ring_wf b"
      by (rule bio_ctrl_safe [where h = h and p = p, OF x b(1)])
    from r(2-4) l(1) b methods_biop have "local_ok x'"
      by (cases "bb_peer b") (auto simp: local_ok_def kept_def)
    from store_ok_upd [OF ok x r(2) this] r(1) x methods_biop show thesis
      by (intro that) (auto simp: BIO_ctrl_def)
  qed
qed

subsection \<open>Requests that are checked, reference counts and freeing\<close>

lemma BIO_pending_safe:
  assumes ok: "store_ok h" and p: "h p \<noteq> None"
  shows "\<exists>n. BIO_pending (Some p) h = Some (n, h)" "\<exists>n. BIO_wpending (Some p) h = Some (n, h)"
proof -
  from p obtain x where x: "h p = Some x" by blast
  from ok x have "(\<exists>n. BIO_pending (Some p) h = Some (n, h)) \<and> (\<exists>n. BIO_wpending (Some p) h = Some (n, h))"
  proof (cases rule: store_ok_cases)
    case (pair q)
    obtain a b where "pipe_at h p = Some a" "pipe_at h q = Some b" by (rule connected_pipes [OF pair(1)])
    from requests_refine(1,2) [OF pair(1) this] show ?thesis by blast
  next
    case (lonely b)
    with x show ?thesis
      by (simp add: BIO_pending_def BIO_wpending_def BIO_ctrl_def bio_ctrl_def bio_simps ctrl_numbers c_long_id)
  next
    case (mem c)
    from mem(2) obtain m where m: "bio_ptr x = Mem_data m" "mem_inv x m" using x by (auto simp: mem_bio_def)
    from mem_inv_small [OF m(2)] have "0 \<le> c_long (bm_length m)" by (simp add: c_long_id)
    with x m mem(1) show ?thesis
      by (simp add: BIO_pending_def BIO_wpending_def BIO_ctrl_def mem_ctrl_def mem_of_def ctrl_numbers Let_def)
  qed
  then show "\<exists>n. BIO_pending (Some p) h = Some (n, h)" "\<exists>n. BIO_wpending (Some p) h = Some (n, h)" by blast+
qed

lemma store_ok_refs:
  assumes "store_ok h" "h p = Some x" "n \<noteq> 0"
  shows "store_ok (h(p \<mapsto> x\<lparr>bio_references := n\<rparr>))"
proof -
  have "peer_of (x\<lparr>bio_references := n\<rparr>) = peer_of x" by (simp add: peer_of_def pair_of_def)
  moreover from store_okD(1) [OF assms(1,2)] assms(3) have "local_ok (x\<lparr>bio_references := n\<rparr>)"
    by (auto simp: local_ok_def mem_inv_def mem_rdonly_def split: bio_method.splits)
  ultimately show ?thesis
    using assms(1,2) by (fastforce simp: store_ok_def link_ok_def)
qed

lemma BIO_up_ref_safe:
  assumes ok: "store_ok h" and p: "h p \<noteq> None"
  obtains h' where "BIO_up_ref p h = Some (1, h')" "store_ok h'"
proof -
  from p obtain x where x: "h p = Some x" by blast
  from store_ok_refs [OF ok x refcount_inc_pos] x show thesis
    by (intro that) (auto simp: BIO_up_ref_def at_bio_eq)
qed

lemma store_ok_del:
  assumes "store_ok h" "\<And>r x. h r = Some x \<Longrightarrow> r \<noteq> p \<Longrightarrow> peer_of x \<noteq> Some p"
  shows "store_ok (h(p := None))"
  unfolding store_ok_def
proof (intro allI impI conjI)
  fix r x assume r: "(h(p := None)) r = Some x"
  then have hr: "h r = Some x" "r \<noteq> p" by (auto split: if_splits)
  from store_okD(1) [OF assms(1) hr(1)] show "local_ok x" .
  from store_okD(2) [OF assms(1) hr(1)] assms(2) [OF hr] show "link_ok (h(p := None)) r x"
    by (auto simp: link_ok_def)
qed

text \<open>Freeing one end of a pair cuts the other one off.\<close>

definition cut_off :: "bio_st \<Rightarrow> bio_bio_st \<Rightarrow> bio_st" where
  "cut_off y c = y\<lparr>bio_init := False, bio_ptr := Pair_data (c\<lparr>bb_peer := None, bb_len := 0, bb_offset := 0\<rparr>)\<rparr>"

lemma store_ok_cut:
  assumes ok: "store_ok h" and y: "h q = Some y" "bio_method y = methods_biop" "bio_ptr y = Pair_data c" "bb_peer c = Some p"
    and x: "h p = Some x" "peer_of x = Some q" "p \<noteq> q"
  shows "store_ok (h(q \<mapsto> cut_off y c, p := None))"
proof -
  have py: "peer_of y = Some p" using y by (simp add: peer_of_def)
  have n: "peer_of (cut_off y c) = None" by (simp add: cut_off_def peer_of_def pair_of_def)
  have "link_ok (h(q \<mapsto> cut_off y c, p := None)) r z" "local_ok z"
    if z: "(h(q \<mapsto> cut_off y c, p := None)) r = Some z" for r z
  proof -
    have "local_ok (cut_off y c)"
      using store_okD(1) [OF ok y(1)] y(2) by (auto simp: local_ok_def cut_off_def)
    then show "local_ok z" using z store_okD(1) [OF ok] by (auto split: if_splits)
    show "link_ok (h(q \<mapsto> cut_off y c, p := None)) r z"
    proof (cases "r = q")
      case True
      with z x(3) n show ?thesis by (simp add: link_ok_def)
    next
      case False
      with z have hr: "h r = Some z" "r \<noteq> p" by (auto split: if_splits)
      note l = store_okD(2) [OF ok hr(1)]
      have "peer_of z \<noteq> Some q" using l y(1) py hr(2) by (auto simp: link_ok_def)
      moreover have "peer_of z \<noteq> Some p" using l x False by (auto simp: link_ok_def)
      ultimately show ?thesis using l by (auto simp: link_ok_def)
    qed
  qed
  then show ?thesis by (simp add: store_ok_def)
qed

lemma BIO_free_safe:
  assumes ok: "store_ok h" and p: "h p \<noteq> None"
  obtains r h' where "BIO_free (Some p) h = Some (r, h')" "store_ok h'"
proof -
  from p obtain x where x: "h p = Some x" by blast
  note l = store_okD [OF ok x]
  from l(1) have refs: "bio_references x \<noteq> 0" "next_bio x = None" by (simp_all add: local_ok_def)
  from refcount_dec_defined [OF refs(1)] obtain z n
    where z: "CRYPTO_refcount_dec_and_test_zero (bio_references x) = Some (z, n)" by blast
  show thesis
  proof (cases z)
    case False
    with z have "n \<noteq> 0" by (cases z) (auto dest: refcount_dec_pos)
    from store_ok_refs [OF ok x this] z False x show thesis
      by (intro that) (auto simp: BIO_free.simps)
  next
    case True
    let ?x = "x\<lparr>bio_references := n, next_bio := None\<rparr>"
    have free: "BIO_free (Some p) h = (case method_destroy (bio_method x) p (h(p \<mapsto> ?x)) of
        None \<Rightarrow> None | Some (_, h') \<Rightarrow> Some (1, h'(p := None)))"
      using x z True refs by (subst BIO_free.simps) (auto simp: BIO_pop_def BIO_free.simps split: option.splits)
    from ok x show thesis
    proof (cases rule: store_ok_cases)
      case (pair q)
      from pair(1) obtain y c b where y: "h q = Some y" "bio_method y = methods_biop" "bio_ptr y = Pair_data c"
        "bb_peer c = Some p" "p \<noteq> q" "bio_ptr x = Pair_data b" "bb_peer b = Some q" "ring_wf b" "ring_wf c"
        using x by (auto simp: connected_def pair_end_def)
      obtain d e where de: "bb_buf b = Some d" "bb_buf c = Some e" using y(8,9) by (auto simp: ring_wf_def)
      have "bio_free p (h(p \<mapsto> ?x)) = Some (1, h(q \<mapsto> cut_off y c, p \<mapsto> cut_off ?x b))"
        using y de by (auto simp: bio_free_def bio_destroy_pair_def bio_simps set_pair_def cut_off_def fun_upd_twist)
      with free pair(2) have "BIO_free (Some p) h = Some (1, h(q \<mapsto> cut_off y c, p := None))"
        by (simp add: method_destroy_def)
      moreover have "peer_of x = Some q" using y by (simp add: peer_of_def)
      ultimately show thesis using store_ok_cut [OF ok y(1-4) x _ y(5)] that by blast
    next
      case (lonely b)
      have "\<And>r z. h r = Some z \<Longrightarrow> r \<noteq> p \<Longrightarrow> peer_of z \<noteq> Some p"
        using store_okD(2) [OF ok] lonely x by (fastforce simp: link_ok_def peer_of_def)
      from store_ok_del [OF ok this] free lonely show thesis
        by (intro that) (auto simp: method_destroy_def bio_free_def bio_simps)
    next
      case (mem c)
      then obtain m where m: "bio_ptr x = Mem_data m" "bio_init x" using x by (auto simp: mem_bio_def)
      have "\<And>r z. h r = Some z \<Longrightarrow> r \<noteq> p \<Longrightarrow> peer_of z \<noteq> Some p"
        using store_okD(2) [OF ok] mem(1) x by (fastforce simp: link_ok_def)
      from store_ok_del [OF ok this] free mem(1) m show thesis
        by (intro that) (auto simp: method_destroy_def mem_free_def at_bio_eq)
    qed
  qed
qed

subsection \<open>Making BIOs\<close>

definition mem_new_bio :: bio_st where
  "mem_new_bio = (fresh_bio mem_method)\<lparr>bio_init := True, bio_num := -1, bio_ptr := Mem_data BUF_MEM_empty\<rparr>"

lemma BIO_new_mem_cases:
  assumes "h p = None"
  shows "BIO_new al p mem_method h = Some (None, h) \<or> BIO_new al p mem_method h = Some (Some p, h(p \<mapsto> mem_new_bio))"
  using assms
  by (auto simp: BIO_new_def method_create_def mem_new_def BUF_MEM_new_def bio_simps Let_def
      mem_new_bio_def fresh_bio_def fun_upd_idem split: option.split)

lemma mem_new_bio_ok: "local_ok mem_new_bio" "peer_of mem_new_bio = None"
  by (auto simp: mem_new_bio_def fresh_bio_def local_ok_def mem_inv_def mem_rdonly_def BUF_MEM_empty_def
      bm_wf_def peer_of_def pair_of_def)

lemma BIO_new_mem_safe:
  assumes ok: "store_ok h" and p: "h p = None"
  obtains r h' where "BIO_new al p mem_method h = Some (r, h')" "store_ok h'"
  using BIO_new_mem_cases [where h = h and p = p and al = al, OF p]
    store_ok_new [OF ok p mem_new_bio_ok] ok by blast

lemma BIO_new_mem_buf_safe:
  assumes ok: "store_ok h" and p: "h p = None" and l: "length buf < 2 ^ 63"
  obtains r h' where "BIO_new_mem_buf al p (Some buf) (int (length buf)) h = Some (r, h')" "store_ok h'"
proof -
  let ?m = "BUF_MEM_empty\<lparr>bm_data := Some buf, bm_off := 0, bm_length := length buf, bm_max := length buf\<rparr>"
  let ?x = "mem_new_bio\<lparr>bio_ptr := Mem_data ?m, bio_flags := BIO_FLAGS_MEM_RDONLY, bio_num := 0\<rparr>"
  have ptr: "bio_ptr mem_new_bio = Mem_data BUF_MEM_empty" "bio_flags mem_new_bio = 0"
    by (simp_all add: mem_new_bio_def fresh_bio_def)
  from BIO_new_mem_cases [where h = h and p = p and al = al, OF p]
  consider "BIO_new al p mem_method h = Some (None, h)" | "BIO_new al p mem_method h = Some (Some p, h(p \<mapsto> mem_new_bio))"
    by blast
  then show thesis
  proof cases
    case 1
    with ok show thesis by (intro that [of None h]) (simp_all add: BIO_new_mem_buf_def)
  next
    case 2
    have "local_ok ?x" using l
      by (auto simp: mem_new_bio_def fresh_bio_def local_ok_def mem_inv_def mem_static_def mem_rdonly_def flag_numbers)
    moreover have "peer_of ?x = None" by (simp add: peer_of_def pair_of_def)
    ultimately have "store_ok (h(p \<mapsto> ?x))" by (rule store_ok_new [OF ok p])
    moreover have "BIO_new_mem_buf al p (Some buf) (int (length buf)) h = Some (Some p, h(p \<mapsto> ?x))"
      using 2 ptr by (simp add: BIO_new_mem_buf_def bio_simps set_mem_def)
    ultimately show thesis using that by blast
  qed
qed

lemma BIO_new_bio_pair_safe:
  assumes ok: "store_ok h" and p: "h p = None" "h q = None" "p \<noteq> q" and al: "malloc_bounded al"
  obtains r h' where "BIO_new_bio_pair al p q n m h = Some (r, h')" "store_ok h'"
proof -
  from new_pair_connected [OF p al, of n m] show thesis
  proof (elim disjE exE conjE)
    assume "BIO_new_bio_pair al p q n m h = Some ((None, None, False), h)"
    with ok show thesis by (intro that)
  next
    fix h' assume new: "BIO_new_bio_pair al p q n m h = Some ((Some p, Some q, True), h')"
      and c: "connected h' p q" and others: "\<forall>r. r \<noteq> p \<longrightarrow> r \<noteq> q \<longrightarrow> h' r = h r"
      and refs: "\<forall>r x. r \<in> {p, q} \<longrightarrow> h' r = Some x \<longrightarrow> bio_references x = 1 \<and> next_bio x = None"
    have e: "pair_end h' p q" "pair_end h' q p" using c by (simp_all add: connected_def)
    have peers: "\<exists>y. h' q = Some y \<and> bio_method y = methods_biop \<and> peer_of y = Some p"
      "\<exists>y. h' p = Some y \<and> bio_method y = methods_biop \<and> peer_of y = Some q"
      using e by (auto simp: pair_end_def peer_of_def)
    have "local_ok x \<and> link_ok h' r x" if x: "h' r = Some x" for r x
    proof (cases "r \<in> {p, q}")
      case True
      with e x refs have "local_ok x" by (auto simp: pair_end_def intro: local_ok_pairI)
      with True x peers p(3) show ?thesis by (auto simp: link_ok_def)
    next
      case False
      with x others have hr: "h r = Some x" by simp
      have "link_ok h' r x"
        unfolding link_ok_def
      proof (intro allI impI)
        fix s assume "peer_of x = Some s"
        with store_okD(2) [OF ok hr] obtain y where y: "s \<noteq> r" "h s = Some y" "bio_method y = methods_biop" "peer_of y = Some r"
          by (auto simp: link_ok_def)
        with p(1,2) have "s \<noteq> p" "s \<noteq> q" by auto
        with y others show "s \<noteq> r \<and> (\<exists>y. h' s = Some y \<and> bio_method y = methods_biop \<and> peer_of y = Some r)" by auto
      qed
      with store_okD(1) [OF ok hr] show ?thesis by simp
    qed
    then have "store_ok h'" by (simp add: store_ok_def)
    with new show thesis by (rule that)
  qed
qed

section \<open>Reachable stores\<close>

text \<open>Each call has an allocator of its own, so each may find memory or not.\<close>

inductive bio_reachable :: "bio_store \<Rightarrow> bool" where
  start: "bio_reachable Map.empty"
| call: "bio_reachable h \<Longrightarrow> malloc_bounded al \<Longrightarrow> call_ok c h \<Longrightarrow> bio_exec al c h = Some h' \<Longrightarrow> bio_reachable h'"

inductive_cases bio_reachableE: "bio_reachable h"

lemma bio_exec_safe:
  assumes ok: "store_ok h" and al: "malloc_bounded al" and c: "call_ok c h"
  shows "\<exists>h'. bio_exec al c h = Some h' \<and> store_ok h'"
proof (cases c)
  case (New_pair p q n m)
  with c show ?thesis by (auto intro: BIO_new_bio_pair_safe [OF ok _ _ _ al, where p = p and q = q and n = n and m = m])
next
  case (New_mem p)
  with c show ?thesis by (auto intro: BIO_new_mem_safe [OF ok, where al = al and p = p])
next
  case (New_mem_buf p buf)
  with c show ?thesis by (auto intro: BIO_new_mem_buf_safe [OF ok, where al = al and p = p and buf = buf])
next
  case (Write p xs)
  with c show ?thesis by (auto intro: BIO_write_safe [OF ok al, where p = p and n = "length xs" and xs = xs])
next
  case (Read p n)
  with c show ?thesis by (auto intro: BIO_read_safe [OF ok, where p = p and n = n and buf = "replicate n 0"])
next
  case (Gets p n)
  with c show ?thesis by (auto intro: BIO_gets_safe [OF ok, where p = p and n = n and buf = "replicate n 0"])
next
  case (Write_all p xs)
  with c BIO_write_all_safe [OF ok al, of p xs] show ?thesis by auto
next
  case (Ctrl p cmd i)
  with c show ?thesis by (auto intro: BIO_ctrl_safe [OF ok, where p = p and cmd = cmd and i = i])
next
  case (Pending p)
  with c ok BIO_pending_safe(1) [OF ok, of p] show ?thesis by auto
next
  case (Wpending p)
  with c ok BIO_pending_safe(2) [OF ok, of p] show ?thesis by auto
next
  case (Up_ref p)
  with c show ?thesis by (auto intro: BIO_up_ref_safe [OF ok, where p = p])
next
  case (Free p)
  with c show ?thesis by (auto intro: BIO_free_safe [OF ok, where p = p])
qed

lemma reachable_store_ok:
  assumes "bio_reachable h"
  shows "store_ok h"
  using assms
proof (induction rule: bio_reachable.induct)
  case start
  then show ?case by (simp add: store_ok_def)
next
  case (call h al c h')
  from bio_exec_safe [OF call.IH call.hyps(2,3)] call.hyps(4) show ?case by simp
qed

section \<open>Properties\<close>

text \<open>
  Claim C40.  No call is undefined: in every store that calls on BIOs can reach, from none at all and
  whichever of them found no memory, a
  call on live BIOs (the making of pairs and memory BIOs, reads, writes, line reads, controls,
  reference counting and freeing, with any sizes) meets no failing assertion and no access outside
  a block, and returns.
\<close>

theorem bio_calls_defined:
  assumes "malloc_bounded al" "bio_reachable h" "call_ok c h"
  shows "\<exists>h'. bio_exec al c h = Some h' \<and> bio_reachable h'"
proof -
  from bio_exec_safe [OF reachable_store_ok [OF assms(2)] assms(1,3)]
  obtain h' where "bio_exec al c h = Some h'" by blast
  with bio_reachable.call [OF assms(2,1,3)] show ?thesis by blast
qed

theorem bio_calls_defined_witness:
  "\<exists>h. bio_exec example_malloc (New_pair 0 1 4 4) Map.empty = Some h \<and> bio_reachable h"
  by (rule bio_calls_defined [OF example_malloc_bounded bio_reachable.start]) simp

end
