(* ===== verification/Unicode.thy ===== *)
theory Unicode imports CbbSpec begin

text \<open>
  \<open>crypto/bytestring/unicode.c\<close>: the character encodings of ASN.1 strings.  First the operations,
  then the encodings as numbers of code points, and the interface between a reader and a writer of
  characters, interpreted on the four encodings of the code.
\<close>

section \<open>The operations\<close>

definition is_valid_code_point :: "u32 \<Rightarrow> bool" where
  "is_valid_code_point v =
     (if 0x10ffff < v \<or> v AND 0xfffe = 0xfffe \<or> (0xfdd0 \<le> v \<and> v \<le> 0xfdef) \<or> (0xd800 \<le> v \<and> v \<le> 0xdfff)
      then False else True)"

definition BOTTOM_BITS :: "nat \<Rightarrow> u8" where
  "BOTTOM_BITS n = ucast (push_bit n (1 :: u32) - 1)"

definition TOP_BITS :: "nat \<Rightarrow> u8" where
  "TOP_BITS n = NOT (BOTTOM_BITS (8 - n))"

text \<open>The bits of the first byte, the number of bytes that follow and the least number for that length.\<close>

definition utf8_lead :: "u8 \<Rightarrow> (u32 \<times> nat \<times> u32) option" where
  "utf8_lead c =
     (if c AND TOP_BITS 3 = TOP_BITS 2 then Some (ucast (c AND BOTTOM_BITS 5), 1, 0x80)
      else if c AND TOP_BITS 4 = TOP_BITS 3 then Some (ucast (c AND BOTTOM_BITS 4), 2, 0x800)
      else if c AND TOP_BITS 5 = TOP_BITS 4 then Some (ucast (c AND BOTTOM_BITS 3), 3, 0x10000)
      else None)"

primrec utf8_loop :: "nat \<Rightarrow> u32 \<Rightarrow> u32 reader" where
  "utf8_loop 0 v = rret v"
| "utf8_loop (Suc n) v =
     rbind CBS_get_u8 (\<lambda>c. if c AND TOP_BITS 2 \<noteq> TOP_BITS 1 then rfail
                           else utf8_loop n (push_bit 6 v OR ucast (c AND BOTTOM_BITS 6)))"

definition CBS_get_utf8 :: "u32 reader" where
  "CBS_get_utf8 =
     rbind CBS_get_u8 (\<lambda>c.
       if c \<le> 0x7f then rret (ucast c)
       else case utf8_lead c of None \<Rightarrow> rfail
            | Some (v, len, lower_bound) \<Rightarrow>
                rbind (utf8_loop len v) (\<lambda>v. if \<not> is_valid_code_point v \<or> v < lower_bound then rfail else rret v))"

definition CBS_get_latin1 :: "u32 reader" where
  "CBS_get_latin1 = rbind CBS_get_u8 (\<lambda>c. rret (ucast c))"

definition CBS_get_ucs2_be :: "u32 reader" where
  "CBS_get_ucs2_be = rbind CBS_get_u16 (\<lambda>c. if \<not> is_valid_code_point (ucast c) then rfail else rret (ucast c))"

definition CBS_get_utf32_be :: "u32 reader" where
  "CBS_get_utf32_be = rbind CBS_get_u32 (\<lambda>v. if is_valid_code_point v then rret v else rfail)"

definition CBB_get_utf8_len :: "u32 \<Rightarrow> nat" where
  "CBB_get_utf8_len u = (if u \<le> 0x7f then 1 else if u \<le> 0x7ff then 2 else if u \<le> 0xffff then 3 else 4)"

definition CBB_add_utf8 :: "allocator \<Rightarrow> cbb_ptr \<Rightarrow> u32 \<Rightarrow> cbb \<Rightarrow> bool \<times> cbb" where
  "CBB_add_utf8 al p u st =
     (let low = (\<lambda>n. CBB_add_u8 al p (ucast (ucast (TOP_BITS 1) OR (drop_bit n u AND ucast (BOTTOM_BITS 6)))));
          lead = (\<lambda>k n. CBB_add_u8 al p (ucast (ucast (TOP_BITS k) OR drop_bit n u)))
      in if \<not> is_valid_code_point u then (False, st)
         else if u \<le> 0x7f then CBB_add_u8 al p (ucast u) st
         else if u \<le> 0x7ff then cbb_and (lead 2 6) (low 0) st
         else if u \<le> 0xffff then cbb_and (lead 3 12) (cbb_and (low 6) (low 0)) st
         else if u \<le> 0x10ffff then cbb_and (lead 4 18) (cbb_and (low 12) (cbb_and (low 6) (low 0))) st
         else (False, st))"

definition CBB_add_latin1 :: "allocator \<Rightarrow> cbb_ptr \<Rightarrow> u32 \<Rightarrow> cbb \<Rightarrow> bool \<times> cbb" where
  "CBB_add_latin1 al p u st = (if u \<le> 0xff then CBB_add_u8 al p (ucast u) st else (False, st))"

definition CBB_add_ucs2_be :: "allocator \<Rightarrow> cbb_ptr \<Rightarrow> u32 \<Rightarrow> cbb \<Rightarrow> bool \<times> cbb" where
  "CBB_add_ucs2_be al p u st =
     (if u \<le> 0xffff \<and> is_valid_code_point u then CBB_add_u16 al p (ucast u) st else (False, st))"

definition CBB_add_utf32_be :: "allocator \<Rightarrow> cbb_ptr \<Rightarrow> u32 \<Rightarrow> cbb \<Rightarrow> bool \<times> cbb" where
  "CBB_add_utf32_be al p u st = (if is_valid_code_point u then CBB_add_u32 al p u st else (False, st))"

section \<open>The interface of a character encoding\<close>

text \<open>
  A reader and a writer of one encoding: the reader accepts exactly the encodings of the characters
  that the encoding can represent, and the writer appends them.
\<close>

locale charset = stream_codec enc dec valid
  for enc :: "u32 \<Rightarrow> bytes" and dec :: "u32 reader" and valid :: "u32 \<Rightarrow> bool" +
  fixes put :: "allocator \<Rightarrow> cbb_ptr \<Rightarrow> u32 \<Rightarrow> cbb \<Rightarrow> bool \<times> cbb"
  assumes exact: "dec c = (Some u, r) \<Longrightarrow> valid u \<and> c = enc u @ r"
    and put_valid: "valid u \<Longrightarrow> grows al p (enc u) (put al p u)"
    and put_invalid: "\<not> valid u \<Longrightarrow> put al p u st = (False, st)"
    and at_most_four: "length (enc u) \<le> 4"
begin

lemma dec_iff: "dec c = (Some u, r) \<longleftrightarrow> valid u \<and> c = enc u @ r"
  using exact dec_enc by blast

lemma read_all_iff: "read_all dec c = Some us \<longleftrightarrow> (\<forall>u \<in> set us. valid u) \<and> c = concat (map enc us)"
proof
  assume "read_all dec c = Some us"
  then show "(\<forall>u \<in> set us. valid u) \<and> c = concat (map enc us)"
    by (rule read_all_induct) (auto dest: exact)
next
  assume "(\<forall>u \<in> set us. valid u) \<and> c = concat (map enc us)"
  then show "read_all dec c = Some us" using read_all_enc by blast
qed

lemma length_enc_all: "length (concat (map enc us)) \<le> 4 * length us"
proof (induction us)
  case (Cons u us)
  then show ?case using at_most_four [of u] by simp
qed simp

end

section \<open>Bits of UTF-8\<close>

lemma bottom_bits: "BOTTOM_BITS 6 = 0x3f" "BOTTOM_BITS 5 = 0x1f" "BOTTOM_BITS 4 = 0xf" "BOTTOM_BITS 3 = 7"
  by (simp_all add: BOTTOM_BITS_def)

lemma top_bits: "TOP_BITS 1 = 0x80" "TOP_BITS (Suc 0) = 0x80" "TOP_BITS 2 = 0xc0" "TOP_BITS 3 = 0xe0" "TOP_BITS 4 = 0xf0" "TOP_BITS 5 = 0xf8"
  by (simp_all add: TOP_BITS_def BOTTOM_BITS_def)

lemma lead_bits:
  "c AND 0xc0 = 0x80 \<longleftrightarrow> unat (c :: u8) div 64 = 2"
  "c AND 0xe0 = 0xc0 \<longleftrightarrow> unat c div 32 = 6"
  "c AND 0xf0 = 0xe0 \<longleftrightarrow> unat c div 16 = 14"
  "c AND 0xf8 = 0xf0 \<longleftrightarrow> unat c div 8 = 30"
proof -
  have "\<forall>n \<in> set [0..<256]. (word_of_nat n AND 0xc0 = (0x80 :: u8) \<longleftrightarrow> unat (word_of_nat n :: u8) div 64 = 2)
     \<and> (word_of_nat n AND 0xe0 = (0xc0 :: u8) \<longleftrightarrow> unat (word_of_nat n :: u8) div 32 = 6)
     \<and> (word_of_nat n AND 0xf0 = (0xe0 :: u8) \<longleftrightarrow> unat (word_of_nat n :: u8) div 16 = 14)
     \<and> (word_of_nat n AND 0xf8 = (0xf0 :: u8) \<longleftrightarrow> unat (word_of_nat n :: u8) div 8 = 30)"
    by code_simp
  from u8_exhaust [OF this, of c] show
    "c AND 0xc0 = 0x80 \<longleftrightarrow> unat c div 64 = 2" "c AND 0xe0 = 0xc0 \<longleftrightarrow> unat c div 32 = 6"
    "c AND 0xf0 = 0xe0 \<longleftrightarrow> unat c div 16 = 14" "c AND 0xf8 = 0xf0 \<longleftrightarrow> unat c div 8 = 30" by blast+
qed

lemma low_bits:
  "unat (c AND 0x3f) = unat (c :: u8) mod 64" "unat (c AND 0x1f) = unat c mod 32"
  "unat (c AND 0xf) = unat c mod 16" "unat (c AND 7) = unat c mod 8"
  using unat_and_mask [of c 6] unat_and_mask [of c 5] unat_and_mask [of c 4] unat_and_mask [of c 3]
  by (simp_all add: mask_eq_exp_minus_1)

text \<open>The characters by number.\<close>

lemma and_shifted_mask: "u AND push_bit k (mask j) = push_bit k (take_bit j (drop_bit k (u :: u32)))"
  by (rule bit_word_eqI) (auto simp: bit_and_iff bit_push_bit_iff bit_take_bit_iff bit_drop_bit_eq bit_mask_iff)

lemma valid_code_point_iff:
  "is_valid_code_point u \<longleftrightarrow> unat u < 0x110000 \<and> unat u mod 0x10000 \<notin> {0xfffe, 0xffff}
     \<and> unat u \<notin> {0xfdd0..0xfdef} \<and> unat u \<notin> {0xd800..0xdfff}"
proof -
  have "u AND push_bit 1 (mask 15) = push_bit 1 (take_bit 15 (drop_bit 1 u))"
    by (rule and_shifted_mask)
  moreover have "(0xfffe :: u32) = push_bit 1 (mask 15)" by (simp add: mask_eq_exp_minus_1)
  moreover have "unat (take_bit 15 (drop_bit 1 u)) = unat u div 2 mod 2 ^ 15"
    by (simp only: unsigned_take_bit_eq unat_drop_bit_div) (simp add: take_bit_eq_mod)
  then have "unat (push_bit 1 (take_bit 15 (drop_bit 1 u))) = unat u div 2 mod 2 ^ 15 * 2 ^ 1 mod 2 ^ LENGTH(32)"
    by (simp only: unat_push_bit_mod)
  then have "unat (push_bit 1 (take_bit 15 (drop_bit 1 u))) = 2 * (unat u div 2 mod 2 ^ 15)" by (simp add: mod_less)
  ultimately have "unat (u AND 0xfffe) = 2 * (unat u div 2 mod 2 ^ 15)" by metis
  moreover have "u AND 0xfffe = 0xfffe \<longleftrightarrow> unat (u AND 0xfffe) = 0xfffe"
    using word_unat_eq_iff [of "u AND 0xfffe" "0xfffe"] by simp
  ultimately have "u AND 0xfffe = 0xfffe \<longleftrightarrow> unat u div 2 mod 2 ^ 15 = 2 ^ 15 - 1" by simp
  moreover have "unat u div 2 mod 2 ^ 15 = 2 ^ 15 - 1 \<longleftrightarrow> unat u mod 0x10000 \<in> {0xfffe, 0xffff}"
  proof -
    have "unat u mod (2 * 2 ^ 15) = 2 * (unat u div 2 mod 2 ^ 15) + unat u mod 2" by (rule mod_mult2_eq)
    then show ?thesis by auto
  qed
  ultimately show ?thesis by (auto simp: is_valid_code_point_def word_less_nat_alt word_le_nat_alt)
qed

section \<open>UTF-8\<close>

definition utf8_bytes :: "u32 \<Rightarrow> bytes" where
  "utf8_bytes u =
     (let n = unat u in
      if n < 0x80 then [word_of_nat n]
      else if n < 0x800 then [word_of_nat (0xc0 + n div 64), word_of_nat (0x80 + n mod 64)]
      else if n < 0x10000 then
        [word_of_nat (0xe0 + n div 64 ^ 2), word_of_nat (0x80 + n div 64 mod 64), word_of_nat (0x80 + n mod 64)]
      else
        [word_of_nat (0xf0 + n div 64 ^ 3), word_of_nat (0x80 + n div 64 ^ 2 mod 64),
         word_of_nat (0x80 + n div 64 mod 64), word_of_nat (0x80 + n mod 64)])"

definition utf8_cont :: "u8 \<Rightarrow> bool" where
  "utf8_cont b \<longleftrightarrow> unat b div 64 = 2"

definition utf8_value :: "nat \<Rightarrow> bytes \<Rightarrow> nat" where
  "utf8_value v p = foldl (\<lambda>a b. a * 64 + unat b mod 64) v p"

lemma utf8_step: "unat v < 2 ^ 26 \<Longrightarrow> unat (push_bit 6 v OR ucast (b AND 0x3f :: u8) :: u32) = unat v * 64 + unat b mod 64"
  using shift_or_small [of "ucast (b AND 0x3f) :: u32" 6 v] by (simp add: unat_ucast_mod low_bits)

lemma utf8_loop_iff:
  assumes "(unat v + 1) * 64 ^ k \<le> 2 ^ 32"
  shows "utf8_loop k v c = (Some w, r) \<longleftrightarrow> (\<exists>p. c = p @ r \<and> length p = k \<and> list_all utf8_cont p \<and> unat w = utf8_value (unat v) p)"
  using assms
proof (induction k arbitrary: v c)
  case 0
  then show ?case by (auto simp: utf8_value_def word_unat_eq_iff)
next
  case (Suc k)
  show ?case
  proof (cases c)
    case Nil
    then show ?thesis by (simp add: rbind_def cbs_simps)
  next
    case (Cons b c')
    have "(64::nat) \<le> 64 ^ Suc k" by simp
    then have "(unat v + 1) * 64 \<le> (unat v + 1) * 64 ^ Suc k" by (rule mult_le_mono2)
    with Suc.prems have "unat v < 2 ^ 26" by simp
    note step = utf8_step [OF this, of b]
    have "(unat v * 64 + unat b mod 64 + 1) * 64 ^ k \<le> (unat v + 1) * 64 * 64 ^ k"
      proof (rule mult_le_mono1)
      have "unat b mod 64 < 64" by simp
      then show "unat v * 64 + unat b mod 64 + 1 \<le> (unat v + 1) * 64" by (simp add: add_mult_distrib)
    qed
    also have "\<dots> \<le> 2 ^ 32" using Suc.prems by (simp only: power_Suc mult.assoc)
    finally have IH: "utf8_loop k (push_bit 6 v OR ucast (b AND 0x3f)) c' = (Some w, r) \<longleftrightarrow>
        (\<exists>p. c' = p @ r \<and> length p = k \<and> list_all utf8_cont p \<and> unat w = utf8_value (unat v * 64 + unat b mod 64) p)"
      unfolding step [symmetric] by (rule Suc.IH)
    have "utf8_loop (Suc k) v c = (Some w, r) \<longleftrightarrow> utf8_cont b \<and> utf8_loop k (push_bit 6 v OR ucast (b AND 0x3f)) c' = (Some w, r)"
      using Cons by (simp add: rbind_def cbs_simps top_bits bottom_bits lead_bits utf8_cont_def)
    also have "\<dots> \<longleftrightarrow> (\<exists>p. c = p @ r \<and> length p = Suc k \<and> list_all utf8_cont p \<and> unat w = utf8_value (unat v) p)"
      unfolding IH using Cons by (force simp: utf8_value_def length_Suc_conv)
    finally show ?thesis .
  qed
qed

lemma utf8_value_simps [simp]:
  "utf8_value v [] = v" "utf8_value v (b # p) = utf8_value (v * 64 + unat b mod 64) p"
  by (simp_all add: utf8_value_def)

text \<open>The three kinds of lead bytes.\<close>

definition utf8_head :: "nat \<Rightarrow> nat \<Rightarrow> nat \<Rightarrow> nat \<Rightarrow> bool" where
  "utf8_head b v k l \<longleftrightarrow> (b = 0xc0 + v \<and> v < 32 \<and> k = 1 \<and> l = 0x80) \<or> (b = 0xe0 + v \<and> v < 16 \<and> k = 2 \<and> l = 0x800)
     \<or> (b = 0xf0 + v \<and> v < 8 \<and> k = 3 \<and> l = 0x10000)"

lemma quotient_iff: "0 < d \<Longrightarrow> n div d = q \<longleftrightarrow> n = d * q + n mod d" for n d q :: nat
proof
  assume "n = d * q + n mod d" "0 < d"
  moreover have "d * (n div d) + n mod d = n" by (rule mult_div_mod_eq)
  ultimately have "d * (n div d) = d * q" by linarith
  with \<open>0 < d\<close> show "n div d = q" by simp
qed (metis mult_div_mod_eq)

lemma utf8_lead_iff: "utf8_lead b = Some (v, k, l) \<longleftrightarrow> utf8_head (unat b) (unat v) k (unat l)"
proof -
  have m: "unat (ucast (b AND 0x1f) :: u32) = unat b mod 32" "unat (ucast (b AND 0xf) :: u32) = unat b mod 16"
    "unat (ucast (b AND 7) :: u32) = unat b mod 8"
    by (simp_all add: unat_ucast_mod low_bits)
  have eq: "(x :: u32) = y \<longleftrightarrow> unat x = unat y" for x y by (rule word_unat_eq_iff)
  note lead = utf8_lead_def top_bits bottom_bits lead_bits
  consider (two) "unat b div 32 = 6" | (three) "unat b div 16 = 14" "unat b div 32 \<noteq> 6"
    | (four) "unat b div 8 = 30" "unat b div 16 \<noteq> 14" "unat b div 32 \<noteq> 6"
    | (none) "unat b div 8 \<noteq> 30" "unat b div 16 \<noteq> 14" "unat b div 32 \<noteq> 6" by blast
  then show ?thesis
  proof cases
    case two
    then have b: "unat b = 0xc0 + unat b mod 32" using quotient_iff [of 32 "unat b" 6] by simp
    have "utf8_head (unat b) x k y \<longleftrightarrow> x = unat b mod 32 \<and> k = 1 \<and> y = 0x80" for x y
      using b by (auto simp: utf8_head_def)
    moreover have "utf8_lead b = Some (ucast (b AND 0x1f), 1, 0x80)" using two by (simp add: lead)
    ultimately show ?thesis by (auto simp: eq m)
  next
    case three
    then have b: "unat b = 0xe0 + unat b mod 16" using quotient_iff [of 16 "unat b" 14] by simp
    have "utf8_head (unat b) x k y \<longleftrightarrow> x = unat b mod 16 \<and> k = 2 \<and> y = 0x800" for x y
      using b by (auto simp: utf8_head_def)
    moreover have "utf8_lead b = Some (ucast (b AND 0xf), 2, 0x800)" using three by (simp add: lead)
    ultimately show ?thesis by (auto simp: eq m)
  next
    case four
    then have b: "unat b = 0xf0 + unat b mod 8" using quotient_iff [of 8 "unat b" 30] by simp
    have "utf8_head (unat b) x k y \<longleftrightarrow> x = unat b mod 8 \<and> k = 3 \<and> y = 0x10000" for x y
      using b by (auto simp: utf8_head_def)
    moreover have "utf8_lead b = Some (ucast (b AND 7), 3, 0x10000)" using four by (simp add: lead)
    ultimately show ?thesis by (auto simp: eq m)
  next
    case none
    have "\<not> utf8_head (unat b) x k y" for x y
    proof
      assume "utf8_head (unat b) x k y"
      with none show False unfolding utf8_head_def by (elim disjE conjE) simp_all
    qed
    moreover have "utf8_lead b = None" using none by (simp add: lead)
    ultimately show ?thesis by simp
  qed
qed

lemma utf8_head_bound: "utf8_head b v k l \<Longrightarrow> (v + 1) * 64 ^ k \<le> 2 ^ 32 \<and> 128 \<le> b"
  by (auto simp: utf8_head_def)

lemma get_utf8_Cons:
  "CBS_get_utf8 (b # c) = (Some u, r) \<longleftrightarrow>
     (if unat b < 128 then u = ucast b \<and> r = c
      else \<exists>v k l p. utf8_head (unat b) v k l \<and> c = p @ r \<and> length p = k \<and> list_all utf8_cont p
        \<and> unat u = utf8_value v p \<and> is_valid_code_point u \<and> l \<le> unat u)"
proof (cases "unat b < 128")
  case True
  then have "b \<le> 0x7f" by (simp add: word_le_nat_alt)
  with True show ?thesis by (auto simp: CBS_get_utf8_def rbind_def cbs_simps)
next
  case False
  then have b: "\<not> b \<le> 0x7f" by (simp add: word_le_nat_alt)
  show ?thesis
  proof (cases "utf8_lead b")
    case None
    have "\<not> utf8_head (unat b) v k l" for v k l
    proof
      assume h: "utf8_head (unat b) v k l"
      then have "unat (word_of_nat v :: u32) = v" "unat (word_of_nat l :: u32) = l"
        by (auto simp: utf8_head_def unat_of_nat)
      with h utf8_lead_iff [of b "word_of_nat v" k "word_of_nat l"] None show False by simp
    qed
    with None b False show ?thesis by (simp add: CBS_get_utf8_def rbind_def cbs_simps)
  next
    case (Some t)
    obtain v k l where t: "t = (v, k, l)" by (cases t)
    with Some have h: "utf8_head (unat b) (unat v) k (unat l)" by (simp add: utf8_lead_iff)
    then have unique: "utf8_head (unat b) v' k' l' \<longleftrightarrow> v' = unat v \<and> k' = k \<and> l' = unat l" for v' k' l'
      by (auto simp: utf8_head_def)
    have "CBS_get_utf8 (b # c) = (Some u, r) \<longleftrightarrow> utf8_loop k v c = (Some u, r) \<and> is_valid_code_point u \<and> \<not> u < l"
      using b Some t by (auto simp: CBS_get_utf8_def rbind_def cbs_simps split: prod.splits option.splits)
    also have "\<dots> \<longleftrightarrow> (\<exists>p. c = p @ r \<and> length p = k \<and> list_all utf8_cont p \<and> unat u = utf8_value (unat v) p)
        \<and> is_valid_code_point u \<and> unat l \<le> unat u"
      using utf8_head_bound [OF h] by (simp add: utf8_loop_iff word_less_nat_alt not_less)
    finally show ?thesis using False unique by auto
  qed
qed

lemma utf8_cont_iff: "utf8_cont b \<longleftrightarrow> unat b = 0x80 + unat b mod 64"
  unfolding utf8_cont_def using quotient_iff [of 64 "unat b" 2] by simp

lemma byte_eqI: "unat b = n \<Longrightarrow> b = (word_of_nat n :: u8)"
  using word_of_nat_of_unat [of b] by simp

lemma last_digit: "y < 64 \<Longrightarrow> (m * 64 + y) div 64 = m" "y < 64 \<Longrightarrow> (m * 64 + y) mod 64 = (y :: nat)"
  by simp_all

lemma utf8_head_bytes:
  assumes h: "utf8_head (unat b) v k l" and p: "length p = k" "list_all utf8_cont p"
    and u: "unat u = utf8_value v p" "l \<le> unat u"
  shows "b # p = utf8_bytes u"
proof -
  have digit: "unat x mod 64 < 64" for x :: u8 by simp
  from h consider "unat b = 0xc0 + v" "v < 32" "k = 1" "l = 0x80" | "unat b = 0xe0 + v" "v < 16" "k = 2" "l = 0x800"
    | "unat b = 0xf0 + v" "v < 8" "k = 3" "l = 0x10000" unfolding utf8_head_def by blast
  then show ?thesis
  proof cases
    case 1
    with p obtain x where x: "p = [x]" "unat x = 0x80 + unat x mod 64"
      by (auto simp: length_Suc_conv utf8_cont_iff)
    define y where "y = unat x mod 64"
    have n: "unat u = v * 64 + y" "y < 64" "unat x = 0x80 + y" using u(1) x digit by (simp_all add: y_def)
    then have "unat u div 64 = v" "unat u mod 64 = y" "unat u < 0x800" using 1 by simp_all
    with n 1 u(2) x(1) show ?thesis by (simp add: utf8_bytes_def Let_def byte_eqI del: of_nat_add)
  next
    case 2
    with p obtain x x' where x: "p = [x, x']" "unat x = 0x80 + unat x mod 64" "unat x' = 0x80 + unat x' mod 64"
      by (auto simp: length_Suc_conv utf8_cont_iff numeral_2_eq_2)
    define y y' where "y = unat x mod 64" and "y' = unat x' mod 64"
    have n: "unat u = (v * 64 + y) * 64 + y'" "y < 64" "y' < 64" "unat x = 0x80 + y" "unat x' = 0x80 + y'"
      using u(1) x digit by (simp_all add: y_def y'_def)
    have d: "unat u div 64 = v * 64 + y" "unat u mod 64 = y'" by (simp_all only: n(1) last_digit [OF n(3)])
    have "unat u < 0x10000" using n 2 by simp
    moreover have "unat u div 64 ^ 2 = unat u div 64 div 64" by (simp add: div_mult2_eq [symmetric])
    then have "unat u div 64 ^ 2 = v" "unat u div 64 mod 64 = y" by (simp_all only: d(1) last_digit [OF n(2)])
    ultimately show ?thesis using d n 2 u(2) x(1) by (simp add: utf8_bytes_def Let_def byte_eqI del: of_nat_add)
  next
    case 3
    with p obtain x x' x'' where x: "p = [x, x', x'']" "unat x = 0x80 + unat x mod 64"
      "unat x' = 0x80 + unat x' mod 64" "unat x'' = 0x80 + unat x'' mod 64"
      by (auto simp: length_Suc_conv utf8_cont_iff numeral_3_eq_3)
    define y y' y'' where "y = unat x mod 64" and "y' = unat x' mod 64" and "y'' = unat x'' mod 64"
    have n: "unat u = ((v * 64 + y) * 64 + y') * 64 + y''" "y < 64" "y' < 64" "y'' < 64"
      "unat x = 0x80 + y" "unat x' = 0x80 + y'" "unat x'' = 0x80 + y''"
      using u(1) x digit by (simp_all add: y_def y'_def y''_def)
    have d: "unat u div 64 = (v * 64 + y) * 64 + y'" "unat u mod 64 = y''" by (simp_all only: n(1) last_digit [OF n(4)])
    have "unat u div 64 ^ 2 = unat u div 64 div 64" "unat u div 64 ^ 3 = unat u div 64 div 64 div 64"
      by (simp_all add: div_mult2_eq [symmetric])
    then have "unat u div 64 ^ 2 = v * 64 + y" "unat u div 64 ^ 3 = v" "unat u div 64 mod 64 = y'"
      by (simp_all only: d(1) last_digit [OF n(2)] last_digit [OF n(3)])
    moreover from this have "unat u div 64 ^ 2 mod 64 = y" by (simp only: last_digit [OF n(2)])
    ultimately show ?thesis using d n 3 u(2) x(1) by (simp add: utf8_bytes_def Let_def byte_eqI del: of_nat_add)
  qed
qed

lemma utf8_bytes_head:
  assumes "0x80 \<le> unat u" "unat u < 0x110000"
  obtains b v k l p where "utf8_bytes u = b # p" "utf8_head (unat b) v k l" "length p = k" "list_all utf8_cont p"
    "unat u = utf8_value v p" "l \<le> unat u"
proof -
  let ?n = "unat u"
  have w: "unat (word_of_nat m :: u8) = m" if "m < 256" for m using that by (simp add: unat_of_nat)
  have digit: "unat (word_of_nat (0x80 + m mod 64) :: u8) = 0x80 + m mod 64" for m
    by (rule w) (use mod_less_divisor [of 64 m] in simp)
  have top: "(128 + m mod 64) mod 64 = m mod 64" for m :: nat using mod_mult_self4 [of 64 2 "m mod 64"] by simp
  consider "?n < 0x800" | "0x800 \<le> ?n" "?n < 0x10000" | "0x10000 \<le> ?n" by linarith
  then show thesis
  proof cases
    case 1
    have "unat (word_of_nat (0xc0 + ?n div 64) :: u8) = 0xc0 + ?n div 64" by (rule w) (use 1 in simp)
    with 1 assms show thesis
      by (intro that [of "word_of_nat (0xc0 + ?n div 64)" "[word_of_nat (0x80 + ?n mod 64)]" "?n div 64" 1 "0x80"])
        (simp_all add: utf8_bytes_def Let_def utf8_head_def utf8_cont_iff digit top del: of_nat_add)
  next
    case 2
    have "unat (word_of_nat (0xe0 + ?n div 64 ^ 2) :: u8) = 0xe0 + ?n div 64 ^ 2" by (rule w) (use 2 in simp)
    moreover have "(?n div 64 ^ 2 * 64 + ?n div 64 mod 64) * 64 + ?n mod 64 = ?n"
    proof -
      have "?n div 64 ^ 2 = ?n div 64 div 64" by (simp add: div_mult2_eq [symmetric])
      then show ?thesis by simp
    qed
    ultimately show thesis using 2
      by (intro that [of "word_of_nat (0xe0 + ?n div 64 ^ 2)" 
            "[word_of_nat (0x80 + ?n div 64 mod 64), word_of_nat (0x80 + ?n mod 64)]" "?n div 64 ^ 2" 2 "0x800"])
        (simp_all add: utf8_bytes_def Let_def utf8_head_def utf8_cont_iff digit top del: of_nat_add)
  next
    case 3
    have "unat (word_of_nat (0xf0 + ?n div 64 ^ 3) :: u8) = 0xf0 + ?n div 64 ^ 3" by (rule w) (use assms in simp)
    moreover have "((?n div 64 ^ 3 * 64 + ?n div 64 ^ 2 mod 64) * 64 + ?n div 64 mod 64) * 64 + ?n mod 64 = ?n"
    proof -
      have "?n div 64 ^ 2 = ?n div 64 div 64" "?n div 64 ^ 3 = ?n div 64 div 64 div 64"
        by (simp_all add: div_mult2_eq [symmetric])
      then show ?thesis by simp
    qed
    ultimately show thesis using 3 assms
      by (intro that [of "word_of_nat (0xf0 + ?n div 64 ^ 3)" 
            "[word_of_nat (0x80 + ?n div 64 ^ 2 mod 64), word_of_nat (0x80 + ?n div 64 mod 64), word_of_nat (0x80 + ?n mod 64)]"
            "?n div 64 ^ 3" 3 "0x10000"])
        (simp_all add: utf8_bytes_def Let_def utf8_head_def utf8_cont_iff digit top del: of_nat_add)
  qed
qed

lemma CBS_get_utf8_iff: "CBS_get_utf8 c = (Some u, r) \<longleftrightarrow> is_valid_code_point u \<and> c = utf8_bytes u @ r"
proof
  assume g: "CBS_get_utf8 c = (Some u, r)"
  then obtain b c' where c: "c = b # c'" by (cases c) (auto simp: CBS_get_utf8_def rbind_def cbs_simps)
  show "is_valid_code_point u \<and> c = utf8_bytes u @ r"
  proof (cases "unat b < 128")
    case True
    with g c have u: "unat u = unat b" "r = c'" by (auto simp: get_utf8_Cons unat_ucast_mod)
    with True have "is_valid_code_point u" by (auto simp: valid_code_point_iff)
    moreover have "utf8_bytes u = [b]" using True u by (simp add: utf8_bytes_def Let_def)
    ultimately show ?thesis using c u by simp
  next
    case False
    with g c obtain v k l p where "utf8_head (unat b) v k l" "c' = p @ r" "length p = k" "list_all utf8_cont p"
      "unat u = utf8_value v p" "is_valid_code_point u" "l \<le> unat u" by (auto simp: get_utf8_Cons)
    with c utf8_head_bytes show ?thesis by (metis append_Cons)
  qed
next
  assume g: "is_valid_code_point u \<and> c = utf8_bytes u @ r"
  show "CBS_get_utf8 c = (Some u, r)"
  proof (cases "unat u < 0x80")
    case True
    define b where "b = (word_of_nat (unat u) :: u8)"
    have b: "unat b = unat u" using True by (simp add: b_def unat_ucast_mod)
    with True have "c = b # r" "u = ucast b" "unat b < 128"
      using g by (simp_all add: utf8_bytes_def Let_def b_def [symmetric] word_unat_eq_iff unat_ucast_mod del: word_of_nat_of_unat)
    then show ?thesis by (simp add: get_utf8_Cons)
  next
    case False
    with g have "0x80 \<le> unat u" "unat u < 0x110000" by (simp_all add: valid_code_point_iff)
    then obtain b v k l p where bp: "utf8_bytes u = b # p" "utf8_head (unat b) v k l" "length p = k" "list_all utf8_cont p"
      "unat u = utf8_value v p" "l \<le> unat u" by (rule utf8_bytes_head)
    with utf8_head_bound [OF bp(2)] g show ?thesis by (simp add: get_utf8_Cons) blast
  qed
qed

section \<open>Writing UTF-8\<close>

lemma or_top:
  fixes x :: u32
  assumes "unat x < 2 ^ k" "unat v * 2 ^ k + 2 ^ k \<le> 256"
  shows "(ucast (push_bit k v OR x) :: u8) = word_of_nat (unat v * 2 ^ k + unat x)"
proof -
  have "unat (push_bit k v OR x) = unat v * 2 ^ k + unat x"
    using shift_or_small [OF assms(1), of v] assms(2) by (simp add: mod_less)
  then have "unat (ucast (push_bit k v OR x) :: u8) = unat v * 2 ^ k + unat x"
    using assms by (simp add: unat_ucast_mod mod_less)
  then show ?thesis by (rule byte_eqI)
qed

lemma utf8_low_byte:
  "(ucast (ucast (TOP_BITS 1) OR (drop_bit n u AND ucast (BOTTOM_BITS 6) :: u32)) :: u8) = word_of_nat (0x80 + unat u div 2 ^ n mod 64)"
proof -
  have x: "unat (drop_bit n u AND 0x3f) = unat u div 2 ^ n mod 64"
    using unat_and_mask [of "drop_bit n u" 6] by (simp add: mask_eq_exp_minus_1 unat_drop_bit_div)
  have "unat u div 2 ^ n mod 64 < 64" by simp
  then have "(ucast (push_bit 7 1 OR (drop_bit n u AND 0x3f)) :: u8) = word_of_nat (unat (1 :: u32) * 2 ^ 7 + unat (drop_bit n u AND 0x3f))"
    by (intro or_top) (simp_all only: x, simp_all)
  then show ?thesis by (simp add: top_bits bottom_bits x)
qed

lemma utf8_lead_byte:
  assumes "unat u div 2 ^ n < 2 ^ j" "TOP_BITS k = word_of_nat (m * 2 ^ j)" "(m + 1) * 2 ^ j \<le> 256" "0 < j"
  shows "(ucast (ucast (TOP_BITS k) OR drop_bit n (u :: u32)) :: u8) = word_of_nat (m * 2 ^ j + unat u div 2 ^ n)"
proof -
  have "(1 :: nat) \<le> 2 ^ j" "m \<le> m * 2 ^ j" by simp_all
  with assms(3) have "m * 2 ^ j < 256" "m < 256" unfolding add_mult_distrib by linarith+
  then have m: "unat (word_of_nat m :: u32) = m" by (simp add: unat_of_nat)
  have t: "unat (TOP_BITS k) = m * 2 ^ j"
    unfolding assms(2) by (subst unat_of_nat) (simp add: \<open>m * 2 ^ j < 256\<close>)
  have "(ucast (TOP_BITS k) :: u32) = push_bit j (word_of_nat m)"
    using \<open>m * 2 ^ j < 256\<close> m t by (simp add: word_unat_eq_iff unat_ucast_mod unat_push_bit_mod del: push_bit_eq_mult)
  then have "ucast (TOP_BITS k) OR drop_bit n u = push_bit j (word_of_nat m) OR drop_bit n u" by simp
  then show ?thesis using or_top [of "drop_bit n u" j "word_of_nat m"] assms m by (simp add: unat_drop_bit_div algebra_simps)
qed

lemma grows_utf8:
  assumes "is_valid_code_point u"
  shows "grows al p (utf8_bytes u) (CBB_add_utf8 al p u)"
proof -
  have bound: "unat u < 0x110000" using assms by (simp add: valid_code_point_iff)
  let ?low = "\<lambda>n. CBB_add_u8 al p (ucast (ucast (TOP_BITS 1) OR (drop_bit n u AND ucast (BOTTOM_BITS 6))))"
  let ?lead = "\<lambda>k n. CBB_add_u8 al p (ucast (ucast (TOP_BITS k) OR drop_bit n u))"
  have low: "grows al p [word_of_nat (0x80 + unat u div 2 ^ n mod 64)] (?low n)" for n
    unfolding utf8_low_byte by (rule grows_u8)
  note le = word_le_nat_alt word_less_nat_alt
  consider "unat u < 0x80" | "0x80 \<le> unat u" "unat u < 0x800" | "0x800 \<le> unat u" "unat u < 0x10000" | "0x10000 \<le> unat u" by linarith
  then show ?thesis
  proof cases
    case 1
    then have "utf8_bytes u = [ucast u]" by (simp add: utf8_bytes_def Let_def)
    moreover have "CBB_add_utf8 al p u = CBB_add_u8 al p (ucast u)"
      using 1 assms by (auto simp: CBB_add_utf8_def le)
    ultimately show ?thesis by (simp add: grows_u8)
  next
    case 2
    have "grows al p [word_of_nat (6 * 2 ^ 5 + unat u div 2 ^ 6)] (?lead 2 6)"
      by (subst utf8_lead_byte [of u 6 5 2 6]) (use 2 in \<open>simp_all add: top_bits grows_u8\<close>)
    from grows_and [OF this low [of 0]] have "grows al p (utf8_bytes u) (cbb_and (?lead 2 6) (?low 0))"
      using 2 by (simp add: utf8_bytes_def Let_def)
    moreover have "CBB_add_utf8 al p u = cbb_and (?lead 2 6) (?low 0)"
      using 2 assms by (auto simp: CBB_add_utf8_def le Let_def)
    ultimately show ?thesis by simp
  next
    case 3
    have "grows al p [word_of_nat (14 * 2 ^ 4 + unat u div 2 ^ 12)] (?lead 3 12)"
      by (subst utf8_lead_byte [of u 12 4 3 14]) (use 3 in \<open>simp_all add: top_bits grows_u8\<close>)
    from grows_and [OF this grows_and [OF low [of 6] low [of 0]]]
    have "grows al p (utf8_bytes u) (cbb_and (?lead 3 12) (cbb_and (?low 6) (?low 0)))"
      using 3 by (simp add: utf8_bytes_def Let_def)
    moreover have "CBB_add_utf8 al p u = cbb_and (?lead 3 12) (cbb_and (?low 6) (?low 0))"
      using 3 assms by (auto simp: CBB_add_utf8_def le Let_def)
    ultimately show ?thesis by simp
  next
    case 4
    have "grows al p [word_of_nat (30 * 2 ^ 3 + unat u div 2 ^ 18)] (?lead 4 18)"
      by (subst utf8_lead_byte [of u 18 3 4 30]) (use 4 bound in \<open>simp_all add: top_bits grows_u8\<close>)
    from grows_and [OF this grows_and [OF low [of 12] grows_and [OF low [of 6] low [of 0]]]]
    have "grows al p (utf8_bytes u) (cbb_and (?lead 4 18) (cbb_and (?low 12) (cbb_and (?low 6) (?low 0))))"
      using 4 by (simp add: utf8_bytes_def Let_def)
    moreover have "CBB_add_utf8 al p u = cbb_and (?lead 4 18) (cbb_and (?low 12) (cbb_and (?low 6) (?low 0)))"
      using 4 bound assms by (auto simp: CBB_add_utf8_def le Let_def)
    ultimately show ?thesis by simp
  qed
qed

section \<open>The four encodings\<close>

lemma charsetI:
  assumes iff: "\<And>c u r. dec c = (Some u, r) \<longleftrightarrow> valid u \<and> c = enc u @ r"
    and suffix: "byte_reader dec" and len: "\<And>u. enc u \<noteq> []" "\<And>u. length (enc u) \<le> 4"
    and put: "\<And>al p u. valid u \<Longrightarrow> grows al p (enc u) (put al p u)" "\<And>al p u st. \<not> valid u \<Longrightarrow> put al p u st = (False, st)"
  shows "charset enc dec valid put"
proof (intro charset.intro stream_codec.intro codec.intro progress_reader.intro progress_reader_axioms.intro
      stream_codec_axioms.intro charset_axioms.intro)
  show "length c' < length c" if "dec c = (Some a, c')" for c a c' using that len(1) by (auto simp: iff)
qed (use iff suffix len put in \<open>auto simp: iff\<close>)

lemma CBS_get_utf8_reader [reader_intros]: "byte_reader CBS_get_utf8"
proof -
  have "byte_reader (utf8_loop n v)" for n v
    by (induction n arbitrary: v) (auto intro!: reader_intros rbind_reader if_reader)
  then show ?thesis
    unfolding CBS_get_utf8_def by (auto intro!: reader_intros rbind_reader if_reader split: option.split)
qed

interpretation utf8: charset utf8_bytes CBS_get_utf8 is_valid_code_point CBB_add_utf8
proof (rule charsetI [OF CBS_get_utf8_iff CBS_get_utf8_reader _ _ grows_utf8])
qed (auto simp: utf8_bytes_def Let_def CBB_add_utf8_def)

lemma be_bytes_nonempty: "0 < n \<Longrightarrow> be_bytes n v \<noteq> []"
  by (metis length_be_bytes list.size(3) less_irrefl)

lemma get_u_iff:
  assumes "\<And>c. rd c = rbind (cbs_get_u n) (\<lambda>v. rret (ucast v)) c" "n \<le> 8" "LENGTH('a::len) = 8 * n"
  shows "rd c = (Some (x :: 'a word), r) \<longleftrightarrow> c = be_bytes n (unat x) @ r"
proof -
  have less: "unat x < 256 ^ n"
    using unsigned_less [of x, where ?'a = nat] assms(3) by (simp add: power_mult)
  have "x = ucast (be_loop 0 p) \<longleftrightarrow> p = be_bytes n (unat x)" if "length p = n" for p
  proof -
    have "unat (ucast (be_loop 0 p) :: 'a word) = be_val p"
      using word_of_be_loop [of p, where 'a = 'a] that assms(2,3) be_val_less [of p] by (simp add: power_mult)
    then have "x = ucast (be_loop 0 p) \<longleftrightarrow> unat x = be_val p" by (metis word_of_nat_of_unat)
    also have "\<dots> \<longleftrightarrow> p = be_bytes n (unat x)"
      using be_bytes_be_val [of p] that less by (metis be_val_be_bytes mod_less)
    finally show ?thesis .
  qed
  then show ?thesis
    unfolding assms(1) rbind_ret_Some_iff cbs_get_u_Some_iff by (metis length_be_bytes)
qed

lemma get_u16_iff: "CBS_get_u16 c = (Some x, r) \<longleftrightarrow> c = be_bytes 2 (unat x) @ r"
  by (rule get_u_iff) (simp_all add: CBS_get_u16_def)

lemma get_u32_iff: "CBS_get_u32 c = (Some x, r) \<longleftrightarrow> c = be_bytes 4 (unat x) @ r"
  by (rule get_u_iff) (simp_all add: CBS_get_u32_def)

definition latin1_bytes :: "u32 \<Rightarrow> bytes" where
  "latin1_bytes u = [ucast u]"

definition ucs2_bytes :: "u32 \<Rightarrow> bytes" where
  "ucs2_bytes u = be_bytes 2 (unat u)"

definition utf32_bytes :: "u32 \<Rightarrow> bytes" where
  "utf32_bytes u = be_bytes 4 (unat u)"

interpretation latin1: charset latin1_bytes CBS_get_latin1 "\<lambda>u. u \<le> 0xff" CBB_add_latin1
proof (rule charsetI)
  show "CBS_get_latin1 c = (Some u, r) \<longleftrightarrow> u \<le> 0xff \<and> c = latin1_bytes u @ r" for c u r
  proof -
    have w: "unat (ucast b :: u32) = unat b" for b :: u8
      using unat_byte_less [of b] by (simp add: unat_ucast_mod del: unat_byte_less)
    have n: "unat u \<le> 255 \<Longrightarrow> unat (ucast u :: u8) = unat u" by (simp add: unat_ucast_mod)
    have "(\<exists>b. c = b # r \<and> u = ucast b) \<longleftrightarrow> u \<le> 0xff \<and> c = ucast u # r"
    proof
      assume "\<exists>b. c = b # r \<and> u = ucast b"
      then obtain b where b: "c = b # r" "u = ucast b" by blast
      have "unat b \<le> 255" using unat_byte_less [of b] by linarith
      with b w [of b] show "u \<le> 0xff \<and> c = ucast u # r" by (simp add: word_le_nat_alt word_unat_eq_iff n)
    next
      assume "u \<le> 0xff \<and> c = ucast u # r"
      with n w [of "ucast u"] show "\<exists>b. c = b # r \<and> u = ucast b"
        by (intro exI [of _ "ucast u"]) (simp add: word_le_nat_alt word_unat_eq_iff)
    qed
    then show ?thesis
      unfolding CBS_get_latin1_def rbind_ret_Some_iff CBS_get_u8_Some_iff latin1_bytes_def by simp
  qed
  show "byte_reader CBS_get_latin1" unfolding CBS_get_latin1_def by (auto intro!: reader_intros rbind_reader)
  show "grows al p (latin1_bytes u) (CBB_add_latin1 al p u)" if "u \<le> 0xff" for al p u
  proof -
    have "CBB_add_latin1 al p u = CBB_add_u8 al p (ucast u)" using that by (auto simp: CBB_add_latin1_def)
    then show ?thesis by (simp add: latin1_bytes_def grows_u8)
  qed
qed (auto simp: latin1_bytes_def CBB_add_latin1_def)

interpretation ucs2: charset ucs2_bytes CBS_get_ucs2_be "\<lambda>u. u \<le> 0xffff \<and> is_valid_code_point u" CBB_add_ucs2_be
proof (rule charsetI)
  have w: "unat (ucast x :: u32) = unat x" for x :: u16 using unsigned_less [of x, where ?'a = nat] by (simp add: unat_ucast_mod)
  have n: "unat u \<le> 65535 \<Longrightarrow> unat (ucast u :: u16) = unat u" for u :: u32 by (simp add: unat_ucast_mod)
  show "CBS_get_ucs2_be c = (Some u, r) \<longleftrightarrow> (u \<le> 0xffff \<and> is_valid_code_point u) \<and> c = ucs2_bytes u @ r" for c u r
  proof -
    have "CBS_get_ucs2_be c = (Some u, r) \<longleftrightarrow> (\<exists>x. CBS_get_u16 c = (Some x, r) \<and> u = ucast x \<and> is_valid_code_point u)"
      by (auto simp: CBS_get_ucs2_be_def rbind_def split: prod.splits option.splits if_splits)
    also have "\<dots> \<longleftrightarrow> (\<exists>x :: u16. c = be_bytes 2 (unat x) @ r \<and> u = ucast x \<and> is_valid_code_point u)"
      using get_u16_iff by simp
    also have "\<dots> \<longleftrightarrow> (u \<le> 0xffff \<and> is_valid_code_point u) \<and> c = ucs2_bytes u @ r"
    proof
      assume "\<exists>x :: u16. c = be_bytes 2 (unat x) @ r \<and> u = ucast x \<and> is_valid_code_point u"
      then obtain x :: u16 where "c = be_bytes 2 (unat x) @ r" "u = ucast x" "is_valid_code_point u" by blast
      with w [of x] unsigned_less [of x, where ?'a = nat] show "(u \<le> 0xffff \<and> is_valid_code_point u) \<and> c = ucs2_bytes u @ r"
        by (simp add: ucs2_bytes_def word_le_nat_alt del: be_bytes.simps)
    next
      assume "(u \<le> 0xffff \<and> is_valid_code_point u) \<and> c = ucs2_bytes u @ r"
      with n [of u] w [of "ucast u"] show "\<exists>x :: u16. c = be_bytes 2 (unat x) @ r \<and> u = ucast x \<and> is_valid_code_point u"
        by (intro exI [of _ "ucast u"]) (simp add: ucs2_bytes_def word_le_nat_alt word_unat_eq_iff del: be_bytes.simps)
    qed
    finally show ?thesis .
  qed
  show "byte_reader CBS_get_ucs2_be"
    unfolding CBS_get_ucs2_be_def by (auto intro!: reader_intros rbind_reader if_reader u16.byte_reader_axioms)
  show "grows al p (ucs2_bytes u) (CBB_add_ucs2_be al p u)" if "u \<le> 0xffff \<and> is_valid_code_point u" for al p u
  proof -
    have "CBB_add_ucs2_be al p u = cbb_add_u al p (ucast (ucast u :: u16)) 2"
      using that by (auto simp: CBB_add_ucs2_be_def CBB_add_u16_def)
    moreover have "unat (ucast (ucast u :: u16) :: u64) = unat u"
      using that n [of u] by (simp add: unat_ucast_mod word_le_nat_alt)
    ultimately show ?thesis
      using that grows_u [of 2 "ucast (ucast u :: u16)" al p] by (simp add: ucs2_bytes_def word_le_nat_alt del: be_bytes.simps)
  qed
qed (auto simp: ucs2_bytes_def be_bytes_nonempty CBB_add_ucs2_be_def)

interpretation utf32: charset utf32_bytes CBS_get_utf32_be is_valid_code_point CBB_add_utf32_be
proof (rule charsetI)
  show "CBS_get_utf32_be c = (Some u, r) \<longleftrightarrow> is_valid_code_point u \<and> c = utf32_bytes u @ r" for c u r
    using get_u32_iff [of c u r]
    by (auto simp: CBS_get_utf32_be_def rbind_def utf32_bytes_def simp del: be_bytes.simps
        split: prod.splits option.splits if_splits)
  show "byte_reader CBS_get_utf32_be"
    unfolding CBS_get_utf32_be_def by (auto intro!: reader_intros rbind_reader if_reader u32.byte_reader_axioms)
  show "grows al p (utf32_bytes u) (CBB_add_utf32_be al p u)" if "is_valid_code_point u" for al p u
  proof -
    have "CBB_add_utf32_be al p u = cbb_add_u al p (ucast u) 4"
      using that by (auto simp: CBB_add_utf32_be_def CBB_add_u32_def)
    moreover have "unat (ucast u :: u64) = unat u"
      using unsigned_less [of u, where ?'a = nat] by (simp add: unat_ucast_mod)
    ultimately show ?thesis
      using grows_u [of 4 "ucast u" al p] unsigned_less [of u, where ?'a = nat]
      by (simp add: utf32_bytes_def del: be_bytes.simps)
  qed
qed (auto simp: utf32_bytes_def be_bytes_nonempty CBB_add_utf32_be_def)

lemma length_utf8_bytes: "length (utf8_bytes u) = CBB_get_utf8_len u"
  by (auto simp: utf8_bytes_def CBB_get_utf8_len_def Let_def word_le_nat_alt)

section \<open>Properties\<close>

text \<open>
  Claim C17.  \<open>CBS_get_utf8\<close> accepts exactly the UTF-8 encodings (the shortest form, no surrogates, no
  noncharacters, nothing beyond U+10FFFF), takes exactly their bytes, and what \<open>CBB_add_utf8\<close> appends,
  \<open>CBB_get_utf8_len\<close> bytes, is what it reads; other code points are refused and change nothing.
\<close>

theorem utf8_exact:
  "(CBS_get_utf8 c = (Some u, r) \<longleftrightarrow> is_valid_code_point u \<and> c = utf8_bytes u @ r)
   \<and> (is_valid_code_point u \<longleftrightarrow> unat u < 0x110000 \<and> unat u mod 0x10000 \<notin> {0xfffe, 0xffff}
        \<and> unat u \<notin> {0xfdd0..0xfdef} \<and> unat u \<notin> {0xd800..0xdfff})
   \<and> length (utf8_bytes u) = CBB_get_utf8_len u
   \<and> (if is_valid_code_point u then appends p (utf8_bytes u) (CBB_add_utf8 al p u) else CBB_add_utf8 al p u st = (False, st))"
proof (intro conjI)
  show "CBS_get_utf8 c = (Some u, r) \<longleftrightarrow> is_valid_code_point u \<and> c = utf8_bytes u @ r"
    by (rule utf8.dec_iff)
  show "if is_valid_code_point u then appends p (utf8_bytes u) (CBB_add_utf8 al p u) else CBB_add_utf8 al p u st = (False, st)"
    using utf8.put_valid [of u al p] utf8.put_invalid [of u al p st] by (simp add: grows_def)
qed (rule valid_code_point_iff, rule length_utf8_bytes)

end
