(* ===== verification/Asn1Str.thy ===== *)
theory Asn1Str imports CbsAsn1 Buf begin

text \<open>
  The strings of the ASN.1 layer: \<open>crypto/asn1/asn1_lib.c\<close> (tags and lengths, \<open>ASN1_STRING\<close>),
  \<open>a_octet.c\<close> and \<open>a_bitstr.c\<close> (BIT STRING).  As in \<open>Buf\<close>, \<open>None\<close> of the outer option is what the C
  standard leaves undefined.
\<close>

section \<open>Tags and lengths\<close>

definition V_ASN1_UNIVERSAL :: int where "V_ASN1_UNIVERSAL = 0x00"
definition V_ASN1_PRIVATE :: int where "V_ASN1_PRIVATE = 0xc0"
definition V_ASN1_CONSTRUCTED :: int where "V_ASN1_CONSTRUCTED = 0x20"
definition V_ASN1_PRIMITIVE_TAG :: int where "V_ASN1_PRIMITIVE_TAG = 0x1f"
definition V_ASN1_MAX_UNIVERSAL :: int where "V_ASN1_MAX_UNIVERSAL = 0xff"

text \<open>
  The result is the one of the function, where the input pointer is afterwards, and the length,
  tag and class that are stored; it is \<open>None\<close> for the error result 0x80.
\<close>

definition ASN1_get_object :: "bytes \<Rightarrow> int \<Rightarrow> (int \<times> bytes \<times> nat \<times> int \<times> int) option option" where
  "ASN1_get_object inp in_len =
     (if in_len < 0 then Some None
      else do {
        ensure (nat in_len \<le> length inp);
        (case CBS_get_any_asn1 (take (nat in_len) inp) of
           (None, _) \<Rightarrow> Some None
         | (Some (body, tag), cbs) \<Rightarrow>
             if INT_MAX div 2 < length body then Some None
             else let tag_class = int (unat (drop_bit CBS_ASN1_TAG_SHIFT (tag AND CBS_ASN1_CLASS_MASK)));
                      constructed = int (unat (drop_bit CBS_ASN1_TAG_SHIFT (tag AND CBS_ASN1_CONSTRUCTED)));
                      tag_number = int (unat (tag AND CBS_ASN1_TAG_NUMBER_MASK))
                  in if tag_class = V_ASN1_UNIVERSAL \<and> V_ASN1_MAX_UNIVERSAL < tag_number then Some None
                     else Some (Some (constructed, body @ cbs @ drop (nat in_len) inp, length body, tag_number, tag_class)))
      })"

text \<open>\<open>for (i = 0; l > 0; i++) l >>= k;\<close>\<close>

function shift_count :: "nat \<Rightarrow> nat \<Rightarrow> int \<Rightarrow> nat" where
  "shift_count k i l = (if 0 < l \<and> 0 < k then shift_count k (Suc i) (drop_bit k l) else i)"
  by pat_completeness auto
termination
proof (relation "measure (\<lambda>(k, i, l). nat l)")
  fix k i :: nat and l :: int
  assume "0 < l \<and> 0 < k"
  moreover then have "(1 :: int) < 2 ^ k" by (simp add: one_less_power)
  ultimately show "((k, Suc i, drop_bit k l), (k, i, l)) \<in> measure (\<lambda>(k, i, l). nat l)"
    by (simp add: drop_bit_eq_div int_div_less_self)
qed simp

declare shift_count.simps [simp del]

text \<open>
  \<open>while (i-- > 0) { p[i] = length & 0xff; length >>= 8; }\<close>, and the same with seven bits, where all
  but the last octet have the high bit set.
\<close>

fun put_length_loop :: "nat \<Rightarrow> int \<Rightarrow> bytes \<Rightarrow> bytes" where
  "put_length_loop 0 len p = p"
| "put_length_loop (Suc i) len p = put_length_loop i (drop_bit 8 len) (word_of_int (len AND 0xff) # p)"

fun put_tag_loop :: "nat \<Rightarrow> nat \<Rightarrow> int \<Rightarrow> bytes \<Rightarrow> bytes" where
  "put_tag_loop ttag 0 tag p = p"
| "put_tag_loop ttag (Suc i) tag p =
     put_tag_loop ttag i (drop_bit 7 tag)
       ((if i \<noteq> ttag - 1 then word_of_int (tag AND 0x7f) OR 0x80 else word_of_int (tag AND 0x7f)) # p)"

text \<open>The functions that write give the bytes that they put at the pointer.\<close>

definition asn1_put_length :: "int \<Rightarrow> bytes" where
  "asn1_put_length len =
     (if len \<le> 127 then [word_of_int len]
      else let i = shift_count 8 0 len in word_of_int (int i OR 0x80) # put_length_loop i len [])"

definition ASN1_put_object :: "int \<Rightarrow> int \<Rightarrow> int \<Rightarrow> int \<Rightarrow> bytes" where
  "ASN1_put_object constructed len tag xclass =
     (let i = (if constructed \<noteq> 0 then V_ASN1_CONSTRUCTED else 0) OR (xclass AND V_ASN1_PRIVATE);
          identifier =
            (if tag < 31 then [word_of_int (i OR (tag AND V_ASN1_PRIMITIVE_TAG))]
             else let ttag = shift_count 7 0 tag
                  in word_of_int (i OR V_ASN1_PRIMITIVE_TAG) # put_tag_loop ttag ttag tag [])
      in identifier @ (if constructed = 2 then [0x80] else asn1_put_length len))"

definition ASN1_put_eoc :: bytes where
  "ASN1_put_eoc = [0, 0]"

definition ASN1_object_size :: "int \<Rightarrow> int \<Rightarrow> int \<Rightarrow> int" where
  "ASN1_object_size constructed len tag =
     (if len < 0 then -1
      else let ret = 1;
               ret = (if 31 \<le> tag then shift_count 7 ret tag else ret);
               ret = (if constructed = 2 then ret + 3
                      else let ret = ret + 1 in if 127 < len then shift_count 8 ret len else ret)
           in if int INT_MAX - len \<le> int ret then -1 else int ret + len)"

section \<open>Strings\<close>

record asn1_string =
  as_length :: nat
  as_type :: int
  as_data :: "bytes option"
  as_flags :: u64

definition ASN1_STRING_MAX :: nat where "ASN1_STRING_MAX = 64 * 1024 * 1024"
definition sizeof_asn1_string :: nat where "sizeof_asn1_string = 24"
definition V_ASN1_BIT_STRING :: int where "V_ASN1_BIT_STRING = 3"
definition V_ASN1_OCTET_STRING :: int where "V_ASN1_OCTET_STRING = 4"
definition ASN1_STRING_FLAG_BITS_LEFT :: u64 where "ASN1_STRING_FLAG_BITS_LEFT = 0x08"

definition ASN1_STRING_type_new :: "allocator \<Rightarrow> int \<Rightarrow> asn1_string option" where
  "ASN1_STRING_type_new al type =
     (case OPENSSL_malloc al sizeof_asn1_string of None \<Rightarrow> None
      | Some _ \<Rightarrow> Some \<lparr>as_length = 0, as_type = type, as_data = None, as_flags = 0\<rparr>)"

definition ASN1_STRING_new :: "allocator \<Rightarrow> asn1_string option" where
  "ASN1_STRING_new al = ASN1_STRING_type_new al V_ASN1_OCTET_STRING"

definition ASN1_STRING_set :: "allocator \<Rightarrow> asn1_string \<Rightarrow> bytes option \<Rightarrow> int \<Rightarrow> (bool \<times> asn1_string) option" where
  "ASN1_STRING_set al str data len_s =
     (if len_s < 0 \<and> data = None then Some (False, str)
      else do {
        ensure (0 \<le> len_s \<or> 0 \<in> set (the data));
        let len = (if len_s < 0 then strlen (the data) else nat len_s);
        if ASN1_STRING_MAX < len then Some (False, str)
        else case (if as_length str \<le> len \<or> as_data str = None then OPENSSL_realloc al (as_data str) (len + 1)
                   else as_data str) of
          None \<Rightarrow> Some (False, str)
        | Some c \<Rightarrow>
            (case data of None \<Rightarrow> Some (True, str\<lparr>as_data := Some c, as_length := len\<rparr>)
             | Some d \<Rightarrow> do {
                 c \<leftarrow> OPENSSL_memcpy c 0 d 0 len;
                 ensure (len < length c);
                 Some (True, str\<lparr>as_data := Some (c[len := 0]), as_length := len\<rparr>)
               })
      })"

definition ASN1_STRING_set0 :: "asn1_string \<Rightarrow> bytes option \<Rightarrow> nat \<Rightarrow> asn1_string" where
  "ASN1_STRING_set0 str data len = str\<lparr>as_data := data, as_length := len\<rparr>"

definition ASN1_STRING_copy :: "allocator \<Rightarrow> asn1_string \<Rightarrow> asn1_string option \<Rightarrow> (bool \<times> asn1_string) option" where
  "ASN1_STRING_copy al dst str =
     (case str of None \<Rightarrow> Some (False, dst)
      | Some s \<Rightarrow> do {
          (ok, dst) \<leftarrow> ASN1_STRING_set al dst (as_data s) (int (as_length s));
          if \<not> ok then Some (False, dst)
          else Some (True, dst\<lparr>as_type := as_type s, as_flags := as_flags s\<rparr>)
        })"

definition ASN1_STRING_dup :: "allocator \<Rightarrow> asn1_string option \<Rightarrow> asn1_string option option" where
  "ASN1_STRING_dup al str =
     (case str of None \<Rightarrow> Some None
      | Some s \<Rightarrow>
          (case ASN1_STRING_new al of None \<Rightarrow> Some None
           | Some ret \<Rightarrow> do {
               (ok, ret) \<leftarrow> ASN1_STRING_copy al ret (Some s);
               Some (if ok then Some ret else None)
             }))"

section \<open>BIT STRING\<close>

text \<open>\<open>while (len > 0 && data[len - 1] == 0) len--;\<close>\<close>

fun drop_zeros :: "bytes option \<Rightarrow> nat \<Rightarrow> nat option" where
  "drop_zeros data 0 = Some 0"
| "drop_zeros data (Suc n) = do {
     d \<leftarrow> data;
     ensure (n < length d);
     if d ! n = 0 then drop_zeros data n else Some (Suc n)
   }"

text \<open>The loop looks at the lowest seven bits, of which \<open>n\<close> are left.\<close>

fun padding_loop :: "nat \<Rightarrow> nat \<Rightarrow> u8 \<Rightarrow> nat" where
  "padding_loop 0 padding_bits last' = padding_bits"
| "padding_loop (Suc n) padding_bits last' =
     (if last' AND push_bit padding_bits 1 \<noteq> 0 then padding_bits else padding_loop n (Suc padding_bits) last')"

definition asn1_bit_string_length :: "asn1_string \<Rightarrow> (nat \<times> u8) option" where
  "asn1_bit_string_length str =
     (if as_flags str AND ASN1_STRING_FLAG_BITS_LEFT \<noteq> 0
      then Some (as_length str, if as_length str = 0 then 0 else ucast (as_flags str AND 0x07))
      else do {
        len \<leftarrow> drop_zeros (as_data str) (as_length str);
        if 0 < len then do {
          d \<leftarrow> as_data str;
          ensure (d ! (len - 1) \<noteq> 0);
          Some (len, word_of_nat (padding_loop 7 0 (d ! (len - 1))))
        }
        else Some (len, 0)
      })"

definition ASN1_BIT_STRING_num_bytes :: "asn1_string \<Rightarrow> nat option option" where
  "ASN1_BIT_STRING_num_bytes str = do {
     (len, padding_bits) \<leftarrow> asn1_bit_string_length str;
     Some (if padding_bits \<noteq> 0 then None else Some len)
   }"

text \<open>The result and the bytes put at the pointer, if there is one.\<close>

definition i2c_ASN1_BIT_STRING :: "asn1_string option \<Rightarrow> bool \<Rightarrow> (int \<times> bytes) option" where
  "i2c_ASN1_BIT_STRING a pp =
     (case a of None \<Rightarrow> Some (0, [])
      | Some s \<Rightarrow> do {
          (len, bits) \<leftarrow> asn1_bit_string_length s;
          if INT_MAX - 1 < len then Some (0, [])
          else if \<not> pp then Some (int (1 + len), [])
          else do {
            p \<leftarrow> (if len = 0 then Some []
                  else do {
                    d \<leftarrow> as_data s;
                    ensure (len \<le> length d);
                    let p = take len d;
                    Some (p[len - 1 := p ! (len - 1) AND push_bit (unat bits) 0xff])
                  });
            Some (int (1 + len), bits # p)
          }
        })"

text \<open>
  Whether it succeeds, the string at the caller's pointer afterwards, and the input that is left.  A
  string of the caller may have changed when it fails.
\<close>

definition c2i_ASN1_BIT_STRING ::
  "allocator \<Rightarrow> asn1_string option \<Rightarrow> bytes \<Rightarrow> int \<Rightarrow> (bool \<times> asn1_string option \<times> bytes) option" where
  "c2i_ASN1_BIT_STRING al a pp len =
     (if len < 1 then Some (False, a, pp)
      else if int INT_MAX < len then Some (False, a, pp)
      else case (case a of None \<Rightarrow> ASN1_STRING_type_new al V_ASN1_BIT_STRING | Some s \<Rightarrow> Some s) of
        None \<Rightarrow> Some (False, a, pp)
      | Some ret \<Rightarrow> do {
          ensure (nat len \<le> length pp);
          let padding = hd pp;
          let p = tl pp;
          let len = nat len - 1;
          if 7 < padding then Some (False, a, pp)
          else let padding_mask = push_bit (unat padding) 1 - 1 in
          if padding \<noteq> 0 \<and> (len < 1 \<or> p ! (len - 1) AND padding_mask \<noteq> 0) then Some (False, a, pp)
          else
            let flags = as_flags ret AND NOT (ASN1_STRING_FLAG_BITS_LEFT OR 0x07);
                ret = ret\<lparr>as_flags := flags OR (ASN1_STRING_FLAG_BITS_LEFT OR ucast padding)\<rparr>
            in case (if 0 < len then map_option Some (OPENSSL_memdup al p len) else Some None) of
                 None \<Rightarrow> Some (False, case a of None \<Rightarrow> None | Some _ \<Rightarrow> Some ret, pp)
               | Some s \<Rightarrow>
                   Some (True, Some (ret\<lparr>as_length := len, as_data := s, as_type := V_ASN1_BIT_STRING\<rparr>), drop len p)
        })"

definition ASN1_BIT_STRING_set_bit :: "allocator \<Rightarrow> asn1_string option \<Rightarrow> int \<Rightarrow> int \<Rightarrow> (bool \<times> asn1_string option) option" where
  "ASN1_BIT_STRING_set_bit al str n value =
     (let w = n sdiv 8;
          bit = push_bit (nat (7 - (n AND 7))) (1 :: u8);
          iv = NOT bit;
          v = (if value = 0 then 0 else bit)
      in case str of None \<Rightarrow> Some (False, None)
      | Some a \<Rightarrow>
          let a = a\<lparr>as_flags := as_flags a AND NOT (ASN1_STRING_FLAG_BITS_LEFT OR 0x07)\<rparr>;
              store = (\<lambda>a. do {
                d \<leftarrow> as_data a;
                ensure (0 \<le> w \<and> nat w < length d);
                let d = d[nat w := (d ! nat w AND iv) OR v];
                len \<leftarrow> drop_zeros (Some d) (as_length a);
                Some (True, Some (a\<lparr>as_data := Some d, as_length := len\<rparr>))
              })
          in if int (as_length a) < w + 1 \<or> as_data a = None then
               if value = 0 then Some (True, Some a)
               else (case OPENSSL_realloc al (as_data a) (nat (w + 1)) of
                       None \<Rightarrow> Some (False, Some a)
                     | Some c \<Rightarrow> do {
                         c \<leftarrow> OPENSSL_memset c (as_length a) 0 (nat (w + 1) - as_length a);
                         store (a\<lparr>as_data := Some c, as_length := nat (w + 1)\<rparr>)
                       })
             else store a)"

definition ASN1_BIT_STRING_get_bit :: "asn1_string option \<Rightarrow> int \<Rightarrow> bool option" where
  "ASN1_BIT_STRING_get_bit str n =
     (let w = n sdiv 8; v = push_bit (nat (7 - (n AND 7))) (1 :: u8)
      in case str of None \<Rightarrow> Some False
      | Some a \<Rightarrow>
          if int (as_length a) < w + 1 then Some False
          else case as_data a of None \<Rightarrow> Some False
          | Some d \<Rightarrow> do {
              ensure (0 \<le> w \<and> nat w < length d);
              Some (d ! nat w AND v \<noteq> 0)
            })"

fun bits_check_loop :: "nat \<Rightarrow> nat \<Rightarrow> bytes \<Rightarrow> bytes \<Rightarrow> nat \<Rightarrow> bool option" where
  "bits_check_loop 0 i d flags flags_len = Some True"
| "bits_check_loop (Suc n) i d flags flags_len = do {
     ensure (i < length d \<and> (i < flags_len \<longrightarrow> i < length flags));
     let m = (if i < flags_len then NOT (flags ! i) else 0xff);
     if d ! i AND m = 0 then bits_check_loop n (Suc i) d flags flags_len else Some False
   }"

definition ASN1_BIT_STRING_check :: "asn1_string option \<Rightarrow> bytes \<Rightarrow> int \<Rightarrow> bool option" where
  "ASN1_BIT_STRING_check str flags flags_len =
     (case str of None \<Rightarrow> Some True
      | Some a \<Rightarrow>
          (case as_data a of None \<Rightarrow> Some True
           | Some d \<Rightarrow> bits_check_loop (as_length a) 0 d flags (nat flags_len)))"

definition ASN1_STRING_cmp :: "asn1_string \<Rightarrow> asn1_string \<Rightarrow> int option" where
  "ASN1_STRING_cmp a b = do {
     (a_length, a_padding) \<leftarrow> (if as_type a = V_ASN1_BIT_STRING then asn1_bit_string_length a else Some (as_length a, 0));
     (b_length, b_padding) \<leftarrow> (if as_type b = V_ASN1_BIT_STRING then asn1_bit_string_length b else Some (as_length b, 0));
     if a_length < b_length then Some (-1)
     else if b_length < a_length then Some 1
     else if b_padding < a_padding then Some (-1)
     else if a_padding < b_padding then Some 1
     else do {
       let x = (case as_data a of None \<Rightarrow> [] | Some d \<Rightarrow> d);
       let y = (case as_data b of None \<Rightarrow> [] | Some d \<Rightarrow> d);
       ensure (a_length \<le> length x \<and> a_length \<le> length y);
       let ret = OPENSSL_memcmp x y a_length;
       if ret \<noteq> 0 then Some ret
       else if as_type a < as_type b then Some (-1)
       else if as_type b < as_type a then Some 1
       else Some 0
     }
   }"

definition ASN1_OCTET_STRING_dup :: "allocator \<Rightarrow> asn1_string option \<Rightarrow> asn1_string option option" where
  "ASN1_OCTET_STRING_dup al x = ASN1_STRING_dup al x"

definition ASN1_OCTET_STRING_cmp :: "asn1_string \<Rightarrow> asn1_string \<Rightarrow> int option" where
  "ASN1_OCTET_STRING_cmp a b = ASN1_STRING_cmp a b"

definition ASN1_OCTET_STRING_set :: "allocator \<Rightarrow> asn1_string \<Rightarrow> bytes option \<Rightarrow> int \<Rightarrow> (bool \<times> asn1_string) option" where
  "ASN1_OCTET_STRING_set al x d len = ASN1_STRING_set al x d len"

definition ASN1_BIT_STRING_set :: "allocator \<Rightarrow> asn1_string \<Rightarrow> bytes option \<Rightarrow> int \<Rightarrow> (bool \<times> asn1_string) option" where
  "ASN1_BIT_STRING_set al x d len = ASN1_STRING_set al x d len"

end
