(* ===== verification/Asn1Spec.thy ===== *)
theory Asn1Spec imports Asn1Str Unicode begin

text \<open>
  What the operations of \<open>Asn1Str\<close> promise: the headers that are written are those that are read,
  and a BIT STRING is an array of bits.
\<close>

section \<open>Headers\<close>

lemma shift_count_bytes: "shift_count 8 i (int n) = i + byte_count n"
proof (induction n arbitrary: i rule: byte_count.induct)
  case (1 n)
  have "shift_count 8 i (int n) = (if n = 0 then i else shift_count 8 (Suc i) (int (n div 256)))"
    by (subst shift_count.simps) (simp add: drop_bit_eq_div zdiv_int)
  with 1 show ?case by (simp add: byte_count.simps [of n])
qed

lemma shift_count_septets: "shift_count 7 i (int n) = i + base128_len n"
proof (induction n arbitrary: i rule: base128_len.induct)
  case (1 n)
  have "shift_count 7 i (int n) = (if n = 0 then i else shift_count 7 (Suc i) (int (n div 128)))"
    by (subst shift_count.simps) (simp add: drop_bit_eq_div zdiv_int)
  with 1 show ?case by (simp add: base128_len.simps [of n])
qed

lemma int_and_mask: "int n AND mask k = int (n mod 2 ^ k)"
  by (simp add: zmod_int take_bit_eq_mod flip: take_bit_eq_mask)

lemma int_and_ff: "int n AND 0xff = int (n mod 256)" and int_and_7f: "int n AND 0x7f = int (n mod 128)"
  and int_and_1f: "int n AND 0x1f = int (n mod 32)"
  using int_and_mask [of n 8] int_and_mask [of n 7] int_and_mask [of n 5] by (simp_all add: mask_eq_exp_minus_1)

lemma put_length_loop_be: "put_length_loop i (int n) p = be_bytes i n @ p"
proof (induction i arbitrary: n p)
  case (Suc i)
  have "drop_bit 8 (int n) = int (n div 256)" by (simp add: drop_bit_eq_div zdiv_int)
  with Suc show ?case by (simp add: int_and_ff)
qed simp

lemma septet_byte: "m < 128 \<Longrightarrow> (word_of_nat m OR 0x80 :: u8) = word_of_nat (128 + m)"
proof (rule byte_eqI)
  assume "m < 128"
  with shift_or_small [of "word_of_nat m :: u8" 7 1] show "unat (word_of_nat m OR 0x80 :: u8) = 128 + m"
    by (simp add: or.commute unat_of_nat)
qed

lemma put_tag_loop_high:
  "i = base128_len n \<Longrightarrow> i < ttag \<Longrightarrow> put_tag_loop ttag i (int n) p = base128_high n @ p"
proof (induction i arbitrary: n p)
  case 0
  then have "n = 0" using base128_len_pos [of n] by (cases "n = 0") auto
  then show ?case by simp
next
  case (Suc i)
  then have n: "0 < n" "i = base128_len (n div 128)" using base128_len_pos [of n] by (cases "n = 0"; simp)+
  have "(word_of_int (int n AND 0x7f) OR 0x80 :: u8) = word_of_nat (128 + n mod 128)"
    using septet_byte [of "n mod 128"] by (simp add: int_and_7f)
  moreover have "drop_bit 7 (int n) = int (n div 128)" by (simp add: drop_bit_eq_div zdiv_int)
  moreover have "put_tag_loop ttag i (int (n div 128)) q = base128_high (n div 128) @ q" for q
    using Suc.IH [OF n(2)] Suc.prems(2) by simp
  moreover have "base128_high n = base128_high (n div 128) @ [word_of_nat (128 + n mod 128)]"
    using n(1) by (simp add: base128_high_pos)
  moreover have "i \<noteq> ttag - 1" using Suc.prems(2) by linarith
  ultimately show ?case by (simp del: of_nat_add)
qed

lemma put_tag_base128: "0 < n \<Longrightarrow> put_tag_loop (base128_len n) (base128_len n) (int n) [] = base128_bytes n"
proof -
  assume n: "0 < n"
  then have l: "base128_len n = Suc (base128_len (n div 128))" by (rule base128_len_pos)
  have "drop_bit 7 (int n) = int (n div 128)" by (simp add: drop_bit_eq_div zdiv_int)
  then show ?thesis unfolding l by (simp add: put_tag_loop_high int_and_7f base128_bytes_def)
qed

lemma put_length_bytes:
  assumes "n < 2 ^ 31"
  shows "asn1_put_length (int n) = length_bytes n"
proof -
  have "byte_count n \<le> 4" using assms by (simp add: byte_count_iff)
  then have "(word_of_int (int (byte_count n) OR 0x80) :: u8) = word_of_nat (128 + byte_count n)"
    using septet_byte [of "byte_count n"] by (simp add: of_int_or_eq)
  then show ?thesis
    by (auto simp: asn1_put_length_def length_bytes_def shift_count_bytes [of 0] put_length_loop_be Let_def)
qed

text \<open>The class and the constructed bit as a number of three bits, and the tag as the reader gives it.\<close>

definition class_bits :: "int \<Rightarrow> int \<Rightarrow> nat" where
  "class_bits constructed xclass = nat xclass div 32 + (if constructed \<noteq> 0 then 1 else 0)"

definition object_tag :: "int \<Rightarrow> int \<Rightarrow> nat \<Rightarrow> u32" where
  "object_tag constructed xclass k = word_of_nat (class_bits constructed xclass * 2 ^ 29 + k)"

abbreviation asn1_class :: "int \<Rightarrow> bool" where
  "asn1_class xclass \<equiv> xclass \<in> {0, 0x40, 0x80, 0xc0}"

lemma class_bits_less: "asn1_class xclass \<Longrightarrow> class_bits constructed xclass < 8"
  by (auto simp: class_bits_def)

lemma class_bits_identifier:
  "asn1_class xclass \<Longrightarrow>
    (if constructed \<noteq> 0 then V_ASN1_CONSTRUCTED else 0) OR (xclass AND V_ASN1_PRIVATE) = int (32 * class_bits constructed xclass)"
  by (auto simp: class_bits_def V_ASN1_CONSTRUCTED_def V_ASN1_PRIVATE_def)

lemma identifier_byte:
  assumes "c < 8" "n < 32"
  shows "(word_of_int (int (32 * c) OR int n) :: u8) = word_of_nat (32 * c + n)"
proof -
  have "\<forall>c \<in> set [0..<8]. \<forall>n \<in> set [0..<32]. (word_of_int (int (32 * c) OR int n) :: u8) = word_of_nat (32 * c + n)"
    by code_simp
  with assms show ?thesis by simp
qed

lemma unat_object_tag:
  assumes "asn1_class xclass" "k < 2 ^ 29"
  shows "unat (object_tag constructed xclass k) = class_bits constructed xclass * 2 ^ 29 + k"
proof -
  have "class_bits constructed xclass * 2 ^ 29 \<le> 7 * 2 ^ 29" using class_bits_less [OF assms(1), of constructed] by simp
  with assms(2) have "class_bits constructed xclass * 2 ^ 29 + k < 2 ^ 32" by simp
  then show ?thesis by (simp add: object_tag_def unat_of_nat mod_less del: of_nat_add of_nat_mult)
qed

lemma put_object_header:
  assumes c: "asn1_class xclass" and k: "k < 2 ^ 29" and n: "n < 2 ^ 31" and d: "constructed \<noteq> 2"
  shows "ASN1_put_object constructed (int n) (int k) xclass = der_header (object_tag constructed xclass k) n"
proof -
  let ?c = "class_bits constructed xclass"
  note t = unat_object_tag [OF c k, of constructed]
  then have t': "unat (object_tag constructed xclass k) mod 2 ^ 29 = k" "unat (object_tag constructed xclass k) div 2 ^ 29 = ?c"
    using k by simp_all
  note b = class_bits_less [OF c, of constructed]
  have "(if k < 31 then [word_of_int (int (32 * ?c) OR (int k AND V_ASN1_PRIMITIVE_TAG)) :: u8]
     else word_of_int (int (32 * ?c) OR V_ASN1_PRIMITIVE_TAG) # put_tag_loop (base128_len k) (base128_len k) (int k) [])
     = tag_bytes (object_tag constructed xclass k)"
    using identifier_byte [OF b, of k] identifier_byte [OF b, of 31]
    by (simp add: tag_bytes_def Let_def t' [simplified] V_ASN1_PRIMITIVE_TAG_def int_and_1f put_tag_base128 del: of_nat_add of_nat_mult)
  then show ?thesis using d put_length_bytes [OF n]
    by (cases "k < 31") (simp_all add: ASN1_put_object_def Let_def class_bits_identifier [OF c] der_header_def shift_count_septets [of 0] del: of_nat_mult)
qed

lemma length_put_tag_loop: "length (put_tag_loop ttag i tag p) = i + length p"
  by (induction i arbitrary: tag p) auto

lemma base128_bytes_length: "0 < n \<Longrightarrow> length (base128_bytes n) = base128_len n"
  using length_put_tag_loop [of "base128_len n" "base128_len n" "int n" "[]"] by (simp add: put_tag_base128)

lemma object_size_header:
  assumes c: "asn1_class xclass" and k: "k < 2 ^ 29" and n: "n < 2 ^ 30" and d: "constructed \<noteq> 2"
  shows "ASN1_object_size constructed (int n) (int k) = int (length (ASN1_put_object constructed (int n) (int k) xclass) + n)"
proof -
  have t: "length (tag_bytes (object_tag constructed xclass k)) = (if 31 \<le> k then 1 + base128_len k else 1)"
    using k unat_object_tag [OF c k, of constructed] by (simp add: tag_bytes_def Let_def base128_bytes_length)
  have l: "length (length_bytes n) = (if 127 < n then 1 + byte_count n else 1)"
    by (auto simp: length_bytes_def)
  have "byte_count n \<le> 4" using n by (simp add: byte_count_iff)
  moreover have "length (tag_bytes (object_tag constructed xclass k)) \<le> 6" by (rule length_tag_bytes)
  ultimately have "int (length (der_header (object_tag constructed xclass k) n)) < int INT_MAX - int n"
    using n l by (auto simp: der_header_def INT_MAX_def)
  then show ?thesis using d t l n
    by (auto simp: ASN1_object_size_def Let_def put_object_header [OF c k _ d] der_header_def shift_count_septets shift_count_bytes)
qed

subsection \<open>Reading them\<close>

lemma object_tag_parts:
  fixes constructed xclass :: int and k :: nat and t :: u32
  assumes c: "asn1_class xclass" and k: "k < 2 ^ 29"
  defines t_def: "t \<equiv> object_tag constructed xclass k"
  shows "int (unat (drop_bit CBS_ASN1_TAG_SHIFT (t AND CBS_ASN1_CLASS_MASK))) = xclass"
    and "int (unat (drop_bit CBS_ASN1_TAG_SHIFT (t AND CBS_ASN1_CONSTRUCTED))) = (if constructed \<noteq> 0 then V_ASN1_CONSTRUCTED else 0)"
    and "int (unat (t AND CBS_ASN1_TAG_NUMBER_MASK)) = int k"
proof -
  have t: "unat t = class_bits constructed xclass * 2 ^ 29 + k" unfolding t_def by (rule unat_object_tag [OF c k])
  have field: "drop_bit 24 (t AND push_bit j (mask m)) = push_bit (j - 24) (take_bit m (drop_bit j t))" if "24 \<le> j" for j m
    unfolding and_shifted_mask using that
    by (intro bit_word_eqI) (auto simp: bit_push_bit_iff bit_drop_bit_eq bit_take_bit_iff add.commute dest: bit_imp_le_length)
  have v: "unat (push_bit i (take_bit m (drop_bit j t))) = unat t div 2 ^ j mod 2 ^ m * 2 ^ i mod 2 ^ 32" for i j m
  proof -
    have "unat (take_bit m (drop_bit j t)) = unat t div 2 ^ j mod 2 ^ m"
      by (simp only: unsigned_take_bit_eq unat_drop_bit_div) (simp add: take_bit_eq_mod)
    then show ?thesis using unat_push_bit_mod [of i "take_bit m (drop_bit j t)"] by simp
  qed
  have m: "CBS_ASN1_CLASS_MASK = push_bit 30 (mask 2)" "CBS_ASN1_CONSTRUCTED = push_bit 29 (mask 1)"
    by (simp_all add: CBS_ASN1_CLASS_MASK_def CBS_ASN1_CONSTRUCTED_def CBS_ASN1_TAG_SHIFT_def mask_eq_exp_minus_1)
  have "unat t div 2 ^ 30 = class_bits constructed xclass div 2" "unat t div 2 ^ 29 = class_bits constructed xclass"
  proof -
    show 29: "unat t div 2 ^ 29 = class_bits constructed xclass" using t k by simp
    have "unat t div 2 ^ 30 = unat t div 2 ^ 29 div 2" by (simp add: div_mult2_eq [symmetric])
    then show "unat t div 2 ^ 30 = class_bits constructed xclass div 2" unfolding 29 .
  qed
  note d = this [simplified]
  have le: "(24 :: nat) \<le> 30" "(24 :: nat) \<le> 29" by simp_all
  show "int (unat (drop_bit CBS_ASN1_TAG_SHIFT (t AND CBS_ASN1_CLASS_MASK))) = xclass"
    unfolding m CBS_ASN1_TAG_SHIFT_def field [OF le(1)] v
    using c d by (auto simp: class_bits_def)
  show "int (unat (drop_bit CBS_ASN1_TAG_SHIFT (t AND CBS_ASN1_CONSTRUCTED))) = (if constructed \<noteq> 0 then V_ASN1_CONSTRUCTED else 0)"
    unfolding m CBS_ASN1_TAG_SHIFT_def field [OF le(2)] v
    using c d by (auto simp: class_bits_def V_ASN1_CONSTRUCTED_def)
  show "int (unat (t AND CBS_ASN1_TAG_NUMBER_MASK)) = int k" using t k by (simp add: tag_number)
qed

lemma object_tag_valid:
  assumes c: "asn1_class xclass" and k: "k < 2 ^ 29" and nz: "xclass \<noteq> 0 \<or> k \<noteq> 0"
  shows "valid_tag (object_tag constructed xclass k)"
proof -
  let ?t = "object_tag constructed xclass k"
  have "?t AND NOT CBS_ASN1_CONSTRUCTED \<noteq> 0"
  proof
    assume z: "?t AND NOT CBS_ASN1_CONSTRUCTED = 0"
    have "?t AND CBS_ASN1_CLASS_MASK = (?t AND NOT CBS_ASN1_CONSTRUCTED) AND CBS_ASN1_CLASS_MASK"
      "?t AND CBS_ASN1_TAG_NUMBER_MASK = (?t AND NOT CBS_ASN1_CONSTRUCTED) AND CBS_ASN1_TAG_NUMBER_MASK"
      by (simp_all add: and.assoc CBS_ASN1_CONSTRUCTED_def CBS_ASN1_CLASS_MASK_def CBS_ASN1_TAG_NUMBER_MASK_def CBS_ASN1_TAG_SHIFT_def)
    with z have "?t AND CBS_ASN1_CLASS_MASK = 0" "?t AND CBS_ASN1_TAG_NUMBER_MASK = 0" by simp_all
    with object_tag_parts [OF c k, of constructed] nz show False by simp
  qed
  then show ?thesis by (simp add: valid_tag_def)
qed

lemma object_roundtrip:
  assumes c: "asn1_class xclass" and k: "k < 2 ^ 29" "xclass = 0 \<Longrightarrow> 0 < k \<and> k \<le> 0xff"
    and p: "length p \<le> INT_MAX div 2" and d: "constructed \<noteq> 2"
  shows "ASN1_get_object (ASN1_put_object constructed (int (length p)) (int k) xclass @ p @ r)
      (ASN1_object_size constructed (int (length p)) (int k) + int (length r))
    = Some (Some (if constructed \<noteq> 0 then V_ASN1_CONSTRUCTED else 0, p @ r, length p, int k, xclass))"
proof -
  let ?t = "object_tag constructed xclass k"
  have p': "length p < 2 ^ 30" "length p < 2 ^ 31" "length p < 2 ^ 32" using p by (simp_all add: INT_MAX_def)
  have e: "ASN1_put_object constructed (int (length p)) (int k) xclass @ p @ r = der_element ?t p @ r"
    by (simp add: put_object_header [OF c k(1) p'(2) d] der_element_def)
  have n: "nat (ASN1_object_size constructed (int (length p)) (int k) + int (length r)) = length (der_element ?t p @ r)"
    "0 \<le> ASN1_object_size constructed (int (length p)) (int k) + int (length r)"
    by (simp_all add: object_size_header [OF c k(1) p'(1) d] put_object_header [OF c k(1) p'(2) d] der_element_def)
  have "CBS_get_any_asn1 (der_element ?t p @ r) = (Some (p, ?t), r)"
    using object_tag_valid [OF c k(1)] k(2) p'(3) by (auto simp: any_asn1_iff)
  then show ?thesis unfolding e ASN1_get_object_def n(1) using n(2) p k(2) object_tag_parts [OF c k(1), of constructed]
    by (auto simp: V_ASN1_UNIVERSAL_def V_ASN1_MAX_UNIVERSAL_def)
qed

section \<open>Bits\<close>

definition bits_at :: "bytes \<Rightarrow> nat \<Rightarrow> bool" where
  "bits_at d i \<longleftrightarrow> i div 8 < length d \<and> bit (d ! (i div 8)) (7 - i mod 8)"

definition as_wf :: "asn1_string \<Rightarrow> bool" where
  "as_wf a \<longleftrightarrow> (case as_data a of None \<Rightarrow> as_length a = 0 | Some d \<Rightarrow> as_length a \<le> length d)"

definition as_bytes :: "asn1_string \<Rightarrow> bytes" where
  "as_bytes a = (case as_data a of None \<Rightarrow> [] | Some d \<Rightarrow> take (as_length a) d)"

lemma as_wf_flags [simp]: "as_wf (a\<lparr>as_flags := f\<rparr>) = as_wf a" "as_bytes (a\<lparr>as_flags := f\<rparr>) = as_bytes a"
  by (cases "as_data a"; simp add: as_wf_def as_bytes_def)+

lemma length_as_bytes: "as_wf a \<Longrightarrow> length (as_bytes a) = as_length a"
  by (auto simp: as_wf_def as_bytes_def split: option.splits)

lemma bit_index: "int i sdiv 8 = int (i div 8)" "nat (7 - (int i AND 7)) = 7 - i mod 8"
proof -
  show "int i sdiv 8 = int (i div 8)" by (cases "i = 0") (simp_all add: signed_divide_int_def zdiv_int)
  have "int i AND 7 = int (i mod 8)" using int_and_mask [of i 3] by (simp add: mask_eq_exp_minus_1)
  then show "nat (7 - (int i AND 7)) = 7 - i mod 8" by (simp add: nat_diff_distrib')
qed

lemma get_bit_eq:
  assumes "as_wf a"
  shows "ASN1_BIT_STRING_get_bit (Some a) (int i) = Some (bits_at (as_bytes a) i)"
  using assms
  by (auto simp: ASN1_BIT_STRING_get_bit_def bit_index and_exp_eq_0_iff_not_bit bits_at_def as_bytes_def as_wf_def Let_def
      split: option.splits)

lemma drop_zeros_spec:
  "n \<le> length d \<Longrightarrow> \<exists>k. drop_zeros (Some d) n = Some k \<and> k \<le> n \<and> (\<forall>j. k \<le> j \<longrightarrow> j < n \<longrightarrow> d ! j = 0) \<and> (0 < k \<longrightarrow> d ! (k - 1) \<noteq> 0)"
proof (induction n)
  case (Suc n)
  then obtain k where k: "drop_zeros (Some d) n = Some k" "k \<le> n" "\<forall>j. k \<le> j \<longrightarrow> j < n \<longrightarrow> d ! j = 0" "0 < k \<longrightarrow> d ! (k - 1) \<noteq> 0"
    by auto
  show ?case
  proof (cases "d ! n = 0")
    case True
    with k Suc.prems show ?thesis by (intro exI [of _ k]) (auto simp: less_Suc_eq)
  next
    case False
    with Suc.prems show ?thesis by (intro exI [of _ "Suc n"]) auto
  qed
qed simp

lemma bits_at_drop_zeros:
  assumes "n \<le> length d" "k \<le> n" "\<forall>j. k \<le> j \<longrightarrow> j < n \<longrightarrow> d ! j = 0"
  shows "bits_at (take k d) i = bits_at (take n d) i"
proof (cases "i div 8 < k")
  case True
  with assms(1,2) show ?thesis by (simp add: bits_at_def)
next
  case False
  with assms show ?thesis by (auto simp: bits_at_def not_less)
qed

lemma bits_at_update:
  assumes "i div 8 < length d"
  shows "bits_at (d[i div 8 := (d ! (i div 8) AND NOT (push_bit (7 - i mod 8) 1)) OR (if v then push_bit (7 - i mod 8) 1 else 0)]) j
    = (if j = i then v else bits_at d j)"
proof -
  have "j = i \<longleftrightarrow> j div 8 = i div 8 \<and> 7 - j mod 8 = 7 - i mod 8"
  proof
    assume j: "j div 8 = i div 8 \<and> 7 - j mod 8 = 7 - i mod 8"
    have "j mod 8 < 8" "i mod 8 < 8" by simp_all
    with j have "j mod 8 = i mod 8" by linarith
    with j show "j = i" by (metis div_mult_mod_eq)
  qed simp
  moreover have "7 - i mod 8 < 8" "7 - j mod 8 < 8" by simp_all
  ultimately show ?thesis using assms
    by (auto simp: bits_at_def nth_list_update bit_simps)
qed

lemma bits_at_zeros: "bits_at (d @ replicate n 0) j = bits_at d j"
  by (auto simp: bits_at_def nth_append)

lemma set_bit_store:
  fixes d :: bytes and v :: bool and i n w :: nat
  assumes "w < length d" "n \<le> length d" "w < n" "i div 8 = w"
  defines "d' \<equiv> d[w := (d ! w AND NOT (push_bit (7 - i mod 8) 1)) OR (if v then push_bit (7 - i mod 8) 1 else 0)]"
  shows "\<exists>k. drop_zeros (Some d') n = Some k \<and> k \<le> length d' \<and>
    (\<forall>j. bits_at (take k d') j = (if j = i then v else bits_at (take n d) j))"
proof -
  have n: "n \<le> length d'" using assms(2) by (simp add: d'_def)
  from drop_zeros_spec [OF n] obtain k where k: "drop_zeros (Some d') n = Some k" "k \<le> n" "\<forall>j. k \<le> j \<longrightarrow> j < n \<longrightarrow> d' ! j = 0"
    by blast
  have "take n d' = (take n d)[w := (take n d ! w AND NOT (push_bit (7 - i mod 8) 1)) OR (if v then push_bit (7 - i mod 8) 1 else 0)]"
    using assms(3) by (simp add: d'_def take_update_swap)
  then have "bits_at (take n d') j = (if j = i then v else bits_at (take n d) j)" for j
    using bits_at_update [of i "take n d" v j] assms by simp
  then have "bits_at (take k d') j = (if j = i then v else bits_at (take n d) j)" for j
    using bits_at_drop_zeros [OF n k(2,3)] by simp
  with k n show ?thesis by auto
qed

lemma set_bit_spec:
  assumes wf: "as_wf a" and i: "i < 2 ^ 31"
  obtains ok a' where "ASN1_BIT_STRING_set_bit al (Some a) (int i) value = Some (ok, Some a')" "as_wf a'"
    "\<forall>j. bits_at (as_bytes a') j = (if ok \<and> j = i then value \<noteq> 0 else bits_at (as_bytes a) j)"
    "always_allocates al \<Longrightarrow> ok"
proof -
  let ?w = "i div 8"
  let ?a = "a\<lparr>as_flags := as_flags a AND NOT (ASN1_STRING_FLAG_BITS_LEFT OR 0x07)\<rparr>"
  let ?upd = "\<lambda>d. d[?w := (d ! ?w AND NOT (push_bit (7 - i mod 8) 1)) OR (if value \<noteq> 0 then push_bit (7 - i mod 8) 1 else (0 :: u8))]"
  have v: "(if value = 0 then 0 else push_bit (7 - i mod 8) 1) = (if value \<noteq> 0 then push_bit (7 - i mod 8) 1 else (0 :: u8))" by simp
  note def = ASN1_BIT_STRING_set_bit_def Let_def bit_index v
  show thesis
  proof (cases "as_length a \<le> ?w \<or> as_data a = None")
    case False
    then obtain d where d: "as_data a = Some d" "?w < as_length a" "as_length a \<le> length d"
      using wf by (auto simp: as_wf_def)
    then have "?w < length d" by simp
    from set_bit_store [OF this d(3,2) refl, of "value \<noteq> 0"] obtain k where k: "drop_zeros (Some (?upd d)) (as_length a) = Some k"
      "k \<le> length (?upd d)" "\<forall>j. bits_at (take k (?upd d)) j = (if j = i then value \<noteq> 0 else bits_at (take (as_length a) d) j)"
      by blast
    have "ASN1_BIT_STRING_set_bit al (Some a) (int i) value = Some (True, Some (?a\<lparr>as_data := Some (?upd d), as_length := k\<rparr>))"
      using d k(1) \<open>?w < length d\<close> by (cases "value = 0") (simp_all add: def)
    moreover have "as_wf (?a\<lparr>as_data := Some (?upd d), as_length := k\<rparr>)" using k(2) by (simp add: as_wf_def)
    moreover have "\<forall>j. bits_at (as_bytes (?a\<lparr>as_data := Some (?upd d), as_length := k\<rparr>)) j
        = (if True \<and> j = i then value \<noteq> 0 else bits_at (as_bytes a) j)"
      using k(3) d(1) by (simp add: as_bytes_def)
    ultimately show thesis by (rule that) simp
  next
    case True
    have out: "\<not> bits_at (as_bytes a) i"
      using True length_as_bytes [OF wf] by (auto simp: bits_at_def as_bytes_def)
    have g: "int (as_length ?a) < int ?w + 1 \<or> as_data ?a = None" using True by auto
    show thesis
    proof (cases "value = 0")
      case v0: True
      then have "ASN1_BIT_STRING_set_bit al (Some a) (int i) value = Some (True, Some ?a)"
        using g by (simp add: def)
      moreover have "\<forall>j. bits_at (as_bytes ?a) j = (if True \<and> j = i then value \<noteq> 0 else bits_at (as_bytes a) j)"
        using v0 out by simp
      moreover have "as_wf ?a" using wf by simp
      ultimately show thesis by (intro that [of True ?a]) simp_all
    next
      case v1: False
      show thesis
      proof (cases "OPENSSL_realloc al (as_data a) (?w + 1)")
        case None
        then have "ASN1_BIT_STRING_set_bit al (Some a) (int i) value = Some (False, Some ?a)"
          using g v1 by (simp add: def nat_add_distrib)
        moreover have "\<not> always_allocates al"
        proof
          assume al: "always_allocates al"
          have "?w + 1 + 8 < 2 ^ 64" using i by simp
          from OPENSSL_realloc_succeeds [OF al this, of "as_data a"] None show False by auto
        qed
        moreover have "as_wf ?a" using wf by simp
        ultimately show thesis by (intro that [of False ?a]) simp_all
      next
        case (Some c)
        have c: "length c = ?w + 1" using Some by (rule OPENSSL_realloc_length)
        have l: "as_length a \<le> ?w" using True wf by (auto simp: as_wf_def)
        define e where "e = take (as_length a) c @ replicate (?w + 1 - as_length a) 0"
        have s: "OPENSSL_memset c (as_length a) 0 (?w + 1 - as_length a) = Some e"
          using c l by (subst memset_eq) (simp_all add: e_def)
        have le: "length e = ?w + 1" using c l by (simp add: e_def)
        have b: "take (as_length a) c = as_bytes a"
        proof (cases "as_data a")
          case None
          with wf show ?thesis by (simp add: as_wf_def as_bytes_def)
        next
          case (Some d)
          with wf have "as_length a \<le> length d" by (simp add: as_wf_def)
          with OPENSSL_realloc_keeps [of al d "?w + 1" c "as_length a"] Some \<open>OPENSSL_realloc al (as_data a) (?w + 1) = Some c\<close> l
          show ?thesis by (simp add: as_bytes_def)
        qed
        have "?w < length e" "?w + 1 \<le> length e" "?w < ?w + 1" using le by simp_all
        from set_bit_store [OF this refl, of "value \<noteq> 0"] obtain k where k: "drop_zeros (Some (?upd e)) (?w + 1) = Some k"
          "k \<le> length (?upd e)" "\<forall>j. bits_at (take k (?upd e)) j = (if j = i then value \<noteq> 0 else bits_at (take (?w + 1) e) j)"
          by blast
        have "ASN1_BIT_STRING_set_bit al (Some a) (int i) value = Some (True, Some (?a\<lparr>as_data := Some (?upd e), as_length := k\<rparr>))"
          using g v1 Some s k(1) le by (simp add: def nat_add_distrib del: drop_zeros.simps)
        moreover have "as_wf (?a\<lparr>as_data := Some (?upd e), as_length := k\<rparr>)" using k(2) by (simp add: as_wf_def)
        moreover have "\<forall>j. bits_at (as_bytes (?a\<lparr>as_data := Some (?upd e), as_length := k\<rparr>)) j
            = (if True \<and> j = i then value \<noteq> 0 else bits_at (as_bytes a) j)"
          using k(3) le bits_at_zeros [of "as_bytes a"] b by (simp add: as_bytes_def [of "_\<lparr>as_length := _\<rparr>"] e_def)
        ultimately show thesis by (rule that) simp
      qed
    qed
  qed
qed

section \<open>BIT STRING contents\<close>

lemma valid_bitstring_Cons:
  "CBS_is_valid_asn1_bitstring (b # p) \<longleftrightarrow> unat b \<le> 7 \<and> (b = 0 \<or> p \<noteq> [] \<and> take_bit (unat b) (last p) = 0)"
proof -
  have "push_bit k 1 - 1 = (mask k :: u8)" for k by (simp add: mask_eq_exp_minus_1)
  then show ?thesis
    by (cases p rule: rev_cases)
      (auto simp: CBS_is_valid_asn1_bitstring_def cbs_simps CBS_get_last_u8_def word_le_nat_alt word_less_nat_alt
        simp flip: take_bit_eq_mask split: option.splits)
qed

lemma clear_low_bits: "take_bit k x = 0 \<Longrightarrow> x AND push_bit k (mask 8) = (x :: u8)"
proof (rule bit_word_eqI)
  fix n assume t: "take_bit k x = 0" and n: "n < LENGTH(8)"
  show "bit (x AND push_bit k (mask 8)) n = bit x n"
  proof (cases "n < k")
    case True
    then have "bit x n = bit (take_bit k x) n" by (simp add: bit_take_bit_iff)
    with t have "\<not> bit x n" by simp
    then show ?thesis by (simp add: bit_and_iff)
  next
    case False
    with n show ?thesis by (auto simp: bit_and_iff bit_push_bit_iff bit_mask_iff)
  qed
qed

lemma padding_flags:
  assumes "unat b \<le> 7"
  shows "(f AND NOT (ASN1_STRING_FLAG_BITS_LEFT OR 0x07) OR (ASN1_STRING_FLAG_BITS_LEFT OR ucast b)) AND ASN1_STRING_FLAG_BITS_LEFT \<noteq> 0"
    and "ucast ((f AND NOT (ASN1_STRING_FLAG_BITS_LEFT OR 0x07) OR (ASN1_STRING_FLAG_BITS_LEFT OR ucast b)) AND 0x07) = (b :: u8)"
proof -
  let ?f = "f AND NOT (ASN1_STRING_FLAG_BITS_LEFT OR 0x07) OR (ASN1_STRING_FLAG_BITS_LEFT OR ucast b)"
  have "?f AND ASN1_STRING_FLAG_BITS_LEFT = ASN1_STRING_FLAG_BITS_LEFT"
    by (rule bit_word_eqI) (auto simp: bit_simps)
  then show "?f AND ASN1_STRING_FLAG_BITS_LEFT \<noteq> 0" by (simp add: ASN1_STRING_FLAG_BITS_LEFT_def)
  have b: "take_bit 3 b = b" using assms by (simp add: take_bit_nat_eq_self_iff word_unat_eq_iff unsigned_take_bit_eq)
  have 7: "(0x07 :: u64) = mask 3" by (simp add: mask_eq_exp_minus_1)
  have 8: "bit ASN1_STRING_FLAG_BITS_LEFT n \<longleftrightarrow> n = 3" for n
  proof -
    have "ASN1_STRING_FLAG_BITS_LEFT = push_bit 3 1" by (simp add: ASN1_STRING_FLAG_BITS_LEFT_def)
    then have "bit ASN1_STRING_FLAG_BITS_LEFT n = bit (push_bit 3 1 :: u64) n" by (rule arg_cong)
    then show ?thesis unfolding bit_push_bit_iff by (auto simp: bit_1_iff)
  qed
  have "(ucast (?f AND 0x07) :: u8) = take_bit 3 b"
    unfolding 7 by (rule bit_word_eqI) (auto simp: bit_and_iff bit_or_iff bit_not_iff bit_unsigned_iff bit_mask_iff bit_take_bit_iff 8)
  with b show "(ucast (?f AND 0x07) :: u8) = b" by simp
qed

lemma bits_has_bit:
  assumes "CBS_is_valid_asn1_bitstring (b # p)" "i < 2 ^ 31"
  shows "CBS_asn1_bitstring_has_bit (b # p) (word_of_nat i) = bits_at p i"
proof -
  have u: "unat (word_of_nat i :: u32) = i" using assms(2) by (simp add: unat_of_nat)
  have "unat (drop_bit 3 (word_of_nat i :: u32)) = i div 8" by (simp add: unat_drop_bit_div u)
  moreover have "i div 8 + 1 < 2 ^ 32" using assms(2) by simp
  ultimately have w: "unat (drop_bit 3 (word_of_nat i :: u32) + 1) = Suc (i div 8)"
    by (simp add: unat_word_ariths(1))
  have "unat ((word_of_nat i :: u32) AND 7) = i mod 8"
    using unat_and_mask [of "word_of_nat i :: u32" 3] u by (simp add: mask_eq_exp_minus_1)
  then have "unat (7 - (word_of_nat i AND 7 :: u32)) = 7 - i mod 8"
    by (subst unat_sub) (auto simp: word_le_nat_alt)
  with w assms(1) show ?thesis
    by (simp add: CBS_asn1_bitstring_has_bit_def bits_at_def Let_def and_exp_eq_0_iff_not_bit)
qed

lemma c2i_bit_string:
  assumes len: "length c \<le> INT_MAX" and al: "always_allocates al"
  shows "if CBS_is_valid_asn1_bitstring c
    then \<exists>s. c2i_ASN1_BIT_STRING al None (c @ r) (int (length c)) = Some (True, Some s, r) \<and> as_wf s
      \<and> as_bytes s = tl c \<and> asn1_bit_string_length s = Some (length (tl c), hd c)
    else c2i_ASN1_BIT_STRING al None (c @ r) (int (length c)) = Some (False, None, c @ r)"
proof (cases c)
  case Nil
  then show ?thesis by (simp add: CBS_is_valid_asn1_bitstring_def cbs_simps c2i_ASN1_BIT_STRING_def)
next
  case (Cons b p)
  have "sizeof_asn1_string + 8 < 2 ^ 64" by (simp add: sizeof_asn1_string_def)
  with al obtain m where "OPENSSL_malloc al sizeof_asn1_string = Some m" by (rule OPENSSL_malloc_succeeds)
  then have new: "ASN1_STRING_type_new al V_ASN1_BIT_STRING
      = Some \<lparr>as_length = 0, as_type = V_ASN1_BIT_STRING, as_data = None, as_flags = 0\<rparr>"
    by (simp add: ASN1_STRING_type_new_def)
  have m: "push_bit k 1 - 1 = (mask k :: u8)" "2 ^ k - 1 = (mask k :: u8)" "nat (1 + int n) = Suc n" for k n
    by (simp_all add: mask_eq_exp_minus_1)
  have last: "p \<noteq> [] \<Longrightarrow> (p @ r) ! (length p - 1) = last p" by (simp add: nth_append last_conv_nth)
  show ?thesis
  proof (cases "CBS_is_valid_asn1_bitstring c")
    case False
    then have "7 < unat b \<or> (b \<noteq> 0 \<and> (p = [] \<or> last p AND mask (unat b) \<noteq> 0))"
      unfolding Cons valid_bitstring_Cons take_bit_eq_mask by auto
    with False Cons len last show ?thesis
      by (cases "p = []") (auto simp: c2i_ASN1_BIT_STRING_def new Let_def m word_less_nat_alt)
  next
    case True
    then have v: "unat b \<le> 7" "b = 0 \<or> p \<noteq> [] \<and> last p AND mask (unat b) = 0"
      unfolding Cons valid_bitstring_Cons take_bit_eq_mask by auto
    let ?d = "if p = [] then None else Some p"
    let ?s = "\<lparr>as_length = length p, as_type = V_ASN1_BIT_STRING, as_data = ?d,
        as_flags = 0 AND NOT (ASN1_STRING_FLAG_BITS_LEFT OR 0x07) OR (ASN1_STRING_FLAG_BITS_LEFT OR ucast b)\<rparr>"
    have dup: "OPENSSL_memdup al (p @ r) (length p) = Some p" if "p \<noteq> []"
    proof -
      have "length p + 8 < 2 ^ 64" using len Cons by (simp add: INT_MAX_def)
      with al obtain x where "OPENSSL_malloc al (length p) = Some x" "length x = length p" by (rule OPENSSL_malloc_succeeds)
      with that show ?thesis by (simp add: OPENSSL_memdup_def)
    qed
    have "c2i_ASN1_BIT_STRING al None (c @ r) (int (length c)) = Some (True, Some ?s, r)"
      using Cons len last dup v by (cases "p = []") (auto simp: c2i_ASN1_BIT_STRING_def new Let_def m word_less_nat_alt)
    moreover have "as_wf ?s" "as_bytes ?s = p" by (simp_all add: as_wf_def as_bytes_def)
    moreover have "asn1_bit_string_length ?s = Some (length p, b)"
      using padding_flags [OF v(1), of 0] v(2) by (auto simp: asn1_bit_string_length_def)
    ultimately show ?thesis using True Cons by auto
  qed
qed

lemma i2c_bit_string:
  assumes "as_wf s" "as_bytes s = p" "asn1_bit_string_length s = Some (length p, b)"
    and "CBS_is_valid_asn1_bitstring (b # p)" "length p < INT_MAX"
  shows "i2c_ASN1_BIT_STRING (Some s) True = Some (int (length (b # p)), b # p)"
proof (cases "p = []")
  case True
  with assms(3,5) show ?thesis by (simp add: i2c_ASN1_BIT_STRING_def)
next
  case False
  with assms(1,2) obtain d where d: "as_data s = Some d" "take (length p) d = p" "length p \<le> length d"
    using length_as_bytes [OF assms(1)] by (auto simp: as_bytes_def as_wf_def split: option.splits)
  have "take_bit (unat b) (last p) = 0" using assms(4) False by (auto simp: valid_bitstring_Cons)
  then have "last p AND push_bit (unat b) (mask 8) = last p" by (rule clear_low_bits)
  moreover have "(0xff :: u8) = mask 8" by (simp add: mask_eq_exp_minus_1)
  ultimately have "p ! (length p - 1) AND push_bit (unat b) 0xff = p ! (length p - 1)"
    using last_conv_nth [OF False] by metis
  then have "p[length p - 1 := p ! (length p - 1) AND push_bit (unat b) 0xff] = p" by (simp only: list_update_id)
  moreover have "d ! (length p - 1) = p ! (length p - 1)"
    using d(2) False by (metis diff_less length_greater_0_conv nth_take zero_less_one)
  moreover have "\<not> INT_MAX - 1 < length p" using assms(5) by linarith
  ultimately show ?thesis using False d assms(3) by (simp add: i2c_ASN1_BIT_STRING_def Let_def)
qed

section \<open>Properties\<close>

text \<open>
  Claim C19.  What \<open>ASN1_put_object\<close> writes in front of some contents, \<open>ASN1_get_object\<close> reads back: the
  tag, the class, the constructed bit and the length, and it leaves the pointer at the contents;
  the header is the DER header of the tag, and \<open>ASN1_object_size\<close> says how many bytes header and
  contents take.
\<close>

theorem object_header_roundtrip:
  assumes "asn1_class xclass" "k < 2 ^ 29" "xclass = 0 \<longrightarrow> 0 < k \<and> k \<le> 0xff" "constructed \<noteq> 2"
    and "length p \<le> INT_MAX div 2"
  shows "ASN1_get_object (ASN1_put_object constructed (int (length p)) (int k) xclass @ p @ r)
      (ASN1_object_size constructed (int (length p)) (int k) + int (length r))
      = Some (Some (if constructed \<noteq> 0 then V_ASN1_CONSTRUCTED else 0, p @ r, length p, int k, xclass))
    \<and> ASN1_put_object constructed (int (length p)) (int k) xclass @ p = der_element (object_tag constructed xclass k) p
    \<and> ASN1_object_size constructed (int (length p)) (int k)
      = int (length (der_element (object_tag constructed xclass k) p))"
proof -
  have p: "length p < 2 ^ 30" "length p < 2 ^ 31" using assms(5) by (simp_all add: INT_MAX_def)
  have "ASN1_put_object constructed (int (length p)) (int k) xclass @ p = der_element (object_tag constructed xclass k) p"
    by (simp add: put_object_header [OF assms(1,2) p(2) assms(4)] der_element_def)
  with object_roundtrip [OF assms(1,2) _ assms(5,4), of r] assms(3) object_size_header [OF assms(1,2) p(1) assms(4)]
  show ?thesis by (metis length_append)
qed

theorem object_header_roundtrip_witness:
  "ASN1_get_object (ASN1_put_object 1 2 200 0x80 @ [5, 6] @ [7]) (ASN1_object_size 1 2 200 + 1)
    = Some (Some (0x20, [5, 6, 7], 2, 200, 0x80))"
  using conjunct1 [OF object_header_roundtrip [of "0x80" 200 1 "[5, 6]" "[7]"]] by (simp add: INT_MAX_def V_ASN1_CONSTRUCTED_def)

text \<open>
  Claim C18.  A BIT STRING is an array of bits: \<open>ASN1_BIT_STRING_set_bit\<close> is defined on every well-formed
  string, keeps it well-formed, sets the bit it is asked to and no other, whether the string has to
  grow or loses trailing zeros, and changes no bit when it runs out of memory, which is the only way
  to fail.
\<close>

theorem bit_string_array:
  assumes "as_wf a" "i < 2 ^ 31"
  shows "\<exists>ok a'. ASN1_BIT_STRING_set_bit al (Some a) (int i) value = Some (ok, Some a') \<and> as_wf a'
    \<and> (always_allocates al \<longrightarrow> ok)
    \<and> (\<forall>j. ASN1_BIT_STRING_get_bit (Some a') (int j)
          = (if ok \<and> j = i then Some (value \<noteq> 0) else ASN1_BIT_STRING_get_bit (Some a) (int j)))"
proof -
  from set_bit_spec [OF assms, of al "value"] obtain ok a' where
    s: "ASN1_BIT_STRING_set_bit al (Some a) (int i) value = Some (ok, Some a')" "as_wf a'"
    "\<forall>j. bits_at (as_bytes a') j = (if ok \<and> j = i then value \<noteq> 0 else bits_at (as_bytes a) j)"
    "always_allocates al \<Longrightarrow> ok" by blast
  then show ?thesis by (intro exI [of _ ok] exI [of _ a']) (simp add: get_bit_eq assms(1))
qed

definition example_bits :: asn1_string where
  "example_bits = \<lparr>as_length = 1, as_type = V_ASN1_BIT_STRING, as_data = Some [0x80, 9], as_flags = 0\<rparr>"

theorem bit_string_array_witness:
  "\<exists>a'. ASN1_BIT_STRING_set_bit (\<lambda>_. Some (\<lambda>_. 1)) (Some example_bits) 17 1 = Some (True, Some a')
    \<and> ASN1_BIT_STRING_get_bit (Some a') 17 = Some True \<and> ASN1_BIT_STRING_get_bit (Some a') 12 = Some False"
proof -
  have wf: "as_wf example_bits" by (simp add: as_wf_def example_bits_def)
  have "ASN1_BIT_STRING_get_bit (Some example_bits) 12 = Some False"
    using get_bit_eq [OF wf, of 12] by (simp add: bits_at_def as_bytes_def example_bits_def)
  moreover from bit_string_array [OF wf, of 17 "\<lambda>_. Some (\<lambda>_. 1)" 1] obtain ok a' where
    a': "ASN1_BIT_STRING_set_bit (\<lambda>_. Some (\<lambda>_. 1)) (Some example_bits) (int 17) 1 = Some (ok, Some a')" "ok"
    "\<forall>j. ASN1_BIT_STRING_get_bit (Some a') (int j)
      = (if ok \<and> j = 17 then Some True else ASN1_BIT_STRING_get_bit (Some example_bits) (int j))"
    by (auto simp: always_allocates_def)
  moreover from a'(2) spec [OF a'(3), of 17] spec [OF a'(3), of 12] have "ASN1_BIT_STRING_get_bit (Some a') (int 17) = Some True"
    "ASN1_BIT_STRING_get_bit (Some a') (int 12) = ASN1_BIT_STRING_get_bit (Some example_bits) (int 12)" by simp_all
  ultimately show ?thesis by simp
qed

text \<open>
  Claim C20.  The two BIT STRING parsers agree: \<open>c2i_ASN1_BIT_STRING\<close> accepts exactly the contents that
  \<open>CBS_is_valid_asn1_bitstring\<close> accepts, each bit of the string it gives is the one that
  \<open>CBS_asn1_bitstring_has_bit\<close> finds, \<open>i2c_ASN1_BIT_STRING\<close> writes the same contents back, and what is
  refused leaves the input where it was.
\<close>

theorem bit_string_parsers_agree:
  assumes "always_allocates al" "length c \<le> INT_MAX"
  shows "if CBS_is_valid_asn1_bitstring c
    then \<exists>s. c2i_ASN1_BIT_STRING al None (c @ r) (int (length c)) = Some (True, Some s, r)
      \<and> i2c_ASN1_BIT_STRING (Some s) True = Some (int (length c), c)
      \<and> (\<forall>i < 2 ^ 31. ASN1_BIT_STRING_get_bit (Some s) (int i) = Some (CBS_asn1_bitstring_has_bit c (word_of_nat i)))
    else c2i_ASN1_BIT_STRING al None (c @ r) (int (length c)) = Some (False, None, c @ r)"
proof (cases "CBS_is_valid_asn1_bitstring c")
  case False
  with c2i_bit_string [OF assms(2,1), of r] show ?thesis by simp
next
  case True
  then obtain b p where c: "c = b # p" by (cases c) (auto simp: CBS_is_valid_asn1_bitstring_def cbs_simps)
  from True c2i_bit_string [OF assms(2,1), of r] c obtain s where
    s: "c2i_ASN1_BIT_STRING al None (c @ r) (int (length c)) = Some (True, Some s, r)" "as_wf s" "as_bytes s = p"
    "asn1_bit_string_length s = Some (length p, b)" by auto
  have "i2c_ASN1_BIT_STRING (Some s) True = Some (int (length c), c)"
    unfolding c by (rule i2c_bit_string [OF s(2-4)]) (use True assms(2) c in auto)
  moreover have "\<forall>i < 2 ^ 31. ASN1_BIT_STRING_get_bit (Some s) (int i) = Some (CBS_asn1_bitstring_has_bit c (word_of_nat i))"
    using True c by (auto simp: get_bit_eq [OF s(2)] s(3) bits_has_bit)
  ultimately show ?thesis using True s(1) by auto
qed

theorem bit_string_parsers_agree_witness:
  "(\<exists>s. c2i_ASN1_BIT_STRING (\<lambda>_. Some (\<lambda>_. 1)) None [4, 0xb0, 7] 2 = Some (True, Some s, [7]))
   \<and> c2i_ASN1_BIT_STRING (\<lambda>_. Some (\<lambda>_. 1)) None [4, 0xb1] 2 = Some (False, None, [4, 0xb1])"
proof -
  have al: "always_allocates (\<lambda>_. Some (\<lambda>_. 1))" by (simp add: always_allocates_def)
  have "CBS_is_valid_asn1_bitstring [4, 0xb0]" "\<not> CBS_is_valid_asn1_bitstring [4, 0xb1]" by code_simp+
  with bit_string_parsers_agree [OF al, of "[4, 0xb0]" "[7]"] bit_string_parsers_agree [OF al, of "[4, 0xb1]" "[]"]
  show ?thesis by (auto simp: INT_MAX_def)
qed

end
