(* ===== verification/Mbstring.thy ===== *)
theory Mbstring imports Asn1Spec Der begin

text \<open>
  \<open>crypto/asn1/a_mbstr.c\<close>: strings are converted to the smallest ASN.1 string type that holds
  them.  The operations first, then the types as a table, and what the conversion does: a copy is
  the same text in the encoding of its type.
\<close>

section \<open>The operations\<close>

definition B_ASN1_PRINTABLESTRING :: u64 where "B_ASN1_PRINTABLESTRING = 0x0002"
definition B_ASN1_T61STRING :: u64 where "B_ASN1_T61STRING = 0x0004"
definition B_ASN1_IA5STRING :: u64 where "B_ASN1_IA5STRING = 0x0010"
definition B_ASN1_UNIVERSALSTRING :: u64 where "B_ASN1_UNIVERSALSTRING = 0x0100"
definition B_ASN1_BMPSTRING :: u64 where "B_ASN1_BMPSTRING = 0x0800"
definition B_ASN1_UTF8STRING :: u64 where "B_ASN1_UTF8STRING = 0x2000"
definition DIRSTRING_TYPE :: u64 where
  "DIRSTRING_TYPE = B_ASN1_PRINTABLESTRING OR B_ASN1_T61STRING OR B_ASN1_BMPSTRING OR B_ASN1_UTF8STRING"

definition V_ASN1_UTF8STRING :: int where "V_ASN1_UTF8STRING = 12"
definition V_ASN1_PRINTABLESTRING :: int where "V_ASN1_PRINTABLESTRING = 19"
definition V_ASN1_T61STRING :: int where "V_ASN1_T61STRING = 20"
definition V_ASN1_IA5STRING :: int where "V_ASN1_IA5STRING = 22"
definition V_ASN1_UNIVERSALSTRING :: int where "V_ASN1_UNIVERSALSTRING = 28"
definition V_ASN1_BMPSTRING :: int where "V_ASN1_BMPSTRING = 30"

definition MBSTRING_FLAG :: int where "MBSTRING_FLAG = 0x1000"
definition MBSTRING_UTF8 :: int where "MBSTRING_UTF8 = MBSTRING_FLAG"
definition MBSTRING_ASC :: int where "MBSTRING_ASC = MBSTRING_FLAG OR 1"
definition MBSTRING_BMP :: int where "MBSTRING_BMP = MBSTRING_FLAG OR 2"
definition MBSTRING_UNIV :: int where "MBSTRING_UNIV = MBSTRING_FLAG OR 4"

text \<open>The results that are errors, with the reason that is put in the error queue.\<close>

datatype mb_error = INVALID_BMPSTRING | INVALID_UNIVERSALSTRING | INVALID_UTF8STRING | INTERNAL_ERROR
  | UNKNOWN_FORMAT | ILLEGAL_CHARACTERS | STRING_TOO_LONG | STRING_TOO_SHORT | MALLOC_FAILURE

definition asn1_is_printable :: "u32 \<Rightarrow> bool" where
  "asn1_is_printable v =
     (if 0x7f < v then False
      else OPENSSL_isalnum (int (unat v)) \<or> v = 0x20 \<or> v = 0x27 \<or> v = 0x28 \<or> v = 0x29 \<or> v = 0x2b \<or> v = 0x2c
        \<or> v = 0x2d \<or> v = 0x2e \<or> v = 0x2f \<or> v = 0x3a \<or> v = 0x3d \<or> v = 0x3f)"

definition mb_decode :: "int \<Rightarrow> (u32 reader \<times> mb_error) option" where
  "mb_decode inform =
     (if inform = MBSTRING_BMP then Some (CBS_get_ucs2_be, INVALID_BMPSTRING)
      else if inform = MBSTRING_UNIV then Some (CBS_get_utf32_be, INVALID_UNIVERSALSTRING)
      else if inform = MBSTRING_UTF8 then Some (CBS_get_utf8, INVALID_UTF8STRING)
      else if inform = MBSTRING_ASC then Some (CBS_get_latin1, INTERNAL_ERROR)
      else None)"

definition mb_restrict :: "u32 \<Rightarrow> u64 \<Rightarrow> u64" where
  "mb_restrict c mask' =
     (let drop_if = (\<lambda>cond b m. if m AND b \<noteq> 0 \<and> cond then m AND NOT b else m)
      in drop_if (0xffff < c) B_ASN1_BMPSTRING
          (drop_if (0xff < c) B_ASN1_T61STRING
            (drop_if (127 < c) B_ASN1_IA5STRING
              (drop_if (\<not> asn1_is_printable c) B_ASN1_PRINTABLESTRING mask'))))"

partial_function (option) mb_scan ::
  "u32 reader \<Rightarrow> mb_error \<Rightarrow> int \<Rightarrow> int \<Rightarrow> bytes \<Rightarrow> u64 \<Rightarrow> nat \<Rightarrow> nat \<Rightarrow> (mb_error + u64 \<times> nat \<times> nat) option" where
  "mb_scan decode error inform maxsize cbs mask' nchar utf8_len =
     (if length cbs = 0 then Some (Inr (mask', nchar, utf8_len))
      else case decode cbs of
        (None, _) \<Rightarrow> Some (Inl error)
      | (Some c, cbs) \<Rightarrow>
          if nchar = 0 \<and> (inform = MBSTRING_BMP \<or> inform = MBSTRING_UNIV) \<and> c = 0xfeff
          then Some (Inl ILLEGAL_CHARACTERS)
          else if mb_restrict c mask' = 0 then Some (Inl ILLEGAL_CHARACTERS)
          else if 0 < maxsize \<and> nat maxsize < nchar + 1 then Some (Inl STRING_TOO_LONG)
          else mb_scan decode error inform maxsize cbs (mb_restrict c mask') (nchar + 1) (size_add utf8_len (CBB_get_utf8_len c)))"

text \<open>The type, the size estimate, the output form and the writer.\<close>

definition mb_choose ::
  "u64 \<Rightarrow> nat \<Rightarrow> nat \<Rightarrow> (int \<times> nat \<times> int \<times> (allocator \<Rightarrow> cbb_ptr \<Rightarrow> u32 \<Rightarrow> cbb \<Rightarrow> bool \<times> cbb)) option" where
  "mb_choose mask' nchar utf8_len =
     (if mask' AND B_ASN1_PRINTABLESTRING \<noteq> 0 then Some (V_ASN1_PRINTABLESTRING, nchar, MBSTRING_ASC, CBB_add_latin1)
      else if mask' AND B_ASN1_IA5STRING \<noteq> 0 then Some (V_ASN1_IA5STRING, nchar, MBSTRING_ASC, CBB_add_latin1)
      else if mask' AND B_ASN1_T61STRING \<noteq> 0 then Some (V_ASN1_T61STRING, nchar, MBSTRING_ASC, CBB_add_latin1)
      else if mask' AND B_ASN1_BMPSTRING \<noteq> 0 then Some (V_ASN1_BMPSTRING, size_mul 2 nchar, MBSTRING_BMP, CBB_add_ucs2_be)
      else if mask' AND B_ASN1_UNIVERSALSTRING \<noteq> 0 then Some (V_ASN1_UNIVERSALSTRING, size_mul 4 nchar, MBSTRING_UNIV, CBB_add_utf32_be)
      else if mask' AND B_ASN1_UTF8STRING \<noteq> 0 then Some (V_ASN1_UTF8STRING, utf8_len, MBSTRING_UTF8, CBB_add_utf8)
      else None)"

partial_function (option) mb_convert ::
  "u32 reader \<Rightarrow> (u32 \<Rightarrow> cbb \<Rightarrow> bool \<times> cbb) \<Rightarrow> bytes \<Rightarrow> cbb \<Rightarrow> (bool \<times> cbb) option" where
  "mb_convert decode encode cbs cbb =
     (if length cbs = 0 then Some (True, cbb)
      else case decode cbs of
        (None, _) \<Rightarrow> Some (False, cbb)
      | (Some c, cbs) \<Rightarrow>
          (case encode c cbb of (ok, cbb) \<Rightarrow>
             if \<not> ok then Some (False, cbb) else mb_convert decode encode cbs cbb))"

text \<open>
  \<open>out\<close> is the caller's pointer to a pointer: \<open>None\<close> if it is null, \<open>Some None\<close> if it points to null.
  The result is an error or the type and the string that the pointer points to afterwards; on an
  error it is as before.  The builder has the address 0.
\<close>

definition ASN1_mbstring_ncopy ::
  "allocator \<Rightarrow> asn1_string option option \<Rightarrow> bytes \<Rightarrow> int \<Rightarrow> int \<Rightarrow> u64 \<Rightarrow> int \<Rightarrow> int
    \<Rightarrow> (mb_error + int \<times> asn1_string option) option" where
  "ASN1_mbstring_ncopy al out inp len inform mask' minsize maxsize = do {
     ensure (if len = -1 then 0 \<in> set inp else 0 \<le> len \<and> nat len \<le> length inp);
     let len = (if len = -1 then strlen inp else nat len);
     let mask' = (if mask' = 0 then DIRSTRING_TYPE else mask');
     case mb_decode inform of None \<Rightarrow> Some (Inl UNKNOWN_FORMAT)
     | Some (decode, error) \<Rightarrow> do {
         scan \<leftarrow> mb_scan decode error inform maxsize (take len inp) mask' 0 0;
         case scan of Inl e \<Rightarrow> Some (Inl e)
         | Inr (mask', nchar, utf8_len) \<Rightarrow>
             if 0 < minsize \<and> nchar < nat minsize then Some (Inl STRING_TOO_SHORT)
             else case mb_choose mask' nchar utf8_len of None \<Rightarrow> Some (Inl ILLEGAL_CHARACTERS)
             | Some (str_type, size_estimate, outform, encode) \<Rightarrow>
                 case out of None \<Rightarrow> Some (Inr (str_type, None))
                 | Some ptr \<Rightarrow>
                     case (case ptr of Some dest \<Rightarrow> Some dest | None \<Rightarrow> ASN1_STRING_type_new al str_type) of
                       None \<Rightarrow> Some (Inl MALLOC_FAILURE)
                     | Some dest \<Rightarrow>
                         if inform = outform then do {
                           (ok, dest) \<leftarrow> ASN1_STRING_set al dest (Some inp) (int len);
                           Some (if ok then Inr (str_type, Some (dest\<lparr>as_type := str_type\<rparr>)) else Inl MALLOC_FAILURE)
                         }
                         else case CBB_init al 0 (size_add size_estimate 1) of None \<Rightarrow> Some (Inl MALLOC_FAILURE)
                         | Some cbb \<Rightarrow> do {
                             (ok, cbb) \<leftarrow> mb_convert decode (encode al 0) (take len inp) cbb;
                             if \<not> ok then Some (Inl INTERNAL_ERROR)
                             else case CBB_add_u8 al 0 0 cbb of (False, _) \<Rightarrow> Some (Inl INTERNAL_ERROR)
                             | (True, cbb) \<Rightarrow>
                                 (case CBB_finish al 0 cbb of (None, _) \<Rightarrow> Some (Inl INTERNAL_ERROR)
                                  | (Some (data, data_len), _) \<Rightarrow>
                                      if data_len < 1 \<or> INT_MAX < data_len then Some (Inl INTERNAL_ERROR)
                                      else Some (Inr (str_type,
                                        Some (ASN1_STRING_set0 (dest\<lparr>as_type := str_type\<rparr>) (Some data) (data_len - 1)))))
                           }
       }
   }"

definition ASN1_mbstring_copy ::
  "allocator \<Rightarrow> asn1_string option option \<Rightarrow> bytes \<Rightarrow> int \<Rightarrow> int \<Rightarrow> u64 \<Rightarrow> (mb_error + int \<times> asn1_string option) option" where
  "ASN1_mbstring_copy al out inp len inform mask' = ASN1_mbstring_ncopy al out inp len inform mask' 0 0"

section \<open>The scan\<close>

text \<open>The characters of a PrintableString (X.680): letters, digits, and the twelve characters listed.\<close>

definition printable_char :: "u32 \<Rightarrow> bool" where
  "printable_char c \<longleftrightarrow> unat c \<in> {of_char (CHR ''A'')..of_char (CHR ''Z'')} \<union> {of_char (CHR ''a'')..of_char (CHR ''z'')}
     \<union> {of_char (CHR ''0'')..of_char (CHR ''9'')} \<union> of_char ` set '' ()+,-./:=?'' \<union> {39}"

lemma printable_char: "asn1_is_printable = printable_char"
proof
  fix c :: u32
  have "\<forall>n \<in> set [0..<128]. asn1_is_printable (word_of_nat n) = printable_char (word_of_nat n)" by code_simp
  moreover have "word_of_nat (unat c) = c" by simp
  moreover have "\<not> asn1_is_printable c \<and> \<not> printable_char c" if "\<not> unat c < 128"
    using that by (auto simp: asn1_is_printable_def printable_char_def word_less_nat_alt)
  ultimately show "asn1_is_printable c = printable_char c"
    by (metis atLeastLessThan_iff atLeastLessThan_upt le0)
qed

text \<open>What each type can hold, in the order in which the code prefers them, and its encoding.\<close>

definition mb_types :: "(u64 \<times> int \<times> (u32 \<Rightarrow> bool) \<times> (u32 \<Rightarrow> bytes)) list" where
  "mb_types =
     [(B_ASN1_PRINTABLESTRING, V_ASN1_PRINTABLESTRING, printable_char, latin1_bytes),
      (B_ASN1_IA5STRING, V_ASN1_IA5STRING, \<lambda>c. c \<le> 127, latin1_bytes),
      (B_ASN1_T61STRING, V_ASN1_T61STRING, \<lambda>c. c \<le> 0xff, latin1_bytes),
      (B_ASN1_BMPSTRING, V_ASN1_BMPSTRING, \<lambda>c. c \<le> 0xffff, ucs2_bytes),
      (B_ASN1_UNIVERSALSTRING, V_ASN1_UNIVERSALSTRING, \<lambda>_. True, utf32_bytes),
      (B_ASN1_UTF8STRING, V_ASN1_UTF8STRING, \<lambda>_. True, utf8_bytes)]"

lemma and_bits:
  "m AND B_ASN1_PRINTABLESTRING \<noteq> 0 \<longleftrightarrow> bit m 1" "m AND B_ASN1_IA5STRING \<noteq> 0 \<longleftrightarrow> bit m 4"
  "m AND B_ASN1_T61STRING \<noteq> 0 \<longleftrightarrow> bit m 2" "m AND B_ASN1_BMPSTRING \<noteq> 0 \<longleftrightarrow> bit m 11"
  "m AND B_ASN1_UNIVERSALSTRING \<noteq> 0 \<longleftrightarrow> bit m 8" "m AND B_ASN1_UTF8STRING \<noteq> 0 \<longleftrightarrow> bit m 13"
  using and_exp_eq_0_iff_not_bit [of m 1] and_exp_eq_0_iff_not_bit [of m 4] and_exp_eq_0_iff_not_bit [of m 2]
    and_exp_eq_0_iff_not_bit [of m 11] and_exp_eq_0_iff_not_bit [of m 8] and_exp_eq_0_iff_not_bit [of m 13]
  by (simp_all add: B_ASN1_PRINTABLESTRING_def B_ASN1_IA5STRING_def B_ASN1_T61STRING_def B_ASN1_BMPSTRING_def
      B_ASN1_UNIVERSALSTRING_def B_ASN1_UTF8STRING_def)

lemma clear_bit: "bit (m AND NOT (push_bit k 1)) n \<longleftrightarrow> bit m n \<and> n \<noteq> k" for m :: u64
  by (auto simp: bit_and_iff bit_not_iff bit_exp_iff dest: bit_imp_le_length)

lemma clear_bits:
  "bit (m AND NOT B_ASN1_PRINTABLESTRING) n \<longleftrightarrow> bit m n \<and> n \<noteq> 1" "bit (m AND NOT B_ASN1_IA5STRING) n \<longleftrightarrow> bit m n \<and> n \<noteq> 4"
  "bit (m AND NOT B_ASN1_T61STRING) n \<longleftrightarrow> bit m n \<and> n \<noteq> 2" "bit (m AND NOT B_ASN1_BMPSTRING) n \<longleftrightarrow> bit m n \<and> n \<noteq> 11"
  using clear_bit [of m 1 n] clear_bit [of m 4 n] clear_bit [of m 2 n] clear_bit [of m 11 n]
  by (simp_all add: B_ASN1_PRINTABLESTRING_def B_ASN1_IA5STRING_def B_ASN1_T61STRING_def B_ASN1_BMPSTRING_def)

definition mb_allows :: "nat \<Rightarrow> u32 \<Rightarrow> bool" where
  "mb_allows n c \<longleftrightarrow> (n = 1 \<longrightarrow> asn1_is_printable c) \<and> (n = 4 \<longrightarrow> c \<le> 127) \<and> (n = 2 \<longrightarrow> c \<le> 0xff) \<and> (n = 11 \<longrightarrow> c \<le> 0xffff)"

lemma bit_drop:
  fixes m b :: u64
  assumes "m AND b \<noteq> 0 \<longleftrightarrow> bit m k" "bit (m AND NOT b) n \<longleftrightarrow> bit m n \<and> n \<noteq> k"
  shows "bit (if m AND b \<noteq> 0 \<and> cond then m AND NOT b else m) n \<longleftrightarrow> bit m n \<and> (n = k \<longrightarrow> \<not> cond)"
  using assms by auto

lemma bit_mb_restrict: "bit (mb_restrict c m) n \<longleftrightarrow> bit m n \<and> mb_allows n c"
  unfolding mb_restrict_def Let_def bit_drop [OF and_bits(1) clear_bits(1)] bit_drop [OF and_bits(2) clear_bits(2)]
    bit_drop [OF and_bits(3) clear_bits(3)] bit_drop [OF and_bits(4) clear_bits(4)] mb_allows_def
  by (simp add: not_less not_le)

lemma bit_fold_restrict: "bit (fold mb_restrict us m) n \<longleftrightarrow> bit m n \<and> (\<forall>u \<in> set us. mb_allows n u)"
  by (induction us arbitrary: m) (auto simp: bit_mb_restrict)

lemma fold_restrict_zero: "fold mb_restrict us (0 :: u64) = 0"
  by (rule bit_word_eqI) (simp add: bit_fold_restrict)

lemma latin1_is_ascii: "asn1_is_printable c \<Longrightarrow> c \<le> 127"
  by (auto simp: asn1_is_printable_def not_less split: if_splits)

text \<open>The type that the table gives for a text.\<close>

definition mb_type :: "u64 \<Rightarrow> u32 list \<Rightarrow> (int \<times> (u32 \<Rightarrow> bytes)) option" where
  "mb_type m us = map_option (\<lambda>(_, t, _, enc). (t, enc)) (find (\<lambda>(b, _, ok, _). m AND b \<noteq> 0 \<and> list_all ok us) mb_types)"

lemma mb_type_nonzero: "mb_type m us = Some t \<Longrightarrow> fold mb_restrict us m \<noteq> 0"
proof
  assume t: "mb_type m us = Some t" and z: "fold mb_restrict us m = 0"
  have "\<not> bit (fold mb_restrict us m) n" for n unfolding z by simp
  then have "bit m n \<Longrightarrow> \<not> (\<forall>u \<in> set us. mb_allows n u)" for n by (simp add: bit_fold_restrict)
  note n = this [of 1] this [of 4] this [of 2] this [of 11] this [of 8] this [of 13]
  from t show False unfolding mb_type_def mb_types_def printable_char [symmetric]
    using n by (auto simp: and_bits mb_allows_def list_all_iff split: if_splits)
qed

text \<open>The size in characters, and the byte-order mark that is refused.\<close>

definition mb_fits :: "int \<Rightarrow> int \<Rightarrow> int \<Rightarrow> u32 list \<Rightarrow> bool" where
  "mb_fits inform minsize maxsize us \<longleftrightarrow>
     \<not> ((inform = MBSTRING_BMP \<or> inform = MBSTRING_UNIV) \<and> us \<noteq> [] \<and> hd us = 0xfeff)
     \<and> (0 < minsize \<longrightarrow> nat minsize \<le> length us) \<and> (0 < maxsize \<longrightarrow> length us \<le> nat maxsize)"

definition scan_fails :: "int \<Rightarrow> int \<Rightarrow> nat \<Rightarrow> u64 \<Rightarrow> u32 list \<Rightarrow> bool" where
  "scan_fails inform maxsize n m us \<longleftrightarrow> us \<noteq> [] \<and>
     (n = 0 \<and> (inform = MBSTRING_BMP \<or> inform = MBSTRING_UNIV) \<and> hd us = 0xfeff
      \<or> 0 < maxsize \<and> nat maxsize < n + length us \<or> fold mb_restrict us m = 0)"

lemma CBB_get_utf8_len_le: "size_add l (CBB_get_utf8_len c) \<le> l + 4"
proof -
  have "size_add l (CBB_get_utf8_len c) \<le> l + CBB_get_utf8_len c" by (simp add: size_add_def)
  also have "CBB_get_utf8_len c \<le> 4" by (simp add: CBB_get_utf8_len_def)
  finally show ?thesis by simp
qed

text \<open>A text through one writer.\<close>

primrec put_all :: "(u32 \<Rightarrow> cbb \<Rightarrow> bool \<times> cbb) \<Rightarrow> u32 list \<Rightarrow> cbb \<Rightarrow> bool \<times> cbb" where
  "put_all put [] = Pair True"
| "put_all put (u # us) = cbb_and (put u) (put_all put us)"

context charset begin

lemma scan_result:
  "case read_all dec c of
     None \<Rightarrow> \<exists>e. mb_scan dec err inform maxsize c m n l = Some (Inl e)
   | Some us \<Rightarrow>
       if scan_fails inform maxsize n m us then \<exists>e. mb_scan dec err inform maxsize c m n l = Some (Inl e)
       else \<exists>l'. mb_scan dec err inform maxsize c m n l = Some (Inr (fold mb_restrict us m, n + length us, l'))
         \<and> l' \<le> l + 4 * length us"
proof (induction "length c" arbitrary: c m n l rule: less_induct)
  case less
  show ?case
  proof (cases "c = []")
    case True
    then show ?thesis by (subst (1 2 3) mb_scan.simps) (simp add: scan_fails_def)
  next
    case False
    obtain r c' where d: "dec c = (r, c')" by fastforce
    show ?thesis
    proof (cases r)
      case None
      with d False have "read_all dec c = None" by (intro read_all_stop) auto
      with d None False show ?thesis by (subst (1 2 3) mb_scan.simps) simp
    next
      case (Some u)
      with d have du: "dec c = (Some u, c')" by simp
      note step = read_all_step [OF du]
      let ?now = "n = 0 \<and> (inform = MBSTRING_BMP \<or> inform = MBSTRING_UNIV) \<and> u = 0xfeff
          \<or> mb_restrict u m = 0 \<or> 0 < maxsize \<and> nat maxsize < n + 1"
      show ?thesis
      proof (cases ?now)
        case True
        have "\<exists>e. mb_scan dec err inform maxsize c m n l = Some (Inl e)"
          using True False du by (subst mb_scan.simps) auto
        moreover have "scan_fails inform maxsize n m (u # us)" for us
          using True by (auto simp: scan_fails_def fold_restrict_zero)
        ultimately show ?thesis by (simp add: step split: option.split)
      next
        case now: False
        let ?l = "size_add l (CBB_get_utf8_len u)"
        have "mb_scan dec err inform maxsize c m n l = mb_scan dec err inform maxsize c' (mb_restrict u m) (n + 1) ?l"
          using now False du by (subst mb_scan.simps) auto
        moreover have "scan_fails inform maxsize n m (u # us) = scan_fails inform maxsize (n + 1) (mb_restrict u m) us" for us
          using now by (cases "us = []") (auto simp: scan_fails_def)
        ultimately show ?thesis
          using less.hyps [OF progress [OF du], of "mb_restrict u m" "n + 1" ?l] CBB_get_utf8_len_le [of l u]
          by (auto simp: step simp del: fold_simps split: option.splits if_splits)
      qed
    qed
  qed
qed

lemma convert_put_all:
  "read_all dec c = Some us \<Longrightarrow> mb_convert dec put2 c st = Some (put_all put2 us st)"
proof (induction us arbitrary: c st)
  case Nil
  then have "c = []" by (simp add: read_all_iff)
  then show ?case by (subst mb_convert.simps) simp
next
  case (Cons u us)
  then have "c = enc u @ concat (map enc us)" "valid u" "\<forall>u \<in> set us. valid u" by (simp_all add: read_all_iff)
  then have d: "dec c = (Some u, concat (map enc us))" "read_all dec (concat (map enc us)) = Some us" "c \<noteq> []"
    using dec_enc nothing_is_no_item by (auto simp: read_all_iff)
  obtain ok st' where p: "put2 u st = (ok, st')" by fastforce
  show ?case
  proof (cases ok)
    case True
    with d p Cons.IH [OF d(2), of st'] show ?thesis by (subst mb_convert.simps) (simp add: cbb_and_def)
  next
    case False
    with d p show ?thesis by (subst mb_convert.simps) (simp add: cbb_and_def)
  qed
qed

lemma put_all_grows:
  "\<forall>u \<in> set us. valid u \<Longrightarrow>
    grows al p (concat (map enc us) @ [b]) (cbb_and (put_all (put al p) us) (CBB_add_u8 al p b))"
proof (induction us)
  case Nil
  have "cbb_and (Pair True) m = m" for m by (auto simp: cbb_and_def)
  then show ?case by (simp add: grows_u8)
next
  case (Cons u us)
  then show ?case using grows_and [OF put_valid [of u al p] Cons.IH] by (simp add: cbb_and_assoc)
qed

end

section \<open>The choice of the type\<close>

lemma and_fold_restrict:
  "fold mb_restrict us m AND B_ASN1_PRINTABLESTRING \<noteq> 0 \<longleftrightarrow> m AND B_ASN1_PRINTABLESTRING \<noteq> 0 \<and> list_all asn1_is_printable us"
  "fold mb_restrict us m AND B_ASN1_IA5STRING \<noteq> 0 \<longleftrightarrow> m AND B_ASN1_IA5STRING \<noteq> 0 \<and> list_all (\<lambda>c. c \<le> 127) us"
  "fold mb_restrict us m AND B_ASN1_T61STRING \<noteq> 0 \<longleftrightarrow> m AND B_ASN1_T61STRING \<noteq> 0 \<and> list_all (\<lambda>c. c \<le> 0xff) us"
  "fold mb_restrict us m AND B_ASN1_BMPSTRING \<noteq> 0 \<longleftrightarrow> m AND B_ASN1_BMPSTRING \<noteq> 0 \<and> list_all (\<lambda>c. c \<le> 0xffff) us"
  "fold mb_restrict us m AND B_ASN1_UNIVERSALSTRING \<noteq> 0 \<longleftrightarrow> m AND B_ASN1_UNIVERSALSTRING \<noteq> 0"
  "fold mb_restrict us m AND B_ASN1_UTF8STRING \<noteq> 0 \<longleftrightarrow> m AND B_ASN1_UTF8STRING \<noteq> 0"
  unfolding and_bits bit_fold_restrict by (simp_all add: mb_allows_def list_all_iff)

text \<open>An output form with its encoding and writer, able to hold a text.\<close>

inductive mb_form :: "int \<Rightarrow> (u32 \<Rightarrow> bytes) \<Rightarrow> (allocator \<Rightarrow> cbb_ptr \<Rightarrow> u32 \<Rightarrow> cbb \<Rightarrow> bool \<times> cbb) \<Rightarrow> u32 list \<Rightarrow> bool" where
  asc: "list_all (\<lambda>c. c \<le> 0xff) us \<Longrightarrow> mb_form MBSTRING_ASC latin1_bytes CBB_add_latin1 us"
| bmp: "list_all (\<lambda>c. c \<le> 0xffff) us \<Longrightarrow> mb_form MBSTRING_BMP ucs2_bytes CBB_add_ucs2_be us"
| univ: "mb_form MBSTRING_UNIV utf32_bytes CBB_add_utf32_be us"
| utf8: "mb_form MBSTRING_UTF8 utf8_bytes CBB_add_utf8 us"

inductive_cases mb_formE: "mb_form f enc put us"

lemma list_all_le: "list_all (\<lambda>c :: u32. c \<le> a) us \<Longrightarrow> a \<le> b \<Longrightarrow> list_all (\<lambda>c. c \<le> b) us"
  by (auto simp: list_all_iff)

lemma choose_type:
  "case mb_type m us of None \<Rightarrow> mb_choose (fold mb_restrict us m) n l = None
   | Some (t, enc) \<Rightarrow> \<exists>est f put. mb_choose (fold mb_restrict us m) n l = Some (t, est, f, put) \<and> mb_form f enc put us
       \<and> est \<le> 4 * n + l"
proof -
  have small: "(127 :: u32) \<le> 0xff" by simp
  have p: "list_all (\<lambda>c. c \<le> 0xff) us" if "list_all asn1_is_printable us"
    by (rule list_all_le [OF _ small]) (use that latin1_is_ascii in \<open>auto simp: list_all_iff\<close>)
  have sz: "size_mul 2 n \<le> 4 * n + l" "size_mul 4 n \<le> 4 * n + l"
    by (simp_all add: size_mul_def)
  let ?P = "m AND B_ASN1_PRINTABLESTRING \<noteq> 0 \<and> list_all asn1_is_printable us"
    and ?I = "m AND B_ASN1_IA5STRING \<noteq> 0 \<and> list_all (\<lambda>c. c \<le> 127) us"
    and ?T = "m AND B_ASN1_T61STRING \<noteq> 0 \<and> list_all (\<lambda>c. c \<le> 0xff) us"
    and ?B = "m AND B_ASN1_BMPSTRING \<noteq> 0 \<and> list_all (\<lambda>c. c \<le> 0xffff) us"
  have i: "list_all (\<lambda>c. c \<le> 0xff) us" if "list_all (\<lambda>c. c \<le> 127) us" using that small by (rule list_all_le)
  have type: "mb_type m us =
     (if ?P then Some (V_ASN1_PRINTABLESTRING, latin1_bytes) else if ?I then Some (V_ASN1_IA5STRING, latin1_bytes)
      else if ?T then Some (V_ASN1_T61STRING, latin1_bytes) else if ?B then Some (V_ASN1_BMPSTRING, ucs2_bytes)
      else if m AND B_ASN1_UNIVERSALSTRING \<noteq> 0 then Some (V_ASN1_UNIVERSALSTRING, utf32_bytes)
      else if m AND B_ASN1_UTF8STRING \<noteq> 0 then Some (V_ASN1_UTF8STRING, utf8_bytes) else None)"
    by (simp add: mb_type_def mb_types_def printable_char [symmetric] list_all_iff [of "\<lambda>_. True"])
  note choose = mb_choose_def [of "fold mb_restrict us m" n l, unfolded and_fold_restrict]
  consider ?P | "\<not> ?P" ?I | "\<not> ?P" "\<not> ?I" ?T | "\<not> ?P" "\<not> ?I" "\<not> ?T" ?B | "\<not> ?P" "\<not> ?I" "\<not> ?T" "\<not> ?B" by blast
  then show ?thesis
  proof cases
    case 1
    then have "?P = True" by blast
    then show ?thesis unfolding type choose using 1 by (simp add: mb_form.intros p)
  next
    case 2
    then have c: "?P = False" "?I = True" by blast+
    show ?thesis unfolding type choose c using 2 by (simp add: mb_form.intros i)
  next
    case 3
    then have c: "?P = False" "?I = False" "?T = True" by blast+
    show ?thesis unfolding type choose c using 3 by (simp add: mb_form.intros)
  next
    case 4
    then have c: "?P = False" "?I = False" "?T = False" "?B = True" by blast+
    show ?thesis unfolding type choose c using 4 sz by (simp add: mb_form.intros)
  next
    case 5
    then have c: "?P = False" "?I = False" "?T = False" "?B = False" by blast+
    show ?thesis unfolding type choose c using sz by (simp add: mb_form.intros)
  qed
qed

lemmas mb_numbers = MBSTRING_UTF8_def MBSTRING_ASC_def MBSTRING_BMP_def MBSTRING_UNIV_def MBSTRING_FLAG_def

lemma decode_charset:
  assumes "mb_decode inform = Some (decode, err)"
  obtains enc valid put where "charset enc decode valid put" "\<forall>u. valid u \<longrightarrow> is_valid_code_point u"
    "\<forall>enc2 put2 us. mb_form inform enc2 put2 us \<longrightarrow> enc2 = enc"
proof -
  have small: "is_valid_code_point u" if "u \<le> 0xff" for u
    using that by (auto simp: valid_code_point_iff word_le_nat_alt)
  have f: "enc2 = enc" if "mb_form f enc2 put2 us" "mb_form f enc put us'" for f enc enc2 put put2 us us'
    using that by (auto elim!: mb_formE simp: mb_numbers)
  from assms consider "inform = MBSTRING_BMP" "decode = CBS_get_ucs2_be" | "inform = MBSTRING_UNIV" "decode = CBS_get_utf32_be"
    | "inform = MBSTRING_UTF8" "decode = CBS_get_utf8" | "inform = MBSTRING_ASC" "decode = CBS_get_latin1"
    by (auto simp: mb_decode_def split: if_splits)
  then show thesis
  proof cases
    case 1
    with ucs2.charset_axioms f [OF _ bmp [of "[]"]] show thesis by (intro that) auto
  next
    case 2
    with utf32.charset_axioms f [OF _ univ [of "[]"]] show thesis by (intro that) auto
  next
    case 3
    with utf8.charset_axioms f [OF _ utf8 [of "[]"]] show thesis by (intro that) auto
  next
    case 4
    with latin1.charset_axioms f [OF _ asc [of "[]"]] small show thesis by (intro that) auto
  qed
qed

lemma form_grows:
  assumes "mb_form f enc put us" "\<forall>u \<in> set us. is_valid_code_point u"
  shows "grows al p (concat (map enc us) @ [b]) (cbb_and (put_all (put al p) us) (CBB_add_u8 al p b))"
    and "length (concat (map enc us)) \<le> 4 * length us"
  using assms
  by (auto elim!: mb_formE intro!: latin1.put_all_grows ucs2.put_all_grows utf32.put_all_grows utf8.put_all_grows
      latin1.length_enc_all ucs2.length_enc_all utf32.length_enc_all utf8.length_enc_all
      simp: list_all_iff simp del: length_concat)

lemma builder_run:
  assumes "always_allocates al" "cap \<le> 2 ^ 62" "grows al 0 d m" "length d \<le> 2 ^ 61"
  obtains st st1 buf st2 where "CBB_init al 0 cap = Some st" "m st = (True, st1)"
    "CBB_finish al 0 st1 = (Some (buf, length d), st2)" "take (length d) buf = d"
proof -
  obtain st where st: "CBB_init al 0 cap = Some st" "can_add al 0 (2 ^ 61) st" "cbb_root st = 0"
    "cbb_chain st = []" "cbb_written st = []" using assms(1,2) by (rule init_can_add)
  have "can_add al 0 (length d + 0) st" by (rule can_add_less [OF st(2)]) (use assms(4) in simp)
  then obtain st1 where m: "m st = (True, st1)" and c: "can_add al 0 0 st1" using assms(3) unfolding grows_def by blast
  have wf: "cbb_wf st" using st(2) by (simp add: can_add_def)
  have l: "cbb_locate 0 st = Some ([], [])" by (simp add: cbb_locate_def st)
  have ap: "appends 0 d m" using assms(3) by (simp add: grows_def)
  note D = appendsD [OF ap wf m]
  from D(4) [OF l] have a: "cbb_written st1 = d" "cbb_chain st1 = []" by (simp_all add: st)
  from c D(2) st(3) obtain buf len st2 where f: "CBB_finish al 0 st1 = (Some (buf, len), st2)"
    using finish_succeeds [of al st1 0] by auto
  from finish_result [OF D(1) f] a have "take len buf = d" "len = length d" by simp_all
  with that [OF st(1) m] f show thesis by simp
qed

section \<open>The conversion\<close>

text \<open>The specification: the text, the type that it gets, and the encoding of that type.\<close>

definition mb_target :: "int \<Rightarrow> bytes \<Rightarrow> u64 \<Rightarrow> int \<Rightarrow> int \<Rightarrow> (int \<times> (u32 \<Rightarrow> bytes) \<times> u32 list) option" where
  "mb_target inform c m minsize maxsize =
     (case mb_decode inform of None \<Rightarrow> None
      | Some (decode, _) \<Rightarrow>
          (case read_all decode c of None \<Rightarrow> None
           | Some us \<Rightarrow>
               if mb_fits inform minsize maxsize us
               then map_option (\<lambda>(t, enc). (t, enc, us)) (mb_type (if m = 0 then DIRSTRING_TYPE else m) us)
               else None))"

lemma scan_choose:
  assumes d: "mb_decode inform = Some (decode, err)" and m: "m \<noteq> 0"
  shows "case mb_target inform c m minsize maxsize of
     None \<Rightarrow> (\<exists>e. mb_scan decode err inform maxsize c m 0 0 = Some (Inl e))
       \<or> (\<exists>m' n l. mb_scan decode err inform maxsize c m 0 0 = Some (Inr (m', n, l))
             \<and> (0 < minsize \<and> n < nat minsize \<or> mb_choose m' n l = None))
   | Some (t, enc, us) \<Rightarrow> read_all decode c = Some us \<and>
       (\<exists>m' n l est f put. mb_scan decode err inform maxsize c m 0 0 = Some (Inr (m', n, l))
         \<and> \<not> (0 < minsize \<and> n < nat minsize) \<and> mb_choose m' n l = Some (t, est, f, put) \<and> mb_form f enc put us
         \<and> est \<le> 8 * length us)"
proof -
  from d obtain enc0 valid put0 where cs: "charset enc0 decode valid put0" by (rule decode_charset)
  note scan = charset.scan_result [OF cs, where c = c and err = err and inform = inform and maxsize = maxsize
      and m = m and n = 0 and l = 0]
  show ?thesis
  proof (cases "read_all decode c")
    case None
    with scan d show ?thesis by (simp add: mb_target_def)
  next
    case (Some us)
    show ?thesis
    proof (cases "scan_fails inform maxsize 0 m us")
      case True
      have "mb_fits inform minsize maxsize us \<Longrightarrow> mb_type m us = None"
        using True mb_type_nonzero [of m us] by (cases "mb_type m us") (auto simp: scan_fails_def mb_fits_def)
      then have "mb_target inform c m minsize maxsize = None" using d Some m by (simp add: mb_target_def)
      with scan Some True show ?thesis by simp
    next
      case False
      with scan Some obtain l where s: "mb_scan decode err inform maxsize c m 0 0 = Some (Inr (fold mb_restrict us m, length us, l))"
        "l \<le> 4 * length us" by auto
      show ?thesis
      proof (cases "0 < minsize \<and> length us < nat minsize")
        case True
        then have "mb_target inform c m minsize maxsize = None" using d Some by (simp add: mb_target_def mb_fits_def)
        with s True show ?thesis by simp
      next
        case size_ok: False
        have fits: "mb_fits inform minsize maxsize us"
          using False size_ok by (cases "us = []") (auto simp: scan_fails_def mb_fits_def)
        show ?thesis
        proof (cases "mb_type m us")
          case None
          then have "mb_target inform c m minsize maxsize = None" using d Some m by (simp add: mb_target_def)
          with s None choose_type [where m = m and us = us and n = "length us" and l = l] show ?thesis by simp
        next
          case (Some te)
          obtain t enc where te: "te = (t, enc)" by (cases te)
          from choose_type [where m = m and us = us and n = "length us" and l = l] Some te obtain est f put where
            ch: "mb_choose (fold mb_restrict us m) (length us) l = Some (t, est, f, put)" "mb_form f enc put us" "est \<le> 4 * length us + l"
            by auto
          have "mb_target inform c m minsize maxsize = Some (t, enc, us)"
            using d \<open>read_all decode c = Some us\<close> m fits Some te by (simp add: mb_target_def)
          with s ch size_ok \<open>read_all decode c = Some us\<close> show ?thesis by fastforce
        qed
      qed
    qed
  qed
qed

lemma target_text:
  assumes "mb_target inform c m minsize maxsize = Some (t, enc, us)" "mb_decode inform = Some (decode, err)"
    "read_all decode c = Some us"
  shows "\<forall>u \<in> set us. is_valid_code_point u" "length us \<le> length c"
    and "mb_form inform enc2 put us' \<Longrightarrow> c = concat (map enc2 us)"
proof -
  from assms(2) obtain enc0 valid put0 where cs: "charset enc0 decode valid put0" "\<forall>u. valid u \<longrightarrow> is_valid_code_point u"
    "\<forall>enc2 put2 us. mb_form inform enc2 put2 us \<longrightarrow> enc2 = enc0" by (rule decode_charset)
  from assms(3) have r: "\<forall>u \<in> set us. valid u" "c = concat (map enc0 us)" by (simp_all add: charset.read_all_iff [OF cs(1)])
  with cs(2) show "\<forall>u \<in> set us. is_valid_code_point u" by blast
  show "mb_form inform enc2 put us' \<Longrightarrow> c = concat (map enc2 us)" using r(2) cs(3) by blast
  have ne: "valid u \<Longrightarrow> 0 < length (enc0 u)" for u
    using stream_codec.nothing_is_no_item [OF charset.axioms(1) [OF cs(1)]] by auto
  have "length us \<le> length (concat (map enc0 us))" using r(1)
  proof (induction us)
    case (Cons u us)
    then have "0 < length (enc0 u)" "length us \<le> length (concat (map enc0 us))" using ne [of u] by simp_all
    then have "Suc (length us) \<le> length (enc0 u) + length (concat (map enc0 us))" by linarith
    then show ?case by simp
  qed simp
  with r(2) show "length us \<le> length c" by simp
qed

lemma set_new_string:
  assumes "always_allocates al" "n \<le> ASN1_STRING_MAX" "n \<le> length inp"
  shows "\<exists>s. ASN1_STRING_set al \<lparr>as_length = 0, as_type = t, as_data = None, as_flags = 0\<rparr> (Some inp) (int n) = Some (True, s)
    \<and> as_wf s \<and> as_bytes s = take n inp"
proof -
  have "n + 1 + 8 < 2 ^ 64" using assms(2) by (simp add: ASN1_STRING_MAX_def)
  with assms(1) obtain b where b: "OPENSSL_malloc al (n + 1) = Some b" "length b = n + 1" by (rule OPENSSL_malloc_succeeds)
  have c: "OPENSSL_memcpy b 0 inp 0 n = Some (take n inp @ drop n b)"
    using b assms(3) memcpy_eq [of 0 n b 0 inp] by simp
  have "ASN1_STRING_set al \<lparr>as_length = 0, as_type = t, as_data = None, as_flags = 0\<rparr> (Some inp) (int n)
      = Some (True, \<lparr>as_length = n, as_type = t, as_data = Some ((take n inp @ drop n b)[n := 0]), as_flags = 0\<rparr>)"
    using assms(2,3) b c by (simp add: ASN1_STRING_set_def OPENSSL_realloc_def Let_def not_less)
  then show ?thesis using b assms(3)
    by (simp add: as_wf_def as_bytes_def)
qed

text \<open>The mask 0 stands for the types of a DirectoryString.\<close>

definition mb_mask :: "u64 \<Rightarrow> u64" where
  "mb_mask m = (if m = 0 then DIRSTRING_TYPE else m)"

lemma mb_mask_nonzero: "mb_mask m \<noteq> 0"
  by (simp add: mb_mask_def DIRSTRING_TYPE_def B_ASN1_PRINTABLESTRING_def B_ASN1_T61STRING_def B_ASN1_BMPSTRING_def B_ASN1_UTF8STRING_def)

lemma mb_target_mask: "mb_target inform c (mb_mask m) minsize maxsize = mb_target inform c m minsize maxsize"
  using mb_mask_nonzero by (simp add: mb_target_def mb_mask_def)

lemma new_string:
  assumes "always_allocates al"
  shows "ASN1_STRING_type_new al t = Some \<lparr>as_length = 0, as_type = t, as_data = None, as_flags = 0\<rparr>"
proof -
  have "sizeof_asn1_string + 8 < 2 ^ 64" by (simp add: sizeof_asn1_string_def)
  with assms obtain x where "OPENSSL_malloc al sizeof_asn1_string = Some x" by (rule OPENSSL_malloc_succeeds)
  then show ?thesis by (simp add: ASN1_STRING_type_new_def)
qed

lemmas ncopy_def = ASN1_mbstring_ncopy_def [of al "Some None" "c @ r" "int (length c)" for al c r, folded mb_mask_def]

lemma ncopy_same_form:
  assumes al: "always_allocates al" and len: "length c \<le> 2 ^ 24" and de: "mb_decode inform = Some (decode, err)"
    and s: "mb_scan decode err inform maxsize c (mb_mask m) 0 0 = Some (Inr (m', n, l))" "\<not> (0 < minsize \<and> n < nat minsize)"
    "mb_choose m' n l = Some (t, est, inform, put)"
  shows "\<exists>s. ASN1_mbstring_ncopy al (Some None) (c @ r) (int (length c)) inform m minsize maxsize = Some (Inr (t, Some s))
    \<and> as_wf s \<and> as_type s = t \<and> as_bytes s = c"
proof -
  have "length c \<le> ASN1_STRING_MAX" using len by (simp add: ASN1_STRING_MAX_def)
  with al set_new_string [of al "length c" "c @ r" t] obtain str where
    str: "ASN1_STRING_set al \<lparr>as_length = 0, as_type = t, as_data = None, as_flags = 0\<rparr> (Some (c @ r)) (int (length c)) = Some (True, str)"
    "as_wf str" "as_bytes str = c" by auto
  have neg: "int (length c) \<noteq> -1" by simp
  have "as_wf (str\<lparr>as_type := t\<rparr>)" "as_bytes (str\<lparr>as_type := t\<rparr>) = c"
    using str(2,3) by (simp_all add: as_wf_def as_bytes_def cong: option.case_cong)
  moreover have "ASN1_mbstring_ncopy al (Some None) (c @ r) (int (length c)) inform m minsize maxsize
      = Some (Inr (t, Some (str\<lparr>as_type := t\<rparr>)))"
    unfolding ncopy_def using s str(1) neg by (simp add: de Let_def new_string [OF al])
  ultimately show ?thesis by simp
qed

lemma ncopy_other_form:
  assumes al: "always_allocates al" and len: "length c \<le> 2 ^ 24" and de: "mb_decode inform = Some (decode, err)"
    and s: "mb_scan decode err inform maxsize c (mb_mask m) 0 0 = Some (Inr (m', n, l))" "\<not> (0 < minsize \<and> n < nat minsize)"
    "mb_choose m' n l = Some (t, est, f, put)" "inform \<noteq> f"
    and us: "read_all decode c = Some us" "\<forall>u \<in> set us. is_valid_code_point u" "length us \<le> length c"
    and form: "mb_form f enc put us" "est \<le> 8 * length us"
  shows "\<exists>s. ASN1_mbstring_ncopy al (Some None) (c @ r) (int (length c)) inform m minsize maxsize = Some (Inr (t, Some s))
    \<and> as_wf s \<and> as_type s = t \<and> as_bytes s = concat (map enc us)"
proof -
  let ?d = "concat (map enc us) @ [0]"
  note g = form_grows(1) [OF form(1) us(2), of al 0 0]
  have l: "length (concat (map enc us)) \<le> 2 ^ 26" using form_grows(2) [OF form(1) us(2)] us(3) len by simp
  have est: "size_add est 1 \<le> 2 ^ 62" using form(2) us(3) len by (simp add: size_simps)
  have "length ?d \<le> 2 ^ 61" using l by simp
  with al est g obtain st st1 buf st2 where b: "CBB_init al 0 (size_add est 1) = Some st"
    "cbb_and (put_all (put al 0) us) (CBB_add_u8 al 0 0) st = (True, st1)"
    "CBB_finish al 0 st1 = (Some (buf, length ?d), st2)" "take (length ?d) buf = ?d" by (rule builder_run)
  obtain st3 where p: "put_all (put al 0) us st = (True, st3)" "CBB_add_u8 al 0 0 st3 = (True, st1)"
    using b(2) by (auto simp: cbb_and_def split: prod.splits bool.splits)
  from de obtain enc0 valid put0 where cs: "charset enc0 decode valid put0" by (rule decode_charset)
  have conv: "mb_convert decode (put al 0) c st = Some (True, st3)"
    using charset.convert_put_all [OF cs us(1), of "put al 0" st] p(1) by simp
  let ?s = "ASN1_STRING_set0 \<lparr>as_length = 0, as_type = t, as_data = None, as_flags = 0\<rparr> (Some buf) (length ?d - 1)"
  have "length ?d \<le> length buf" using arg_cong [OF b(4), of length] by (simp only: length_take)
  then have "as_wf ?s" by (simp add: ASN1_STRING_set0_def as_wf_def)
  moreover have "as_bytes ?s = concat (map enc us)"
  proof -
    have "take (length ?d - 1) buf = take (length ?d - 1) (take (length ?d) buf)" by (simp add: min_def)
    then show ?thesis unfolding b(4) by (simp add: ASN1_STRING_set0_def as_bytes_def)
  qed
  moreover have "ASN1_mbstring_ncopy al (Some None) (c @ r) (int (length c)) inform m minsize maxsize
      = Some (Inr (t, Some ?s))" if "\<not> (length ?d < 1 \<or> INT_MAX < length ?d)"
    unfolding ncopy_def using that s b(1,3) conv p(2) by (simp add: de Let_def new_string [OF al])
  moreover have "\<not> (length ?d < 1 \<or> INT_MAX < length ?d)" using l by (simp add: INT_MAX_def)
  ultimately show ?thesis by (simp add: ASN1_STRING_set0_def)
qed

text \<open>
  Claim C11.  A string is converted to the first type of the table that the mask asks for and that
  can hold every character, and the result is the same text in the encoding of that type, well
  formed.  An unknown format, text that the format does not allow, a
  byte-order mark, a text outside of the size limits and a mask without a fitting type are errors.
\<close>

theorem mbstring_converts:
  assumes al: "always_allocates al" and len: "length c \<le> 2 ^ 24"
  shows "case mb_target inform c m minsize maxsize of
     None \<Rightarrow> \<exists>e. ASN1_mbstring_ncopy al (Some None) (c @ r) (int (length c)) inform m minsize maxsize = Some (Inl e)
   | Some (t, enc, us) \<Rightarrow> \<exists>s. ASN1_mbstring_ncopy al (Some None) (c @ r) (int (length c)) inform m minsize maxsize
         = Some (Inr (t, Some s)) \<and> as_wf s \<and> as_type s = t \<and> as_bytes s = concat (map enc us)"
proof (cases "mb_decode inform")
  case None
  then show ?thesis by (simp add: mb_target_def ASN1_mbstring_ncopy_def)
next
  case (Some de)
  obtain decode err where de: "mb_decode inform = Some (decode, err)" using Some by (cases de) auto
  note sc = scan_choose [OF de mb_mask_nonzero [of m], where c = c and minsize = minsize and maxsize = maxsize,
      unfolded mb_target_mask]
  show ?thesis
  proof (cases "mb_target inform c m minsize maxsize")
    case None
    with sc show ?thesis unfolding ncopy_def by (auto simp: de Let_def)
  next
    case (Some teu)
    obtain t enc us where teu: "teu = (t, enc, us)" by (cases teu)
    from sc Some teu obtain m' n l est f put where s: "read_all decode c = Some us"
      "mb_scan decode err inform maxsize c (mb_mask m) 0 0 = Some (Inr (m', n, l))" "\<not> (0 < minsize \<and> n < nat minsize)"
      "mb_choose m' n l = Some (t, est, f, put)" "mb_form f enc put us" "est \<le> 8 * length us"
      by auto
    note tt = target_text [OF Some [unfolded teu] de s(1)]
    show ?thesis
    proof (cases "inform = f")
      case True
      with tt(3) s(5) have c: "concat (map enc us) = c" by blast
      show ?thesis unfolding Some teu option.case prod.case c
        by (rule ncopy_same_form [OF al len de s(2,3) s(4) [folded True]])
    next
      case False
      show ?thesis unfolding Some teu option.case prod.case
        by (rule ncopy_other_form [OF al len de s(2-4) False s(1) tt(1,2) s(5,6)])
    qed
  qed
qed

text \<open>An accented letter in UTF-8, as a T61String: two bytes become one.\<close>

lemma mbstring_converts_witness:
  "\<exists>s. ASN1_mbstring_ncopy (\<lambda>_. Some (\<lambda>_. 1)) (Some None) ([0xc3, 0xa9] @ []) (int (length [0xc3, 0xa9 :: u8]))
       MBSTRING_UTF8 (B_ASN1_T61STRING OR B_ASN1_UTF8STRING) 0 0 = Some (Inr (V_ASN1_T61STRING, Some s))
     \<and> as_wf s \<and> as_type s = V_ASN1_T61STRING \<and> as_bytes s = [0xe9]"
proof -
  have "is_valid_code_point 0xe9" by code_simp
  moreover have "[0xc3, 0xa9] = concat (map utf8_bytes [0xe9])" by code_simp
  ultimately have "read_all CBS_get_utf8 [0xc3, 0xa9] = Some [0xe9]" by (subst utf8.read_all_iff) simp
  moreover have "mb_decode MBSTRING_UTF8 = Some (CBS_get_utf8, INVALID_UTF8STRING)"
    by (simp add: mb_decode_def mb_numbers)
  moreover have "mb_fits MBSTRING_UTF8 0 0 [0xe9]" by (simp add: mb_fits_def mb_numbers)
  moreover have "mb_type (B_ASN1_T61STRING OR B_ASN1_UTF8STRING) [0xe9] = Some (V_ASN1_T61STRING, latin1_bytes)"
    by (simp add: mb_type_def mb_types_def printable_char [symmetric] B_ASN1_PRINTABLESTRING_def B_ASN1_IA5STRING_def B_ASN1_T61STRING_def B_ASN1_UTF8STRING_def)
  moreover have "B_ASN1_T61STRING OR B_ASN1_UTF8STRING \<noteq> 0" by (simp add: B_ASN1_T61STRING_def B_ASN1_UTF8STRING_def)
  ultimately have t: "mb_target MBSTRING_UTF8 [0xc3, 0xa9] (B_ASN1_T61STRING OR B_ASN1_UTF8STRING) 0 0
      = Some (V_ASN1_T61STRING, latin1_bytes, [0xe9])" by (simp add: mb_target_def)
  have al: "always_allocates (\<lambda>_. Some (\<lambda>_. 1))" by (simp add: always_allocates_def)
  have "latin1_bytes 0xe9 = [0xe9]" by (simp add: latin1_bytes_def)
  then show ?thesis
    using mbstring_converts [OF al, where c = "[0xc3, 0xa9]" and r = "[]" and inform = MBSTRING_UTF8
        and m = "B_ASN1_T61STRING OR B_ASN1_UTF8STRING" and minsize = 0 and maxsize = 0]
    unfolding t by (simp del: append.simps)
qed

end
