(* ===== verification/Pb.thy ===== *)
theory Pb imports Buf Bytes begin

text \<open>
  The runtime of nanopb (\<open>Pods/nanopb\<close>), with which Firestore reads and writes protocol buffers: the
  streams of \<open>pb_decode.c\<close> and \<open>pb_encode.c\<close>, the wire format (varints, tags, fixed-size numbers,
  strings, substreams, skipping), and the readers and writers of single values.  The pod is built
  with \<open>PB_FIELD_32BIT\<close> and \<open>PB_ENABLE_MALLOC\<close>, so sizes in messages have 32 bits.

  As in the BIO theories, \<open>None\<close> is undefined behaviour, or a loop that does not end.
\<close>

section \<open>Input streams\<close>

text \<open>
  A stream reads from memory (\<open>buf_read\<close>, whose state points to the bytes that are left in the
  block) or through a callback of the application.  A callback is given its state, \<open>bytes_left\<close>,
  which it may change, and the number of bytes; it reports success, the bytes it wrote to the buffer,
  its new state and the new \<open>bytes_left\<close>.  The state is the object behind the pointer
  \<open>stream->state\<close>, which a stream shares with its substreams.
\<close>

datatype 's pb_source =
    BufRead bytes
  | Callback "'s \<Rightarrow> nat \<Rightarrow> nat \<Rightarrow> bool \<times> bytes \<times> 's \<times> nat" 's

record 's pb_istream =
  is_source :: "'s pb_source"
  bytes_left :: nat
  is_errmsg :: "string option"

text \<open>
  A decoder: its result, or none where the C function returns false, and the stream afterwards.
\<close>

type_synonym ('s, 'a) pb_decoder = "'s pb_istream \<Rightarrow> ('a option \<times> 's pb_istream) option"

definition pb_return :: "'a \<Rightarrow> ('s, 'a) pb_decoder" where
  "pb_return a s = Some (Some a, s)"

definition PB_SET_ERROR :: "string \<Rightarrow> 's pb_istream \<Rightarrow> 's pb_istream" where
  "PB_SET_ERROR msg s = s\<lparr>is_errmsg := (case is_errmsg s of Some e \<Rightarrow> Some e | None \<Rightarrow> Some msg)\<rparr>"

definition PB_RETURN_ERROR :: "string \<Rightarrow> ('s, 'a) pb_decoder" where
  "PB_RETURN_ERROR msg s = Some (None, PB_SET_ERROR msg s)"

definition pb_bind :: "('s, 'a) pb_decoder \<Rightarrow> ('a \<Rightarrow> ('s, 'b) pb_decoder) \<Rightarrow> ('s, 'b) pb_decoder" where
  "pb_bind m f s =
     (case m s of None \<Rightarrow> None
      | Some (r, s) \<Rightarrow> (case r of None \<Rightarrow> Some (None, s) | Some a \<Rightarrow> f a s))"

text \<open>
  \<open>stream->callback(stream, buf, cnt)\<close>: whether it succeeds, the bytes that it wrote to the front of
  the buffer, all of it when it succeeds, and the stream.
\<close>

definition pb_callback :: "nat \<Rightarrow> 's pb_istream \<Rightarrow> (bool \<times> bytes \<times> 's pb_istream) option" where
  "pb_callback cnt s =
     (case is_source s of
        BufRead source \<Rightarrow> do {
          ensure (cnt \<le> length source);
          Some (True, take cnt source, s\<lparr>is_source := BufRead (drop cnt source)\<rparr>)
        }
      | Callback f state \<Rightarrow>
          (case f state (bytes_left s) cnt of (ok, buf, state, left) \<Rightarrow> do {
             ensure (length buf \<le> cnt \<and> (ok \<longrightarrow> length buf = cnt));
             Some (ok, buf, s\<lparr>is_source := Callback f state, bytes_left := left\<rparr>)
           }))"

text \<open>\<open>pb_read\<close> into a buffer: success, and the bytes that it wrote there, also when it fails.\<close>

definition pb_read_into :: "nat \<Rightarrow> 's pb_istream \<Rightarrow> (bool \<times> bytes \<times> 's pb_istream) option" where
  "pb_read_into cnt s =
     (if cnt = 0 then Some (True, [], s)
      else if bytes_left s < cnt then Some (False, [], PB_SET_ERROR ''end-of-stream'' s)
      else pb_callback cnt s \<bind> (\<lambda>(ok, buf, s).
        Some (if ok then (True, buf, s\<lparr>bytes_left := size_sub (bytes_left s) cnt\<rparr>)
              else (False, buf, PB_SET_ERROR ''io error'' s))))"

definition pb_read_bytes :: "nat \<Rightarrow> ('s, bytes) pb_decoder" where
  "pb_read_bytes cnt s = pb_read_into cnt s \<bind> (\<lambda>(ok, buf, s). Some (if ok then Some buf else None, s))"

fun pb_skip_bytes :: "nat \<Rightarrow> ('s, bytes) pb_decoder" where
  "pb_skip_bytes cnt =
     (if 16 < cnt then pb_bind (pb_read_bytes 16) (\<lambda>_. pb_skip_bytes (cnt - 16)) else pb_read_bytes cnt)"

declare pb_skip_bytes.simps [simp del]

text \<open>With a null pointer for the buffer, the bytes are skipped.\<close>

definition pb_read :: "bool \<Rightarrow> nat \<Rightarrow> ('s, bytes) pb_decoder" where
  "pb_read null cnt s =
     (if cnt = 0 then Some (Some [], s)
      else if null \<and> (case is_source s of BufRead _ \<Rightarrow> False | Callback _ _ \<Rightarrow> True) then pb_skip_bytes cnt s
      else pb_read_bytes cnt s)"

definition pb_readbyte :: "('s, u8) pb_decoder" where
  "pb_readbyte s =
     (if bytes_left s = 0 then PB_RETURN_ERROR ''end-of-stream'' s
      else pb_callback 1 s \<bind> (\<lambda>(ok, buf, s).
        if ok then Some (Some (hd buf), s\<lparr>bytes_left := size_sub (bytes_left s) 1\<rparr>)
        else PB_RETURN_ERROR ''io error'' s))"

definition pb_istream_from_buffer :: "bytes \<Rightarrow> nat \<Rightarrow> 's pb_istream" where
  "pb_istream_from_buffer buf bufsize = \<lparr>is_source = BufRead buf, bytes_left = bufsize, is_errmsg = None\<rparr>"

section \<open>Varints\<close>

text \<open>\<open>bitpos\<close> is a \<open>uint_fast8_t\<close>, which has 8 bits on the platforms of the application, and wraps.\<close>

partial_function (option) varint32_loop ::
  "u32 \<Rightarrow> u8 \<Rightarrow> 's pb_istream \<Rightarrow> ((u32 \<times> u8 \<times> u8) option \<times> 's pb_istream) option" where
  "varint32_loop result bitpos s =
     pb_readbyte s \<bind> (\<lambda>(r, s).
       case r of None \<Rightarrow> Some (None, s)
       | Some byte \<Rightarrow>
           if 32 \<le> bitpos \<and> byte AND 0x7f \<noteq> 0
             \<and> (drop_bit 31 result = 0 \<or> byte \<noteq> (if bitpos < 63 then 0xff else 0x01))
           then PB_RETURN_ERROR ''varint overflow'' s
           else if byte AND 0x80 \<noteq> 0
           then varint32_loop (if 32 \<le> bitpos then result else result OR push_bit (unat bitpos) (ucast (byte AND 0x7f)))
                  (bitpos + 7) s
           else Some (Some (if 32 \<le> bitpos then result else result OR push_bit (unat bitpos) (ucast (byte AND 0x7f)),
                  bitpos + 7, byte), s))"

declare varint32_loop.simps [code]

text \<open>With the result, whether \<open>*eof\<close> is set.\<close>

definition pb_decode_varint32_eof :: "'s pb_istream \<Rightarrow> (u32 option \<times> bool \<times> 's pb_istream) option" where
  "pb_decode_varint32_eof s =
     pb_readbyte s \<bind> (\<lambda>(r, s).
       case r of None \<Rightarrow> Some (None, bytes_left s = 0, s)
       | Some byte \<Rightarrow>
           if byte AND 0x80 = 0 then Some (Some (ucast byte), False, s)
           else varint32_loop (ucast (byte AND 0x7f)) 7 s \<bind> (\<lambda>(r, s).
             case r of None \<Rightarrow> Some (None, False, s)
             | Some (result, bitpos, byte) \<Rightarrow>
                 if bitpos = 35 \<and> byte AND 0x70 \<noteq> 0
                 then Some (None, False, PB_SET_ERROR ''varint overflow'' s)
                 else Some (Some result, False, s)))"

definition pb_decode_varint32 :: "('s, u32) pb_decoder" where
  "pb_decode_varint32 s = pb_decode_varint32_eof s \<bind> (\<lambda>(r, _, s). Some (r, s))"

partial_function (option) varint_loop :: "u64 \<Rightarrow> u8 \<Rightarrow> 's pb_istream \<Rightarrow> (u64 option \<times> 's pb_istream) option" where
  "varint_loop result bitpos s =
     (if 64 \<le> bitpos then PB_RETURN_ERROR ''varint overflow'' s
      else pb_readbyte s \<bind> (\<lambda>(r, s).
        case r of None \<Rightarrow> Some (None, s)
        | Some byte \<Rightarrow>
            if byte AND 0x80 \<noteq> 0
            then varint_loop (result OR push_bit (unat bitpos) (ucast (byte AND 0x7f))) (bitpos + 7) s
            else Some (Some (result OR push_bit (unat bitpos) (ucast (byte AND 0x7f))), s)))"

declare varint_loop.simps [code]

definition pb_decode_varint :: "('s, u64) pb_decoder" where
  "pb_decode_varint s = varint_loop 0 0 s"

partial_function (option) pb_skip_varint :: "'s pb_istream \<Rightarrow> (unit option \<times> 's pb_istream) option" where
  "pb_skip_varint s =
     pb_read False 1 s \<bind> (\<lambda>(r, s).
       case r of None \<Rightarrow> Some (None, s)
       | Some buf \<Rightarrow> if hd buf AND 0x80 \<noteq> 0 then pb_skip_varint s else Some (Some (), s))"

declare pb_skip_varint.simps [code]

definition pb_skip_string :: "('s, unit) pb_decoder" where
  "pb_skip_string = pb_bind pb_decode_varint32 (\<lambda>length. pb_bind (pb_read True (unat length)) (\<lambda>_. pb_return ()))"

definition pb_decode_svarint :: "('s, u64) pb_decoder" where
  "pb_decode_svarint =
     pb_bind pb_decode_varint (\<lambda>value.
       pb_return (if value AND 1 \<noteq> 0 then NOT (drop_bit 1 value) else drop_bit 1 value))"

definition pb_decode_fixed32 :: "('s, u32) pb_decoder" where
  "pb_decode_fixed32 =
     pb_bind (pb_read False 4) (\<lambda>bytes.
       pb_return (push_bit 0 (ucast (bytes ! 0)) OR push_bit 8 (ucast (bytes ! 1))
         OR push_bit 16 (ucast (bytes ! 2)) OR push_bit 24 (ucast (bytes ! 3))))"

definition pb_decode_fixed64 :: "('s, u64) pb_decoder" where
  "pb_decode_fixed64 =
     pb_bind (pb_read False 8) (\<lambda>bytes.
       pb_return (push_bit 0 (ucast (bytes ! 0)) OR push_bit 8 (ucast (bytes ! 1))
         OR push_bit 16 (ucast (bytes ! 2)) OR push_bit 24 (ucast (bytes ! 3))
         OR push_bit 32 (ucast (bytes ! 4)) OR push_bit 40 (ucast (bytes ! 5))
         OR push_bit 48 (ucast (bytes ! 6)) OR push_bit 56 (ucast (bytes ! 7))))"

section \<open>Fields and substreams\<close>

text \<open>A wire type read from a tag is any number below eight, of which the enumeration names four.\<close>

type_synonym pb_wire_type = u32

definition PB_WT_VARINT :: pb_wire_type where "PB_WT_VARINT = 0"
definition PB_WT_64BIT :: pb_wire_type where "PB_WT_64BIT = 1"
definition PB_WT_STRING :: pb_wire_type where "PB_WT_STRING = 2"
definition PB_WT_32BIT :: pb_wire_type where "PB_WT_32BIT = 5"

definition pb_decode_tag :: "'s pb_istream \<Rightarrow> ((pb_wire_type \<times> u32) option \<times> bool \<times> 's pb_istream) option" where
  "pb_decode_tag s =
     pb_decode_varint32_eof s \<bind> (\<lambda>(r, eof, s).
       case r of None \<Rightarrow> Some (None, eof, s)
       | Some temp \<Rightarrow>
           if temp = 0 then Some (None, True, s)
           else Some (Some (temp AND 7, drop_bit 3 temp), eof, s))"

definition pb_skip_field :: "pb_wire_type \<Rightarrow> ('s, unit) pb_decoder" where
  "pb_skip_field wire_type =
     (if wire_type = PB_WT_VARINT then pb_skip_varint
      else if wire_type = PB_WT_64BIT then pb_bind (pb_read True 8) (\<lambda>_. pb_return ())
      else if wire_type = PB_WT_STRING then pb_skip_string
      else if wire_type = PB_WT_32BIT then pb_bind (pb_read True 4) (\<lambda>_. pb_return ())
      else PB_RETURN_ERROR ''invalid wire_type'')"

text \<open>The bytes of the value, of which there may be at most \<open>max_size\<close>.\<close>

fun raw_varint :: "nat \<Rightarrow> ('s, bytes) pb_decoder" where
  "raw_varint 0 s = Some (None, s)"
| "raw_varint (Suc max_size) s =
     pb_bind (pb_read False 1)
       (\<lambda>buf. if hd buf AND 0x80 \<noteq> 0
              then pb_bind (raw_varint max_size) (\<lambda>more. pb_return (buf @ more))
              else pb_return buf) s"

definition read_raw_value :: "pb_wire_type \<Rightarrow> nat \<Rightarrow> ('s, bytes) pb_decoder" where
  "read_raw_value wire_type max_size =
     (if wire_type = PB_WT_VARINT then raw_varint max_size
      else if wire_type = PB_WT_64BIT then pb_read False 8
      else if wire_type = PB_WT_32BIT then pb_read False 4
      else PB_RETURN_ERROR ''invalid wire_type'')"

definition pb_make_string_substream :: "('s, 's pb_istream) pb_decoder" where
  "pb_make_string_substream =
     pb_bind pb_decode_varint32 (\<lambda>size stream.
       if bytes_left stream < unat size then PB_RETURN_ERROR ''parent stream too short'' stream
       else Some (Some (stream\<lparr>bytes_left := unat size\<rparr>), stream\<lparr>bytes_left := size_sub (bytes_left stream) (unat size)\<rparr>))"

text \<open>
  When the rest cannot be skipped the pointer to the state is not copied back: a stream into memory
  stays where it was, while the state of a callback is shared and has moved.
\<close>

definition pb_close_string_substream :: "'s pb_istream \<Rightarrow> ('s, unit) pb_decoder" where
  "pb_close_string_substream substream stream =
     (let adopt = (\<lambda>substream. stream\<lparr>is_source := is_source substream, is_errmsg := is_errmsg substream\<rparr>);
          abandon = (\<lambda>substream. case is_source substream of
            BufRead _ \<Rightarrow> stream | Callback f state \<Rightarrow> stream\<lparr>is_source := Callback f state\<rparr>)
      in if bytes_left substream \<noteq> 0 then
           pb_read True (bytes_left substream) substream \<bind> (\<lambda>(r, substream).
             case r of None \<Rightarrow> Some (None, abandon substream) | Some _ \<Rightarrow> Some (Some (), adopt substream))
         else Some (Some (), adopt substream))"

section \<open>Output streams\<close>

text \<open>
  A stream without a callback only counts.  The state of \<open>buf_write\<close> points into a block: the bytes
  before and after that place.
\<close>

datatype 's pb_sink =
    Sizing
  | BufWrite bytes bytes
  | Writer "'s \<Rightarrow> bytes \<Rightarrow> bool \<times> 's" 's

record 's pb_ostream =
  os_sink :: "'s pb_sink"
  max_size :: nat
  bytes_written :: nat
  os_errmsg :: "string option"

definition pb_ostream_from_buffer :: "bytes \<Rightarrow> nat \<Rightarrow> 's pb_ostream" where
  "pb_ostream_from_buffer buf bufsize = \<lparr>os_sink = BufWrite [] buf, max_size = bufsize, bytes_written = 0, os_errmsg = None\<rparr>"

definition PB_OSTREAM_SIZING :: "'s pb_ostream" where
  "PB_OSTREAM_SIZING = \<lparr>os_sink = Sizing, max_size = 0, bytes_written = 0, os_errmsg = None\<rparr>"

type_synonym 's pb_encoder = "'s pb_ostream \<Rightarrow> (bool \<times> 's pb_ostream) option"

definition pb_write_error :: "string \<Rightarrow> 's pb_encoder" where
  "pb_write_error msg s =
     Some (False, s\<lparr>os_errmsg := (case os_errmsg s of Some e \<Rightarrow> Some e | None \<Rightarrow> Some msg)\<rparr>)"

definition pb_then :: "'s pb_encoder \<Rightarrow> 's pb_encoder \<Rightarrow> 's pb_encoder" where
  "pb_then m n s = m s \<bind> (\<lambda>(ok, s). if ok then n s else Some (False, s))"

definition pb_write :: "bytes \<Rightarrow> nat \<Rightarrow> 's pb_encoder" where
  "pb_write buf cnt s =
     (let written = size_add (bytes_written s) cnt;
          full = written < bytes_written s \<or> max_size s < written
      in if cnt = 0 then Some (True, s\<lparr>bytes_written := written\<rparr>)
         else case os_sink s of
           Sizing \<Rightarrow> Some (True, s\<lparr>bytes_written := written\<rparr>)
         | BufWrite before dest \<Rightarrow>
             if full then pb_write_error ''stream full'' s
             else do {
               ensure (cnt \<le> length buf \<and> cnt \<le> length dest);
               Some (True, s\<lparr>os_sink := BufWrite (before @ take cnt buf) (drop cnt dest), bytes_written := written\<rparr>)
             }
         | Writer f state \<Rightarrow>
             if full then pb_write_error ''stream full'' s
             else do {
               ensure (cnt \<le> length buf);
               (case f state (take cnt buf) of (ok, state) \<Rightarrow>
                  if \<not> ok then pb_write_error ''io error'' (s\<lparr>os_sink := Writer f state\<rparr>)
                  else Some (True, s\<lparr>os_sink := Writer f state, bytes_written := written\<rparr>))
             })"

text \<open>\<open>while (value) { buffer[i] = (value & 0x7F) | 0x80; value >>= 7; i++; }\<close>\<close>

function varint_septets :: "u64 \<Rightarrow> bytes" where
  "varint_septets value =
     (if value \<noteq> 0 then ucast ((value AND 0x7f) OR 0x80) # varint_septets (drop_bit 7 value) else [])"
  by pat_completeness auto
termination
proof (relation "measure unat")
  fix v :: u64
  assume "v \<noteq> 0"
  then have "0 < unat v" by (simp add: unat_gt_0)
  then show "(drop_bit 7 v, v) \<in> measure unat"
    by (simp add: unat_drop_bit_div div_less_dividend)
qed simp

declare varint_septets.simps [simp del]

definition pb_encode_varint :: "u64 \<Rightarrow> 's pb_encoder" where
  "pb_encode_varint value s =
     (if value \<le> 0x7f then pb_write [ucast value] 1 s
      else let buffer = varint_septets value; i = length buffer in do {
        ensure (i \<le> 10);
        pb_write (buffer[i - 1 := buffer ! (i - 1) AND 0x7f]) i s
      })"

definition pb_encode_svarint :: "u64 \<Rightarrow> 's pb_encoder" where
  "pb_encode_svarint value =
     pb_encode_varint (if value <s 0 then NOT (push_bit 1 value) else push_bit 1 value)"

definition pb_encode_fixed32 :: "u32 \<Rightarrow> 's pb_encoder" where
  "pb_encode_fixed32 val =
     pb_write [ucast (val AND 0xff), ucast (drop_bit 8 val AND 0xff), ucast (drop_bit 16 val AND 0xff),
       ucast (drop_bit 24 val AND 0xff)] 4"

definition pb_encode_fixed64 :: "u64 \<Rightarrow> 's pb_encoder" where
  "pb_encode_fixed64 val =
     pb_write [ucast (val AND 0xff), ucast (drop_bit 8 val AND 0xff), ucast (drop_bit 16 val AND 0xff),
       ucast (drop_bit 24 val AND 0xff), ucast (drop_bit 32 val AND 0xff), ucast (drop_bit 40 val AND 0xff),
       ucast (drop_bit 48 val AND 0xff), ucast (drop_bit 56 val AND 0xff)] 8"

definition pb_encode_tag :: "pb_wire_type \<Rightarrow> u32 \<Rightarrow> 's pb_encoder" where
  "pb_encode_tag wiretype field_number = pb_encode_varint (push_bit 3 (ucast field_number) OR ucast wiretype)"

definition pb_encode_string :: "bytes \<Rightarrow> nat \<Rightarrow> 's pb_encoder" where
  "pb_encode_string buffer sz = pb_then (pb_encode_varint (word_of_nat sz)) (pb_write buffer sz)"

section \<open>The values of fields\<close>

text \<open>The numbers of a field descriptor; its pointer leads to submessages and default values.\<close>

record pb_field =
  pf_tag :: u32
  pf_type :: u8
  pf_data_offset :: u32
  pf_size_offset :: u32
  pf_data_size :: u32
  pf_array_size :: u32

definition PB_LTYPE_BOOL :: u8 where "PB_LTYPE_BOOL = 0x00"
definition PB_LTYPE_VARINT :: u8 where "PB_LTYPE_VARINT = 0x01"
definition PB_LTYPE_UVARINT :: u8 where "PB_LTYPE_UVARINT = 0x02"
definition PB_LTYPE_SVARINT :: u8 where "PB_LTYPE_SVARINT = 0x03"
definition PB_LTYPE_FIXED32 :: u8 where "PB_LTYPE_FIXED32 = 0x04"
definition PB_LTYPE_FIXED64 :: u8 where "PB_LTYPE_FIXED64 = 0x05"
definition PB_LTYPE_BYTES :: u8 where "PB_LTYPE_BYTES = 0x06"
definition PB_LTYPE_STRING :: u8 where "PB_LTYPE_STRING = 0x07"
definition PB_LTYPE_SUBMESSAGE :: u8 where "PB_LTYPE_SUBMESSAGE = 0x08"
definition PB_LTYPE_FIXED_LENGTH_BYTES :: u8 where "PB_LTYPE_FIXED_LENGTH_BYTES = 0x0A"
definition PB_LTYPE_MASK :: u8 where "PB_LTYPE_MASK = 0x0F"
definition PB_ATYPE_STATIC :: u8 where "PB_ATYPE_STATIC = 0x00"
definition PB_ATYPE_POINTER :: u8 where "PB_ATYPE_POINTER = 0x80"
definition PB_ATYPE_MASK :: u8 where "PB_ATYPE_MASK = 0xC0"
definition PB_SIZE_MAX :: u32 where "PB_SIZE_MAX = 0xffffffff"

definition PB_ATYPE :: "u8 \<Rightarrow> u8" where "PB_ATYPE x = x AND PB_ATYPE_MASK"
definition PB_LTYPE :: "u8 \<Rightarrow> u8" where "PB_LTYPE x = x AND PB_LTYPE_MASK"

definition pb_encode_tag_for_field :: "pb_field \<Rightarrow> 's pb_encoder" where
  "pb_encode_tag_for_field field =
     (let ltype = PB_LTYPE (pf_type field) in
      if ltype \<in> {PB_LTYPE_BOOL, PB_LTYPE_VARINT, PB_LTYPE_UVARINT, PB_LTYPE_SVARINT}
      then pb_encode_tag PB_WT_VARINT (pf_tag field)
      else if ltype = PB_LTYPE_FIXED32 then pb_encode_tag PB_WT_32BIT (pf_tag field)
      else if ltype = PB_LTYPE_FIXED64 then pb_encode_tag PB_WT_64BIT (pf_tag field)
      else if ltype \<in> {PB_LTYPE_BYTES, PB_LTYPE_STRING, PB_LTYPE_SUBMESSAGE, PB_LTYPE_FIXED_LENGTH_BYTES}
      then pb_encode_tag PB_WT_STRING (pf_tag field)
      else pb_write_error ''invalid field type'')"

text \<open>
  A value in memory is the bytes of its representation, little-endian as on the processors of the
  application.  Reading a signed one extends its sign.
\<close>

definition load_signed :: "nat \<Rightarrow> bytes \<Rightarrow> u64 option" where
  "load_signed sz src = do {
     ensure (sz \<le> length src);
     let n = le_val (take sz src);
     Some (if sz = 1 then scast (word_of_nat n :: u8) else if sz = 2 then scast (word_of_nat n :: u16)
           else if sz = 4 then scast (word_of_nat n :: u32) else word_of_nat n)
   }"

definition load_unsigned :: "nat \<Rightarrow> bytes \<Rightarrow> u64 option" where
  "load_unsigned sz src = do { ensure (sz \<le> length src); Some (word_of_nat (le_val (take sz src))) }"

definition store :: "nat \<Rightarrow> u64 \<Rightarrow> bytes \<Rightarrow> bytes option" where
  "store sz v dest = do { ensure (sz \<le> length dest); Some (le_bytes sz (unat v) @ drop sz dest) }"

text \<open>Readers of values: whether they succeed, the memory and the stream afterwards.\<close>

type_synonym 's pb_dec = "'s pb_istream \<Rightarrow> bytes \<Rightarrow> (bool \<times> bytes \<times> 's pb_istream) option"

definition pb_fails :: "string \<Rightarrow> 's pb_dec" where
  "pb_fails msg s dest = Some (False, dest, PB_SET_ERROR msg s)"

definition pb_dec_bool :: "'s pb_dec" where
  "pb_dec_bool s dest =
     pb_decode_varint32 s \<bind> (\<lambda>(r, s).
       case r of None \<Rightarrow> Some (False, dest, s)
       | Some v \<Rightarrow> store 1 (if v \<noteq> 0 then 1 else 0) dest \<bind> (\<lambda>dest. Some (True, dest, s)))"

text \<open>The casts to the size of the field, and the check that they lose nothing.\<close>

definition pb_dec_varint :: "pb_field \<Rightarrow> 's pb_dec" where
  "pb_dec_varint field s dest =
     pb_decode_varint s \<bind> (\<lambda>(r, s).
       case r of None \<Rightarrow> Some (False, dest, s)
       | Some v \<Rightarrow>
           let sz = unat (pf_data_size field);
               svalue = (if sz = 8 then v else scast (ucast v :: u32))
           in if sz \<notin> {8, 4, 2, 1} then pb_fails ''invalid data_size'' s dest
              else let clamped = (if sz = 8 then svalue else if sz = 4 then scast (ucast svalue :: u32)
                                  else if sz = 2 then scast (ucast svalue :: u16) else scast (ucast svalue :: u8))
                   in store sz clamped dest \<bind> (\<lambda>dest.
                        if clamped \<noteq> svalue then pb_fails ''integer too large'' s dest else Some (True, dest, s)))"

definition pb_dec_uvarint :: "pb_field \<Rightarrow> 's pb_dec" where
  "pb_dec_uvarint field s dest =
     pb_decode_varint s \<bind> (\<lambda>(r, s).
       case r of None \<Rightarrow> Some (False, dest, s)
       | Some v \<Rightarrow>
           let sz = unat (pf_data_size field)
           in if sz \<notin> {8, 4, 2, 1} then pb_fails ''invalid data_size'' s dest
              else let clamped = (if sz = 8 then v else if sz = 4 then ucast (ucast v :: u32)
                                  else if sz = 2 then ucast (ucast v :: u16) else ucast (ucast v :: u8))
                   in store sz clamped dest \<bind> (\<lambda>dest.
                        if clamped \<noteq> v then pb_fails ''integer too large'' s dest else Some (True, dest, s)))"

definition pb_dec_svarint :: "pb_field \<Rightarrow> 's pb_dec" where
  "pb_dec_svarint field s dest =
     pb_decode_svarint s \<bind> (\<lambda>(r, s).
       case r of None \<Rightarrow> Some (False, dest, s)
       | Some v \<Rightarrow>
           let sz = unat (pf_data_size field)
           in if sz \<notin> {8, 4, 2, 1} then pb_fails ''invalid data_size'' s dest
              else let clamped = (if sz = 8 then v else if sz = 4 then scast (ucast v :: u32)
                                  else if sz = 2 then scast (ucast v :: u16) else scast (ucast v :: u8))
                   in store sz clamped dest \<bind> (\<lambda>dest.
                        if clamped \<noteq> v then pb_fails ''integer too large'' s dest else Some (True, dest, s)))"

definition pb_dec_fixed32 :: "'s pb_dec" where
  "pb_dec_fixed32 s dest =
     pb_decode_fixed32 s \<bind> (\<lambda>(r, s).
       case r of None \<Rightarrow> Some (False, dest, s)
       | Some v \<Rightarrow> store 4 (ucast v) dest \<bind> (\<lambda>dest. Some (True, dest, s)))"

definition pb_dec_fixed64 :: "'s pb_dec" where
  "pb_dec_fixed64 s dest =
     pb_decode_fixed64 s \<bind> (\<lambda>(r, s).
       case r of None \<Rightarrow> Some (False, dest, s)
       | Some v \<Rightarrow> store 8 v dest \<bind> (\<lambda>dest. Some (True, dest, s)))"

text \<open>
  Fields that are stored in place; a pointer field (\<open>PB_ATYPE_POINTER\<close>) gets a block of its own
  from \<open>allocate_field\<close>, of which the old contents are kept as by \<open>realloc\<close>.
\<close>

definition pb_realloc :: "allocator \<Rightarrow> bytes option \<Rightarrow> nat \<Rightarrow> bytes option" where
  "pb_realloc al ptr sz =
     map_option (\<lambda>fresh. let old = (case ptr of None \<Rightarrow> [] | Some old \<Rightarrow> take sz old)
                         in old @ map fresh [length old..<sz]) (al sz)"

definition allocate_field :: "allocator \<Rightarrow> bytes option \<Rightarrow> nat \<Rightarrow> nat \<Rightarrow> ('s, bytes) pb_decoder" where
  "allocate_field al ptr data_size array_size s =
     (if data_size = 0 \<or> array_size = 0 then PB_RETURN_ERROR ''invalid size'' s
      else if (2 ^ 32 \<le> data_size \<or> 2 ^ 32 \<le> array_size) \<and> SIZE_MAX div array_size < data_size
      then PB_RETURN_ERROR ''size too large'' s
      else case pb_realloc al ptr (size_mul array_size data_size) of
        None \<Rightarrow> PB_RETURN_ERROR ''realloc failed'' s
      | Some ptr \<Rightarrow> Some (Some ptr, s))"

text \<open>The memory of a field: in place, or what its pointer points to.\<close>

datatype pb_dest = Inline bytes | Pointer "bytes option"

definition is_pointer :: "pb_field \<Rightarrow> bool" where
  "is_pointer field \<longleftrightarrow> PB_ATYPE (pf_type field) = PB_ATYPE_POINTER"

definition put_at :: "nat \<Rightarrow> bytes \<Rightarrow> bytes \<Rightarrow> bytes option" where
  "put_at off p dest = do { ensure (off + length p \<le> length dest); Some (take off dest @ p @ drop (off + length p) dest) }"

definition pb_dec_bytes ::
  "allocator \<Rightarrow> pb_field \<Rightarrow> 's pb_istream \<Rightarrow> pb_dest \<Rightarrow> (bool \<times> pb_dest \<times> 's pb_istream) option" where
  "pb_dec_bytes al field s dest =
     pb_decode_varint32 s \<bind> (\<lambda>(r, s).
       case r of None \<Rightarrow> Some (False, dest, s)
       | Some sz \<Rightarrow>
           let fails = (\<lambda>msg s. Some (False, dest, PB_SET_ERROR msg s));
               alloc_size = size_add (unat sz) 4;
               fill = (\<lambda>wrap bdest s.
                 put_at 0 (le_bytes 4 (unat sz)) bdest \<bind> (\<lambda>bdest.
                 pb_read_into (unat sz) s \<bind> (\<lambda>(ok, p, s).
                 put_at 4 p bdest \<bind> (\<lambda>bdest. Some (ok, wrap bdest, s)))))
           in if PB_SIZE_MAX < sz then fails ''bytes overflow'' s
              else if alloc_size < unat sz then fails ''size too large'' s
              else case (is_pointer field, dest) of
                (True, Pointer ptr) \<Rightarrow>
                  if bytes_left s < unat sz then fails ''end-of-stream'' s
                  else allocate_field al ptr alloc_size 1 s \<bind> (\<lambda>(r, s).
                    case r of None \<Rightarrow> Some (False, dest, s)
                    | Some bdest \<Rightarrow> fill (\<lambda>b. Pointer (Some b)) bdest s)
              | (False, Inline bdest) \<Rightarrow>
                  if unat (pf_data_size field) < alloc_size then fails ''bytes overflow'' s
                  else fill Inline bdest s
              | _ \<Rightarrow> None)"

definition pb_dec_string ::
  "allocator \<Rightarrow> pb_field \<Rightarrow> 's pb_istream \<Rightarrow> pb_dest \<Rightarrow> (bool \<times> pb_dest \<times> 's pb_istream) option" where
  "pb_dec_string al field s dest =
     pb_decode_varint32 s \<bind> (\<lambda>(r, s).
       case r of None \<Rightarrow> Some (False, dest, s)
       | Some sz \<Rightarrow>
           let fails = (\<lambda>msg s. Some (False, dest, PB_SET_ERROR msg s));
               alloc_size = sz + 1;
               fill = (\<lambda>wrap bdest s.
                 pb_read_into (unat sz) s \<bind> (\<lambda>(ok, p, s).
                 put_at 0 p bdest \<bind> (\<lambda>bdest.
                 put_at (unat sz) [0] bdest \<bind> (\<lambda>bdest. Some (ok, wrap bdest, s)))))
           in if alloc_size < sz then fails ''size too large'' s
              else case (is_pointer field, dest) of
                (True, Pointer ptr) \<Rightarrow>
                  if bytes_left s < unat sz then fails ''end-of-stream'' s
                  else allocate_field al ptr (unat alloc_size) 1 s \<bind> (\<lambda>(r, s).
                    case r of None \<Rightarrow> Some (False, dest, s)
                    | Some bdest \<Rightarrow> fill (\<lambda>b. Pointer (Some b)) bdest s)
              | (False, Inline bdest) \<Rightarrow>
                  if pf_data_size field < alloc_size then fails ''string overflow'' s
                  else fill Inline bdest s
              | _ \<Rightarrow> None)"

definition pb_dec_fixed_length_bytes :: "pb_field \<Rightarrow> 's pb_dec" where
  "pb_dec_fixed_length_bytes field s dest =
     pb_decode_varint32 s \<bind> (\<lambda>(r, s).
       case r of None \<Rightarrow> Some (False, dest, s)
       | Some sz \<Rightarrow>
           if PB_SIZE_MAX < sz then pb_fails ''bytes overflow'' s dest
           else if sz = 0
           then put_at 0 (replicate (unat (pf_data_size field)) 0) dest \<bind> (\<lambda>dest. Some (True, dest, s))
           else if sz \<noteq> pf_data_size field then pb_fails ''incorrect fixed length bytes size'' s dest
           else pb_read_into (unat (pf_data_size field)) s \<bind> (\<lambda>(ok, p, s).
             put_at 0 p dest \<bind> (\<lambda>dest. Some (ok, dest, s))))"

text \<open>Writers of values.\<close>

definition safe_read_bool :: "bytes \<Rightarrow> bool option" where
  "safe_read_bool src = do { ensure (1 \<le> length src); Some (src ! 0 \<noteq> 0) }"

definition pb_enc_bool :: "bytes \<Rightarrow> 's pb_encoder" where
  "pb_enc_bool src s = safe_read_bool src \<bind> (\<lambda>b. pb_encode_varint (if b then 1 else 0) s)"

definition pb_enc_varint :: "pb_field \<Rightarrow> bytes \<Rightarrow> 's pb_encoder" where
  "pb_enc_varint field src s =
     (let sz = unat (pf_data_size field)
      in if sz \<notin> {1, 2, 4, 8} then pb_write_error ''invalid data_size'' s
         else load_signed sz src \<bind> (\<lambda>v. pb_encode_varint v s))"

definition pb_enc_uvarint :: "pb_field \<Rightarrow> bytes \<Rightarrow> 's pb_encoder" where
  "pb_enc_uvarint field src s =
     (let sz = unat (pf_data_size field)
      in if sz \<notin> {1, 2, 4, 8} then pb_write_error ''invalid data_size'' s
         else load_unsigned sz src \<bind> (\<lambda>v. pb_encode_varint v s))"

definition pb_enc_svarint :: "pb_field \<Rightarrow> bytes \<Rightarrow> 's pb_encoder" where
  "pb_enc_svarint field src s =
     (let sz = unat (pf_data_size field)
      in if sz \<notin> {1, 2, 4, 8} then pb_write_error ''invalid data_size'' s
         else load_signed sz src \<bind> (\<lambda>v. pb_encode_svarint v s))"

definition pb_enc_fixed64 :: "bytes \<Rightarrow> 's pb_encoder" where
  "pb_enc_fixed64 src s = load_unsigned 8 src \<bind> (\<lambda>v. pb_encode_fixed64 v s)"

definition pb_enc_fixed32 :: "bytes \<Rightarrow> 's pb_encoder" where
  "pb_enc_fixed32 src s = load_unsigned 4 src \<bind> (\<lambda>v. pb_encode_fixed32 (ucast v) s)"

text \<open>A null pointer is an empty string.\<close>

definition pb_enc_bytes :: "pb_field \<Rightarrow> bytes option \<Rightarrow> 's pb_encoder" where
  "pb_enc_bytes field src s =
     (case src of None \<Rightarrow> pb_encode_string [] 0 s
      | Some p \<Rightarrow> do {
          ensure (4 \<le> length p);
          let sz = le_val (take 4 p);
          if PB_ATYPE (pf_type field) = PB_ATYPE_STATIC \<and> size_sub (unat (pf_data_size field)) 4 < sz
          then pb_write_error ''bytes size exceeded'' s
          else pb_encode_string (drop 4 p) sz s
        })"

fun string_size :: "bytes \<Rightarrow> nat \<Rightarrow> nat \<Rightarrow> nat option" where
  "string_size p n 0 = Some n"
| "string_size [] n (Suc limit) = None"
| "string_size (b # p) n (Suc limit) = (if b \<noteq> 0 then string_size p (Suc n) limit else Some n)"

definition pb_enc_string :: "pb_field \<Rightarrow> bytes option \<Rightarrow> 's pb_encoder" where
  "pb_enc_string field src s =
     (let max_size = (if PB_ATYPE (pf_type field) = PB_ATYPE_POINTER then SIZE_MAX else unat (pf_data_size field))
      in case src of None \<Rightarrow> pb_encode_string [] 0 s
         | Some p \<Rightarrow> string_size p 0 max_size \<bind> (\<lambda>sz. pb_encode_string p sz s))"

definition pb_enc_fixed_length_bytes :: "pb_field \<Rightarrow> bytes \<Rightarrow> 's pb_encoder" where
  "pb_enc_fixed_length_bytes field src = pb_encode_string src (unat (pf_data_size field))"

end
