(* ===== verification/PbSpec.thy ===== *)
theory PbSpec imports Pb Cbs begin

text \<open>
  What the nanopb runtime promises.  A decoder on memory refines a pure reader of the bytes that the
  stream shows (\<open>memory_decoder\<close>); an encoder appends its encoding or fails without leaving its
  buffer (\<open>appending\<close>); and encodings are read back (\<open>wire_format\<close>, interpreted on the kinds of
  numbers of the wire format).
\<close>

section \<open>Streams on memory\<close>

definition buffer_of :: "'s pb_istream \<Rightarrow> bytes" where
  "buffer_of s = (case is_source s of BufRead d \<Rightarrow> d | Callback _ _ \<Rightarrow> [])"

definition in_memory :: "'s pb_istream \<Rightarrow> bool" where
  "in_memory s \<longleftrightarrow> is_source s = BufRead (buffer_of s) \<and> bytes_left s \<le> length (buffer_of s) \<and> bytes_left s < 2 ^ 64"

text \<open>The bytes that a stream still gives, and the stream some bytes later.\<close>

definition visible :: "'s pb_istream \<Rightarrow> bytes" where
  "visible s = take (bytes_left s) (buffer_of s)"

definition advance :: "nat \<Rightarrow> 's pb_istream \<Rightarrow> 's pb_istream" where
  "advance n s = s\<lparr>is_source := BufRead (drop n (buffer_of s)), bytes_left := bytes_left s - n\<rparr>"

lemma length_visible [simp]: "in_memory s \<Longrightarrow> length (visible s) = bytes_left s"
  by (simp add: in_memory_def visible_def)

lemma advance_in_memory [simp]: "in_memory s \<Longrightarrow> in_memory (advance n s)"
  by (auto simp: in_memory_def advance_def buffer_of_def)

lemma visible_advance [simp]: "in_memory s \<Longrightarrow> visible (advance n s) = drop n (visible s)"
  by (simp add: visible_def advance_def buffer_of_def drop_take)

lemma advance_advance [simp]: "advance m (advance n s) = advance (n + m) s"
  by (simp add: advance_def buffer_of_def add.commute)

lemma advance_0 [simp]: "in_memory s \<Longrightarrow> advance 0 s = s"
  by (simp add: advance_def in_memory_def)

lemma advance_fields [simp]: "bytes_left (advance n s) = bytes_left s - n" "is_errmsg (advance n s) = is_errmsg s"
  by (simp_all add: advance_def)

lemma set_error_memory [simp]:
  "in_memory (s\<lparr>is_errmsg := e\<rparr>) \<longleftrightarrow> in_memory s" "visible (s\<lparr>is_errmsg := e\<rparr>) = visible s"
  "advance n (s\<lparr>is_errmsg := e\<rparr>) = (advance n s)\<lparr>is_errmsg := e\<rparr>"
  by (simp_all add: in_memory_def visible_def advance_def buffer_of_def)

lemma from_buffer [simp]:
  assumes "n \<le> length d" "n < 2 ^ 64"
  shows "in_memory (pb_istream_from_buffer d n)" "visible (pb_istream_from_buffer d n) = take n d"
  using assms by (simp_all add: pb_istream_from_buffer_def in_memory_def visible_def buffer_of_def)

lemma callback_memory:
  "in_memory s \<Longrightarrow> n \<le> bytes_left s \<Longrightarrow>
    pb_callback n s = Some (True, take n (visible s), s\<lparr>is_source := BufRead (drop n (buffer_of s))\<rparr>)"
  by (auto simp: pb_callback_def in_memory_def visible_def min_absorb2 min_absorb1 buffer_of_def split: pb_source.splits)

lemma read_into_memory:
  assumes "in_memory s"
  shows "pb_read_into n s =
    Some (if n \<le> length (visible s) then (True, take n (visible s), advance n s)
          else (False, [], PB_SET_ERROR ''end-of-stream'' s))"
  using assms callback_memory [OF assms, of n]
  by (auto simp: pb_read_into_def advance_def size_simps in_memory_def)

lemma read_bytes_memory:
  assumes "in_memory s"
  shows "pb_read_bytes n s =
    (if n \<le> length (visible s) then Some (Some (take n (visible s)), advance n s) else PB_RETURN_ERROR ''end-of-stream'' s)"
  by (simp add: pb_read_bytes_def read_into_memory [OF assms] PB_RETURN_ERROR_def)

lemma read_memory:
  assumes "in_memory s"
  shows "pb_read null n s =
    (if n \<le> length (visible s) then Some (Some (take n (visible s)), advance n s) else PB_RETURN_ERROR ''end-of-stream'' s)"
  using assms read_bytes_memory [OF assms, of n] by (auto simp: pb_read_def in_memory_def)

lemma readbyte_memory:
  assumes "in_memory s"
  shows "pb_readbyte s =
    (case visible s of [] \<Rightarrow> PB_RETURN_ERROR ''end-of-stream'' s | b # _ \<Rightarrow> Some (Some b, advance 1 s))"
proof (cases "visible s")
  case Nil
  then have "bytes_left s = 0" using length_visible [OF assms] by simp
  with Nil show ?thesis by (simp add: pb_readbyte_def)
next
  case (Cons b c)
  then have n: "1 \<le> bytes_left s" using length_visible [OF assms] by simp
  with assms have "size_sub (bytes_left s) 1 = bytes_left s - 1" by (intro size_sub_id) (simp_all add: in_memory_def)
  with Cons n callback_memory [OF assms n] show ?thesis by (simp add: pb_readbyte_def advance_def)
qed

section \<open>Decoders on memory\<close>

text \<open>
  A decoder that, on every stream in memory, does what a pure reader does with the bytes that the
  stream shows, and takes as many of them.  Only the error message is left open.
\<close>

definition refines :: "('s, 'a) pb_decoder \<Rightarrow> 'a reader \<Rightarrow> bool" where
  "refines d rd \<longleftrightarrow> byte_reader rd \<and>
     (\<forall>s. in_memory s \<longrightarrow> (\<exists>e. d s = Some (fst (rd (visible s)),
        (advance (length (visible s) - length (snd (rd (visible s)))) s)\<lparr>is_errmsg := e\<rparr>)))"

lemma refinesI:
  assumes "byte_reader rd"
    and "\<And>s. in_memory s \<Longrightarrow> \<exists>e. d s = Some (fst (rd (visible s)),
       (advance (length (visible s) - length (snd (rd (visible s)))) s)\<lparr>is_errmsg := e\<rparr>)"
  shows "refines d rd"
  using assms by (auto simp: refines_def)

lemma refinesE:
  assumes "refines d rd" "in_memory s" "rd (visible s) = (r, c)"
  obtains e where "d s = Some (r, (advance (length (visible s) - length c) s)\<lparr>is_errmsg := e\<rparr>)"
proof -
  from assms(1,2) obtain e where "d s = Some (fst (rd (visible s)),
      (advance (length (visible s) - length (snd (rd (visible s)))) s)\<lparr>is_errmsg := e\<rparr>)"
    unfolding refines_def by blast
  with assms(3) that show thesis by simp
qed

lemma refines_rest:
  assumes "refines d rd" "in_memory s" "rd (visible s) = (r, c)" "d s = Some (r', s')"
  shows "r' = r" "in_memory s'" "visible s' = c" "\<exists>e. s' = (advance (length (visible s) - length c) s)\<lparr>is_errmsg := e\<rparr>"
proof -
  obtain e where e: "d s = Some (r, (advance (length (visible s) - length c) s)\<lparr>is_errmsg := e\<rparr>)"
    using assms(1-3) by (rule refinesE)
  have br: "byte_reader rd" using assms(1) by (simp add: refines_def)
  obtain p where p: "visible s = p @ c" using byte_reader.consumed_prefix [OF br assms(3)] by blast
  from e assms(4) have s': "r' = r" "s' = (advance (length (visible s) - length c) s)\<lparr>is_errmsg := e\<rparr>" by simp_all
  then show "r' = r" "in_memory s'" "\<exists>e. s' = (advance (length (visible s) - length c) s)\<lparr>is_errmsg := e\<rparr>"
    using assms(2) by auto
  have "visible s' = drop (length (visible s) - length c) (visible s)" unfolding s'(2) using assms(2) by simp
  then show "visible s' = c" unfolding p by simp
qed

lemma refines_return: "refines (pb_return a) (rret a)"
proof (rule refinesI)
  fix s :: "'s pb_istream"
  assume "in_memory s"
  then show "\<exists>e. pb_return a s = Some (fst (rret a (visible s)),
      (advance (length (visible s) - length (snd (rret a (visible s)))) s)\<lparr>is_errmsg := e\<rparr>)"
    by (intro exI [of _ "is_errmsg s"]) (simp add: pb_return_def)
qed simp

lemma refines_error: "refines (PB_RETURN_ERROR msg) rfail"
proof (rule refinesI)
  fix s :: "'s pb_istream"
  assume "in_memory s"
  then show "\<exists>e. PB_RETURN_ERROR msg s = Some (fst (rfail (visible s)),
      (advance (length (visible s) - length (snd (rfail (visible s)))) s)\<lparr>is_errmsg := e\<rparr>)"
    by (simp add: PB_RETURN_ERROR_def PB_SET_ERROR_def) blast
qed simp

lemma refines_bind:
  fixes m :: "('s, 'a) pb_decoder"
  assumes "refines m rm" and "\<And>a. refines (f a) (rf a)"
  shows "refines (pb_bind m f) (rbind rm rf)"
proof (rule refinesI)
  show "byte_reader (rbind rm rf)" using assms by (auto simp: refines_def intro: rbind_reader)
next
  fix s :: "'s pb_istream"
  assume s: "in_memory s"
  obtain r c where rm: "rm (visible s) = (r, c)" by fastforce
  obtain e where m: "m s = Some (r, (advance (length (visible s) - length c) s)\<lparr>is_errmsg := e\<rparr>)"
    using assms(1) s rm by (rule refinesE)
  note rest = refines_rest [OF assms(1) s rm m]
  have lc: "length c \<le> length (visible s)"
    using assms(1) rm by (auto simp: refines_def intro: byte_reader.left_length)
  show "\<exists>e. pb_bind m f s = Some (fst (rbind rm rf (visible s)),
      (advance (length (visible s) - length (snd (rbind rm rf (visible s)))) s)\<lparr>is_errmsg := e\<rparr>)"
  proof (cases r)
    case None
    with m rm show ?thesis by (auto simp: pb_bind_def rbind_def)
  next
    case (Some a)
    obtain r' c' where rf: "rf a c = (r', c')" by fastforce
    have lc': "length c' \<le> length c" using assms(2) [of a] rf by (auto simp: refines_def intro: byte_reader.left_length)
    obtain e' where f: "f a ((advance (length (visible s) - length c) s)\<lparr>is_errmsg := e\<rparr>) = Some (r',
        (advance (length c - length c') ((advance (length (visible s) - length c) s)\<lparr>is_errmsg := e\<rparr>))\<lparr>is_errmsg := e'\<rparr>)"
      using refinesE [OF assms(2) rest(2), of a r' c'] rest(3) rf by metis
    have "length (visible s) - length c + (length c - length c') = length (visible s) - length c'"
      using lc lc' by simp
    with f m rm rf Some show ?thesis by (auto simp: pb_bind_def rbind_def)
  qed
qed


lemma refines_read: "refines (pb_read null n) (cbs_get n)"
proof (rule refinesI)
  show "byte_reader (cbs_get n)" by (rule cbs_get.byte_reader_axioms)
next
  fix s :: "'s pb_istream"
  assume s: "in_memory s"
  show "\<exists>e. pb_read null n s = Some (fst (cbs_get n (visible s)),
      (advance (length (visible s) - length (snd (cbs_get n (visible s)))) s)\<lparr>is_errmsg := e\<rparr>)"
  proof (cases "n \<le> length (visible s)")
    case True
    with s show ?thesis by (intro exI [of _ "is_errmsg s"]) (simp add: read_memory cbs_get_def)
  next
    case False
    with s show ?thesis by (auto simp: read_memory cbs_get_def PB_RETURN_ERROR_def PB_SET_ERROR_def)
  qed
qed

section \<open>Varints\<close>

text \<open>The bytes of at most \<open>n\<close> septets, up to and with the first one without the high bit.\<close>

fun septets :: "nat \<Rightarrow> bytes reader" where
  "septets 0 c = (None, c)"
| "septets (Suc n) [] = (None, [])"
| "septets (Suc n) (b # c) =
     (if unat b < 128 then (Some [b], c)
      else case septets n c of (r, c) \<Rightarrow> (map_option (\<lambda>p. b # p) r, c))"

definition septets_val :: "bytes \<Rightarrow> nat" where
  "septets_val p = foldr (\<lambda>b v. unat b mod 128 + 128 * v) p 0"

lemma septets_val_simps [simp]: "septets_val [] = 0" "septets_val (b # p) = unat b mod 128 + 128 * septets_val p"
  by (simp_all add: septets_val_def)

definition get_varint :: "u64 reader" where
  "get_varint = rbind (septets 10) (\<lambda>p. rret (word_of_nat (septets_val p)))"

lemma septets_reader: "byte_reader (septets n)"
proof
  show "suffix (snd (septets n c)) c" for c
    by (induction n c rule: septets.induct) (auto simp: suffix_Cons split: prod.splits)
qed

lemma or_septet:
  assumes "r < 2 ^ k"
  shows "word_of_nat r OR push_bit k (word_of_nat x) = (word_of_nat (r + 2 ^ k * x) :: 'a::len word)"
proof -
  have "take_bit k r = r" using assms by (simp add: take_bit_nat_eq_self_iff)
  then have "bit r n \<Longrightarrow> n < k" for n by (metis bit_take_bit_iff)
  then have d: "r AND push_bit k x = 0" by (intro bit_eqI) (auto simp: bit_simps not_le dest: leD)
  have "r + 2 ^ k * x = r OR push_bit k x" using disjunctive_add_eq_or [OF d] by (simp add: push_bit_eq_mult mult.commute)
  then show ?thesis by (simp add: of_nat_or_eq push_bit_of_nat)
qed

text \<open>Each round takes one byte and adds one septet.\<close>

lemma septet_word: "(ucast (b AND 0x7f) :: 'a::len word) = word_of_nat (unat (b :: u8) mod 128)"
proof -
  have "(ucast (b AND 0x7f) :: 'a word) = word_of_nat (unat (b AND 0x7f))" by simp
  then show ?thesis by (simp only: unat_and_7f)
qed

lemma varint_loop_step:
  assumes "in_memory s" "visible s = b # c" "\<not> 64 \<le> bitpos"
  shows "varint_loop result bitpos s =
    (if b AND 0x80 \<noteq> 0 then varint_loop (result OR push_bit (unat bitpos) (ucast (b AND 0x7f))) (bitpos + 7) (advance 1 s)
     else Some (Some (result OR push_bit (unat bitpos) (ucast (b AND 0x7f))), advance 1 s))"
  using assms by (subst varint_loop.simps) (simp add: readbyte_memory)

lemma varint_loop_memory:
  assumes "in_memory s" "r < 2 ^ (7 * i)" "n + i = 10"
  shows "\<exists>e. varint_loop (word_of_nat r) (word_of_nat (7 * i)) s =
    Some (map_option (\<lambda>p. word_of_nat (r + 2 ^ (7 * i) * septets_val p)) (fst (septets n (visible s))),
      (advance (length (visible s) - length (snd (septets n (visible s)))) s)\<lparr>is_errmsg := e\<rparr>)"
  using assms
proof (induction n arbitrary: s r i)
  case 0
  then have "word_of_nat (7 * i) = (70 :: u8)" by simp
  with 0 show ?case by (subst varint_loop.simps) (auto simp: PB_RETURN_ERROR_def PB_SET_ERROR_def)
next
  case (Suc n)
  then have "i \<le> 9" by simp
  then have u: "unat (word_of_nat (7 * i) :: u8) = 7 * i" by (simp only: unat_of_nat take_bit_eq_mod) simp
  then have small: "\<not> 64 \<le> (word_of_nat (7 * i) :: u8)" using \<open>i \<le> 9\<close> by (simp add: word_le_nat_alt)
  have next_pos: "word_of_nat (7 * i) + 7 = (word_of_nat (7 * Suc i) :: u8)" by simp
  show ?case
  proof (cases "visible s")
    case Nil
    with Suc.prems(1) small show ?thesis
      by (subst varint_loop.simps) (auto simp: readbyte_memory PB_RETURN_ERROR_def PB_SET_ERROR_def)
  next
    case (Cons b c)
    let ?r = "r + 2 ^ (7 * i) * (unat b mod 128)"
    have acc: "word_of_nat r OR push_bit (unat (word_of_nat (7 * i) :: u8)) (ucast (b AND 0x7f)) = (word_of_nat ?r :: u64)"
      unfolding u septet_word by (rule or_septet [OF Suc.prems(2)])
    note loop = varint_loop_step [OF Suc.prems(1) Cons small, of "word_of_nat r", unfolded acc next_pos]
    show ?thesis
    proof (cases "unat b < 128")
      case True
      then have "b AND 0x80 = 0" by (simp only: and_80_zero)
      with True Cons show ?thesis unfolding loop by (intro exI [of _ "is_errmsg s"]) (simp add: advance_def)
    next
      case False
      then have m: "b AND 0x80 \<noteq> 0" by (simp only: and_80_zero not_False_eq_True)
      have "?r < 2 ^ (7 * i) * 128"
      proof -
        have "?r < 2 ^ (7 * i) + 2 ^ (7 * i) * (unat b mod 128)" using Suc.prems(2) by simp
        also have "\<dots> = 2 ^ (7 * i) * (unat b mod 128 + 1)" by simp
        also have "\<dots> \<le> 2 ^ (7 * i) * 128"
          by (rule mult_le_mono2) (use mod_less_divisor [of 128 "unat b"] in simp)
        finally show ?thesis .
      qed
      then have r: "?r < 2 ^ (7 * Suc i)" by (simp add: power_add mult.commute)
      have vis: "visible (advance 1 s) = c" "in_memory (advance 1 s)" using Suc.prems(1) Cons by simp_all
      obtain q c' where sp: "septets n c = (q, c')" by fastforce
      have "length c' \<le> length c" using byte_reader.left_length [OF septets_reader sp] .
      then have l: "1 + (length c - length c') = length (visible s) - length c'" using Cons by simp
      from Suc.IH [OF vis(2) r, unfolded vis(1)] Suc.prems(3) sp obtain e where IH:
        "varint_loop (word_of_nat ?r) (word_of_nat (7 * Suc i)) (advance 1 s) =
          Some (map_option (\<lambda>p. word_of_nat (?r + 2 ^ (7 * Suc i) * septets_val p)) q,
            (advance (length c - length c') (advance 1 s))\<lparr>is_errmsg := e\<rparr>)" by auto
      have val: "?r + 2 ^ (7 * Suc i) * septets_val p = r + 2 ^ (7 * i) * septets_val (b # p)" for p
        by (simp add: algebra_simps power_add)
      show ?thesis unfolding loop using IH [unfolded val] m sp Cons False
        by (intro exI [of _ e]) (cases q; simp add: l [unfolded Cons, simplified] del: septets_val_simps of_nat_add of_nat_mult)
    qed
  qed
qed

lemma decode_varint_refines: "refines pb_decode_varint get_varint"
proof (rule refinesI)
  show "byte_reader get_varint" unfolding get_varint_def by (rule rbind_reader [OF septets_reader]) simp
next
  fix s :: "'s pb_istream"
  assume "in_memory s"
  obtain q c where sp: "septets 10 (visible s) = (q, c)" by fastforce
  have "get_varint (visible s) = (map_option (\<lambda>p. word_of_nat (septets_val p)) q, c)"
    using sp by (simp add: get_varint_def rbind_def split: option.split)
  then show "\<exists>e. pb_decode_varint s = Some (fst (get_varint (visible s)),
      (advance (length (visible s) - length (snd (get_varint (visible s)))) s)\<lparr>is_errmsg := e\<rparr>)"
    using varint_loop_memory [OF \<open>in_memory s\<close>, of 0 0 10] sp by (simp add: pb_decode_varint_def)
qed

text \<open>The shortest varint of a number, which is what is written.\<close>

fun varint_bytes :: "nat \<Rightarrow> bytes" where
  "varint_bytes v =
     (if v < 128 then [word_of_nat v] else word_of_nat (128 + v mod 128) # varint_bytes (v div 128))"

declare varint_bytes.simps [simp del]

lemma varint_small: "v < 128 \<Longrightarrow> varint_bytes v = [word_of_nat v]"
  by (simp add: varint_bytes.simps)

lemma varint_large: "\<not> v < 128 \<Longrightarrow> varint_bytes v = word_of_nat (128 + v mod 128) # varint_bytes (v div 128)"
  by (simp add: varint_bytes.simps)

lemma small_byte: "v < 256 \<Longrightarrow> unat (word_of_nat v :: u8) = v"
  by (simp add: unat_of_nat take_bit_eq_mod)

lemma septet_high: "unat (word_of_nat (128 + v mod 128) :: u8) = 128 + v mod 128"
  using mod_less_divisor [of 128 v] by (intro small_byte) simp

lemma septets_varint:
  "v < 128 ^ Suc n \<Longrightarrow> septets (Suc n) (varint_bytes v @ r) = (Some (varint_bytes v), r)"
proof (induction n arbitrary: v)
  case 0
  then show ?case by (simp add: varint_small small_byte)
next
  case (Suc n)
  show ?case
  proof (cases "v < 128")
    case True
    then show ?thesis by (simp add: varint_small small_byte)
  next
    case False
    have "v div 128 < 128 ^ Suc n" using Suc.prems by (simp add: less_mult_imp_div_less mult.commute)
    from Suc.IH [OF this] show ?thesis by (simp add: varint_large [OF False] septet_high del: of_nat_add)
  qed
qed

lemma varint_val: "septets_val (varint_bytes v) = v"
proof (induction v rule: varint_bytes.induct)
  case (1 v)
  show ?case
  proof (cases "v < 128")
    case True
    then show ?thesis by (simp add: varint_small small_byte)
  next
    case False
    have "v mod 128 mod 128 = v mod 128" by simp
    with "1.IH" [OF False] show ?thesis
      by (simp add: varint_large [OF False] septet_high mod_add_self1 del: of_nat_add)
  qed
qed

lemma length_varint: "v < 128 ^ Suc n \<Longrightarrow> length (varint_bytes v) \<le> Suc n"
proof (induction n arbitrary: v)
  case 0
  then show ?case by (simp add: varint_small)
next
  case (Suc n)
  show ?case
  proof (cases "v < 128")
    case True
    then show ?thesis by (simp add: varint_small)
  next
    case False
    have "v div 128 < 128 ^ Suc n" using Suc.prems by (simp add: less_mult_imp_div_less mult.commute)
    from Suc.IH [OF this] show ?thesis by (simp add: varint_large [OF False])
  qed
qed

lemma u64_varint: "unat (v :: u64) < 128 ^ 10"
  using unsigned_less [of v, where ?'a = nat] by simp

lemma get_varint_bytes: "get_varint (varint_bytes (unat v) @ r) = (Some v, r)"
  using septets_varint [of "unat v" 9 r] u64_varint [of v] by (simp add: get_varint_def rbind_def varint_val)

lemma encode_septets:
  "v \<noteq> 0 \<Longrightarrow> (varint_septets v)[length (varint_septets v) - 1 := varint_septets v ! (length (varint_septets v) - 1) AND 0x7f]
     = varint_bytes (unat v)"
proof (induction v rule: varint_septets.induct)
  case (1 v)
  have b: "(ucast ((v AND 0x7f) OR 0x80) :: u8) = word_of_nat (128 + unat v mod 128)"
  proof -
    have m: "unat (v AND 0x7f) = unat v mod 128" using unat_and_mask [of v 7] by (simp add: mask_eq_exp_minus_1)
    have "unat ((v AND 0x7f) OR 0x80) = unat v mod 128 + 128"
      using shift_or_small [of "v AND 0x7f" 7 1] m mod_less_divisor [of 128 "unat v"] by (simp add: or.commute)
    then have "unat (ucast ((v AND 0x7f) OR 0x80) :: u8) = 128 + unat v mod 128"
      using mod_less_divisor [of 128 "unat v"] by (simp add: unat_ucast_mod)
    then show ?thesis using septet_high [of "unat v"] by (simp add: word_unat_eq_iff del: of_nat_add)
  qed
  have d: "unat (drop_bit 7 v) = unat v div 128" by (simp add: unat_drop_bit_div)
  have v: "varint_septets v = word_of_nat (128 + unat v mod 128) # varint_septets (drop_bit 7 v)"
    using "1.prems" b by (subst varint_septets.simps) simp
  show ?case
  proof (cases "drop_bit 7 v = 0")
    case True
    then have s: "unat v < 128" using d by (simp add: div_eq_0_iff)
    have "(word_of_nat (128 + unat v mod 128) :: u8) AND 0x7f = word_of_nat (unat v)"
      using s unat_and_7f [of "word_of_nat (128 + unat v mod 128)"] septet_high [of "unat v"] small_byte [of "unat v"]
      by (simp add: word_unat_eq_iff mod_add_self1 del: of_nat_add)
    moreover have "varint_septets (drop_bit 7 v) = []" unfolding True by (subst varint_septets.simps) simp
    ultimately show ?thesis using s v by (simp add: varint_small del: of_nat_add)
  next
    case False
    have big: "\<not> unat v < 128"
    proof
      assume "unat v < 128"
      then have "unat (drop_bit 7 v) = 0" by (simp only: d div_less)
      with False show False by (simp only: unat_eq_zero)
    qed
    have "varint_septets (drop_bit 7 v) \<noteq> []" using False by (subst varint_septets.simps) simp
    then obtain a l where l: "varint_septets (drop_bit 7 v) = a # l" by (cases "varint_septets (drop_bit 7 v)") auto
    from "1.IH" [OF "1.prems" False] show ?thesis unfolding v l d varint_large [OF big] by simp
  qed
qed

lemma encode_varint_eq: "pb_encode_varint v s = pb_write (varint_bytes (unat v)) (length (varint_bytes (unat v))) s"
proof (cases "v \<le> 0x7f")
  case True
  then have "unat v < 128" by (simp add: word_le_nat_alt)
  moreover have "(ucast v :: u8) = word_of_nat (unat v)" by simp
  ultimately show ?thesis using True by (simp add: pb_encode_varint_def varint_small)
next
  case False
  then have "v \<noteq> 0" by auto
  note e = encode_septets [OF this]
  have "length (varint_septets v) = length (varint_bytes (unat v))" using arg_cong [OF e, of length] by simp
  moreover have "length (varint_bytes (unat v)) \<le> 10" using length_varint [of "unat v" 9] u64_varint [of v] by simp
  ultimately show ?thesis using False e by (simp add: pb_encode_varint_def Let_def)
qed

section \<open>Numbers of fixed size and zigzag numbers\<close>

definition zigzag :: "u64 \<Rightarrow> u64" where
  "zigzag v = (if v <s 0 then NOT (push_bit 1 v) else push_bit 1 v)"

definition unzigzag :: "u64 \<Rightarrow> u64" where
  "unzigzag v = (if v AND 1 \<noteq> 0 then NOT (drop_bit 1 v) else drop_bit 1 v)"

lemma negative_bit: "(v :: u64) <s 0 \<longleftrightarrow> bit v 63"
  using bit_last_iff [of v] by (simp add: word_sless_alt)

lemma bit_zigzag: "bit (zigzag v) n \<longleftrightarrow> n < 64 \<and> (bit v 63 \<noteq> (0 < n \<and> bit v (n - 1)))"
proof -
  have p: "bit (push_bit 1 v) n \<longleftrightarrow> n < 64 \<and> 0 < n \<and> bit v (n - 1)" for n
    by (simp only: bit_push_bit_iff) (auto simp: Suc_le_eq)
  show ?thesis
  proof (cases "bit v 63")
    case True
    then have "zigzag v = NOT (push_bit 1 v)" by (simp only: zigzag_def negative_bit if_True)
    then have "bit (zigzag v) n \<longleftrightarrow> n < 64 \<and> \<not> bit (push_bit 1 v) n" by (simp only: bit_not_iff) (simp add: bit_simps)
    with True p [of n] show ?thesis by blast
  next
    case False
    then have "zigzag v = push_bit 1 v" by (simp only: zigzag_def negative_bit if_False)
    with False p [of n] show ?thesis by (simp del: push_bit_eq_mult)
  qed
qed

lemma unzigzag_zigzag: "unzigzag (zigzag v) = v"
proof (rule bit_word_eqI)
  fix n
  assume n: "n < LENGTH(64)"
  have "zigzag v AND 1 \<noteq> 0 \<longleftrightarrow> bit v 63"
    using and_exp_eq_0_iff_not_bit [of "zigzag v" 0] bit_zigzag [of v 0] by simp
  then have "bit (unzigzag (zigzag v)) n \<longleftrightarrow> bit v 63 \<noteq> bit (zigzag v) (Suc n)"
    using n by (simp add: unzigzag_def bit_not_iff bit_drop_bit_eq)
  also have "\<dots> \<longleftrightarrow> bit v n" using n bit_zigzag [of v "Suc n"] by (cases "n = 63") auto
  finally show "bit (unzigzag (zigzag v)) n \<longleftrightarrow> bit v n" .
qed

definition get_svarint :: "u64 reader" where
  "get_svarint = rbind get_varint (\<lambda>v. rret (unzigzag v))"

lemma decode_svarint_refines: "refines pb_decode_svarint get_svarint"
  unfolding pb_decode_svarint_def get_svarint_def unzigzag_def [symmetric]
  by (rule refines_bind [OF decode_varint_refines refines_return])

text \<open>Bytes that are put together with shifts are the little-endian number.\<close>

lemma byte_word: "(ucast (b :: u8) :: 'a::len word) = word_of_nat (unat b)"
  by simp

lemma or_byte:
  assumes "r < 256 ^ k"
  shows "word_of_nat r OR push_bit (8 * k) (ucast (b :: u8)) = (word_of_nat (r + 256 ^ k * unat b) :: 'a::len word)"
proof -
  have "(256 :: nat) ^ k = 2 ^ (8 * k)" by (simp add: power_mult)
  then show ?thesis using or_septet [of r "8 * k" "unat b"] assms by simp
qed

primrec or_bytes :: "nat \<Rightarrow> bytes \<Rightarrow> 'a::len word" where
  "or_bytes k [] = 0"
| "or_bytes k (b # p) = push_bit (8 * k) (ucast b) OR or_bytes (Suc k) p"

lemma or_bytes_val: "r < 256 ^ k \<Longrightarrow> word_of_nat r OR or_bytes k p = (word_of_nat (r + 256 ^ k * le_val p) :: 'a::len word)"
proof (induction p arbitrary: r k)
  case (Cons b p)
  have "r + 256 ^ k * unat b < 256 ^ k + 256 ^ k * unat b" using Cons.prems by simp
  also have "\<dots> = 256 ^ k * (unat b + 1)" by simp
  also have "\<dots> \<le> 256 ^ k * 256" by (rule mult_le_mono2) (use unat_byte_less [of b] in linarith)
  finally have r: "r + 256 ^ k * unat b < 256 ^ Suc k" by (simp add: mult.commute)
  have "word_of_nat r OR or_bytes k (b # p) = word_of_nat (r + 256 ^ k * unat b) OR (or_bytes (Suc k) p :: 'a word)"
    by (simp only: or_bytes.simps or.assoc [symmetric] or_byte [OF Cons.prems])
  also have "\<dots> = word_of_nat (r + 256 ^ k * unat b + 256 ^ Suc k * le_val p)" by (rule Cons.IH [OF r])
  also have "r + 256 ^ k * unat b + 256 ^ Suc k * le_val p = r + 256 ^ k * le_val (b # p)" by (simp add: algebra_simps)
  finally show ?case .
qed simp

lemma or_bytes_le: "or_bytes 0 p = word_of_nat (le_val p)"
  using or_bytes_val [of 0 0 p] by simp

lemma fixed32_word:
  "push_bit 0 (ucast a) OR push_bit 8 (ucast b) OR push_bit 16 (ucast c) OR push_bit 24 (ucast d)
    = (word_of_nat (le_val [a, b, c, d]) :: u32)"
  unfolding or_bytes_le [symmetric] by (simp del: push_bit_eq_mult)

lemma fixed64_word:
  "push_bit 0 (ucast a) OR push_bit 8 (ucast b) OR push_bit 16 (ucast c) OR push_bit 24 (ucast d)
    OR push_bit 32 (ucast e) OR push_bit 40 (ucast f) OR push_bit 48 (ucast g) OR push_bit 56 (ucast h)
    = (word_of_nat (le_val [a, b, c, d, e, f, g, h]) :: u64)"
  unfolding or_bytes_le [symmetric] by (simp del: push_bit_eq_mult)

definition get_fixed32 :: "u32 reader" where
  "get_fixed32 = rbind (cbs_get 4) (\<lambda>p.
     rret (push_bit 0 (ucast (p ! 0)) OR push_bit 8 (ucast (p ! 1)) OR push_bit 16 (ucast (p ! 2)) OR push_bit 24 (ucast (p ! 3))))"

definition get_fixed64 :: "u64 reader" where
  "get_fixed64 = rbind (cbs_get 8) (\<lambda>p.
     rret (push_bit 0 (ucast (p ! 0)) OR push_bit 8 (ucast (p ! 1)) OR push_bit 16 (ucast (p ! 2)) OR push_bit 24 (ucast (p ! 3))
       OR push_bit 32 (ucast (p ! 4)) OR push_bit 40 (ucast (p ! 5)) OR push_bit 48 (ucast (p ! 6)) OR push_bit 56 (ucast (p ! 7))))"

lemma decode_fixed32_refines: "refines pb_decode_fixed32 get_fixed32"
  unfolding pb_decode_fixed32_def get_fixed32_def by (rule refines_bind [OF refines_read refines_return])

lemma decode_fixed64_refines: "refines pb_decode_fixed64 get_fixed64"
  unfolding pb_decode_fixed64_def get_fixed64_def by (rule refines_bind [OF refines_read refines_return])

lemma list4: "length p = 4 \<Longrightarrow> p = [p ! 0, p ! Suc 0, p ! 2, p ! 3]"
  by (rule nth_equalityI) (auto simp: less_Suc_eq numeral_eq_Suc)

lemma list8: "length p = 8 \<Longrightarrow> p = [p ! 0, p ! Suc 0, p ! 2, p ! 3, p ! 4, p ! 5, p ! 6, p ! 7]"
  by (rule nth_equalityI) (auto simp: less_Suc_eq numeral_eq_Suc)

lemma get_fixed32_append: "length p = 4 \<Longrightarrow> get_fixed32 (p @ r) = (Some (word_of_nat (le_val p)), r)"
  unfolding get_fixed32_def fixed32_word
  by (simp add: rbind_def cbs_get_append list4 [symmetric] del: le_val_Cons)

lemma get_fixed64_append: "length p = 8 \<Longrightarrow> get_fixed64 (p @ r) = (Some (word_of_nat (le_val p)), r)"
  unfolding get_fixed64_def fixed64_word
  by (simp add: rbind_def cbs_get_append list8 [symmetric] del: le_val_Cons)

text \<open>Shifting and masking writes the little-endian bytes.\<close>

lemma byte_of_shift: "(ucast (drop_bit k w AND 0xff) :: u8) = word_of_nat (unat w div 2 ^ k mod 256)" for w :: "'a::len word"
proof (rule bit_word_eqI)
  fix n
  assume n: "n < LENGTH(8)"
  have "(word_of_nat (unat w div 2 ^ k mod 256) :: u8) = word_of_nat (take_bit 8 (drop_bit k (unat w)))"
    by (simp add: take_bit_eq_mod drop_bit_eq_div)
  then have "bit (word_of_nat (unat w div 2 ^ k mod 256) :: u8) n \<longleftrightarrow> bit w (k + n)"
    using n by (simp add: bit_of_nat_iff bit_take_bit_iff bit_drop_bit_eq bit_unsigned_iff)
  moreover have m: "drop_bit k w AND 0xff = take_bit 8 (drop_bit k w)" by (simp add: take_bit_eq_mask mask_eq_exp_minus_1)
  have "bit (ucast (drop_bit k w AND 0xff) :: u8) n \<longleftrightarrow> bit w (k + n)"
    unfolding m using n by (simp add: bit_simps)
  ultimately show "bit (ucast (drop_bit k w AND 0xff) :: u8) n \<longleftrightarrow> bit (word_of_nat (unat w div 2 ^ k mod 256) :: u8) n"
    by simp
qed

lemma le_bytes_map: "le_bytes n v = map (\<lambda>i. word_of_nat (v div 256 ^ i mod 256)) [0..<n]"
proof (induction n arbitrary: v)
  case (Suc n)
  have "[0..<Suc n] = 0 # map Suc [0..<n]" by (simp add: upt_conv_Cons map_Suc_upt)
  then show ?case using Suc [of "v div 256"] by (simp add: div_mult2_eq)
qed simp

lemma encode_fixed32_eq: "pb_encode_fixed32 v = pb_write (le_bytes 4 (unat v)) 4"
proof -
  have "[0..<4] = [0, 1, 2, 3]" by (simp add: upt_rec)
  then show ?thesis using byte_of_shift [of 0 v] by (simp add: pb_encode_fixed32_def le_bytes_map byte_of_shift)
qed

lemma encode_fixed64_eq: "pb_encode_fixed64 v = pb_write (le_bytes 8 (unat v)) 8"
proof -
  have "[0..<8] = [0, 1, 2, 3, 4, 5, 6, 7]" by (simp add: upt_rec)
  then show ?thesis using byte_of_shift [of 0 v] by (simp add: pb_encode_fixed64_def le_bytes_map byte_of_shift)
qed

section \<open>Encoders on memory\<close>

text \<open>
  A stream into a buffer has not written more than it may, and the buffer has as many bytes as the
  stream may still write.
\<close>

definition memory_sink :: "'s pb_ostream \<Rightarrow> bool" where
  "memory_sink s \<longleftrightarrow>
     (\<exists>w r. os_sink s = BufWrite w r \<and> max_size s \<le> bytes_written s + length r)
     \<and> bytes_written s \<le> max_size s \<and> max_size s < 2 ^ 64"

definition sent :: "'s pb_ostream \<Rightarrow> bytes" where
  "sent s = (case os_sink s of BufWrite w r \<Rightarrow> w | _ \<Rightarrow> [])"

definition unwritten :: "'s pb_ostream \<Rightarrow> bytes" where
  "unwritten s = (case os_sink s of BufWrite w r \<Rightarrow> r | _ \<Rightarrow> [])"

definition room :: "'s pb_ostream \<Rightarrow> nat" where
  "room s = max_size s - bytes_written s"

definition emit :: "bytes \<Rightarrow> 's pb_ostream \<Rightarrow> 's pb_ostream" where
  "emit p s = s\<lparr>os_sink := BufWrite (sent s @ p) (drop (length p) (unwritten s)), bytes_written := bytes_written s + length p\<rparr>"

lemma emit_simps [simp]:
  "sent (emit p s) = sent s @ p" "unwritten (emit p s) = drop (length p) (unwritten s)"
  "bytes_written (emit p s) = bytes_written s + length p" "max_size (emit p s) = max_size s"
  "emit q (emit p s) = emit (p @ q) s" "room (emit p s) = room s - length p"
  "sent (s\<lparr>os_errmsg := e\<rparr>) = sent s" "emit p (s\<lparr>os_errmsg := e\<rparr>) = (emit p s)\<lparr>os_errmsg := e\<rparr>"
  by (simp_all add: sent_def unwritten_def emit_def room_def add.commute add.left_commute)

lemma emit_Nil [simp]: "memory_sink s \<Longrightarrow> emit [] s = s"
  by (auto simp: memory_sink_def emit_def sent_def unwritten_def)

lemma emit_memory [simp]: "memory_sink s \<Longrightarrow> length p \<le> room s \<Longrightarrow> memory_sink (emit p s)"
  by (auto simp: memory_sink_def emit_def sent_def unwritten_def room_def)

text \<open>
  An encoder appends its encoding if there is room; otherwise it fails after a part of it that
  fits.  On a stream that only counts it counts the bytes.
\<close>

definition pb_appends :: "'s pb_encoder \<Rightarrow> bytes \<Rightarrow> bool" where
  "pb_appends m p \<longleftrightarrow>
     (\<forall>s. memory_sink s \<longrightarrow>
        (if length p \<le> room s then m s = Some (True, emit p s)
         else \<exists>q e. prefix q p \<and> length q \<le> room s \<and> m s = Some (False, (emit q s)\<lparr>os_errmsg := e\<rparr>)))
     \<and> (\<forall>s. os_sink s = Sizing \<longrightarrow> bytes_written s + length p < 2 ^ 64 \<longrightarrow>
        m s = Some (True, s\<lparr>bytes_written := bytes_written s + length p\<rparr>))"

lemma pb_appendsD:
  assumes "pb_appends m p" "memory_sink s"
  shows "length p \<le> room s \<Longrightarrow> m s = Some (True, emit p s)"
    and "\<not> length p \<le> room s \<Longrightarrow> \<exists>q e. prefix q p \<and> length q \<le> room s \<and> m s = Some (False, (emit q s)\<lparr>os_errmsg := e\<rparr>)"
  using assms by (auto simp: pb_appends_def)

lemma pb_appends_result:
  assumes "pb_appends m p" "memory_sink s" "m s = Some (True, s')"
  shows "s' = emit p s" "length p \<le> room s"
  using pb_appendsD [OF assms(1,2)] assms(3) by (cases "length p \<le> room s"; fastforce)+

lemma write_appends:
  assumes "n \<le> length buf" "n < 2 ^ 64"
  shows "pb_appends (pb_write buf n) (take n buf)"
  unfolding pb_appends_def
proof (intro conjI allI impI)
  fix s :: "'s pb_ostream"
  assume s: "memory_sink s"
  then obtain w r where w: "os_sink s = BufWrite w r" "max_size s \<le> bytes_written s + length r"
    and b: "bytes_written s \<le> max_size s" "max_size s < 2 ^ 64" by (auto simp: memory_sink_def)
  show "if length (take n buf) \<le> room s then pb_write buf n s = Some (True, emit (take n buf) s)
      else \<exists>q e. prefix q (take n buf) \<and> length q \<le> room s \<and> pb_write buf n s = Some (False, (emit q s)\<lparr>os_errmsg := e\<rparr>)"
  proof (cases "n \<le> room s")
    case True
    then have "bytes_written s + n \<le> max_size s" using b by (simp add: room_def)
    moreover then have "size_add (bytes_written s) n = bytes_written s + n" using b by (simp add: size_simps)
    ultimately show ?thesis using True assms w
      by (cases "n = 0") (auto simp: pb_write_def Let_def emit_def sent_def unwritten_def min_absorb2)
  next
    case False
    then have n: "n \<noteq> 0" "max_size s < bytes_written s + n" using b by (auto simp: room_def)
    have "size_add (bytes_written s) n < bytes_written s \<or> max_size s < size_add (bytes_written s) n"
      using size_add_wraps [of "bytes_written s" n] size_add_id [of "bytes_written s" n] n b assms(2) by (cases "bytes_written s + n < 2 ^ 64") auto
    with False n w assms show ?thesis
      by (auto simp: pb_write_def Let_def pb_write_error_def s intro!: exI [of _ "[]"])
  qed
next
  fix s :: "'s pb_ostream"
  assume "os_sink s = Sizing" "bytes_written s + length (take n buf) < 2 ^ 64"
  then show "pb_write buf n s = Some (True, s\<lparr>bytes_written := bytes_written s + length (take n buf)\<rparr>)"
    using assms by (simp add: pb_write_def Let_def size_simps min_absorb2)
qed

lemma then_appends:
  assumes "pb_appends m p" "pb_appends n q"
  shows "pb_appends (pb_then m n) (p @ q)"
  unfolding pb_appends_def
proof (intro conjI allI impI)
  fix s :: "'a pb_ostream"
  assume s: "memory_sink s"
  show "if length (p @ q) \<le> room s then pb_then m n s = Some (True, emit (p @ q) s)
      else \<exists>q' e. prefix q' (p @ q) \<and> length q' \<le> room s \<and> pb_then m n s = Some (False, (emit q' s)\<lparr>os_errmsg := e\<rparr>)"
  proof (cases "length p \<le> room s")
    case True
    note m = pb_appendsD(1) [OF assms(1) s True]
    note e = emit_memory [OF s True]
    show ?thesis
    proof (cases "length q \<le> room s - length p")
      case True
      with m pb_appendsD(1) [OF assms(2) e] \<open>length p \<le> room s\<close> show ?thesis by (simp add: pb_then_def)
    next
      case False
      with pb_appendsD(2) [OF assms(2) e] obtain q' err where
        "prefix q' q" "length q' \<le> room s - length p" "n (emit p s) = Some (False, (emit (p @ q') s)\<lparr>os_errmsg := err\<rparr>)" by auto
      with m True False show ?thesis by (intro if_not_P [THEN iffD2] exI [of _ "p @ q'"]) (auto simp: pb_then_def)
    qed
  next
    case False
    with pb_appendsD(2) [OF assms(1) s] obtain q' err where
      "prefix q' p" "length q' \<le> room s" "m s = Some (False, (emit q' s)\<lparr>os_errmsg := err\<rparr>)" by auto
    with False show ?thesis by (auto simp: pb_then_def intro: prefix_prefix)
  qed
next
  fix s :: "'a pb_ostream"
  assume s: "os_sink s = Sizing" "bytes_written s + length (p @ q) < 2 ^ 64"
  then have "m s = Some (True, s\<lparr>bytes_written := bytes_written s + length p\<rparr>)" using assms(1) by (simp add: pb_appends_def)
  moreover have "n (s\<lparr>bytes_written := bytes_written s + length p\<rparr>)
      = Some (True, s\<lparr>bytes_written := bytes_written s + length p + length q\<rparr>)"
    using assms(2) s by (simp add: pb_appends_def)
  ultimately show "pb_then m n s = Some (True, s\<lparr>bytes_written := bytes_written s + length (p @ q)\<rparr>)"
    by (simp add: pb_then_def add.assoc)
qed

section \<open>The interface of the wire format\<close>

text \<open>A codec whose encoder and decoder work on streams.\<close>

locale wire_format = codec enc rd valid for enc :: "'a \<Rightarrow> bytes" and rd :: "'a reader" and valid :: "'a \<Rightarrow> bool" +
  fixes put :: "'a \<Rightarrow> 's pb_encoder" and get :: "('t, 'a) pb_decoder"
  assumes put_appends: "valid a \<Longrightarrow> pb_appends (put a) (enc a)"
    and get_refines: "refines get rd"
begin

lemma get_encoded:
  assumes "in_memory s" "valid a" "visible s = enc a @ r"
  obtains e where "get s = Some (Some a, (advance (length (enc a)) s)\<lparr>is_errmsg := e\<rparr>)"
proof -
  have "rd (visible s) = (Some a, r)" using assms(2,3) dec_enc by simp
  with assms(3) that show thesis using refinesE [OF get_refines assms(1)] by fastforce
qed

lemma put_get:
  assumes "memory_sink s" "valid a" "put a s = Some (True, s')"
    and "in_memory t" "visible t = drop (length (sent s)) (sent s') @ r"
  obtains e where "get t = Some (Some a, (advance (length (sent s') - length (sent s)) t)\<lparr>is_errmsg := e\<rparr>)"
proof -
  from pb_appends_result(1) [OF put_appends [OF assms(2)] assms(1,3)] have s': "sent s' = sent s @ enc a" by simp
  with assms(5) have "visible t = enc a @ r" by simp
  then obtain e where "get t = Some (Some a, (advance (length (enc a)) t)\<lparr>is_errmsg := e\<rparr>)"
    by (rule get_encoded [OF assms(4,2)])
  then show thesis using that s' by simp
qed

end

lemma encode_varint_appends: "pb_appends (pb_encode_varint v) (varint_bytes (unat v))"
proof -
  have "length (varint_bytes (unat v)) \<le> 10" using length_varint [of "unat v" 9] u64_varint [of v] by simp
  then have "pb_appends (pb_write (varint_bytes (unat v)) (length (varint_bytes (unat v)))) (varint_bytes (unat v))"
    using write_appends [of "length (varint_bytes (unat v))" "varint_bytes (unat v)"] by simp
  then show ?thesis by (simp add: encode_varint_eq [abs_def] pb_appends_def)
qed

interpretation varint: wire_format "\<lambda>v. varint_bytes (unat v)" get_varint "\<lambda>_. True" pb_encode_varint pb_decode_varint
  by unfold_locales (simp_all add: get_varint_bytes encode_varint_appends decode_varint_refines)

lemma get_svarint_bytes: "get_svarint (varint_bytes (unat (zigzag v)) @ r) = (Some v, r)"
  by (simp add: get_svarint_def rbind_def get_varint_bytes unzigzag_zigzag)

interpretation svarint: wire_format "\<lambda>v. varint_bytes (unat (zigzag v))" get_svarint "\<lambda>_. True" pb_encode_svarint pb_decode_svarint
  by unfold_locales
    (simp_all add: get_svarint_bytes pb_encode_svarint_def zigzag_def [symmetric] encode_varint_appends decode_svarint_refines)

interpretation fixed32: wire_format "\<lambda>v. le_bytes 4 (unat v)" get_fixed32 "\<lambda>_. True" pb_encode_fixed32 pb_decode_fixed32
proof
  fix a :: u32 and r
  show "get_fixed32 (le_bytes 4 (unat a) @ r) = (Some a, r)"
    using unsigned_less [of a, where ?'a = nat] by (simp add: get_fixed32_append)
  show "pb_appends (pb_encode_fixed32 a) (le_bytes 4 (unat a))"
    using write_appends [of 4 "le_bytes 4 (unat a)"] by (simp add: encode_fixed32_eq)
qed (rule decode_fixed32_refines)

interpretation fixed64: wire_format "\<lambda>v. le_bytes 8 (unat v)" get_fixed64 "\<lambda>_. True" pb_encode_fixed64 pb_decode_fixed64
proof
  fix a :: u64 and r
  show "get_fixed64 (le_bytes 8 (unat a) @ r) = (Some a, r)"
    using unsigned_less [of a, where ?'a = nat] by (simp add: get_fixed64_append)
  show "pb_appends (pb_encode_fixed64 a) (le_bytes 8 (unat a))"
    using write_appends [of 8 "le_bytes 8 (unat a)"] by (simp add: encode_fixed64_eq)
qed (rule decode_fixed64_refines)

end
