(* ===== verification/PbWire.thy ===== *)
theory PbWire imports PbSpec begin

text \<open>
  Numbers of 32 bits, tags, strings and the skipping of fields in the wire format of nanopb.
\<close>

section \<open>Varints of 32 bits\<close>

lemma unat_small: "n < 2 ^ LENGTH('a) \<Longrightarrow> unat (word_of_nat n :: 'a::len word) = n"
  by (simp only: unat_of_nat take_bit_eq_mod mod_less)

lemma varint32_loop_step:
  assumes "in_memory s" "visible s = b # c"
  shows "varint32_loop result bitpos s =
    (if 32 \<le> bitpos \<and> b AND 0x7f \<noteq> 0 \<and> (drop_bit 31 result = 0 \<or> b \<noteq> (if bitpos < 63 then 0xff else 0x01))
     then PB_RETURN_ERROR ''varint overflow'' (advance 1 s)
     else let acc = (if 32 \<le> bitpos then result else result OR push_bit (unat bitpos) (ucast (b AND 0x7f)))
          in if b AND 0x80 \<noteq> 0 then varint32_loop acc (bitpos + 7) (advance 1 s)
             else Some (Some (acc, bitpos + 7, b), advance 1 s))"
  by (subst varint32_loop.simps)
    (simp only: readbyte_memory [OF assms(1)] assms(2) list.case Let_def Option.bind.bind_lunit option.case prod.case)

lemma position: "i \<le> 36 \<Longrightarrow> unat (word_of_nat (7 * i) :: u8) = 7 * i"
  by (simp only: unat_of_nat take_bit_eq_mod) simp

lemma position_less:
  "i \<le> 36 \<Longrightarrow> 32 \<le> (word_of_nat (7 * i) :: u8) \<longleftrightarrow> 5 \<le> i" "i \<le> 36 \<Longrightarrow> (word_of_nat (7 * i) :: u8) < 63 \<longleftrightarrow> i < 9"
  using position [of i] by (simp_all only: word_le_nat_alt word_less_nat_alt) auto

lemma position_Suc: "word_of_nat (7 * i) + 7 = (word_of_nat (7 * Suc i) :: u8)"
  by simp

text \<open>The byte of a varint and what follows it.\<close>

lemma varint_bytes_cases:
  obtains (last_byte) b where "w < 128" "varint_bytes w = [b]" "unat b = w" "b AND 0x80 = 0" "unat b mod 128 = w"
  | (more) b where "\<not> w < 128" "varint_bytes w = b # varint_bytes (w div 128)" "unat b = 128 + w mod 128" "b AND 0x80 \<noteq> 0"
    "unat b mod 128 = w mod 128"
proof (cases "w < 128")
  case True
  have "unat (word_of_nat w :: u8) = w" using True by (intro small_byte) simp
  moreover then have "(word_of_nat w :: u8) AND 0x80 = 0" using True by (simp only: and_80_zero)
  ultimately show thesis using last_byte [where b = "word_of_nat w"] True by (simp add: varint_small)
next
  case False
  let ?b = "word_of_nat (128 + w mod 128) :: u8"
  have "?b AND 0x80 \<noteq> 0" using septet_high [of w] by (simp only: and_80_zero)
  with False septet_high [of w] more [where b = ?b] show thesis by (simp add: varint_large mod_add_self1 del: of_nat_add)
qed

text \<open>A varint of any length: all bytes but the last one have the high bit.\<close>

fun varint_shape :: "bytes \<Rightarrow> bool" where
  "varint_shape [] = False"
| "varint_shape [b] = (unat b < 128)"
| "varint_shape (b # b' # p) = (\<not> unat b < 128 \<and> varint_shape (b' # p))"

lemma varint_shape_Cons: "varint_shape (b # p) \<longleftrightarrow> (if p = [] then unat b < 128 else \<not> unat b < 128 \<and> varint_shape p)"
  by (cases p) simp_all

lemma varint_shape_drop: "varint_shape p \<Longrightarrow> n < length p \<Longrightarrow> varint_shape (drop n p)"
proof (induction n arbitrary: p)
  case (Suc n)
  then obtain b q where "p = b # q" "n < length q" by (cases p) auto
  with Suc show ?case by (auto simp: varint_shape_Cons split: if_splits)
qed simp

lemma varint_bytes_shape: "varint_shape (varint_bytes v)"
proof (induction v rule: varint_bytes.induct)
  case (1 v)
  show ?case
  proof (cases rule: varint_bytes_cases [of v])
    case (last_byte b)
    then show ?thesis by simp
  next
    case (more b)
    have "varint_bytes (v div 128) \<noteq> []" by (subst varint_bytes.simps) simp
    with more "1.IH" [OF more(1)] show ?thesis by (simp add: varint_shape_Cons)
  qed
qed

lemma septets_shape: "varint_shape p \<Longrightarrow> length p \<le> n \<Longrightarrow> septets n (p @ c) = (Some p, c)"
proof (induction p arbitrary: n)
  case (Cons b p)
  then obtain m where n: "n = Suc m" by (cases n) auto
  with Cons show ?case by (auto simp: varint_shape_Cons split: if_splits)
qed simp

lemma septets_val_less: "septets_val p < 128 ^ length p"
proof (induction p)
  case (Cons b p)
  have "unat b mod 128 < 128" by simp
  moreover have "septets_val p + 1 \<le> 128 ^ length p" using Cons by simp
  then have "128 * (septets_val p + 1) \<le> 128 * 128 ^ length p" by (rule mult_le_mono2)
  ultimately show ?case by simp
qed simp

text \<open>
  The bytes of a varint from the sixth one on add no bits to a number of 32 bits: they may be padding,
  without bits, or the extension of a sign bit.  \<open>i\<close> is the place of the first of them.
\<close>

fun padding_ok :: "bool \<Rightarrow> nat \<Rightarrow> bytes \<Rightarrow> bool" where
  "padding_ok neg i [] = True"
| "padding_ok neg i (b # p) =
     ((unat b mod 128 = 0 \<or> neg \<and> b = (if i < 9 then 0xff else 0x01)) \<and> padding_ok neg (Suc i) p)"

text \<open>Five bytes have 35 bits, of which the last three must be zero.\<close>

definition fits32 :: "bytes \<Rightarrow> bool" where
  "fits32 p \<longleftrightarrow> (if length p \<le> 5 then septets_val p < 2 ^ 32 else padding_ok (bit (septets_val p) 31) 5 (drop 5 p))"

lemma septet_nonzero: "b AND 0x7f \<noteq> 0 \<longleftrightarrow> unat (b :: u8) mod 128 \<noteq> 0"
  using unat_and_7f [of b] by (metis unat_eq_zero)

lemma overflow_error: "\<exists>k e. PB_RETURN_ERROR msg (advance n s) = Some (None, (advance k s)\<lparr>is_errmsg := Some e\<rparr>)"
  by (cases "is_errmsg s") (auto simp: PB_RETURN_ERROR_def PB_SET_ERROR_def)

lemma varint32_high:
  assumes "in_memory s" "visible s = p @ c" "varint_shape p" "5 \<le> i" "i + length p \<le> 37"
  shows "if padding_ok (drop_bit 31 result \<noteq> 0) i p
    then varint32_loop result (word_of_nat (7 * i)) s
      = Some (Some (result, word_of_nat (7 * (i + length p)), List.last p), advance (length p) s)
    else \<exists>k e. varint32_loop result (word_of_nat (7 * i)) s = Some (None, (advance k s)\<lparr>is_errmsg := Some e\<rparr>)"
  using assms
proof (induction p arbitrary: s i)
  case (Cons b p)
  let ?neg = "drop_bit 31 result \<noteq> 0"
  have i: "i \<le> 36" using Cons.prems(5) by simp
  have bad: "32 \<le> (word_of_nat (7 * i) :: u8) \<and> b AND 0x7f \<noteq> 0
      \<and> (drop_bit 31 result = 0 \<or> b \<noteq> (if (word_of_nat (7 * i) :: u8) < 63 then 0xff else 0x01))
    \<longleftrightarrow> \<not> (unat b mod 128 = 0 \<or> ?neg \<and> b = (if i < 9 then 0xff else 0x01))"
    by (simp only: position_less [OF i] Cons.prems(4) septet_nonzero [of b] de_Morgan_disj de_Morgan_conj simp_thms)
  have high: "b AND 0x80 \<noteq> 0 \<longleftrightarrow> p \<noteq> []" using Cons.prems(3) by (simp add: varint_shape_Cons and_80_zero split: if_splits)
  have pos: "32 \<le> (word_of_nat (7 * i) :: u8)" using position_less(1) [OF i] Cons.prems(4) by blast
  note step = varint32_loop_step [OF Cons.prems(1), of b "p @ c" result "word_of_nat (7 * i)", unfolded bad position_Suc]
  show ?case
  proof (cases "unat b mod 128 = 0 \<or> ?neg \<and> b = (if i < 9 then 0xff else 0x01)")
    case False
    then have "varint32_loop result (word_of_nat (7 * i)) s = PB_RETURN_ERROR ''varint overflow'' (advance 1 s)"
      using step Cons.prems(2) by simp
    moreover have "\<not> padding_ok ?neg i (b # p)" using False by (simp only: padding_ok.simps) blast
    ultimately show ?thesis using overflow_error [of "''varint overflow''" 1 s] by (simp only: if_False)
  next
    case True
    have run: "varint32_loop result (word_of_nat (7 * i)) s =
        (if p \<noteq> [] then varint32_loop result (word_of_nat (7 * Suc i)) (advance 1 s)
         else Some (Some (result, word_of_nat (7 * Suc i), b), advance 1 s))"
      using step Cons.prems(2) True pos high by (simp only: append_Cons if_True if_False not_True_eq_False Let_def)
    show ?thesis
    proof (cases "p = []")
      case True
      with run \<open>unat b mod 128 = 0 \<or> _\<close> show ?thesis by simp
    next
      case False
      have "in_memory (advance 1 s)" "visible (advance 1 s) = p @ c" "varint_shape p" "5 \<le> Suc i" "Suc i + length p \<le> 37"
        using Cons.prems False by (simp_all add: varint_shape_Cons)
      from Cons.IH [OF this] True False run show ?thesis by (auto split: if_splits)
    qed
  qed
qed simp

text \<open>The first five bytes: either the number ends there, or the loop is at bit 35.\<close>

lemma varint32_low:
  assumes "in_memory s" "visible s = p @ c" "varint_shape p" "r < 2 ^ (7 * i)" "i \<le> 5"
  shows "varint32_loop (word_of_nat r) (word_of_nat (7 * i)) s =
    (if i + length p \<le> 5
     then Some (Some (word_of_nat (r + 2 ^ (7 * i) * septets_val p), word_of_nat (7 * (i + length p)), List.last p), advance (length p) s)
     else varint32_loop (word_of_nat (r + 2 ^ (7 * i) * septets_val p)) (word_of_nat (7 * 5)) (advance (5 - i) s))"
  using assms
proof (induction p arbitrary: s r i)
  case (Cons b p)
  show ?case
  proof (cases "i = 5")
    case True
    have "(2 ^ 35 :: u32) = 0" by simp
    then have "(word_of_nat (r + 2 ^ 35 * septets_val (b # p)) :: u32) = word_of_nat r"
      by (simp only: of_nat_add of_nat_mult of_nat_power of_nat_numeral mult_zero_left add_0_right)
    with True Cons.prems(1) show ?thesis by (simp del: septets_val_simps of_nat_add of_nat_mult)
  next
    case False
    let ?r = "r + 2 ^ (7 * i) * (unat b mod 128)"
    have i: "i \<le> 36" "\<not> 5 \<le> i" using Cons.prems(5) False by simp_all
    have acc: "word_of_nat r OR push_bit (unat (word_of_nat (7 * i) :: u8)) (ucast (b AND 0x7f)) = (word_of_nat ?r :: u32)"
      unfolding position [OF i(1)] septet_word by (rule or_septet [OF Cons.prems(4)])
    have high: "b AND 0x80 \<noteq> 0 \<longleftrightarrow> p \<noteq> []" using Cons.prems(3) by (simp add: varint_shape_Cons and_80_zero split: if_splits)
    have pos: "\<not> 32 \<le> (word_of_nat (7 * i) :: u8)" using position_less(1) [OF i(1)] i(2) by blast
    have run: "varint32_loop (word_of_nat r) (word_of_nat (7 * i)) s =
        (if p \<noteq> [] then varint32_loop (word_of_nat ?r) (word_of_nat (7 * Suc i)) (advance 1 s)
         else Some (Some (word_of_nat ?r, word_of_nat (7 * Suc i), b), advance 1 s))"
      using varint32_loop_step [OF Cons.prems(1), of b "p @ c" "word_of_nat r" "word_of_nat (7 * i)"] Cons.prems(2) pos high
      by (simp only: append_Cons acc position_Suc if_True if_False not_True_eq_False Let_def simp_thms)
    show ?thesis
    proof (cases "p = []")
      case True
      with run i show ?thesis by (simp del: of_nat_add of_nat_mult)
    next
      case False
      have "?r < 2 ^ (7 * i) + 2 ^ (7 * i) * (unat b mod 128)" using Cons.prems(4) by simp
      also have "\<dots> = 2 ^ (7 * i) * (unat b mod 128 + 1)" by simp
      also have "\<dots> \<le> 2 ^ (7 * i) * 128" by (rule mult_le_mono2) (use mod_less_divisor [of 128 "unat b"] in simp)
      finally have r: "?r < 2 ^ (7 * Suc i)" by (simp add: power_add mult.commute)
      have vis: "in_memory (advance 1 s)" "visible (advance 1 s) = p @ c" "varint_shape p" "Suc i \<le> 5"
        using Cons.prems False i by (simp_all add: varint_shape_Cons)
      have val: "?r + 2 ^ (7 * Suc i) * septets_val p = r + 2 ^ (7 * i) * septets_val (b # p)"
        by (simp add: algebra_simps power_add)
      have "1 + (5 - Suc i) = 5 - i" using i by simp
      with Cons.IH [OF vis(1,2,3) r vis(4)] False run show ?thesis
        unfolding val by (simp del: of_nat_add of_nat_mult septets_val_simps)
    qed
  qed
qed simp

lemma and_70: "unat b < 128 \<Longrightarrow> b AND 0x70 = 0 \<longleftrightarrow> unat (b :: u8) < 16"
proof -
  have "\<forall>n \<in> set [0..<256]. unat (word_of_nat n :: u8) < 128 \<longrightarrow>
      ((word_of_nat n :: u8) AND 0x70 = 0 \<longleftrightarrow> unat (word_of_nat n :: u8) < 16)" by code_simp
  from u8_exhaust [OF this, of b] show "unat b < 128 \<Longrightarrow> b AND 0x70 = 0 \<longleftrightarrow> unat b < 16" by blast
qed

lemma fifth_byte:
  assumes "varint_shape p" "length p = 5"
  shows "List.last p AND 0x70 = 0 \<longleftrightarrow> septets_val p < 2 ^ 32"
proof -
  obtain a0 a1 a2 a3 b where p: "p = [a0, a1, a2, a3] @ [b]" using assms(2) by (auto simp: numeral_eq_Suc length_Suc_conv)
  have b: "unat b < 128" using assms(1) by (simp add: p)
  have "septets_val p = septets_val [a0, a1, a2, a3] + 2 ^ 28 * unat b" using b by (simp add: p algebra_simps)
  moreover have "septets_val [a0, a1, a2, a3] < 2 ^ 28" using septets_val_less [of "[a0, a1, a2, a3]"] by simp
  ultimately show ?thesis using and_70 [OF b] p by auto
qed

text \<open>Which varints the decoder for 32 bits takes, and what it makes of them.\<close>

lemma varint32_eof_exact:
  assumes s: "in_memory s" "visible s = p @ c" and p: "varint_shape p" "length p \<le> 37"
  shows "if fits32 p
    then pb_decode_varint32_eof s = Some (Some (word_of_nat (septets_val p)), False, advance (length p) s)
    else \<exists>k e. pb_decode_varint32_eof s = Some (None, False, (advance k s)\<lparr>is_errmsg := Some e\<rparr>)"
proof -
  obtain b q where bq: "p = b # q" using p(1) by (cases p) simp_all
  have byte: "pb_readbyte s = Some (Some b, advance 1 s)" using s by (simp add: bq readbyte_memory)
  show ?thesis
  proof (cases "q = []")
    case True
    then have "unat b < 128" using p(1) bq by simp
    moreover have "(ucast b :: u32) = word_of_nat (unat b)" by simp
    ultimately show ?thesis using byte True
      by (simp add: pb_decode_varint32_eof_def bq fits32_def and_80_zero)
  next
    case False
    then have q: "\<not> unat b < 128" "varint_shape q" using p(1) bq by (simp_all add: varint_shape_Cons)
    define k where "k = (\<lambda>x :: ((u32 \<times> u8 \<times> u8) option \<times> 'a pb_istream). case x of (r, s) \<Rightarrow>
        (case r of None \<Rightarrow> Some (None, False, s)
         | Some (result, bitpos, byte) \<Rightarrow>
             if bitpos = 35 \<and> byte AND 0x70 \<noteq> 0 then Some (None, False, PB_SET_ERROR ''varint overflow'' s)
             else Some (Some result, False, s)))"
    have f: "(ucast (b AND 0x7f) :: u32) = word_of_nat (unat b mod 128)" by (rule septet_word)
    have start: "pb_decode_varint32_eof s = varint32_loop (word_of_nat (unat b mod 128)) (word_of_nat (7 * 1)) (advance 1 s) \<bind> k"
      unfolding pb_decode_varint32_eof_def k_def using byte q(1) f by (simp add: and_80_zero)
    have n: "in_memory (advance 1 s)" "visible (advance 1 s) = q @ c" using s by (simp_all add: bq)
    have val: "unat b mod 128 + 2 ^ (7 * 1) * septets_val q = septets_val p" by (simp add: bq)
    note low = varint32_low [OF n q(2), of "unat b mod 128" 1, unfolded val]
    show ?thesis
    proof (cases "length p \<le> 5")
      case True
      have "(word_of_nat (7 * length p) :: u8) = 35 \<longleftrightarrow> length p = 5"
        using True position [of "length p"] by (auto simp: word_unat_eq_iff)
      then have five: "(word_of_nat (7 * length p) :: u8) = 35 \<and> List.last p AND 0x70 \<noteq> 0 \<longleftrightarrow> \<not> fits32 p"
      proof (cases "length p = 5")
        case True
        with fifth_byte [OF p(1) True] position [of 5] show ?thesis by (simp add: fits32_def word_unat_eq_iff)
      next
        case False
        with True have "septets_val p < 128 ^ 4" using septets_val_less [of p] power_increasing [of "length p" 4 "128 :: nat"] by simp
        with False True \<open>_ \<longleftrightarrow> length p = 5\<close> show ?thesis by (simp add: fits32_def)
      qed
      have "varint32_loop (word_of_nat (unat b mod 128)) (word_of_nat (7 * 1)) (advance 1 s)
          = Some (Some (word_of_nat (septets_val p), word_of_nat (7 * length p), List.last p), advance (length p) s)"
        using low True False by (simp add: bq del: of_nat_mult septets_val_simps)
      then have "pb_decode_varint32_eof s =
          (if fits32 p then Some (Some (word_of_nat (septets_val p)), False, advance (length p) s)
           else Some (None, False, PB_SET_ERROR ''varint overflow'' (advance (length p) s)))"
        unfolding start using five by (simp add: k_def del: of_nat_mult)
      moreover have "PB_SET_ERROR m t = t\<lparr>is_errmsg := Some (case is_errmsg t of None \<Rightarrow> m | Some e \<Rightarrow> e)\<rparr>" for m and t :: "'a pb_istream"
        by (simp add: PB_SET_ERROR_def split: option.split)
      ultimately show ?thesis by (simp only: if_cancel split: if_split) blast
    next
      case False
      let ?w = "word_of_nat (septets_val p) :: u32"
      have "drop_bit 31 ?w \<noteq> 0 \<longleftrightarrow> bit (septets_val p) 31"
      proof -
        have "drop_bit 31 ?w = 0 \<longleftrightarrow> \<not> bit ?w 31"
        proof
          assume "drop_bit 31 ?w = 0"
          then have "\<not> bit (drop_bit 31 ?w) 0" by (simp only: bit_0_eq) simp
          then show "\<not> bit ?w 31" by (simp add: bit_drop_bit_eq)
        next
          assume a: "\<not> bit ?w 31"
          show "drop_bit 31 ?w = 0"
          proof (rule bit_word_eqI)
            fix j
            assume "j < LENGTH(32)"
            show "bit (drop_bit 31 ?w) j \<longleftrightarrow> bit 0 j" using a by (cases j) (auto simp: bit_drop_bit_eq bit_of_nat_iff)
          qed
        qed
        then show ?thesis by (simp add: bit_of_nat_iff)
      qed
      then have fits: "fits32 p \<longleftrightarrow> padding_ok (drop_bit 31 ?w \<noteq> 0) 5 (drop 5 p)" using False by (simp add: fits32_def)
      have loop: "varint32_loop (word_of_nat (unat b mod 128)) (word_of_nat (7 * 1)) (advance 1 s)
          = varint32_loop ?w (word_of_nat (7 * 5)) (advance 5 s)"
        using low False by (simp add: bq del: of_nat_mult septets_val_simps)
      have d: "in_memory (advance 5 s)" "visible (advance 5 s) = drop 5 p @ c" "varint_shape (drop 5 p)" "5 + length (drop 5 p) = length p"
        using s False p(1) by (simp_all add: varint_shape_drop)
      have last_pos: "(word_of_nat (7 * length p) :: u8) \<noteq> 35"
      proof
        assume "(word_of_nat (7 * length p) :: u8) = 35"
        then have "unat (word_of_nat (7 * length p) :: u8) = 35" by (simp only:) simp
        moreover have "unat (word_of_nat (7 * 37) :: u8) = 3" by simp
        ultimately have "length p \<noteq> 37" by auto
        with p(2) \<open>unat _ = 35\<close> False position [of "length p"] show False by simp
      qed
      note high = varint32_high [OF d(1,2,3) order.refl, of ?w, unfolded d(4)]
      show ?thesis
      proof (cases "fits32 p")
        case True
        then have "varint32_loop ?w (word_of_nat (7 * 5)) (advance 5 s)
            = Some (Some (?w, word_of_nat (7 * length p), List.last (drop 5 p)), advance (length p) s)"
          using high p(2) False unfolding fits by simp
        with True show ?thesis unfolding start loop using last_pos by (simp add: k_def del: of_nat_mult)
      next
        case no: False
        then obtain j e where "varint32_loop ?w (word_of_nat (7 * 5)) (advance 5 s)
            = Some (None, (advance j (advance 5 s))\<lparr>is_errmsg := Some e\<rparr>)"
          using high p(2) unfolding fits by (simp only: if_False) blast
        then have "pb_decode_varint32_eof s = Some (None, False, (advance (5 + j) s)\<lparr>is_errmsg := Some e\<rparr>)"
          unfolding start loop by (simp add: k_def)
        with no show ?thesis by (simp only: if_False) blast
      qed
    qed
  qed
qed

text \<open>The shortest encoding of a number that fits.\<close>

lemma fits32_varint: "v < 2 ^ 32 \<Longrightarrow> fits32 (varint_bytes v)"
  using length_varint [of v 4] by (simp add: fits32_def varint_val)

lemma varint32_fits:
  assumes "in_memory s" "visible s = varint_bytes v @ c" "v < 2 ^ 32"
  shows "pb_decode_varint32_eof s = Some (Some (word_of_nat v), False, advance (length (varint_bytes v)) s)"
  using varint32_eof_exact [OF assms(1,2) varint_bytes_shape] length_varint [of v 4] fits32_varint [OF assms(3)] assms(3)
  by (simp add: varint_val)

section \<open>Decoders that succeed\<close>

definition yields :: "('s, 'a) pb_decoder \<Rightarrow> 's pb_istream \<Rightarrow> 'a \<Rightarrow> bytes \<Rightarrow> bool" where
  "yields d s a r \<longleftrightarrow> (\<exists>s'. d s = Some (Some a, s') \<and> in_memory s' \<and> visible s' = r)"

lemma yields_bind:
  assumes "yields m s a r'" "\<And>s'. in_memory s' \<Longrightarrow> visible s' = r' \<Longrightarrow> yields (f a) s' b r"
  shows "yields (pb_bind m f) s b r"
proof -
  from assms(1) obtain s' where "m s = Some (Some a, s')" "in_memory s'" "visible s' = r'" by (auto simp: yields_def)
  with assms(2) show ?thesis by (auto simp: yields_def pb_bind_def)
qed

lemma yields_return: "in_memory s \<Longrightarrow> visible s = r \<Longrightarrow> yields (pb_return a) s a r"
  by (simp add: yields_def pb_return_def)

lemma yields_read: "in_memory s \<Longrightarrow> visible s = p @ r \<Longrightarrow> yields (pb_read null (length p)) s p r"
  by (simp add: yields_def read_memory)

lemma refines_yields: "refines d rd \<Longrightarrow> in_memory s \<Longrightarrow> rd (visible s) = (Some a, r) \<Longrightarrow> yields d s a r"
  using refinesE [of d rd s "Some a" r] refines_rest [of d rd s "Some a" r] unfolding yields_def by metis

context wire_format begin

lemma yields_encoded: "in_memory s \<Longrightarrow> valid a \<Longrightarrow> visible s = enc a @ r \<Longrightarrow> yields get s a r"
  by (rule refines_yields [OF get_refines]) (simp_all add: dec_enc)

end

lemma yields_varint32:
  "in_memory s \<Longrightarrow> visible s = varint_bytes v @ r \<Longrightarrow> v < 2 ^ 32 \<Longrightarrow> yields pb_decode_varint32 s (word_of_nat v) r"
  by (simp add: yields_def pb_decode_varint32_def varint32_fits)

lemma skip_varint_bytes:
  assumes "in_memory s" "visible s = varint_bytes v @ r"
  shows "yields pb_skip_varint s () r"
  using assms
proof (induction v arbitrary: s rule: varint_bytes.induct)
  case (1 v)
  show ?case
  proof (cases rule: varint_bytes_cases [of v])
    case (last_byte b)
    with "1.prems" show ?thesis unfolding yields_def by (subst pb_skip_varint.simps) (simp add: read_memory)
  next
    case (more b)
    have "in_memory (advance 1 s)" "visible (advance 1 s) = varint_bytes (v div 128) @ r"
      using "1.prems" more(2) by simp_all
    from "1.IH" [OF more(1) this] have "yields pb_skip_varint (advance 1 s) () r" .
    moreover have "pb_skip_varint s = pb_skip_varint (advance 1 s)"
      using "1.prems" more(2,4) by (subst pb_skip_varint.simps) (simp add: read_memory)
    ultimately show ?thesis by (simp add: yields_def)
  qed
qed

section \<open>Tags and strings\<close>

definition tag_key :: "pb_wire_type \<Rightarrow> u32 \<Rightarrow> nat" where
  "tag_key wt n = 8 * unat n + unat wt"

lemma encode_tag_value:
  assumes "wt < 8"
  shows "unat (push_bit 3 (ucast n) OR ucast (wt :: u32) :: u64) = tag_key wt n"
proof -
  have w: "unat wt < 8" using assms by (simp add: word_less_nat_alt)
  have n: "unat n < 2 ^ 32" using unsigned_less [of n, where ?'a = nat] by simp
  have u: "unat (ucast wt :: u64) = unat wt" "unat (ucast n :: u64) = unat n"
    using w n by (simp_all add: unat_ucast_mod)
  have "unat (push_bit 3 (ucast n) OR ucast wt :: u64) = unat n * 2 ^ 3 mod 2 ^ 64 + unat wt"
    using shift_or_small [of "ucast wt :: u64" 3 "ucast n"] w u by simp
  then show ?thesis using n by (simp add: tag_key_def mult.commute)
qed

lemma encode_tag_appends: "wt < 8 \<Longrightarrow> pb_appends (pb_encode_tag wt n) (varint_bytes (tag_key wt n))"
  using encode_varint_appends [of "push_bit 3 (ucast n) OR ucast wt"] by (simp only: pb_encode_tag_def encode_tag_value)

lemma decode_tag_bytes:
  assumes "in_memory s" "visible s = varint_bytes (tag_key wt n) @ r" "wt < 8" "n < 2 ^ 29" "wt \<noteq> 0 \<or> n \<noteq> 0"
  shows "\<exists>s'. pb_decode_tag s = Some (Some (wt, n), False, s') \<and> in_memory s' \<and> visible s' = r"
proof -
  have b: "unat wt < 8" "unat n < 2 ^ 29" using assms(3,4) by (simp_all add: word_less_nat_alt)
  then have small: "tag_key wt n < 2 ^ 32" by (simp add: tag_key_def)
  let ?t = "word_of_nat (tag_key wt n) :: u32"
  have "unat ?t = tag_key wt n" using small by (intro unat_small) simp
  then have t: "unat ?t = 8 * unat n + unat wt" by (simp only: tag_key_def)
  have "?t \<noteq> 0"
  proof
    assume "?t = 0"
    then have "unat ?t = 0" by simp
    with t have "unat n = 0" "unat wt = 0" by simp_all
    with assms(5) show False by (simp add: unat_eq_zero)
  qed
  moreover have "?t AND 7 = wt"
    using unat_and_mask [of ?t 3] t b(1) by (simp add: mask_eq_exp_minus_1 word_unat_eq_iff)
  moreover have "drop_bit 3 ?t = n" using t b(1) by (simp add: word_unat_eq_iff unat_drop_bit_div)
  ultimately show ?thesis using varint32_fits [OF assms(1,2) small] assms(1,2) by (simp add: pb_decode_tag_def)
qed

lemma encode_string_appends:
  assumes "length p < 2 ^ 64"
  shows "pb_appends (pb_encode_string p (length p)) (varint_bytes (length p) @ p)"
proof -
  have "unat (word_of_nat (length p) :: u64) = length p" using assms by (simp add: unat_of_nat take_bit_eq_mod)
  then have "pb_appends (pb_encode_varint (word_of_nat (length p))) (varint_bytes (length p))"
    using encode_varint_appends [of "word_of_nat (length p)"] by (simp only:)
  moreover have "pb_appends (pb_write p (length p)) p" using write_appends [of "length p" p] assms by simp
  ultimately show ?thesis unfolding pb_encode_string_def by (rule then_appends)
qed

lemma skip_string_bytes:
  assumes "in_memory s" "visible s = varint_bytes (length p) @ p @ r" "length p < 2 ^ 32"
  shows "yields pb_skip_string s () r"
proof -
  have l: "unat (word_of_nat (length p) :: u32) = length p" using assms(3) by (simp add: unat_of_nat take_bit_eq_mod)
  show ?thesis unfolding pb_skip_string_def
    by (rule yields_bind [OF yields_varint32 [OF assms]], unfold l, rule yields_bind, rule yields_read, assumption, assumption,
        rule yields_return)
qed

text \<open>
  A substream shows the string and nothing else, and closing it, wherever its reader has stopped,
  puts the stream behind the string.
\<close>

lemma substream_bytes:
  assumes "in_memory s" "visible s = varint_bytes (length p) @ p @ r" "length p < 2 ^ 32"
  obtains sub s' where "pb_make_string_substream s = Some (Some sub, s')" "in_memory sub" "visible sub = p"
    "\<And>k e. k \<le> length p \<Longrightarrow> \<exists>s2. pb_close_string_substream ((advance k sub)\<lparr>is_errmsg := e\<rparr>) s' = Some (Some (), s2)
        \<and> in_memory s2 \<and> visible s2 = r"
proof -
  have l: "unat (word_of_nat (length p) :: u32) = length p" using assms(3) by (simp add: unat_of_nat take_bit_eq_mod)
  from yields_varint32 [OF assms] obtain t where t: "pb_decode_varint32 s = Some (Some (word_of_nat (length p)), t)"
    "in_memory t" "visible t = p @ r" by (auto simp: yields_def)
  have left: "bytes_left t = length p + length r" using length_visible [OF t(2)] t(3) by simp
  define sub where "sub = t\<lparr>bytes_left := length p\<rparr>"
  define t' where "t' = t\<lparr>bytes_left := length r\<rparr>"
  have "size_sub (bytes_left t) (length p) = length r" using left t(2) by (simp add: in_memory_def size_simps)
  then have m: "pb_make_string_substream s = Some (Some sub, t')"
    using t(1) left l by (simp add: pb_make_string_substream_def pb_bind_def sub_def t'_def)
  have pr: "take (length p + length r) (buffer_of t) = p @ r" using t(3) left by (simp add: visible_def)
  have d1: "take (length p) (buffer_of t) = p" using arg_cong [OF pr, of "take (length p)"] by (simp add: min_def)
  have d2: "take (length r) (drop (length p) (buffer_of t)) = r" using arg_cong [OF pr, of "drop (length p)"] by (simp add: drop_take)
  have d3: "length p + length r \<le> length (buffer_of t)" using t(2) left by (simp add: in_memory_def)
  note d = d1 d2 d3
  have sub: "in_memory sub" "visible sub = p" "buffer_of sub = buffer_of t" "bytes_left sub = length p"
    using t(2) d left by (simp_all add: sub_def in_memory_def visible_def buffer_of_def)
  have "\<exists>s2. pb_close_string_substream ((advance k sub)\<lparr>is_errmsg := e\<rparr>) t' = Some (Some (), s2)
      \<and> in_memory s2 \<and> visible s2 = r" if k: "k \<le> length p" for k e
  proof -
    let ?u = "(advance k sub)\<lparr>is_errmsg := e\<rparr>"
    have u: "in_memory ?u" "bytes_left ?u = length p - k" using sub by simp_all
    have src: "is_source (advance (length p) sub) = BufRead (drop (length p) (buffer_of t))" by (simp add: advance_def sub(3))
    let ?s2 = "t'\<lparr>is_source := is_source (advance (length p) sub), is_errmsg := e\<rparr>"
    have s2: "in_memory ?s2" "visible ?s2 = r"
      using d t(2) left unfolding src by (simp_all add: in_memory_def visible_def buffer_of_def t'_def)
    have "pb_close_string_substream ?u t' = Some (Some (), ?s2)"
    proof (cases "k = length p")
      case True
      then show ?thesis using u by (simp add: pb_close_string_substream_def Let_def)
    next
      case False
      have "pb_read True (length p - k) ?u = Some (Some (drop k p), advance (length p - k) ?u)"
        using read_memory [OF u(1), of True "length p - k"] sub k by simp
      then show ?thesis using u False k by (simp add: pb_close_string_substream_def Let_def)
    qed
    with s2 show ?thesis by blast
  qed
  with m sub(1,2) that show thesis by blast
qed

end
