(* ===== verification/PbField.thy ===== *)
theory PbField imports PbWire begin

text \<open>
  Fields of protocol buffers: a tag and a value of one of the wire types as they are written, read
  and skipped; and the values of numbers, strings and byte arrays in the memory of a message.
\<close>

section \<open>Fields on the wire\<close>

text \<open>The specification: the values that a field can have on the wire, and their bytes.\<close>

datatype wire_value = Varint u64 | Fixed64 u64 | Fixed32 u32 | Chunk bytes

fun wire_type :: "wire_value \<Rightarrow> pb_wire_type" where
  "wire_type (Varint v) = PB_WT_VARINT"
| "wire_type (Fixed64 v) = PB_WT_64BIT"
| "wire_type (Fixed32 v) = PB_WT_32BIT"
| "wire_type (Chunk p) = PB_WT_STRING"

fun wire_bytes :: "wire_value \<Rightarrow> bytes" where
  "wire_bytes (Varint v) = varint_bytes (unat v)"
| "wire_bytes (Fixed64 v) = le_bytes 8 (unat v)"
| "wire_bytes (Fixed32 v) = le_bytes 4 (unat v)"
| "wire_bytes (Chunk p) = varint_bytes (length p) @ p"

fun put_value :: "wire_value \<Rightarrow> 's pb_encoder" where
  "put_value (Varint v) = pb_encode_varint v"
| "put_value (Fixed64 v) = pb_encode_fixed64 v"
| "put_value (Fixed32 v) = pb_encode_fixed32 v"
| "put_value (Chunk p) = pb_encode_string p (length p)"

definition put_field :: "u32 \<Rightarrow> wire_value \<Rightarrow> 's pb_encoder" where
  "put_field n v = pb_then (pb_encode_tag (wire_type v) n) (put_value v)"

text \<open>What reading a value means: the decoder of its type gives it, or a substream shows its bytes.\<close>

fun reads_value :: "'s pb_istream \<Rightarrow> wire_value \<Rightarrow> bytes \<Rightarrow> bool" where
  "reads_value s (Varint v) r = yields pb_decode_varint s v r"
| "reads_value s (Fixed64 v) r = yields pb_decode_fixed64 s v r"
| "reads_value s (Fixed32 v) r = yields pb_decode_fixed32 s v r"
| "reads_value s (Chunk p) r =
     (\<exists>sub s'. pb_make_string_substream s = Some (Some sub, s') \<and> in_memory sub \<and> visible sub = p
        \<and> (\<forall>k \<le> length p. \<forall>e. yields (pb_close_string_substream ((advance k sub)\<lparr>is_errmsg := e\<rparr>)) s' () r))"

fun wire_ok :: "wire_value \<Rightarrow> bool" where
  "wire_ok (Chunk p) \<longleftrightarrow> length p < 2 ^ 32"
| "wire_ok v \<longleftrightarrow> True"

lemmas wire_types = PB_WT_VARINT_def PB_WT_64BIT_def PB_WT_32BIT_def PB_WT_STRING_def

lemma wire_type_small: "wire_type v < 8"
  by (cases v) (simp_all add: wire_types)

lemma pb_appends_sizing:
  "pb_appends m p \<Longrightarrow> os_sink s = Sizing \<Longrightarrow> bytes_written s + length p < 2 ^ 64 \<Longrightarrow>
    m s = Some (True, s\<lparr>bytes_written := bytes_written s + length p\<rparr>)"
  by (simp add: pb_appends_def)

lemma put_value_appends: "wire_ok v \<Longrightarrow> pb_appends (put_value v) (wire_bytes v)"
  by (cases v) (simp_all add: varint.put_appends fixed64.put_appends fixed32.put_appends encode_string_appends)

lemma put_field_appends: "wire_ok v \<Longrightarrow> pb_appends (put_field n v) (varint_bytes (tag_key (wire_type v) n) @ wire_bytes v)"
  unfolding put_field_def by (rule then_appends [OF encode_tag_appends [OF wire_type_small] put_value_appends])

lemma reads_wire_value:
  assumes "in_memory s" "visible s = wire_bytes v @ r" "wire_ok v"
  shows "reads_value s v r"
proof (cases v)
  case (Chunk p)
  with assms have "visible s = varint_bytes (length p) @ p @ r" "length p < 2 ^ 32" by simp_all
  then obtain sub s' where "pb_make_string_substream s = Some (Some sub, s')" "in_memory sub" "visible sub = p"
    "\<And>k e. k \<le> length p \<Longrightarrow> \<exists>s2. pb_close_string_substream ((advance k sub)\<lparr>is_errmsg := e\<rparr>) s' = Some (Some (), s2)
        \<and> in_memory s2 \<and> visible s2 = r" using substream_bytes [OF assms(1)] by blast
  with Chunk show ?thesis by (simp add: yields_def)
qed (use assms varint.yields_encoded fixed64.yields_encoded fixed32.yields_encoded in auto)

lemma skip_wire_value:
  assumes "in_memory s" "visible s = wire_bytes v @ r" "wire_ok v"
  shows "yields (pb_skip_field (wire_type v)) s () r"
proof (cases v)
  case (Varint x)
  with assms show ?thesis using skip_varint_bytes by (simp add: pb_skip_field_def)
next
  case (Fixed64 x)
  with assms have "yields (pb_read True (length (le_bytes 8 (unat x)))) s (le_bytes 8 (unat x)) r" by (intro yields_read) simp_all
  then show ?thesis using Fixed64 by (simp add: pb_skip_field_def wire_types yields_bind yields_return)
next
  case (Fixed32 x)
  with assms have "yields (pb_read True (length (le_bytes 4 (unat x)))) s (le_bytes 4 (unat x)) r" by (intro yields_read) simp_all
  then show ?thesis using Fixed32 by (simp add: pb_skip_field_def wire_types yields_bind yields_return)
next
  case (Chunk p)
  with assms show ?thesis using skip_string_bytes by (simp add: pb_skip_field_def wire_types)
qed

text \<open>
  Claim C12.  A field that is written to a buffer (a tag, then a varint, a number of fixed size or a
  string) is read back: the tag first, then the value by its decoder or a substream that shows
  exactly the bytes of the string and that can be closed at any place; and skipping the value leads to
  the same place behind it.  A stream that only counts counts the bytes that were written.
\<close>

theorem pb_field_roundtrip:
  assumes "wire_ok v" "0 < n" "n < 2 ^ 29" "memory_sink out" "put_field n v out = Some (True, out')"
    and "in_memory s" "visible s = drop (length (sent out)) (sent out') @ r"
  shows "(\<exists>s1. pb_decode_tag s = Some (Some (wire_type v, n), False, s1)
      \<and> reads_value s1 v r \<and> yields (pb_skip_field (wire_type v)) s1 () r)
    \<and> (\<forall>sz :: 'c pb_ostream. os_sink sz = Sizing \<longrightarrow> bytes_written sz + length (sent out') < 2 ^ 64 \<longrightarrow>
      put_field n v sz = Some (True, sz\<lparr>bytes_written := bytes_written sz + (length (sent out') - length (sent out))\<rparr>))"
proof -
  note ap = put_field_appends [OF assms(1)]
  from pb_appends_result(1) [OF ap assms(4,5)]
  have out': "sent out' = sent out @ varint_bytes (tag_key (wire_type v) n) @ wire_bytes v" by simp
  with assms(7) have "visible s = varint_bytes (tag_key (wire_type v) n) @ (wire_bytes v @ r)" by simp
  moreover have "n \<noteq> 0" using assms(2) by (metis word_not_simps(1))
  ultimately obtain s1 where s1: "pb_decode_tag s = Some (Some (wire_type v, n), False, s1)" "in_memory s1"
    "visible s1 = wire_bytes v @ r"
    using decode_tag_bytes [OF assms(6) _ wire_type_small assms(3)] by blast
  have "\<forall>sz :: 'c pb_ostream. os_sink sz = Sizing \<longrightarrow> bytes_written sz + length (sent out') < 2 ^ 64 \<longrightarrow>
      put_field n v sz = Some (True, sz\<lparr>bytes_written := bytes_written sz + (length (sent out') - length (sent out))\<rparr>)"
  proof (intro allI impI)
    fix sz :: "'c pb_ostream"
    assume "os_sink sz = Sizing" "bytes_written sz + length (sent out') < 2 ^ 64"
    then show "put_field n v sz = Some (True, sz\<lparr>bytes_written := bytes_written sz + (length (sent out') - length (sent out))\<rparr>)"
      using pb_appends_sizing [OF put_field_appends [OF assms(1), of n], of sz] unfolding out' by simp
  qed
  with s1 reads_wire_value [OF s1(2,3) assms(1)] skip_wire_value [OF s1(2,3) assms(1)] show ?thesis by blast
qed

text \<open>The field 1 with the string \<open>hi\<close>.\<close>

lemma pb_field_roundtrip_witness:
  "\<exists>s1. pb_decode_tag (pb_istream_from_buffer [0x0a, 0x02, 0x68, 0x69] 4 :: unit pb_istream) = Some (Some (PB_WT_STRING, 1), False, s1)
     \<and> reads_value s1 (Chunk [0x68, 0x69]) [] \<and> yields (pb_skip_field PB_WT_STRING) s1 () []"
proof -
  let ?v = "Chunk [0x68, 0x69]" and ?out = "pb_ostream_from_buffer (replicate 9 0) 9 :: unit pb_ostream"
  have b: "varint_bytes (tag_key (wire_type ?v) 1) @ wire_bytes ?v = [0x0a, 0x02, 0x68, 0x69]"
    by (simp add: tag_key_def wire_types varint_small)
  have m: "memory_sink ?out" by (simp add: memory_sink_def pb_ostream_from_buffer_def)
  have "room ?out = 9" by (simp add: room_def pb_ostream_from_buffer_def)
  then have p: "put_field 1 ?v ?out = Some (True, emit [0x0a, 0x02, 0x68, 0x69] ?out)"
    using pb_appendsD(1) [OF put_field_appends [of ?v 1] m] unfolding b by simp
  have "sent ?out = []" by (simp add: sent_def pb_ostream_from_buffer_def)
  then have "visible (pb_istream_from_buffer [0x0a, 0x02, 0x68, 0x69] 4 :: unit pb_istream)
      = drop (length (sent ?out)) (sent (emit [0x0a, 0x02, 0x68, 0x69] ?out)) @ []" by simp
  from conjunct1 [OF pb_field_roundtrip [OF _ _ _ m p _ this]] show ?thesis by (simp add: word_less_nat_alt)
qed

section \<open>Numbers of 32 bits\<close>

lemma padding_ok_last:
  "padding_ok neg i p \<Longrightarrow> p \<noteq> [] \<Longrightarrow> i + length p \<le> 9 \<Longrightarrow> unat (List.last p) mod 128 = 0 \<or> List.last p = 0xff"
  by (induction neg i p rule: padding_ok.induct) (auto split: if_splits)

lemma varint_nonempty [simp]: "varint_bytes v \<noteq> []"
  by (subst varint_bytes.simps) simp

lemma varint_last: "0 < v \<Longrightarrow> 0 < unat (List.last (varint_bytes v)) \<and> unat (List.last (varint_bytes v)) < 128"
proof (induction v rule: varint_bytes.induct)
  case (1 v)
  show ?case
  proof (cases rule: varint_bytes_cases [of v])
    case (last_byte b)
    with "1.prems" show ?thesis by simp
  next
    case (more b)
    with "1.IH" [OF more(1)] show ?thesis by (simp add: div_greater_zero_iff)
  qed
qed

lemma drop_varint: "128 ^ n \<le> v \<Longrightarrow> drop n (varint_bytes v) = varint_bytes (v div 128 ^ n) \<and> n < length (varint_bytes v)"
proof (induction n arbitrary: v)
  case 0
  then show ?case by simp
next
  case (Suc n)
  have "128 * 1 \<le> 128 * (128 :: nat) ^ n" by (rule mult_le_mono2) simp
  from order.trans [OF this Suc.prems [unfolded power_Suc]] have "\<not> v < 128" by simp
  moreover have "128 ^ n \<le> v div 128" using Suc.prems by (simp add: less_eq_div_iff_mult_less_eq mult.commute)
  ultimately show ?case using Suc.IH [of "v div 128"] by (simp add: varint_large div_mult2_eq del: of_nat_add)
qed

lemma fits32_large:
  assumes "2 ^ 35 \<le> v"
  shows "fits32 (varint_bytes v) \<longleftrightarrow> padding_ok (bit v 31) 5 (varint_bytes (v div 2 ^ 35))"
  using drop_varint [of 5 v] assms by (simp add: fits32_def varint_val)

lemma sign_bytes: "varint_bytes (2 ^ 29 - 1) = [0xff, 0xff, 0xff, 0xff, 0x01]" "varint_bytes (2 ^ 28) = [0x80, 0x80, 0x80, 0x80, 0x01]"
  by (simp_all add: varint_large varint_small)

lemma fits32_negative:
  assumes "2 ^ 64 - 2 ^ 31 \<le> v" "v < 2 ^ 64"
  shows "fits32 (varint_bytes v)"
proof -
  have "(2 ^ 64 - 2 ^ 31) div 2 ^ 35 \<le> v div 2 ^ 35" "(2 ^ 64 - 2 ^ 31) div 2 ^ 31 \<le> v div 2 ^ 31"
    using assms(1) by (rule div_le_mono)+
  moreover have "v div 2 ^ 35 < 2 ^ 29" "v div 2 ^ 31 < 2 ^ 33" using assms(2) by (simp_all add: less_mult_imp_div_less)
  ultimately have "v div 2 ^ 35 = 2 ^ 29 - 1" "v div 2 ^ 31 = 2 ^ 33 - 1" by simp_all
  then have "v div 2 ^ 35 = 2 ^ 29 - 1" "bit v 31" by (simp_all add: bit_iff_odd)
  moreover have "2 ^ 35 \<le> v" using assms(1) by simp
  ultimately show ?thesis by (simp only: fits32_large sign_bytes) simp
qed

lemma not_fits32:
  assumes "2 ^ 32 \<le> v" "v < 2 ^ 63"
  shows "\<not> fits32 (varint_bytes v)"
proof (cases "2 ^ 35 \<le> v")
  case True
  let ?w = "v div 2 ^ 35"
  have "?w < 128 ^ 4" "0 < ?w" using assms(2) True by (simp_all add: less_mult_imp_div_less div_greater_zero_iff)
  then have l: "length (varint_bytes ?w) \<le> 4" using length_varint [of ?w 3] by simp
  show ?thesis
  proof
    assume "fits32 (varint_bytes v)"
    then have "padding_ok (bit v 31) 5 (varint_bytes ?w)" using fits32_large [OF True] by simp
    from padding_ok_last [OF this varint_nonempty] l varint_last [OF \<open>0 < ?w\<close>] show False by auto
  qed
next
  case False
  then have "length (varint_bytes v) \<le> 5" using length_varint [of v 4] by simp
  with assms(1) show ?thesis by (simp add: fits32_def varint_val)
qed

text \<open>
  Claim C15.  \<open>pb_decode_varint32\<close> reads exactly the varints that \<open>fits32\<close> describes, of any length up to the
  37 bytes after which its position wraps: up to five bytes whose number is below \<open>2 ^ 32\<close>, and longer
  ones whose bytes from the sixth on are padding or, when bit 31 is set, the extension of a sign; all
  others are an overflow.  The result is the low 32 bits.  Among the shortest encodings, those of the numbers below
  \<open>2 ^ 32\<close> and of the negative numbers of 32 bits extended to 64 are read, and those of the numbers from
  \<open>2 ^ 32\<close> up to \<open>2 ^ 63\<close> are not.
\<close>

theorem varint32_range:
  assumes "in_memory s" "visible s = p @ c" "varint_shape p" "length p \<le> 37"
  shows "(if fits32 p then pb_decode_varint32 s = Some (Some (word_of_nat (septets_val p)), advance (length p) s)
      else \<exists>k e. pb_decode_varint32 s = Some (None, (advance k s)\<lparr>is_errmsg := Some e\<rparr>))
    \<and> (p = varint_bytes v \<longrightarrow> septets_val p = v
      \<and> (v < 2 ^ 32 \<or> 2 ^ 64 - 2 ^ 31 \<le> v \<and> v < 2 ^ 64 \<longrightarrow> fits32 p) \<and> (2 ^ 32 \<le> v \<and> v < 2 ^ 63 \<longrightarrow> \<not> fits32 p))"
proof
  show "if fits32 p then pb_decode_varint32 s = Some (Some (word_of_nat (septets_val p)), advance (length p) s)
      else \<exists>k e. pb_decode_varint32 s = Some (None, (advance k s)\<lparr>is_errmsg := Some e\<rparr>)"
    using varint32_eof_exact [OF assms] by (cases "fits32 p") (auto simp: pb_decode_varint32_def simp del: set_error_memory, blast?)
  show "p = varint_bytes v \<longrightarrow> septets_val p = v
      \<and> (v < 2 ^ 32 \<or> 2 ^ 64 - 2 ^ 31 \<le> v \<and> v < 2 ^ 64 \<longrightarrow> fits32 p) \<and> (2 ^ 32 \<le> v \<and> v < 2 ^ 63 \<longrightarrow> \<not> fits32 p)"
    using fits32_varint [of v] fits32_negative [of v] not_fits32 [of v] varint_val [of v] by blast
qed

lemma varint32_range_witness:
  "(\<exists>s'. pb_decode_varint32 (pb_istream_from_buffer [0xac, 0x02, 0x07] 3 :: unit pb_istream) = Some (Some 300, s') \<and> visible s' = [0x07])
   \<and> (\<exists>s' e. pb_decode_varint32 (pb_istream_from_buffer [0x80, 0x80, 0x80, 0x80, 0x10] 5 :: unit pb_istream)
        = Some (None, s'\<lparr>is_errmsg := Some e\<rparr>))"
proof
  let ?s = "pb_istream_from_buffer [0xac, 0x02, 0x07] 3 :: unit pb_istream"
  have "in_memory ?s" "visible ?s = [0xac, 0x02] @ [0x07]" "varint_shape [0xac, 0x02]" by simp_all
  from varint32_range [OF this, of 0] show "\<exists>s'. pb_decode_varint32 ?s = Some (Some 300, s') \<and> visible s' = [0x07]"
    by (simp add: fits32_def)
next
  let ?t = "pb_istream_from_buffer [0x80, 0x80, 0x80, 0x80, 0x10] 5 :: unit pb_istream"
  have "in_memory ?t" "visible ?t = [0x80, 0x80, 0x80, 0x80, 0x10] @ []" "varint_shape [0x80, 0x80, 0x80, 0x80, 0x10]" by simp_all
  from varint32_range [OF this, of 0] show "\<exists>s' e. pb_decode_varint32 ?t = Some (None, s'\<lparr>is_errmsg := Some e\<rparr>)"
    by (simp add: fits32_def) blast
qed

text \<open>An encoding of a number of 35 bits that goes on with padding.\<close>

definition padded :: "nat \<Rightarrow> nat \<Rightarrow> bytes" where
  "padded v k = map (\<lambda>i. word_of_nat (128 + v div 128 ^ i mod 128)) [0..<5] @ replicate k 0x80 @ [0]"

lemma padding_bytes: "varint_shape (replicate k 0x80 @ [0])" "padding_ok neg i (replicate k 0x80 @ [0])" "septets_val (replicate k 0x80 @ [0]) = 0"
  by (induction k arbitrary: i) (auto simp: varint_shape_Cons)

lemma padded_bytes:
  assumes "v < 2 ^ 35"
  shows "varint_shape (padded v k)" "septets_val (padded v k) = v" "length (padded v k) = 6 + k" "fits32 (padded v k)"
proof -
  have u: "[0..<5] = [0, 1, 2, 3, 4]" by (simp add: upt_rec)
  note p = padded_def [of v k, unfolded u]
  have h: "unat (word_of_nat (128 + x mod 128) :: u8) = 128 + x mod 128" for x by (rule septet_high)
  show "length (padded v k) = 6 + k" by (simp add: padded_def)
  moreover have "drop 5 (padded v k) = replicate k 0x80 @ [0]" by (simp add: padded_def)
  ultimately show "fits32 (padded v k)" using padding_bytes(2) by (simp add: fits32_def)
  show "varint_shape (padded v k)" unfolding p using h padding_bytes(1) by (simp add: varint_shape_Cons del: of_nat_add)
  have "x div 128 * 128 + x mod 128 = x" for x :: nat by simp
  note split = this [of v] this [of "v div 128"] this [of "v div 128 div 128"] this [of "v div 128 div 128 div 128"]
  have last: "v div 128 ^ 4 mod 128 = v div 128 ^ 4" using assms by (intro mod_less) (simp add: less_mult_imp_div_less)
  have d: "v div 128 ^ 2 = v div 128 div 128" "v div 128 ^ 3 = v div 128 div 128 div 128" "v div 128 ^ 4 = v div 128 div 128 div 128 div 128"
    by (simp_all add: div_mult2_eq [symmetric])
  have "septets_val (padded v k) = v mod 128 + 128 * (v div 128 mod 128 + 128 * (v div 128 ^ 2 mod 128
      + 128 * (v div 128 ^ 3 mod 128 + 128 * (v div 128 ^ 4 mod 128))))"
    unfolding p using h by (simp add: padding_bytes(3) mod_add_self1 del: of_nat_add)
  also have "\<dots> = v" unfolding last unfolding d using split by (simp add: mult.commute add.commute)
  finally show "septets_val (padded v k) = v" .
qed

lemma yields_exact32:
  "in_memory s \<Longrightarrow> visible s = p @ c \<Longrightarrow> varint_shape p \<Longrightarrow> length p \<le> 37 \<Longrightarrow> fits32 p \<Longrightarrow>
    yields pb_decode_varint32 s (word_of_nat (septets_val p)) c"
  using varint32_eof_exact [of s p c] by (simp add: yields_def pb_decode_varint32_def)

lemma yields_exact64:
  "in_memory s \<Longrightarrow> visible s = p @ c \<Longrightarrow> varint_shape p \<Longrightarrow> length p \<le> 10 \<Longrightarrow>
    yields pb_decode_varint s (word_of_nat (septets_val p)) c"
  by (rule refines_yields [OF decode_varint_refines]) (simp_all add: get_varint_def rbind_def septets_shape)

text \<open>Padding in front of all bits moves the position until it wraps.\<close>

lemma varint32_padding:
  "in_memory s \<Longrightarrow> visible s = replicate n 0x80 @ c \<Longrightarrow> varint32_loop 0 bitpos s = varint32_loop 0 (bitpos + word_of_nat (7 * n)) (advance n s)"
proof (induction n arbitrary: bitpos s)
  case (Suc n)
  have "in_memory (advance 1 s)" "visible (advance 1 s) = replicate n 0x80 @ c" using Suc.prems by simp_all
  note rest = Suc.IH [OF this, of "bitpos + 7"]
  have h: "(0x80 :: u8) AND 0x80 \<noteq> 0" "(0x80 :: u8) AND 0x7f = 0" by code_simp+
  have "visible s = 0x80 # replicate n 0x80 @ c" using Suc.prems(2) by simp
  from varint32_loop_step [OF Suc.prems(1) this, of 0 bitpos]
  have "varint32_loop 0 bitpos s = varint32_loop 0 (bitpos + 7) (advance 1 s)"
    using h by (simp only: simp_thms if_False if_True Let_def) simp
  then show ?case unfolding rest by (simp add: algebra_simps)
qed simp

lemma varint32_wraps:
  assumes s: "in_memory s" "visible s = replicate 37 0x80 @ b # c" and b: "unat b < 128"
  shows "yields pb_decode_varint32 s (8 * ucast b) c"
proof -
  have r: "replicate 37 0x80 @ b # c = 0x80 # replicate 36 0x80 @ b # c" by (simp add: numeral_eq_Suc)
  have first: "pb_readbyte s = Some (Some 0x80, advance 1 s)" using s r by (simp add: readbyte_memory)
  have v: "in_memory (advance 1 s)" "visible (advance 1 s) = replicate 36 0x80 @ b # c" using s unfolding r by simp_all
  have "visible (advance 36 (advance 1 s)) = b # c" using v by (simp del: advance_advance)
  moreover have "b AND 0x80 = 0" using b by (simp only: and_80_zero)
  moreover have "b AND 0x7f = b" using b unat_and_7f [of b] by (simp add: word_unat_eq_iff)
  ultimately have "varint32_loop 0 3 (advance 36 (advance 1 s)) = Some (Some (8 * ucast b, 10, b), advance 1 (advance 36 (advance 1 s)))"
    using varint32_loop_step [OF advance_in_memory [OF v(1)], of 36 b c 0 3] by (simp add: push_bit_eq_mult mult.commute)
  moreover have "varint32_loop 0 7 (advance 1 s) = varint32_loop 0 3 (advance 36 (advance 1 s))"
  proof -
    have "(7 + word_of_nat (7 * 36) :: u8) = 3" by (simp add: word_unat_eq_iff)
    then show ?thesis by (simp only: varint32_padding [OF v, of 7])
  qed
  ultimately show ?thesis using first s r by (simp add: yields_def pb_decode_varint32_def pb_decode_varint32_eof_def)
qed

lemma long_varint:
  assumes "in_memory s" "visible s = replicate 37 0x80 @ c"
  shows "\<exists>s'. pb_decode_varint s = Some (None, s')"
proof -
  have "n \<le> m \<Longrightarrow> fst (septets n (replicate m 0x80 @ c)) = None" for n m
  proof (induction n arbitrary: m)
    case (Suc n)
    then obtain k where "m = Suc k" "n \<le> k" by (cases m) auto
    with Suc.IH [of k] show ?case by (cases "septets n (replicate k 0x80 @ c)") simp
  qed simp
  from this [of 10 37] obtain d where "get_varint (visible s) = (None, d)"
    using assms(2) by (cases "septets 10 (visible s)") (simp add: get_varint_def rbind_def)
  from refinesE [OF decode_varint_refines assms(1) this] show ?thesis by blast
qed

text \<open>
  Claim C16.  Where the check for an overflow is passed by, \<open>pb_decode_varint32\<close> silently gives another
  number than the decoder for 64 bits.  Any number of up to 35 bits, in five bytes that are followed by
  padding, loses its bits from the 32nd on; so do the shortest encodings of the numbers \<open>2 ^ 63 + w\<close> with bit 31
  set, where \<open>w\<close> has at most 35 bits; and after 37 bytes of padding, where the decoder for 64 bits
  reports the overflow, the position of the bits has wrapped, and any last byte \<open>b\<close> is read as the number \<open>8 * b\<close>.
\<close>

theorem varint32_drops_bits:
  assumes "in_memory s"
  shows "(visible s = padded v k @ c \<and> v < 2 ^ 35 \<and> k \<le> 4 \<longrightarrow>
        yields pb_decode_varint32 s (word_of_nat (v mod 2 ^ 32)) c \<and> yields pb_decode_varint s (word_of_nat v) c)
    \<and> (visible s = varint_bytes (2 ^ 63 + w) @ c \<and> w < 2 ^ 35 \<and> bit w 31 \<longrightarrow>
        yields pb_decode_varint32 s (word_of_nat (w mod 2 ^ 32)) c \<and> yields pb_decode_varint s (word_of_nat (2 ^ 63 + w)) c)
    \<and> (visible s = replicate 37 0x80 @ b # c \<and> unat b < 128 \<longrightarrow>
        yields pb_decode_varint32 s (8 * ucast b) c \<and> (\<exists>s'. pb_decode_varint s = Some (None, s')))"
proof (intro conjI impI; elim conjE)
  have low: "(word_of_nat n :: u32) = word_of_nat (n mod 2 ^ 32)" for n
    by (simp add: word_unat_eq_iff unat_of_nat take_bit_eq_mod)
  {
    assume v: "visible s = padded v k @ c" "v < 2 ^ 35" "k \<le> 4"
    note p = padded_bytes [OF v(2), of k]
    from yields_exact32 [OF assms v(1) p(1) _ p(4)] p(2,3) v(3) low [of v]
    show "yields pb_decode_varint32 s (word_of_nat (v mod 2 ^ 32)) c" by simp
    from yields_exact64 [OF assms v(1) p(1)] p(2,3) v(3) show "yields pb_decode_varint s (word_of_nat v) c" by simp
  next
    assume w: "visible s = varint_bytes (2 ^ 63 + w) @ c" "w < 2 ^ 35" "bit w 31"
    let ?v = "2 ^ 63 + w"
    have len: "length (varint_bytes ?v) \<le> 10" using w(2) length_varint [of ?v 9] by simp
    have "?v div 2 ^ 35 = 2 ^ 28" using w(2) by simp
    moreover have "bit ?v 31"
    proof -
      have "?v = w + 2 ^ 32 * 2 ^ 31" by simp
      then have "?v div 2 ^ 31 = 2 ^ 32 + w div 2 ^ 31" by (simp only: div_mult_self1) simp
      with w(3) show ?thesis by (simp only: bit_iff_odd) simp
    qed
    moreover have "2 ^ 35 \<le> ?v" by simp
    ultimately have "fits32 (varint_bytes ?v)" by (simp only: fits32_large sign_bytes) simp
    moreover have "?v mod 2 ^ 32 = w mod 2 ^ 32"
    proof -
      have "?v = w + 2 ^ 31 * 2 ^ 32" by simp
      then show ?thesis by (simp only: mod_mult_self1)
    qed
    ultimately show "yields pb_decode_varint32 s (word_of_nat (w mod 2 ^ 32)) c"
      using yields_exact32 [OF assms w(1) varint_bytes_shape] len low [of ?v] by (simp only: varint_val)
    from yields_exact64 [OF assms w(1) varint_bytes_shape len] show "yields pb_decode_varint s (word_of_nat ?v) c"
      by (simp only: varint_val)
  next
    assume "visible s = replicate 37 0x80 @ b # c" "unat b < 128"
    with varint32_wraps [OF assms] long_varint [OF assms]
    show "yields pb_decode_varint32 s (8 * ucast b) c" "\<exists>s'. pb_decode_varint s = Some (None, s')" by blast+
  }
qed

text \<open>The number \<open>7 * 2 ^ 32\<close>, with one byte of padding.\<close>

lemma varint32_drops_bits_witness:
  "yields pb_decode_varint32 (pb_istream_from_buffer [0x80, 0x80, 0x80, 0x80, 0xf0, 0x00] 6 :: unit pb_istream) 0 []
   \<and> yields pb_decode_varint (pb_istream_from_buffer [0x80, 0x80, 0x80, 0x80, 0xf0, 0x00] 6 :: unit pb_istream) 0x700000000 []"
proof -
  let ?s = "pb_istream_from_buffer [0x80, 0x80, 0x80, 0x80, 0xf0, 0x00] 6 :: unit pb_istream"
  have "padded 0x700000000 0 = [0x80, 0x80, 0x80, 0x80, 0xf0, 0x00]" by (simp add: padded_def upt_rec)
  then have "in_memory ?s" "visible ?s = padded 0x700000000 0 @ []" by simp_all
  with varint32_drops_bits [of ?s "0x700000000" 0 "[]"] show ?thesis by simp
qed

end
