(* ===== verification/PbValue.thy ===== *)
theory PbValue imports PbField begin

text \<open>
  The values of fields in the memory of a message: what the writers of \<open>pb_encode.c\<close> write, the
  readers of \<open>pb_decode.c\<close> put back, and no reader writes outside of the memory of its field.
\<close>

section \<open>Numbers\<close>

lemma scast_bits:
  "LENGTH('a::len) \<le> LENGTH('b::len) \<Longrightarrow> (ucast (scast (x :: 'a word) :: 'b word) :: 'a word) = x"
proof (rule bit_word_eqI)
  fix n
  assume "LENGTH('a) \<le> LENGTH('b)" "n < LENGTH('a)"
  then show "bit (ucast (scast x :: 'b word) :: 'a word) n \<longleftrightarrow> bit x n"
    by (cases "n = LENGTH('a) - Suc 0") (auto simp: bit_simps min_def)
qed

lemma scast_twice:
  "LENGTH('a::len) \<le> LENGTH('c::len) \<Longrightarrow> LENGTH('c) \<le> LENGTH('b::len) \<Longrightarrow>
    (scast (ucast (scast (x :: 'a word) :: 'b word) :: 'c word) :: 'b word) = scast x"
  by (rule bit_word_eqI) (auto simp: bit_simps min_def)

lemma le_bytes_mod: "le_bytes n (v mod 256 ^ n) = le_bytes n v"
  by (metis le_bytes_le_val le_val_le_bytes length_le_bytes mod_mod_trivial)

lemma scast_mod:
  assumes "LENGTH('a::len) \<le> LENGTH('b::len)"
  shows "unat (scast (x :: 'a word) :: 'b word) mod 2 ^ LENGTH('a) = unat x"
  using scast_bits [OF assms, of x] by (metis unat_ucast_mod)

lemma store_same:
  assumes "length src = sz" "length dest = sz" "unat v mod 256 ^ sz = le_val src"
  shows "store sz v dest = Some src"
proof -
  have "le_bytes sz (unat v) = le_bytes sz (unat v mod 256 ^ sz)" by (rule le_bytes_mod [symmetric])
  also have "\<dots> = src" unfolding assms(3) using le_bytes_le_val [of src] assms(1) by simp
  finally show ?thesis using assms(1,2) by (simp add: store_def)
qed

lemma le_val_small: "length src = sz \<Longrightarrow> le_val src < 256 ^ sz"
  using le_val_less [of src] by simp

text \<open>A signed value of each size: what is loaded, the casts of the readers, and what is stored.\<close>

definition signed_fits :: "nat \<Rightarrow> u64 \<Rightarrow> bytes \<Rightarrow> bool" where
  "signed_fits sz v src \<longleftrightarrow> load_signed sz src = Some v
     \<and> (sz = 8 \<or> scast (ucast v :: u32) = v) \<and> (sz = 2 \<longrightarrow> scast (ucast v :: u16) = v) \<and> (sz = 1 \<longrightarrow> scast (ucast v :: u8) = v)
     \<and> (\<forall>dest. length dest = sz \<longrightarrow> store sz v dest = Some src)"

lemma signed_fitsI:
  fixes x :: "'a::len word"
  assumes "length src = sz" "load_signed sz src = Some (scast x)" "256 ^ sz = (2 :: nat) ^ LENGTH('a)" "unat x = le_val src"
    and "LENGTH('a) \<le> 64" "sz = 8 \<or> LENGTH('a) \<le> 32" "sz = 2 \<longrightarrow> LENGTH('a) = 16" "sz = 1 \<longrightarrow> LENGTH('a) = 8"
  shows "signed_fits sz (scast x) src"
proof -
  have "unat (scast x :: u64) mod 256 ^ sz = le_val src" using scast_mod [where 'b = 64, of x] assms(3-5) by simp
  then have "store sz (scast x) dest = Some src" if "length dest = sz" for dest using assms(1) that by (intro store_same)
  moreover have "sz = 8 \<or> scast (ucast (scast x :: u64) :: u32) = (scast x :: u64)"
    using scast_twice [where 'c = 32 and 'b = 64, of x] assms(6) by auto
  moreover have "sz = 2 \<longrightarrow> scast (ucast (scast x :: u64) :: u16) = (scast x :: u64)"
    using scast_twice [where 'c = 16 and 'b = 64, of x] assms(7) by auto
  moreover have "sz = 1 \<longrightarrow> scast (ucast (scast x :: u64) :: u8) = (scast x :: u64)"
    using scast_twice [where 'c = 8 and 'b = 64, of x] assms(8) by auto
  ultimately show ?thesis using assms(2) by (simp add: signed_fits_def)
qed

lemma load_signed_fits:
  assumes "length src = sz" "sz \<in> {1, 2, 4, 8}"
  obtains v where "signed_fits sz v src"
proof -
  have n: "le_val src < 256 ^ sz" using assms(1) by (rule le_val_small)
  from assms(2) consider "sz = 1" | "sz = 2" | "sz = 4" | "sz = 8" by auto
  then show thesis
  proof cases
    case 1
    with assms n have "signed_fits sz (scast (word_of_nat (le_val src) :: u8)) src"
      by (intro signed_fitsI) (simp_all add: load_signed_def Let_def unat_small)
    then show thesis by (rule that)
  next
    case 2
    with assms n have "signed_fits sz (scast (word_of_nat (le_val src) :: u16)) src"
      by (intro signed_fitsI) (simp_all add: load_signed_def Let_def unat_small)
    then show thesis by (rule that)
  next
    case 3
    with assms n have "signed_fits sz (scast (word_of_nat (le_val src) :: u32)) src"
      by (intro signed_fitsI) (simp_all add: load_signed_def Let_def unat_small)
    then show thesis by (rule that)
  next
    case 4
    with assms n have "signed_fits sz (scast (word_of_nat (le_val src) :: u64)) src"
      by (intro signed_fitsI) (simp_all add: load_signed_def Let_def unat_small)
    then show thesis by (rule that)
  qed
qed

text \<open>The writers and readers of the numbers of a field.\<close>

definition number_codecs :: "pb_field \<Rightarrow> ((bytes \<Rightarrow> 's pb_encoder) \<times> 't pb_dec) list" where
  "number_codecs field =
     [(pb_enc_varint field, pb_dec_varint field), (pb_enc_uvarint field, pb_dec_uvarint field),
      (pb_enc_svarint field, pb_dec_svarint field)]
     @ (if pf_data_size field = 4 then [(pb_enc_fixed32, pb_dec_fixed32)] else [])
     @ (if pf_data_size field = 8 then [(pb_enc_fixed64, pb_dec_fixed64)] else [])"

definition puts_back :: "'t pb_dec \<Rightarrow> 't pb_istream \<Rightarrow> bytes \<Rightarrow> bytes \<Rightarrow> bool" where
  "puts_back dec s src r \<longleftrightarrow>
     (\<forall>dest. length dest = length src \<longrightarrow> (\<exists>s'. dec s dest = Some (True, src, s') \<and> in_memory s' \<and> visible s' = r))"

lemma dec_varint_back:
  assumes "yields pb_decode_varint s v r" "signed_fits sz v src" "sz = unat (pf_data_size field)" "sz \<in> {1, 2, 4, 8}" "length src = sz"
  shows "puts_back (pb_dec_varint field) s src r"
proof -
  from assms(1) obtain s' where s': "pb_decode_varint s = Some (Some v, s')" "in_memory s'" "visible s' = r" by (auto simp: yields_def)
  have f: "(if sz = 8 then v else scast (ucast v :: u32)) = v" using assms(2) by (auto simp: signed_fits_def)
  have c: "(if sz = 8 then v else if sz = 4 then scast (ucast v :: u32) else if sz = 2 then scast (ucast v :: u16) else scast (ucast v :: u8)) = v"
    using assms(2,4) by (auto simp: signed_fits_def)
  have d: "sz \<in> {8, 4, 2, 1}" using assms(4) by auto
  show ?thesis unfolding puts_back_def
  proof (intro allI impI)
    fix dest :: bytes
    assume "length dest = length src"
    then have "store sz v dest = Some src" using assms(2,5) by (simp add: signed_fits_def)
    then show "\<exists>s'. pb_dec_varint field s dest = Some (True, src, s') \<and> in_memory s' \<and> visible s' = r"
      using s' d unfolding pb_dec_varint_def assms(3) [symmetric] by (simp only: Option.bind.bind_lunit option.case prod.case Let_def f c) simp
  qed
qed

lemma dec_svarint_back:
  assumes "yields pb_decode_svarint s v r" "signed_fits sz v src" "sz = unat (pf_data_size field)" "sz \<in> {1, 2, 4, 8}" "length src = sz"
  shows "puts_back (pb_dec_svarint field) s src r"
proof -
  from assms(1) obtain s' where s': "pb_decode_svarint s = Some (Some v, s')" "in_memory s'" "visible s' = r" by (auto simp: yields_def)
  have c: "(if sz = 8 then v else if sz = 4 then scast (ucast v :: u32) else if sz = 2 then scast (ucast v :: u16) else scast (ucast v :: u8)) = v"
    using assms(2,4) by (auto simp: signed_fits_def)
  have d: "sz \<in> {8, 4, 2, 1}" using assms(4) by auto
  show ?thesis unfolding puts_back_def
  proof (intro allI impI)
    fix dest :: bytes
    assume "length dest = length src"
    then have "store sz v dest = Some src" using assms(2,5) by (simp add: signed_fits_def)
    then show "\<exists>s'. pb_dec_svarint field s dest = Some (True, src, s') \<and> in_memory s' \<and> visible s' = r"
      using s' d unfolding pb_dec_svarint_def assms(3) [symmetric] by (simp only: Option.bind.bind_lunit option.case prod.case Let_def c) simp
  qed
qed

lemma dec_uvarint_back:
  assumes "yields pb_decode_varint s (word_of_nat (le_val src)) r" "sz = unat (pf_data_size field)" "sz \<in> {1, 2, 4, 8}" "length src = sz"
  shows "puts_back (pb_dec_uvarint field) s src r"
proof -
  let ?v = "word_of_nat (le_val src) :: u64"
  from assms(1) obtain s' where s': "pb_decode_varint s = Some (Some ?v, s')" "in_memory s'" "visible s' = r" by (auto simp: yields_def)
  have n: "le_val src < 256 ^ sz" using assms(4) by (rule le_val_small)
  have "(256 :: nat) ^ sz \<le> 256 ^ 8" using assms(3) by (intro power_increasing) auto
  with n have u: "unat ?v = le_val src" by (intro unat_small) simp
  have c: "(if sz = 8 then ?v else if sz = 4 then ucast (ucast ?v :: u32) else if sz = 2 then ucast (ucast ?v :: u16) else ucast (ucast ?v :: u8)) = ?v"
    using assms(3) n by (auto simp: word_unat_eq_iff unat_ucast_mod u simp del: of_nat_mod)
  have d: "sz \<in> {8, 4, 2, 1}" using assms(3) by auto
  show ?thesis unfolding puts_back_def
  proof (intro allI impI)
    fix dest :: bytes
    assume "length dest = length src"
    then have "store sz ?v dest = Some src" using assms(4) n u by (intro store_same) simp_all
    then show "\<exists>s'. pb_dec_uvarint field s dest = Some (True, src, s') \<and> in_memory s' \<and> visible s' = r"
      using s' d unfolding pb_dec_uvarint_def assms(2) [symmetric] by (simp only: Option.bind.bind_lunit option.case prod.case Let_def c) simp
  qed
qed

context wire_format begin

lemma put_yields:
  assumes "memory_sink out" "valid a" "put a out = Some (True, out')"
    and "in_memory s" "visible s = drop (length (sent out)) (sent out') @ r"
  shows "yields get s a r"
proof -
  from pb_appends_result(1) [OF put_appends [OF assms(2)] assms(1,3)] have "sent out' = sent out @ enc a" by simp
  with assms(5) have "visible s = enc a @ r" by simp
  then show ?thesis by (rule yields_encoded [OF assms(4,2)])
qed

end

lemma dec_fixed32_back:
  assumes "yields pb_decode_fixed32 s (word_of_nat (le_val src)) r" "length src = 4"
  shows "puts_back pb_dec_fixed32 s src r"
proof -
  have "le_val src < 256 ^ 4" using assms(2) by (rule le_val_small)
  then have "unat (ucast (word_of_nat (le_val src) :: u32) :: u64) mod 256 ^ 4 = le_val src"
    by (simp add: unat_ucast_mod unat_small del: of_nat_mod)
  then have "length dest = 4 \<Longrightarrow> store 4 (ucast (word_of_nat (le_val src) :: u32)) dest = Some src" for dest
    using assms(2) by (intro store_same)
  then show ?thesis using assms by (auto simp: puts_back_def yields_def pb_dec_fixed32_def)
qed

lemma dec_fixed64_back:
  assumes "yields pb_decode_fixed64 s (word_of_nat (le_val src)) r" "length src = 8"
  shows "puts_back pb_dec_fixed64 s src r"
proof -
  have "le_val src < 256 ^ 8" using assms(2) by (rule le_val_small)
  then have "unat (word_of_nat (le_val src) :: u64) mod 256 ^ 8 = le_val src" by (simp add: unat_small)
  then have "length dest = 8 \<Longrightarrow> store 8 (word_of_nat (le_val src)) dest = Some src" for dest
    using assms(2) by (intro store_same)
  then show ?thesis using assms by (auto simp: puts_back_def yields_def pb_dec_fixed64_def)
qed

text \<open>
  Claim C13.  The writer and the reader of a number of a message agree, for every size of the field
  and for signed, unsigned, zigzag and fixed-size numbers: what the writer makes of the memory of
  the field, the reader puts back byte for byte.
\<close>

theorem pb_number_roundtrip:
  assumes "(enc, dec) \<in> set (number_codecs field)" "length src = unat (pf_data_size field)"
    and "memory_sink out" "enc src out = Some (True, out')"
    and "in_memory s" "visible s = drop (length (sent out)) (sent out') @ r"
  shows "puts_back dec s src r"
proof -
  let ?sz = "unat (pf_data_size field)"
  have size: "unat (4 :: u32) = 4" "unat (8 :: u32) = 8" by simp_all
  from assms(1) consider (int) "enc = pb_enc_varint field" "dec = pb_dec_varint field"
    | (uint) "enc = pb_enc_uvarint field" "dec = pb_dec_uvarint field"
    | (sint) "enc = pb_enc_svarint field" "dec = pb_dec_svarint field"
    | (f32) "enc = pb_enc_fixed32" "dec = pb_dec_fixed32" "pf_data_size field = 4"
    | (f64) "enc = pb_enc_fixed64" "dec = pb_dec_fixed64" "pf_data_size field = 8"
    by (auto simp: number_codecs_def split: if_splits)
  then show ?thesis
  proof cases
    case int
    then have sz: "?sz \<in> {1, 2, 4, 8}" using assms(4) by (auto simp: pb_enc_varint_def Let_def pb_write_error_def split: if_splits)
    obtain v where v: "signed_fits ?sz v src" using load_signed_fits [OF assms(2) sz] .
    then have "pb_encode_varint v out = Some (True, out')"
      using assms(4) sz unfolding int(1) pb_enc_varint_def Let_def signed_fits_def by (auto split: if_splits)
    from varint.put_yields [OF assms(3) _ this assms(5,6)] dec_varint_back [OF _ v refl sz assms(2)] int(2)
    show ?thesis by simp
  next
    case uint
    then have sz: "?sz \<in> {1, 2, 4, 8}" using assms(4) by (auto simp: pb_enc_uvarint_def Let_def pb_write_error_def split: if_splits)
    then have "pb_encode_varint (word_of_nat (le_val src)) out = Some (True, out')"
      using assms(2,4) sz unfolding uint(1) pb_enc_uvarint_def Let_def load_unsigned_def by (auto split: if_splits)
    from varint.put_yields [OF assms(3) _ this assms(5,6)] dec_uvarint_back [OF _ refl sz assms(2)] uint(2)
    show ?thesis by simp
  next
    case sint
    then have sz: "?sz \<in> {1, 2, 4, 8}" using assms(4) by (auto simp: pb_enc_svarint_def Let_def pb_write_error_def split: if_splits)
    obtain v where v: "signed_fits ?sz v src" using load_signed_fits [OF assms(2) sz] .
    then have "pb_encode_svarint v out = Some (True, out')"
      using assms(4) sz unfolding sint(1) pb_enc_svarint_def Let_def signed_fits_def by (auto split: if_splits)
    from svarint.put_yields [OF assms(3) _ this assms(5,6)] dec_svarint_back [OF _ v refl sz assms(2)] sint(2)
    show ?thesis by simp
  next
    case f32
    then have l: "length src = 4" using assms(2) by simp
    then have "le_val src < 2 ^ 32" using le_val_small [of src 4] by simp
    then have "(ucast (word_of_nat (le_val src) :: u64) :: u32) = word_of_nat (le_val src)"
      by (simp add: word_unat_eq_iff unat_ucast_mod unat_small)
    with f32 l assms(4) have "pb_encode_fixed32 (word_of_nat (le_val src)) out = Some (True, out')"
      by (simp add: pb_enc_fixed32_def load_unsigned_def)
    from fixed32.put_yields [OF assms(3) _ this assms(5,6)] dec_fixed32_back [OF _ l] f32(2) show ?thesis by simp
  next
    case f64
    then have l: "length src = 8" using assms(2) by simp
    with f64 assms(4) have "pb_encode_fixed64 (word_of_nat (le_val src)) out = Some (True, out')"
      by (simp add: pb_enc_fixed64_def load_unsigned_def)
    from fixed64.put_yields [OF assms(3) _ this assms(5,6)] dec_fixed64_back [OF _ l] f64(2) show ?thesis by simp
  qed
qed

text \<open>The number -2 in a field of two bytes.\<close>

lemma pb_number_roundtrip_witness:
  "puts_back (pb_dec_svarint \<lparr>pf_tag = 1, pf_type = 3, pf_data_offset = 0, pf_size_offset = 0, pf_data_size = 2, pf_array_size = 0\<rparr>)
     (pb_istream_from_buffer [3] 1 :: unit pb_istream) [0xfe, 0xff] []"
proof -
  let ?f = "\<lparr>pf_tag = 1, pf_type = 3, pf_data_offset = 0, pf_size_offset = 0, pf_data_size = 2, pf_array_size = 0\<rparr>"
    and ?out = "pb_ostream_from_buffer [0, 0] 2 :: unit pb_ostream"
  have m: "memory_sink ?out" by (simp add: memory_sink_def pb_ostream_from_buffer_def)
  have e: "pb_enc_svarint ?f [0xfe, 0xff] ?out = Some (True, emit [3] ?out)"
  proof -
    have l: "load_signed 2 [0xfe, 0xff] = Some 0xfffffffffffffffe" by (simp add: load_signed_def Let_def)
    have z: "zigzag 0xfffffffffffffffe = 3" by (simp add: zigzag_def negative_bit)
    have "room ?out = 2" by (simp add: room_def pb_ostream_from_buffer_def)
    then have "pb_encode_svarint 0xfffffffffffffffe ?out = Some (True, emit [3] ?out)"
      using pb_appendsD(1) [OF svarint.put_appends [of "0xfffffffffffffffe"] m] by (simp add: z varint_small)
    then show ?thesis by (simp add: pb_enc_svarint_def l)
  qed
  have c: "(pb_enc_svarint ?f, pb_dec_svarint ?f) \<in> set (number_codecs ?f)" by (simp add: number_codecs_def)
  have "visible (pb_istream_from_buffer [3] 1 :: unit pb_istream) = drop (length (sent ?out)) (sent (emit [3] ?out)) @ []"
    by (simp add: sent_def emit_def pb_ostream_from_buffer_def)
  from pb_number_roundtrip [OF c _ m e _ this] show ?thesis by simp
qed

section \<open>Readers stay in their memory\<close>

definition always_runs :: "('s, 'a) pb_decoder \<Rightarrow> bool" where
  "always_runs d \<longleftrightarrow> (\<forall>s. in_memory s \<longrightarrow> (\<exists>r s'. d s = Some (r, s') \<and> in_memory s'))"

lemma totalE:
  assumes "always_runs d" "in_memory s"
  obtains r s' where "d s = Some (r, s')" "in_memory s'"
  using assms by (auto simp: always_runs_def)

lemma refines_total: "refines d rd \<Longrightarrow> always_runs d"
  by (auto simp: refines_def always_runs_def)

lemma set_error_in_memory [simp]: "in_memory (PB_SET_ERROR msg s) = in_memory s"
  by (simp add: PB_SET_ERROR_def)

lemma varint32_loop_total: "in_memory s \<Longrightarrow> \<exists>r s'. varint32_loop result bitpos s = Some (r, s') \<and> in_memory s'"
proof (induction "length (visible s)" arbitrary: s result bitpos)
  case 0
  then have "visible s = []" by (simp del: length_visible)
  with 0(2) show ?case by (subst varint32_loop.simps) (simp add: readbyte_memory PB_RETURN_ERROR_def)
next
  case (Suc n)
  then obtain b c where v: "visible s = b # c" by (metis Suc_length_conv)
  have "n = length (visible (advance 1 s))" "in_memory (advance 1 s)" using Suc.hyps(2) Suc.prems v by simp_all
  note IH = Suc.hyps(1) [OF this]
  show ?case unfolding varint32_loop_step [OF Suc.prems v] Let_def using IH Suc.prems by (auto simp: PB_RETURN_ERROR_def)
qed

lemma varint32_total: "always_runs pb_decode_varint32"
  unfolding always_runs_def
proof (intro allI impI)
  fix s :: "'a pb_istream"
  assume s: "in_memory s"
  show "\<exists>r s'. pb_decode_varint32 s = Some (r, s') \<and> in_memory s'"
  proof (cases "visible s")
    case Nil
    with s show ?thesis by (simp add: pb_decode_varint32_def pb_decode_varint32_eof_def readbyte_memory PB_RETURN_ERROR_def)
  next
    case (Cons b c)
    obtain r s' where "varint32_loop (ucast (b AND 0x7f)) 7 (advance 1 s) = Some (r, s')" "in_memory s'"
      using varint32_loop_total [of "advance 1 s"] s by fastforce
    with s Cons show ?thesis
      by (auto simp: pb_decode_varint32_def pb_decode_varint32_eof_def readbyte_memory split: option.splits)
  qed
qed

lemma store_defined: "sz \<le> length dest \<Longrightarrow> \<exists>d. store sz v dest = Some d \<and> length d = length dest"
  by (simp add: store_def)

lemma put_at_defined: "off + length p \<le> length dest \<Longrightarrow> \<exists>d. put_at off p dest = Some d \<and> length d = length dest"
  by (simp add: put_at_def)

text \<open>A reader is defined on some memory, and leaves as many bytes there as there were.\<close>

definition keeps_size :: "'s pb_dec \<Rightarrow> 's pb_istream \<Rightarrow> bytes \<Rightarrow> bool" where
  "keeps_size dec s dest \<longleftrightarrow> (\<exists>ok dest' s'. dec s dest = Some (ok, dest', s') \<and> length dest' = length dest \<and> in_memory s')"

lemma keeps_sizeI:
  assumes "always_runs d" "in_memory s"
    and "\<And>s'. in_memory s' \<Longrightarrow> d s = Some (None, s') \<Longrightarrow> dec s dest = Some (False, dest, s')"
    and "\<And>v s'. in_memory s' \<Longrightarrow> d s = Some (Some v, s') \<Longrightarrow>
      \<exists>ok dest' s2. dec s dest = Some (ok, dest', s2) \<and> length dest' = length dest \<and> in_memory s2"
  shows "keeps_size dec s dest"
proof -
  obtain r s' where "d s = Some (r, s')" "in_memory s'" using assms(1,2) by (rule totalE)
  with assms(3,4) show ?thesis unfolding keeps_size_def by (cases r) fastforce+
qed

lemmas dec_defs = pb_dec_bool_def pb_dec_varint_def pb_dec_uvarint_def pb_dec_svarint_def pb_dec_fixed32_def pb_dec_fixed64_def pb_fails_def

lemma cast_store:
  assumes "in_memory s" "length dest = sz"
  shows "\<exists>ok dest' s2. (if sz \<notin> {8, 4, 2, 1} then pb_fails m1 s dest
      else store sz v dest \<bind> (\<lambda>dest. if v \<noteq> w then pb_fails m2 s dest else Some (True, dest, s))) = Some (ok, dest', s2)
    \<and> length dest' = length dest \<and> in_memory s2"
  using store_defined [of sz dest v] assms by (auto simp: pb_fails_def)

lemma numbers_keep_size:
  assumes s: "in_memory s" and l: "length dest = unat (pf_data_size field)"
  shows "keeps_size (pb_dec_varint field) s dest" "keeps_size (pb_dec_uvarint field) s dest" "keeps_size (pb_dec_svarint field) s dest"
proof -
  show "keeps_size (pb_dec_varint field) s dest"
  proof (rule keeps_sizeI [OF refines_total [OF decode_varint_refines] s])
    fix v s'
    assume "in_memory s'" "pb_decode_varint s = Some (Some v, s')"
    then show "\<exists>ok dest' s2. pb_dec_varint field s dest = Some (ok, dest', s2) \<and> length dest' = length dest \<and> in_memory s2"
      unfolding pb_dec_varint_def by (simp only: Option.bind.bind_lunit option.case prod.case Let_def) (rule cast_store, assumption, rule l)
  qed (simp add: pb_dec_varint_def)
  show "keeps_size (pb_dec_uvarint field) s dest"
  proof (rule keeps_sizeI [OF refines_total [OF decode_varint_refines] s])
    fix v s'
    assume "in_memory s'" "pb_decode_varint s = Some (Some v, s')"
    then show "\<exists>ok dest' s2. pb_dec_uvarint field s dest = Some (ok, dest', s2) \<and> length dest' = length dest \<and> in_memory s2"
      unfolding pb_dec_uvarint_def by (simp only: Option.bind.bind_lunit option.case prod.case Let_def) (rule cast_store, assumption, rule l)
  qed (simp add: pb_dec_uvarint_def)
  show "keeps_size (pb_dec_svarint field) s dest"
  proof (rule keeps_sizeI [OF refines_total [OF decode_svarint_refines] s])
    fix v s'
    assume "in_memory s'" "pb_decode_svarint s = Some (Some v, s')"
    then show "\<exists>ok dest' s2. pb_dec_svarint field s dest = Some (ok, dest', s2) \<and> length dest' = length dest \<and> in_memory s2"
      unfolding pb_dec_svarint_def by (simp only: Option.bind.bind_lunit option.case prod.case Let_def) (rule cast_store, assumption, rule l)
  qed (simp add: pb_dec_svarint_def)
qed

lemma bool_keeps_size: "in_memory s \<Longrightarrow> 1 \<le> length dest \<Longrightarrow> keeps_size pb_dec_bool s dest"
  by (rule keeps_sizeI [OF varint32_total]) (auto simp: dec_defs store_def)

lemma fixed32_keeps_size: "in_memory s \<Longrightarrow> 4 \<le> length dest \<Longrightarrow> keeps_size pb_dec_fixed32 s dest"
  by (rule keeps_sizeI [OF refines_total [OF decode_fixed32_refines]]) (auto simp: dec_defs store_def)

lemma fixed64_keeps_size: "in_memory s \<Longrightarrow> 8 \<le> length dest \<Longrightarrow> keeps_size pb_dec_fixed64 s dest"
  by (rule keeps_sizeI [OF refines_total [OF decode_fixed64_refines]]) (auto simp: dec_defs store_def)

text \<open>The same for a field that is in place or a pointer to a block.\<close>

definition keeps_field :: "pb_field \<Rightarrow> pb_dest \<Rightarrow> bool" where
  "keeps_field field dest \<longleftrightarrow>
     (case dest of Inline d \<Rightarrow> \<not> is_pointer field \<and> length d = unat (pf_data_size field) | Pointer _ \<Rightarrow> is_pointer field)"

definition defined_field ::
  "(pb_field \<Rightarrow> 's pb_istream \<Rightarrow> pb_dest \<Rightarrow> (bool \<times> pb_dest \<times> 's pb_istream) option) \<Rightarrow> pb_field \<Rightarrow> 's pb_istream \<Rightarrow> pb_dest \<Rightarrow> bool" where
  "defined_field dec field s dest \<longleftrightarrow>
     (\<exists>ok dest' s'. dec field s dest = Some (ok, dest', s') \<and> keeps_field field dest' \<and> in_memory s')"

lemma realloc_length: "pb_realloc al ptr sz = Some b \<Longrightarrow> length b = sz"
  by (auto simp: pb_realloc_def Let_def split: option.splits)

lemma allocate_field_cases:
  assumes "in_memory s" "n * 1 < 2 ^ 64"
  obtains s' where "allocate_field al ptr n 1 s = Some (None, s')" "in_memory s'"
  | b where "allocate_field al ptr n 1 s = Some (Some b, s)" "length b = n"
proof (cases "n = 0")
  case True
  with that(1) [of "PB_SET_ERROR ''invalid size'' s"] assms(1) show thesis by (simp add: allocate_field_def PB_RETURN_ERROR_def)
next
  case False
  have "\<not> SIZE_MAX div 1 < n" using assms(2) by (simp add: SIZE_MAX_def)
  moreover have "size_mul 1 n = n" using assms(2) by (simp add: size_mul_def)
  ultimately have a: "allocate_field al ptr n 1 s =
      (case pb_realloc al ptr n of None \<Rightarrow> PB_RETURN_ERROR ''realloc failed'' s | Some ptr \<Rightarrow> Some (Some ptr, s))"
    using False by (simp add: allocate_field_def)
  show thesis
  proof (cases "pb_realloc al ptr n")
    case None
    with a that(1) [of "PB_SET_ERROR ''realloc failed'' s"] assms(1) show thesis by (simp add: PB_RETURN_ERROR_def)
  next
    case (Some b)
    with a that(2) [of b] realloc_length [OF Some] show thesis by simp
  qed
qed

lemma u32_less: "unat (v :: u32) < 2 ^ 32"
  using unsigned_less [of v, where ?'a = nat] by simp

text \<open>Filling the memory of a byte array and of a string.\<close>

lemma read_into_total:
  assumes "in_memory s"
  obtains ok p s' where "pb_read_into n s = Some (ok, p, s')" "length p \<le> n" "in_memory s'"
  using that assms by (cases "n \<le> length (visible s)") (simp_all add: read_into_memory)

lemma fill_bytes:
  assumes "in_memory s" "n + 4 \<le> length b"
  obtains ok b' s' where "put_at 0 (le_bytes 4 n) b \<bind> (\<lambda>bdest. pb_read_into n s \<bind> (\<lambda>(ok, p, s).
      put_at 4 p bdest \<bind> (\<lambda>bdest. Some (ok, wrap bdest, s)))) = Some (ok, wrap b', s')"
    "length b' = length b" "in_memory s'"
proof -
  obtain b1 where b1: "put_at 0 (le_bytes 4 n) b = Some b1" "length b1 = length b"
    using put_at_defined [of 0 "le_bytes 4 n" b] assms(2) by auto
  obtain ok p s' where p: "pb_read_into n s = Some (ok, p, s')" "length p \<le> n" "in_memory s'"
    using assms(1) by (rule read_into_total)
  obtain b2 where "put_at 4 p b1 = Some b2" "length b2 = length b1"
    using put_at_defined [of 4 p b1] p(2) b1(2) assms(2) by auto
  with p b1 that [of ok b2 s'] show thesis by simp
qed

lemma fill_string:
  assumes "in_memory s" "n + 1 \<le> length b"
  obtains ok b' s' where "pb_read_into n s \<bind> (\<lambda>(ok, p, s). put_at 0 p b \<bind> (\<lambda>bdest.
      put_at n [0] bdest \<bind> (\<lambda>bdest. Some (ok, wrap bdest, s)))) = Some (ok, wrap b', s')"
    "length b' = length b" "in_memory s'"
proof -
  obtain ok p s' where p: "pb_read_into n s = Some (ok, p, s')" "length p \<le> n" "in_memory s'"
    using assms(1) by (rule read_into_total)
  obtain b1 where b1: "put_at 0 p b = Some b1" "length b1 = length b" using put_at_defined [of 0 p b] p(2) assms(2) by auto
  obtain b2 where "put_at n [0] b1 = Some b2" "length b2 = length b1" using put_at_defined [of n "[0]" b1] b1(2) assms(2) by auto
  with p b1 that [of ok b2 s'] show thesis by simp
qed

lemma dec_bytes_defined:
  assumes s: "in_memory s" and k: "keeps_field field dest"
  shows "defined_field (pb_dec_bytes al) field s dest"
proof -
  obtain r t where t: "pb_decode_varint32 s = Some (r, t)" "in_memory t" using varint32_total s by (rule totalE)
  show ?thesis
  proof (cases r)
    case None
    with t k show ?thesis by (auto simp: defined_field_def pb_dec_bytes_def)
  next
    case (Some sz)
    have max: "\<not> PB_SIZE_MAX < sz" using u32_less [of sz] by (simp add: PB_SIZE_MAX_def word_less_nat_alt)
    have al: "size_add (unat sz) 4 = unat sz + 4" using u32_less [of sz] by (simp add: size_simps)
    note run = pb_dec_bytes_def [of al field s] t(1) Some max al
    show ?thesis
    proof (cases dest)
      case (Inline d)
      then have d: "\<not> is_pointer field" "length d = unat (pf_data_size field)" using k by (simp_all add: keeps_field_def)
      show ?thesis
      proof (cases "unat (pf_data_size field) < unat sz + 4")
        case True
        with t(2) k Inline d show ?thesis by (auto simp: defined_field_def run Let_def)
      next
        case False
        then have "unat sz + 4 \<le> length d" using d(2) by simp
        from fill_bytes [OF t(2) this, of Inline] obtain ok b' s' where
          "put_at 0 (le_bytes 4 (unat sz)) d \<bind> (\<lambda>bdest. pb_read_into (unat sz) t \<bind> (\<lambda>(ok, p, s).
              put_at 4 p bdest \<bind> (\<lambda>bdest. Some (ok, Inline bdest, s)))) = Some (ok, Inline b', s')" "length b' = length d" "in_memory s'" .
        with False Inline d show ?thesis by (auto simp: defined_field_def keeps_field_def run Let_def)
      qed
    next
      case (Pointer ptr)
      then have p: "is_pointer field" using k by (simp add: keeps_field_def)
      show ?thesis
      proof (cases "bytes_left t < unat sz")
        case True
        with t(2) k Pointer p show ?thesis by (auto simp: defined_field_def run Let_def)
      next
        case False
        have "(unat sz + 4) * 1 < 2 ^ 64" using u32_less [of sz] by simp
        with t(2) show ?thesis
        proof (cases rule: allocate_field_cases [where al = al and ptr = ptr])
          case (1 s')
          with False Pointer p k show ?thesis by (auto simp: defined_field_def run Let_def)
        next
          case (2 b)
          then have "unat sz + 4 \<le> length b" by simp
          from fill_bytes [OF t(2) this, of "\<lambda>b. Pointer (Some b)"] obtain ok b' s' where
            "put_at 0 (le_bytes 4 (unat sz)) b \<bind> (\<lambda>bdest. pb_read_into (unat sz) t \<bind> (\<lambda>(ok, p, s).
                put_at 4 p bdest \<bind> (\<lambda>bdest. Some (ok, Pointer (Some bdest), s)))) = Some (ok, Pointer (Some b'), s')" "in_memory s'" by blast
          with 2 False Pointer p show ?thesis by (auto simp: defined_field_def keeps_field_def run Let_def)
        qed
      qed
    qed
  qed
qed

lemma dec_string_defined:
  assumes s: "in_memory s" and k: "keeps_field field dest"
  shows "defined_field (pb_dec_string al) field s dest"
proof -
  obtain r t where t: "pb_decode_varint32 s = Some (r, t)" "in_memory t" using varint32_total s by (rule totalE)
  show ?thesis
  proof (cases r)
    case None
    with t k show ?thesis by (auto simp: defined_field_def pb_dec_string_def)
  next
    case (Some sz)
    note run = pb_dec_string_def [of al field s] t(1) Some
    show ?thesis
    proof (cases "sz + 1 < sz")
      case True
      with t(2) k show ?thesis by (auto simp: defined_field_def run Let_def)
    next
      case False
      then have one: "unat (sz + 1) = unat sz + 1" using unat_plus_simple [of sz 1] by (simp add: not_less)
      show ?thesis
      proof (cases dest)
        case (Inline d)
        then have d: "\<not> is_pointer field" "length d = unat (pf_data_size field)" using k by (simp_all add: keeps_field_def)
        show ?thesis
        proof (cases "pf_data_size field < sz + 1")
          case True
          with False t(2) k Inline d show ?thesis by (auto simp: defined_field_def run Let_def)
        next
          case fits: False
          then have "unat sz + 1 \<le> length d" using d(2) one by (simp add: word_less_nat_alt not_less)
          from fill_string [OF t(2) this, of Inline] obtain ok b' s' where
            "pb_read_into (unat sz) t \<bind> (\<lambda>(ok, p, s). put_at 0 p d \<bind> (\<lambda>bdest.
                put_at (unat sz) [0] bdest \<bind> (\<lambda>bdest. Some (ok, Inline bdest, s)))) = Some (ok, Inline b', s')"
            "length b' = length d" "in_memory s'" .
          with False fits Inline d show ?thesis by (auto simp: defined_field_def keeps_field_def run Let_def)
        qed
      next
        case (Pointer ptr)
        then have p: "is_pointer field" using k by (simp add: keeps_field_def)
        show ?thesis
        proof (cases "bytes_left t < unat sz")
          case True
          with False t(2) k Pointer p show ?thesis by (auto simp: defined_field_def run Let_def)
        next
          case left: False
          have "unat (sz + 1) * 1 < 2 ^ 64" using u32_less [of "sz + 1"] by simp
          with t(2) show ?thesis
          proof (cases rule: allocate_field_cases [where al = al and ptr = ptr])
            case (1 s')
            with False left Pointer p k show ?thesis by (auto simp: defined_field_def run Let_def)
          next
            case (2 b)
            then have "unat sz + 1 \<le> length b" using one by simp
            from fill_string [OF t(2) this, of "\<lambda>b. Pointer (Some b)"] obtain ok b' s' where
              "pb_read_into (unat sz) t \<bind> (\<lambda>(ok, p, s). put_at 0 p b \<bind> (\<lambda>bdest.
                  put_at (unat sz) [0] bdest \<bind> (\<lambda>bdest. Some (ok, Pointer (Some bdest), s)))) = Some (ok, Pointer (Some b'), s')"
              "in_memory s'" by blast
            with 2 False left Pointer p show ?thesis by (auto simp: defined_field_def keeps_field_def run Let_def)
          qed
        qed
      qed
    qed
  qed
qed

lemma dec_fixed_length_defined:
  assumes s: "in_memory s" and l: "length dest = unat (pf_data_size field)"
  shows "keeps_size (pb_dec_fixed_length_bytes field) s dest"
proof (rule keeps_sizeI [OF varint32_total s])
  fix sz t
  assume t: "in_memory t" "pb_decode_varint32 s = Some (Some sz, t)"
  have max: "\<not> PB_SIZE_MAX < sz" using u32_less [of sz] by (simp add: PB_SIZE_MAX_def word_less_nat_alt)
  obtain d where "put_at 0 (replicate (unat (pf_data_size field)) 0) dest = Some d" "length d = length dest"
    using put_at_defined [of 0 "replicate (unat (pf_data_size field)) 0" dest] l by auto
  then show "\<exists>ok dest' s2. pb_dec_fixed_length_bytes field s dest = Some (ok, dest', s2) \<and> length dest' = length dest \<and> in_memory s2"
  proof (cases "sz = 0 \<or> sz \<noteq> pf_data_size field")
    case True
    with \<open>put_at 0 _ dest = Some d\<close> \<open>length d = length dest\<close> t max show ?thesis
      by (auto simp: pb_dec_fixed_length_bytes_def pb_fails_def)
  next
    case False
    obtain ok p s' where p: "pb_read_into (unat (pf_data_size field)) t = Some (ok, p, s')"
      "length p \<le> unat (pf_data_size field)" "in_memory s'" using t(1) by (rule read_into_total)
    obtain d where "put_at 0 p dest = Some d" "length d = length dest" using put_at_defined [of 0 p dest] p(2) l by auto
    with p False t max show ?thesis by (auto simp: pb_dec_fixed_length_bytes_def)
  qed
qed (simp add: pb_dec_fixed_length_bytes_def)

text \<open>
  Claim C14.  The readers of the values of fields (numbers, booleans, byte arrays and strings: all that do not
  read a submessage) neither read nor write outside of the memory of the field: whatever bytes the
  stream gives, a reader that starts with the memory of its field ends with memory of the same size,
  or, for a field that is a pointer, with a block that it allocated large enough.  Nothing it does
  is undefined, and it leaves a stream that is still in memory.
\<close>

theorem pb_readers_stay_in_bounds:
  assumes "in_memory s" "length mem = unat (pf_data_size field)" "keeps_field field dest"
    "length flag = 1" "length word32 = 4" "length word64 = 8"
  shows "keeps_size (pb_dec_varint field) s mem \<and> keeps_size (pb_dec_uvarint field) s mem
    \<and> keeps_size (pb_dec_svarint field) s mem \<and> keeps_size (pb_dec_fixed_length_bytes field) s mem
    \<and> keeps_size pb_dec_bool s flag \<and> keeps_size pb_dec_fixed32 s word32 \<and> keeps_size pb_dec_fixed64 s word64
    \<and> defined_field (pb_dec_bytes al) field s dest \<and> defined_field (pb_dec_string al) field s dest"
  using numbers_keep_size(1-3) [OF assms(1,2)] bool_keeps_size [OF assms(1)] fixed32_keeps_size [OF assms(1)]
    fixed64_keeps_size [OF assms(1)] dec_fixed_length_defined [OF assms(1,2)]
    dec_bytes_defined [OF assms(1,3)] dec_string_defined [OF assms(1,3)] assms(4-6)
  by simp

text \<open>A string of five bytes that the stream does not have, for a pointer and a field of four bytes.\<close>

lemma pb_readers_stay_in_bounds_witness:
  "defined_field (pb_dec_string (\<lambda>_. Some (\<lambda>_. 0))) \<lparr>pf_tag = 1, pf_type = 0x86, pf_data_offset = 0, pf_size_offset = 0, pf_data_size = 4, pf_array_size = 0\<rparr>
     (pb_istream_from_buffer [5, 0x61] 2 :: unit pb_istream) (Pointer None) \<and> keeps_size pb_dec_fixed64 (pb_istream_from_buffer [5, 0x61] 2 :: unit pb_istream) (replicate 8 0)"
proof -
  let ?f = "\<lparr>pf_tag = 1, pf_type = 0x86, pf_data_offset = 0, pf_size_offset = 0, pf_data_size = 4, pf_array_size = 0\<rparr>"
  have k: "keeps_field ?f (Pointer None)" by (simp add: keeps_field_def is_pointer_def PB_ATYPE_def PB_ATYPE_MASK_def PB_ATYPE_POINTER_def)
  have m: "in_memory (pb_istream_from_buffer [5, 0x61] 2 :: unit pb_istream)" by (simp add: pb_istream_from_buffer_def in_memory_def buffer_of_def)
  have l: "length [0, 0, 0, 0] = unat (pf_data_size ?f)" "length [0] = 1" "length [0, 0, 0, 0] = 4" "length (replicate 8 0) = 8" by simp_all
  from pb_readers_stay_in_bounds [OF m l(1) k l(2,3,4)] show ?thesis by blast
qed

end
