(* ===== verification/Spec2Isabelle.thy ===== *)
theory Spec2Isabelle
  imports Prelude Bytes Mem PosixTime Cbs CbsAsn1 CbsTime Sort Cbb CbbSpec Der Oid SetOf Stack StackSpec Base64 Base64Spec Lhash Obj Ber
    Buf Bio BioPair BioMem BioIo BioRing BioSpec BioPipe BioMemSpec BioChannel BioSafe Unicode Asn1Str Asn1Spec Mbstring
    Pb PbSpec PbWire PbField PbValue
begin

text \<open>
  The C code that the iOS build of the app carries in \<open>src/apps/tandem/ios/Pods\<close>.  Two of its libraries
  have a core in C that everything else stands on, and these are modelled: the support modules of
  BoringSSL (\<open>BoringSSL-GRPC/src/crypto\<close>, the paths below are relative to it), with which gRPC reads and writes
  certificates, keys and its transport, and the runtime of nanopb (\<open>nanopb\<close>), with which Firestore reads
  and writes protocol buffers.

  The parts, the theories and how they interact.  Definitions have the names of the C functions and
  structs; a loop has a name of its own where it is a definition of its own (\<open>varint32_loop\<close>).

  \<^item> Vocabulary.  \<open>Prelude\<close>: the integer types, \<open>size_t\<close> arithmetic, the allocator, readers of byte strings and
    the interfaces \<open>byte_reader\<close>, \<open>codec\<close>, \<open>progress_reader\<close> and \<open>stream_codec\<close>.  \<open>Bytes\<close>: big- and little-endian
    numbers.  \<open>Mem\<close>: mem.c and the inline helpers of internal.h.  \<open>Sort\<close>: \<open>qsort\<close> and the interfaces
    \<open>comparator\<close> and \<open>exact_comparator\<close> of comparison functions.
  \<^item> Time.  \<open>PosixTime\<close>: asn1/posix_time.c.  The conversions count the days of the Gregorian calendar and
    are inverse.
  \<^item> Reading bytes.  \<open>Cbs\<close>: bytestring/cbs.c; a \<open>CBS\<close> is the list of the bytes it points to.  \<open>CbsAsn1\<close> shows
    exactly which elements, tags and integers its readers accept; \<open>CbsTime\<close> does this for times, on top of
    \<open>PosixTime\<close>.
  \<^item> Building bytes.  \<open>Cbb\<close>: bytestring/cbb.c and asn1_compat.c.  The pointers between a builder and its
    pending children are the record \<open>cbb\<close>: the buffer and the chain of children.  \<open>CbbSpec\<close> is the abstract
    builder, which knows only the bytes written, and the proof that flushing and adding refine it.
    \<open>Der\<close>: typed elements and round trips through builder and reader.  \<open>Oid\<close>: object identifiers and
    their text.  \<open>SetOf\<close>: the sorting of a SET OF.
  \<^item> BER.  \<open>Ber\<close>: bytestring/ber.c, the conversion of BER to DER, which reads with \<open>Cbs\<close> and writes with \<open>Cbb\<close>.
  \<^item> Containers.  \<open>Stack\<close>: stack/stack.c, the array of pointers with its heap sort and binary search; \<open>StackSpec\<close>
    shows sorting, searching and the operations on the list it holds.  \<open>Lhash\<close>: lhash/lhash.c, the
    hash table, with the interfaces \<open>lawful_hash\<close> and \<open>dictionary\<close>.  \<open>Obj\<close>: obj/obj.c, the registry of object
    identifiers, four hash tables that each interpret \<open>lawful_hash\<close>, over \<open>Oid\<close>.
  \<^item> Base64.  \<open>Base64\<close>: base64/base64.c; \<open>Base64Spec\<close>: blocks, streams, lengths and the stripping of space.
  \<^item> BIOs.  \<open>Buf\<close>: buf/buf.c and the checked block operations of internal.h.  \<open>Bio\<close> and \<open>BioIo\<close>: bio/bio.c and
    refcount.c; \<open>BioPair\<close>: bio/pair.c; \<open>BioMem\<close>: bio/bio_mem.c.  BIOs point to each other, so that their state is a
    store, a map from addresses to BIOs.  \<open>BioRing\<close> has the interfaces \<open>byte_channel\<close>, \<open>interleaved_channel\<close>
    and \<open>bounded_channel\<close>; \<open>BioSpec\<close> and \<open>BioPipe\<close> show that a connected pair is two bounded pipes, \<open>BioMemSpec\<close>
    that a memory BIO is an unbounded channel, \<open>BioChannel\<close> what follows for all interleavings of
    calls, and \<open>BioSafe\<close> that no call on live BIOs is undefined.
  \<^item> Strings.  \<open>Unicode\<close>: bytestring/unicode.c, with the interface \<open>charset\<close>; \<open>Asn1Str\<close>: asn1/asn1_lib.c, a_bitstr.c
    and a_octet.c, and \<open>Asn1Spec\<close> what they promise, the agreement with \<open>Cbs\<close> on BIT STRINGs included;
    \<open>Mbstring\<close>: asn1/a_mbstr.c, which reads and writes through any two of the charsets.
  \<^item> Protocol buffers.  \<open>Pb\<close>: nanopb/pb_decode.c, pb_encode.c and pb.h, the streams, the wire format and the values of
    fields.  \<open>PbSpec\<close> has the refinement of readers on memory by pure readers and the interface \<open>wire_format\<close>; \<open>PbWire\<close>
    the 32-bit varints, tags, strings and skipping; \<open>PbField\<close> and \<open>PbValue\<close> the properties of fields
    on the wire and in the memory of a message.

  How code becomes definitions.  Words are \<open>word\<close> at their width (\<open>u8\<close> to \<open>u64\<close>), \<open>size_t\<close> is a natural number with the
  wrap-around of 64 bits written out (\<open>size_add\<close>, \<open>size_mul\<close>, \<open>size_sub\<close>) and \<open>int\<close> is an integer with the range checks
  of the code.  Memory passed in is a list of bytes.  A function that returns zero or a null pointer
  gives \<open>None\<close> or an error value; what it has consumed until then stays consumed, so a reader returns the rest in
  either case.  From \<open>Buf\<close> on, where the code has assertions and accesses to blocks by offset, \<open>None\<close> is
  undefined behaviour and errors are values, and the properties show that \<open>None\<close> does not occur.
  Loops whose end depends on a callback or on the state are \<open>partial_function\<close>s, and that they return is part
  of the properties about them.  Where fuel is used it is the number of bytes left, since each
  round takes at least one; \<open>cbs_convert_ber\<close> has one more, which is shown
  to be enough.

  What the groups of lemmas show.  For each parser the exact set of inputs that it accepts, with
  its result (DER elements and integers, times, identifiers, UTF-8, 32-bit varints); for each pair of writer
  and reader the round trip; for each stateful component an invariant (\<open>cbb_wf\<close>, \<open>sk_wf\<close>, \<open>lh_ok\<close>,
  \<open>registry_ok\<close>, \<open>store_ok\<close>) that every operation keeps, and an abstract specification that it refines
  (\<open>flushed\<close>, the list of a stack, the history of a dictionary, the pipes of a pair).  Some properties record where
  the code does not do what its documentation or its purpose asks: the offset of a GeneralizedTime, \<open>OPENSSL_sk_set\<close>
  on a sorted stack, minus signs at the end of base64, the bytes that \<open>CBS_asn1_ber_to_der\<close> consumes, and
  the overflow check of \<open>pb_decode_varint32\<close>.

  Assumptions and bounds.  The allocator (\<open>malloc\<close> of the C library) is a parameter: for a size it fails or gives
  a block with arbitrary contents.  Within one call it is a function of the size; between calls of a
  history (\<open>dict_run\<close>, \<open>bio_reachable\<close>) it may change.  Some properties about success assume
  that it does not fail (\<open>always_allocates\<close>), and those about BIOs that no block is larger than the address space
  (\<open>malloc_bounded\<close>).  Comparison functions are assumed to be total preorders, as the
  callers' are, and hash functions to respect equality.  The built-in tables of object
  identifiers, which are generated, are a parameter of \<open>Obj\<close>.  A target has a \<open>size_t\<close> of 64 bits and a
  \<open>uint_fast8_t\<close> of 8 bits, as the targets of the build have.  The varints that \<open>pb_decode_varint32\<close> accepts are
  described up to 37 bytes: after these the position of the bits wraps, which is shown too.

  Not modelled.  Asymmetric cryptography, hashes and big numbers (their correctness is mathematics that is not
  developed here); keys, certificates and the template engine of ASN.1, an interpreter of descriptions over untyped
  memory; the error queue and thread-local state, which results do not depend on; locks, since one
  thread is modelled; BIOs that are system calls or formatting by the C library, BIO methods made by the
  application, chains of BIOs in the safety property; whole messages of nanopb, which tables of generated
  descriptors drive, and with them submessages, arrays and extensions.  The rest of gRPC, Firebase and
  the applications are C++, Objective-C, Swift and Dart, or C that a compiler generated.
\<close>

end
